(* ===== verification/Prelude.thy ===== *)
theory Prelude
  imports Main "HOL-Library.Word" "HOL-Library.Monad_Syntax"
begin

text \<open>
  Shared vocabulary of the development: C integer arithmetic as the sources use it
  (truncating division, conversion to the unsigned types of \<^verbatim>\<open>rtdef.h\<close>), the error codes of
  the kernel, and the generic lemmas on options, lists and words that the component
  theories use.

  A C fragment that can go wrong (a read outside an object, an indeterminate variable, a
  failed \<^verbatim>\<open>RT_ASSERT\<close>, a loop that does not end) is a computation in the option monad, and
  the wrong outcome is \<open>None\<close>. A theorem that such a computation is \<open>Some\<close> therefore says
  that none of these things happens.
\<close>

unbundle bit_operations_syntax

named_theorems c_arith "conversion and division laws of the C integer types"
named_theorems inv_intro "preservation rules of the component invariants"

section \<open>C integers\<close>

text \<open>Conversion of a C \<open>int\<close> value to the unsigned types.\<close>

definition u8 :: "int \<Rightarrow> nat" where
  "u8 x = nat (x mod 2 ^ 8)"

definition u16 :: "int \<Rightarrow> nat" where
  "u16 x = nat (x mod 2 ^ 16)"

definition u32 :: "int \<Rightarrow> nat" where
  "u32 x = nat (x mod 2 ^ 32)"

text \<open>C division truncates towards zero.\<close>

definition cdiv :: "int \<Rightarrow> int \<Rightarrow> int" where
  "cdiv a b = sgn a * sgn b * (\<bar>a\<bar> div \<bar>b\<bar>)"

lemma u8_small [c_arith, simp]: "n < 256 \<Longrightarrow> u8 (int n) = n"
  by (simp add: u8_def)

lemma u16_small [c_arith, simp]: "n < 65536 \<Longrightarrow> u16 (int n) = n"
  by (simp add: u16_def)

lemma u32_small [c_arith, simp]: "n < 4294967296 \<Longrightarrow> u32 (int n) = n"
  by (simp add: u32_def)

lemma u8_eqI: "x = int n \<Longrightarrow> n < 256 \<Longrightarrow> u8 x = n"
  by simp

lemma u16_eqI: "x = int n \<Longrightarrow> n < 65536 \<Longrightarrow> u16 x = n"
  by simp

lemma u32_eqI: "x = int n \<Longrightarrow> n < 4294967296 \<Longrightarrow> u32 x = n"
  by simp

lemma u8_less [simp]: "u8 x < 256"
  by (simp add: u8_def nat_less_iff)

lemma u16_less [simp]: "u16 x < 65536"
  by (simp add: u16_def nat_less_iff)

lemma u32_less [simp]: "u32 x < 4294967296"
  by (simp add: u32_def nat_less_iff)

lemma u16_of_diff [c_arith]: "b \<le> a \<Longrightarrow> a < 65536 \<Longrightarrow> u16 (int a - int b) = a - b"
proof -
  assume "b \<le> a" "a < 65536"
  then have "int a - int b = int (a - b)" "a - b < 65536" by auto
  then show ?thesis by (metis u16_small)
qed

lemma u16_of_neg [c_arith]: "a < b \<Longrightarrow> b - a \<le> 65536 \<Longrightarrow> u16 (int a - int b) = 65536 - (b - a)"
proof -
  assume a: "a < b" "b - a \<le> 65536"
  have "(int a - int b) mod 65536 = (int a - int b + 65536) mod 65536" by simp
  also have "\<dots> = int a - int b + 65536" using a by (intro mod_pos_pos_trivial) auto
  finally show ?thesis using a by (simp add: u16_def)
qed

lemma cdiv_nonneg [c_arith]: "0 \<le> a \<Longrightarrow> 0 < b \<Longrightarrow> cdiv a b = a div b"
  by (simp add: cdiv_def sgn_if)

lemma cdiv_neg [c_arith]: "a < 0 \<Longrightarrow> 0 < b \<Longrightarrow> cdiv a b = - ((- a) div b)"
  by (simp add: cdiv_def sgn_if)

lemma cdiv_bounds:
  assumes "0 < b" "- (k * b) \<le> a" "a \<le> k * b"
  shows "- k \<le> cdiv a b" "cdiv a b \<le> k"
proof -
  have kk: "k * b div b = k" using assms(1) by simp
  have "- k \<le> cdiv a b \<and> cdiv a b \<le> k"
  proof (cases "0 \<le> a")
    case True
    have "a div b \<le> k * b div b" using assms(1,3) by (rule_tac zdiv_mono1) auto
    moreover have "0 \<le> a div b" using True assms(1) by (simp add: pos_imp_zdiv_nonneg_iff)
    ultimately show ?thesis using True assms(1) kk by (simp add: cdiv_nonneg)
  next
    case False
    then have n: "0 \<le> - a" by simp
    have "- a div b \<le> k * b div b" using assms(1,2) by (rule_tac zdiv_mono1) auto
    moreover have "0 \<le> - a div b" using n assms(1) pos_imp_zdiv_nonneg_iff by blast
    ultimately show ?thesis using False assms(1) kk by (simp add: cdiv_neg)
  qed
  then show "- k \<le> cdiv a b" "cdiv a b \<le> k" by auto
qed

text \<open>Rounding up to a power-of-two multiple, \<^verbatim>\<open>RT_ALIGN\<close> of \<^verbatim>\<open>rtdef.h\<close>.\<close>

definition RT_ALIGN :: "32 word \<Rightarrow> 32 word \<Rightarrow> 32 word" where
  "RT_ALIGN sz al = (sz + al - 1) AND NOT (al - 1)"

lemma and_not_3: "unat ((w :: 32 word) AND NOT 3) = unat w div 4 * 4"
proof -
  have lt: "unat w < 2 ^ 32" using unsigned_less [of w, where 'a = nat] by simp
  have 3: "(3 :: 32 word) = mask 2" by (simp add: mask_eq_exp_minus_1)
  have s: "2 \<le> n \<Longrightarrow> Suc (Suc (n - 2)) = n" for n :: nat by simp
  have "w AND NOT 3 = push_bit 2 (drop_bit 2 w)"
    unfolding 3 by (rule bit_eqI) (auto simp: bit_push_bit_iff bit_drop_bit_eq bit_and_iff bit_not_iff bit_mask_iff s)
  moreover have "unat (push_bit 2 (drop_bit 2 w)) = unat w div 4 * 4"
  proof -
    have "unat (push_bit 2 (drop_bit 2 w)) = take_bit 32 (push_bit 2 (drop_bit 2 (unat w)))"
      using unsigned_less [of w, where 'a = nat] by (simp add: unsigned_push_bit_eq unsigned_drop_bit_eq take_bit_nat_eq_self)
    also have "\<dots> = unat w div 4 * 4 mod 2 ^ 32" by (simp only: take_bit_eq_mod push_bit_eq_mult drop_bit_eq_div) simp
    also have "\<dots> = unat w div 4 * 4"
      by (rule mod_less) (rule le_less_trans [OF _ lt], simp)
    finally show ?thesis .
  qed
  ultimately show ?thesis by simp
qed
lemma RT_ALIGN_4: "unat (RT_ALIGN (of_nat n) 4) = (n + 3) mod 4294967296 div 4 * 4"
proof -
  have "RT_ALIGN (of_nat n) 4 = (of_nat (n + 3) :: 32 word) AND NOT 3" by (simp add: RT_ALIGN_def add.commute)
  then show ?thesis by (simp only: and_not_3 unat_of_nat) simp
qed

section \<open>Error codes\<close>

text \<open>The error numbers of \<^verbatim>\<open>rtdef.h\<close>; functions return them negated.\<close>

datatype rt_err =
    RT_EOK | RT_ERROR | RT_ETIMEOUT | RT_EFULL | RT_EEMPTY | RT_ENOMEM
  | RT_ENOSYS | RT_EBUSY | RT_EIO | RT_EINTR | RT_EINVAL

section \<open>Options, lists and words\<close>

lemma bind_Some_iff: "(Option.bind m f = Some y) \<longleftrightarrow> (\<exists>x. m = Some x \<and> f x = Some y)"
  by (cases m) auto

lemma map_eqI: "(\<And>x y. f x = Some y \<longleftrightarrow> g x = Some y) \<Longrightarrow> f = g"
  by (rule ext) (metis not_Some_eq)

lemma word_less_unat: "(x :: 'a::len word) < y \<longleftrightarrow> unat x < unat y"
  by (rule word_less_nat_alt)

lemma uint_word_of_int_8 [c_arith]: "0 \<le> x \<Longrightarrow> x < 256 \<Longrightarrow> uint (word_of_int x :: 8 word) = x"
  by (simp add: uint_word_of_int)

end
