(* ===== verification/Color.thy ===== *)
theory Color
  imports Prelude
begin

text \<open>
  Pixels and colours, \<^verbatim>\<open>untils/color.h\<close> and the first half of \<^verbatim>\<open>untils/color.c\<close>: the frame
  buffer read by \<^verbatim>\<open>ReadColor\<close>, the conversion \<^verbatim>\<open>RGB2HSL\<close> and the threshold test
  \<^verbatim>\<open>ColorMatch\<close>. The frame buffer is a function from byte offsets to bytes together with its
  size \<^verbatim>\<open>LCD_BUF_SIZE\<close>; a read past the end is \<open>None\<close>. The debugging globals that
  \<^verbatim>\<open>ReadColor\<close> writes (\<^verbatim>\<open>x1\<close>, \<^verbatim>\<open>y1\<close>) are read nowhere and are left out.
\<close>

section \<open>Data\<close>

record TARGET_CONDITION =
  H_MIN :: "16 word"
  H_MAX :: "16 word"
  S_MIN :: "8 word"
  S_MAX :: "8 word"
  L_MIN :: "8 word"
  L_MAX :: "8 word"
  WIDTH_MIN :: "16 word"
  HEIGHT_MIN :: "16 word"
  WIDTH_MAX :: "16 word"
  HEIGHT_MAX :: "16 word"

record COLOR_HLS =
  Hue :: "8 word"
  Lightness :: "8 word"
  Saturation :: "8 word"

record COLOR_RGB =
  Red :: "8 word"
  Green :: "8 word"
  Blue :: "8 word"

type_synonym frame = "nat \<Rightarrow> 8 word"

definition LCD_WIDTH :: nat where
  "LCD_WIDTH = 320"

definition LCD_HEIGHT :: nat where
  "LCD_HEIGHT = 480"

definition LCD_BUF_SIZE :: nat where
  "LCD_BUF_SIZE = LCD_WIDTH * LCD_HEIGHT * 3"

lemma LCD_BUF_SIZE_val [simp]: "LCD_BUF_SIZE = 460800"
  by (simp add: LCD_BUF_SIZE_def LCD_WIDTH_def LCD_HEIGHT_def)

section \<open>Operations\<close>

definition ReadColor :: "frame \<Rightarrow> nat \<Rightarrow> nat \<Rightarrow> COLOR_RGB option" where
  "ReadColor fb usX usY =
     (let off = usY * 320 * 3 + usX * 3
      in if off + 2 < LCD_BUF_SIZE
         then Some \<lparr>Red = fb off, Green = fb (off + 1), Blue = fb (off + 2)\<rparr>
         else None)"

definition maxOf3Values :: "int \<Rightarrow> int \<Rightarrow> int \<Rightarrow> int" where
  "maxOf3Values v1 v2 v3 =
     (if v1 > v2 then (if v1 > v3 then v1 else v3) else (if v2 > v3 then v2 else v3))"

definition minOf3Values :: "int \<Rightarrow> int \<Rightarrow> int \<Rightarrow> int" where
  "minOf3Values v1 v2 v3 =
     (if v1 < v2 then (if v1 < v3 then v1 else v3) else (if v2 < v3 then v2 else v3))"

text \<open>
  The hue. The C variable \<^verbatim>\<open>h\<close> has no initial value, so the branch of the nested test that
  assigns nothing is \<open>None\<close>.
\<close>

definition hue_of :: "int \<Rightarrow> int \<Rightarrow> int \<Rightarrow> int option" where
  "hue_of r g b =
     (let mx = maxOf3Values r g b; mn = minOf3Values r g b; dif = mx - mn
      in if mx = mn then Some 0
         else if mx = r then
           (if mn = b then Some (cdiv (40 * (g - b)) dif)
            else if mn = g then Some (cdiv (40 * (g - b)) dif + 240)
            else None)
         else if mx = g then Some (cdiv (40 * (b - r)) dif + 80)
         else if mx = b then Some (cdiv (40 * (r - g)) dif + 160)
         else None)"

definition lightness_of :: "int \<Rightarrow> int \<Rightarrow> int \<Rightarrow> int" where
  "lightness_of r g b =
     cdiv (cdiv ((maxOf3Values r g b + minOf3Values r g b) * 240) 255) 2"

definition saturation_of :: "int \<Rightarrow> int \<Rightarrow> int \<Rightarrow> int" where
  "saturation_of r g b =
     (let mx = maxOf3Values r g b; mn = minOf3Values r g b; dif = mx - mn;
          l = lightness_of r g b
      in if mx = mn then 0
         else if l = 0 then 0
         else if l \<le> 120 then cdiv (dif * 240) (mx + mn)
         else cdiv (dif * 240) (511 - (mx + mn)))"

definition RGB2HSL :: "COLOR_RGB \<Rightarrow> COLOR_HLS option" where
  "RGB2HSL rgb =
     (let r = uint (Red rgb); g = uint (Green rgb); b = uint (Blue rgb)
      in do {
        h \<leftarrow> hue_of r g b;
        Some \<lparr>Hue = word_of_int h,
              Lightness = word_of_int (lightness_of r g b),
              Saturation = word_of_int (saturation_of r g b)\<rparr>
      })"

definition ColorMatch :: "COLOR_HLS \<Rightarrow> TARGET_CONDITION \<Rightarrow> bool" where
  "ColorMatch hls c \<longleftrightarrow>
     uint (Hue hls) > uint (H_MIN c) \<and> uint (Hue hls) < uint (H_MAX c) \<and>
     (Lightness hls > L_MIN c \<and> Lightness hls < L_MAX c) \<and>
     (Saturation hls > S_MIN c \<and> Saturation hls < S_MAX c)"

text \<open>
  The table of targets. The camera thread uses entry 0 (the object to approach) and entry 1
  (the obstacle).
\<close>

definition COLOR_NUM :: nat where
  "COLOR_NUM = 7"

definition condition :: "TARGET_CONDITION list" where
  "condition = [
    \<lparr>H_MIN = 130, H_MAX = 190, S_MIN = 90, S_MAX = 240, L_MIN = 50, L_MAX = 160,
     WIDTH_MIN = 40, HEIGHT_MIN = 40, WIDTH_MAX = 250, HEIGHT_MAX = 200\<rparr>,
    \<lparr>H_MIN = 50, H_MAX = 120, S_MIN = 90, S_MAX = 240, L_MIN = 50, L_MAX = 160,
     WIDTH_MIN = 40, HEIGHT_MIN = 40, WIDTH_MAX = 250, HEIGHT_MAX = 200\<rparr>,
    \<lparr>H_MIN = 0, H_MAX = 15, S_MIN = 130, S_MAX = 240, L_MIN = 70, L_MAX = 180,
     WIDTH_MIN = 40, HEIGHT_MIN = 40, WIDTH_MAX = 240, HEIGHT_MAX = 320\<rparr>,
    \<lparr>H_MIN = 100, H_MAX = 200, S_MIN = 70, S_MAX = 180, L_MIN = 0, L_MAX = 60,
     WIDTH_MIN = 40, HEIGHT_MIN = 40, WIDTH_MAX = 240, HEIGHT_MAX = 320\<rparr>,
    \<lparr>H_MIN = 50, H_MAX = 120, S_MIN = 100, S_MAX = 180, L_MIN = 0, L_MAX = 50,
     WIDTH_MIN = 40, HEIGHT_MIN = 40, WIDTH_MAX = 240, HEIGHT_MAX = 320\<rparr>,
    \<lparr>H_MIN = 0, H_MAX = 150, S_MIN = 0, S_MAX = 100, L_MIN = 80, L_MAX = 150,
     WIDTH_MIN = 40, HEIGHT_MIN = 40, WIDTH_MAX = 240, HEIGHT_MAX = 320\<rparr>,
    \<lparr>H_MIN = 0, H_MAX = 60, S_MIN = 70, S_MAX = 250, L_MIN = 30, L_MAX = 200,
     WIDTH_MIN = 40, HEIGHT_MIN = 40, WIDTH_MAX = 240, HEIGHT_MAX = 320\<rparr>]"

text \<open>The sequence \<^verbatim>\<open>ReadColor; RGB2HSL; ColorMatch\<close> that every scan of the vision code runs.\<close>

definition pixel_match :: "frame \<Rightarrow> TARGET_CONDITION \<Rightarrow> nat \<Rightarrow> nat \<Rightarrow> bool option" where
  "pixel_match fb c x y =
     do { rgb \<leftarrow> ReadColor fb x y; hls \<leftarrow> RGB2HSL rgb; Some (ColorMatch hls c) }"

section \<open>Minimum, maximum, hue sectors\<close>

lemma maxOf3Values_max: "maxOf3Values a b c = max a (max b c)"
  by (simp add: maxOf3Values_def max_def)

lemma minOf3Values_min: "minOf3Values a b c = min a (min b c)"
  by (simp add: minOf3Values_def min_def)

lemmas minmax3 = maxOf3Values_max minOf3Values_min

lemma hue_of_defined: "\<exists>h. hue_of r g b = Some h"
  by (auto simp: hue_of_def Let_def minmax3 min_def max_def)

lemma cdiv40_bounds:
  assumes "0 < d" "- d \<le> x" "x \<le> d"
  shows "- 40 \<le> cdiv (40 * x) d" "cdiv (40 * x) d \<le> 40"
  using cdiv_bounds [of d 40 "40 * x"] assms by simp_all

lemma hue_sector_red:
  assumes "b < r" "b \<le> g" "g \<le> r"
  shows "hue_of r g b = Some (cdiv (40 * (g - b)) (r - b))"
    and "0 \<le> cdiv (40 * (g - b)) (r - b)" "cdiv (40 * (g - b)) (r - b) \<le> 40"
proof -
  show "hue_of r g b = Some (cdiv (40 * (g - b)) (r - b))"
    using assms by (auto simp: hue_of_def Let_def minmax3 min_def max_def)
  show "0 \<le> cdiv (40 * (g - b)) (r - b)"
    using assms by (simp add: cdiv_nonneg pos_imp_zdiv_nonneg_iff)
  show "cdiv (40 * (g - b)) (r - b) \<le> 40"
    using assms cdiv40_bounds(2) [of "r - b" "g - b"] by simp
qed

lemma hue_of_bounds:
  assumes "hue_of r g b = Some h"
  shows "0 \<le> h \<and> h \<le> 240"
proof -
  let ?mx = "maxOf3Values r g b" and ?mn = "minOf3Values r g b"
  have rng: "?mn \<le> r" "?mn \<le> g" "?mn \<le> b" "r \<le> ?mx" "g \<le> ?mx" "b \<le> ?mx"
    by (auto simp: minmax3)
  have bnd: "- 40 \<le> cdiv (40 * x) (?mx - ?mn) \<and> cdiv (40 * x) (?mx - ?mn) \<le> 40"
    if "?mx \<noteq> ?mn" "- (?mx - ?mn) \<le> x" "x \<le> ?mx - ?mn" for x
  proof -
    have "0 < ?mx - ?mn" using that(1) rng by linarith
    then show ?thesis using cdiv40_bounds that by blast
  qed
  have pos: "0 \<le> cdiv (40 * (g - b)) (?mx - ?mn)" if "?mx \<noteq> ?mn" "?mn = b"
    using that rng by (simp add: cdiv_nonneg pos_imp_zdiv_nonneg_iff)
  have neg: "cdiv (40 * (g - b)) (?mx - ?mn) \<le> 0" if "?mx \<noteq> ?mn" "?mn = g"
  proof (cases "g = b")
    case True then show ?thesis by (simp add: cdiv_def)
  next
    case False
    then have "40 * (g - b) < 0" using rng that by simp
    moreover have "0 < ?mx - ?mn" using that rng by linarith
    ultimately show ?thesis by (simp add: cdiv_neg pos_imp_zdiv_nonneg_iff)
  qed
  note b1 = bnd [of "g - b"] and b2 = bnd [of "b - r"] and b3 = bnd [of "r - g"]
  show ?thesis
    using assms rng b1 b2 b3 pos neg
    by (auto simp: hue_of_def Let_def split: if_splits)
qed

section \<open>Lightness and saturation\<close>

lemma lightness_of_eq:
  assumes "0 \<le> r" "0 \<le> g" "0 \<le> b"
  shows "lightness_of r g b = (maxOf3Values r g b + minOf3Values r g b) * 240 div 255 div 2"
  using assms by (simp add: lightness_of_def cdiv_nonneg minmax3 pos_imp_zdiv_nonneg_iff)

lemma saturation_of_bounds:
  assumes "0 \<le> r" "r \<le> 255" "0 \<le> g" "g \<le> 255" "0 \<le> b" "b \<le> 255"
  shows "0 \<le> saturation_of r g b \<and> saturation_of r g b \<le> 240"
proof -
  let ?mx = "maxOf3Values r g b" and ?mn = "minOf3Values r g b"
  have mm: "0 \<le> ?mn" "?mn \<le> ?mx" "?mx \<le> 255" using assms by (auto simp: minmax3)
  have 1: "0 \<le> cdiv ((?mx - ?mn) * 240) (?mx + ?mn) \<and> cdiv ((?mx - ?mn) * 240) (?mx + ?mn) \<le> 240"
    if "?mx \<noteq> ?mn"
    using that mm cdiv_bounds(2) [of "?mx + ?mn" 240 "(?mx - ?mn) * 240"]
    by (auto simp: cdiv_nonneg pos_imp_zdiv_nonneg_iff)
  have 2: "0 \<le> cdiv ((?mx - ?mn) * 240) (511 - (?mx + ?mn)) \<and>
      cdiv ((?mx - ?mn) * 240) (511 - (?mx + ?mn)) \<le> 240"
    using mm cdiv_bounds(2) [of "511 - (?mx + ?mn)" 240 "(?mx - ?mn) * 240"]
    by (auto simp: cdiv_nonneg pos_imp_zdiv_nonneg_iff)
  show ?thesis using 1 2 by (auto simp: saturation_of_def Let_def)
qed

lemma lightness_of_bounds:
  assumes "0 \<le> r" "r \<le> 255" "0 \<le> g" "g \<le> 255" "0 \<le> b" "b \<le> 255"
  shows "0 \<le> lightness_of r g b \<and> lightness_of r g b \<le> 240"
proof -
  let ?s = "maxOf3Values r g b + minOf3Values r g b"
  have "0 \<le> ?s" "?s \<le> 510" using assms by (auto simp: minmax3)
  then have "0 \<le> ?s * 240 div 255" "?s * 240 div 255 \<le> 510 * 240 div 255"
    by (simp_all only: pos_imp_zdiv_nonneg_iff zdiv_mono1) (simp_all add: zdiv_mono1)
  then show ?thesis using assms by (simp only: lightness_of_eq) simp
qed

section \<open>Reading pixels\<close>

text \<open>Pixels whose three bytes lie inside the buffer.\<close>

definition in_frame :: "nat \<Rightarrow> nat \<Rightarrow> bool" where
  "in_frame x y \<longleftrightarrow> (y * 320 + x) < 320 * 480"

lemma ReadColor_Some_iff: "(\<exists>rgb. ReadColor fb x y = Some rgb) \<longleftrightarrow> in_frame x y"
  by (auto simp: ReadColor_def in_frame_def Let_def)

lemma RGB2HSL_total: "\<exists>hls. RGB2HSL rgb = Some hls"
  using hue_of_defined [of "uint (Red rgb)" "uint (Green rgb)" "uint (Blue rgb)"]
  by (auto simp: RGB2HSL_def Let_def)

lemma pixel_match_in: "in_frame x y \<Longrightarrow> \<exists>m. pixel_match fb c x y = Some m"
  unfolding pixel_match_def
  by (metis ReadColor_Some_iff RGB2HSL_total bind.bind_lunit)

lemma pixel_match_out: "\<not> in_frame x y \<Longrightarrow> pixel_match fb c x y = None"
  by (auto simp: pixel_match_def in_frame_def ReadColor_def)

section \<open>What a match says about the pixel\<close>

lemma uint8_range: "0 \<le> uint (w :: 8 word)" "uint (w :: 8 word) \<le> 255"
  using uint_lt2p [of w] by simp_all

lemma RGB2HSL_fields:
  assumes "RGB2HSL rgb = Some hls"
  obtains h where "hue_of (uint (Red rgb)) (uint (Green rgb)) (uint (Blue rgb)) = Some h"
    and "uint (Hue hls) = h" "0 \<le> h" "h \<le> 240"
    and "uint (Lightness hls) = lightness_of (uint (Red rgb)) (uint (Green rgb)) (uint (Blue rgb))"
    and "uint (Saturation hls) = saturation_of (uint (Red rgb)) (uint (Green rgb)) (uint (Blue rgb))"
proof -
  let ?r = "uint (Red rgb)" and ?g = "uint (Green rgb)" and ?b = "uint (Blue rgb)"
  from assms obtain h where h: "hue_of ?r ?g ?b = Some h"
    and hls: "hls = \<lparr>Hue = word_of_int h, Lightness = word_of_int (lightness_of ?r ?g ?b),
                  Saturation = word_of_int (saturation_of ?r ?g ?b)\<rparr>"
    by (auto simp: RGB2HSL_def Let_def bind_Some_iff)
  note hb = hue_of_bounds [OF h]
  note lb = lightness_of_bounds [of ?r ?g ?b] and sb = saturation_of_bounds [of ?r ?g ?b]
  show thesis
    using that [OF h] hls hb lb sb by (simp add: uint8_range uint_word_of_int_8)
qed

text \<open>The conversion is total (the hue variable is always assigned before it is read, and
  no division is by zero) and all three components are in the range [0, 240] that
  \<^verbatim>\<open>color.h\<close> documents, so storing them in bytes loses nothing.\<close>

theorem RGB2HSL_range:
  "\<exists>hls. RGB2HSL rgb = Some hls \<and> uint (Hue hls) \<le> 240 \<and>
     uint (Lightness hls) \<le> 240 \<and> uint (Saturation hls) \<le> 240"
proof -
  obtain hls where h: "RGB2HSL rgb = Some hls" using RGB2HSL_total by blast
  show ?thesis
    using h lightness_of_bounds saturation_of_bounds
    by (rule_tac exI [of _ hls], cases rule: RGB2HSL_fields [OF h])
       (auto simp: uint8_range)
qed

lemma hue_sector_blue:
  assumes "hue_of r g b = Some h" "120 < h" "h < 200"
  shows "r < b \<and> g < b"
proof -
  have rng: "minOf3Values r g b \<le> g" "minOf3Values r g b \<le> b" "minOf3Values r g b \<le> r"
    "g \<le> maxOf3Values r g b" "b \<le> maxOf3Values r g b" "r \<le> maxOf3Values r g b"
    by (auto simp: minmax3)
  then have c: "cdiv (40 * x) (maxOf3Values r g b - minOf3Values r g b) \<le> 40"
    "- 40 \<le> cdiv (40 * x) (maxOf3Values r g b - minOf3Values r g b)"
    if "maxOf3Values r g b \<noteq> minOf3Values r g b" "x = g - b \<or> x = b - r" for x
    using that by (auto intro!: cdiv40_bounds)
  have "maxOf3Values r g b \<noteq> minOf3Values r g b" using assms by (auto simp: hue_of_def)
  then have "maxOf3Values r g b \<noteq> r" "maxOf3Values r g b \<noteq> g"
    using assms c [of "g - b"] c [of "b - r"]
    by (auto simp: hue_of_def Let_def split: if_splits)
  then show ?thesis using rng by (auto simp: minmax3 max_def split: if_splits)
qed

lemma hue_sector_green:
  assumes "hue_of r g b = Some h" "40 < h" "h < 120"
  shows "r < g \<and> b < g"
proof -
  let ?mx = "maxOf3Values r g b" and ?mn = "minOf3Values r g b"
  have rng: "?mn \<le> g" "?mn \<le> b" "?mn \<le> r" "g \<le> ?mx" "b \<le> ?mx" "r \<le> ?mx"
    by (auto simp: minmax3)
  then have c: "cdiv (40 * x) (?mx - ?mn) \<le> 40 \<and> - 40 \<le> cdiv (40 * x) (?mx - ?mn)"
    if "?mx \<noteq> ?mn" "x = g - b \<or> x = r - g" for x
    using that cdiv40_bounds [of "?mx - ?mn" x] by (cases "x = g - b") auto
  have ne: "?mx \<noteq> ?mn" using assms by (auto simp: hue_of_def)
  then have g: "?mx \<noteq> r" "?mx = g"
    using assms c [of "g - b"] c [of "r - g"]
    by (auto simp: hue_of_def Let_def split: if_splits)
  have h: "h = cdiv (40 * (b - r)) (?mx - ?mn) + 80"
    using assms(1) ne g by (auto simp: hue_of_def Let_def)
  have "b \<noteq> g"
  proof
    assume "b = g"
    then have "?mn = r" "?mx = b" using g by (auto simp: minmax3)
    then have "h = cdiv (40 * (b - r)) (b - r) + 80" "b - r > 0" using h ne rng by auto
    then have "h = 40 * (b - r) div (b - r) + 80" by (subst (asm) cdiv_nonneg) auto
    also have "40 * (b - r) div (b - r) = 40"
      by (rule nonzero_mult_div_cancel_right) (use \<open>b - r > 0\<close> in simp)
    finally have "h = 120" by simp
    then show False using assms by simp
  qed
  then show ?thesis using g rng by (auto simp: order_less_le)
qed

text \<open>Entry 0 of the target table (the object the robot approaches) only accepts pixels
  whose blue channel is strictly the largest; entry 1 (the obstacle) only accepts pixels
  whose green channel is strictly the largest. No pixel is taken for both.\<close>

theorem target_conditions_colour:
  assumes "RGB2HSL rgb = Some hls"
  shows "(ColorMatch hls (condition ! 0) \<longrightarrow> Red rgb < Blue rgb \<and> Green rgb < Blue rgb) \<and>
    (ColorMatch hls (condition ! 1) \<longrightarrow> Red rgb < Green rgb \<and> Blue rgb < Green rgb)"
  using assms
proof (cases rule: RGB2HSL_fields)
  case (1 h)
  have "120 < h \<and> h < 200" if "ColorMatch hls (condition ! 0)"
    using that 1(2) by (simp add: ColorMatch_def condition_def)
  moreover have "40 < h \<and> h < 120" if "ColorMatch hls (condition ! 1)"
    using that 1(2) by (simp add: ColorMatch_def condition_def)
  ultimately show ?thesis
    using hue_sector_blue [OF 1(1)] hue_sector_green [OF 1(1)] unfolding word_less_def by blast
qed

theorem target_conditions_colour_witness:
  "\<exists>hls. RGB2HSL \<lparr>Red = 30, Green = 40, Blue = 200\<rparr> = Some hls \<and>
     ColorMatch hls (condition ! 0) \<and> (30 :: 8 word) < 200 \<and> (40 :: 8 word) < 200"
proof -
  let ?p = "\<lparr>Red = 30, Green = 40, Blue = 200\<rparr>"
  let ?h = "\<lparr>Hue = 158, Lightness = 108, Saturation = 177\<rparr>"
  have e: "RGB2HSL ?p = Some ?h"
    by code_simp
  have m: "ColorMatch ?h (condition ! 0)" by (simp add: ColorMatch_def condition_def)
  show ?thesis using e m target_conditions_colour [OF e] by auto
qed

text \<open>A grey pixel (equal channels, so black and white too) gets hue 0 and saturation 0,
  and no condition whatever accepts it, because the hue test is strict. In particular the
  entry that \<^verbatim>\<open>color.c\<close> labels White never accepts a white pixel.\<close>

theorem grey_never_matches:
  assumes "Red rgb = Green rgb" "Green rgb = Blue rgb" "RGB2HSL rgb = Some hls"
  shows "Hue hls = 0 \<and> Saturation hls = 0 \<and> \<not> ColorMatch hls c"
  using assms
  by (auto simp: RGB2HSL_def hue_of_def saturation_of_def minmax3 Let_def ColorMatch_def)

theorem grey_never_matches_witness:
  "\<not> ColorMatch \<lparr>Hue = 0, Lightness = 240, Saturation = 0\<rparr> (condition ! 5)"
proof -
  have e: "RGB2HSL \<lparr>Red = 255, Green = 255, Blue = 255\<rparr> =
      Some \<lparr>Hue = 0, Lightness = 240, Saturation = 0\<rparr>"
    by code_simp
  show ?thesis using grey_never_matches [OF _ _ e, of "condition ! 5"] by simp
qed

end
