(* ===== verification/Vision.thy ===== *)
theory Vision
  imports Color
begin

text \<open>
  The blob tracker, second half of \<^verbatim>\<open>untils/color.c\<close>: \<^verbatim>\<open>SearchCenter\<close> looks for the first
  block whose central cross matches the wanted colour, \<^verbatim>\<open>Corrode\<close> grows it to a bounding
  box, \<^verbatim>\<open>Draw\<close> probes four points around the inscribed circle, \<^verbatim>\<open>Trace\<close> puts them
  together. All of them run in the option monad: \<open>None\<close> is a read outside the frame buffer,
  the use of an indeterminate variable, or a loop that does not end.

  Loop counters are naturals; the conversions of the \<^verbatim>\<open>uint16_t\<close> variables and parameters
  are written out with \<open>u16\<close> where the C expression can leave the range.
\<close>

section \<open>Data\<close>

record SEARCH_AREA =
  X_Start :: "16 word"
  X_End :: "16 word"
  Y_Start :: "16 word"
  Y_End :: "16 word"

record RESULT =
  obj_x :: nat
  obj_y :: nat
  obj_w :: nat
  obj_h :: nat
  obj_Xmin :: nat
  obj_Ymin :: nat
  obj_Xmax :: nat
  obj_Ymax :: nat
  obj_object :: nat

definition IMG_X :: nat where "IMG_X = 0"
definition IMG_Y :: nat where "IMG_Y = 0"
definition IMG_W :: nat where "IMG_W = 320"
definition IMG_H :: nat where "IMG_H = 480"
definition OBJECT_NUM :: nat where "OBJECT_NUM = 4"

lemmas img_defs = IMG_X_def IMG_Y_def IMG_W_def IMG_H_def

section \<open>SearchCenter\<close>

text \<open>
  The inner loop over \<^verbatim>\<open>k\<close>: first the middle row of the block, then its middle column; it
  is left as soon as more than six pixels fail. The value says whether \<^verbatim>\<open>k\<close> reached
  \<^verbatim>\<open>SpaceX+SpaceY\<close>.
\<close>

function probe_cross ::
  "frame \<Rightarrow> TARGET_CONDITION \<Rightarrow> nat \<Rightarrow> nat \<Rightarrow> nat \<Rightarrow> nat \<Rightarrow> nat \<Rightarrow> nat \<Rightarrow> bool option"
where
  "probe_cross fb c SpaceX SpaceY j i k FailCount =
     (if k < SpaceX + SpaceY then
        do {
          m \<leftarrow> (if k < SpaceX
               then pixel_match fb c (u16 (int j + int k)) (u16 (int i + int (SpaceY div 2)))
               else pixel_match fb c (u16 (int j + int (SpaceX div 2)))
                      (u16 (int i + int k - int SpaceX)));
          let fc = (if m then FailCount else Suc FailCount) in
          if fc > 6 then Some False
          else probe_cross fb c SpaceX SpaceY j i (Suc k) fc
        }
      else Some True)"
  by pat_completeness auto
termination
  by (relation "measure (\<lambda>(fb, c, sx, sy, j, i, k, fc). sx + sy - k)") auto

declare probe_cross.simps [simp del]

text \<open>
  The two outer loops. Their counters are \<^verbatim>\<open>uint16_t\<close> and wrap, so they need not end (a step
  of 0, or an end close to 65535); \<open>None\<close> is also that.
\<close>

partial_function (option) search_row ::
  "frame \<Rightarrow> TARGET_CONDITION \<Rightarrow> nat \<Rightarrow> nat \<Rightarrow> nat \<Rightarrow> nat \<Rightarrow> nat \<Rightarrow> (nat \<times> nat) option option"
where
  "search_row fb c SpaceX SpaceY xend i j =
     (if j < xend then
        do {
          hit \<leftarrow> probe_cross fb c SpaceX SpaceY j i 0 0;
          if hit then Some (Some (u16 (int j + int (SpaceX div 2)), u16 (int i + int (SpaceY div 2))))
          else search_row fb c SpaceX SpaceY xend i (u16 (int j + int SpaceX))
        }
      else Some None)"

partial_function (option) search_rows ::
  "frame \<Rightarrow> TARGET_CONDITION \<Rightarrow> nat \<Rightarrow> nat \<Rightarrow> nat \<Rightarrow> nat \<Rightarrow> nat \<Rightarrow> nat \<Rightarrow> (nat \<times> nat) option option"
where
  "search_rows fb c SpaceX SpaceY xstart xend yend i =
     (if i < yend then
        do {
          r \<leftarrow> search_row fb c SpaceX SpaceY xend i xstart;
          (case r of
             Some p \<Rightarrow> Some (Some p)
           | None \<Rightarrow> search_rows fb c SpaceX SpaceY xstart xend yend (u16 (int i + int SpaceY)))
        }
      else Some None)"

declare search_row.simps [code] search_rows.simps [code]

definition SearchCenter ::
  "frame \<Rightarrow> TARGET_CONDITION \<Rightarrow> SEARCH_AREA \<Rightarrow> (nat \<times> nat) option option" where
  "SearchCenter fb c a =
     (let SpaceX = unat (WIDTH_MIN c) div 3; SpaceY = unat (HEIGHT_MIN c) div 3
      in search_rows fb c SpaceX SpaceY (unat (X_Start a)) (unat (X_End a)) (unat (Y_End a))
           (unat (Y_Start a)))"

section \<open>Corrode\<close>

text \<open>
  The six scans of \<^verbatim>\<open>Corrode\<close> have two shapes: a counter that falls to the image border and
  one that rises to it, both leaving the loop (without moving the counter) when the count
  of mismatches exceeds a threshold. \<open>rd\<close> is the pixel test at the counter.
\<close>

fun scan_down :: "(nat \<Rightarrow> bool option) \<Rightarrow> nat \<Rightarrow> nat \<Rightarrow> nat \<Rightarrow> nat option" where
  "scan_down rd thr FailCount 0 = Some 0"
| "scan_down rd thr FailCount (Suc i) =
     do {
       m \<leftarrow> rd (Suc i);
       let fc = (if m then FailCount else Suc FailCount) in
       if fc > thr then Some (Suc i) else scan_down rd thr fc i
     }"

function scan_up :: "(nat \<Rightarrow> bool option) \<Rightarrow> nat \<Rightarrow> nat \<Rightarrow> nat \<Rightarrow> nat \<Rightarrow> nat option" where
  "scan_up rd lim thr FailCount i =
     (if i < lim then
        do {
          m \<leftarrow> rd i;
          let fc = (if m then FailCount else Suc FailCount) in
          if fc > thr then Some i else scan_up rd lim thr fc (Suc i)
        }
      else Some i)"
  by pat_completeness auto
termination
  by (relation "measure (\<lambda>(rd, lim, thr, fc, i). lim - i)") auto

declare scan_up.simps [simp del]

text \<open>
  The variables the two box loops update: the extent found so far, the largest extent, and
  the counter at which it was found (\<^verbatim>\<open>dis_x\<close>, which has no initial value).
\<close>

record extent =
  ext_min :: nat
  ext_max :: nat
  ext_dist :: nat
  ext_at :: "nat option"

definition extent_step :: "nat \<Rightarrow> nat \<Rightarrow> nat \<Rightarrow> extent \<Rightarrow> extent" where
  "extent_step i lo hi e =
     (let mn = (if lo < ext_min e then lo else ext_min e);
          mx = (if hi > ext_max e then hi else ext_max e)
      in if int mx - int mn > int (ext_dist e)
         then \<lparr>ext_min = mn, ext_max = mx, ext_dist = u16 (int mx - int mn), ext_at = Some i\<rparr>
         else e\<lparr>ext_min := mn, ext_max := mx\<rparr>)"

function corrode_cols ::
  "frame \<Rightarrow> TARGET_CONDITION \<Rightarrow> nat \<Rightarrow> nat \<Rightarrow> nat \<Rightarrow> nat \<Rightarrow> extent \<Rightarrow> extent option" where
  "corrode_cols fb c thr dis_y xmax i e =
     (if i < xmax then
        do {
          lo \<leftarrow> scan_down (\<lambda>j. pixel_match fb c i j) thr 0 dis_y;
          hi \<leftarrow> scan_up (\<lambda>j. pixel_match fb c i j) (IMG_Y + IMG_H) thr 0 dis_y;
          corrode_cols fb c thr dis_y xmax (Suc i) (extent_step i lo hi e)
        }
      else Some e)"
  by pat_completeness auto
termination
  by (relation "measure (\<lambda>(fb, c, thr, y, xmax, i, e). xmax - i)") auto

function corrode_rows ::
  "frame \<Rightarrow> TARGET_CONDITION \<Rightarrow> nat \<Rightarrow> nat option \<Rightarrow> nat \<Rightarrow> nat \<Rightarrow> extent \<Rightarrow> extent option" where
  "corrode_rows fb c thr dis_x ymax i e =
     (if i < ymax then
        do {
          dx \<leftarrow> dis_x;
          lo \<leftarrow> scan_down (\<lambda>j. pixel_match fb c j i) thr 0 dx;
          hi \<leftarrow> scan_up (\<lambda>j. pixel_match fb c j i) (IMG_X + IMG_W) thr 0 dx;
          corrode_rows fb c thr dis_x ymax (Suc i) (extent_step i lo hi e)
        }
      else Some e)"
  by pat_completeness auto
termination
  by (relation "measure (\<lambda>(fb, c, thr, x, ymax, i, e). ymax - i)") auto

declare corrode_cols.simps [simp del] corrode_rows.simps [simp del]

text \<open>
  \<^verbatim>\<open>Draw\<close>: the Bresenham loop only moves \<^verbatim>\<open>a\<close> and \<^verbatim>\<open>b\<close>; then four points outside the
  circle are probed, always with \<^verbatim>\<open>condition[0]\<close>, and the matches are counted.
\<close>

function draw_loop :: "int \<Rightarrow> int \<Rightarrow> int \<Rightarrow> int \<times> int" where
  "draw_loop a b di =
     (if a \<le> b then
        (let a' = a + 1 in
         if di < 0 then draw_loop a' b (di + (4 * a' + 6))
         else draw_loop a' (b - 1) (di + (10 + 4 * (a' - b))))
      else (a, b))"
  by pat_completeness auto
termination
  by (relation "measure (\<lambda>(a, b, di). nat (b + 1 - a))") auto

declare draw_loop.simps [simp del]

definition count_match :: "frame \<Rightarrow> TARGET_CONDITION \<Rightarrow> int \<Rightarrow> int \<Rightarrow> nat \<Rightarrow> nat option" where
  "count_match fb c x y n =
     do { m \<leftarrow> pixel_match fb c (u16 x) (u16 y); Some (if m then Suc n else n) }"

definition Draw :: "frame \<Rightarrow> nat \<Rightarrow> nat \<Rightarrow> nat \<Rightarrow> nat option" where
  "Draw fb x0 y0 r =
     (let ab = draw_loop 0 (int r) (3 - int r * 2); a = fst ab; b = snd ab; c = condition ! 0
      in do {
        n1 \<leftarrow> count_match fb c (int x0 - a - 5) (int y0 - b - 6) 0;
        n2 \<leftarrow> count_match fb c (int x0 + a + 5) (int y0 - b - 6) n1;
        n3 \<leftarrow> count_match fb c (int x0 - a - 5) (int y0 + b + 6) n2;
        count_match fb c (int x0 + a + 5) (int y0 + b + 6) n3
      })"

text \<open>
  The tail of \<^verbatim>\<open>Corrode\<close>: the box is shrunk by three pixels on each side (in \<^verbatim>\<open>uint16_t\<close>),
  the corners and \<^verbatim>\<open>Draw\<close> decide the shape, and the box is stored. The second component is
  the return value.
\<close>

definition corrode_finish ::
  "frame \<Rightarrow> TARGET_CONDITION \<Rightarrow> nat \<Rightarrow> nat \<Rightarrow> nat \<Rightarrow> nat \<Rightarrow> (RESULT \<times> bool) option" where
  "corrode_finish fb c Xmin0 Xmax0 Ymin0 Ymax0 =
     (let Xmax = u16 (int Xmax0 - 3); Xmin = u16 (int Xmin0 + 3);
          Ymax = u16 (int Ymax0 - 3); Ymin = u16 (int Ymin0 + 3);
          distance_X = u16 (int Xmax - int Xmin); distance_Y = u16 (int Ymax - int Ymin)
      in do {
        n1 \<leftarrow> count_match fb c (int Xmin + 3) (int Ymin + 3) 0;
        n2 \<leftarrow> count_match fb c (int Xmax - 3) (int Ymin + 3) n1;
        n3 \<leftarrow> count_match fb c (int Xmin + 3) (int Ymax) n2;
        n4 \<leftarrow> count_match fb c (int Xmax) (int Ymax - 3) n3;
        d \<leftarrow> Draw fb (u16 (int Xmin + int (distance_X div 2)))
                (u16 (int Ymin + int (distance_Y div 2))) (u8 (int (distance_Y div 2)));
        let res = \<lparr>obj_x = u16 (int Xmin + int (distance_X div 2)),
                   obj_y = u16 (int Ymin + int (distance_Y div 2)),
                   obj_w = distance_X, obj_h = distance_Y,
                   obj_Xmin = Xmin, obj_Ymin = Ymin, obj_Xmax = Xmax, obj_Ymax = Ymax,
                   obj_object = (if u16 (int (n4 + d)) < 2 then 0 else 1)\<rparr> in
        Some (res, distance_X < unat (WIDTH_MAX c) \<and> distance_Y < unat (HEIGHT_MAX c))
      })"

definition corrode_box ::
  "frame \<Rightarrow> nat \<Rightarrow> nat \<Rightarrow> TARGET_CONDITION \<Rightarrow> (nat \<times> nat \<times> nat \<times> nat) option" where
  "corrode_box fb oldX oldY c =
     (let thr1 = unat (WIDTH_MIN c) div 4; thr2 = unat (WIDTH_MIN c) div 3
      in do {
        xmin \<leftarrow> scan_down (\<lambda>x. pixel_match fb c x oldY) thr1 0 oldX;
        xmax \<leftarrow> scan_up (\<lambda>x. pixel_match fb c x oldY) (IMG_X + IMG_W) thr1 0 oldX;
        ey \<leftarrow> corrode_cols fb c thr2 oldY xmax xmin
                \<lparr>ext_min = oldY, ext_max = oldY, ext_dist = 0, ext_at = None\<rparr>;
        ex \<leftarrow> corrode_rows fb c thr2 (ext_at ey) (ext_max ey) (ext_min ey)
                \<lparr>ext_min = xmin, ext_max = xmax, ext_dist = 0, ext_at = None\<rparr>;
        Some (ext_min ex, ext_max ex, ext_min ey, ext_max ey)
      })"

definition Corrode ::
  "frame \<Rightarrow> nat \<Rightarrow> nat \<Rightarrow> TARGET_CONDITION \<Rightarrow> (RESULT \<times> bool) option" where
  "Corrode fb oldX oldY c =
     do {
       (Xmin, Xmax, Ymin, Ymax) \<leftarrow> corrode_box fb oldX oldY c;
       corrode_finish fb c Xmin Xmax Ymin Ymax
     }"

section \<open>Trace\<close>

definition full_area :: SEARCH_AREA where
  "full_area = \<lparr>X_Start = 0, X_End = 320, Y_Start = 0, Y_End = 240\<rparr>"

text \<open>
  \<^verbatim>\<open>Trace\<close> reads the search area at index \<open>p\<close> of the array \<^verbatim>\<open>area\<close>. On failure of the
  search it resets that entry; after a successful recognition it moves the start of the
  entry \<^verbatim>\<open>control_num+1\<close> places further. The result is the new array and, for the return
  value 1, the recognised object.
\<close>

definition Trace ::
  "frame \<Rightarrow> TARGET_CONDITION \<Rightarrow> SEARCH_AREA list \<Rightarrow> nat \<Rightarrow> nat \<Rightarrow>
     (SEARCH_AREA list \<times> RESULT option) option" where
  "Trace fb c areas p control_num =
     (if p < length areas then
        do {
          r \<leftarrow> SearchCenter fb c (areas ! p);
          (case r of
             None \<Rightarrow> Some (areas[p := full_area], None)
           | Some (x0, y0) \<Rightarrow>
               do {
                 (res, ok) \<leftarrow> Corrode fb x0 y0 c;
                 if ok then
                   if control_num + 1 < OBJECT_NUM then
                     if p + control_num + 1 < length areas then
                       Some (areas[p + control_num + 1 :=
                          (areas ! (p + control_num + 1))
                            \<lparr>X_Start := 0, Y_Start := of_nat (obj_Ymin res)\<rparr>], Some res)
                     else None
                   else Some (areas, Some res)
                 else Some (areas, None)
               })
        }
      else None)"

section \<open>The search: equivalence with a reference\<close>

text \<open>The pixels of the cross of a block, in the order the code visits them.\<close>

definition cross_points :: "nat \<Rightarrow> nat \<Rightarrow> nat \<Rightarrow> nat \<Rightarrow> (nat \<times> nat) list" where
  "cross_points sx sy j i =
     map (\<lambda>k. (j + k, i + sy div 2)) [0..<sx] @ map (\<lambda>k. (j + sx div 2, i + k)) [0..<sy]"

definition misses :: "frame \<Rightarrow> TARGET_CONDITION \<Rightarrow> (nat \<times> nat) list \<Rightarrow> nat" where
  "misses fb c ps = length (filter (\<lambda>(x, y). pixel_match fb c x y = Some False) ps)"

lemma misses_simps [simp]:
  "misses fb c [] = 0"
  "misses fb c ((x, y) # ps) = (if pixel_match fb c x y = Some False then 1 else 0) + misses fb c ps"
  by (simp_all add: misses_def)

lemma cross_points_length [simp]: "length (cross_points sx sy j i) = sx + sy"
  by (simp add: cross_points_def)

lemma cross_points_nth:
  "k < sx + sy \<Longrightarrow> cross_points sx sy j i ! k =
     (if k < sx then (j + k, i + sy div 2) else (j + sx div 2, i + k - sx))"
  by (auto simp: cross_points_def nth_append)

lemma cross_read:
  assumes "j + sx < 65536" "i + sy < 65536" "k < sx + sy" "cross_points sx sy j i ! k = (x, y)"
  shows "(if k < sx then pixel_match fb c (u16 (int j + int k)) (u16 (int i + int (sy div 2)))
       else pixel_match fb c (u16 (int j + int (sx div 2))) (u16 (int i + int k - int sx))) =
    pixel_match fb c x y"
proof (cases "k < sx")
  case True
  have "j + k < 65536" "i + sy div 2 < 65536" using True assms(1,2) by linarith+
  then have "u16 (int j + int k) = j + k" "u16 (int i + int (sy div 2)) = i + sy div 2"
    by (metis of_nat_add u16_small)+
  then show ?thesis using assms(3,4) True by (simp add: cross_points_nth)
next
  case False
  have "j + sx div 2 < 65536" "i + k < 131072" "i + k - sx < 65536"
    using False assms(1,2,3) by linarith+
  moreover have "int i + int k - int sx = int (i + k - sx)" using False by simp
  ultimately have "u16 (int j + int (sx div 2)) = j + sx div 2"
    "u16 (int i + int k - int sx) = i + k - sx"
    by (metis of_nat_add u16_small, metis u16_small)
  then show ?thesis using assms(3,4) False by (simp add: cross_points_nth)
qed

lemma probe_cross_drop:
  assumes "j + sx < 65536" "i + sy < 65536"
    and "\<And>p. p \<in> set (cross_points sx sy j i) \<Longrightarrow> in_frame (fst p) (snd p)"
    and "fc \<le> 6"
  shows "probe_cross fb c sx sy j i k fc =
    Some (fc + misses fb c (drop k (cross_points sx sy j i)) \<le> 6)"
  using assms(4)
proof (induction "sx + sy - k" arbitrary: k fc)
  case 0
  then show ?case by (subst probe_cross.simps) simp
next
  case (Suc n)
  let ?ps = "cross_points sx sy j i"
  from Suc.hyps(2) have k: "k < sx + sy" by simp
  obtain x y where xy: "?ps ! k = (x, y)" by (cases "?ps ! k")
  have "(x, y) \<in> set ?ps" using k xy by (metis cross_points_length nth_mem)
  then obtain m where m: "pixel_match fb c x y = Some m"
    using assms(3) pixel_match_in by fastforce
  have d: "drop k ?ps = (x, y) # drop (Suc k) ?ps"
    using k xy by (metis Cons_nth_drop_Suc cross_points_length)
  note IH = Suc.hyps(1) [of "Suc k"]
  note rd = cross_read [OF assms(1,2) k xy, of fb c]
  show ?case
  proof (cases m)
    case True
    then show ?thesis using k m d rd IH [of fc] Suc.hyps(2) Suc.prems
      by (subst probe_cross.simps) simp
  next
    case False
    then show ?thesis using k m d rd IH [of "Suc fc"] Suc.hyps(2) Suc.prems
      by (subst probe_cross.simps) (auto simp: Let_def not_less_eq_eq)
  qed
qed

text \<open>The block positions, row by row, that the two outer loops visit.\<close>

function stops :: "nat \<Rightarrow> nat \<Rightarrow> nat \<Rightarrow> nat list" where
  "stops d e s = (if 0 < d \<and> s < e then s # stops d e (s + d) else [])"
  by pat_completeness auto
termination
  by (relation "measure (\<lambda>(d, e, s). e - s)") auto

declare stops.simps [simp del]

definition blocks :: "nat \<Rightarrow> nat \<Rightarrow> SEARCH_AREA \<Rightarrow> (nat \<times> nat) list" where
  "blocks sx sy a =
     concat (map (\<lambda>i. map (\<lambda>j. (j, i)) (stops sx (unat (X_End a)) (unat (X_Start a))))
       (stops sy (unat (Y_End a)) (unat (Y_Start a))))"

definition search_ref :: "frame \<Rightarrow> TARGET_CONDITION \<Rightarrow> SEARCH_AREA \<Rightarrow> (nat \<times> nat) option" where
  "search_ref fb c a =
     (let sx = unat (WIDTH_MIN c) div 3; sy = unat (HEIGHT_MIN c) div 3
      in map_option (\<lambda>(j, i). (j + sx div 2, i + sy div 2))
           (List.find (\<lambda>(j, i). misses fb c (cross_points sx sy j i) \<le> 6) (blocks sx sy a)))"

text \<open>The search areas and conditions for which every block lies inside the frame buffer.\<close>

definition search_ok :: "TARGET_CONDITION \<Rightarrow> SEARCH_AREA \<Rightarrow> bool" where
  "search_ok c a \<longleftrightarrow> 3 \<le> unat (WIDTH_MIN c) \<and> unat (WIDTH_MIN c) \<le> 320 \<and>
     3 \<le> unat (HEIGHT_MIN c) \<and> unat (HEIGHT_MIN c) \<le> 480 \<and>
     unat (X_End a) \<le> 320 \<and> unat (Y_End a) \<le> 240"

lemma find_append_split:
  "List.find P (xs @ ys) = (case List.find P xs of Some x \<Rightarrow> Some x | None \<Rightarrow> List.find P ys)"
  by (induction xs) auto

lemma find_map_pair: "List.find P (map f xs) = map_option f (List.find (P \<circ> f) xs)"
  by (induction xs) auto

lemma cross_points_in_frame:
  assumes "j < 320" "i < 240" "sx \<le> 106" "sy \<le> 160" "p \<in> set (cross_points sx sy j i)"
  shows "in_frame (fst p) (snd p)"
  using assms by (auto simp: cross_points_def in_frame_def)

lemma probe_block:
  assumes "j < 320" "i < 240" "sx \<le> 106" "sy \<le> 160"
  shows "probe_cross fb c sx sy j i 0 0 = Some (misses fb c (cross_points sx sy j i) \<le> 6)"
  using probe_cross_drop [of j sx i sy 0 fb c 0] cross_points_in_frame [OF assms] assms by simp

lemma search_row_find:
  assumes "xend \<le> 320" "i < 240" "0 < sx" "sx \<le> 106" "sy \<le> 160"
  shows "search_row fb c sx sy xend i j =
    Some (map_option (\<lambda>j. (j + sx div 2, i + sy div 2))
      (List.find (\<lambda>j. misses fb c (cross_points sx sy j i) \<le> 6) (stops sx xend j)))"
proof (induction "xend - j" arbitrary: j rule: less_induct)
  case less
  show ?case
  proof (cases "j < xend")
    case False
    then show ?thesis by (subst search_row.simps, subst stops.simps) simp
  next
    case True
    have j: "j < 320" and js: "u16 (int j + int sx) = j + sx" "u16 (int j + int (sx div 2)) = j + sx div 2"
      "u16 (int i + int (sy div 2)) = i + sy div 2"
      using True assms u16_small [of "j + sx"] u16_small [of "j + sx div 2"]
        u16_small [of "i + sy div 2"] by simp_all
    note p = probe_block [OF j assms(2,4,5), of fb c]
    have st: "stops sx xend j = j # stops sx xend (j + sx)"
      using True assms(3) by (subst stops.simps) simp
    show ?thesis
    proof (cases "misses fb c (cross_points sx sy j i) \<le> 6")
      case hit: True
      then show ?thesis using True p js st by (subst search_row.simps) simp
    next
      case False
      then show ?thesis
        using True p js st less.hyps [of "j + sx"] assms(3) by (subst search_row.simps) simp
    qed
  qed
qed

lemma search_rows_find:
  assumes "xend \<le> 320" "yend \<le> 240" "0 < sx" "sx \<le> 106" "0 < sy" "sy \<le> 160"
  shows "search_rows fb c sx sy xstart xend yend i =
    Some (map_option (\<lambda>(j, i). (j + sx div 2, i + sy div 2))
      (List.find (\<lambda>(j, i). misses fb c (cross_points sx sy j i) \<le> 6)
        (concat (map (\<lambda>i. map (\<lambda>j. (j, i)) (stops sx xend xstart)) (stops sy yend i)))))"
proof (induction "yend - i" arbitrary: i rule: less_induct)
  case less
  show ?case
  proof (cases "i < yend")
    case False
    then show ?thesis by (subst search_rows.simps, subst stops.simps) simp
  next
    case True
    have i: "i < 240" using True assms(2) by simp
    have iw: "u16 (int i + int sy) = i + sy"
      using i assms(6) u16_small [of "i + sy"] by simp
    have st: "stops sy yend i = i # stops sy yend (i + sy)"
      using True assms(5) by (subst stops.simps) simp
    note row = search_row_find [OF assms(1) i assms(3,4,6), of fb c xstart]
    show ?thesis
    proof (cases "List.find (\<lambda>j. misses fb c (cross_points sx sy j i) \<le> 6) (stops sx xend xstart)")
      case None
      then show ?thesis
        using True row st iw less.hyps [of "i + sy"] assms(5)
        by (subst search_rows.simps) (simp add: find_append_split find_map_pair comp_def)
    next
      case (Some j)
      then show ?thesis
        using True row st
        by (subst search_rows.simps) (simp add: find_append_split find_map_pair comp_def)
    qed
  qed
qed

text \<open>The configured targets are searched in the full camera image.\<close>

lemma condition_search_ok: "c \<in> set condition \<Longrightarrow> search_ok c full_area"
  by (auto simp: condition_def search_ok_def full_area_def)

lemma search_center_ok:
  assumes "search_ok c a"
  shows "SearchCenter fb c a = Some (search_ref fb c a)"
proof -
  have "0 < unat (WIDTH_MIN c) div 3" "unat (WIDTH_MIN c) div 3 \<le> 106"
    "0 < unat (HEIGHT_MIN c) div 3" "unat (HEIGHT_MIN c) div 3 \<le> 160"
    "unat (X_End a) \<le> 320" "unat (Y_End a) \<le> 240"
    using assms by (auto simp: search_ok_def)
  then show ?thesis
    by (simp add: SearchCenter_def search_ref_def blocks_def search_rows_find Let_def)
qed

text \<open>For every search area inside the camera image and every condition with a minimum size
  of at least three pixels, \<^verbatim>\<open>SearchCenter\<close> returns, reads only inside the frame buffer,
  and computes the reference search: the centre of the first block, in row-major order of
  the block grid, of whose cross at most six pixels miss the colour.\<close>

theorem SearchCenter_spec:
  assumes "search_ok c a"
  shows "SearchCenter fb c a = Some (search_ref fb c a)"
  using assms by (rule search_center_ok)

theorem SearchCenter_spec_witness:
  "SearchCenter (\<lambda>_. 0) (condition ! 0) full_area =
     Some (search_ref (\<lambda>_. 0) (condition ! 0) full_area)"
  by (rule SearchCenter_spec) code_simp

section \<open>Line scans\<close>

text \<open>
  The interface between the scans and the frame buffer: a line of \<open>n\<close> readable pixels. The
  rows and the columns of the frame are its interpretations.
\<close>

definition line_misses :: "(nat \<Rightarrow> bool option) \<Rightarrow> nat \<Rightarrow> nat \<Rightarrow> nat" where
  "line_misses rd a b = length (filter (\<lambda>k. rd k = Some False) [a..<b])"

lemma line_misses_le: "line_misses rd a b \<le> b - a"
  by (metis length_filter_le length_upt line_misses_def)

lemma line_misses_empty [simp]: "b \<le> a \<Longrightarrow> line_misses rd a b = 0"
  by (simp add: line_misses_def)

lemma line_misses_low:
  "a < b \<Longrightarrow> line_misses rd a b = (if rd a = Some False then 1 else 0) + line_misses rd (Suc a) b"
  by (simp add: line_misses_def upt_conv_Cons)

lemma line_misses_high:
  "a \<le> b \<Longrightarrow> line_misses rd a (Suc b) = line_misses rd a b + (if rd b = Some False then 1 else 0)"
  by (simp add: line_misses_def)

locale line_reader =
  fixes rd :: "nat \<Rightarrow> bool option" and n :: nat
  assumes rd_in: "i < n \<Longrightarrow> \<exists>m. rd i = Some m"
begin

lemma scan_up_spec:
  assumes "i \<le> lim" "lim \<le> n" "fc \<le> thr"
  shows "\<exists>r. scan_up rd lim thr fc i = Some r \<and> i \<le> r \<and> r \<le> lim \<and>
    (if r < lim then fc + line_misses rd i (Suc r) = Suc thr
     else fc + line_misses rd i lim \<le> thr)"
  using assms(1,3)
proof (induction "lim - i" arbitrary: i fc)
  case 0
  then show ?case by (subst scan_up.simps) simp
next
  case (Suc k)
  then have i: "i < lim" by simp
  then obtain m where m: "rd i = Some m" using rd_in assms(2) by fastforce
  show ?case
  proof (cases "\<not> m \<and> fc = thr")
    case True
    then show ?thesis using i m by (subst scan_up.simps) (auto simp: line_misses_low)
  next
    case False
    let ?fc = "if m then fc else Suc fc"
    have fc: "?fc \<le> thr" using False Suc.prems by auto
    have "k = lim - Suc i" "Suc i \<le> lim" using Suc.hyps(2) i by simp_all
    from Suc.hyps(1) [OF this fc]
    obtain r where "scan_up rd lim thr ?fc (Suc i) = Some r" "Suc i \<le> r" "r \<le> lim"
      "if r < lim then ?fc + line_misses rd (Suc i) (Suc r) = Suc thr
       else ?fc + line_misses rd (Suc i) lim \<le> thr"
      by blast
    then show ?thesis
      using i m fc by (subst scan_up.simps) (auto simp: line_misses_low Let_def split: if_splits)
  qed
qed

lemma scan_down_spec:
  assumes "i < n" "fc \<le> thr"
  shows "\<exists>r. scan_down rd thr fc i = Some r \<and> r \<le> i \<and>
    (if 0 < r then fc + line_misses rd r (Suc i) = Suc thr
     else fc + line_misses rd 1 (Suc i) \<le> thr)"
  using assms
proof (induction i arbitrary: fc)
  case 0
  then show ?case by simp
next
  case (Suc i)
  obtain m where m: "rd (Suc i) = Some m" using rd_in Suc.prems by blast
  show ?case
  proof (cases "\<not> m \<and> fc = thr")
    case True
    then show ?thesis using m by (auto simp: line_misses_high Suc_le_eq)
  next
    case False
    let ?fc = "if m then fc else Suc fc"
    have fc: "?fc \<le> thr" using False Suc.prems by auto
    have "i < n" using Suc.prems by simp
    from Suc.IH [OF this fc]
    obtain r where "scan_down rd thr ?fc i = Some r" "r \<le> i"
      "if 0 < r then ?fc + line_misses rd r (Suc i) = Suc thr
       else ?fc + line_misses rd 1 (Suc i) \<le> thr"
      by blast
    then show ?thesis
      using m fc by (auto simp: Let_def line_misses_high split: if_splits)
  qed
qed

lemma scan_up_reach:
  assumes "i \<le> lim" "lim \<le> n"
  obtains r where "scan_up rd lim thr 0 i = Some r" "i \<le> r" "r \<le> lim" "r = lim \<or> i + thr \<le> r"
proof -
  from scan_up_spec [OF assms, of 0 thr] obtain r where r: "scan_up rd lim thr 0 i = Some r"
    "i \<le> r" "r \<le> lim" "r < lim \<Longrightarrow> line_misses rd i (Suc r) = Suc thr"
    by (auto split: if_splits)
  have "r = lim \<or> i + thr \<le> r"
    using r(2-4) line_misses_le [of rd i "Suc r"] by (cases "r = lim") auto
  then show thesis using that r by blast
qed

lemma scan_down_reach:
  assumes "i < n"
  obtains r where "scan_down rd thr 0 i = Some r" "r \<le> i" "r = 0 \<or> r + thr \<le> i"
proof -
  from scan_down_spec [OF assms, of 0 thr] obtain r where r: "scan_down rd thr 0 i = Some r"
    "r \<le> i" "0 < r \<Longrightarrow> line_misses rd r (Suc i) = Suc thr"
    by (auto split: if_splits)
  have "r = 0 \<or> r + thr \<le> i"
    using r(2,3) line_misses_le [of rd r "Suc i"] by (cases "r = 0") auto
  then show thesis using that r by blast
qed

end

interpretation frame_column: line_reader
  "\<lambda>j. pixel_match fb c x j" "if x < 320 then 480 else 0" for fb c x
  by unfold_locales (auto intro!: pixel_match_in simp: in_frame_def split: if_splits)

interpretation frame_row: line_reader
  "\<lambda>j. pixel_match fb c j y" "if y < 480 then 320 else 0" for fb c y
  by unfold_locales (auto intro!: pixel_match_in simp: in_frame_def split: if_splits)

section \<open>The bounding box\<close>

text \<open>
  The two facts the box loops keep: the extent contains the start coordinate and stays below
  the image size, and the remembered counter is one of those visited and is set as soon as
  the extent is not a point.
\<close>

definition extent_ok :: "nat \<Rightarrow> nat \<Rightarrow> nat \<Rightarrow> extent \<Rightarrow> bool" where
  "extent_ok lo hi N e \<longleftrightarrow> ext_min e \<le> lo \<and> hi \<le> ext_max e \<and> ext_max e \<le> N"

definition extent_at_ok :: "nat \<Rightarrow> extent \<Rightarrow> bool" where
  "extent_at_ok M e \<longleftrightarrow> ext_max e - ext_min e \<le> ext_dist e \<and>
     (case ext_at e of None \<Rightarrow> ext_dist e = 0 | Some i \<Rightarrow> i < M)"

lemma extent_step_ok [inv_intro]:
  "extent_ok p q N e \<Longrightarrow> hi \<le> N \<Longrightarrow> extent_ok (min lo p) (max hi q) N (extent_step i lo hi e)"
  by (auto simp: extent_ok_def extent_step_def Let_def)

lemma extent_step_at_ok [inv_intro]:
  "extent_at_ok M e \<Longrightarrow> extent_ok p q N e \<Longrightarrow> p \<le> q \<Longrightarrow> N < 65536 \<Longrightarrow> hi \<le> N \<Longrightarrow> i < M
    \<Longrightarrow> extent_at_ok M (extent_step i lo hi e)"
  by (auto simp: extent_at_ok_def extent_ok_def extent_step_def Let_def c_arith
      split: option.splits if_splits)

lemma extent_ok_mono: "extent_ok p q N e \<Longrightarrow> p \<le> p' \<Longrightarrow> q' \<le> q \<Longrightarrow> extent_ok p' q' N e"
  by (auto simp: extent_ok_def)

lemma corrode_cols_box:
  assumes "xmax \<le> 320" "y < 480" "i \<le> xmax" "extent_ok p q 480 e" "p \<le> q" "extent_at_ok 320 e"
  shows "\<exists>e'. corrode_cols fb c thr y xmax i e = Some e' \<and> extent_ok p q 480 e' \<and>
    extent_at_ok 320 e' \<and>
    (i < xmax \<longrightarrow> (ext_min e' = 0 \<or> ext_min e' + thr \<le> y) \<and> (ext_max e' = 480 \<or> y + thr \<le> ext_max e'))"
  using assms(3-6)
proof (induction "xmax - i" arbitrary: i e p q)
  case 0
  then show ?case by (subst corrode_cols.simps) simp
next
  case (Suc k)
  then have i: "i < xmax" "i < 320" using assms(1) by simp_all
  obtain lo where lo: "scan_down (\<lambda>j. pixel_match fb c i j) thr 0 y = Some lo" "lo \<le> y"
    "lo = 0 \<or> lo + thr \<le> y"
    using frame_column.scan_down_reach [of y i fb c thr] i assms(2) by auto
  obtain hi where hi: "scan_up (\<lambda>j. pixel_match fb c i j) (IMG_Y + IMG_H) thr 0 y = Some hi"
    "y \<le> hi" "hi \<le> 480" "hi = 480 \<or> y + thr \<le> hi"
    using frame_column.scan_up_reach [of y 480 i fb c thr] i assms(2) by (auto simp: img_defs)
  let ?e = "extent_step i lo hi e"
  have e: "extent_ok (min lo p) (max hi q) 480 ?e" "extent_at_ok 320 ?e"
    using extent_step_ok [OF Suc.prems(2) hi(3)]
      extent_step_at_ok [OF Suc.prems(4,2,3) _ hi(3) i(2)] by simp_all
  have k: "k = xmax - Suc i" "Suc i \<le> xmax" "min lo p \<le> max hi q"
    using Suc.hyps(2) i(1) Suc.prems(3) by auto
  from Suc.hyps(1) [OF k(1,2) e(1) k(3) e(2)] obtain e' where
    e': "corrode_cols fb c thr y xmax (Suc i) ?e = Some e'" "extent_ok (min lo p) (max hi q) 480 e'"
    "extent_at_ok 320 e'" by blast
  moreover have "extent_ok p q 480 e'" using e'(2) by (rule extent_ok_mono) auto
  moreover have "(ext_min e' = 0 \<or> ext_min e' + thr \<le> y) \<and> (ext_max e' = 480 \<or> y + thr \<le> ext_max e')"
    using e'(2) lo(3) hi(3,4) by (auto simp: extent_ok_def)
  ultimately show ?case using i(1) lo(1) hi(1) by (subst corrode_cols.simps) simp
qed

lemma corrode_rows_box:
  assumes "ymax \<le> 480" "i < ymax \<Longrightarrow> \<exists>x < 320. dx = Some x" "extent_ok p q 320 e"
  shows "\<exists>e'. corrode_rows fb c thr dx ymax i e = Some e' \<and> extent_ok p q 320 e'"
  using assms(2,3)
proof (induction "ymax - i" arbitrary: i e)
  case 0
  then show ?case by (subst corrode_rows.simps) simp
next
  case (Suc k)
  then have i: "i < ymax" "i < 480" using assms(1) by simp_all
  then obtain x where x: "dx = Some x" "x < 320" using Suc.prems(1) by blast
  obtain lo where lo: "scan_down (\<lambda>j. pixel_match fb c j i) thr 0 x = Some lo"
    using frame_row.scan_down_reach [of x i fb c thr] i x by auto
  obtain hi where hi: "scan_up (\<lambda>j. pixel_match fb c j i) (IMG_X + IMG_W) thr 0 x = Some hi" "hi \<le> 320"
    using frame_row.scan_up_reach [of x 320 i fb c thr] i x by (auto simp: img_defs)
  have e: "extent_ok p q 320 (extent_step i lo hi e)"
    using extent_ok_mono [OF extent_step_ok [OF Suc.prems(2) hi(2)]] by simp
  have k: "k = ymax - Suc i" using Suc.hyps(2) by simp
  from Suc.hyps(1) [OF k _ e] x obtain e' where
    "corrode_rows fb c thr dx ymax (Suc i) (extent_step i lo hi e) = Some e'" "extent_ok p q 320 e'"
    by blast
  then show ?case using i(1) lo hi(1) x by (subst corrode_rows.simps) simp
qed

lemma corrode_box_ok:
  assumes "oldX < 320" "oldY < 480" "4 \<le> unat (WIDTH_MIN c)"
  shows "\<exists>Xmin Xmax Ymin Ymax. corrode_box fb oldX oldY c = Some (Xmin, Xmax, Ymin, Ymax) \<and>
    Xmin \<le> oldX \<and> oldX < Xmax \<and> Xmax \<le> 320 \<and> Ymin \<le> oldY \<and> oldY < Ymax \<and> Ymax \<le> 480 \<and>
    (Xmin = 0 \<or> Xmin + unat (WIDTH_MIN c) div 4 \<le> oldX) \<and>
    (Xmax = 320 \<or> oldX + unat (WIDTH_MIN c) div 4 \<le> Xmax) \<and>
    (Ymin = 0 \<or> Ymin + unat (WIDTH_MIN c) div 3 \<le> oldY) \<and>
    (Ymax = 480 \<or> oldY + unat (WIDTH_MIN c) div 3 \<le> Ymax)"
proof -
  let ?t1 = "unat (WIDTH_MIN c) div 4" and ?t2 = "unat (WIDTH_MIN c) div 3"
  have t: "0 < ?t1" "0 < ?t2" using assms(3) by simp_all
  obtain a where a: "scan_down (\<lambda>x. pixel_match fb c x oldY) ?t1 0 oldX = Some a" "a \<le> oldX"
    "a = 0 \<or> a + ?t1 \<le> oldX"
    using frame_row.scan_down_reach [of oldX oldY fb c ?t1] assms by auto
  obtain b where b: "scan_up (\<lambda>x. pixel_match fb c x oldY) (IMG_X + IMG_W) ?t1 0 oldX = Some b"
    "b \<le> 320" "b = 320 \<or> oldX + ?t1 \<le> b"
    using frame_row.scan_up_reach [of oldX 320 oldY fb c ?t1] assms by (auto simp: img_defs)
  have ab: "a < b" "oldX < b" using a b t(1) assms(1) by auto
  let ?e = "\<lparr>ext_min = oldY, ext_max = oldY, ext_dist = 0, ext_at = None\<rparr>"
  have e: "extent_ok oldY oldY 480 ?e" "extent_at_ok 320 ?e"
    using assms(2) by (auto simp: extent_ok_def extent_at_ok_def)
  from corrode_cols_box [OF b(2) assms(2) _ e(1) _ e(2), of a fb c ?t2] ab obtain ey where
    ey: "corrode_cols fb c ?t2 oldY b a ?e = Some ey" "extent_ok oldY oldY 480 ey" "extent_at_ok 320 ey"
    "ext_min ey = 0 \<or> ext_min ey + ?t2 \<le> oldY" "ext_max ey = 480 \<or> oldY + ?t2 \<le> ext_max ey" by auto
  have dx: "ext_min ey < ext_max ey \<Longrightarrow> \<exists>x<320. ext_at ey = Some x"
    using ey(3) by (auto simp: extent_at_ok_def split: option.splits)
  let ?f = "\<lparr>ext_min = a, ext_max = b, ext_dist = 0, ext_at = None\<rparr>"
  have f: "extent_ok a b 320 ?f" using b(2) by (simp add: extent_ok_def)
  have y: "ext_max ey \<le> 480" using ey(2) by (simp add: extent_ok_def)
  from corrode_rows_box [OF y dx f] obtain ex where
    ex: "corrode_rows fb c ?t2 (ext_at ey) (ext_max ey) (ext_min ey) ?f = Some ex" "extent_ok a b 320 ex"
    by blast
  have "corrode_box fb oldX oldY c = Some (ext_min ex, ext_max ex, ext_min ey, ext_max ey)"
    using a(1) b(1) ey(1) ex(1) by (simp add: corrode_box_def Let_def)
  moreover have "oldY < ext_max ey" using ey(5) t(2) assms(2) by auto
  ultimately show ?thesis using a b ab ey(2,4,5) ex(2) by (auto simp: extent_ok_def)
qed

text \<open>Started at any pixel of the image, the growing phase of \<^verbatim>\<open>Corrode\<close> returns, never reads
  outside the frame buffer nor the indeterminate \<^verbatim>\<open>dis_x\<close>, and yields a box inside the image
  that contains the start pixel and extends, in each direction, to the border or at least as
  far as the tolerance of that direction: a quarter of the minimum width horizontally, a
  third of it vertically.\<close>

theorem corrode_box_spec:
  assumes "oldX < 320" "oldY < 480" "4 \<le> unat (WIDTH_MIN c)"
  shows "\<exists>Xmin Xmax Ymin Ymax. corrode_box fb oldX oldY c = Some (Xmin, Xmax, Ymin, Ymax) \<and>
    Xmin \<le> oldX \<and> oldX < Xmax \<and> Xmax \<le> 320 \<and> Ymin \<le> oldY \<and> oldY < Ymax \<and> Ymax \<le> 480 \<and>
    (Xmin = 0 \<or> Xmin + unat (WIDTH_MIN c) div 4 \<le> oldX) \<and>
    (Xmax = 320 \<or> oldX + unat (WIDTH_MIN c) div 4 \<le> Xmax) \<and>
    (Ymin = 0 \<or> Ymin + unat (WIDTH_MIN c) div 3 \<le> oldY) \<and>
    (Ymax = 480 \<or> oldY + unat (WIDTH_MIN c) div 3 \<le> Ymax)"
  using assms by (rule corrode_box_ok)

theorem corrode_box_spec_witness:
  "\<exists>Xmin Xmax Ymin Ymax. corrode_box (\<lambda>_. 7) 160 6 (condition ! 1) = Some (Xmin, Xmax, Ymin, Ymax) \<and>
    Xmin \<le> 160 \<and> 160 < Xmax \<and> Xmax \<le> 320 \<and> Ymin \<le> 6 \<and> 6 < Ymax \<and> Ymax \<le> 480 \<and>
    (Xmin = 0 \<or> Xmin + unat (WIDTH_MIN (condition ! 1)) div 4 \<le> 160) \<and>
    (Xmax = 320 \<or> 160 + unat (WIDTH_MIN (condition ! 1)) div 4 \<le> Xmax) \<and>
    (Ymin = 0 \<or> Ymin + unat (WIDTH_MIN (condition ! 1)) div 3 \<le> 6) \<and>
    (Ymax = 480 \<or> 6 + unat (WIDTH_MIN (condition ! 1)) div 3 \<le> Ymax)"
  by (rule corrode_box_spec [of 160 6 "condition ! 1" "\<lambda>_. 7"]) (simp_all add: condition_def)

section \<open>The shape probes\<close>

lemma draw_loop_end: "b < a \<Longrightarrow> draw_loop a b di = (a, b)"
  by (subst draw_loop.simps) simp

lemma draw_loop_bounds:
  "0 \<le> a \<Longrightarrow> a \<le> b + 1 \<Longrightarrow> draw_loop a b di = (a', b') \<Longrightarrow>
    a \<le> a' \<and> a' \<le> b + 1 \<and> a - 1 \<le> b' + 1 \<and> b' \<le> b"
proof (induction a b di arbitrary: a' b' rule: draw_loop.induct)
  case (1 a b di)
  show ?case
  proof (cases "a \<le> b")
    case False
    then show ?thesis using "1.prems" by (simp add: draw_loop_end)
  next
    case True
    show ?thesis
    proof (cases "di < 0")
      case neg: True
      then have "draw_loop (a + 1) b (di + (4 * (a + 1) + 6)) = (a', b')"
        using True "1.prems"(3) by (subst (asm) draw_loop.simps) simp
      then show ?thesis using "1.IH"(1) [OF True refl neg] True "1.prems"(1) by simp
    next
      case False
      then have d: "draw_loop (a + 1) (b - 1) (di + (10 + 4 * (a + 1 - b))) = (a', b')"
        using True "1.prems"(3) by (subst (asm) draw_loop.simps) simp
      show ?thesis
      proof (cases "a + 1 \<le> b")
        case le: True
        then show ?thesis using "1.IH"(2) [OF True refl False _ _ d] "1.prems"(1) by simp
      next
        case gt: False
        then have "a' = a + 1" "b' = b - 1" using d by (simp_all add: draw_loop_end)
        then show ?thesis using True by simp
      qed
    qed
  qed
qed

lemma draw_loop_radius:
  assumes "draw_loop 0 (int r) di = (a, b)"
  shows "0 \<le> a" "a \<le> int r + 1" "- 2 \<le> b" "b \<le> int r"
  using draw_loop_bounds [OF _ _ assms] by simp_all

lemma count_match_le: "count_match fb c x y n = Some m \<Longrightarrow> m \<le> Suc n"
  by (auto simp: count_match_def bind_Some_iff)

lemma count_match_in:
  assumes "0 \<le> x" "x < 320" "0 \<le> y" "y < 480"
  obtains m where "count_match fb c x y n = Some m" "m \<le> Suc n"
proof -
  have "u16 x < 320" "u16 y < 480" using assms by (simp_all add: u16_def)
  then obtain b where "pixel_match fb c (u16 x) (u16 y) = Some b"
    using pixel_match_in by (fastforce simp: in_frame_def)
  then show thesis using that by (simp add: count_match_def split: if_splits)
qed

text \<open>A circle that keeps a margin of seven pixels to every border of the image is probed
  inside the frame buffer, and \<^verbatim>\<open>Draw\<close> returns a count between 0 and 4.\<close>

theorem Draw_in_frame:
  assumes "r + 7 \<le> x0" "x0 + r + 7 \<le> 320" "r + 7 \<le> y0" "y0 + r + 7 \<le> 480"
  shows "\<exists>n \<le> 4. Draw fb x0 y0 r = Some n"
proof -
  obtain a b where ab: "draw_loop 0 (int r) (3 - int r * 2) = (a, b)" by fastforce
  let ?c = "condition ! 0"
  note B = draw_loop_radius [OF ab]
  obtain n1 where n1: "count_match fb ?c (int x0 - a - 5) (int y0 - b - 6) 0 = Some n1" "n1 \<le> Suc 0"
    by (rule count_match_in [of "int x0 - a - 5" "int y0 - b - 6"]) (use B assms in auto)
  obtain n2 where n2: "count_match fb ?c (int x0 + a + 5) (int y0 - b - 6) n1 = Some n2" "n2 \<le> Suc n1"
    by (rule count_match_in [of "int x0 + a + 5" "int y0 - b - 6"]) (use B assms in auto)
  obtain n3 where n3: "count_match fb ?c (int x0 - a - 5) (int y0 + b + 6) n2 = Some n3" "n3 \<le> Suc n2"
    by (rule count_match_in [of "int x0 - a - 5" "int y0 + b + 6"]) (use B assms in auto)
  obtain n4 where n4: "count_match fb ?c (int x0 + a + 5) (int y0 + b + 6) n3 = Some n4" "n4 \<le> Suc n3"
    by (rule count_match_in [of "int x0 + a + 5" "int y0 + b + 6"]) (use B assms in auto)
  show ?thesis using ab n1 n2 n3 n4 by (simp add: Draw_def Let_def)
qed

theorem Draw_in_frame_witness: "\<exists>n \<le> 4. Draw (\<lambda>_. 0) 160 240 20 = Some n"
  by (rule Draw_in_frame) simp_all

lemma draw_loop_half:
  "draw_loop a b di = (a', b') \<Longrightarrow> a \<le> b \<Longrightarrow> a + b < 2 * a' \<and> a' \<le> b' + 2"
proof (induction a b di arbitrary: a' b' rule: draw_loop.induct)
  case (1 a b di)
  show ?case
  proof (cases "di < 0")
    case True
    then have d: "draw_loop (a + 1) b (di + (4 * (a + 1) + 6)) = (a', b')"
      using "1.prems" by (subst (asm) draw_loop.simps) simp
    show ?thesis
    proof (cases "a + 1 \<le> b")
      case le: True
      then show ?thesis using "1.IH"(1) [OF "1.prems"(2) refl True d] by simp
    next
      case False
      then show ?thesis using d "1.prems"(2) by (simp add: draw_loop_end)
    qed
  next
    case False
    then have d: "draw_loop (a + 1) (b - 1) (di + (10 + 4 * (a + 1 - b))) = (a', b')"
      using "1.prems" by (subst (asm) draw_loop.simps) simp
    show ?thesis
    proof (cases "a + 1 \<le> b - 1")
      case le: True
      then show ?thesis using "1.IH"(2) [OF "1.prems"(2) refl False d] by simp
    next
      case gt: False
      then show ?thesis using d "1.prems"(2) by (simp add: draw_loop_end)
    qed
  qed
qed

lemma count_match_left:
  assumes "x < 0" "- 250 \<le> x" "276 \<le> y" "y < 65536"
  shows "count_match fb c x y n = None"
proof -
  have "x mod 65536 = (x + 65536) mod 65536" by simp
  also have "\<dots> = x + 65536" using assms by (intro mod_pos_pos_trivial) auto
  finally have "65286 \<le> u16 x" "276 \<le> u16 y" using assms by (simp_all add: u16_def)
  then show ?thesis by (simp add: count_match_def pixel_match_def ReadColor_def Let_def)
qed

text \<open>The corner probes of the tail are arbitrary here: whatever they yield, \<^verbatim>\<open>Draw\<close> decides.\<close>

lemma corrode_finish_Draw_None:
  assumes "Draw fb x y r = None" "3 \<le> X1 - X0" "6 \<le> Y1 - Y0" "X0 + 6 \<le> X1" "X1 \<le> 320" "Y1 \<le> 480"
    and "x = X0 + 3 + (X1 - X0 - 6) div 2" "y = Y0 + 3 + (Y1 - Y0 - 6) div 2" "r = (Y1 - Y0 - 6) div 2"
  shows "corrode_finish fb c X0 X1 Y0 Y1 = None"
proof -
  have u: "u16 (int X1 - 3) = X1 - 3" "u16 (int X0 + 3) = X0 + 3"
    "u16 (int Y1 - 3) = Y1 - 3" "u16 (int Y0 + 3) = Y0 + 3"
    "u16 (int (X1 - 3) - int (X0 + 3)) = X1 - X0 - 6" "u16 (int (Y1 - 3) - int (Y0 + 3)) = Y1 - Y0 - 6"
    using assms(2-6) by (auto intro!: u16_eqI)
  have v: "u16 (int (X0 + 3) + int ((X1 - X0 - 6) div 2)) = x"
    "u16 (int (Y0 + 3) + int ((Y1 - Y0 - 6) div 2)) = y" "u8 (int ((Y1 - Y0 - 6) div 2)) = r"
    using assms(2-6) unfolding assms(7-9) by (intro u16_eqI u8_eqI; simp; linarith)+
  show ?thesis
    unfolding corrode_finish_def Let_def u v using assms(1) by (auto split: bind_splits)
qed

text \<open>A narrow, tall blob at the left border makes \<^verbatim>\<open>Corrode\<close> read outside the frame buffer: the
  radius that \<^verbatim>\<open>Draw\<close> uses comes from the height alone, so its left probes have a negative
  column, which wraps in \<^verbatim>\<open>uint16_t\<close>, and from row 276 on the wrapped offset is past the end.\<close>

theorem corrode_finish_left_edge:
  assumes "6 \<le> X1" "X1 \<le> 20" "Y0 + 60 \<le> Y1" "Y1 \<le> 480" "1160 \<le> Y0 + 3 * Y1"
  shows "corrode_finish fb c 0 X1 Y0 Y1 = None"
proof -
  define r where "r = (Y1 - Y0 - 6) div 2"
  define x where "x = 3 + (X1 - 6) div 2"
  define y where "y = Y0 + 3 + r"
  obtain a b where ab: "draw_loop 0 (int r) (3 - int r * 2) = (a, b)" by fastforce
  have ra: "int r < 2 * a" "a \<le> b + 2" using draw_loop_half [OF ab] by simp_all
  have rb: "2 * int r + 7 \<ge> int Y1 - int Y0" "int r \<le> 237" "27 \<le> r" unfolding r_def using assms by linarith+
  have xy: "int x \<le> 10" "int y = int Y0 + 3 + int r" unfolding x_def y_def using assms by linarith+
  have "int x - a - 5 < 0" "- 250 \<le> int x - a - 5" "276 \<le> int y + b + 6" "int y + b + 6 < 65536"
    using xy ra rb draw_loop_radius(2,4) [OF ab] assms(3-5) by linarith+
  then have "count_match fb (condition ! 0) (int x - a - 5) (int y + b + 6) n = None" for n
    by (rule count_match_left)
  then have "Draw fb x y r = None" using ab by (auto simp: Draw_def Let_def split: bind_splits)
  then show ?thesis
    by (rule corrode_finish_Draw_None) (use assms in \<open>auto simp: r_def x_def y_def\<close>)
qed

theorem corrode_finish_left_edge_witness:
  "corrode_finish (\<lambda>_. 0) (condition ! 0) 0 18 200 340 = None"
  by (rule corrode_finish_left_edge) simp_all

section \<open>What \<open>Trace\<close> reports\<close>

text \<open>
  The final test compares the shrunk size with the maximum of the target. When the box is
  narrower than six pixels the size wraps to more than 65000 and the test fails, so an
  accepted object has an ordered box.
\<close>

lemma shrunk_size:
  assumes "a < b" "b \<le> 480"
  shows "u16 (int (u16 (int b - 3)) - int (u16 (int a + 3))) =
    (if a + 6 \<le> b then b - a - 6 else 65536 - (a + 6 - b))"
proof -
  have "(int (u16 (int b - 3)) - int (u16 (int a + 3))) mod 65536 = ((int b - 3) - (int a + 3)) mod 65536"
    unfolding u16_def by (simp add: mod_diff_eq)
  also have "(int b - 3) - (int a + 3) = int b - int (a + 6)" by simp
  finally have "u16 (int (u16 (int b - 3)) - int (u16 (int a + 3))) = u16 (int b - int (a + 6))"
    by (simp add: u16_def)
  also have "\<dots> = (if a + 6 \<le> b then b - a - 6 else 65536 - (a + 6 - b))"
    using u16_of_diff [of "a + 6" b] u16_of_neg [of b "a + 6"] assms by auto
  finally show ?thesis .
qed

lemma shrunk_span:
  assumes "a + 6 \<le> b" "b \<le> 480"
  shows "u16 (int b - 3) = b - 3" "u16 (int a + 3) = a + 3"
    "u16 (int (a + 3) + int ((b - a - 6) div 2)) = a + 3 + (b - a - 6) div 2"
proof -
  have "a + 3 + (b - a - 6) div 2 \<le> 480" using assms by linarith
  then show "u16 (int (a + 3) + int ((b - a - 6) div 2)) = a + 3 + (b - a - 6) div 2"
    by (intro u16_eqI) simp_all
  show "u16 (int b - 3) = b - 3" "u16 (int a + 3) = a + 3"
    using assms u16_of_diff [of 3 b] u16_small [of "a + 3"] by auto
qed

lemma corrode_finish_accept:
  assumes fin: "corrode_finish fb c X0 X1 Y0 Y1 = Some (res, True)"
    and box: "X0 < X1" "X1 \<le> 320" "Y0 < Y1" "Y1 \<le> 480"
    and mx: "unat (WIDTH_MAX c) \<le> 480" "unat (HEIGHT_MAX c) \<le> 480"
  shows "X0 + 6 \<le> X1" "Y0 + 6 \<le> Y1" "obj_Xmin res = X0 + 3" "obj_Xmax res = X1 - 3"
    "obj_Ymin res = Y0 + 3" "obj_Ymax res = Y1 - 3" "obj_w res = X1 - X0 - 6" "obj_h res = Y1 - Y0 - 6"
    "obj_x res = X0 + 3 + (X1 - X0 - 6) div 2" "obj_y res = Y0 + 3 + (Y1 - Y0 - 6) div 2"
    "obj_w res < unat (WIDTH_MAX c)" "obj_h res < unat (HEIGHT_MAX c)"
proof -
  let ?w = "u16 (int (u16 (int X1 - 3)) - int (u16 (int X0 + 3)))"
  let ?h = "u16 (int (u16 (int Y1 - 3)) - int (u16 (int Y0 + 3)))"
  have r: "obj_Xmin res = u16 (int X0 + 3)" "obj_Xmax res = u16 (int X1 - 3)"
    "obj_Ymin res = u16 (int Y0 + 3)" "obj_Ymax res = u16 (int Y1 - 3)"
    "obj_w res = ?w" "obj_h res = ?h" "?w < unat (WIDTH_MAX c)" "?h < unat (HEIGHT_MAX c)"
    "obj_x res = u16 (int (u16 (int X0 + 3)) + int (?w div 2))"
    "obj_y res = u16 (int (u16 (int Y0 + 3)) + int (?h div 2))"
    using fin by (auto simp: corrode_finish_def Let_def bind_Some_iff)
  have b480: "X1 \<le> 480" using box by simp
  note w' = shrunk_size [OF box(1) b480] and h' = shrunk_size [OF box(3,4)]
  show x: "X0 + 6 \<le> X1" and y: "Y0 + 6 \<le> Y1"
  proof -
    have "X0 + 6 \<le> X1 \<or> \<not> ?w < 480" "Y0 + 6 \<le> Y1 \<or> \<not> ?h < 480"
      unfolding w' h' using box by auto
    then show "X0 + 6 \<le> X1" "Y0 + 6 \<le> Y1" using r(7,8) mx by linarith+
  qed
  have w: "?w = X1 - X0 - 6" and h: "?h = Y1 - Y0 - 6"
    unfolding w' h' using x y by simp_all
  note sx = shrunk_span [OF x b480] and sy = shrunk_span [OF y box(4)]
  show "obj_Xmin res = X0 + 3" "obj_Xmax res = X1 - 3" "obj_Ymin res = Y0 + 3" "obj_Ymax res = Y1 - 3"
    by (rule r(1) [unfolded sx] r(2) [unfolded sx] r(3) [unfolded sy] r(4) [unfolded sy])+
  show "obj_w res = X1 - X0 - 6" "obj_h res = Y1 - Y0 - 6"
    by (rule r(5) [unfolded w] r(6) [unfolded h])+
  show "obj_w res < unat (WIDTH_MAX c)" "obj_h res < unat (HEIGHT_MAX c)"
    unfolding r(5,6) by (rule r(7,8))+
  show "obj_x res = X0 + 3 + (X1 - X0 - 6) div 2" "obj_y res = Y0 + 3 + (Y1 - Y0 - 6) div 2"
    by (rule r(9) [unfolded w, unfolded sx] r(10) [unfolded h, unfolded sy])+
qed

lemma stops_bounds: "x \<in> set (stops d e s) \<Longrightarrow> s \<le> x \<and> x < e \<and> (\<exists>k. x = s + k * d)"
proof (induction d e s rule: stops.induct)
  case (1 d e s)
  show ?case
  proof (cases "0 < d \<and> s < e")
    case True
    then have "x = s \<or> x \<in> set (stops d e (s + d))" using "1.prems" by (subst (asm) stops.simps) auto
    then show ?thesis
    proof
      assume "x = s"
      then show ?thesis using True by (auto intro: exI [of _ 0])
    next
      assume "x \<in> set (stops d e (s + d))"
      from "1.IH" [OF True this] obtain k where k: "s + d \<le> x" "x < e" "x = s + d + k * d" by blast
      then have "x = s + Suc k * d" by simp
      then have "\<exists>k. x = s + k * d" by blast
      with k(1,2) show ?thesis by simp
    qed
  next
    case False
    then show ?thesis using "1.prems" by (subst (asm) stops.simps) (simp split: if_splits)
  qed
qed

lemma condition_sizes:
  assumes "c \<in> set condition"
  shows "unat (WIDTH_MIN c) = 40" "unat (HEIGHT_MIN c) = 40"
    "unat (WIDTH_MAX c) \<le> 250" "unat (HEIGHT_MAX c) \<le> 320"
  using assms by (auto simp: condition_def)

text \<open>The areas that the camera thread passes: the whole width, any first row.\<close>

definition area_ok :: "SEARCH_AREA \<Rightarrow> bool" where
  "area_ok a \<longleftrightarrow> X_Start a = 0 \<and> X_End a = 320 \<and> Y_End a = 240"

lemma search_ref_in_frame:
  assumes "c \<in> set condition" "area_ok a" "search_ref fb c a = Some (x, y)"
  shows "x < 320" "y < 480"
proof -
  obtain j i where ji: "(j, i) \<in> set (blocks 13 13 a)" "x = j + 6" "y = i + 6"
    using assms(1,3) condition_sizes [OF assms(1)]
    by (auto simp: search_ref_def Let_def find_Some_iff) (metis nth_mem)
  then have "j \<in> set (stops 13 320 0)" "i \<in> set (stops 13 240 (unat (Y_Start a)))"
    using assms(2) by (auto simp: blocks_def area_ok_def)
  then have "i < 240" "j < 320" "\<exists>k. j = k * 13" using stops_bounds by fastforce+
  moreover from this(2,3) have "j \<le> 312" by presburger
  ultimately show "x < 320" "y < 480" using ji by simp_all
qed

text \<open>What \<^verbatim>\<open>Trace\<close> reports for a configured target: nothing, with the search area reset to
  the whole image, when the reference search finds no block; otherwise an accepted object has
  an ordered box of the reported centre and size inside the image, below the maximum size of
  the target, and (up to the three pixels of shrinking) the box contains the block centre.\<close>

theorem Trace_result:
  assumes "c \<in> set condition" "p < length areas" "area_ok (areas ! p)"
    and "Trace fb c areas p n = Some (areas', r)"
  shows "case search_ref fb c (areas ! p) of
      None \<Rightarrow> r = None \<and> areas' = areas[p := full_area]
    | Some (x, y) \<Rightarrow> (case r of
        None \<Rightarrow> areas' = areas
      | Some res \<Rightarrow>
          3 \<le> obj_Xmin res \<and> obj_Xmax res \<le> 317 \<and> 3 \<le> obj_Ymin res \<and> obj_Ymax res \<le> 477 \<and>
          obj_Xmax res = obj_Xmin res + obj_w res \<and> obj_x res = obj_Xmin res + obj_w res div 2 \<and>
          obj_Ymax res = obj_Ymin res + obj_h res \<and> obj_y res = obj_Ymin res + obj_h res div 2 \<and>
          obj_w res < unat (WIDTH_MAX c) \<and> obj_h res < unat (HEIGHT_MAX c) \<and>
          obj_Xmin res \<le> x + 3 \<and> x < obj_Xmax res + 3 \<and> obj_Ymin res \<le> y + 3 \<and> y < obj_Ymax res + 3 \<and>
          areas' ! p = areas ! p)"
proof -
  have ok: "search_ok c (areas ! p)"
    using assms(3) condition_sizes [OF assms(1)] by (simp add: search_ok_def area_ok_def)
  note tr = assms(4) [unfolded Trace_def search_center_ok [OF ok]]
  show ?thesis
  proof (cases "search_ref fb c (areas ! p)")
    case None
    then show ?thesis using tr assms(2) by simp
  next
    case (Some xy)
    obtain x y where xy: "xy = (x, y)" by (cases xy)
    note sr = Some [unfolded xy]
    have pos: "x < 320" "y < 480" using search_ref_in_frame [OF assms(1,3) sr] by auto
    from corrode_box_ok [OF pos, of c fb] condition_sizes(1) [OF assms(1)] obtain X0 X1 Y0 Y1 where
      box: "corrode_box fb x y c = Some (X0, X1, Y0, Y1)" "X0 \<le> x" "x < X1" "X1 \<le> 320"
      "Y0 \<le> y" "y < Y1" "Y1 \<le> 480" by auto
    obtain res b where fin: "corrode_finish fb c X0 X1 Y0 Y1 = Some (res, b)"
      and out: "areas' = areas \<and> r = None \<and> \<not> b \<or> b \<and> r = Some res \<and> areas' ! p = areas ! p"
      using tr assms(2) sr box(1)
      by (auto simp: Corrode_def bind_Some_iff split: if_splits)
    show ?thesis
    proof (cases b)
      case False
      then show ?thesis using out sr by simp
    next
      case True
      have o: "X0 < X1" "Y0 < Y1" using box by auto
      have m: "unat (WIDTH_MAX c) \<le> 480" "unat (HEIGHT_MAX c) \<le> 480"
        using condition_sizes [OF assms(1)] by auto
      note A = corrode_finish_accept [OF fin [unfolded eqTrueI [OF True]] o(1) box(4) o(2) box(7) m]
      obtain w h where wh: "X1 = X0 + 6 + w" "Y1 = Y0 + 6 + h"
        using A(1,2) by (metis le_Suc_ex)
      show ?thesis using out True sr A(3-12) box(2-7) unfolding wh by simp
    qed
  qed
qed

lemma black_pixel:
  "in_frame x y \<Longrightarrow> pixel_match (\<lambda>_. 0) (condition ! 0) x y = Some False"
proof -
  assume "in_frame x y"
  then have "y * 320 * 3 + x * 3 + 2 < 460800" by (auto simp: in_frame_def)
  then have "ReadColor (\<lambda>_. 0) x y = Some \<lparr>Red = 0, Green = 0, Blue = 0\<rparr>"
    by (simp add: ReadColor_def Let_def)
  moreover have "do { hls \<leftarrow> RGB2HSL \<lparr>Red = 0, Green = 0, Blue = 0\<rparr>; Some (ColorMatch hls (condition ! 0)) } = Some False"
    by code_simp
  ultimately show ?thesis by (simp add: pixel_match_def)
qed

lemma black_search: "search_ref (\<lambda>_. 0) (condition ! 0) full_area = None"
proof -
  have m: "misses (\<lambda>_. 0) (condition ! 0) (cross_points 13 13 j i) = 26" if "j < 320" "i < 240" for j i
  proof -
    have "filter (\<lambda>(x, y). pixel_match (\<lambda>_. 0) (condition ! 0) x y = Some False) (cross_points 13 13 j i) =
        cross_points 13 13 j i"
      using cross_points_in_frame [OF that, of 13 13] black_pixel by (auto simp: filter_id_conv)
    then show ?thesis by (simp add: misses_def)
  qed
  have "set (blocks 13 13 full_area) \<subseteq> {(j, i). j < 320 \<and> i < 240}"
    by (auto simp: blocks_def full_area_def dest!: stops_bounds)
  moreover have "unat (WIDTH_MIN (condition ! 0)) div 3 = 13" "unat (HEIGHT_MIN (condition ! 0)) div 3 = 13"
    by code_simp+
  ultimately show ?thesis
    using m by (auto simp: search_ref_def Let_def find_None_iff)
qed
theorem Trace_result_witness:
  "Trace (\<lambda>_. 0) (condition ! 0) [full_area] 0 0 = Some ([full_area], None) \<and>
   (case search_ref (\<lambda>_. 0) (condition ! 0) ([full_area] ! 0) of
      None \<Rightarrow> None = (None :: RESULT option) \<and> [full_area] = [full_area][0 := full_area]
    | Some (x, y) \<Rightarrow> False)"
proof -
  have c: "condition ! 0 \<in> set condition" by (simp add: condition_def)
  have t: "Trace (\<lambda>_. 0) (condition ! 0) [full_area] 0 0 = Some ([full_area], None)"
    using search_center_ok [OF condition_search_ok [OF c], of "\<lambda>_. 0"]
    by (simp add: Trace_def black_search)
  have "area_ok full_area" by (simp add: area_ok_def full_area_def)
  then show ?thesis
    using t Trace_result [OF c, of 0 "[full_area]" "\<lambda>_. 0" 0 "[full_area]" None]
    by (simp add: black_search)
qed
end
