(* ===== verification/Camera.thy ===== *)
theory Camera
  imports Vision
begin

text \<open>
  The camera thread's frame handler, \<^verbatim>\<open>Feature_Recognize_Start_Phoenix\<close> of
  \<^verbatim>\<open>applications/control.c\<close>: it traces the obstacle colour (table entry 1) and the target
  colour (entry 0), accumulates the bounding boxes, publishes averages in \<^verbatim>\<open>des\<close>, draws, and
  posts \<^verbatim>\<open>des\<close> to the head of the message queue after 50 frames without a target.

  The static variables of the file are the record \<open>cam\<close>; what the handler sends elsewhere
  (drawing commands, the urgent message) is its list of outputs, in program order.
\<close>

section \<open>State\<close>

record cam =
  des :: "nat list"
  sums :: "int list"
  cam_t :: nat
  cam_u :: nat
  pre_u :: nat
  cam_count :: nat
  area :: "SEARCH_AREA list"

datatype cam_out =
    Draw_Line nat nat nat nat
  | Draw_Rect_Blue nat nat nat nat
  | Draw_Rect nat nat nat nat
  | Mq_Urgent "nat list"

definition cam_init :: cam where
  "cam_init = \<lparr>des = replicate 9 0, sums = replicate 8 0, cam_t = 0, cam_u = 0, pre_u = 0,
     cam_count = 0, area = replicate 4 full_area @ [\<lparr>X_Start = 0, X_End = 0, Y_Start = 0, Y_End = 0\<rparr>]\<rparr>"

text \<open>
  The box of a result, as the calls of \<^verbatim>\<open>lcd_draw_rectangle\<close> compute it; the parameters of
  that function are \<^verbatim>\<open>uint16_t\<close>.
\<close>

definition rect_of :: "(nat \<Rightarrow> nat \<Rightarrow> nat \<Rightarrow> nat \<Rightarrow> cam_out) \<Rightarrow> RESULT \<Rightarrow> cam_out" where
  "rect_of k r =
     (let x = int (obj_x r) - int (obj_w r div 2); y = int (obj_y r) - int (obj_h r div 2)
      in k (u16 x) (u16 y) (u16 (x + int (obj_w r))) (u16 (y + int (obj_h r))))"

section \<open>The handler\<close>

text \<open>
  Storing a box at index \<open>k\<close> of \<^verbatim>\<open>des\<close> and adding it to \<^verbatim>\<open>sum\<close>; publishing the average of
  the four sums from index \<open>k\<close> and clearing them.
\<close>

definition note_box :: "nat \<Rightarrow> RESULT \<Rightarrow> cam \<Rightarrow> cam" where
  "note_box k r s =
     (let d = (des s)[k := obj_Xmin r, k + 1 := obj_Xmax r, k + 2 := obj_Ymin r, k + 3 := obj_Ymax r];
          m = sums s
      in s\<lparr>des := d,
           sums := m[k := m ! k + int (d ! k), k + 1 := m ! (k + 1) + int (d ! (k + 1)),
                     k + 2 := m ! (k + 2) + int (d ! (k + 2)), k + 3 := m ! (k + 3) + int (d ! (k + 3))]\<rparr>)"

definition publish :: "nat \<Rightarrow> cam \<Rightarrow> cam" where
  "publish k s =
     fold (\<lambda>i s. s\<lparr>des := (des s)[i := u16 (cdiv (sums s ! i) 10)], sums := (sums s)[i := 0]\<rparr>)
       [k, k + 1, k + 2, k + 3] s"

definition obstacle_seen :: "RESULT \<Rightarrow> cam \<Rightarrow> cam" where
  "obstacle_seen r s =
     (let s1 = note_box 4 r s;
          s2 = (if cam_t s1 mod 10 = 0
                then (let s' = publish 4 s1 in if cam_t s' > 10000 then s'\<lparr>cam_t := 0\<rparr> else s')
                else s1)
      in s2\<lparr>cam_t := cam_t s2 + 1\<rparr>)"

definition target_seen :: "RESULT \<Rightarrow> cam \<Rightarrow> cam" where
  "target_seen r s =
     (let s1 = note_box 0 r s;
          s2 = s1\<lparr>cam_u := cam_u s1 + 1\<rparr>
      in if cam_u s2 mod 10 = 0
         then (let s3 = publish 0 s2;
                   s4 = (if cam_u s3 > 10000 then s3\<lparr>cam_u := 0\<rparr> else s3)
               in s4\<lparr>des := (des s4)[8 := 1]\<rparr>)
         else s2)"

definition watchdog :: "cam \<Rightarrow> cam \<times> cam_out list" where
  "watchdog s =
     (if pre_u s \<noteq> cam_u s then (s\<lparr>pre_u := cam_u s, cam_count := 0\<rparr>, [])
      else
        (let s1 = s\<lparr>cam_count := cam_count s + 1\<rparr>
         in if cam_count s1 = 50
            then (let s2 = s1\<lparr>des := (des s1)[8 := 2]\<rparr>
                  in (s2\<lparr>cam_count := 0\<rparr>, [Mq_Urgent (des s2)]))
            else (s1, [])))"

text \<open>One frame, once the two traces have delivered their results.\<close>

definition feature_step :: "RESULT option \<times> RESULT option \<Rightarrow> cam \<Rightarrow> cam \<times> cam_out list" where
  "feature_step d s =
     (let (s1, o1) = (case fst d of
                        None \<Rightarrow> (s, [])
                      | Some r \<Rightarrow> (obstacle_seen r s, [rect_of Draw_Rect_Blue r]));
          (s2, o2) = (case snd d of
                        None \<Rightarrow> (s1, [])
                      | Some r \<Rightarrow> (target_seen r s1,
                          [Draw_Line (obj_x r) (obj_y r) (obj_x r) 0, rect_of Draw_Rect r]));
          (s3, o3) = watchdog s2
      in (s3, [Draw_Line 160 0 160 100] @ o1 @ o2 @ o3))"

definition Feature_Recognize_Start_Phoenix :: "frame \<Rightarrow> cam \<Rightarrow> (cam \<times> cam_out list) option" where
  "Feature_Recognize_Start_Phoenix fb s =
     do {
       (a1, d1) \<leftarrow> Trace fb (condition ! 1) (area s) 0 0;
       (a2, d0) \<leftarrow> Trace fb (condition ! 0) a1 0 0;
       Some (feature_step (d1, d0) (s\<lparr>area := a2\<rparr>))
     }"

fun feature_run :: "(RESULT option \<times> RESULT option) list \<Rightarrow> cam \<Rightarrow> cam \<times> cam_out list" where
  "feature_run [] s = (s, [])"
| "feature_run (d # ds) s =
     (let (s1, o1) = feature_step d s; (s2, o2) = feature_run ds s1 in (s2, o1 @ o2))"

section \<open>The watchdog\<close>

text \<open>The invariant of the file's statics: sizes, and the watchdog below its limit.\<close>

definition cam_inv :: "cam \<Rightarrow> bool" where
  "cam_inv s \<longleftrightarrow> length (des s) = 9 \<and> length (sums s) = 8 \<and> length (area s) = 5 \<and> cam_count s < 50"

lemma note_box_simps [simp]:
  "cam_t (note_box k r s) = cam_t s" "cam_u (note_box k r s) = cam_u s"
  "pre_u (note_box k r s) = pre_u s" "cam_count (note_box k r s) = cam_count s"
  "area (note_box k r s) = area s" "length (des (note_box k r s)) = length (des s)"
  "length (sums (note_box k r s)) = length (sums s)"
  by (simp_all add: note_box_def Let_def)

lemma publish_simps [simp]:
  "cam_t (publish k s) = cam_t s" "cam_u (publish k s) = cam_u s"
  "pre_u (publish k s) = pre_u s" "cam_count (publish k s) = cam_count s"
  "area (publish k s) = area s" "length (des (publish k s)) = length (des s)"
  "length (sums (publish k s)) = length (sums s)"
  by (simp_all add: publish_def)

lemma obstacle_seen_simps [simp]:
  "cam_u (obstacle_seen r s) = cam_u s" "pre_u (obstacle_seen r s) = pre_u s"
  "cam_count (obstacle_seen r s) = cam_count s" "area (obstacle_seen r s) = area s"
  "length (des (obstacle_seen r s)) = length (des s)"
  "length (sums (obstacle_seen r s)) = length (sums s)"
  by (simp_all add: obstacle_seen_def Let_def)

lemma target_seen_simps [simp]:
  "pre_u (target_seen r s) = pre_u s" "cam_count (target_seen r s) = cam_count s"
  "area (target_seen r s) = area s" "length (des (target_seen r s)) = length (des s)"
  "length (sums (target_seen r s)) = length (sums s)" "cam_t (target_seen r s) = cam_t s"
  by (simp_all add: target_seen_def Let_def)

lemma feature_step_inv [inv_intro]: "cam_inv s \<Longrightarrow> cam_inv (fst (feature_step d s))"
  by (auto simp: cam_inv_def feature_step_def watchdog_def Let_def split: option.splits)

text \<open>The urgent messages among the outputs.\<close>

definition urgents :: "cam_out list \<Rightarrow> nat list list" where
  "urgents os = concat (map (\<lambda>out. case out of Mq_Urgent m \<Rightarrow> [m] | _ \<Rightarrow> []) os)"

lemma urgents_simps [simp]:
  "urgents [] = []" "urgents (Mq_Urgent m # os) = m # urgents os"
  "urgents (Draw_Line a b c d # os) = urgents os" "urgents (os @ os') = urgents os @ urgents os'"
  "urgents (rect_of Draw_Rect r # os) = urgents os" "urgents (rect_of Draw_Rect_Blue r # os) = urgents os"
  by (simp_all add: urgents_def rect_of_def Let_def)

lemma feature_step_idle:
  assumes "cam_inv s" "pre_u s = cam_u s" "feature_step (d, None) s = (s', out)"
  shows "cam_inv s'" "pre_u s' = cam_u s'" "cam_u s' = cam_u s"
    "cam_count s' = (cam_count s + 1) mod 50"
    "urgents out = (if cam_count s = 49 then [des s'] else [])" "cam_count s = 49 \<longrightarrow> des s' ! 8 = 2"
proof -
  show "cam_inv s'" using feature_step_inv [OF assms(1), of "(d, None)"] assms(3) by simp
  show "pre_u s' = cam_u s'" "cam_u s' = cam_u s" "cam_count s' = (cam_count s + 1) mod 50"
    "urgents out = (if cam_count s = 49 then [des s'] else [])" "cam_count s = 49 \<longrightarrow> des s' ! 8 = 2"
    using assms by (auto simp: cam_inv_def feature_step_def watchdog_def Let_def split: option.splits if_splits)
qed

lemma div_step: "c < (50 :: nat) \<Longrightarrow>
    (c + Suc n) div 50 = (if c = 49 then 1 else 0) + ((c + 1) mod 50 + n) div 50"
  by (cases "c = 49") (auto simp: mod_less)

text \<open>C31. Over any run of frames in which the target is not seen, whatever happens with the
  obstacle, the handler posts an urgent message exactly every fiftieth frame (counted from the
  last frame with a target), each with the lost-target code 2 in its last entry.\<close>

theorem lost_target_watchdog:
  assumes "cam_inv s" "pre_u s = cam_u s" "feature_run (map (\<lambda>d. (d, None)) ds) s = (s', out)"
  shows "length (urgents out) = (cam_count s + length ds) div 50 \<and>
    cam_count s' = (cam_count s + length ds) mod 50 \<and> list_all (\<lambda>m. length m = 9 \<and> m ! 8 = 2) (urgents out)"
  using assms
proof (induction ds arbitrary: s out)
  case Nil
  then show ?case by (simp add: cam_inv_def)
next
  case (Cons d ds)
  obtain s1 o1 where 1: "feature_step (d, None) s = (s1, o1)" by fastforce
  obtain o2 where 2: "feature_run (map (\<lambda>d. (d, None)) ds) s1 = (s', o2)" "out = o1 @ o2"
    using Cons.prems(3) 1 by (auto split: prod.splits)
  note F = feature_step_idle [OF Cons.prems(1,2) 1]
  note IH = Cons.IH [OF F(1,2) 2(1)]
  have c: "cam_count s < 50" using Cons.prems(1) by (simp add: cam_inv_def)
  have "length (des s1) = 9" using F(1) by (simp add: cam_inv_def)
  moreover have "((cam_count s + 1) mod 50 + length ds) mod 50 = (cam_count s + Suc (length ds)) mod 50"
    by (simp add: mod_simps)
  ultimately show ?case
    using IH F(4-6) 2(2) div_step [OF c, of "length ds"] by auto
qed

theorem lost_target_watchdog_witness:
  "length (urgents (snd (feature_run (map (\<lambda>d. (d, None)) (replicate 120 None)) cam_init))) = 2"
  using lost_target_watchdog [of cam_init "replicate 120 None"]
  by (cases "feature_run (map (\<lambda>d. (d, None)) (replicate 120 None)) cam_init")
    (simp add: cam_init_def cam_inv_def)

section \<open>The averages\<close>

definition box :: "RESULT \<Rightarrow> nat list" where
  "box r = [obj_Xmin r, obj_Xmax r, obj_Ymin r, obj_Ymax r]"

definition box_sum :: "RESULT list \<Rightarrow> nat \<Rightarrow> nat" where
  "box_sum rs i = sum_list (map (\<lambda>r. box r ! i) rs)"

lemma box_sum_simps [simp]: "box_sum [] i = 0" "box_sum (r # rs) i = box r ! i + box_sum rs i"
  by (simp_all add: box_sum_def)

lemma less4_cases: "(i :: nat) < 4 \<Longrightarrow> i = 0 \<or> i = 1 \<or> i = 2 \<or> i = 3"
  by auto

lemma box_nth_le: "list_all (\<lambda>x. x < 65536) (box r) \<Longrightarrow> i < 4 \<Longrightarrow> box r ! i \<le> 65535"
  by (drule less4_cases) (auto simp: box_def)

text \<open>The two handlers work on disjoint halves of \<^verbatim>\<open>des\<close> and \<^verbatim>\<open>sum\<close>.\<close>

lemma obstacle_seen_low:
  assumes "i < 4"
  shows "sums (obstacle_seen r s) ! i = sums s ! i" "des (obstacle_seen r s) ! i = des s ! i"
  using less4_cases [OF assms] by (auto simp: obstacle_seen_def note_box_def publish_def Let_def)

lemma target_seen_low:
  assumes "cam_inv s" "i < 4"
  shows "sums (target_seen r s) ! i =
      (if (cam_u s + 1) mod 10 = 0 then 0 else sums s ! i + int (box r ! i))"
    and "(cam_u s + 1) mod 10 = 0 \<Longrightarrow>
      des (target_seen r s) ! i = u16 (cdiv (sums s ! i + int (box r ! i)) 10)"
  using less4_cases [OF assms(2)] assms(1)
  by (auto simp: target_seen_def note_box_def publish_def box_def cam_inv_def Let_def numeral_2_eq_2)

lemma target_seen_u:
  "cam_u (target_seen r s) = (if (cam_u s + 1) mod 10 = 0 \<and> 10000 < cam_u s + 1 then 0 else cam_u s + 1)"
  by (simp add: target_seen_def Let_def)

lemma watchdog_low:
  "cam_u (fst (watchdog s)) = cam_u s" "sums (fst (watchdog s)) = sums s"
  "i < 4 \<Longrightarrow> des (fst (watchdog s)) ! i = des s ! i"
  by (auto simp: watchdog_def Let_def)

text \<open>One frame with a target.\<close>

lemma feature_step_target:
  assumes "cam_inv s" "feature_step (d, Some r) s = (s', out)"
  shows "i < 4 \<Longrightarrow> sums s' ! i = (if (cam_u s + 1) mod 10 = 0 then 0 else sums s ! i + int (box r ! i))"
    and "i < 4 \<Longrightarrow> (cam_u s + 1) mod 10 = 0 \<Longrightarrow> des s' ! i = u16 (cdiv (sums s ! i + int (box r ! i)) 10)"
    and "(cam_u s + 1) mod 10 \<noteq> 0 \<Longrightarrow> cam_u s' = cam_u s + 1"
    and "cam_inv s'"
proof -
  define s1 where "s1 = (case d of None \<Rightarrow> s | Some q \<Rightarrow> obstacle_seen q s)"
  have s': "s' = fst (watchdog (target_seen r s1))"
    using assms(2) by (auto simp: feature_step_def s1_def split: option.splits prod.splits)
  have 1: "cam_inv s1" "cam_u s1 = cam_u s" "i < 4 \<Longrightarrow> sums s1 ! i = sums s ! i" for i
    using assms(1) obstacle_seen_low by (auto simp: s1_def cam_inv_def split: option.splits)
  show "i < 4 \<Longrightarrow> sums s' ! i = (if (cam_u s + 1) mod 10 = 0 then 0 else sums s ! i + int (box r ! i))"
    using target_seen_low(1) [OF 1(1)] 1(2,3) by (simp add: s' watchdog_low)
  show "i < 4 \<Longrightarrow> (cam_u s + 1) mod 10 = 0 \<Longrightarrow> des s' ! i = u16 (cdiv (sums s ! i + int (box r ! i)) 10)"
    using target_seen_low(2) [OF 1(1)] 1(2,3) by (simp add: s' watchdog_low)
  show "(cam_u s + 1) mod 10 \<noteq> 0 \<Longrightarrow> cam_u s' = cam_u s + 1"
    using 1(2) by (simp add: s' watchdog_low target_seen_u)
  show "cam_inv s'" using feature_step_inv [OF assms(1), of "(d, Some r)"] assms(2) by simp
qed

lemma feature_run_targets:
  assumes "cam_inv s" "length ds = length rs" "cam_u s mod 10 + length rs < 10"
    and "feature_run (zip ds (map Some rs)) s = (s', out)"
  shows "cam_inv s' \<and> cam_u s' = cam_u s + length rs \<and> (\<forall>i<4. sums s' ! i = sums s ! i + int (box_sum rs i))"
  using assms
proof (induction rs arbitrary: ds s out)
  case Nil
  then show ?case by simp
next
  case (Cons r rs)
  obtain d ds' where ds: "ds = d # ds'" using Cons.prems(2) by (cases ds) auto
  obtain s1 o1 where 1: "feature_step (d, Some r) s = (s1, o1)" by fastforce
  obtain o2 where 2: "feature_run (zip ds' (map Some rs)) s1 = (s', o2)"
    using Cons.prems(4) 1 ds by (auto split: prod.splits)
  have n: "(cam_u s + 1) mod 10 = cam_u s mod 10 + 1" "(cam_u s + 1) mod 10 \<noteq> 0"
    using Cons.prems(3) by (simp_all add: mod_Suc)
  note F = feature_step_target [OF Cons.prems(1) 1]
  have "cam_u s1 = cam_u s + 1" using F(3) n by simp
  then have "cam_u s1 mod 10 + length rs < 10" using n(1) Cons.prems(3) by simp
  from Cons.IH [OF F(4) _ this 2] ds Cons.prems(2) \<open>cam_u s1 = cam_u s + 1\<close>
  show ?case using F(1) n by simp
qed

lemma feature_run_append:
  "feature_run (xs @ ys) s =
     (let (s1, o1) = feature_run xs s; (s2, o2) = feature_run ys s1 in (s2, o1 @ o2))"
  by (induction xs arbitrary: s) (auto simp: Let_def split: prod.splits)

text \<open>After every ten detections of the target (with any obstacle results in the same frames)
  the first four entries of \<^verbatim>\<open>des\<close> hold the truncated means of the ten boxes, and the sums
  are clear again for the next ten.\<close>

theorem target_average:
  assumes "cam_inv s" "cam_u s mod 10 = 0" "list_all (\<lambda>x. x = 0) (take 4 (sums s))"
    and "length ds = 10" "length rs = 10" "list_all (\<lambda>r. list_all (\<lambda>x. x < 65536) (box r)) rs"
    and "feature_run (zip ds (map Some rs)) s = (s', out)"
  shows "take 4 (des s') = map (\<lambda>i. box_sum rs i div 10) [0, 1, 2, 3] \<and>
    list_all (\<lambda>x. x = 0) (take 4 (sums s'))"
proof -
  obtain ds1 d where ds: "ds = ds1 @ [d]" "length ds1 = 9"
    using assms(4) by (cases ds rule: rev_cases) auto
  obtain rs1 r where rs: "rs = rs1 @ [r]" "length rs1 = 9"
    using assms(5) by (cases rs rule: rev_cases) auto
  obtain s1 o1 where 1: "feature_run (zip ds1 (map Some rs1)) s = (s1, o1)" by fastforce
  obtain o2 where 2: "feature_step (d, Some r) s1 = (s', o2)"
    using assms(7) 1 ds rs by (auto simp: feature_run_append split: prod.splits)
  have z: "sums s ! i = 0" if "i < 4" for i
    using assms(1,3) that by (auto simp: list_all_length cam_inv_def)
  have R: "cam_inv s1 \<and> cam_u s1 = cam_u s + 9 \<and> (\<forall>i<4. sums s1 ! i = int (box_sum rs1 i))"
    using feature_run_targets [OF assms(1) _ _ 1] ds rs assms(2) z by simp
  then have I: "cam_inv s1" and U: "(cam_u s1 + 1) mod 10 = 0" using assms(2) by auto
  have sum_last: "box_sum rs i = box_sum rs1 i + box r ! i" for i
    by (simp add: rs box_sum_def)
  have bound: "box_sum rs i \<le> 10 * 65535" if "i < 4" for i
  proof -
    have "list_all (\<lambda>r. list_all (\<lambda>x. x < 65536) (box r)) xs \<Longrightarrow> box_sum xs i \<le> length xs * 65535" for xs
      by (induction xs) (use box_nth_le [OF _ that] in \<open>auto intro: add_mono\<close>)
    from this [OF assms(6)] assms(5) show ?thesis by simp
  qed
  have D: "des s' ! i = box_sum rs i div 10" if "i < 4" for i
  proof -
    have "des s' ! i = u16 (cdiv (int (box_sum rs i)) 10)"
      using feature_step_target(2) [OF I 2 that U] R that by (simp add: sum_last)
    also have "\<dots> = box_sum rs i div 10"
      by (rule u16_eqI) (use bound [OF that] in \<open>simp_all add: cdiv_nonneg zdiv_int\<close>)
    finally show ?thesis .
  qed
  have L: "length (des s') = 9" "length (sums s') = 8"
    using feature_step_target(4) [OF I 2] by (auto simp: cam_inv_def)
  have "take 4 (des s') = map (\<lambda>i. box_sum rs i div 10) [0, 1, 2, 3]"
  proof (rule nth_equalityI)
    fix k assume "k < length (take 4 (des s'))"
    then have k: "k < 4" by simp
    then have "take 4 (des s') ! k = box_sum rs k div 10" using D by simp
    also have "\<dots> = map (\<lambda>i. box_sum rs i div 10) [0, 1, 2, 3] ! k" using less4_cases [OF k] by auto
    finally show "take 4 (des s') ! k = map (\<lambda>i. box_sum rs i div 10) [0, 1, 2, 3] ! k" .
  qed (use L in simp)
  moreover have "list_all (\<lambda>x. x = 0) (take 4 (sums s'))"
    using feature_step_target(1) [OF I 2] U L by (simp add: list_all_length)
  ultimately show ?thesis ..
qed

theorem target_average_witness:
  "take 4 (des (fst (feature_run (zip (replicate 10 None) (map Some (replicate 10
      \<lparr>obj_x = 50, obj_y = 60, obj_w = 20, obj_h = 30, obj_Xmin = 40, obj_Ymin = 45,
       obj_Xmax = 60, obj_Ymax = 75, obj_object = 1\<rparr>))) cam_init))) = [40, 60, 45, 75]"
  using target_average [of cam_init "replicate 10 None" "replicate 10
      \<lparr>obj_x = 50, obj_y = 60, obj_w = 20, obj_h = 30, obj_Xmin = 40, obj_Ymin = 45,
       obj_Xmax = 60, obj_Ymax = 75, obj_object = 1\<rparr>"]
  by (cases "feature_run (zip (replicate 10 None) (map Some (replicate 10
      \<lparr>obj_x = 50, obj_y = 60, obj_w = 20, obj_h = 30, obj_Xmin = 40, obj_Ymin = 45,
       obj_Xmax = 60, obj_Ymax = 75, obj_object = 1\<rparr>))) cam_init")
    (simp add: cam_init_def cam_inv_def box_sum_def box_def sum_list_replicate list_all_iff)

lemma cam_init_simps: "cam_count cam_init = 0" "pre_u cam_init = 0" "cam_u cam_init = 0" "cam_t cam_init = 0"
  by (simp_all add: cam_init_def)

lemma obstacle_seen_high:
  assumes "cam_inv s" "i < 4" "cam_t s mod 10 = 0"
  shows "des (obstacle_seen r s) ! (4 + i) = u16 (cdiv (sums s ! (4 + i) + int (box r ! i)) 10)"
  using less4_cases [OF assms(2)] assms(1,3)
  by (auto simp: obstacle_seen_def note_box_def publish_def box_def cam_inv_def Let_def numeral_2_eq_2)

lemma obstacle_seen_first:
  "take 4 (drop 4 (des (obstacle_seen r cam_init))) = map (\<lambda>x. u16 (cdiv (int x) 10)) (box r)"
proof (rule nth_equalityI)
  have i: "cam_inv cam_init" "length (sums cam_init) = 8" "length (des cam_init) = 9"
    by (simp_all add: cam_init_def cam_inv_def)
  then show "length (take 4 (drop 4 (des (obstacle_seen r cam_init)))) =
      length (map (\<lambda>x. u16 (cdiv (int x) 10)) (box r))"
    by (simp add: box_def)
  fix k assume "k < length (take 4 (drop 4 (des (obstacle_seen r cam_init))))"
  then have k: "k < 4" "k < length (box r)" by (simp_all add: box_def)
  have "sums cam_init ! (4 + k) = 0" using k by (simp add: cam_init_def)
  then show "take 4 (drop 4 (des (obstacle_seen r cam_init))) ! k = map (\<lambda>x. u16 (cdiv (int x) 10)) (box r) ! k"
    using obstacle_seen_high [OF i(1) k(1)] k i(3) by (simp add: cam_init_simps)
qed

text \<open>The obstacle's average is taken before its counter moves, so the very first obstacle
  publishes a tenth of its box instead of a mean of ten.\<close>

theorem first_obstacle_average:
  "take 4 (drop 4 (des (fst (feature_step (Some r, None) cam_init)))) =
     map (\<lambda>x. u16 (cdiv (int x) 10)) (box r)"
  by (simp add: feature_step_def watchdog_def obstacle_seen_first cam_init_simps Let_def
      split: prod.splits)

end
