(* ===== verification/RtList.thy ===== *)
theory RtList
  imports Prelude "HOL-Library.Multiset"
begin

text \<open>
  The intrusive lists of \<^verbatim>\<open>include/rtservice.h\<close>: the circular doubly linked \<^verbatim>\<open>rt_list_t\<close> with
  a head node, and the singly linked \<^verbatim>\<open>rt_slist_t\<close>. A node is an address; the two pointer
  fields of all nodes are a heap \<open>lheap\<close>. The section on refinement shows that a circular
  list refines the HOL list of its nodes; the kernel theories work on those HOL lists.
\<close>

section \<open>The doubly linked list\<close>

type_synonym node = nat

record lheap =
  nxt :: "node \<Rightarrow> node"
  prv :: "node \<Rightarrow> node"

definition set_nxt :: "node \<Rightarrow> node \<Rightarrow> lheap \<Rightarrow> lheap" where
  "set_nxt a b h = h\<lparr>nxt := (nxt h)(a := b)\<rparr>"

definition set_prv :: "node \<Rightarrow> node \<Rightarrow> lheap \<Rightarrow> lheap" where
  "set_prv a b h = h\<lparr>prv := (prv h)(a := b)\<rparr>"

lemma set_simps [simp]:
  "nxt (set_nxt a b h) = (nxt h)(a := b)" "prv (set_nxt a b h) = prv h"
  "nxt (set_prv a b h) = nxt h" "prv (set_prv a b h) = (prv h)(a := b)"
  by (simp_all add: set_nxt_def set_prv_def)

definition rt_list_init :: "node \<Rightarrow> lheap \<Rightarrow> lheap" where
  "rt_list_init l h = set_prv l l (set_nxt l l h)"

definition rt_list_insert_after :: "node \<Rightarrow> node \<Rightarrow> lheap \<Rightarrow> lheap" where
  "rt_list_insert_after l n h =
     (let h1 = set_prv (nxt h l) n h;
          h2 = set_nxt n (nxt h1 l) h1;
          h3 = set_nxt l n h2
      in set_prv n l h3)"

definition rt_list_insert_before :: "node \<Rightarrow> node \<Rightarrow> lheap \<Rightarrow> lheap" where
  "rt_list_insert_before l n h =
     (let h1 = set_nxt (prv h l) n h;
          h2 = set_prv n (prv h1 l) h1;
          h3 = set_prv l n h2
      in set_nxt n l h3)"

definition rt_list_remove :: "node \<Rightarrow> lheap \<Rightarrow> lheap" where
  "rt_list_remove n h =
     (let h1 = set_prv (nxt h n) (prv h n) h;
          h2 = set_nxt (prv h1 n) (nxt h1 n) h1
      in set_nxt n n (set_prv n n h2))"

definition rt_list_isempty :: "node \<Rightarrow> lheap \<Rightarrow> bool" where
  "rt_list_isempty l h \<longleftrightarrow> nxt h l = l"

text \<open>The length loop follows \<^verbatim>\<open>next\<close> until it is back at the head; it need not end.\<close>

partial_function (option) rt_list_len_loop :: "lheap \<Rightarrow> node \<Rightarrow> node \<Rightarrow> nat \<Rightarrow> nat option" where
  "rt_list_len_loop h l p len =
     (if nxt h p \<noteq> l then rt_list_len_loop h l (nxt h p) (len + 1) else Some len)"

definition rt_list_len :: "node \<Rightarrow> lheap \<Rightarrow> nat option" where
  "rt_list_len l h = rt_list_len_loop h l l 0"

section \<open>Refinement\<close>

fun chain :: "lheap \<Rightarrow> node list \<Rightarrow> bool" where
  "chain h [] \<longleftrightarrow> True"
| "chain h [a] \<longleftrightarrow> True"
| "chain h (a # b # xs) \<longleftrightarrow> nxt h a = b \<and> prv h b = a \<and> chain h (b # xs)"

text \<open>\<open>ring h l xs\<close>: the list with head \<open>l\<close> consists of the nodes \<open>xs\<close>, in this order.\<close>

definition ring :: "lheap \<Rightarrow> node \<Rightarrow> node list \<Rightarrow> bool" where
  "ring h l xs \<longleftrightarrow> distinct (l # xs) \<and> chain h (l # xs @ [l])"

lemma chain_append: "chain h (xs @ y # ys) \<longleftrightarrow> chain h (xs @ [y]) \<and> chain h (y # ys)"
proof (induction xs)
  case Nil
  then show ?case by simp
next
  case (Cons a xs)
  then show ?case by (cases xs) auto
qed

lemma chain_cong:
  assumes "chain h xs" "\<And>x. x \<in> set (butlast xs) \<Longrightarrow> nxt h' x = nxt h x"
    and "\<And>x. x \<in> set (tl xs) \<Longrightarrow> prv h' x = prv h x"
  shows "chain h' xs"
  using assms by (induction h xs rule: chain.induct) auto

lemma ring_frame:
  assumes "ring h l xs" "\<And>x. x \<in> set (l # xs) \<Longrightarrow> nxt h' x = nxt h x \<and> prv h' x = prv h x"
  shows "ring h' l xs"
proof -
  have "chain h (l # xs @ [l])" using assms(1) by (simp add: ring_def)
  then have "chain h' (l # xs @ [l])" by (rule chain_cong) (use assms(2) in auto)
  then show ?thesis using assms(1) by (simp add: ring_def)
qed

text \<open>An update of the link between \<open>a\<close> and \<open>b\<close> leaves both sides of it alone.\<close>

lemma chain_link: "chain h (ps @ a # b # qs) \<Longrightarrow> nxt h a = b \<and> prv h b = a"
  using chain_append [of h ps a "b # qs"] by simp

lemma chain_sides:
  assumes "chain h (ps @ [a])" "chain h (b # qs)"
    and "distinct (ps @ a # butlast (b # qs))" "distinct (tl (ps @ a # b # qs))"
    and n: "n \<notin> set (ps @ a # b # qs)"
    and nx: "\<And>x. x \<noteq> a \<Longrightarrow> x \<noteq> n \<Longrightarrow> nxt h' x = nxt h x"
    and pv: "\<And>x. x \<noteq> b \<Longrightarrow> x \<noteq> n \<Longrightarrow> prv h' x = prv h x"
  shows "chain h' (ps @ [a]) \<and> chain h' (b # qs)"
proof
  have b: "b \<notin> set (tl (ps @ [a]))" "b \<notin> set qs" using assms(4) by (cases ps; auto)+
  show "chain h' (ps @ [a])"
  proof (rule chain_cong [OF assms(1)])
    fix x assume "x \<in> set (butlast (ps @ [a]))"
    then have "x \<noteq> a" "x \<noteq> n" using assms(3) n by auto
    then show "nxt h' x = nxt h x" by (rule nx)
  next
    fix x assume x: "x \<in> set (tl (ps @ [a]))"
    then have "x \<in> set (ps @ [a])" by (cases ps) auto
    then have "x \<noteq> b" "x \<noteq> n" using b(1) x n by auto
    then show "prv h' x = prv h x" by (rule pv)
  qed
  show "chain h' (b # qs)"
  proof (rule chain_cong [OF assms(2)])
    fix x assume x: "x \<in> set (butlast (b # qs))"
    then have "x \<noteq> a" using assms(3) by auto
    moreover have "x \<noteq> n" using in_set_butlastD [OF x] n by auto
    ultimately show "nxt h' x = nxt h x" by (rule nx)
  next
    fix x assume "x \<in> set (tl (b # qs))"
    then have "x \<noteq> b" "x \<noteq> n" using b(2) n by auto
    then show "prv h' x = prv h x" by (rule pv)
  qed
qed

text \<open>The nodes of a ring, cut at a link.\<close>

lemma ring_cut:
  assumes "distinct (l # xs)" "l # xs @ [l] = ps @ a # b # qs"
  shows "distinct (ps @ a # butlast (b # qs))" "distinct (tl (ps @ a # b # qs))"
proof -
  have "butlast (l # xs @ [l]) = l # xs" "tl (l # xs @ [l]) = xs @ [l]" by (simp_all add: butlast_append)
  then have "distinct (butlast (ps @ a # b # qs))" "distinct (tl (ps @ a # b # qs))"
    using assms by auto
  then show "distinct (ps @ a # butlast (b # qs))" "distinct (tl (ps @ a # b # qs))"
    by (simp_all add: butlast_append)
qed

lemma ring_insert:
  assumes "ring h l xs" "l # xs @ [l] = ps @ a # b # qs" "n \<notin> set (l # xs)"
    and "l # ys @ [l] = ps @ a # n # b # qs"
    and "\<And>x. nxt h' x = (if x = a then n else if x = n then b else nxt h x)"
    and "\<And>x. prv h' x = (if x = b then n else if x = n then a else prv h x)"
  shows "ring h' l ys"
proof -
  have d: "distinct (l # xs)" and c: "chain h (ps @ a # b # qs)"
    using assms(1,2) by (simp_all add: ring_def)
  have n: "n \<notin> set (ps @ a # b # qs)" using assms(2,3) by (metis Un_iff list.set_intros(1) list.simps(15) set_append insert_iff empty_set empty_iff)
  have "chain h (ps @ [a])" "chain h (b # qs)" using c chain_append [of h ps a "b # qs"] by auto
  from chain_sides [OF this ring_cut [OF d assms(2)] n] assms(5,6)
  have s: "chain h' (ps @ [a])" "chain h' (b # qs)" by simp_all
  have ab: "n \<noteq> a" "n \<noteq> b" using n by auto
  have "chain h' (ps @ a # n # b # qs)"
    using s assms(5,6) ab chain_append [of h' ps a "n # b # qs"] by simp
  moreover have "distinct (l # ys)"
  proof -
    have "mset (l # ys @ [l]) = mset (n # l # xs @ [l])" using assms(2,4) by simp
    then have "mset (l # ys) = mset (n # l # xs)" by simp
    then show ?thesis using d assms(3) by (metis distinct.simps(2) mset_eq_imp_distinct_iff)
  qed
  ultimately show ?thesis using assms(4) by (simp add: ring_def)
qed

lemma ring_delete:
  assumes "ring h l xs" "l # xs @ [l] = ps @ a # n # b # qs" "n \<noteq> l"
    and "l # ys @ [l] = ps @ a # b # qs"
    and "\<And>x. x \<noteq> n \<Longrightarrow> nxt h' x = (if x = a then b else nxt h x)"
    and "\<And>x. x \<noteq> n \<Longrightarrow> prv h' x = (if x = b then a else prv h x)"
  shows "ring h' l ys"
proof -
  have d: "distinct (l # xs)" and c: "chain h (ps @ a # n # b # qs)"
    using assms(1,2) by (simp_all add: ring_def)
  have "mset (n # l # ys @ [l]) = mset (l # xs @ [l])" using assms(2,4) by simp
  then have m: "mset (n # l # ys) = mset (l # xs)" by simp
  have dn: "distinct (n # l # ys)" using d mset_eq_imp_distinct_iff [OF m] by simp
  have n: "n \<notin> set (ps @ a # b # qs)" using dn assms(3) unfolding assms(4) [symmetric] by simp
  have dy: "distinct (l # ys)" using dn by simp
  have "chain h (ps @ [a])" "chain h (b # qs)" using c chain_append [of h ps a "n # b # qs"] by auto
  from chain_sides [OF this ring_cut [OF dy assms(4)] n] assms(5,6)
  have s: "chain h' (ps @ [a])" "chain h' (b # qs)" by simp_all
  have ab: "n \<noteq> a" "n \<noteq> b" using n by auto
  have "chain h' (ps @ a # b # qs)"
    using s assms(5,6) ab chain_append [of h' ps a "b # qs"] by simp
  then show ?thesis using dy assms(4) by (simp add: ring_def)
qed

lemma ring_link: "ring h l xs \<Longrightarrow> l # xs @ [l] = ps @ a # b # qs \<Longrightarrow> nxt h a = b \<and> prv h b = a"
  using chain_link [of h ps a b qs] by (simp add: ring_def)

lemma rt_list_init_ring: "ring (rt_list_init l h) l []"
  by (simp add: ring_def rt_list_init_def)

lemma rt_list_insert_after_ring:
  assumes "ring h l xs" "n \<notin> set (l # xs)"
  shows "ring (rt_list_insert_after l n h) l (n # xs)"
proof -
  obtain b qs where b: "xs @ [l] = b # qs" by (cases "xs @ [l]") auto
  then have e: "l # xs @ [l] = [] @ l # b # qs" by simp
  have "nxt h l = b" using ring_link [OF assms(1) e] by simp
  moreover have "b \<noteq> n" using assms(2) b by (cases xs) auto
  ultimately show ?thesis
    by (intro ring_insert [OF assms(1) e assms(2)])
      (use b assms(2) in \<open>auto simp: rt_list_insert_after_def Let_def\<close>)
qed

lemma rt_list_insert_before_at:
  assumes "ring h l xs" "l # xs @ [l] = ps @ a # s # qs" "n \<notin> set (l # xs)"
    "l # ys @ [l] = ps @ a # n # s # qs"
  shows "ring (rt_list_insert_before s n h) l ys"
proof -
  have l: "prv h s = a" using ring_link [OF assms(1,2)] by simp
  have "a \<in> set (l # xs @ [l])" "s \<in> set (l # xs @ [l])" unfolding assms(2) by simp_all
  then have "a \<noteq> n" "s \<noteq> n" using assms(3) by auto
  then show ?thesis
    using l by (intro ring_insert [OF assms(1,2,3,4)]) (auto simp: rt_list_insert_before_def Let_def)
qed

lemma rt_list_insert_before_ring:
  assumes "ring h l xs" "n \<notin> set (l # xs)"
  shows "ring (rt_list_insert_before l n h) l (xs @ [n])"
proof -
  obtain ps a where "l # xs = ps @ [a]" by (metis append_butlast_last_id list.distinct(1))
  then show ?thesis by (intro rt_list_insert_before_at [OF assms(1) _ assms(2), where ps = ps and a = a and qs = "[]"]) simp_all
qed

lemma rt_list_insert_before_mid_ring:
  assumes "ring h l (us @ s # vs)" "n \<notin> set (l # us @ s # vs)"
  shows "ring (rt_list_insert_before s n h) l (us @ n # s # vs)"
proof -
  obtain ps a where "l # us = ps @ [a]" by (metis append_butlast_last_id list.distinct(1))
  then show ?thesis by (intro rt_list_insert_before_at [OF assms(1) _ assms(2), where ps = ps and a = a and qs = "vs @ [l]"]) simp_all
qed

lemma rt_list_remove_ring:
  assumes "ring h l xs" "n \<in> set xs"
  shows "ring (rt_list_remove n h) l (remove1 n xs)"
proof -
  have d: "distinct (l # xs)" using assms(1) by (simp add: ring_def)
  obtain us vs where xs: "xs = us @ n # vs" using assms(2) by (meson split_list)
  obtain ps a where ps: "l # us = ps @ [a]" by (metis append_butlast_last_id list.distinct(1))
  obtain b qs where qs: "vs @ [l] = b # qs" by (cases "vs @ [l]") auto
  have e: "l # xs @ [l] = ps @ a # n # b # qs" using xs ps qs by simp
  then have e2: "l # xs @ [l] = (ps @ [a]) @ n # b # qs" by simp
  have l: "nxt h n = b" "prv h n = a" using ring_link [OF assms(1) e] ring_link [OF assms(1) e2] by auto
  have "a \<in> set (l # us)" "b \<in> set (vs @ [l])" using ps qs by auto
  then have "a \<noteq> n" "b \<noteq> n" using d xs by auto
  moreover have "remove1 n xs = us @ vs" using d xs by (simp add: remove1_append)
  ultimately show ?thesis using l ps qs d xs
    by (intro ring_delete [OF assms(1) e]) (auto simp: rt_list_remove_def Let_def)
qed

text \<open>A node outside any list points to itself; removing it again changes nothing.\<close>

lemma rt_list_remove_detached:
  assumes "nxt h n = n" "prv h n = n"
  shows "rt_list_remove n h = h"
proof -
  have "(nxt h)(n := n) = nxt h" "(prv h)(n := n) = prv h" using assms by auto
  then show ?thesis using assms by (simp add: rt_list_remove_def Let_def set_nxt_def set_prv_def)
qed

lemma rt_list_remove_self: "nxt (rt_list_remove n h) n = n" "prv (rt_list_remove n h) n = n"
  by (simp_all add: rt_list_remove_def Let_def)

text \<open>Lists with disjoint nodes do not disturb each other.\<close>

lemma ring_neighbours:
  assumes "ring h l xs" "m \<in> set (l # xs)"
  shows "nxt h m \<in> set (l # xs)" "prv h m \<in> set (l # xs)"
proof -
  obtain us vs where 1: "l # xs = us @ m # vs" using assms(2) by (meson split_list)
  obtain b qs where b: "vs @ [l] = b # qs" by (cases "vs @ [l]") auto
  then have e: "l # xs @ [l] = us @ m # b # qs" using 1 by (metis append.assoc append_Cons)
  have "b \<in> set (l # xs @ [l])" unfolding e by simp
  then show "nxt h m \<in> set (l # xs)" using ring_link [OF assms(1) e] by auto
  obtain us' vs' where 2: "xs @ [l] = us' @ m # vs'" using assms(2) by (metis Un_iff list.set_intros(1) list.simps(15) set_append split_list insert_iff set_ConsD)
  obtain ps a where ps: "l # us' = ps @ [a]" by (metis append_butlast_last_id list.distinct(1))
  have e: "l # xs @ [l] = ps @ a # m # vs'" using 2 ps by (metis append.assoc append_Cons append_Nil)
  have "a \<in> set (l # xs @ [l])" unfolding e by simp
  then show "prv h m \<in> set (l # xs)" using ring_link [OF assms(1) e] by auto
qed

lemma insert_other_ring:
  assumes "ring h l xs" "ring h k ys" "s \<in> set (l # xs)" "set (l # xs) \<inter> set (k # ys) = {}"
    "n \<notin> set (k # ys)"
  shows "ring (rt_list_insert_before s n h) k ys" "ring (rt_list_insert_after s n h) k ys"
proof -
  note nb = ring_neighbours [OF assms(1,3)]
  have "nxt (rt_list_insert_before s n h) x = nxt h x \<and> prv (rt_list_insert_before s n h) x = prv h x"
    "nxt (rt_list_insert_after s n h) x = nxt h x \<and> prv (rt_list_insert_after s n h) x = prv h x"
    if "x \<in> set (k # ys)" for x
  proof -
    have "x \<noteq> s" "x \<noteq> n" "x \<noteq> nxt h s" "x \<noteq> prv h s" using that nb assms(3-5) by blast+
    then show "nxt (rt_list_insert_before s n h) x = nxt h x \<and> prv (rt_list_insert_before s n h) x = prv h x"
      "nxt (rt_list_insert_after s n h) x = nxt h x \<and> prv (rt_list_insert_after s n h) x = prv h x"
      by (simp_all add: rt_list_insert_before_def rt_list_insert_after_def Let_def)
  qed
  then show "ring (rt_list_insert_before s n h) k ys" "ring (rt_list_insert_after s n h) k ys"
    using ring_frame [OF assms(2)] by blast+
qed

lemma remove_other_ring:
  assumes "ring h l xs" "ring h k ys" "n \<in> set xs" "set (l # xs) \<inter> set (k # ys) = {}"
  shows "ring (rt_list_remove n h) k ys"
proof (rule ring_frame [OF assms(2)])
  fix x assume "x \<in> set (k # ys)"
  moreover have "n \<in> set (l # xs)" using assms(3) by simp
  ultimately have "x \<noteq> n" "x \<noteq> nxt h n" "x \<noteq> prv h n"
    using ring_neighbours [OF assms(1), of n] assms(4) by blast+
  then show "nxt (rt_list_remove n h) x = nxt h x \<and> prv (rt_list_remove n h) x = prv h x"
    by (auto simp: rt_list_remove_def Let_def)
qed

lemma rt_list_isempty_ring: "ring h l xs \<Longrightarrow> rt_list_isempty l h \<longleftrightarrow> xs = []"
  by (cases xs) (auto simp: ring_def rt_list_isempty_def)

lemma rt_list_first_ring: "ring h l (x # xs) \<Longrightarrow> nxt h l = x"
  by (simp add: ring_def)

lemma rt_list_len_loop_chain:
  "chain h (p # xs @ [l]) \<Longrightarrow> l \<notin> set xs \<Longrightarrow> rt_list_len_loop h l p n = Some (n + length xs)"
proof (induction xs arbitrary: p n)
  case Nil
  then show ?case by (subst rt_list_len_loop.simps) simp
next
  case (Cons a xs)
  then show ?case by (subst rt_list_len_loop.simps) simp
qed

lemma rt_list_len_ring: "ring h l xs \<Longrightarrow> rt_list_len l h = Some (length xs)"
  using rt_list_len_loop_chain [of h l xs l 0] by (simp add: rt_list_len_def ring_def)

text \<open>C38. The circular lists refine HOL lists: inserting after the head conses, inserting before the
  head appends, inserting before a member inserts there, removing a member removes it and
  leaves it self-linked, \<^verbatim>\<open>isempty\<close> tests for the empty list and the length loop ends with
  the length.\<close>

theorem rt_list_refinement:
  assumes "ring h l xs"
  shows "(n \<notin> set (l # xs) \<longrightarrow> ring (rt_list_insert_after l n h) l (n # xs) \<and>
      ring (rt_list_insert_before l n h) l (xs @ [n])) \<and>
    (n \<notin> set (l # xs) \<and> xs = us @ s # vs \<longrightarrow> ring (rt_list_insert_before s n h) l (us @ n # s # vs)) \<and>
    (m \<in> set xs \<longrightarrow> ring (rt_list_remove m h) l (remove1 m xs) \<and> nxt (rt_list_remove m h) m = m) \<and>
    (rt_list_isempty l h \<longleftrightarrow> xs = []) \<and> rt_list_len l h = Some (length xs)"
  using assms rt_list_insert_after_ring [OF assms, of n] rt_list_insert_before_ring [OF assms, of n]
    rt_list_insert_before_mid_ring [of h l us s vs n] rt_list_remove_ring [OF assms, of m]
    rt_list_remove_self(1) [of m h] rt_list_isempty_ring [OF assms] rt_list_len_ring [OF assms]
  by auto

theorem rt_list_refinement_witness:
  "ring (rt_list_insert_before 0 7 (rt_list_insert_after 0 5 (rt_list_init 0 \<lparr>nxt = id, prv = id\<rparr>))) 0 [5, 7]"
proof -
  let ?h = "rt_list_insert_after 0 5 (rt_list_init 0 \<lparr>nxt = id, prv = id\<rparr>)"
  have "ring ?h 0 [5]" by (rule rt_list_insert_after_ring [OF rt_list_init_ring]) simp
  from rt_list_refinement [OF this, of 7] show ?thesis by simp
qed

text \<open>Operations on one list leave every list with other nodes as it is.\<close>

theorem rt_list_frame:
  assumes "ring h l xs" "ring h k ys" "set (l # xs) \<inter> set (k # ys) = {}" "n \<notin> set (k # ys)"
    and "s \<in> set (l # xs)" "m \<in> set xs"
  shows "ring (rt_list_insert_after s n h) k ys \<and> ring (rt_list_insert_before s n h) k ys \<and>
    ring (rt_list_remove m h) k ys"
  using insert_other_ring [OF assms(1,2,5,3,4)] remove_other_ring [OF assms(1,2,6,3)] by simp

theorem rt_list_frame_witness:
  "ring (rt_list_remove 5 (rt_list_insert_after 0 5 (rt_list_init 9 (rt_list_init 0 \<lparr>nxt = id, prv = id\<rparr>)))) 9 []"
proof -
  let ?h = "rt_list_insert_after 0 5 (rt_list_init 9 (rt_list_init 0 \<lparr>nxt = id, prv = id\<rparr>))"
  have r: "ring ?h 0 [5]" "ring ?h 9 []"
    by (simp_all add: ring_def rt_list_insert_after_def rt_list_init_def Let_def)
  show ?thesis using rt_list_frame [OF r, of 7 0 5] by simp
qed

section \<open>The singly linked list\<close>

type_synonym sheap = "node \<Rightarrow> node option"

definition rt_slist_init :: "node \<Rightarrow> sheap \<Rightarrow> sheap" where
  "rt_slist_init l h = h(l := None)"

partial_function (option) slist_last :: "sheap \<Rightarrow> node \<Rightarrow> node option" where
  "slist_last h n = (case h n of None \<Rightarrow> Some n | Some m \<Rightarrow> slist_last h m)"

definition rt_slist_append :: "node \<Rightarrow> node \<Rightarrow> sheap \<Rightarrow> sheap option" where
  "rt_slist_append l n h = do { t \<leftarrow> slist_last h l; Some ((h(t := Some n))(n := None)) }"

definition rt_slist_insert :: "node \<Rightarrow> node \<Rightarrow> sheap \<Rightarrow> sheap" where
  "rt_slist_insert l n h = (h(n := h l))(l := Some n)"

partial_function (option) slist_len_loop :: "sheap \<Rightarrow> node option \<Rightarrow> nat \<Rightarrow> nat option" where
  "slist_len_loop h p len =
     (case p of None \<Rightarrow> Some len | Some n \<Rightarrow> slist_len_loop h (h n) (len + 1))"

definition rt_slist_len :: "node \<Rightarrow> sheap \<Rightarrow> nat option" where
  "rt_slist_len l h = slist_len_loop h (h l) 0"

partial_function (option) slist_before :: "sheap \<Rightarrow> node \<Rightarrow> node \<Rightarrow> node option" where
  "slist_before h n m =
     (case h m of None \<Rightarrow> Some m | Some k \<Rightarrow> if k = n then Some m else slist_before h n k)"

definition rt_slist_remove :: "node \<Rightarrow> node \<Rightarrow> sheap \<Rightarrow> sheap option" where
  "rt_slist_remove l n h =
     do { m \<leftarrow> slist_before h n l;
          Some (case h m of None \<Rightarrow> h | Some k \<Rightarrow> h(m := h k)) }"

fun path :: "sheap \<Rightarrow> node \<Rightarrow> node list \<Rightarrow> bool" where
  "path h a [] \<longleftrightarrow> h a = None"
| "path h a (x # xs) \<longleftrightarrow> h a = Some x \<and> path h x xs"

definition slist :: "sheap \<Rightarrow> node \<Rightarrow> node list \<Rightarrow> bool" where
  "slist h l xs \<longleftrightarrow> distinct (l # xs) \<and> path h l xs"

lemma path_cong: "path h a xs \<Longrightarrow> (\<And>x. x \<in> set (a # xs) \<Longrightarrow> h' x = h x) \<Longrightarrow> path h' a xs"
  by (induction xs arbitrary: a) auto

lemma slist_last_path: "path h a xs \<Longrightarrow> slist_last h a = Some (last (a # xs))"
  by (induction xs arbitrary: a) (subst slist_last.simps; simp)+

lemma slist_len_path: "path h a xs \<Longrightarrow> slist_len_loop h (h a) n = Some (n + length xs)"
  by (induction xs arbitrary: a n) (subst slist_len_loop.simps; simp)+

lemma path_append_node:
  "path h a xs \<Longrightarrow> distinct (a # xs) \<Longrightarrow> n \<notin> set (a # xs) \<Longrightarrow>
    path ((h(last (a # xs) := Some n))(n := None)) a (xs @ [n])"
proof (induction xs arbitrary: a)
  case Nil
  then show ?case by simp
next
  case (Cons x xs)
  have "last (a # x # xs) \<noteq> a" using Cons.prems(2) by (metis distinct.simps(2) last_ConsR last_in_set list.discI)
  then show ?case using Cons by simp
qed

lemma slist_before_path:
  "path h a xs \<Longrightarrow> distinct (a # xs) \<Longrightarrow> n \<noteq> a \<Longrightarrow>
    \<exists>m. slist_before h n a = Some m \<and>
      path (case h m of None \<Rightarrow> h | Some k \<Rightarrow> h(m := h k)) a (remove1 n xs) \<and> m \<in> set (a # xs)"
proof (induction xs arbitrary: a)
  case Nil
  then show ?case by (subst slist_before.simps) simp
next
  case (Cons x xs)
  show ?case
  proof (cases "x = n")
    case True
    have "path (h(a := h x)) a xs"
      using Cons.prems True by (cases xs) (auto intro: path_cong)
    then show ?thesis using Cons.prems True by (subst slist_before.simps) simp
  next
    case False
    from Cons.IH [of x] Cons.prems False obtain m where
      m: "slist_before h n x = Some m" "m \<in> set (x # xs)"
      "path (case h m of None \<Rightarrow> h | Some k \<Rightarrow> h(m := h k)) x (remove1 n xs)" by auto
    have "m \<noteq> a" using m(2) Cons.prems(2) by auto
    then show ?thesis using m Cons.prems False
      by (subst slist_before.simps) (auto split: option.splits)
  qed
qed

text \<open>The singly linked list refines HOL lists too: its loops end, \<^verbatim>\<open>append\<close> appends,
  \<^verbatim>\<open>insert\<close> conses, \<^verbatim>\<open>remove\<close> removes the node (and leaves the list alone when it is not
  a member), \<^verbatim>\<open>len\<close> is the length.\<close>

theorem rt_slist_refinement:
  assumes "slist h l xs"
  shows "(n \<notin> set (l # xs) \<longrightarrow> (\<exists>h'. rt_slist_append l n h = Some h' \<and> slist h' l (xs @ [n])) \<and>
      slist (rt_slist_insert l n h) l (n # xs)) \<and>
    (m \<noteq> l \<longrightarrow> (\<exists>h'. rt_slist_remove l m h = Some h' \<and> slist h' l (remove1 m xs))) \<and>
    rt_slist_len l h = Some (length xs)"
proof -
  have d: "distinct (l # xs)" and p: "path h l xs" using assms by (simp_all add: slist_def)
  have "n \<notin> set (l # xs) \<Longrightarrow> \<exists>h'. rt_slist_append l n h = Some h' \<and> slist h' l (xs @ [n])"
    using path_append_node [OF p d] slist_last_path [OF p] d
    by (simp add: rt_slist_append_def slist_def)
  moreover have "n \<notin> set (l # xs) \<Longrightarrow> slist (rt_slist_insert l n h) l (n # xs)"
    using d p by (cases xs) (auto simp: slist_def rt_slist_insert_def intro: path_cong)
  moreover have "m \<noteq> l \<Longrightarrow> \<exists>h'. rt_slist_remove l m h = Some h' \<and> slist h' l (remove1 m xs)"
    using slist_before_path [OF p d, of m] d set_remove1_subset [of m xs]
    by (auto simp: rt_slist_remove_def slist_def distinct_remove1)
  moreover have "rt_slist_len l h = Some (length xs)"
    using slist_len_path [OF p] by (simp add: rt_slist_len_def)
  ultimately show ?thesis by blast
qed

theorem rt_slist_refinement_witness:
  "\<exists>h'. rt_slist_append 0 7 (rt_slist_insert 0 5 (\<lambda>_. None)) = Some h' \<and> slist h' 0 [5, 7]"
  using rt_slist_refinement [of "rt_slist_insert 0 5 (\<lambda>_. None)" 0 "[5]" 7]
  by (simp add: slist_def rt_slist_insert_def)

end
