(* ===== verification/Ffs.thy ===== *)
theory Ffs
  imports Prelude
begin

text \<open>
  Finding the first set bit, the primitive behind the scheduler's priority bitmap:
  the table version of \<^verbatim>\<open>src/kservice.c\<close>, and the versions of \<^verbatim>\<open>libcpu/arm/cortex-m7/cpuport.c\<close>
  that the configuration selects (\<^verbatim>\<open>RT_USING_CPU_FFS\<close>): the instruction pair \<^verbatim>\<open>RBIT\<close>, \<^verbatim>\<open>CLZ\<close>
  and GCC's \<^verbatim>\<open>__builtin_ffs\<close>. Bits are numbered from 1, and 0 means that no bit is set.
\<close>

definition lowest_bit_bitmap :: "nat list" where
  "lowest_bit_bitmap = [
    0, 0, 1, 0, 2, 0, 1, 0, 3, 0, 1, 0, 2, 0, 1, 0,
    4, 0, 1, 0, 2, 0, 1, 0, 3, 0, 1, 0, 2, 0, 1, 0,
    5, 0, 1, 0, 2, 0, 1, 0, 3, 0, 1, 0, 2, 0, 1, 0,
    4, 0, 1, 0, 2, 0, 1, 0, 3, 0, 1, 0, 2, 0, 1, 0,
    6, 0, 1, 0, 2, 0, 1, 0, 3, 0, 1, 0, 2, 0, 1, 0,
    4, 0, 1, 0, 2, 0, 1, 0, 3, 0, 1, 0, 2, 0, 1, 0,
    5, 0, 1, 0, 2, 0, 1, 0, 3, 0, 1, 0, 2, 0, 1, 0,
    4, 0, 1, 0, 2, 0, 1, 0, 3, 0, 1, 0, 2, 0, 1, 0,
    7, 0, 1, 0, 2, 0, 1, 0, 3, 0, 1, 0, 2, 0, 1, 0,
    4, 0, 1, 0, 2, 0, 1, 0, 3, 0, 1, 0, 2, 0, 1, 0,
    5, 0, 1, 0, 2, 0, 1, 0, 3, 0, 1, 0, 2, 0, 1, 0,
    4, 0, 1, 0, 2, 0, 1, 0, 3, 0, 1, 0, 2, 0, 1, 0,
    6, 0, 1, 0, 2, 0, 1, 0, 3, 0, 1, 0, 2, 0, 1, 0,
    4, 0, 1, 0, 2, 0, 1, 0, 3, 0, 1, 0, 2, 0, 1, 0,
    5, 0, 1, 0, 2, 0, 1, 0, 3, 0, 1, 0, 2, 0, 1, 0,
    4, 0, 1, 0, 2, 0, 1, 0, 3, 0, 1, 0, 2, 0, 1, 0]"

definition rt_ffs_table :: "32 word \<Rightarrow> nat" where
  "rt_ffs_table value =
     (if value = 0 then 0
      else if value AND 0xff \<noteq> 0 then lowest_bit_bitmap ! unat (value AND 0xff) + 1
      else if value AND 0xff00 \<noteq> 0 then lowest_bit_bitmap ! unat (drop_bit 8 (value AND 0xff00)) + 9
      else if value AND 0xff0000 \<noteq> 0 then lowest_bit_bitmap ! unat (drop_bit 16 (value AND 0xff0000)) + 17
      else lowest_bit_bitmap ! unat (drop_bit 24 (value AND 0xff000000)) + 25)"

text \<open>The instructions: reversal of the 32 bits, and the number of leading zeros.\<close>

definition RBIT :: "32 word \<Rightarrow> 32 word" where
  "RBIT v = horner_sum of_bool 2 (map (\<lambda>i. bit v (31 - i)) [0..<32])"

definition CLZ :: "32 word \<Rightarrow> nat" where
  "CLZ v = length (takeWhile (\<lambda>i. \<not> bit v (31 - i)) [0..<32])"

definition rt_ffs_clz :: "32 word \<Rightarrow> nat" where
  "rt_ffs_clz value = (if value = 0 then 0 else CLZ (RBIT value) + 1)"

definition rt_ffs :: "32 word \<Rightarrow> nat" where
  "rt_ffs value = (case List.find (bit value) [0..<32] of None \<Rightarrow> 0 | Some i \<Rightarrow> i + 1)"

section \<open>The lowest set bit\<close>

definition lowest :: "32 word \<Rightarrow> nat \<Rightarrow> bool" where
  "lowest v i \<longleftrightarrow> i < 32 \<and> bit v i \<and> (\<forall>j<i. \<not> bit v j)"

lemma lowest_unique: "lowest v i \<Longrightarrow> lowest v j \<Longrightarrow> i = j"
  by (metis linorder_neqE_nat lowest_def)

lemma nonzero_bit: "(v :: 32 word) \<noteq> 0 \<Longrightarrow> \<exists>i<32. bit v i"
  using bit_imp_le_length [of v] by (force simp: bit_eq_iff)

lemma rt_ffs_lowest:
  assumes "v \<noteq> 0"
  shows "\<exists>i. rt_ffs v = i + 1 \<and> lowest v i"
proof -
  obtain k where k: "k < 32" "bit v k" using nonzero_bit [OF assms] by blast
  then have "List.find (bit v) [0..<32] \<noteq> None" by (auto simp: find_None_iff)
  then obtain i where i: "List.find (bit v) [0..<32] = Some i" by blast
  then have "lowest v i" by (auto simp: find_Some_iff lowest_def)
  then show ?thesis using i by (simp add: rt_ffs_def)
qed

lemma rt_ffs_zero [simp]: "rt_ffs 0 = 0"
proof -
  have "List.find (bit (0 :: 32 word)) [0..<32] = None" unfolding find_None_iff by simp
  then show ?thesis by (simp add: rt_ffs_def)
qed

lemma rt_ffs_eq: "lowest v i \<Longrightarrow> rt_ffs v = i + 1"
proof -
  assume l: "lowest v i"
  then have "v \<noteq> 0" by (auto simp: lowest_def)
  then show "rt_ffs v = i + 1" using rt_ffs_lowest lowest_unique l by blast
qed

section \<open>The three versions agree\<close>

lemma bitmap_check:
  "list_all (\<lambda>(b, t). b = 0 \<or> t < 8 \<and> odd (b div 2 ^ t) \<and> b mod 2 ^ t = 0) (zip [0..255 :: int] lowest_bit_bitmap)"
  by code_simp

lemma bitmap_nat:
  assumes "b < 256" "b \<noteq> 0"
  shows "lowest_bit_bitmap ! b < 8" "odd (b div 2 ^ (lowest_bit_bitmap ! b))"
    "take_bit (lowest_bit_bitmap ! b) b = 0"
proof -
  let ?t = "lowest_bit_bitmap ! b"
  have l: "length lowest_bit_bitmap = 256" by (simp add: lowest_bit_bitmap_def)
  have "[0..255] ! b = int b" using nth_upto [of 0 b 255] assms(1) by simp
  then have "(int b, ?t) \<in> set (zip [0..255] lowest_bit_bitmap)"
    using assms(1) l by (auto simp: set_zip intro!: exI [of _ b])
  then have t: "?t < 8 \<and> odd (int b div 2 ^ ?t) \<and> int b mod 2 ^ ?t = 0"
    using bitmap_check assms(2) by (fastforce simp: list_all_iff)
  have "int (b div 2 ^ ?t) = int b div 2 ^ ?t" "int (b mod 2 ^ ?t) = int b mod 2 ^ ?t"
    by (simp_all add: zdiv_int zmod_int)
  then show "?t < 8" "odd (b div 2 ^ ?t)" "take_bit ?t b = 0"
    using t by (presburger, metis even_of_nat, metis of_nat_eq_0_iff take_bit_eq_mod)
qed

lemma bitmap_lowest:
  assumes "unat (w :: 32 word) < 256" "w \<noteq> 0"
  shows "lowest w (lowest_bit_bitmap ! unat w)"
proof -
  let ?b = "unat w" and ?t = "lowest_bit_bitmap ! unat w"
  have "?b \<noteq> 0" using assms(2) by (simp add: unat_eq_0)
  note t = bitmap_nat [OF assms(1) this]
  have "\<not> bit ?b j" if "j < ?t" for j
    using t(3) that by (metis bit_take_bit_iff bit_0_eq bot_apply bot_bool_def)
  moreover have "bit ?b j \<longleftrightarrow> bit w j" for j by (simp add: bit_unsigned_iff)
  ultimately show ?thesis using t(1,2) by (auto simp: lowest_def simp flip: bit_iff_odd)
qed

lemma mask_bytes:
  "(0xff :: 32 word) = push_bit 0 (mask 8)" "(0xff00 :: 32 word) = push_bit 8 (mask 8)"
  "(0xff0000 :: 32 word) = push_bit 16 (mask 8)" "(0xff000000 :: 32 word) = push_bit 24 (mask 8)"
  by code_simp+

lemma byte_bits:
  "s \<le> 24 \<Longrightarrow> bit (drop_bit s ((v :: 32 word) AND push_bit s (mask 8))) j \<longleftrightarrow> j < 8 \<and> bit v (s + j)"
  by (auto simp: bit_simps)

lemma byte_small:
  "s \<le> 24 \<Longrightarrow> unat (drop_bit s ((v :: 32 word) AND push_bit s (mask 8))) < 256"
proof -
  assume s: "s \<le> 24"
  let ?w = "drop_bit s (v AND push_bit s (mask 8))"
  have b: "bit ?w n \<longleftrightarrow> bit (take_bit 8 ?w) n" for n
    unfolding bit_take_bit_iff byte_bits [OF s] by blast
  have "?w = take_bit 8 ?w" by (rule bit_eqI) (rule b)
  then have "unat ?w = unat (take_bit 8 ?w)" by (rule arg_cong)
  also have "\<dots> = take_bit 8 (unat ?w)" by (rule unsigned_take_bit_eq)
  also have "\<dots> < 2 ^ 8" by (rule take_bit_nat_less_exp)
  finally show ?thesis by simp
qed

text \<open>The byte that the table is asked about: the lower ones are zero, it is not.\<close>

lemma table_byte:
  assumes "s \<le> 24" "v AND push_bit s (mask 8) \<noteq> 0" "\<forall>j < s. \<not> bit v j"
  shows "rt_ffs v = lowest_bit_bitmap ! unat (drop_bit s (v AND push_bit s (mask 8))) + s + 1"
proof -
  let ?w = "drop_bit s (v AND push_bit s (mask 8))"
  obtain k where k: "bit (v AND push_bit s (mask 8)) k" using nonzero_bit [OF assms(2)] by blast
  then have "s \<le> k" by (auto simp: bit_simps)
  then have "bit ?w (k - s)" using k by (simp only: bit_drop_bit_eq) simp
  then have "?w \<noteq> 0" by (metis bit_0_eq bot_apply bot_bool_def)
  from bitmap_lowest [OF byte_small [OF assms(1)] this]
  have l: "lowest ?w (lowest_bit_bitmap ! unat ?w)" .
  then have b: "bit ?w (lowest_bit_bitmap ! unat ?w)" by (simp add: lowest_def)
  have "lowest v (lowest_bit_bitmap ! unat ?w + s)"
    unfolding lowest_def
  proof (intro conjI allI impI)
    show "lowest_bit_bitmap ! unat ?w + s < 32" "bit v (lowest_bit_bitmap ! unat ?w + s)"
      using b byte_bits [OF assms(1)] assms(1) by (auto simp: add.commute)
    fix j assume j: "j < lowest_bit_bitmap ! unat ?w + s"
    show "\<not> bit v j"
    proof (cases "j < s")
      case True
      then show ?thesis using assms(3) by simp
    next
      case False
      then have jj: "j - s < lowest_bit_bitmap ! unat ?w" using j by simp
      then have "\<not> bit ?w (j - s)" using l by (simp add: lowest_def)
      moreover have "j - s < 8" using jj b byte_bits [OF assms(1)] by force
      ultimately show ?thesis using byte_bits [OF assms(1), of v "j - s"] False by simp
    qed
  qed
  from rt_ffs_eq [OF this] show ?thesis by simp
qed

lemma byte_zero:
  assumes "s \<le> 24" "v AND push_bit s (mask 8) = (0 :: 32 word)" "\<forall>j < s. \<not> bit v j"
  shows "\<forall>j < s + 8. \<not> bit v j"
proof (intro allI impI)
  fix j assume j: "j < s + 8"
  have "\<not> bit (v AND push_bit s (mask 8)) j" using assms(2) by simp
  then show "\<not> bit v j" using j assms(1,3) by (cases "j < s") (auto simp: bit_simps)
qed

lemma rt_ffs_table_eq: "rt_ffs_table v = rt_ffs v"
proof (cases "v = 0")
  case True
  then show ?thesis by (simp add: rt_ffs_table_def)
next
  case False
  note z0 = byte_zero [of 0 v, simplified] and z8 = byte_zero [of 8 v, simplified]
    and z16 = byte_zero [of 16 v, simplified] and z24 = byte_zero [of 24 v, simplified]
  note t0 = table_byte [of 0 v, simplified] and t8 = table_byte [of 8 v]
    and t16 = table_byte [of 16 v] and t24 = table_byte [of 24 v]
  have "v AND push_bit 24 (mask 8) \<noteq> 0" if "\<forall>j<24. \<not> bit v j"
    using z24 that nonzero_bit [OF False] by auto
  then show ?thesis
    unfolding rt_ffs_table_def mask_bytes
    using False z0 z8 z16 t0 t8 t16 t24 by auto
qed

lemma bit_RBIT: "bit (RBIT v) n \<longleftrightarrow> n < 32 \<and> bit v (31 - n)"
  by (auto simp: RBIT_def bit_horner_sum_bit_word_iff)

lemma takeWhile_upt:
  assumes "i < n" "\<not> P i" "\<forall>j<i. P j"
  shows "takeWhile P [0..<n] = [0..<i]"
proof -
  have "[0..<n] = [0..<i] @ i # [Suc i..<n]"
    using assms(1) by (metis le_add_diff_inverse less_imp_le_nat upt_add_eq_append upt_conv_Cons le0)
  then show ?thesis using assms(2,3) by (simp add: takeWhile_append)
qed

lemma rt_ffs_clz_eq: "rt_ffs_clz v = rt_ffs v"
proof (cases "v = 0")
  case True
  then show ?thesis by (simp add: rt_ffs_clz_def)
next
  case False
  then obtain i where i: "rt_ffs v = i + 1" "lowest v i" using rt_ffs_lowest by blast
  have "takeWhile (\<lambda>k. \<not> bit (RBIT v) (31 - k)) [0..<32] = [0..<i]"
    using i(2) by (intro takeWhile_upt) (auto simp: bit_RBIT lowest_def)
  then have "CLZ (RBIT v) = i" by (simp add: CLZ_def)
  then show ?thesis using False i(1) by (simp add: rt_ffs_clz_def)
qed

text \<open>C40. The table lookup, the instruction pair and the compiler's builtin compute the same function:
  0 for 0, and otherwise one more than the index of the lowest set bit.\<close>

theorem rt_ffs_versions:
  "rt_ffs_table v = rt_ffs v \<and> rt_ffs_clz v = rt_ffs v \<and>
    (if v = 0 then rt_ffs v = 0
     else rt_ffs v - 1 < 32 \<and> bit v (rt_ffs v - 1) \<and> (\<forall>j. bit v j \<longrightarrow> rt_ffs v - 1 \<le> j))"
  using rt_ffs_table_eq [of v] rt_ffs_clz_eq [of v] rt_ffs_lowest [of v]
  by (auto simp: lowest_def not_less [symmetric])

theorem rt_ffs_versions_witness: "rt_ffs_table 0x50 = rt_ffs 0x50 \<and> rt_ffs 0x50 = 5"
proof -
  have "rt_ffs 0x50 = 5" by code_simp
  then show ?thesis using rt_ffs_versions [of "0x50"] by simp
qed

end
