(* ===== verification/Timer.thy ===== *)
theory Timer
  imports Prelude "HOL-Library.Sublist"
begin

text \<open>
  The timer lists of \<^verbatim>\<open>src/timer.c\<close> and the tick of \<^verbatim>\<open>src/clock.c\<close>. With
  \<^verbatim>\<open>RT_TIMER_SKIP_LIST_LEVEL\<close> 1 the skip list is one ordered list per clock: the hard timers,
  served by the tick interrupt, and the soft timers, served by the timer thread. Ticks are
  32-bit words; a deadline counts as reached when \<^verbatim>\<open>now - timeout\<close>, which wraps, is below half
  of the range.

  The record \<open>timers\<close> is polymorphic in the timer identities and open at its end: the kernel
  state of the scheduler theory extends it.
\<close>

section \<open>State\<close>

definition RT_TICK_MAX :: "32 word" where
  "RT_TICK_MAX = 0xffffffff"

definition half_range :: "32 word" where
  "half_range = RT_TICK_MAX div 2"

lemma unat_half_range [simp]: "unat half_range = 0x7fffffff"
  by (simp add: half_range_def RT_TICK_MAX_def unat_div_distrib)

record tmr =
  tm_soft :: bool
  tm_periodic :: bool
  tm_active :: bool
  tm_init :: "32 word"
  tm_timeout :: "32 word"

record 'm timers =
  tmrs :: "'m \<Rightarrow> tmr"
  hard :: "'m list"
  soft :: "'m list"
  now :: "32 word"

definition upd_tmr :: "'m \<Rightarrow> (tmr \<Rightarrow> tmr) \<Rightarrow> ('m, 'z) timers_scheme \<Rightarrow> ('m, 'z) timers_scheme" where
  "upd_tmr t f s = s\<lparr>tmrs := (tmrs s)(t := f (tmrs s t))\<rparr>"

section \<open>Operations\<close>

definition rt_timer_init :: "'m \<Rightarrow> 32 word \<Rightarrow> bool \<Rightarrow> bool \<Rightarrow> ('m, 'z) timers_scheme \<Rightarrow> ('m, 'z) timers_scheme" where
  "rt_timer_init t time periodic is_soft s =
     s\<lparr>tmrs := (tmrs s)(t := \<lparr>tm_soft = is_soft, tm_periodic = periodic, tm_active = False,
        tm_init = time, tm_timeout = 0\<rparr>)\<rparr>"

definition timer_remove :: "'m \<Rightarrow> ('m, 'z) timers_scheme \<Rightarrow> ('m, 'z) timers_scheme" where
  "timer_remove t s = s\<lparr>hard := removeAll t (hard s), soft := removeAll t (soft s)\<rparr>"

definition rt_timer_detach :: "'m \<Rightarrow> ('m, 'z) timers_scheme \<Rightarrow> ('m, 'z) timers_scheme" where
  "rt_timer_detach t s = timer_remove t s"

definition rt_timer_list_next_timeout :: "'m list \<Rightarrow> ('m, 'z) timers_scheme \<Rightarrow> 32 word" where
  "rt_timer_list_next_timeout l s = (case l of [] \<Rightarrow> RT_TICK_MAX | t # _ \<Rightarrow> tm_timeout (tmrs s t))"

text \<open>The walk that finds the place of a timer with deadline \<open>d\<close>: past the earlier and the equal ones.\<close>

fun timer_place :: "('m \<Rightarrow> tmr) \<Rightarrow> 32 word \<Rightarrow> 'm \<Rightarrow> 'm list \<Rightarrow> 'm list" where
  "timer_place T d t [] = [t]"
| "timer_place T d t (x # xs) =
     (if tm_timeout (T x) - d = 0 then x # timer_place T d t xs
      else if tm_timeout (T x) - d < half_range then t # x # xs
      else x # timer_place T d t xs)"

text \<open>
  \<^verbatim>\<open>rt_timer_start\<close> up to the wake-up of the timer thread; \<open>None\<close> is the failed assertion on
  the length of the timer.
\<close>

definition timer_start :: "'m \<Rightarrow> ('m, 'z) timers_scheme \<Rightarrow> ('m, 'z) timers_scheme option" where
  "timer_start t s =
     (let s1 = upd_tmr t (\<lambda>m. m\<lparr>tm_active := False\<rparr>) (timer_remove t s)
      in if tm_init (tmrs s1 t) < half_range
         then
           (let d = now s1 + tm_init (tmrs s1 t);
                s2 = upd_tmr t (\<lambda>m. m\<lparr>tm_timeout := d\<rparr>) s1;
                s3 = (if tm_soft (tmrs s2 t)
                      then s2\<lparr>soft := timer_place (tmrs s2) d t (soft s2)\<rparr>
                      else s2\<lparr>hard := timer_place (tmrs s2) d t (hard s2)\<rparr>)
            in Some (upd_tmr t (\<lambda>m. m\<lparr>tm_active := True\<rparr>) s3))
         else None)"

definition rt_timer_stop :: "'m \<Rightarrow> ('m, 'z) timers_scheme \<Rightarrow> ('m, 'z) timers_scheme \<times> rt_err" where
  "rt_timer_stop t s =
     (if \<not> tm_active (tmrs s t) then (s, RT_ERROR)
      else (upd_tmr t (\<lambda>m. m\<lparr>tm_active := False\<rparr>) (timer_remove t s), RT_EOK))"

datatype tm_cmd = GET_TIME | SET_TIME "32 word" | SET_ONESHOT | SET_PERIODIC | GET_STATE

text \<open>The second component is what the command writes to its argument, if anything.\<close>

definition rt_timer_control ::
  "'m \<Rightarrow> tm_cmd \<Rightarrow> ('m, 'z) timers_scheme \<Rightarrow> ('m, 'z) timers_scheme \<times> 32 word option" where
  "rt_timer_control t cmd s =
     (case cmd of
        GET_TIME \<Rightarrow> (s, Some (tm_init (tmrs s t)))
      | SET_TIME v \<Rightarrow> (upd_tmr t (\<lambda>m. m\<lparr>tm_init := v\<rparr>) s, None)
      | SET_ONESHOT \<Rightarrow> (upd_tmr t (\<lambda>m. m\<lparr>tm_periodic := False\<rparr>) s, None)
      | SET_PERIODIC \<Rightarrow> (upd_tmr t (\<lambda>m. m\<lparr>tm_periodic := True\<rparr>) s, None)
      | GET_STATE \<Rightarrow> (s, Some (if tm_active (tmrs s t) then 1 else 0)))"

text \<open>
  \<^verbatim>\<open>rt_timer_check\<close>: while the first hard timer is due, unlink it, run its function, and
  start it again if it is periodic and still active. \<open>cb\<close> is the timeout function; it may
  change the whole state. The loop need not end.
\<close>

definition timer_due :: "32 word \<Rightarrow> tmr \<Rightarrow> bool" where
  "timer_due cur m \<longleftrightarrow> cur - tm_timeout m < half_range"

definition timer_fire ::
  "('m \<Rightarrow> ('m, 'z) timers_scheme \<Rightarrow> ('m, 'z) timers_scheme option) \<Rightarrow> 'm \<Rightarrow> ('m, 'z) timers_scheme
     \<Rightarrow> ('m, 'z) timers_scheme option" where
  "timer_fire cb t s =
     do {
       s1 \<leftarrow> cb t (timer_remove t s);
       if tm_periodic (tmrs s1 t) \<and> tm_active (tmrs s1 t)
       then timer_start t (upd_tmr t (\<lambda>m. m\<lparr>tm_active := False\<rparr>) s1)
       else Some (upd_tmr t (\<lambda>m. m\<lparr>tm_active := False\<rparr>) s1)
     }"

partial_function (option) timer_check_loop ::
  "('m \<Rightarrow> ('m, 'z) timers_scheme \<Rightarrow> ('m, 'z) timers_scheme option) \<Rightarrow> 32 word \<Rightarrow> ('m, 'z) timers_scheme
     \<Rightarrow> ('m, 'z) timers_scheme option"
where
  "timer_check_loop cb cur s =
     (case hard s of
        [] \<Rightarrow> Some s
      | t # _ \<Rightarrow>
          if timer_due cur (tmrs s t)
          then do { s1 \<leftarrow> timer_fire cb t s; timer_check_loop cb (now s1) s1 }
          else Some s)"

declare timer_check_loop.simps [code]

definition rt_timer_check ::
  "('m \<Rightarrow> ('m, 'z) timers_scheme \<Rightarrow> ('m, 'z) timers_scheme option) \<Rightarrow> ('m, 'z) timers_scheme
     \<Rightarrow> ('m, 'z) timers_scheme option" where
  "rt_timer_check cb s = timer_check_loop cb (now s) s"

section \<open>Distances in the tick circle\<close>

text \<open>
  Deadlines are compared relative to a base tick. Inside a window of half the range after
  the base, the wrapping comparison of the code is the order of the distances.
\<close>

definition tdist :: "32 word \<Rightarrow> 32 word \<Rightarrow> nat" where
  "tdist base w = unat (w - base)"

lemma tdist_inj [simp]: "tdist base a = tdist base b \<longleftrightarrow> a = b"
  by (metis diff_add_cancel tdist_def word_unat_eq_iff)

lemma tdist_diff:
  assumes "tdist base a < 0x7fffffff" "tdist base b < 0x7fffffff"
  shows "a - b < half_range \<longleftrightarrow> tdist base b \<le> tdist base a" "a - b = 0 \<longleftrightarrow> tdist base a = tdist base b"
proof -
  have "unat (x - y) = (if unat y \<le> unat x then unat x - unat y else unat x + 2 ^ 32 - unat y)"
    for x y :: "32 word"
    by (simp add: unat_sub_if_size word_size word_le_nat_alt)
  from this [of "a - base" "b - base"]
  have "unat (a - b) = (if tdist base b \<le> tdist base a then tdist base a - tdist base b
      else tdist base a + 2 ^ 32 - tdist base b)"
    by (simp add: tdist_def)
  then show "a - b < half_range \<longleftrightarrow> tdist base b \<le> tdist base a"
    using assms by (auto simp: word_less_nat_alt)
  show "a - b = 0 \<longleftrightarrow> tdist base a = tdist base b"
    by simp
qed

lemma tdist_self [simp]: "tdist base base = 0"
  by (simp add: tdist_def)

lemma tdist_later: "tdist base (base + d) = unat d"
  by (simp add: tdist_def)

lemma tdist_tick: "0 < tdist base w \<Longrightarrow> tdist (base + 1) w = tdist base w - 1"
proof -
  assume "0 < tdist base w"
  then have "w - base \<noteq> 0" by (auto simp: tdist_def)
  then show ?thesis by (simp add: tdist_def unat_minus_one diff_diff_eq [symmetric])
qed

section \<open>The ordered lists\<close>

text \<open>Deadlines of a list, relative to a base; the list is in window order.\<close>

definition deadlines :: "('m, 'z) timers_scheme \<Rightarrow> 'm list \<Rightarrow> nat list" where
  "deadlines s l = map (\<lambda>t. tdist (now s) (tm_timeout (tmrs s t))) l"

definition window_sorted :: "('m \<Rightarrow> tmr) \<Rightarrow> 32 word \<Rightarrow> 'm list \<Rightarrow> bool" where
  "window_sorted T base l \<longleftrightarrow> sorted (map (\<lambda>t. tdist base (tm_timeout (T t))) l) \<and>
     (\<forall>t \<in> set l. tdist base (tm_timeout (T t)) < 0x7fffffff)"

lemma window_sorted_simps [simp]:
  "window_sorted T base []"
  "window_sorted T base (x # xs) \<longleftrightarrow> tdist base (tm_timeout (T x)) < 0x7fffffff \<and>
     (\<forall>y \<in> set xs. tdist base (tm_timeout (T x)) \<le> tdist base (tm_timeout (T y))) \<and> window_sorted T base xs"
  by (auto simp: window_sorted_def)

lemma set_timer_place [simp]: "set (timer_place T d t l) = insert t (set l)"
  by (induction l) auto

lemma timer_place_spec:
  assumes "window_sorted T base l" "tdist base d < 0x7fffffff"
  shows "timer_place T d t l =
    takeWhile (\<lambda>x. tdist base (tm_timeout (T x)) \<le> tdist base d) l @
    t # dropWhile (\<lambda>x. tdist base (tm_timeout (T x)) \<le> tdist base d) l"
  using assms by (induction l) (auto simp: tdist_diff [where base = base])

lemma window_sorted_place:
  assumes "window_sorted T base l" "tdist base d < 0x7fffffff" "tm_timeout (T t) = d"
  shows "window_sorted T base (timer_place T d t l)"
  using assms by (induction l) (auto simp: tdist_diff [where base = base])

lemma timer_place_cong: "(\<And>x. x \<in> set l \<Longrightarrow> tm_timeout (T x) = tm_timeout (T' x)) \<Longrightarrow>
    timer_place T d t l = timer_place T' d t l"
  by (induction l) auto

lemma window_sorted_cong: "(\<And>x. x \<in> set l \<Longrightarrow> tm_timeout (T x) = tm_timeout (T' x)) \<Longrightarrow>
    window_sorted T base l \<longleftrightarrow> window_sorted T' base l"
  by (induction l) auto

lemma window_sorted_removeAll: "window_sorted T base l \<Longrightarrow> window_sorted T base (removeAll t l)"
  by (induction l) auto

text \<open>
  The invariant of the timer system: no timer is linked twice, every linked timer is active
  and on the list of its kind, and both lists are in window order from the current tick.
\<close>

definition timers_inv :: "('m, 'z) timers_scheme \<Rightarrow> bool" where
  "timers_inv s \<longleftrightarrow> distinct (hard s) \<and> distinct (soft s) \<and>
     (\<forall>t \<in> set (hard s). tm_active (tmrs s t) \<and> \<not> tm_soft (tmrs s t)) \<and>
     (\<forall>t \<in> set (soft s). tm_active (tmrs s t) \<and> tm_soft (tmrs s t)) \<and>
     window_sorted (tmrs s) (now s) (hard s)"

lemma upd_tmr_simps [simp]:
  "tmrs (upd_tmr t f s) = (tmrs s)(t := f (tmrs s t))" "hard (upd_tmr t f s) = hard s"
  "soft (upd_tmr t f s) = soft s" "now (upd_tmr t f s) = now s"
  by (simp_all add: upd_tmr_def)

lemma timer_remove_simps [simp]:
  "tmrs (timer_remove t s) = tmrs s" "hard (timer_remove t s) = removeAll t (hard s)"
  "soft (timer_remove t s) = removeAll t (soft s)" "now (timer_remove t s) = now s"
  by (simp_all add: timer_remove_def)

lemma distinct_place: "distinct l \<Longrightarrow> t \<notin> set l \<Longrightarrow> distinct (timer_place T d t l)"
  by (induction l) auto

lemma timer_remove_inv [inv_intro]: "timers_inv s \<Longrightarrow> timers_inv (timer_remove t s)"
  by (auto simp: timers_inv_def distinct_removeAll window_sorted_removeAll)

lemma upd_unlinked_inv [inv_intro]:
  "timers_inv s \<Longrightarrow> t \<notin> set (hard s) \<Longrightarrow> t \<notin> set (soft s) \<Longrightarrow> timers_inv (upd_tmr t f s)"
proof -
  assume a: "timers_inv s" "t \<notin> set (hard s)" "t \<notin> set (soft s)"
  have "window_sorted ((tmrs s)(t := f (tmrs s t))) (now s) (hard s) = window_sorted (tmrs s) (now s) (hard s)"
    by (rule window_sorted_cong) (use a(2) in auto)
  then show ?thesis using a by (auto simp: timers_inv_def)
qed

text \<open>Starting a timer whose length is below half the range.\<close>

lemma timer_start_spec:
  assumes "tm_init (tmrs s t) < half_range"
  shows "\<exists>s'. timer_start t s = Some s' \<and> now s' = now s \<and>
    tmrs s' = (tmrs s)(t := (tmrs s t)\<lparr>tm_timeout := now s + tm_init (tmrs s t), tm_active := True\<rparr>) \<and>
    hard s' = (if tm_soft (tmrs s t) then removeAll t (hard s)
      else timer_place (tmrs s) (now s + tm_init (tmrs s t)) t (removeAll t (hard s))) \<and>
    soft s' = (if tm_soft (tmrs s t)
      then timer_place (tmrs s) (now s + tm_init (tmrs s t)) t (removeAll t (soft s)) else removeAll t (soft s))"
proof -
  have p: "timer_place ((tmrs s)(t := m)) d t (removeAll t l) = timer_place (tmrs s) d t (removeAll t l)" for m d l
    by (rule timer_place_cong) auto
  show ?thesis using assms by (simp add: timer_start_def Let_def upd_tmr_def p)
qed

lemma timer_start_inv [inv_intro]:
  assumes "timers_inv s" "timer_start t s = Some s'"
  shows "timers_inv s'"
proof -
  have i: "tm_init (tmrs s t) < half_range"
    using assms(2) by (simp add: timer_start_def Let_def split: if_splits)
  let ?d = "now s + tm_init (tmrs s t)"
  let ?T = "(tmrs s)(t := (tmrs s t)\<lparr>tm_timeout := ?d, tm_active := True\<rparr>)"
  have d: "tdist (now s) ?d < 0x7fffffff" using i by (simp add: tdist_later word_less_nat_alt)
  have w: "window_sorted ?T (now s) (removeAll t (hard s))"
    using window_sorted_removeAll [of "tmrs s" "now s" "hard s" t] assms(1)
      window_sorted_cong [of "removeAll t (hard s)" "tmrs s" ?T "now s"]
    by (auto simp: timers_inv_def)
  have p: "timer_place (tmrs s) ?d t (removeAll t (hard s)) = timer_place ?T ?d t (removeAll t (hard s))"
    by (rule timer_place_cong) auto
  show ?thesis
    using timer_start_spec [OF i] assms w window_sorted_place [OF w d, of t]
    by (auto simp: timers_inv_def p distinct_place distinct_removeAll)
qed

lemma rt_timer_stop_inv [inv_intro]: "timers_inv s \<Longrightarrow> timers_inv (fst (rt_timer_stop t s))"
  by (auto simp: rt_timer_stop_def intro!: upd_unlinked_inv timer_remove_inv)

section \<open>Serving the due timers\<close>

lemma timer_due_now:
  "timers_inv s \<Longrightarrow> t \<in> set (hard s) \<Longrightarrow> timer_due (now s) (tmrs s t) \<longleftrightarrow> tm_timeout (tmrs s t) = now s"
  using tdist_diff(1) [of "now s" "now s" "tm_timeout (tmrs s t)"] tdist_inj [of "now s" _ "now s"]
  by (auto simp: timers_inv_def window_sorted_def timer_due_def)

definition due :: "('m, 'z) timers_scheme \<Rightarrow> 'm list" where
  "due s = filter (\<lambda>t. tm_timeout (tmrs s t) = now s) (hard s)"

lemma filter_place: "\<not> P t \<Longrightarrow> filter P (timer_place T d t l) = filter P l"
  by (induction l) auto

lemma due_none:
  assumes "timers_inv s" "hard s = t # l" "tm_timeout (tmrs s t) \<noteq> now s"
  shows "due s = []"
proof -
  have "0 < tdist (now s) (tm_timeout (tmrs s t))"
    using assms(3) tdist_inj [of "now s" "tm_timeout (tmrs s t)" "now s"] by fastforce
  moreover have "\<forall>x \<in> set l. tdist (now s) (tm_timeout (tmrs s t)) \<le> tdist (now s) (tm_timeout (tmrs s x))"
    using assms(1,2) by (simp add: timers_inv_def)
  ultimately have "\<forall>x \<in> set (hard s). tm_timeout (tmrs s x) \<noteq> now s" using assms(2,3) by fastforce
  then show ?thesis by (simp add: due_def)
qed

lemma timer_check_step:
  "hard s = t # l \<Longrightarrow> timer_due cur (tmrs s t) \<Longrightarrow> timer_fire cb t s = Some s1 \<Longrightarrow>
    timer_check_loop cb cur s = timer_check_loop cb (now s1) s1"
  by (subst timer_check_loop.simps) simp

lemma timer_check_idle:
  assumes "timers_inv s" "due s = []"
  shows "timer_check_loop cb (now s) s = Some s"
proof (cases "hard s")
  case Nil
  then show ?thesis by (subst timer_check_loop.simps) simp
next
  case (Cons t l)
  then have "tm_timeout (tmrs s t) \<noteq> now s" using assms(2) by (auto simp: due_def split: if_splits)
  then show ?thesis using timer_due_now [OF assms(1), of t] Cons
    by (subst timer_check_loop.simps) simp
qed

lemma set_subseq: "subseq xs ys \<Longrightarrow> set xs \<subseteq> set ys"
  by (auto elim: list_emb_set)

lemma due_head:
  "due s \<noteq> [] \<Longrightarrow> timers_inv s \<Longrightarrow> \<exists>t l. hard s = t # l \<and> tm_timeout (tmrs s t) = now s \<and>
     due s = t # filter (\<lambda>x. tm_timeout (tmrs s x) = now s) l"
  using due_none [of s "hd (hard s)" "tl (hard s)"] by (cases "hard s") (auto simp: due_def split: if_splits)

text \<open>
  The contract of a timeout function. It runs with its own timer unlinked, may start, stop and
  control any timer, its own included, and changes the rest of the state at will. It has to
  return; it keeps the invariant of the lists and the tick; the hard timers it leaves linked
  have usable periods; it makes no timer due that was not; it does not turn its own timer into
  a soft timer, and it starts it only if it is periodic.
\<close>

definition period_ok :: "tmr \<Rightarrow> bool" where
  "period_ok m \<longleftrightarrow> \<not> tm_soft m \<and> (tm_periodic m \<longrightarrow> 0 < tm_init m \<and> tm_init m < half_range)"

definition periods_ok :: "('m, 'z) timers_scheme \<Rightarrow> bool" where
  "periods_ok s \<longleftrightarrow> (\<forall>t \<in> set (hard s). period_ok (tmrs s t))"

definition timeout_pre :: "'m \<Rightarrow> ('m, 'z) timers_scheme \<Rightarrow> bool" where
  "timeout_pre t s \<longleftrightarrow> timers_inv s \<and> periods_ok s \<and> t \<notin> set (hard s) \<and> t \<notin> set (soft s) \<and> period_ok (tmrs s t)"

definition timeout_post :: "'m \<Rightarrow> ('m, 'z) timers_scheme \<Rightarrow> ('m, 'z) timers_scheme \<Rightarrow> bool" where
  "timeout_post t s s' \<longleftrightarrow> timers_inv s' \<and> periods_ok s' \<and> now s' = now s \<and> subseq (due s') (due s) \<and>
     period_ok (tmrs s' t) \<and> (t \<in> set (hard s') \<longrightarrow> tm_periodic (tmrs s' t))"

definition timeout_ok :: "('m \<Rightarrow> ('m, 'z) timers_scheme \<Rightarrow> ('m, 'z) timers_scheme option) \<Rightarrow> bool" where
  "timeout_ok cb \<longleftrightarrow> (\<forall>t s. timeout_pre t s \<longrightarrow> (\<exists>s'. cb t s = Some s' \<and> timeout_post t s s'))"

text \<open>
  A timer \<open>t\<close> is private when no timeout function but its own changes it or its place on the
  hard list; \<open>own\<close> is what its own function does to it (nothing, or a stop, or a new length),
  which is not to link it.
\<close>

definition private_timer ::
  "('m \<Rightarrow> ('m, 'z) timers_scheme \<Rightarrow> ('m, 'z) timers_scheme option) \<Rightarrow> 'm \<Rightarrow> (tmr \<Rightarrow> tmr) \<Rightarrow> bool" where
  "private_timer cb t own \<longleftrightarrow> (\<forall>x s s'. cb x s = Some s' \<longrightarrow>
     tmrs s' t = (if x = t then own (tmrs s t) else tmrs s t) \<and>
     (t \<in> set (hard s') \<longrightarrow> t \<in> set (hard s)) \<and> (t \<in> set (hard s) \<longrightarrow> x \<noteq> t \<longrightarrow> t \<in> set (hard s')))"

lemma private_timerD:
  "private_timer cb t own \<Longrightarrow> cb x s = Some s' \<Longrightarrow>
     tmrs s' t = (if x = t then own (tmrs s t) else tmrs s t) \<and>
     (t \<in> set (hard s') \<longrightarrow> t \<in> set (hard s)) \<and> (t \<in> set (hard s) \<longrightarrow> x \<noteq> t \<longrightarrow> t \<in> set (hard s'))"
  unfolding private_timer_def by blast

text \<open>What serving does to one timer that was due.\<close>

definition served :: "32 word \<Rightarrow> tmr \<Rightarrow> tmr" where
  "served tick m = (if tm_periodic m \<and> tm_active m then m\<lparr>tm_timeout := tick + tm_init m\<rparr>
     else m\<lparr>tm_active := False\<rparr>)"

text \<open>The run of the check: the timers whose functions it calls, in order.\<close>

inductive fires :: "('m \<Rightarrow> ('m, 'z) timers_scheme \<Rightarrow> ('m, 'z) timers_scheme option) \<Rightarrow>
    ('m, 'z) timers_scheme \<Rightarrow> 'm list \<Rightarrow> ('m, 'z) timers_scheme \<Rightarrow> bool"
  for cb where
  fires_stop: "fires cb s [] s"
| fires_next: "hard s = t # l \<Longrightarrow> timer_due (now s) (tmrs s t) \<Longrightarrow> timer_fire cb t s = Some s1 \<Longrightarrow>
    fires cb s1 ts s' \<Longrightarrow> fires cb s (t # ts) s'"

lemma timer_start_active: "timer_start t (upd_tmr t (\<lambda>m. m\<lparr>tm_active := b\<rparr>) s) = timer_start t s"
  by (simp add: timer_start_def upd_tmr_def timer_remove_def Let_def)

lemma due_start:
  assumes "timers_inv s" "timer_start t s = Some s'" "0 < tm_init (tmrs s t)"
  shows "due s' = filter (\<lambda>x. x \<noteq> t) (due s)"
proof -
  have i: "tm_init (tmrs s t) < half_range"
    using assms(2) by (simp add: timer_start_def Let_def split: if_splits)
  have n: "now s + tm_init (tmrs s t) \<noteq> now s" using assms(3) by simp
  show ?thesis
    using timer_start_spec [OF i] assms(2) n
    by (auto simp: due_def filter_place removeAll_filter_not_eq conj_commute intro!: filter_cong)
qed

text \<open>One turn of the loop, whatever the timeout function does within its contract.\<close>

lemma timer_fire_ok:
  assumes cb: "timeout_ok cb" and inv: "timers_inv s" "periods_ok s" and h: "hard s = t # l"
    and d: "tm_timeout (tmrs s t) = now s"
  shows "\<exists>s'. timer_fire cb t s = Some s' \<and> timers_inv s' \<and> periods_ok s' \<and> now s' = now s \<and>
    subseq (due s') (filter (\<lambda>x. tm_timeout (tmrs s x) = now s) l)"
proof -
  have t: "t \<notin> set l" "t \<notin> set (soft s)" "period_ok (tmrs s t)"
    using inv h by (auto simp: timers_inv_def periods_ok_def)
  have "timeout_pre t (timer_remove t s)"
    using timer_remove_inv [OF inv(1), of t] inv t h by (auto simp: timeout_pre_def periods_ok_def)
  then obtain s1 where s1: "cb t (timer_remove t s) = Some s1" "timeout_post t (timer_remove t s) s1"
    using cb by (auto simp: timeout_ok_def)
  have "due (timer_remove t s) = filter (\<lambda>x. tm_timeout (tmrs s x) = now s) l"
    using t(1) h by (simp add: due_def)
  then have p: "timers_inv s1" "periods_ok s1" "now s1 = now s" "period_ok (tmrs s1 t)"
    "subseq (due s1) (filter (\<lambda>x. tm_timeout (tmrs s x) = now s) l)"
    "t \<in> set (hard s1) \<Longrightarrow> tm_periodic (tmrs s1 t)"
    using s1(2) by (simp_all add: timeout_post_def)
  show ?thesis
  proof (cases "tm_periodic (tmrs s1 t) \<and> tm_active (tmrs s1 t)")
    case True
    have ok: "0 < tm_init (tmrs s1 t)" "tm_init (tmrs s1 t) < half_range" "\<not> tm_soft (tmrs s1 t)"
      using True p(4) by (simp_all add: period_ok_def)
    obtain s' where s': "timer_start t s1 = Some s'" "now s' = now s1"
      "tmrs s' = (tmrs s1)(t := (tmrs s1 t)\<lparr>tm_timeout := now s1 + tm_init (tmrs s1 t), tm_active := True\<rparr>)"
      "hard s' = timer_place (tmrs s1) (now s1 + tm_init (tmrs s1 t)) t (removeAll t (hard s1))"
      using timer_start_spec [OF ok(2)] ok(3) by auto
    have "timer_fire cb t s = Some s'" using s1(1) True s'(1) by (simp add: timer_fire_def timer_start_active)
    moreover have "timers_inv s'" by (rule timer_start_inv [OF p(1) s'(1)])
    moreover have "periods_ok s'" using p(2,4) s'(3,4) by (auto simp: periods_ok_def period_ok_def)
    moreover have "subseq (due s') (filter (\<lambda>x. tm_timeout (tmrs s x) = now s) l)"
      using due_start [OF p(1) s'(1) ok(1)] p(5) subseq_filter_left subseq_order.order_trans by metis
    ultimately show ?thesis using s'(2) p(3) by simp
  next
    case False
    let ?s = "upd_tmr t (\<lambda>m. m\<lparr>tm_active := False\<rparr>) s1"
    have u: "t \<notin> set (hard s1)" "t \<notin> set (soft s1)"
      using p(1,4,6) False by (auto simp: timers_inv_def period_ok_def)
    have "timer_fire cb t s = Some ?s" using s1(1) False by (auto simp: timer_fire_def)
    moreover have "timers_inv ?s" by (rule upd_unlinked_inv [OF p(1) u])
    moreover have "due ?s = due s1" using u by (auto simp: due_def intro!: filter_cong)
    moreover have "periods_ok ?s" using p(2) u by (auto simp: periods_ok_def)
    ultimately show ?thesis using p by simp
  qed
qed

lemma fire_private:
  assumes cb: "private_timer cb t own" and f: "timer_fire cb x s = Some s'"
  shows "x \<noteq> t \<Longrightarrow> tmrs s' t = tmrs s t \<and> (t \<in> set (hard s') \<longleftrightarrow> t \<in> set (hard s))"
    "x = t \<Longrightarrow> \<not> tm_soft (own (tmrs s t)) \<Longrightarrow> tmrs s' t = served (now s') (own (tmrs s t)) \<and>
      (t \<in> set (hard s') \<longleftrightarrow> tm_periodic (own (tmrs s t)) \<and> tm_active (own (tmrs s t)))"
proof -
  obtain s1 where s1: "cb x (timer_remove x s) = Some s1"
    using f by (cases "cb x (timer_remove x s)") (simp_all add: timer_fire_def)
  note d = private_timerD [OF cb s1, unfolded timer_remove_simps set_removeAll]
  have p: "tmrs s1 t = (if x = t then own (tmrs s t) else tmrs s t)"
    by (rule conjunct1 [OF d])
  have p2: "t \<in> set (hard s1) \<longleftrightarrow> t \<noteq> x \<and> t \<in> set (hard s)"
    using conjunct2 [OF d] by blast
  have g: "if tm_periodic (tmrs s1 x) \<and> tm_active (tmrs s1 x) then timer_start x s1 = Some s'
      else s' = upd_tmr x (\<lambda>m. m\<lparr>tm_active := False\<rparr>) s1"
    using f s1 by (auto simp: timer_fire_def timer_start_active)
  have st: "tmrs s' = (tmrs s1)(x := (tmrs s1 x)\<lparr>tm_timeout := now s1 + tm_init (tmrs s1 x), tm_active := True\<rparr>)"
    "now s' = now s1" "set (hard s') - {x} = set (hard s1) - {x}" "x \<in> set (hard s') \<longleftrightarrow> \<not> tm_soft (tmrs s1 x)"
    if "timer_start x s1 = Some s'"
  proof -
    have "tm_init (tmrs s1 x) < half_range"
      using that by (simp add: timer_start_def Let_def split: if_splits)
    from timer_start_spec [OF this] that
    show "tmrs s' = (tmrs s1)(x := (tmrs s1 x)\<lparr>tm_timeout := now s1 + tm_init (tmrs s1 x), tm_active := True\<rparr>)"
      "now s' = now s1" "set (hard s') - {x} = set (hard s1) - {x}" "x \<in> set (hard s') \<longleftrightarrow> \<not> tm_soft (tmrs s1 x)"
      by auto
  qed
  show "tmrs s' t = tmrs s t \<and> (t \<in> set (hard s') \<longleftrightarrow> t \<in> set (hard s))" if ne: "x \<noteq> t"
  proof (cases "tm_periodic (tmrs s1 x) \<and> tm_active (tmrs s1 x)")
    case True
    then have "timer_start x s1 = Some s'" using g by simp
    from st [OF this] show ?thesis using p p2 ne by auto
  qed (use g p p2 ne in simp)
  show "tmrs s' t = served (now s') (own (tmrs s t)) \<and>
      (t \<in> set (hard s') \<longleftrightarrow> tm_periodic (own (tmrs s t)) \<and> tm_active (own (tmrs s t)))"
    if e: "x = t" "\<not> tm_soft (own (tmrs s t))"
  proof (cases "tm_periodic (tmrs s1 x) \<and> tm_active (tmrs s1 x)")
    case True
    then have "timer_start x s1 = Some s'" using g by simp
    from st [OF this] show ?thesis using p p2 e True by (simp add: served_def)
  qed (use g p p2 e in \<open>auto simp: served_def\<close>)
qed

lemma own_hard:
  fixes cb :: "'m \<Rightarrow> ('m, 'z) timers_scheme \<Rightarrow> ('m, 'z) timers_scheme option" and s :: "('m, 'z) timers_scheme"
  assumes "timeout_ok cb" "timers_inv s" "periods_ok s" "hard s = t # l" "private_timer cb t own"
  shows "\<not> tm_soft (own (tmrs s t))"
proof -
  have "timeout_pre t (timer_remove t s)"
    using timer_remove_inv [OF assms(2), of t] assms(2-4)
    by (auto simp: timeout_pre_def periods_ok_def timers_inv_def)
  then obtain s1 where "cb t (timer_remove t s) = Some s1" "period_ok (tmrs s1 t)"
    using assms(1) by (auto simp: timeout_ok_def timeout_post_def)
  then show ?thesis using assms(5) by (auto simp: private_timer_def period_ok_def)
qed

text \<open>What the check does to a timer that only its own function touches.\<close>

definition private_done :: "'m \<Rightarrow> (tmr \<Rightarrow> tmr) \<Rightarrow> ('m, 'z) timers_scheme \<Rightarrow> ('m, 'z) timers_scheme \<Rightarrow> bool" where
  "private_done t own s s' \<longleftrightarrow>
     tmrs s' t = (if t \<in> set (due s) then served (now s) (own (tmrs s t)) else tmrs s t) \<and>
     (t \<in> set (hard s') \<longleftrightarrow> (if t \<in> set (due s) then tm_periodic (own (tmrs s t)) \<and> tm_active (own (tmrs s t))
        else t \<in> set (hard s)))"

lemma due_in: "t \<in> set (due s) \<longleftrightarrow> t \<in> set (hard s) \<and> tm_timeout (tmrs s t) = now s"
  by (auto simp: due_def)

lemma timer_check_ok:
  assumes "timeout_ok cb" "timers_inv s" "periods_ok s"
  shows "\<exists>s' ts. timer_check_loop cb (now s) s = Some s' \<and> fires cb s ts s' \<and> timers_inv s' \<and> periods_ok s' \<and>
    now s' = now s \<and> due s' = [] \<and> subseq ts (due s) \<and> take 1 ts = take 1 (due s) \<and>
    (\<forall>t own. private_timer cb t own \<longrightarrow> (t \<in> set ts \<longleftrightarrow> t \<in> set (due s)) \<and> private_done t own s s')"
  using assms(2,3)
proof (induction "length (due s)" arbitrary: s rule: less_induct)
  case less
  show ?case
  proof (cases "due s = []")
    case True
    then show ?thesis
      using timer_check_idle [OF less.prems(1) True] less.prems fires_stop [of cb s]
      by (intro exI [of _ s] exI [of _ "[]"]) (simp add: private_done_def)
  next
    case False
    from due_head [OF this less.prems(1)] obtain t l where h: "hard s = t # l" "tm_timeout (tmrs s t) = now s"
      "due s = t # filter (\<lambda>x. tm_timeout (tmrs s x) = now s) l" by blast
    have du: "timer_due (now s) (tmrs s t)" using timer_due_now [OF less.prems(1)] h by simp
    from timer_fire_ok [OF assms(1) less.prems h(1,2)] obtain s1 where
      s1: "timer_fire cb t s = Some s1" "timers_inv s1" "periods_ok s1" "now s1 = now s"
      "subseq (due s1) (filter (\<lambda>x. tm_timeout (tmrs s x) = now s) l)" by blast
    have len: "length (due s1) < length (due s)" using list_emb_length [OF s1(5)] h(3) by simp
    from less.hyps [OF len s1(2,3)] obtain s' ts where
      s': "timer_check_loop cb (now s1) s1 = Some s'" "fires cb s1 ts s'" "timers_inv s'" "periods_ok s'"
      "now s' = now s" "due s' = []" "subseq ts (due s1)"
      and pr: "\<And>x own. private_timer cb x own \<Longrightarrow> (x \<in> set ts \<longleftrightarrow> x \<in> set (due s1)) \<and> private_done x own s1 s'"
      using s1(4) by auto
    have "timer_check_loop cb (now s) s = Some s'"
      using timer_check_step [OF h(1) du s1(1)] s'(1) by simp
    moreover have "fires cb s (t # ts) s'" by (rule fires_next [OF h(1) du s1(1) s'(2)])
    moreover have "subseq (t # ts) (due s)"
      using s'(7) s1(5) h(3) by (auto intro: subseq_order.order_trans)
    moreover have "(x \<in> set (t # ts) \<longleftrightarrow> x \<in> set (due s)) \<and> private_done x own s s'"
      if "private_timer cb x own" for x own
    proof (cases "x = t")
      case True
      have f: "tmrs s1 t = served (now s1) (own (tmrs s t))"
        "t \<in> set (hard s1) \<longleftrightarrow> tm_periodic (own (tmrs s t)) \<and> tm_active (own (tmrs s t))"
        using fire_private(2) [OF that s1(1)] own_hard [OF assms(1) less.prems h(1)] that True by auto
      have "t \<notin> set (filter (\<lambda>x. tm_timeout (tmrs s x) = now s) l)"
        using less.prems(1) h(1) by (simp add: timers_inv_def)
      then have "t \<notin> set (due s1)" using set_subseq [OF s1(5)] by blast
      then show ?thesis using pr [OF that] True h(3) f s1(4) by (simp add: private_done_def)
    next
      case False
      have f: "tmrs s1 x = tmrs s x" "x \<in> set (hard s1) \<longleftrightarrow> x \<in> set (hard s)"
        using fire_private(1) [OF that s1(1)] False by auto
      then have "x \<in> set (due s1) \<longleftrightarrow> x \<in> set (due s)" using s1(4) by (simp add: due_in)
      then show ?thesis using pr [OF that] False f s1(4) by (simp add: private_done_def)
    qed
    ultimately show ?thesis using s'(3-6) h(3)
      by (intro exI [of _ s'] exI [of _ "t # ts"]) simp
  qed
qed

lemma sorted_dropWhile_less:
  "sorted (map f l) \<Longrightarrow> x \<in> set (dropWhile (\<lambda>x. f x \<le> (c :: nat)) l) \<Longrightarrow> c < f x"
proof (induction l)
  case (Cons a l)
  then show ?case by (cases "f a \<le> c") fastforce+
qed simp

text \<open>C22. \<^verbatim>\<open>rt_timer_start\<close> on a hard timer whose length is below half the tick range: the deadline
  is now plus the length (wrapping), the timer goes behind every timer that is due no later
  and before every timer that is due later, however the tick counter wraps, and the order and
  the other invariants of the lists hold afterwards.\<close>

theorem timer_start_ordered:
  assumes "timers_inv s" "tm_init (tmrs s t) < half_range" "\<not> tm_soft (tmrs s t)"
  shows "\<exists>s' before after. timer_start t s = Some s' \<and> timers_inv s' \<and>
    tm_timeout (tmrs s' t) = now s + tm_init (tmrs s t) \<and> tm_active (tmrs s' t) \<and>
    hard s' = before @ t # after \<and> removeAll t (hard s) = before @ after \<and>
    (\<forall>x \<in> set before. tdist (now s) (tm_timeout (tmrs s x)) \<le> unat (tm_init (tmrs s t))) \<and>
    (\<forall>x \<in> set after. unat (tm_init (tmrs s t)) < tdist (now s) (tm_timeout (tmrs s x)))"
proof -
  let ?d = "now s + tm_init (tmrs s t)" and ?l = "removeAll t (hard s)"
  let ?P = "\<lambda>x. tdist (now s) (tm_timeout (tmrs s x)) \<le> tdist (now s) ?d"
  obtain s' where s': "timer_start t s = Some s'" "hard s' = timer_place (tmrs s) ?d t ?l"
    "tm_timeout (tmrs s' t) = ?d" "tm_active (tmrs s' t)"
    using timer_start_spec [OF assms(2)] assms(3) by auto
  have w: "window_sorted (tmrs s) (now s) ?l"
    using assms(1) window_sorted_removeAll by (auto simp: timers_inv_def)
  have d: "tdist (now s) ?d < 0x7fffffff" using assms(2) by (simp add: tdist_later word_less_nat_alt)
  have "sorted (map (\<lambda>x. tdist (now s) (tm_timeout (tmrs s x))) ?l)"
    using w by (simp add: window_sorted_def)
  then have "\<forall>x \<in> set (dropWhile ?P ?l). unat (tm_init (tmrs s t)) < tdist (now s) (tm_timeout (tmrs s x))"
    using sorted_dropWhile_less tdist_later by metis
  moreover have "\<forall>x \<in> set (takeWhile ?P ?l). tdist (now s) (tm_timeout (tmrs s x)) \<le> unat (tm_init (tmrs s t))"
    by (auto dest: set_takeWhileD simp: tdist_later)
  moreover have "hard s' = takeWhile ?P ?l @ t # dropWhile ?P ?l"
    unfolding s'(2) by (rule timer_place_spec [OF w d])
  moreover have "?l = takeWhile ?P ?l @ dropWhile ?P ?l" by (rule takeWhile_dropWhile_id [symmetric])
  moreover note s'(1,3,4) timer_start_inv [OF assms(1) s'(1)]
  ultimately have "timer_start t s = Some s' \<and> timers_inv s' \<and>
    tm_timeout (tmrs s' t) = ?d \<and> tm_active (tmrs s' t) \<and>
    hard s' = takeWhile ?P ?l @ t # dropWhile ?P ?l \<and> ?l = takeWhile ?P ?l @ dropWhile ?P ?l \<and>
    (\<forall>x \<in> set (takeWhile ?P ?l). tdist (now s) (tm_timeout (tmrs s x)) \<le> unat (tm_init (tmrs s t))) \<and>
    (\<forall>x \<in> set (dropWhile ?P ?l). unat (tm_init (tmrs s t)) < tdist (now s) (tm_timeout (tmrs s x)))"
    by (intro conjI)
  then show ?thesis by (intro exI)
qed

definition timer_example :: "(nat, nat list) timers_scheme" where
  "timer_example = \<lparr>tmrs = (\<lambda>t. \<lparr>tm_soft = False, tm_periodic = (t = 2), tm_active = (t \<noteq> 3),
      tm_init = of_nat t, tm_timeout = of_nat t - 1\<rparr>), hard = [1, 2], soft = [], now = - 1, \<dots> = []\<rparr>"

lemma timer_example_inv: "timers_inv timer_example"
  by (simp add: timers_inv_def timer_example_def tdist_def)

theorem timer_start_ordered_witness:
  "\<exists>s'. timer_start 3 timer_example = Some s' \<and> timers_inv s' \<and> tm_timeout (tmrs s' 3) = 2"
  using timer_start_ordered [OF timer_example_inv, of 3]
  by (auto simp: timer_example_def word_less_nat_alt)

text \<open>C26. \<^verbatim>\<open>rt_timer_check\<close> returns, for every timeout function within its contract
  (\<open>timeout_ok\<close>: it may start, stop and control timers, its own included) and linked timers
  whose periods are between 1 and half the tick range (\<open>periods_ok\<close>; a period of 0 makes the
  check loop for ever). The functions it calls are those of due timers, in the order of the
  list, each at most once, beginning with the first one; nothing due is left, the order
  and the other invariants hold again. A due timer can only be passed over when an earlier
  function stopped or moved it: the function of a timer that no other function touches is
  called exactly if the timer is due. Such a timer, if it was due, is afterwards linked again
  for one period later if its own function left it periodic and active, and otherwise (a
  one-shot timer, or one that stopped itself) unlinked and inactive.\<close>

theorem timer_check_serves:
  assumes "timeout_ok cb" "timers_inv s" "periods_ok s"
  shows "\<exists>s' ts. rt_timer_check cb s = Some s' \<and> fires cb s ts s' \<and> timers_inv s' \<and> periods_ok s' \<and>
    now s' = now s \<and> due s' = [] \<and> subseq ts (due s) \<and> distinct ts \<and> take 1 ts = take 1 (due s) \<and>
    (\<forall>t own. private_timer cb t own \<longrightarrow>
      (t \<in> set ts \<longleftrightarrow> t \<in> set (due s)) \<and>
      tmrs s' t = (if t \<in> set (due s) then served (now s) (own (tmrs s t)) else tmrs s t) \<and>
      (t \<in> set (hard s') \<longleftrightarrow> (if t \<in> set (due s) then tm_periodic (own (tmrs s t)) \<and> tm_active (own (tmrs s t))
         else t \<in> set (hard s))))"
proof -
  have "distinct (due s)" using assms(2) by (simp add: due_def timers_inv_def)
  then have "subseq ts (due s) \<Longrightarrow> distinct ts" for ts
    using subseqs_distinctD by auto
  then show ?thesis using timer_check_ok [OF assms]
    unfolding rt_timer_check_def private_done_def by blast
qed

text \<open>
  Timeout functions that operate on timers: a script per timer, of stops (the own timer
  included) and of restarts of other timers with a new length.
\<close>

datatype 'm tm_act = Stop 'm | Restart 'm "32 word"

fun perform :: "'m tm_act list \<Rightarrow> ('m, 'z) timers_scheme \<Rightarrow> ('m, 'z) timers_scheme option" where
  "perform [] s = Some s"
| "perform (Stop x # as) s = perform as (fst (rt_timer_stop x s))"
| "perform (Restart x n # as) s =
     do { s1 \<leftarrow> timer_start x (fst (rt_timer_control x (SET_TIME n) s)); perform as s1 }"

fun act_ok :: "'m \<Rightarrow> 'm tm_act \<Rightarrow> bool" where
  "act_ok t (Stop x) \<longleftrightarrow> True"
| "act_ok t (Restart x n) \<longleftrightarrow> x \<noteq> t \<and> 0 < n \<and> n < half_range"

lemma timeout_pre_stop:
  assumes "timeout_pre t s"
  shows "timeout_pre t (fst (rt_timer_stop x s)) \<and> now (fst (rt_timer_stop x s)) = now s \<and>
    subseq (due (fst (rt_timer_stop x s))) (due s)"
proof -
  have "timers_inv (fst (rt_timer_stop x s))"
    using assms by (auto simp: timeout_pre_def intro: rt_timer_stop_inv)
  moreover have "due (upd_tmr x f (timer_remove x s)) = filter (\<lambda>y. y \<noteq> x) (due s)" for f
    by (auto simp: due_def removeAll_filter_not_eq intro!: filter_cong)
  ultimately show ?thesis using assms
    by (auto simp: timeout_pre_def rt_timer_stop_def periods_ok_def period_ok_def)
qed

lemma timeout_pre_restart:
  assumes "timeout_pre t s" "x \<noteq> t" "0 < n" "n < half_range"
  shows "\<exists>s'. timer_start x (fst (rt_timer_control x (SET_TIME n) s)) = Some s' \<and> timeout_pre t s' \<and>
    now s' = now s \<and> subseq (due s') (due s)"
proof -
  define s1 where "s1 = upd_tmr x (\<lambda>m. m\<lparr>tm_init := n\<rparr>) s"
  have s1: "timers_inv s1" "tm_init (tmrs s1 x) = n" "now s1 = now s" "due s1 = due s"
    using assms(1) window_sorted_cong [of "hard s" "tmrs s" "tmrs s1" "now s"]
    by (auto simp: s1_def timeout_pre_def timers_inv_def due_def intro!: filter_cong)
  obtain s' where s': "timer_start x s1 = Some s'" "now s' = now s1"
    "tmrs s' = (tmrs s1)(x := (tmrs s1 x)\<lparr>tm_timeout := now s1 + n, tm_active := True\<rparr>)"
    "set (hard s') \<subseteq> insert x (set (hard s1))" "set (soft s') \<subseteq> insert x (set (soft s1))"
    "x \<in> set (hard s') \<Longrightarrow> \<not> tm_soft (tmrs s1 x)"
    using timer_start_spec [of s1 x] s1(2) assms(4) that by (cases "tm_soft (tmrs s1 x)") fastforce+
  have "periods_ok s'"
    using assms s'(3,4,6) unfolding periods_ok_def period_ok_def timeout_pre_def s1_def by (auto split: if_splits)
  moreover have "timers_inv s'" by (rule timer_start_inv [OF s1(1) s'(1)])
  moreover have "subseq (due s') (due s)" using due_start [OF s1(1) s'(1)] s1(2,4) assms(3) by simp
  moreover have "t \<notin> set (hard s')" "t \<notin> set (soft s')" "period_ok (tmrs s' t)"
    using s'(3-5) assms(1,2) by (auto simp: timeout_pre_def s1_def period_ok_def)
  ultimately show ?thesis using s' s1(3) by (simp add: timeout_pre_def rt_timer_control_def s1_def)
qed

lemma timeout_pre_perform:
  "timeout_pre t s \<Longrightarrow> list_all (act_ok t) as \<Longrightarrow> \<exists>s'. perform as s = Some s' \<and> timeout_pre t s' \<and>
     now s' = now s \<and> subseq (due s') (due s)"
proof (induction as arbitrary: s)
  case (Cons a as)
  have "\<exists>s1. perform (a # as) s = perform as s1 \<and> timeout_pre t s1 \<and> now s1 = now s \<and> subseq (due s1) (due s)"
    using timeout_pre_stop [OF Cons.prems(1)] timeout_pre_restart [OF Cons.prems(1)] Cons.prems(2)
    by (cases a) fastforce+
  then obtain s1 where s1: "perform (a # as) s = perform as s1" "timeout_pre t s1" "now s1 = now s"
    "subseq (due s1) (due s)" by blast
  then show ?case using Cons.IH [OF s1(2)] Cons.prems(2) by (auto intro: subseq_order.order_trans)
qed simp

lemma perform_ok: "(\<And>t. list_all (act_ok t) (p t)) \<Longrightarrow> timeout_ok (\<lambda>t. perform (p t))"
  using timeout_pre_perform by (fastforce simp: timeout_ok_def timeout_post_def timeout_pre_def)

text \<open>
  Four timers due at once: the function of timer 1 stops timer 2 and starts timer 3, timers 4
  and 5 are periodic, and the function of timer 4 stops timer 4.
\<close>

definition example_script :: "nat \<Rightarrow> nat tm_act list" where
  "example_script t = (if t = 1 then [Stop 2, Restart 3 5] else if t = 4 then [Stop 4] else [])"

lemma example_script_ok: "timeout_ok (\<lambda>t. perform (example_script t))"
  by (rule perform_ok) (simp add: example_script_def word_less_nat_alt)

lemma rt_timer_stop_other:
  "t \<noteq> x \<Longrightarrow> tmrs (fst (rt_timer_stop x s)) t = tmrs s t"
  "t \<noteq> x \<Longrightarrow> t \<in> set (hard (fst (rt_timer_stop x s))) \<longleftrightarrow> t \<in> set (hard s)"
  "tmrs (fst (rt_timer_stop x s)) x = (tmrs s x)\<lparr>tm_active := False\<rparr>"
  "x \<in> set (hard (fst (rt_timer_stop x s))) \<Longrightarrow> x \<in> set (hard s)"
  by (auto simp: rt_timer_stop_def split: if_splits)

lemma restart_other:
  assumes "timer_start x (fst (rt_timer_control x (SET_TIME n) s)) = Some s'" "t \<noteq> x"
  shows "tmrs s' t = tmrs s t \<and> (t \<in> set (hard s') \<longleftrightarrow> t \<in> set (hard s))"
proof -
  have "tm_init (tmrs (fst (rt_timer_control x (SET_TIME n) s)) x) < half_range"
    using assms(1) by (simp add: timer_start_def Let_def split: if_splits)
  from timer_start_spec [OF this] assms show ?thesis by (auto simp: rt_timer_control_def split: if_splits)
qed

lemma perform_other:
  "perform as s = Some s' \<Longrightarrow> (\<And>n. Restart t n \<notin> set as) \<Longrightarrow> Stop t \<notin> set as \<Longrightarrow>
     tmrs s' t = tmrs s t \<and> (t \<in> set (hard s') \<longleftrightarrow> t \<in> set (hard s))"
proof (induction as arbitrary: s)
  case (Cons a as)
  have p: "(\<And>n. Restart t n \<notin> set as)" "Stop t \<notin> set as" using Cons.prems by auto
  show ?case
  proof (cases a)
    case (Stop x)
    then show ?thesis
      using Cons.IH [OF _ p, of "fst (rt_timer_stop x s)"] Cons.prems rt_timer_stop_other(1,2) [of t x s] by auto
  next
    case (Restart x n)
    then obtain s1 where s1: "timer_start x (fst (rt_timer_control x (SET_TIME n) s)) = Some s1" "perform as s1 = Some s'"
      using Cons.prems(1) by (auto simp: Option.bind_eq_Some_conv)
    have "t \<noteq> x" using Cons.prems(2) Restart by auto
    then show ?thesis using restart_other [OF s1(1)] Cons.IH [OF s1(2) p] by simp
  qed
qed simp

lemma example_private_4:
  "private_timer (\<lambda>t. perform (example_script t)) 4 (\<lambda>m. m\<lparr>tm_active := False\<rparr>)"
proof -
  have o: "tmrs s' 4 = tmrs s 4 \<and> (4 \<in> set (hard s') \<longleftrightarrow> 4 \<in> set (hard s))"
    if "perform (example_script x) s = Some s'" "x \<noteq> 4" for x and s s' :: "(nat, 'a) timers_scheme"
    by (rule perform_other [OF that(1)]) (use that(2) in \<open>auto simp: example_script_def split: if_splits\<close>)
  have p: "perform (example_script 4) s = Some (fst (rt_timer_stop 4 s))" for s :: "(nat, 'a) timers_scheme"
    by (simp add: example_script_def)
  show ?thesis
    unfolding private_timer_def
  proof (intro allI impI)
    fix x and s s' :: "(nat, 'a) timers_scheme"
    assume a: "perform (example_script x) s = Some s'"
    show "tmrs s' 4 = (if x = 4 then (tmrs s 4)\<lparr>tm_active := False\<rparr> else tmrs s 4) \<and>
      (4 \<in> set (hard s') \<longrightarrow> 4 \<in> set (hard s)) \<and> (4 \<in> set (hard s) \<longrightarrow> x \<noteq> 4 \<longrightarrow> 4 \<in> set (hard s'))"
    proof (cases "x = 4")
      case True
      then show ?thesis using a p [of s] rt_timer_stop_other(3,4) [of 4 s] by auto
    qed (use o [OF a] in auto)
  qed
qed

lemma example_private_5: "private_timer (\<lambda>t. perform (example_script t)) 5 (\<lambda>m. m)"
proof -
  have "tmrs s' 5 = tmrs s 5 \<and> (5 \<in> set (hard s') \<longleftrightarrow> 5 \<in> set (hard s))"
    if "perform (example_script x) s = Some s'" for x and s s' :: "(nat, 'a) timers_scheme"
    by (rule perform_other [OF that]) (auto simp: example_script_def split: if_splits)
  then show ?thesis unfolding private_timer_def by simp
qed

definition four_due :: "(nat, nat list) timers_scheme" where
  "four_due = \<lparr>tmrs = (\<lambda>t. \<lparr>tm_soft = False, tm_periodic = (3 < t), tm_active = (t \<noteq> 3),
      tm_init = of_nat t, tm_timeout = 0\<rparr>), hard = [1, 2, 4, 5], soft = [], now = 0, \<dots> = []\<rparr>"

lemma four_due_ok: "timers_inv four_due" "periods_ok four_due" "due four_due = [1, 2, 4, 5]"
  by (simp_all add: timers_inv_def four_due_def tdist_def periods_ok_def period_ok_def due_def word_less_nat_alt)

theorem timer_check_serves_witness:
  "\<exists>s'. rt_timer_check (\<lambda>t. perform (example_script t)) four_due = Some s' \<and> due s' = [] \<and>
     4 \<notin> set (hard s') \<and> 5 \<in> set (hard s') \<and> tm_timeout (tmrs s' 5) = 5"
proof -
  let ?c = "(\<lambda>t. perform (example_script t)) :: nat \<Rightarrow> (nat, nat list) timers_scheme \<Rightarrow> (nat, nat list) timers_scheme option"
  obtain s' ts where s': "rt_timer_check ?c four_due = Some s'" "due s' = []"
    and p: "\<forall>t own. private_timer ?c t own \<longrightarrow> (t \<in> set ts \<longleftrightarrow> t \<in> set (due four_due)) \<and>
      tmrs s' t = (if t \<in> set (due four_due) then served (now four_due) (own (tmrs four_due t)) else tmrs four_due t) \<and>
      (t \<in> set (hard s') \<longleftrightarrow> (if t \<in> set (due four_due) then tm_periodic (own (tmrs four_due t)) \<and>
        tm_active (own (tmrs four_due t)) else t \<in> set (hard four_due)))"
    using timer_check_serves [OF example_script_ok four_due_ok(1,2)] by (elim exE conjE) (rule that, assumption, assumption, assumption)
  show ?thesis
    using s' p [rule_format, OF example_private_4] p [rule_format, OF example_private_5]
    by (simp add: four_due_ok(3)) (simp add: four_due_def served_def)
qed

text \<open>What runs there is 1, 4 and 5: timer 2 was stopped before its turn.\<close>

lemma four_due_run: "\<exists>s'. fires (\<lambda>t. perform (example_script t)) four_due [1, 4, 5] s'"
  unfolding four_due_def
  by (rule exI, (rule fires_next, simp, simp add: timer_due_def word_less_nat_alt,
      simp add: timer_fire_def example_script_def timer_remove_def rt_timer_stop_def upd_tmr_def
        rt_timer_control_def timer_start_def Let_def word_less_nat_alt)+, rule fires_stop)

text \<open>The tick interrupt's part for the timers: advance the tick and check.\<close>

definition timer_tick :: "('m \<Rightarrow> ('m, 'z) timers_scheme \<Rightarrow> ('m, 'z) timers_scheme option) \<Rightarrow>
    ('m, 'z) timers_scheme \<Rightarrow> ('m, 'z) timers_scheme option" where
  "timer_tick cb s = rt_timer_check cb (s\<lparr>now := now s + 1\<rparr>)"

fun timer_ticks :: "nat \<Rightarrow> ('m \<Rightarrow> ('m, 'z) timers_scheme \<Rightarrow> ('m, 'z) timers_scheme option) \<Rightarrow>
    ('m, 'z) timers_scheme \<Rightarrow> ('m, 'z) timers_scheme option" where
  "timer_ticks 0 cb s = Some s"
| "timer_ticks (Suc n) cb s = do { s1 \<leftarrow> timer_tick cb s; timer_ticks n cb s1 }"

lemma timers_inv_tick:
  assumes "timers_inv s" "due s = []"
  shows "timers_inv (s\<lparr>now := now s + 1\<rparr>)"
proof -
  have pos: "0 < tdist (now s) (tm_timeout (tmrs s t))" if "t \<in> set (hard s)" for t
    using assms(2) that tdist_inj [of "now s" "tm_timeout (tmrs s t)" "now s"]
    by (fastforce simp: due_def filter_empty_conv)
  have "window_sorted (tmrs s) (now s + 1) l"
    if "window_sorted (tmrs s) (now s) l" "set l \<subseteq> set (hard s)" for l
    using that by (induction l) (use tdist_tick [OF pos] in \<open>auto simp: diff_le_mono subset_iff\<close>)
  then show ?thesis using assms(1) by (simp add: timers_inv_def)
qed

lemma count_list_distinct: "distinct l \<Longrightarrow> t \<in> set l \<Longrightarrow> count_list l t = 1"
  by (induction l) (auto simp: count_list_0_iff)

inductive tick_fires :: "('m \<Rightarrow> ('m, 'z) timers_scheme \<Rightarrow> ('m, 'z) timers_scheme option) \<Rightarrow> nat \<Rightarrow>
    ('m, 'z) timers_scheme \<Rightarrow> 'm list \<Rightarrow> ('m, 'z) timers_scheme \<Rightarrow> bool"
  for cb where
  no_ticks: "tick_fires cb 0 s [] s"
| one_more_tick: "fires cb (s\<lparr>now := now s + 1\<rparr>) ts s1 \<Longrightarrow> tick_fires cb n s1 us s' \<Longrightarrow>
    tick_fires cb (Suc n) s (ts @ us) s'"

lemma timer_tick_ok:
  assumes "timeout_ok cb" "timers_inv s" "periods_ok s" "due s = []"
  shows "\<exists>s' ts. timer_tick cb s = Some s' \<and> fires cb (s\<lparr>now := now s + 1\<rparr>) ts s' \<and> timers_inv s' \<and> periods_ok s' \<and>
    due s' = [] \<and> now s' = now s + 1 \<and> distinct ts \<and>
    (\<forall>t own. private_timer cb t own \<longrightarrow>
      (t \<in> set ts \<longleftrightarrow> t \<in> set (hard s) \<and> tm_timeout (tmrs s t) = now s + 1) \<and>
      private_done t own (s\<lparr>now := now s + 1\<rparr>) s')"
proof -
  let ?s = "s\<lparr>now := now s + 1\<rparr>"
  have p: "periods_ok ?s" using assms(3) by (simp add: periods_ok_def)
  have i: "timers_inv ?s" by (rule timers_inv_tick [OF assms(2,4)])
  have "distinct (due ?s)" using i by (simp add: due_def timers_inv_def)
  then have "subseq ts (due ?s) \<Longrightarrow> distinct ts" for ts using subseqs_distinctD by auto
  then show ?thesis using timer_check_ok [OF assms(1) i p]
    unfolding timer_tick_def rt_timer_check_def due_in by (elim exE conjE) (intro exI conjI; simp)
qed

lemma timer_ticks_one_shot:
  assumes "timeout_ok cb" "private_timer cb t own"
  shows "timers_inv s \<Longrightarrow> periods_ok s \<Longrightarrow> due s = [] \<Longrightarrow>
    t \<notin> set (hard s) \<or> \<not> tm_periodic (own (tmrs s t)) \<and> d = tdist (now s) (tm_timeout (tmrs s t)) \<Longrightarrow>
    \<exists>s' ts. timer_ticks n cb s = Some s' \<and> tick_fires cb n s ts s' \<and>
      count_list ts t = (if t \<in> set (hard s) \<and> d \<le> n then 1 else 0) \<and>
      (t \<in> set (hard s') \<longleftrightarrow> t \<in> set (hard s) \<and> n < d)"
proof (induction n arbitrary: s d)
  case 0
  have "t \<in> set (hard s) \<Longrightarrow> tm_timeout (tmrs s t) \<noteq> now s"
    using "0.prems"(3) by (auto simp: due_def filter_empty_conv)
  then show ?case using "0.prems"(4) tdist_inj [of "now s" "tm_timeout (tmrs s t)" "now s"] no_ticks [of cb s]
    by (intro exI [of _ s] exI [of _ "[]"]) auto
next
  case (Suc n)
  let ?s = "s\<lparr>now := now s + 1\<rparr>"
  from timer_tick_ok [OF assms(1) Suc.prems(1-3)] obtain s1 ts where
    s1: "timer_tick cb s = Some s1" "fires cb ?s ts s1" "timers_inv s1" "periods_ok s1" "due s1 = []"
    "now s1 = now s + 1" "distinct ts"
    and pr: "t \<in> set ts \<longleftrightarrow> t \<in> set (hard s) \<and> tm_timeout (tmrs s t) = now s + 1" "private_done t own ?s s1"
    using assms(2) by (elim exE conjE) (rule that, assumption+, blast, blast)
  show ?case
  proof (cases "t \<in> set (hard s) \<and> tm_timeout (tmrs s t) = now s + 1")
    case True
    then have d1: "d = 1" using Suc.prems(4) by (simp add: tdist_later)
    have out: "t \<notin> set (hard s1)" using pr(2) True Suc.prems(4) by (simp add: private_done_def due_in)
    from Suc.IH [OF s1(3-5)] out obtain s' us where s': "timer_ticks n cb s1 = Some s'"
      "tick_fires cb n s1 us s'" "count_list us t = 0" "t \<notin> set (hard s')" by force
    have "count_list ts t = 1" using s1(7) pr(1) True by (intro count_list_distinct) auto
    then show ?thesis using s1(1) s' True d1 one_more_tick [OF s1(2) s'(2)]
      by (intro exI [of _ s'] exI [of _ "ts @ us"]) simp
  next
    case False
    have c: "count_list ts t = 0" using False pr(1) by (auto simp: count_list_0_iff)
    have u: "tmrs s1 t = tmrs s t" "t \<in> set (hard s1) \<longleftrightarrow> t \<in> set (hard s)"
      using pr(2) False by (auto simp: private_done_def due_in)
    have d: "t \<in> set (hard s) \<Longrightarrow> 0 < d \<and> tdist (now s1) (tm_timeout (tmrs s1 t)) = d - 1"
    proof -
      assume h: "t \<in> set (hard s)"
      then have "0 < tdist (now s) (tm_timeout (tmrs s t))"
        using Suc.prems(3) tdist_inj [of "now s" "tm_timeout (tmrs s t)" "now s"]
        by (fastforce simp: due_def filter_empty_conv)
      then show ?thesis using tdist_tick [of "now s" "tm_timeout (tmrs s t)"] Suc.prems(4) h u s1(6) by simp
    qed
    have "t \<notin> set (hard s1) \<or> \<not> tm_periodic (own (tmrs s1 t)) \<and> d - 1 = tdist (now s1) (tm_timeout (tmrs s1 t))"
      using Suc.prems(4) u d by auto
    from Suc.IH [OF s1(3-5) this] obtain s' us where s': "timer_ticks n cb s1 = Some s'" "tick_fires cb n s1 us s'"
      "count_list us t = (if t \<in> set (hard s1) \<and> d - 1 \<le> n then 1 else 0)"
      "t \<in> set (hard s') \<longleftrightarrow> t \<in> set (hard s1) \<and> n < d - 1" by blast
    then show ?thesis using s1(1) c u d one_more_tick [OF s1(2) s'(2)]
      by (intro exI [of _ s'] exI [of _ "ts @ us"]) auto
  qed
qed

text \<open>C18. A one-shot hard timer fires at its deadline, not before and not twice: within \<open>n\<close> ticks its
  function is called exactly once if \<open>n\<close> reaches the distance to the deadline, and not at
  all otherwise, and it is linked exactly until then, across any wrap of the tick counter.
  The functions of the timers are arbitrary within their contract (\<open>timeout_ok\<close>, with the
  linked periods between 1 and half the range), so they may start, stop and control other
  timers while \<open>t\<close> waits; only \<open>t\<close> itself is left to its own function (\<open>private_timer\<close>),
  which may stop it or change its length but not make it periodic.\<close>

theorem one_shot_exact:
  assumes "timeout_ok cb" "private_timer cb t own" "timers_inv s" "periods_ok s" "due s = []"
    and "t \<in> set (hard s)" "\<not> tm_periodic (own (tmrs s t))"
  shows "\<exists>s' ts. timer_ticks n cb s = Some s' \<and> tick_fires cb n s ts s' \<and>
    count_list ts t = (if tdist (now s) (tm_timeout (tmrs s t)) \<le> n then 1 else 0) \<and>
    (t \<in> set (hard s') \<longleftrightarrow> n < tdist (now s) (tm_timeout (tmrs s t)))"
  using timer_ticks_one_shot [OF assms(1-5), of _ n] assms(6,7) by simp

definition before_four :: "(nat, nat list) timers_scheme" where
  "before_four = \<lparr>tmrs = (\<lambda>t. \<lparr>tm_soft = False, tm_periodic = (t = 4), tm_active = (t \<noteq> 3),
      tm_init = of_nat t, tm_timeout = of_nat t - 2\<rparr>), hard = [1, 2, 4, 5], soft = [], now = - 2, \<dots> = []\<rparr>"

lemma before_four_ok: "timers_inv before_four" "periods_ok before_four" "due before_four = []"
  by (simp_all add: timers_inv_def before_four_def tdist_def periods_ok_def period_ok_def due_def word_less_nat_alt)

theorem one_shot_exact_witness:
  "(\<exists>s' ts. timer_ticks 4 (\<lambda>t. perform (example_script t)) before_four = Some s' \<and>
      tick_fires (\<lambda>t. perform (example_script t)) 4 before_four ts s' \<and> count_list ts 5 = 0) \<and>
   (\<exists>s' ts. timer_ticks 9 (\<lambda>t. perform (example_script t)) before_four = Some s' \<and>
      tick_fires (\<lambda>t. perform (example_script t)) 9 before_four ts s' \<and> count_list ts 5 = 1)"
proof -
  have t: "5 \<in> set (hard before_four)" "\<not> tm_periodic (tmrs before_four 5)"
    "tdist (now before_four) (tm_timeout (tmrs before_four 5)) = 5"
    by (simp_all add: before_four_def tdist_def)
  note w = one_shot_exact [OF example_script_ok example_private_5 before_four_ok t(1,2), unfolded t(3)]
  show ?thesis using w [of 4] w [of 9] by fastforce
qed

definition spinning :: "'m \<Rightarrow> 32 word \<Rightarrow> ('m, 'z) timers_scheme \<Rightarrow> bool" where
  "spinning t tick s \<longleftrightarrow> hard s = [t] \<and> soft s = [] \<and> now s = tick \<and> tm_timeout (tmrs s t) = tick \<and>
     tm_periodic (tmrs s t) \<and> tm_active (tmrs s t) \<and> \<not> tm_soft (tmrs s t) \<and> tm_init (tmrs s t) = 0"

text \<open>A timeout function that leaves the timers and the tick alone (what else it does is open).\<close>

definition no_timer_calls :: "('m \<Rightarrow> ('m, 'z) timers_scheme \<Rightarrow> ('m, 'z) timers_scheme option) \<Rightarrow> 'm \<Rightarrow> bool" where
  "no_timer_calls cb t \<longleftrightarrow> (\<forall>s. \<exists>z. cb t s = Some (timers.more_update (\<lambda>_. z) s))"

lemma more_simps [simp]:
  "tmrs (timers.more_update f s) = tmrs s" "hard (timers.more_update f s) = hard s"
  "soft (timers.more_update f s) = soft s" "now (timers.more_update f s) = now s"
  by (cases s; simp)+

lemma spinning_step:
  assumes "no_timer_calls cb t" "spinning t tick s"
  shows "timer_due tick (tmrs s t) \<and> (\<exists>s'. timer_fire cb t s = Some s' \<and> spinning t tick s' \<and> now s' = tick)"
proof
  show "timer_due tick (tmrs s t)"
    using assms(2) by (simp add: timer_due_def word_less_nat_alt spinning_def)
  obtain z where z: "cb t (timer_remove t s) = Some (timers.more_update (\<lambda>_. z) (timer_remove t s))"
    using assms(1) by (auto simp: no_timer_calls_def)
  define s1 where "s1 = timers.more_update (\<lambda>_. z) (timer_remove t s)"
  have "tm_init (tmrs s1 t) < half_range" using assms(2) by (simp add: s1_def word_less_nat_alt spinning_def)
  from timer_start_spec [OF this] obtain s2 where
    s2: "timer_start t s1 = Some s2" "now s2 = tick" "hard s2 = [t]" "soft s2 = []"
    "tmrs s2 t = (tmrs s t)\<lparr>tm_active := True, tm_timeout := tick\<rparr>"
    using assms(2) by (auto simp: s1_def spinning_def)
  have "timer_fire cb t s = Some s2"
    using assms(2) s2(1) z by (simp add: timer_fire_def timer_start_active s1_def spinning_def)
  then show "\<exists>s'. timer_fire cb t s = Some s' \<and> spinning t tick s' \<and> now s' = tick"
    using s2 assms(2) by (simp add: spinning_def)
qed

lemma zero_period_loop:
  assumes "timer_check_loop cb tick s = Some r"
  shows "\<not> (no_timer_calls cb t \<and> spinning t tick s)"
proof (rule timer_check_loop.raw_induct [where P = "\<lambda>cb tick s y. \<not> (no_timer_calls cb t \<and> spinning t tick s)",
    OF _ assms], rule notI)
  fix f cb tick s y
  assume IH: "\<And>cb tick s y. f cb tick s = Some y \<Longrightarrow> \<not> (no_timer_calls cb t \<and> spinning t tick s)"
    and body: "(case hard s of [] \<Rightarrow> Some s | t # x \<Rightarrow> if timer_due tick (tmrs s t)
        then timer_fire cb t s \<bind> (\<lambda>s1. f cb (now s1) s1) else Some s) = Some y"
    and h: "no_timer_calls cb t \<and> spinning t tick s"
  from spinning_step [OF conjunct1 [OF h] conjunct2 [OF h]] obtain s' where
    s': "timer_due tick (tmrs s t)" "timer_fire cb t s = Some s'" "spinning t tick s'" "now s' = tick" by blast
  have "hard s = [t]" using h by (simp add: spinning_def)
  then have "f cb tick s' = Some y" using body s' h by simp
  then show False using IH s'(3) h by blast
qed

text \<open>A periodic hard timer of length 0, which \<^verbatim>\<open>rt_timer_start\<close> accepts, keeps the tick
  interrupt in \<^verbatim>\<open>rt_timer_check\<close> for ever unless its own function stops it: it is due again as
  soon as it is restarted.\<close>

theorem zero_period_never_returns:
  assumes "no_timer_calls cb t" "hard s = [t]" "soft s = []" "tm_timeout (tmrs s t) = now s"
    and "tm_periodic (tmrs s t)" "tm_active (tmrs s t)" "\<not> tm_soft (tmrs s t)" "tm_init (tmrs s t) = 0"
  shows "rt_timer_check cb s = None"
  using zero_period_loop [of cb "now s" s _ t] assms
  by (cases "timer_check_loop cb (now s) s") (auto simp: rt_timer_check_def spinning_def)

theorem zero_period_never_returns_witness:
  "rt_timer_check (\<lambda>t. perform []) \<lparr>tmrs = (\<lambda>t :: nat. \<lparr>tm_soft = False, tm_periodic = True, tm_active = True,
      tm_init = 0, tm_timeout = 7\<rparr>), hard = [1], soft = [], now = 7, \<dots> = ()\<rparr> = None"
  by (rule zero_period_never_returns [of _ 1]) (simp_all add: no_timer_calls_def)

text \<open>Why the contract lets a timeout function start its own timer only if it is periodic: the
  code clears the activation flag of a one-shot timer after its function has returned, so a
  one-shot timer that its own function started again is linked and will fire, but counts as
  stopped. \<^verbatim>\<open>rt_timer_stop\<close> then fails and leaves it running.
\<close>

theorem self_restart_unstoppable:
  assumes "timers_inv s" "hard s = t # l" "\<not> tm_periodic (tmrs s t)" "tm_init (tmrs s t) < half_range"
  shows "\<exists>s'. timer_fire timer_start t s = Some s' \<and> t \<in> set (hard s') \<and> \<not> tm_active (tmrs s' t) \<and>
    tm_timeout (tmrs s' t) = now s + tm_init (tmrs s t) \<and> rt_timer_stop t s' = (s', RT_ERROR)"
proof -
  have h: "\<not> tm_soft (tmrs s t)" using assms(1,2) by (simp add: timers_inv_def)
  obtain s1 where s1: "timer_start t (timer_remove t s) = Some s1" "t \<in> set (hard s1)"
    "tmrs s1 t = (tmrs s t)\<lparr>tm_timeout := now s + tm_init (tmrs s t), tm_active := True\<rparr>"
    using timer_start_spec [of "timer_remove t s" t] assms(4) h by auto
  then have "timer_fire timer_start t s = Some (upd_tmr t (\<lambda>m. m\<lparr>tm_active := False\<rparr>) s1)"
    using assms(3) by (simp add: timer_fire_def)
  then show ?thesis using s1 by (simp add: rt_timer_stop_def)
qed

theorem self_restart_unstoppable_witness:
  "\<exists>s'. timer_fire timer_start 1 four_due = Some s' \<and> 1 \<in> set (hard s') \<and> rt_timer_stop 1 s' = (s', RT_ERROR)"
proof -
  have "hard four_due = 1 # [2, 4, 5]" "\<not> tm_periodic (tmrs four_due 1)" "tm_init (tmrs four_due 1) < half_range"
    by (simp_all add: four_due_def word_less_nat_alt)
  from self_restart_unstoppable [OF four_due_ok(1) this] show ?thesis by blast
qed

end
