(* ===== verification/Sched.thy ===== *)
theory Sched
  imports Ffs Timer
begin

text \<open>
  The kernel state and the scheduler, \<^verbatim>\<open>src/scheduler.c\<close> (single core, 32 priorities, 0 the
  highest). The record \<open>kern\<close> extends the timer state with the thread control blocks, the
  lists threads are linked into, the ready bitmap, the current thread and the lock counters.

  A thread's \<^verbatim>\<open>tlist\<close> node is in at most one list at a time: a ready list, the waiting list of
  a kernel object (an object has up to two, for receivers and for senders), or the list of
  defunct threads. The lists are HOL lists (the list theory shows the refinement). The flag
  \<open>t_linked\<close> is the test \<^verbatim>\<open>tlist.next != &tlist\<close>; linking a node that is already linked would
  corrupt both lists and is \<open>None\<close>. \<open>None\<close> is also a failed assertion, the use of a null
  current thread, and taking the first entry of an empty list.

  Interrupts are disabled inside each operation, so an operation is one function of the
  state. Debug logging, hooks (none are installed), the context switch itself and the stack
  watermark check have no effect on this state and are left out.
\<close>

section \<open>State\<close>

type_synonym tid = nat

datatype tmid = TThread tid | TUser nat

datatype tstat = T_INIT | T_READY | T_SUSPEND | T_RUNNING | T_CLOSE

datatype lid = LReady nat | LSuspend nat | LSender nat | LDefunct

record tcb =
  t_stat :: tstat
  t_yield :: bool
  t_prio :: nat
  t_init_prio :: nat
  t_mask :: "32 word"
  t_init_tick :: "32 word"
  t_remaining :: "32 word"
  t_error :: rt_err
  t_evset :: "32 word"
  t_evinfo :: "8 word"
  t_linked :: bool

record kern = "tmid timers" +
  tcbs :: "tid \<Rightarrow> tcb"
  lists :: "lid \<Rightarrow> tid list"
  ready_group :: "32 word"
  cur :: "tid option"
  cur_prio :: nat
  lock_nest :: "16 word"
  int_nest :: nat

definition RT_THREAD_PRIORITY_MAX :: nat where
  "RT_THREAD_PRIORITY_MAX = 32"

definition upd_tcb :: "tid \<Rightarrow> (tcb \<Rightarrow> tcb) \<Rightarrow> kern \<Rightarrow> kern" where
  "upd_tcb t f k = k\<lparr>tcbs := (tcbs k)(t := f (tcbs k t))\<rparr>"

abbreviation stat :: "kern \<Rightarrow> tid \<Rightarrow> tstat" where "stat k t \<equiv> t_stat (tcbs k t)"
abbreviation prio :: "kern \<Rightarrow> tid \<Rightarrow> nat" where "prio k t \<equiv> t_prio (tcbs k t)"

definition set_stat :: "tstat \<Rightarrow> tid \<Rightarrow> kern \<Rightarrow> kern" where
  "set_stat s t = upd_tcb t (\<lambda>c. c\<lparr>t_stat := s\<rparr>)"

section \<open>Linking and unlinking a thread\<close>

definition unlink :: "tid \<Rightarrow> kern \<Rightarrow> kern" where
  "unlink t k = upd_tcb t (\<lambda>c. c\<lparr>t_linked := False\<rparr>)
     (if t_linked (tcbs k t) then k\<lparr>lists := (\<lambda>l. removeAll t (lists k l))\<rparr> else k)"

definition link_with :: "(tid list \<Rightarrow> tid list) \<Rightarrow> lid \<Rightarrow> tid \<Rightarrow> kern \<Rightarrow> kern option" where
  "link_with ins l t k =
     (if t_linked (tcbs k t) then None
      else Some (upd_tcb t (\<lambda>c. c\<lparr>t_linked := True\<rparr>)
             (k\<lparr>lists := (lists k)(l := ins (lists k l))\<rparr>)))"

definition link_tail :: "lid \<Rightarrow> tid \<Rightarrow> kern \<Rightarrow> kern option" where
  "link_tail l t = link_with (\<lambda>xs. xs @ [t]) l t"

definition link_head :: "lid \<Rightarrow> tid \<Rightarrow> kern \<Rightarrow> kern option" where
  "link_head l t = link_with (\<lambda>xs. t # xs) l t"

section \<open>The scheduler\<close>

definition rt_system_scheduler_init :: "kern \<Rightarrow> kern" where
  "rt_system_scheduler_init k =
     k\<lparr>lock_nest := 0,
       lists := (\<lambda>l. case l of LReady p \<Rightarrow> if p < RT_THREAD_PRIORITY_MAX then [] else lists k l
                     | LDefunct \<Rightarrow> [] | _ \<Rightarrow> lists k l),
       ready_group := 0\<rparr>"

definition get_highest_priority_thread :: "kern \<Rightarrow> (tid \<times> nat) option" where
  "get_highest_priority_thread k =
     (let p = rt_ffs (ready_group k) - 1
      in case lists k (LReady p) of [] \<Rightarrow> None | t # _ \<Rightarrow> Some (t, p))"

definition rt_schedule_insert_thread :: "tid \<Rightarrow> kern \<Rightarrow> kern option" where
  "rt_schedule_insert_thread t k =
     (if cur k = Some t then Some (set_stat T_RUNNING t k)
      else do {
        k1 \<leftarrow> link_tail (LReady (prio k t)) t (set_stat T_READY t k);
        Some (k1\<lparr>ready_group := ready_group k1 OR t_mask (tcbs k1 t)\<rparr>)
      })"

definition rt_schedule_remove_thread :: "tid \<Rightarrow> kern \<Rightarrow> kern" where
  "rt_schedule_remove_thread t k =
     (let k1 = unlink t k
      in if lists k1 (LReady (prio k1 t)) = []
         then k1\<lparr>ready_group := ready_group k1 AND NOT (t_mask (tcbs k1 t))\<rparr> else k1)"

definition rt_system_scheduler_start :: "kern \<Rightarrow> kern option" where
  "rt_system_scheduler_start k =
     do {
       (t, p) \<leftarrow> get_highest_priority_thread k;
       let k1 = rt_schedule_remove_thread t (k\<lparr>cur := Some t\<rparr>) in
       Some (upd_tcb t (\<lambda>c. c\<lparr>t_stat := T_RUNNING, t_yield := False\<rparr>) k1)
     }"

definition rt_schedule :: "kern \<Rightarrow> kern option" where
  "rt_schedule k =
     (if lock_nest k = 0 \<and> ready_group k \<noteq> 0 then
        do {
          (top, hp) \<leftarrow> get_highest_priority_thread k;
          c \<leftarrow> cur k;
          let (to, need_insert, k0) =
            (if stat k c = T_RUNNING then
               if prio k c < hp then (c, False, k)
               else if prio k c = hp \<and> \<not> t_yield (tcbs k c) then (c, False, k)
               else (top, True, upd_tcb c (\<lambda>x. x\<lparr>t_yield := False\<rparr>) k)
             else (top, False, k));
          if to \<noteq> c then
            do {
              let k1 = k0\<lparr>cur_prio := hp, cur := Some to\<rparr>;
              k2 \<leftarrow> (if need_insert then rt_schedule_insert_thread c k1 else Some k1);
              Some (set_stat T_RUNNING to (rt_schedule_remove_thread to k2))
            }
          else Some (set_stat T_RUNNING c (rt_schedule_remove_thread c k0))
        }
      else Some k)"

definition rt_enter_critical :: "kern \<Rightarrow> kern" where
  "rt_enter_critical k = k\<lparr>lock_nest := lock_nest k + 1\<rparr>"

definition rt_exit_critical :: "kern \<Rightarrow> kern option" where
  "rt_exit_critical k =
     (let n = lock_nest k - 1
      in if sint n \<le> 0
         then (if cur k \<noteq> None then rt_schedule (k\<lparr>lock_nest := 0\<rparr>) else Some (k\<lparr>lock_nest := 0\<rparr>))
         else Some (k\<lparr>lock_nest := n\<rparr>))"

section \<open>The scheduler invariant\<close>

text \<open>
  \<open>kinvX X\<close> holds for the structure of all lists, and for the states of all threads except
  those of \<open>X\<close>, which an operation is working on.
\<close>

definition prio_ok :: "tcb \<Rightarrow> bool" where
  "prio_ok c \<longleftrightarrow> t_prio c < 32 \<and> t_mask c = 2 ^ t_prio c"

definition lists_ok :: "kern \<Rightarrow> bool" where
  "lists_ok k \<longleftrightarrow> (\<forall>l. distinct (lists k l)) \<and> (\<forall>t l. t \<in> set (lists k l) \<longrightarrow> t_linked (tcbs k t)) \<and>
     (\<forall>t l l'. t \<in> set (lists k l) \<longrightarrow> t \<in> set (lists k l') \<longrightarrow> l = l')"

definition ready_ok :: "kern \<Rightarrow> bool" where
  "ready_ok k \<longleftrightarrow> (\<forall>p<32. bit (ready_group k) p \<longleftrightarrow> lists k (LReady p) \<noteq> []) \<and>
     (\<forall>t p. t \<in> set (lists k (LReady p)) \<longrightarrow> prio k t = p \<and> prio_ok (tcbs k t))"

definition thread_ok :: "kern \<Rightarrow> tid \<Rightarrow> bool" where
  "thread_ok k t \<longleftrightarrow>
     (case stat k t of
        T_INIT \<Rightarrow> \<not> t_linked (tcbs k t) \<and> cur k \<noteq> Some t
      | T_READY \<Rightarrow> t \<in> set (lists k (LReady (prio k t))) \<and> cur k \<noteq> Some t
      | T_SUSPEND \<Rightarrow> prio_ok (tcbs k t) \<and> t \<notin> set (lists k (LReady (prio k t)))
      | T_RUNNING \<Rightarrow> prio_ok (tcbs k t) \<and> \<not> t_linked (tcbs k t) \<and> cur k = Some t
      | T_CLOSE \<Rightarrow> t \<notin> set (lists k (LReady (prio k t))))"

definition kinvX :: "tid set \<Rightarrow> kern \<Rightarrow> bool" where
  "kinvX X k \<longleftrightarrow> lists_ok k \<and> ready_ok k \<and> (\<forall>t. t \<notin> X \<longrightarrow> thread_ok k t)"

abbreviation kinv :: "kern \<Rightarrow> bool" where "kinv \<equiv> kinvX {}"

lemma prio_ok_simps [simp]:
  "prio_ok (c\<lparr>t_linked := b\<rparr>) = prio_ok c" "prio_ok (c\<lparr>t_stat := s\<rparr>) = prio_ok c"
  "prio_ok (c\<lparr>t_yield := b\<rparr>) = prio_ok c" "prio_ok (c\<lparr>t_error := e\<rparr>) = prio_ok c"
  "prio_ok (c\<lparr>t_remaining := w\<rparr>) = prio_ok c"
  by (simp_all add: prio_ok_def)

lemma prio_ok_cong: "t_prio c = t_prio d \<Longrightarrow> t_mask c = t_mask d \<Longrightarrow> prio_ok c = prio_ok d"
  by (simp add: prio_ok_def)

lemma prio_okD: "prio_ok c \<Longrightarrow> t_prio c < 32" "prio_ok c \<Longrightarrow> t_mask c = 2 ^ t_prio c"
  by (simp_all add: prio_ok_def)

lemma upd_tcb_simps [simp]:
  "tcbs (upd_tcb t f k) = (tcbs k)(t := f (tcbs k t))" "lists (upd_tcb t f k) = lists k"
  "ready_group (upd_tcb t f k) = ready_group k" "cur (upd_tcb t f k) = cur k"
  "lock_nest (upd_tcb t f k) = lock_nest k" "int_nest (upd_tcb t f k) = int_nest k"
  "hard (upd_tcb t f k) = hard k" "soft (upd_tcb t f k) = soft k" "tmrs (upd_tcb t f k) = tmrs k"
  "now (upd_tcb t f k) = now k" "cur_prio (upd_tcb t f k) = cur_prio k"
  by (simp_all add: upd_tcb_def)

lemma set_stat_simps [simp]:
  "tcbs (set_stat s t k) = (tcbs k)(t := (tcbs k t)\<lparr>t_stat := s\<rparr>)" "lists (set_stat s t k) = lists k"
  "ready_group (set_stat s t k) = ready_group k" "cur (set_stat s t k) = cur k"
  "lock_nest (set_stat s t k) = lock_nest k" "int_nest (set_stat s t k) = int_nest k"
  "hard (set_stat s t k) = hard k" "soft (set_stat s t k) = soft k" "tmrs (set_stat s t k) = tmrs k"
  "now (set_stat s t k) = now k" "cur_prio (set_stat s t k) = cur_prio k"
  by (simp_all add: set_stat_def)

lemma unlink_lists:
  "lists_ok k \<Longrightarrow> lists (unlink t k) l = removeAll t (lists k l)"
proof -
  assume a: "lists_ok k"
  have "removeAll t (lists k l) = lists k l" if "\<not> t_linked (tcbs k t)"
    using a that by (intro removeAll_id) (auto simp: lists_ok_def)
  then show ?thesis by (simp add: unlink_def)
qed

lemma unlink_simps [simp]:
  "tcbs (unlink t k) = (tcbs k)(t := (tcbs k t)\<lparr>t_linked := False\<rparr>)"
  "ready_group (unlink t k) = ready_group k" "cur (unlink t k) = cur k"
  "lock_nest (unlink t k) = lock_nest k" "int_nest (unlink t k) = int_nest k"
  "hard (unlink t k) = hard k" "soft (unlink t k) = soft k" "tmrs (unlink t k) = tmrs k"
  "now (unlink t k) = now k" "cur_prio (unlink t k) = cur_prio k"
  by (simp_all add: unlink_def)

lemma kinvX_mono: "kinvX X k \<Longrightarrow> X \<subseteq> Y \<Longrightarrow> kinvX Y k"
  by (auto simp: kinvX_def)

lemma kinvX_discharge: "kinvX (insert t X) k \<Longrightarrow> thread_ok k t \<Longrightarrow> kinvX X k"
  by (auto simp: kinvX_def)

lemma kinvX_thread: "kinvX X k \<Longrightarrow> t \<notin> X \<Longrightarrow> thread_ok k t"
  by (simp add: kinvX_def)

lemma bit_priority: "q < 32 \<Longrightarrow> bit (2 ^ q :: 32 word) p \<longleftrightarrow> p = q"
  by (auto simp: bit_exp_iff)

lemma remove_simps [simp]:
  "tcbs (rt_schedule_remove_thread t k) = (tcbs k)(t := (tcbs k t)\<lparr>t_linked := False\<rparr>)"
  "cur (rt_schedule_remove_thread t k) = cur k" "lock_nest (rt_schedule_remove_thread t k) = lock_nest k"
  "int_nest (rt_schedule_remove_thread t k) = int_nest k" "cur_prio (rt_schedule_remove_thread t k) = cur_prio k"
  "hard (rt_schedule_remove_thread t k) = hard k" "soft (rt_schedule_remove_thread t k) = soft k"
  "tmrs (rt_schedule_remove_thread t k) = tmrs k" "now (rt_schedule_remove_thread t k) = now k"
  by (simp_all add: rt_schedule_remove_thread_def Let_def)

lemma remove_lists:
  "lists_ok k \<Longrightarrow> lists (rt_schedule_remove_thread t k) l = removeAll t (lists k l)"
  by (simp add: rt_schedule_remove_thread_def Let_def unlink_lists)

lemma lists_ok_remove:
  "lists_ok k \<Longrightarrow> (\<And>l. lists k' l = removeAll t (lists k l)) \<Longrightarrow>
    (\<And>x. x \<noteq> t \<Longrightarrow> t_linked (tcbs k' x) = t_linked (tcbs k x)) \<Longrightarrow> lists_ok k'"
  unfolding lists_ok_def by (auto simp: distinct_removeAll)

lemma thread_ok_remove:
  assumes "thread_ok k x" "x \<noteq> t" "\<And>l. lists k' l = removeAll t (lists k l)"
    "tcbs k' x = tcbs k x" "cur k' = cur k"
  shows "thread_ok k' x"
  using assms(1,2) by (cases "stat k x") (simp_all add: thread_ok_def assms(3-5))

lemma unlink_kinvX:
  assumes "kinvX X k" "t \<in> X" "stat k t \<noteq> T_READY" "t \<notin> set (lists k (LReady (prio k t)))"
  shows "kinvX X (unlink t k)"
proof -
  have l: "lists_ok k" and r: "ready_ok k" using assms(1) by (auto simp: kinvX_def)
  note ul = unlink_lists [OF l, of t]
  have "lists_ok (unlink t k)" by (rule lists_ok_remove [OF l ul]) simp
  moreover have "removeAll t (lists k (LReady p)) = lists k (LReady p)" for p
    using r assms(4) by (intro removeAll_id) (auto simp: ready_ok_def)
  then have "ready_ok (unlink t k)" using r by (auto simp: ready_ok_def ul)
  moreover have "thread_ok (unlink t k) x" if "x \<notin> X" for x
    by (rule thread_ok_remove [OF kinvX_thread [OF assms(1) that] _ ul]) (use assms(2) that in auto)
  ultimately show ?thesis by (simp add: kinvX_def)
qed

lemma remove_kinvX:
  assumes "kinvX X k" "t \<in> X" "prio_ok (tcbs k t)"
  shows "kinvX X (rt_schedule_remove_thread t k)"
proof -
  let ?k = "rt_schedule_remove_thread t k"
  have l: "lists_ok k" and r: "ready_ok k" using assms(1) by (auto simp: kinvX_def)
  note rl = remove_lists [OF l, of t]
  have "lists_ok ?k" by (rule lists_ok_remove [OF l rl]) simp
  moreover have "ready_ok ?k"
    unfolding ready_ok_def
  proof (intro conjI allI impI)
    fix p :: nat assume p: "p < 32"
    have g: "ready_group ?k = (if removeAll t (lists k (LReady (prio k t))) = []
        then ready_group k AND NOT (2 ^ prio k t) else ready_group k)"
      using assms(3) by (simp add: rt_schedule_remove_thread_def Let_def unlink_lists [OF l] prio_okD)
    have b: "bit (ready_group k) p \<longleftrightarrow> lists k (LReady p) \<noteq> []" using r p by (simp add: ready_ok_def)
    have m: "bit (2 ^ prio k t :: 32 word) p \<longleftrightarrow> p = prio k t"
      using assms(3) by (simp add: bit_priority prio_okD)
    show "bit (ready_group ?k) p \<longleftrightarrow> lists ?k (LReady p) \<noteq> []"
    proof (cases "p = prio k t")
      case True
      then show ?thesis unfolding g rl using b p m by (auto simp: bit_and_iff bit_not_iff)
    next
      case False
      then have "removeAll t (lists k (LReady p)) = lists k (LReady p)"
        using r by (intro removeAll_id) (auto simp: ready_ok_def)
      then show ?thesis unfolding g rl using b p m False by (auto simp: bit_and_iff bit_not_iff)
    qed
  next
    fix x p assume "x \<in> set (lists ?k (LReady p))"
    then show "prio ?k x = p" "prio_ok (tcbs ?k x)" using r by (auto simp: rl ready_ok_def)
  qed
  moreover have "thread_ok ?k x" if "x \<notin> X" for x
    by (rule thread_ok_remove [OF kinvX_thread [OF assms(1) that] _ rl]) (use assms(2) that in auto)
  ultimately show ?thesis by (simp add: kinvX_def)
qed

text \<open>Changing a thread of \<open>X\<close> that is on no ready list, and changing the current thread within \<open>X\<close>.\<close>

lemma upd_kinvX:
  assumes "kinvX X k" "t \<in> X" "\<And>p. t \<notin> set (lists k (LReady p))" "t_linked (f (tcbs k t)) = t_linked (tcbs k t)"
  shows "kinvX X (upd_tcb t f k)"
  using assms unfolding kinvX_def
  by (auto simp: lists_ok_def ready_ok_def thread_ok_def split: tstat.splits)

lemma upd_same_kinvX:
  assumes "kinvX X k" "t_linked (f (tcbs k t)) = t_linked (tcbs k t)" "t_prio (f (tcbs k t)) = prio k t"
    "t_mask (f (tcbs k t)) = t_mask (tcbs k t)" "t_stat (f (tcbs k t)) = stat k t \<or> t \<in> X"
  shows "kinvX X (upd_tcb t f k)"
proof -
  have p: "prio_ok (f (tcbs k t)) = prio_ok (tcbs k t)" by (rule prio_ok_cong) (use assms in auto)
  have "thread_ok (upd_tcb t f k) x" if "x \<notin> X" for x
  proof (cases "x = t")
    case True
    then have "t_stat (f (tcbs k t)) = stat k t" using assms(5) that by blast
    then show ?thesis using True assms(1-3) that p
      by (cases "stat k t") (auto simp: kinvX_def thread_ok_def)
  next
    case False
    then show ?thesis using assms(1) that by (cases "stat k x") (auto simp: kinvX_def thread_ok_def)
  qed
  moreover have "lists_ok (upd_tcb t f k)" "ready_ok (upd_tcb t f k)"
    using assms(1-3) p by (auto simp: kinvX_def lists_ok_def ready_ok_def)
  ultimately show ?thesis by (simp add: kinvX_def)
qed

lemma kinvX_cong:
  assumes "kinvX X k" "tcbs k' = tcbs k" "lists k' = lists k" "ready_group k' = ready_group k" "cur k' = cur k"
  shows "kinvX X k'"
proof -
  have "thread_ok k' t \<longleftrightarrow> thread_ok k t" for t using assms(2-5) by (cases "stat k t") (simp_all add: thread_ok_def)
  then show ?thesis using assms by (simp add: kinvX_def lists_ok_def ready_ok_def)
qed

lemma cur_kinvX:
  assumes "kinvX X k" "\<And>t. t \<notin> X \<Longrightarrow> cur k \<noteq> Some t" "\<And>t. t \<notin> X \<Longrightarrow> c \<noteq> Some t"
  shows "kinvX X (k\<lparr>cur := c\<rparr>)"
proof -
  have "thread_ok (k\<lparr>cur := c\<rparr>) t" if "t \<notin> X" for t
    using assms that by (auto simp: kinvX_def thread_ok_def split: tstat.splits)
  then show ?thesis using assms(1) by (simp add: kinvX_def lists_ok_def ready_ok_def)
qed

lemma unlinked_no_list: "lists_ok k \<Longrightarrow> \<not> t_linked (tcbs k t) \<Longrightarrow> t \<notin> set (lists k l)"
  by (auto simp: lists_ok_def)

lemma lists_ok_add:
  assumes "lists_ok k" "\<not> t_linked (tcbs k t)" "distinct xs" "set xs = insert t (set (lists k l))"
    and "lists k' = (lists k)(l := xs)" "\<And>x. t_linked (tcbs k' x) = (x = t \<or> t_linked (tcbs k x))"
  shows "lists_ok k'"
  using assms unlinked_no_list [OF assms(1,2)] unfolding lists_ok_def
  by (auto split: if_splits)

lemma insert_kinvX:
  assumes "kinvX X k" "t \<in> X" "prio_ok (tcbs k t)" "\<not> t_linked (tcbs k t)" "cur k \<noteq> Some t"
  shows "\<exists>k'. rt_schedule_insert_thread t k = Some k' \<and> kinvX (X - {t}) k' \<and>
    tcbs k' = (tcbs k)(t := (tcbs k t)\<lparr>t_stat := T_READY, t_linked := True\<rparr>) \<and>
    lists k' = (lists k)(LReady (prio k t) := lists k (LReady (prio k t)) @ [t]) \<and>
    ready_group k' = ready_group k OR 2 ^ prio k t \<and>
    cur k' = cur k \<and> cur_prio k' = cur_prio k \<and> lock_nest k' = lock_nest k \<and> int_nest k' = int_nest k \<and>
    hard k' = hard k \<and> soft k' = soft k \<and> tmrs k' = tmrs k \<and> now k' = now k"
proof -
  define k' where "k' = (upd_tcb t (\<lambda>c. c\<lparr>t_linked := True\<rparr>) ((set_stat T_READY t k)\<lparr>lists :=
      (lists k)(LReady (prio k t) := lists k (LReady (prio k t)) @ [t])\<rparr>))
      \<lparr>ready_group := ready_group k OR 2 ^ prio k t\<rparr>"
  have l: "lists_ok k" and r: "ready_ok k" using assms(1) by (auto simp: kinvX_def)
  have e: "rt_schedule_insert_thread t k = Some k'"
    using assms(3-5) by (simp add: rt_schedule_insert_thread_def link_tail_def link_with_def k'_def prio_okD)
  have f: "tcbs k' = (tcbs k)(t := (tcbs k t)\<lparr>t_stat := T_READY, t_linked := True\<rparr>)"
    "lists k' = (lists k)(LReady (prio k t) := lists k (LReady (prio k t)) @ [t])"
    "ready_group k' = ready_group k OR 2 ^ prio k t" "cur k' = cur k"
    by (simp_all add: k'_def)
  note n = unlinked_no_list [OF l assms(4)]
  have "lists_ok k'"
    by (rule lists_ok_add [OF l assms(4), of "lists k (LReady (prio k t)) @ [t]" "LReady (prio k t)"])
      (use l n in \<open>auto simp: f lists_ok_def\<close>)
  moreover have "ready_ok k'"
    unfolding ready_ok_def
  proof (intro conjI allI impI)
    fix p :: nat assume p: "p < 32"
    show "bit (ready_group k') p \<longleftrightarrow> lists k' (LReady p) \<noteq> []"
      using r p assms(3) by (auto simp: f ready_ok_def bit_or_iff bit_priority prio_okD)
  next
    fix x p assume "x \<in> set (lists k' (LReady p))"
    then show "prio k' x = p" "prio_ok (tcbs k' x)"
      using r assms(3) by (auto simp: f ready_ok_def split: if_splits)
  qed
  moreover have "thread_ok k' x" if "x \<notin> X - {t}" for x
  proof (cases "x = t")
    case True
    then show ?thesis using assms(5) by (simp add: f thread_ok_def)
  next
    case False
    then have "thread_ok k x" using assms(1) that by (simp add: kinvX_def)
    then show ?thesis using False by (auto simp: f thread_ok_def split: tstat.splits)
  qed
  ultimately have "kinvX (X - {t}) k'" by (simp add: kinvX_def)
  then show ?thesis using e f by (simp add: k'_def)
qed

section \<open>Choosing a thread\<close>

lemma get_highest:
  assumes "kinvX X k" "ready_group k \<noteq> 0"
  shows "\<exists>t p rest. get_highest_priority_thread k = Some (t, p) \<and> lists k (LReady p) = t # rest \<and>
    p < 32 \<and> (\<forall>q<p. lists k (LReady q) = []) \<and> prio k t = p \<and> prio_ok (tcbs k t) \<and> t_linked (tcbs k t)"
proof -
  obtain p where p: "rt_ffs (ready_group k) = p + 1" "lowest (ready_group k) p"
    using rt_ffs_lowest [OF assms(2)] by blast
  have r: "ready_ok k" and l: "lists_ok k" using assms(1) by (auto simp: kinvX_def)
  have p32: "p < 32" "bit (ready_group k) p" "\<forall>q<p. \<not> bit (ready_group k) q"
    using p(2) by (auto simp: lowest_def)
  then obtain t rest where t: "lists k (LReady p) = t # rest"
    using r by (cases "lists k (LReady p)") (auto simp: ready_ok_def)
  then have "t \<in> set (lists k (LReady p))" by simp
  then have "prio k t = p" "prio_ok (tcbs k t)" "t_linked (tcbs k t)"
    using r l by (auto simp: ready_ok_def lists_ok_def)
  moreover have "\<forall>q<p. lists k (LReady q) = []" using p32 r by (auto simp: ready_ok_def)
  ultimately show ?thesis using t p32 p(1) by (simp add: get_highest_priority_thread_def)
qed

lemma no_ready: "kinvX X k \<Longrightarrow> ready_group k = 0 \<Longrightarrow> p < 32 \<Longrightarrow> lists k (LReady p) = []"
  by (auto simp: kinvX_def ready_ok_def)

lemma ready_prio: "kinv k \<Longrightarrow> stat k t = T_READY \<Longrightarrow> t \<in> set (lists k (LReady (prio k t))) \<and> prio k t < 32"
proof -
  assume k: "kinv k" "stat k t = T_READY"
  then have t: "t \<in> set (lists k (LReady (prio k t)))"
    using kinvX_thread [OF k(1), of t] by (simp add: thread_ok_def)
  have "ready_ok k" using k(1) by (simp add: kinvX_def)
  then have "prio_ok (tcbs k t)" using t by (simp add: ready_ok_def)
  then show ?thesis using t prio_okD(1) by blast
qed

text \<open>Making the head of a ready list the running thread, the last step of every switch.\<close>

lemma run_head:
  assumes "kinvX {t} k" "prio_ok (tcbs k t)" "cur k = Some t"
  shows "kinv (set_stat T_RUNNING t (rt_schedule_remove_thread t k))"
proof -
  let ?k = "rt_schedule_remove_thread t k"
  have i: "kinvX {t} ?k" using remove_kinvX [OF assms(1) _ assms(2)] by simp
  have "lists_ok k" using assms(1) by (simp add: kinvX_def)
  then have "kinvX {t} (set_stat T_RUNNING t ?k)"
    unfolding set_stat_def by (intro upd_kinvX [OF i]) (simp_all add: remove_lists)
  moreover have "thread_ok (set_stat T_RUNNING t ?k) t"
    using assms(2,3) by (simp add: thread_ok_def)
  ultimately show ?thesis using kinvX_discharge [of t "{}"] by simp
qed

text \<open>The three outcomes of \<^verbatim>\<open>rt_schedule\<close> with the scheduler unlocked and a thread ready.\<close>

lemma schedule_stay:
  assumes k: "kinv k" "cur k = Some c" "lock_nest k = 0"
    and top: "get_highest_priority_thread k = Some (t, p)" "ready_group k \<noteq> 0"
    and c: "stat k c = T_RUNNING" "prio k c < p \<or> prio k c = p \<and> \<not> t_yield (tcbs k c)"
  shows "\<exists>k'. rt_schedule k = Some k' \<and> kinv k' \<and> cur k' = Some c \<and> lists k' = lists k \<and> tcbs k' = tcbs k \<and>
    lock_nest k' = lock_nest k \<and> int_nest k' = int_nest k \<and> hard k' = hard k \<and> soft k' = soft k \<and>
    tmrs k' = tmrs k \<and> now k' = now k"
proof -
  let ?k = "set_stat T_RUNNING c (rt_schedule_remove_thread c k)"
  have th: "prio_ok (tcbs k c)" "\<not> t_linked (tcbs k c)"
    using kinvX_thread [OF k(1), of c] c(1) by (simp_all add: thread_ok_def)
  have l: "lists_ok k" using k(1) by (simp add: kinvX_def)
  have e: "rt_schedule k = Some ?k"
    using k(2,3) top c by (auto simp: rt_schedule_def Let_def)
  have "kinv ?k" by (rule run_head [OF kinvX_mono [OF k(1)] th(1) k(2)]) simp
  moreover have "lists ?k = lists k"
    by (rule ext) (use unlinked_no_list [OF l th(2)] in \<open>simp add: remove_lists [OF l]\<close>)
  moreover have "tcbs ?k = tcbs k" using c(1) th(2) by (auto intro!: ext)
  ultimately show ?thesis using e k(2) by simp
qed

lemma schedule_preempt:
  assumes k: "kinv k" "cur k = Some c" "lock_nest k = 0"
    and top: "get_highest_priority_thread k = Some (t, p)" "ready_group k \<noteq> 0"
    and c: "stat k c = T_RUNNING" "p < prio k c \<or> prio k c = p \<and> t_yield (tcbs k c)"
  shows "\<exists>k'. rt_schedule k = Some k' \<and> kinv k' \<and> cur k' = Some t \<and> c \<noteq> t \<and>
    lists k' = (\<lambda>l. removeAll t (((lists k)(LReady (prio k c) := lists k (LReady (prio k c)) @ [c])) l)) \<and>
    tcbs k' = (tcbs k)(c := (tcbs k c)\<lparr>t_yield := False, t_stat := T_READY, t_linked := True\<rparr>,
      t := (tcbs k t)\<lparr>t_linked := False, t_stat := T_RUNNING\<rparr>) \<and>
    lock_nest k' = lock_nest k \<and> int_nest k' = int_nest k \<and> hard k' = hard k \<and> soft k' = soft k \<and>
    tmrs k' = tmrs k \<and> now k' = now k"
proof -
  have th: "prio_ok (tcbs k c)" "\<not> t_linked (tcbs k c)"
    using kinvX_thread [OF k(1), of c] c(1) by (simp_all add: thread_ok_def)
  have tt: "prio_ok (tcbs k t)" "t_linked (tcbs k t)" "prio k t = p"
    using get_highest [OF k(1) top(2)] top(1) by auto
  have ne: "t \<noteq> c" using tt th by auto
  let ?k1 = "(upd_tcb c (\<lambda>x. x\<lparr>t_yield := False\<rparr>) k)\<lparr>cur_prio := p, cur := Some t\<rparr>"
  have "kinv (upd_tcb c (\<lambda>x. x\<lparr>t_yield := False\<rparr>) k)" by (rule upd_same_kinvX [OF k(1)]) simp_all
  then have "kinvX {c, t} (upd_tcb c (\<lambda>x. x\<lparr>t_yield := False\<rparr>) k)" by (rule kinvX_mono) simp
  then have "kinvX {c, t} ((upd_tcb c (\<lambda>x. x\<lparr>t_yield := False\<rparr>) k)\<lparr>cur := Some t\<rparr>)"
    by (rule cur_kinvX) (use k(2) in auto)
  then have "kinvX {c, t} ?k1" by (rule kinvX_cong) simp_all
  from insert_kinvX [OF this, of c] th ne obtain k2 where
    k2: "rt_schedule_insert_thread c ?k1 = Some k2" "kinvX ({c, t} - {c}) k2"
    "tcbs k2 = (tcbs k)(c := (tcbs k c)\<lparr>t_yield := False, t_stat := T_READY, t_linked := True\<rparr>)"
    "lists k2 = (lists k)(LReady (prio k c) := lists k (LReady (prio k c)) @ [c])" "cur k2 = Some t"
    "lock_nest k2 = lock_nest k" "int_nest k2 = int_nest k" "hard k2 = hard k" "soft k2 = soft k"
    "tmrs k2 = tmrs k" "now k2 = now k" by auto
  let ?k' = "set_stat T_RUNNING t (rt_schedule_remove_thread t k2)"
  have i: "kinvX {t} k2" using k2(2) ne by (simp add: insert_Diff_if)
  then have l: "lists_ok k2" by (simp add: kinvX_def)
  have e: "rt_schedule k = Some ?k'"
    using k(2,3) top c ne k2(1) by (auto simp: rt_schedule_def Let_def)
  have "kinv ?k'" by (rule run_head [OF i]) (use k2(3,5) tt ne in simp_all)
  moreover have "lists ?k' = (\<lambda>l. removeAll t (lists k2 l))" using remove_lists [OF l] by auto
  ultimately show ?thesis using e k2 ne by simp
qed

lemma schedule_blocked:
  assumes k: "kinv k" "cur k = Some c" "lock_nest k = 0"
    and top: "get_highest_priority_thread k = Some (t, p)" "ready_group k \<noteq> 0"
    and c: "stat k c \<noteq> T_RUNNING"
  shows "\<exists>k'. rt_schedule k = Some k' \<and> kinv k' \<and> cur k' = Some t \<and> c \<noteq> t \<and>
    lists k' = (\<lambda>l. removeAll t (lists k l)) \<and>
    tcbs k' = (tcbs k)(t := (tcbs k t)\<lparr>t_linked := False, t_stat := T_RUNNING\<rparr>) \<and>
    lock_nest k' = lock_nest k \<and> int_nest k' = int_nest k \<and> hard k' = hard k \<and> soft k' = soft k \<and>
    tmrs k' = tmrs k \<and> now k' = now k"
proof -
  have th: "c \<notin> set (lists k (LReady (prio k c)))" "stat k c = T_SUSPEND \<or> stat k c = T_CLOSE"
    using kinvX_thread [OF k(1), of c] c k(2) by (cases "stat k c"; simp add: thread_ok_def)+
  have tt: "prio_ok (tcbs k t)" "prio k t = p" "t \<in> set (lists k (LReady p))"
    using get_highest [OF k(1) top(2)] top(1) by auto
  have ne: "t \<noteq> c" using tt th by auto
  let ?k1 = "k\<lparr>cur_prio := p, cur := Some t\<rparr>"
  have "kinvX {c, t} k" using k(1) by (rule kinvX_mono) simp
  then have "kinvX {c, t} (k\<lparr>cur := Some t\<rparr>)"
    by (rule cur_kinvX) (use k(2) in auto)
  then have "kinvX {c, t} ?k1" by (rule kinvX_cong) simp_all
  moreover have "thread_ok ?k1 c" using kinvX_thread [OF k(1), of c] th(2) by (auto simp: thread_ok_def)
  ultimately have i: "kinvX {t} ?k1" by (rule kinvX_discharge)
  let ?k' = "set_stat T_RUNNING t (rt_schedule_remove_thread t ?k1)"
  have e: "rt_schedule k = Some ?k'"
    using k(2,3) top c ne by (simp add: rt_schedule_def Let_def)
  have l: "lists_ok ?k1" using i by (simp add: kinvX_def)
  have "kinv ?k'" by (rule run_head [OF i]) (use tt in simp_all)
  moreover have "lists ?k' = (\<lambda>l. removeAll t (lists k l))" using remove_lists [OF l] by auto
  ultimately show ?thesis using e ne by simp
qed

lemma schedule_idle: "lock_nest k \<noteq> 0 \<or> ready_group k = 0 \<Longrightarrow> rt_schedule k = Some k"
  by (auto simp: rt_schedule_def)

text \<open>A small kernel: thread 1 runs at priority 5, 2 and 4 are ready at 5, 3 at 7.\<close>

definition tcb0 :: tcb where
  "tcb0 = \<lparr>t_stat = T_INIT, t_yield = False, t_prio = 0, t_init_prio = 0, t_mask = 0, t_init_tick = 10,
     t_remaining = 10, t_error = RT_EOK, t_evset = 0, t_evinfo = 0, t_linked = False\<rparr>"

definition tcb_at :: "tstat \<Rightarrow> nat \<Rightarrow> tcb" where
  "tcb_at s p = tcb0\<lparr>t_stat := s, t_prio := p, t_init_prio := p, t_mask := 2 ^ p, t_linked := (s = T_READY)\<rparr>"

definition kern_example :: kern where
  "kern_example = \<lparr>tmrs = (\<lambda>_. \<lparr>tm_soft = False, tm_periodic = False, tm_active = False, tm_init = 0,
       tm_timeout = 0\<rparr>), hard = [], soft = [], now = 100,
     tcbs = (\<lambda>_. tcb0)(1 := (tcb_at T_RUNNING 5)\<lparr>t_yield := True\<rparr>, 2 := tcb_at T_READY 5, 3 := tcb_at T_READY 7,
       4 := tcb_at T_READY 5),
     lists = (\<lambda>_. [])(LReady 5 := [2, 4], LReady 7 := [3]), ready_group = 2 ^ 5 + 2 ^ 7,
     cur = Some 1, cur_prio = 5, lock_nest = 0, int_nest = 0\<rparr>"

lemma kern_example_bits: "p < 32 \<Longrightarrow> bit (ready_group kern_example) p \<longleftrightarrow> p = 5 \<or> p = 7"
proof -
  assume "p < 32"
  have "list_all (\<lambda>p. bit (160 :: 32 word) p \<longleftrightarrow> p = 5 \<or> p = 7) [0..<32]" by code_simp
  then show ?thesis using \<open>p < 32\<close> by (auto simp: list_all_iff kern_example_def)
qed

lemma kern_example_inv: "kinv kern_example"
proof -
  have "lists_ok kern_example"
    by (auto simp: lists_ok_def kern_example_def tcb_at_def split: if_splits)
  moreover have "prio_ok (tcbs kern_example 2)" "prio_ok (tcbs kern_example 3)" "prio_ok (tcbs kern_example 4)"
    "prio_ok (tcbs kern_example 1)"
    by (simp_all add: prio_ok_def kern_example_def tcb_at_def)
  moreover from this have "ready_ok kern_example"
    using kern_example_bits unfolding ready_ok_def
    by (auto simp: kern_example_def tcb_at_def split: if_splits)
  moreover from calculation have "thread_ok kern_example t" for t
    by (cases "t \<in> {1, 2, 3, 4}") (auto simp: thread_ok_def kern_example_def tcb_at_def tcb0_def)
  ultimately show ?thesis by (simp add: kinvX_def)
qed

text \<open>C1. With the scheduler unlocked, \<^verbatim>\<open>rt_schedule\<close> returns, keeps the scheduler invariant, and
  afterwards a thread is running whose priority no ready thread exceeds, provided the current
  thread can go on or some thread is ready.\<close>

theorem rt_schedule_highest:
  assumes "kinv k" "cur k = Some c" "lock_nest k = 0"
  shows "\<exists>k' c'. rt_schedule k = Some k' \<and> kinv k' \<and> cur k' = Some c' \<and>
    (stat k c = T_RUNNING \<or> ready_group k \<noteq> 0 \<longrightarrow>
      stat k' c' = T_RUNNING \<and> (\<forall>t. stat k' t = T_READY \<longrightarrow> prio k' c' \<le> prio k' t))"
proof (cases "ready_group k = 0")
  case True
  then have "stat k t \<noteq> T_READY" for t
    using ready_prio [OF assms(1), of t] no_ready [OF assms(1) True, of "prio k t"] by auto
  then show ?thesis using schedule_idle [of k] True assms by auto
next
  case False
  obtain t p rest where top: "get_highest_priority_thread k = Some (t, p)" "lists k (LReady p) = t # rest"
    "\<forall>q<p. lists k (LReady q) = []" "prio k t = p"
    using get_highest [OF assms(1) False] by blast
  have min: "p \<le> prio k x" if "stat k x = T_READY" for x
  proof (rule ccontr)
    assume "\<not> p \<le> prio k x"
    then have "lists k (LReady (prio k x)) = []" using top(3) by simp
    then show False using ready_prio [OF assms(1) that] by simp
  qed
  show ?thesis
  proof (cases "stat k c = T_RUNNING")
    case run: True
    show ?thesis
    proof (cases "prio k c < p \<or> prio k c = p \<and> \<not> t_yield (tcbs k c)")
      case True
      from schedule_stay [OF assms top(1) False run True] obtain k' where
        k': "rt_schedule k = Some k'" "kinv k'" "cur k' = Some c" "tcbs k' = tcbs k" by blast
      then show ?thesis using run min True by fastforce
    next
      case pre: False
      then have "p < prio k c \<or> prio k c = p \<and> t_yield (tcbs k c)" by auto
      from schedule_preempt [OF assms top(1) False run this] obtain k' where
        k': "rt_schedule k = Some k'" "kinv k'" "cur k' = Some t" "c \<noteq> t"
        "tcbs k' = (tcbs k)(c := (tcbs k c)\<lparr>t_yield := False, t_stat := T_READY, t_linked := True\<rparr>,
          t := (tcbs k t)\<lparr>t_linked := False, t_stat := T_RUNNING\<rparr>)" by blast
      have "prio k' t \<le> prio k' x" if "stat k' x = T_READY" for x
        using that min [of x] pre k'(4) top(4) by (auto simp: k'(5) split: if_splits)
      then show ?thesis using k' by auto
    qed
  next
    case blocked: False
    from schedule_blocked [OF assms top(1) False blocked] obtain k' where
      k': "rt_schedule k = Some k'" "kinv k'" "cur k' = Some t"
      "tcbs k' = (tcbs k)(t := (tcbs k t)\<lparr>t_linked := False, t_stat := T_RUNNING\<rparr>)" by blast
    have "prio k' t \<le> prio k' x" if "stat k' x = T_READY" for x
      using that min [of x] top(4) by (auto simp: k'(4) split: if_splits)
    then show ?thesis using k' by auto
  qed
qed

theorem rt_schedule_highest_witness:
  "\<exists>k' c'. rt_schedule kern_example = Some k' \<and> cur k' = Some c' \<and> stat k' c' = T_RUNNING"
  using rt_schedule_highest [OF kern_example_inv, of 1]
  by (auto simp: kern_example_def tcb_at_def)

text \<open>C4. Round robin: a running thread whose time slice is over hands the processor to the head of
  the ready list of its own priority and goes to the tail of that list with a fresh slice
  flag; while its slice lasts, threads of its priority or a lower one do not displace it.\<close>

theorem rt_schedule_round_robin:
  assumes "kinv k" "cur k = Some c" "lock_nest k = 0" "stat k c = T_RUNNING"
    and "lists k (LReady (prio k c)) = t # rest" "list_all (\<lambda>q. lists k (LReady q) = []) [0..<prio k c]"
  shows "\<exists>k'. rt_schedule k = Some k' \<and>
    (if t_yield (tcbs k c)
     then cur k' = Some t \<and> lists k' (LReady (prio k c)) = rest @ [c] \<and> \<not> t_yield (tcbs k' c) \<and> stat k' c = T_READY
     else cur k' = Some c \<and> lists k' = lists k \<and> tcbs k' = tcbs k)"
proof -
  have th: "prio_ok (tcbs k c)" "\<not> t_linked (tcbs k c)"
    using kinvX_thread [OF assms(1), of c] assms(4) by (simp_all add: thread_ok_def)
  have p32: "prio k c < 32" using prio_okD(1) [OF th(1)] .
  have r: "ready_ok k" and l: "lists_ok k" using assms(1) by (auto simp: kinvX_def)
  have "bit (ready_group k) (prio k c)" using r p32 assms(5) by (simp add: ready_ok_def)
  then have g: "ready_group k \<noteq> 0" by auto
  obtain t' p rest' where top: "get_highest_priority_thread k = Some (t', p)" "lists k (LReady p) = t' # rest'"
    "\<forall>q<p. lists k (LReady q) = []"
    using get_highest [OF assms(1) g] by blast
  have "\<not> p < prio k c" using top(2) assms(6) by (auto simp: list_all_iff)
  moreover have "\<not> prio k c < p" using top(3) assms(5) by auto
  ultimately have p: "p = prio k c" by simp
  then have t: "t' = t" "rest' = rest" using top(2) assms(5) by auto
  have d: "t \<notin> set rest" "c \<noteq> t"
    using l assms(5) th(2) by (auto simp: lists_ok_def) (metis distinct.simps(2), metis list.set_intros(1))
  show ?thesis
  proof (cases "t_yield (tcbs k c)")
    case True
    from schedule_preempt [OF assms(1-3) top(1) g assms(4)] p True obtain k' where
      k': "rt_schedule k = Some k'" "cur k' = Some t'"
      "lists k' = (\<lambda>l. removeAll t' (((lists k)(LReady (prio k c) := lists k (LReady (prio k c)) @ [c])) l))"
      "tcbs k' = (tcbs k)(c := (tcbs k c)\<lparr>t_yield := False, t_stat := T_READY, t_linked := True\<rparr>,
        t' := (tcbs k t')\<lparr>t_linked := False, t_stat := T_RUNNING\<rparr>)" by auto
    then show ?thesis using True t d assms(5) by (simp add: removeAll_id)
  next
    case False
    from schedule_stay [OF assms(1-3) top(1) g assms(4)] p False show ?thesis by auto
  qed
qed

theorem rt_schedule_round_robin_witness:
  "\<exists>k'. rt_schedule kern_example = Some k' \<and> cur k' = Some 2 \<and> lists k' (LReady 5) = [4, 1]"
proof -
  have "lists kern_example (LReady (prio kern_example 1)) = 2 # [4]" "prio kern_example 1 = 5"
    "list_all (\<lambda>q. lists kern_example (LReady q) = []) [0..<prio kern_example 1]"
    "t_yield (tcbs kern_example 1)" "stat kern_example 1 = T_RUNNING" "cur kern_example = Some 1"
    "lock_nest kern_example = 0"
    by (simp_all add: kern_example_def tcb_at_def list_all_iff)
  then show ?thesis using rt_schedule_round_robin [OF kern_example_inv, of 1 2 "[4]"] by auto
qed

section \<open>The scheduler lock\<close>

lemma sint_small: "n \<le> 32767 \<Longrightarrow> sint (of_nat n :: 16 word) = int n"
proof -
  assume n: "n \<le> 32767"
  then have "uint (of_nat n :: 16 word) = int n"
    by (simp add: unsigned_of_nat take_bit_nat_eq_self)
  then show ?thesis using n by (simp add: sint_uint signed_take_bit_int_eq_self)
qed

text \<open>The scheduler lock nests: with the lock held \<^verbatim>\<open>rt_schedule\<close> changes nothing, an inner
  \<^verbatim>\<open>rt_exit_critical\<close> only counts down, and the outermost one unlocks and schedules.\<close>

theorem critical_section:
  assumes "lock_nest k = of_nat n" "0 < n" "n \<le> 32767" "cur k \<noteq> None"
  shows "rt_schedule k = Some k \<and> lock_nest (rt_enter_critical k) = of_nat (Suc n) \<and>
    rt_exit_critical k =
      (if n = 1 then rt_schedule (k\<lparr>lock_nest := 0\<rparr>) else Some (k\<lparr>lock_nest := of_nat (n - 1)\<rparr>))"
proof -
  have nz: "lock_nest k \<noteq> 0"
    using assms(1-3) by (simp add: word_of_nat_eq_0_iff nat_dvd_not_less)
  have e: "lock_nest k - 1 = of_nat (n - 1)" using assms(1,2) by (simp add: of_nat_diff)
  have "sint (lock_nest k - 1) = int (n - 1)" unfolding e using assms(3) by (intro sint_small) simp
  then show ?thesis
    using assms nz e by (auto simp: schedule_idle rt_enter_critical_def rt_exit_critical_def Let_def)
qed

theorem critical_section_witness:
  "rt_schedule (kern_example\<lparr>lock_nest := 2\<rparr>) = Some (kern_example\<lparr>lock_nest := 2\<rparr>) \<and>
   rt_exit_critical (kern_example\<lparr>lock_nest := 2\<rparr>) = Some (kern_example\<lparr>lock_nest := 1\<rparr>)"
  using critical_section [of "kern_example\<lparr>lock_nest := 2\<rparr>" 2] by (simp add: kern_example_def)

end
