(* ===== verification/Thread.thy ===== *)
theory Thread
  imports Sched
begin

text \<open>
  Thread management, \<^verbatim>\<open>src/thread.c\<close>, and the tick interrupt, \<^verbatim>\<open>src/clock.c\<close>, over the kernel
  state of the scheduler theory. A blocking function is split where it gives up the
  processor: the first part ends with \<^verbatim>\<open>rt_schedule\<close>, the second is what the thread does when
  it is scheduled again. Thread handles are typed, so the assertions on object types hold by
  construction; the registration of objects, stack preparation and clean-up functions are
  outside the state (whether a thread is statically allocated is an argument).
\<close>

section \<open>Operations\<close>

definition rt_thread_init :: "tid \<Rightarrow> nat \<Rightarrow> 32 word \<Rightarrow> kern \<Rightarrow> kern option" where
  "rt_thread_init t priority tick k =
     (if priority < RT_THREAD_PRIORITY_MAX then
        Some (rt_timer_init (TThread t) 0 False False
          (upd_tcb t (\<lambda>c. c\<lparr>t_stat := T_INIT, t_yield := False, t_prio := priority, t_init_prio := priority,
              t_mask := 0, t_init_tick := tick, t_remaining := tick, t_error := RT_EOK, t_linked := False\<rparr>) k))
      else None)"

definition rt_thread_suspend :: "tid \<Rightarrow> kern \<Rightarrow> (kern \<times> rt_err) option" where
  "rt_thread_suspend t k =
     (if stat k t \<noteq> T_READY \<and> stat k t \<noteq> T_RUNNING then Some (k, RT_ERROR)
      else if stat k t = T_RUNNING \<and> cur k \<noteq> Some t then None
      else Some (fst (rt_timer_stop (TThread t) (set_stat T_SUSPEND t (rt_schedule_remove_thread t k))), RT_EOK))"

definition rt_thread_resume :: "tid \<Rightarrow> kern \<Rightarrow> (kern \<times> rt_err) option" where
  "rt_thread_resume t k =
     (if stat k t \<noteq> T_SUSPEND then Some (k, RT_ERROR)
      else do {
        k1 \<leftarrow> rt_schedule_insert_thread t (fst (rt_timer_stop (TThread t) (unlink t k)));
        Some (k1, RT_EOK)
      })"

definition rt_thread_startup :: "tid \<Rightarrow> kern \<Rightarrow> kern option" where
  "rt_thread_startup t k =
     (if stat k t = T_INIT then
        do {
          (k1, _) \<leftarrow> rt_thread_resume t
            (upd_tcb t (\<lambda>c. c\<lparr>t_prio := t_init_prio c, t_mask := 2 ^ t_init_prio c, t_stat := T_SUSPEND,
               t_yield := False\<rparr>) k);
          if cur k1 \<noteq> None then rt_schedule k1 else Some k1
        }
      else None)"

definition rt_thread_timeout :: "tid \<Rightarrow> kern \<Rightarrow> kern option" where
  "rt_thread_timeout t k =
     (if stat k t = T_SUSPEND then
        do {
          k1 \<leftarrow> rt_schedule_insert_thread t (unlink t (upd_tcb t (\<lambda>c. c\<lparr>t_error := RT_ETIMEOUT\<rparr>) k));
          rt_schedule k1
        }
      else None)"

definition rt_thread_yield :: "kern \<Rightarrow> kern option" where
  "rt_thread_yield k = rt_schedule k"

text \<open>Arming the timer of a suspended thread, as all timed waits do.\<close>

definition thread_timer_arm :: "tid \<Rightarrow> 32 word \<Rightarrow> kern \<Rightarrow> kern option" where
  "thread_timer_arm t tick k =
     timer_start (TThread t) (fst (rt_timer_control (TThread t) (SET_TIME tick) k))"

definition rt_thread_sleep :: "32 word \<Rightarrow> kern \<Rightarrow> kern option" where
  "rt_thread_sleep tick k =
     do {
       t \<leftarrow> cur k;
       (k1, _) \<leftarrow> rt_thread_suspend t k;
       k2 \<leftarrow> thread_timer_arm t tick k1;
       rt_schedule k2
     }"

definition rt_thread_sleep_resume :: "tid \<Rightarrow> kern \<Rightarrow> kern" where
  "rt_thread_sleep_resume t k =
     (if t_error (tcbs k t) = RT_ETIMEOUT then upd_tcb t (\<lambda>c. c\<lparr>t_error := RT_EOK\<rparr>) k else k)"

text \<open>
  \<^verbatim>\<open>rt_thread_delay_until\<close> up to the reschedule: the new value of \<^verbatim>\<open>*tick\<close> and whether the
  thread sleeps; on return \<^verbatim>\<open>*tick\<close> is the current tick.
\<close>

definition rt_thread_delay_until :: "32 word \<Rightarrow> 32 word \<Rightarrow> kern \<Rightarrow> (kern \<times> 32 word \<times> bool) option" where
  "rt_thread_delay_until tick inc k =
     do {
       t \<leftarrow> cur k;
       if now k - tick < inc then
         do {
           let tick' = now k - tick + inc;
           (k1, _) \<leftarrow> rt_thread_suspend t k;
           k2 \<leftarrow> thread_timer_arm t tick' k1;
           k3 \<leftarrow> rt_schedule k2;
           Some (k3, tick', True)
         }
       else Some (k, now k, False)
     }"

definition rt_tick_from_millisecond :: "int \<Rightarrow> 32 word" where
  "rt_tick_from_millisecond ms =
     (if ms < 0 then - 1
      else word_of_int (1000 * cdiv ms 1000) + word_of_int (cdiv (1000 * (ms mod 1000) + 999) 1000))"

definition rt_thread_mdelay :: "int \<Rightarrow> kern \<Rightarrow> kern option" where
  "rt_thread_mdelay ms k = rt_thread_sleep (rt_tick_from_millisecond ms) k"

text \<open>\<^verbatim>\<open>RT_THREAD_CTRL_CHANGE_PRIORITY\<close>; a shift by 32 or more is undefined and is \<open>None\<close>.\<close>

definition change_priority :: "tid \<Rightarrow> nat \<Rightarrow> kern \<Rightarrow> kern option" where
  "change_priority t p k =
     (if p < 32 then
        let setp = upd_tcb t (\<lambda>c. c\<lparr>t_prio := p, t_mask := 2 ^ p\<rparr>)
        in if stat k t = T_READY
           then rt_schedule_insert_thread t (setp (rt_schedule_remove_thread t k))
           else Some (setp k)
      else None)"

text \<open>Closing a thread: by itself, from another thread, and deletion of a dynamic one.\<close>

definition close_list :: "bool \<Rightarrow> tid \<Rightarrow> kern \<Rightarrow> kern option" where
  "close_list static t k = (if static then Some k else link_head LDefunct t k)"

definition rt_thread_exit :: "bool \<Rightarrow> kern \<Rightarrow> kern option" where
  "rt_thread_exit static k =
     do {
       t \<leftarrow> cur k;
       let k1 = rt_timer_detach (TThread t)
         (upd_tcb t (\<lambda>c. c\<lparr>t_stat := T_CLOSE, t_yield := False\<rparr>) (rt_schedule_remove_thread t k));
       k2 \<leftarrow> close_list static t k1;
       rt_schedule k2
     }"

definition rt_thread_detach :: "bool \<Rightarrow> tid \<Rightarrow> kern \<Rightarrow> kern option" where
  "rt_thread_detach static t k =
     (if stat k t = T_CLOSE then Some k
      else
        (let k1 = (if stat k t \<noteq> T_INIT then rt_schedule_remove_thread t k else k);
             k2 = rt_timer_detach (TThread t) k1;
             k3 = upd_tcb t (\<lambda>c. c\<lparr>t_stat := T_CLOSE, t_yield := False\<rparr>) k2
         in close_list static t k3))"

definition rt_thread_delete :: "tid \<Rightarrow> kern \<Rightarrow> kern option" where
  "rt_thread_delete t k = rt_thread_detach False t k"

datatype th_cmd = CTRL_STARTUP | CTRL_CLOSE | CTRL_CHANGE_PRIORITY nat | CTRL_OTHER

definition rt_thread_control :: "tid \<Rightarrow> th_cmd \<Rightarrow> kern \<Rightarrow> kern option" where
  "rt_thread_control t cmd k =
     (case cmd of
        CTRL_CHANGE_PRIORITY p \<Rightarrow> change_priority t p k
      | CTRL_STARTUP \<Rightarrow> rt_thread_startup t k
      | CTRL_CLOSE \<Rightarrow> rt_thread_delete t k
      | CTRL_OTHER \<Rightarrow> Some k)"

section \<open>Timers and the tick\<close>

text \<open>\<^verbatim>\<open>rt_timer_start\<close> in full: starting a soft timer wakes the timer thread \<open>tt\<close>.\<close>

definition rt_timer_start :: "tid \<Rightarrow> tmid \<Rightarrow> kern \<Rightarrow> kern option" where
  "rt_timer_start tt m k =
     do {
       k1 \<leftarrow> timer_start m k;
       if tm_soft (tmrs k1 m) \<and> stat k1 tt = T_SUSPEND
       then do { (k2, _) \<leftarrow> rt_thread_resume tt k1; rt_schedule k2 }
       else Some k1
     }"

text \<open>The timeout functions: \<^verbatim>\<open>rt_thread_timeout\<close> of the thread, or the function of a user timer.\<close>

definition timeout_func :: "(nat \<Rightarrow> kern \<Rightarrow> kern option) \<Rightarrow> tmid \<Rightarrow> kern \<Rightarrow> kern option" where
  "timeout_func user m k = (case m of TThread t \<Rightarrow> rt_thread_timeout t k | TUser n \<Rightarrow> user n k)"

definition rt_tick_increase :: "(nat \<Rightarrow> kern \<Rightarrow> kern option) \<Rightarrow> kern \<Rightarrow> kern option" where
  "rt_tick_increase user k =
     do {
       let k1 = k\<lparr>now := now k + 1\<rparr>;
       t \<leftarrow> cur k1;
       let k2 = upd_tcb t (\<lambda>c. c\<lparr>t_remaining := t_remaining c - 1\<rparr>) k1;
       k3 \<leftarrow> (if t_remaining (tcbs k2 t) = 0
              then rt_thread_yield (upd_tcb t (\<lambda>c. c\<lparr>t_remaining := t_init_tick c, t_yield := True\<rparr>) k2)
              else Some k2);
       rt_timer_check (timeout_func user) k3
     }"

section \<open>What the timer operations leave alone\<close>

lemma timer_kern_simps [simp]:
  "tcbs (upd_tmr m f k) = tcbs k" "lists (upd_tmr m f k) = lists k" "ready_group (upd_tmr m f k) = ready_group k"
  "cur (upd_tmr m f k) = cur k" "lock_nest (upd_tmr m f k) = lock_nest k" "int_nest (upd_tmr m f k) = int_nest k"
  "tcbs (timer_remove m k) = tcbs k" "lists (timer_remove m k) = lists k"
  "ready_group (timer_remove m k) = ready_group k" "cur (timer_remove m k) = cur k"
  "lock_nest (timer_remove m k) = lock_nest k" "int_nest (timer_remove m k) = int_nest k"
  by (simp_all add: upd_tmr_def timer_remove_def)

lemma timer_stop_kern [simp]:
  "tcbs (fst (rt_timer_stop m k)) = tcbs k" "lists (fst (rt_timer_stop m k)) = lists k"
  "ready_group (fst (rt_timer_stop m k)) = ready_group k" "cur (fst (rt_timer_stop m k)) = cur k"
  "lock_nest (fst (rt_timer_stop m k)) = lock_nest k" "int_nest (fst (rt_timer_stop m k)) = int_nest k"
  "now (fst (rt_timer_stop m k)) = now k"
  by (simp_all add: rt_timer_stop_def)

lemma timer_start_kern:
  "timer_start m k = Some k' \<Longrightarrow> tcbs k' = tcbs k \<and> lists k' = lists k \<and> ready_group k' = ready_group k \<and>
    cur k' = cur k \<and> lock_nest k' = lock_nest k \<and> int_nest k' = int_nest k"
  by (auto simp: timer_start_def Let_def split: if_splits)

lemma timers_inv_stop_hard:
  "timers_inv k \<Longrightarrow> hard (fst (rt_timer_stop m k)) = removeAll m (hard k) \<and>
    soft (fst (rt_timer_stop m k)) = removeAll m (soft k)"
proof -
  assume i: "timers_inv k"
  have "removeAll m (hard k) = hard k" "removeAll m (soft k) = soft k" if "\<not> tm_active (tmrs k m)"
    using i that by (auto simp: timers_inv_def intro!: removeAll_id)
  then show ?thesis by (simp add: rt_timer_stop_def)
qed

section \<open>The thread timers\<close>

text \<open>A thread timer is linked only while its thread is suspended, so its timeout function finds
  the thread in the state it asserts.\<close>

definition tminv :: "kern \<Rightarrow> bool" where
  "tminv k \<longleftrightarrow> timers_inv k \<and> (\<forall>t. TThread t \<in> set (hard k) \<longrightarrow> stat k t = T_SUSPEND) \<and>
     (\<forall>t. \<not> tm_periodic (tmrs k (TThread t)) \<and> \<not> tm_soft (tmrs k (TThread t)))"

lemma timers_inv_cong:
  "timers_inv k \<Longrightarrow> hard k' = hard k \<Longrightarrow> soft k' = soft k \<Longrightarrow> tmrs k' = tmrs k \<Longrightarrow> now k' = now k \<Longrightarrow> timers_inv k'"
  by (simp add: timers_inv_def)

lemma tminv_frame:
  assumes "tminv k" "hard k' = hard k" "soft k' = soft k" "tmrs k' = tmrs k" "now k' = now k"
    and "\<And>t. stat k t = T_SUSPEND \<Longrightarrow> stat k' t = T_SUSPEND"
  shows "tminv k'"
  using assms timers_inv_cong [of k k'] by (simp add: tminv_def)

lemma tminv_stop:
  assumes "tminv k" "\<And>x. x \<noteq> t \<Longrightarrow> stat k' x = stat k x" "timers_inv k'"
    "hard k' = removeAll (TThread t) (hard k)"
    "\<And>x. tm_periodic (tmrs k' (TThread x)) = tm_periodic (tmrs k (TThread x))"
    "\<And>x. tm_soft (tmrs k' (TThread x)) = tm_soft (tmrs k (TThread x))"
  shows "tminv k'"
  using assms by (auto simp: tminv_def)

lemma tmrs_stop [simp]:
  "tm_periodic (tmrs (fst (rt_timer_stop m k)) x) = tm_periodic (tmrs k x)"
  "tm_soft (tmrs (fst (rt_timer_stop m k)) x) = tm_soft (tmrs k x)"
  by (simp_all add: rt_timer_stop_def)

text \<open>What a reschedule may change of a control block.\<close>

definition same_but_stat :: "tcb \<Rightarrow> tcb \<Rightarrow> bool" where
  "same_but_stat c d \<longleftrightarrow> d\<lparr>t_stat := t_stat c, t_yield := t_yield c, t_linked := t_linked c\<rparr> = c"

lemma same_but_stat_refl [simp]: "same_but_stat c c"
  by (simp add: same_but_stat_def)

lemma same_but_statD:
  "same_but_stat c d \<Longrightarrow> t_prio d = t_prio c \<and> t_error d = t_error c \<and> t_evset d = t_evset c \<and>
    t_evinfo d = t_evinfo c \<and> t_init_prio d = t_init_prio c \<and> t_mask d = t_mask c \<and> t_init_tick d = t_init_tick c \<and>
    t_remaining d = t_remaining c"
  by (cases c; cases d) (simp add: same_but_stat_def)

definition active_stat :: "tstat \<Rightarrow> bool" where
  "active_stat s \<longleftrightarrow> s = T_READY \<or> s = T_RUNNING"

text \<open>The frame of \<^verbatim>\<open>rt_schedule\<close>: it moves threads between ready and running, nothing else.\<close>

definition sched_frame :: "kern \<Rightarrow> kern \<Rightarrow> bool" where
  "sched_frame k k' \<longleftrightarrow> hard k' = hard k \<and> soft k' = soft k \<and> tmrs k' = tmrs k \<and> now k' = now k \<and>
     lock_nest k' = lock_nest k \<and> int_nest k' = int_nest k \<and>
     (\<forall>l. (\<forall>p. l \<noteq> LReady p) \<longrightarrow> lists k' l = lists k l) \<and>
     (\<forall>t. tcbs k' t = tcbs k t \<or>
        active_stat (stat k t) \<and> active_stat (stat k' t) \<and> same_but_stat (tcbs k t) (tcbs k' t))"

lemma sched_frame_refl [simp]: "sched_frame k k"
  by (simp add: sched_frame_def)

lemma sched_frameD:
  "sched_frame k k' \<Longrightarrow> tcbs k' t = tcbs k t \<or>
    active_stat (stat k t) \<and> active_stat (stat k' t) \<and> same_but_stat (tcbs k t) (tcbs k' t)"
  by (simp add: sched_frame_def)

lemma sched_frame_stat:
  "sched_frame k k' \<Longrightarrow> \<not> active_stat s \<Longrightarrow> stat k' t = s \<longleftrightarrow> stat k t = s"
  by (metis sched_frame_def)

lemma ready_only:
  "kinv k \<Longrightarrow> t \<in> set (lists k (LReady p)) \<Longrightarrow> (\<And>q. l \<noteq> LReady q) \<Longrightarrow> removeAll t (lists k l) = lists k l"
  by (rule removeAll_id) (metis kinvX_def lists_ok_def)

lemma ready_stat: "kinv k \<Longrightarrow> t \<in> set (lists k (LReady p)) \<Longrightarrow> stat k t = T_READY"
proof -
  assume k: "kinv k" and t: "t \<in> set (lists k (LReady p))"
  have "prio k t = p" "t_linked (tcbs k t)" using k t by (auto simp: kinvX_def ready_ok_def lists_ok_def)
  then show "stat k t = T_READY"
    using kinvX_thread [OF k, of t] t by (cases "stat k t") (simp_all add: thread_ok_def)
qed

lemma schedule_frame:
  assumes "kinv k" "cur k = Some c"
  shows "\<exists>k' c'. rt_schedule k = Some k' \<and> kinv k' \<and> cur k' = Some c' \<and> sched_frame k k'"
proof (cases "lock_nest k \<noteq> 0 \<or> ready_group k = 0")
  case True
  then show ?thesis using schedule_idle [OF True] assms by auto
next
  case False
  then have f: "lock_nest k = 0" "ready_group k \<noteq> 0" by auto
  obtain t p rest where top: "get_highest_priority_thread k = Some (t, p)" "lists k (LReady p) = t # rest"
    using get_highest [OF assms(1) f(2)] by blast
  have tr: "stat k t = T_READY" and ro: "\<And>l. (\<forall>q. l \<noteq> LReady q) \<Longrightarrow> removeAll t (lists k l) = lists k l"
    using ready_stat [OF assms(1), of t p] ready_only [OF assms(1), of t p] top(2) by auto
  show ?thesis
  proof (cases "stat k c = T_RUNNING")
    case run: True
    show ?thesis
    proof (cases "prio k c < p \<or> prio k c = p \<and> \<not> t_yield (tcbs k c)")
      case True
      from schedule_stay [OF assms f(1) top(1) f(2) run True] show ?thesis by (auto simp: sched_frame_def)
    next
      case False
      then have "p < prio k c \<or> prio k c = p \<and> t_yield (tcbs k c)" by auto
      from schedule_preempt [OF assms f(1) top(1) f(2) run this] show ?thesis
        using run tr ro by (fastforce simp: sched_frame_def active_stat_def same_but_stat_def)
    qed
  next
    case blocked: False
    from schedule_blocked [OF assms f(1) top(1) f(2) blocked] show ?thesis
      using tr ro by (fastforce simp: sched_frame_def active_stat_def same_but_stat_def)
  qed
qed

lemma tminv_sched: "tminv k \<Longrightarrow> sched_frame k k' \<Longrightarrow> tminv k'"
proof -
  assume a: "tminv k" "sched_frame k k'"
  show ?thesis
    by (rule tminv_frame [OF a(1)])
      (use a(2) sched_frame_stat [OF a(2), of T_SUSPEND] in \<open>auto simp: sched_frame_def active_stat_def\<close>)
qed

section \<open>Suspending and waking\<close>

lemma tcb_swap: "c\<lparr>t_linked := b, t_stat := s\<rparr> = c\<lparr>t_stat := s, t_linked := b\<rparr>"
  by simp

lemma wake_spec:
  assumes k: "kinv k" "stat k t = T_SUSPEND"
  shows "\<exists>k'. rt_schedule_insert_thread t (unlink t k) = Some k' \<and> kinv k' \<and> cur k' = cur k \<and>
    hard k' = hard k \<and> soft k' = soft k \<and> tmrs k' = tmrs k \<and> now k' = now k \<and>
    lock_nest k' = lock_nest k \<and> int_nest k' = int_nest k \<and>
    tcbs k' = (tcbs k)(t := (tcbs k t)\<lparr>t_stat := (if cur k = Some t then T_RUNNING else T_READY),
      t_linked := (cur k \<noteq> Some t)\<rparr>) \<and>
    (\<forall>l. lists k' l = removeAll t (lists k l) @
      (if cur k \<noteq> Some t \<and> l = LReady (prio k t) then [t] else []))"
proof -
  have th: "prio_ok (tcbs k t)" "t \<notin> set (lists k (LReady (prio k t)))"
    using kinvX_thread [OF k(1), of t] k(2) by (simp_all add: thread_ok_def)
  have l: "lists_ok k" using k(1) by (simp add: kinvX_def)
  have u: "kinvX {t} (unlink t k)"
    by (rule unlink_kinvX [OF kinvX_mono [OF k(1)]]) (use k(2) th(2) in auto)
  note ul = unlink_lists [OF l, of t]
  show ?thesis
  proof (cases "cur k = Some t")
    case True
    have "kinvX {t} (set_stat T_RUNNING t (unlink t k))"
      unfolding set_stat_def by (rule upd_kinvX [OF u]) (simp_all add: ul)
    then have "kinv (set_stat T_RUNNING t (unlink t k))"
      by (rule kinvX_discharge) (use th(1) True in \<open>simp add: thread_ok_def\<close>)
    then show ?thesis using True by (simp add: rt_schedule_insert_thread_def ul tcb_swap)
  next
    case False
    from insert_kinvX [OF u, of t] th(1) False obtain k' where
      "rt_schedule_insert_thread t (unlink t k) = Some k'" "kinvX ({t} - {t}) k'"
      "tcbs k' = (tcbs k)(t := (tcbs k t)\<lparr>t_linked := False, t_stat := T_READY, t_linked := True\<rparr>)"
      "lists k' = (lists (unlink t k))(LReady (prio k t) := lists (unlink t k) (LReady (prio k t)) @ [t])"
      "cur k' = cur k" "lock_nest k' = lock_nest k" "int_nest k' = int_nest k" "hard k' = hard k"
      "soft k' = soft k" "tmrs k' = tmrs k" "now k' = now k" by auto
    then show ?thesis using False by (simp add: ul)
  qed
qed

lemma suspend_spec:
  assumes k: "kinv k" "tminv k" "active_stat (stat k t)"
  shows "\<exists>k'. rt_thread_suspend t k = Some (k', RT_EOK) \<and> kinv k' \<and> tminv k' \<and> cur k' = cur k \<and>
    hard k' = removeAll (TThread t) (hard k) \<and> now k' = now k \<and> lock_nest k' = lock_nest k \<and>
    int_nest k' = int_nest k \<and>
    tcbs k' = (tcbs k)(t := (tcbs k t)\<lparr>t_linked := False, t_stat := T_SUSPEND\<rparr>) \<and>
    (\<forall>l. lists k' l = removeAll t (lists k l))"
proof -
  let ?k1 = "set_stat T_SUSPEND t (rt_schedule_remove_thread t k)"
  let ?k' = "fst (rt_timer_stop (TThread t) ?k1)"
  have l: "lists_ok k" "ready_ok k" using k(1) by (simp_all add: kinvX_def)
  have cr: "stat k t = T_RUNNING \<Longrightarrow> cur k = Some t"
    using kinvX_thread [OF k(1), of t] by (simp add: thread_ok_def)
  have p: "prio_ok (tcbs k t)"
    using kinvX_thread [OF k(1), of t] k(3) l(2)
    by (cases "stat k t") (auto simp: thread_ok_def active_stat_def ready_ok_def)
  have r: "kinvX {t} (rt_schedule_remove_thread t k)"
    by (rule remove_kinvX [OF kinvX_mono [OF k(1)] _ p]) simp_all
  have "kinvX {t} ?k1"
    unfolding set_stat_def by (rule upd_kinvX [OF r]) (simp_all add: remove_lists [OF l(1)])
  then have k1: "kinv ?k1"
    by (rule kinvX_discharge) (use p in \<open>simp add: thread_ok_def remove_lists [OF l(1)]\<close>)
  have i1: "timers_inv ?k1" by (rule timers_inv_cong [of k]) (use k(2) in \<open>simp_all add: tminv_def\<close>)
  have h: "hard ?k' = removeAll (TThread t) (hard k)" using timers_inv_stop_hard [OF i1, of "TThread t"] by simp
  have "kinv ?k'" by (rule kinvX_cong [OF k1]) simp_all
  moreover have "tminv ?k'"
    by (rule tminv_stop [OF k(2), of t]) (use h rt_timer_stop_inv [OF i1] in simp_all)
  moreover have "rt_thread_suspend t k = Some (?k', RT_EOK)"
    using k(3) cr by (auto simp: rt_thread_suspend_def active_stat_def)
  ultimately show ?thesis using h by (simp add: remove_lists [OF l(1)])
qed

lemma resume_spec:
  assumes k: "kinv k" "tminv k" "stat k t = T_SUSPEND"
  shows "\<exists>k'. rt_thread_resume t k = Some (k', RT_EOK) \<and> kinv k' \<and> tminv k' \<and> cur k' = cur k \<and>
    hard k' = removeAll (TThread t) (hard k) \<and> now k' = now k \<and> lock_nest k' = lock_nest k \<and>
    int_nest k' = int_nest k \<and>
    tcbs k' = (tcbs k)(t := (tcbs k t)\<lparr>t_stat := (if cur k = Some t then T_RUNNING else T_READY),
      t_linked := (cur k \<noteq> Some t)\<rparr>) \<and>
    (\<forall>l. lists k' l = removeAll t (lists k l) @
      (if cur k \<noteq> Some t \<and> l = LReady (prio k t) then [t] else []))"
proof -
  let ?k1 = "fst (rt_timer_stop (TThread t) k)"
  have i: "timers_inv k" using k(2) by (simp add: tminv_def)
  have h: "hard ?k1 = removeAll (TThread t) (hard k)" using timers_inv_stop_hard [OF i] by simp
  have k1: "kinv ?k1" "stat ?k1 t = T_SUSPEND" using kinvX_cong [OF k(1), of ?k1] k(3) by simp_all
  have c: "fst (rt_timer_stop (TThread t) (unlink t k)) = unlink t ?k1"
    by (simp add: rt_timer_stop_def unlink_def upd_tcb_def upd_tmr_def timer_remove_def)
  from wake_spec [OF k1] obtain k' where
    k': "rt_schedule_insert_thread t (unlink t ?k1) = Some k'" "kinv k'" "cur k' = cur k" "hard k' = hard ?k1"
    "soft k' = soft ?k1" "tmrs k' = tmrs ?k1" "now k' = now k" "lock_nest k' = lock_nest k" "int_nest k' = int_nest k"
    "tcbs k' = (tcbs k)(t := (tcbs k t)\<lparr>t_stat := (if cur k = Some t then T_RUNNING else T_READY),
      t_linked := (cur k \<noteq> Some t)\<rparr>)"
    "\<forall>l. lists k' l = removeAll t (lists k l) @ (if cur k \<noteq> Some t \<and> l = LReady (prio k t) then [t] else [])"
    by auto
  have "timers_inv k'" by (rule timers_inv_cong [OF rt_timer_stop_inv [OF i]]) (use k' in simp_all)
  then have "tminv k'"
    by (rule_tac tminv_stop [OF k(2), of t]) (use h k' in simp_all)
  then show ?thesis using k' h k(3) c by (simp add: rt_thread_resume_def)
qed

lemma arm_spec:
  assumes k: "kinv k" "tminv k" "stat k t = T_SUSPEND" "tick < half_range"
  shows "\<exists>k'. thread_timer_arm t tick k = Some k' \<and> kinv k' \<and> tminv k' \<and> tcbs k' = tcbs k \<and> lists k' = lists k \<and>
    cur k' = cur k \<and> lock_nest k' = lock_nest k \<and> int_nest k' = int_nest k \<and> now k' = now k \<and>
    set (hard k') = insert (TThread t) (set (hard k)) \<and>
    tm_timeout (tmrs k' (TThread t)) = now k + tick \<and>
    (\<forall>m. m \<noteq> TThread t \<longrightarrow> tmrs k' m = tmrs k m)"
proof -
  let ?k1 = "upd_tmr (TThread t) (\<lambda>m. m\<lparr>tm_init := tick\<rparr>) k"
  have i0: "timers_inv k" using k(2) by (simp add: tminv_def)
  have "window_sorted (tmrs ?k1) (now k) (hard k) = window_sorted (tmrs k) (now k) (hard k)"
    by (rule window_sorted_cong) simp
  then have i: "timers_inv ?k1" using i0 by (auto simp: timers_inv_def)
  have f: "tm_init (tmrs ?k1 (TThread t)) < half_range" "\<not> tm_soft (tmrs ?k1 (TThread t))"
    using k(2,4) by (simp_all add: tminv_def)
  from timer_start_spec [OF f(1)] obtain k' where
    k': "timer_start (TThread t) ?k1 = Some k'" "now k' = now k"
    "tmrs k' = (tmrs ?k1)(TThread t := (tmrs ?k1 (TThread t))\<lparr>tm_timeout := now k + tick, tm_active := True\<rparr>)"
    "set (hard k') = insert (TThread t) (set (hard k))"
    using f(2) by auto
  note kk = timer_start_kern [OF k'(1)]
  have "kinv k'" by (rule kinvX_cong [OF k(1)]) (use kk in simp_all)
  moreover have "tminv k'"
    using k(2,3) k'(3,4) kk timer_start_inv [OF i k'(1)] by (auto simp: tminv_def)
  moreover have "thread_timer_arm t tick k = Some k'"
    using k'(1) by (simp add: thread_timer_arm_def rt_timer_control_def)
  ultimately show ?thesis using k' kk by simp
qed

section \<open>Sleeping\<close>

text \<open>The common pattern of every blocking call: suspend, arm the timer, reschedule.\<close>

lemma sleep_spec:
  assumes k: "kinv k" "tminv k" "cur k = Some t" "stat k t = T_RUNNING" "tick < half_range"
  shows "\<exists>k'. rt_thread_sleep tick k = Some k' \<and> kinv k' \<and> tminv k' \<and> cur k' \<noteq> None \<and> stat k' t = T_SUSPEND \<and>
    set (hard k') = insert (TThread t) (set (hard k)) \<and> tm_timeout (tmrs k' (TThread t)) = now k + tick \<and>
    now k' = now k \<and> (\<forall>m. m \<noteq> TThread t \<longrightarrow> tm_timeout (tmrs k' m) = tm_timeout (tmrs k m))"
proof -
  have "active_stat (stat k t)" using k(4) by (simp add: active_stat_def)
  from suspend_spec [OF k(1,2) this] obtain k1 where
    k1: "rt_thread_suspend t k = Some (k1, RT_EOK)" "kinv k1" "tminv k1" "cur k1 = Some t" "now k1 = now k"
    "stat k1 t = T_SUSPEND" "hard k1 = removeAll (TThread t) (hard k)" using k(3) by auto
  have st: "tm_timeout (tmrs k1 m) = tm_timeout (tmrs k m)" for m
    using k1(1) by (auto simp: rt_thread_suspend_def rt_timer_stop_def split: if_splits)
  from arm_spec [OF k1(2,3,6) k(5)] obtain k2 where
    k2: "thread_timer_arm t tick k1 = Some k2" "kinv k2" "tminv k2" "cur k2 = Some t" "stat k2 t = T_SUSPEND"
    "set (hard k2) = insert (TThread t) (set (hard k1))" "tm_timeout (tmrs k2 (TThread t)) = now k + tick"
    "now k2 = now k" "\<forall>m. m \<noteq> TThread t \<longrightarrow> tmrs k2 m = tmrs k1 m"
    using k1(4-6) by auto
  from schedule_frame [OF k2(2,4)] obtain k' c' where
    k': "rt_schedule k2 = Some k'" "kinv k'" "cur k' = Some c'" "sched_frame k2 k'" by blast
  have "stat k' t = T_SUSPEND" using sched_frame_stat [OF k'(4), of T_SUSPEND] k2(5) by (simp add: active_stat_def)
  then show ?thesis
    using k(3) k1 k2 k' st tminv_sched [OF k2(3) k'(4)]
    by (auto simp: rt_thread_sleep_def sched_frame_def)
qed

text \<open>What one due thread timer does.\<close>

lemma timeout_spec:
  assumes k: "kinv k" "cur k = Some c" "stat k t = T_SUSPEND"
  shows "\<exists>k' c'. rt_thread_timeout t k = Some k' \<and> kinv k' \<and> cur k' = Some c' \<and>
    hard k' = hard k \<and> soft k' = soft k \<and> tmrs k' = tmrs k \<and> now k' = now k \<and>
    active_stat (stat k' t) \<and> t_error (tcbs k' t) = RT_ETIMEOUT \<and>
    (\<forall>x. x \<noteq> t \<longrightarrow> tcbs k' x = tcbs k x \<or>
       active_stat (stat k x) \<and> active_stat (stat k' x) \<and> same_but_stat (tcbs k x) (tcbs k' x)) \<and>
    (\<forall>l. (\<forall>p. l \<noteq> LReady p) \<longrightarrow> lists k' l = removeAll t (lists k l))"
proof -
  let ?k1 = "upd_tcb t (\<lambda>c. c\<lparr>t_error := RT_ETIMEOUT\<rparr>) k"
  have k1: "kinv ?k1" by (rule upd_same_kinvX [OF k(1)]) simp_all
  from wake_spec [OF k1, of t] k(3) obtain k2 where
    k2: "rt_schedule_insert_thread t (unlink t ?k1) = Some k2" "kinv k2" "cur k2 = Some c" "hard k2 = hard k"
    "soft k2 = soft k" "tmrs k2 = tmrs k" "now k2 = now k"
    "tcbs k2 = (tcbs ?k1)(t := (tcbs ?k1 t)\<lparr>t_stat := (if cur k = Some t then T_RUNNING else T_READY),
      t_linked := (cur k \<noteq> Some t)\<rparr>)"
    "\<forall>l. lists k2 l = removeAll t (lists k l) @ (if cur k \<noteq> Some t \<and> l = LReady (prio k t) then [t] else [])"
    using k(2) by auto
  from schedule_frame [OF k2(2,3)] obtain k' c' where
    k': "rt_schedule k2 = Some k'" "kinv k'" "cur k' = Some c'" "sched_frame k2 k'" by blast
  have a: "active_stat (stat k2 t)" "t_error (tcbs k2 t) = RT_ETIMEOUT" by (simp_all add: k2(8) active_stat_def)
  then have "active_stat (stat k' t)" "t_error (tcbs k' t) = RT_ETIMEOUT"
    using k'(4) by (auto simp: sched_frame_def dest: same_but_statD) (metis same_but_statD)+
  moreover have "tcbs k' x = tcbs k x \<or>
       active_stat (stat k x) \<and> active_stat (stat k' x) \<and> same_but_stat (tcbs k x) (tcbs k' x)" if "x \<noteq> t" for x
  proof -
    have "tcbs k2 x = tcbs k x" using k2(8) that by simp
    then show ?thesis using sched_frameD [OF k'(4), of x] by simp
  qed
  ultimately show ?thesis using k k2 k' by (simp add: rt_thread_timeout_def sched_frame_def)
qed

section \<open>The tick interrupt\<close>

definition thread_timers_only :: "kern \<Rightarrow> bool" where
  "thread_timers_only k \<longleftrightarrow> (\<forall>m \<in> set (hard k). case m of TThread t \<Rightarrow> True | TUser n \<Rightarrow> False)"

text \<open>
  What serving the timers does to thread \<open>t\<close>, given whether its timer was due: it is woken and
  taken off the list it waits on, or it is left as it is.
\<close>

fun wait_list :: "lid \<Rightarrow> bool" where
  "wait_list (LSuspend _) = True"
| "wait_list (LSender _) = True"
| "wait_list (LReady _) = False"
| "wait_list LDefunct = False"

definition woken :: "bool \<Rightarrow> kern \<Rightarrow> kern \<Rightarrow> tid \<Rightarrow> bool" where
  "woken was_due k k' t \<longleftrightarrow>
     (if was_due then active_stat (stat k' t) \<and> t_error (tcbs k' t) = RT_ETIMEOUT \<and> TThread t \<notin> set (hard k') \<and>
        (\<forall>l. wait_list l \<longrightarrow> t \<notin> set (lists k' l))
      else (stat k' t = stat k t \<or> active_stat (stat k t) \<and> active_stat (stat k' t)) \<and> t_error (tcbs k' t) = t_error (tcbs k t) \<and>
        (TThread t \<in> set (hard k') \<longleftrightarrow> TThread t \<in> set (hard k)) \<and> tmrs k' (TThread t) = tmrs k (TThread t) \<and>
        (\<forall>l. wait_list l \<longrightarrow> (t \<in> set (lists k' l) \<longleftrightarrow> t \<in> set (lists k l))))"

lemma fire_thread:
  assumes k: "kinv k" "tminv k" "cur k = Some c" and h: "hard k = TThread t # l"
  shows "\<exists>k' c'. timer_fire (timeout_func user) (TThread t) k = Some k' \<and> kinv k' \<and> tminv k' \<and> cur k' = Some c' \<and>
    hard k' = l \<and> now k' = now k \<and> (\<forall>x. woken (x = t) k k' x) \<and> (\<forall>m. m \<noteq> TThread t \<longrightarrow> tmrs k' m = tmrs k m)"
proof -
  let ?k1 = "timer_remove (TThread t) k"
  have i: "timers_inv k" using k(2) by (simp add: tminv_def)
  have t: "TThread t \<notin> set l" "removeAll (TThread t) (hard k) = l" "TThread t \<notin> set (soft k)"
    using i h k(2) by (auto simp: timers_inv_def tminv_def)
  have st: "stat k t = T_SUSPEND" using k(2) h by (simp add: tminv_def)
  have k1: "kinv ?k1" by (rule kinvX_cong [OF k(1)]) simp_all
  from timeout_spec [OF k1, of c t] k(3) st obtain k2 c' where
    k2: "rt_thread_timeout t ?k1 = Some k2" "kinv k2" "cur k2 = Some c'" "hard k2 = l" "soft k2 = soft ?k1"
    "tmrs k2 = tmrs k" "now k2 = now k" "active_stat (stat k2 t)" "t_error (tcbs k2 t) = RT_ETIMEOUT"
    "\<forall>x. x \<noteq> t \<longrightarrow> tcbs k2 x = tcbs k x \<or>
       active_stat (stat k x) \<and> active_stat (stat k2 x) \<and> same_but_stat (tcbs k x) (tcbs k2 x)"
    "\<forall>l. (\<forall>p. l \<noteq> LReady p) \<longrightarrow> lists k2 l = removeAll t (lists k l)"
    using t(2) by auto
  have wl: "lists k2 l = removeAll t (lists k l)" if "wait_list l" for l
    using k2(11) that by (cases l) auto
  let ?k' = "upd_tmr (TThread t) (\<lambda>m. m\<lparr>tm_active := False\<rparr>) k2"
  have "kinv ?k'" by (rule kinvX_cong [OF k2(2)]) simp_all
  moreover have "timers_inv k2"
    by (rule timers_inv_cong [OF timer_remove_inv [OF i, of "TThread t"]]) (use k2 t in simp_all)
  then have "timers_inv ?k'" by (rule upd_unlinked_inv) (use k2 t in auto)
  moreover have other: "stat k2 x = stat k x \<or> active_stat (stat k x) \<and> active_stat (stat k2 x)"
    "t_error (tcbs k2 x) = t_error (tcbs k x)" if "x \<noteq> t" for x
    using k2(10) that by (auto dest: same_but_statD)
  have susp: "stat k2 x = T_SUSPEND" if "x \<noteq> t" "stat k x = T_SUSPEND" for x
    using other(1) [OF that(1)] that(2) by (simp add: active_stat_def)
  have "stat k2 x = T_SUSPEND" if "TThread x \<in> set l" for x
  proof (rule susp)
    show "x \<noteq> t" using that t(1) by auto
    show "stat k x = T_SUSPEND" using that k(2) h by (simp add: tminv_def)
  qed
  then have "tminv ?k'"
    using \<open>timers_inv ?k'\<close> k(2) by (simp add: tminv_def k2(4,6))
  moreover have "timer_fire (timeout_func user) (TThread t) k = Some ?k'"
    using k2(1,6) k(2) by (simp add: timer_fire_def timeout_func_def tminv_def)
  moreover have "woken (x = t) k ?k' x" for x
    using k2(4,6,8,9) t(1) h other wl by (auto simp: woken_def)
  ultimately show ?thesis using k2(3,4,6,7) by auto
qed

lemma woken_step:
  assumes "woken (x = t) k k1 x" "woken b1 k1 k' x" "t = x \<longrightarrow> \<not> b1"
  shows "woken (x = t \<or> b1) k k' x"
  using assms unfolding woken_def active_stat_def
  by (cases "x = t"; cases b1; auto)

lemma woken_pre:
  assumes "woken b k1 k' t" "\<And>l. wait_list l \<Longrightarrow> lists k1 l = lists k l" "hard k1 = hard k" "tmrs k1 = tmrs k" "t_error (tcbs k1 t) = t_error (tcbs k t)"
    "stat k1 t = stat k t \<or> active_stat (stat k t) \<and> active_stat (stat k1 t)"
  shows "woken b k k' t"
  using assms by (cases b) (auto simp: woken_def)

lemma check_threads:
  assumes "kinv k" "tminv k" "cur k = Some c" "thread_timers_only k"
  shows "\<exists>k' c'. timer_check_loop (timeout_func user) (now k) k = Some k' \<and> kinv k' \<and> tminv k' \<and>
    cur k' = Some c' \<and> now k' = now k \<and> due k' = [] \<and> thread_timers_only k' \<and>
    (\<forall>t. woken (TThread t \<in> set (due k)) k k' t)"
  using assms
proof (induction "length (due k)" arbitrary: k c rule: less_induct)
  case less
  have i: "timers_inv k" using less.prems(2) by (simp add: tminv_def)
  show ?case
  proof (cases "due k")
    case Nil
    then show ?thesis using timer_check_idle [OF i Nil] less.prems by (auto simp: woken_def)
  next
    case (Cons m0 ds0)
    then obtain m l where h0: "hard k = m # l" by (cases "hard k") (auto simp: due_def)
    then obtain t where h: "hard k = TThread t # l"
      using less.prems(4) by (cases m) (auto simp: thread_timers_only_def)
    have d: "tm_timeout (tmrs k (TThread t)) = now k"
      using due_none [OF i h] Cons by fastforce
    have du: "timer_due (now k) (tmrs k (TThread t))" using timer_due_now [OF i] h d by simp
    have t: "TThread t \<notin> set l" using i h by (simp add: timers_inv_def)
    obtain k1 c1 where k1: "timer_fire (timeout_func user) (TThread t) k = Some k1" "kinv k1" "tminv k1"
      "cur k1 = Some c1" "hard k1 = l" "now k1 = now k" "\<forall>x. woken (x = t) k k1 x"
      "\<forall>m. m \<noteq> TThread t \<longrightarrow> tmrs k1 m = tmrs k m"
      using fire_thread [OF less.prems(1-3) h] by blast
    have "tmrs k1 x = tmrs k x" if "x \<in> set l" for x using that t k1(8) by metis
    then have "due k1 = filter (\<lambda>x. tm_timeout (tmrs k x) = now k) l"
      by (auto simp: due_def k1(5,6) intro!: filter_cong)
    then have ds: "due k = TThread t # due k1" using h d by (simp add: due_def)
    have t1: "TThread t \<notin> set (due k1)" using t k1(5) by (simp add: due_def)
    have "thread_timers_only k1" using less.prems(4) h k1(5) by (simp add: thread_timers_only_def)
    from less.hyps [OF _ k1(2-4) this] ds obtain k' c' where
      k': "timer_check_loop (timeout_func user) (now k1) k1 = Some k'" "kinv k'" "tminv k'" "cur k' = Some c'"
      "now k' = now k1" "due k' = []" "thread_timers_only k'" "\<forall>t. woken (TThread t \<in> set (due k1)) k1 k' t"
      by auto
    have "woken (TThread x \<in> set (due k)) k k' x" for x
      using woken_step [of x t k k1 "TThread x \<in> set (due k1)" k'] k1(7) k'(8) t1 ds by auto
    moreover have "timer_check_loop (timeout_func user) (now k) k = Some k'"
      using timer_check_step [OF h du k1(1)] k'(1) by simp
    ultimately show ?thesis using k' k1(6) by auto
  qed
qed

definition tick_ok :: "kern \<Rightarrow> bool" where
  "tick_ok k \<longleftrightarrow> kinv k \<and> tminv k \<and> cur k \<noteq> None \<and> due k = [] \<and> thread_timers_only k"

lemma tick_spec:
  assumes "tick_ok k"
  shows "\<exists>k'. rt_tick_increase user k = Some k' \<and> tick_ok k' \<and> now k' = now k + 1 \<and>
    (\<forall>t. woken (TThread t \<in> set (hard k) \<and> tm_timeout (tmrs k (TThread t)) = now k + 1) k k' t)"
proof -
  obtain c where k: "kinv k" "tminv k" "cur k = Some c" "due k = []" "thread_timers_only k"
    using assms by (auto simp: tick_ok_def)
  let ?k1 = "k\<lparr>now := now k + 1\<rparr>"
  let ?k2 = "upd_tcb c (\<lambda>c. c\<lparr>t_remaining := t_remaining c - 1\<rparr>) ?k1"
  let ?k2' = "upd_tcb c (\<lambda>c. c\<lparr>t_remaining := t_init_tick c, t_yield := True\<rparr>) ?k2"
  have "kinv ?k1" by (rule kinvX_cong [OF k(1)]) simp_all
  then have k2: "kinv ?k2" by (rule upd_same_kinvX) simp_all
  then have k2': "kinv ?k2'" by (rule upd_same_kinvX) simp_all
  have "timers_inv ?k1" using timers_inv_tick [OF _ k(4)] k(2) by (simp add: tminv_def)
  then have t2: "tminv ?k2" "tminv ?k2'" using k(2) by (auto simp: tminv_def timers_inv_def)
  obtain k3 c3 where k3: "(if t_remaining (tcbs ?k2 c) = 0 then rt_thread_yield ?k2' else Some ?k2) = Some k3"
    "kinv k3" "tminv k3" "cur k3 = Some c3" "hard k3 = hard k" "tmrs k3 = tmrs k" "now k3 = now k + 1"
    "\<forall>t. (stat k3 t = stat k t \<or> active_stat (stat k t) \<and> active_stat (stat k3 t)) \<and>
      t_error (tcbs k3 t) = t_error (tcbs k t)" "\<forall>l. wait_list l \<longrightarrow> lists k3 l = lists k l"
  proof (cases "t_remaining (tcbs ?k2 c) = 0")
    case False
    then show ?thesis using that [of ?k2 c] k2 t2 k(3) by simp
  next
    case True
    from schedule_frame [OF k2', of c] k(3) obtain k3 c3 where
      k3: "rt_schedule ?k2' = Some k3" "kinv k3" "cur k3 = Some c3" "sched_frame ?k2' k3" by auto
    have "(stat k3 t = stat k t \<or> active_stat (stat k t) \<and> active_stat (stat k3 t)) \<and>
      t_error (tcbs k3 t) = t_error (tcbs k t)" for t
      using sched_frameD [OF k3(4), of t] same_but_statD [of "tcbs ?k2' t" "tcbs k3 t"]
      by (cases "t = c") auto
    moreover have "lists k3 l = lists k l" if "wait_list l" for l
      using k3(4) that by (cases l) (auto simp: sched_frame_def)
    ultimately show ?thesis
      using that [of k3 c3] k3 True tminv_sched [OF t2(2) k3(4)]
      by (simp add: rt_thread_yield_def sched_frame_def)
  qed
  have "thread_timers_only k3" using k(5) k3(5) by (simp add: thread_timers_only_def)
  from check_threads [OF k3(2-4) this] obtain k' c' where
    k': "timer_check_loop (timeout_func user) (now k3) k3 = Some k'" "kinv k'" "tminv k'" "cur k' = Some c'"
    "now k' = now k3" "due k' = []" "thread_timers_only k'" "\<forall>t. woken (TThread t \<in> set (due k3)) k3 k' t" by blast
  have "woken (TThread t \<in> set (hard k) \<and> tm_timeout (tmrs k (TThread t)) = now k + 1) k k' t" for t
  proof -
    have due3: "(TThread t \<in> set (due k3)) =
        (TThread t \<in> set (hard k) \<and> tm_timeout (tmrs k (TThread t)) = now k + 1)"
      using k3(5-7) by (simp add: due_def)
    have "woken (TThread t \<in> set (due k3)) k3 k' t" using k'(8) by (rule spec)
    then have "woken (TThread t \<in> set (hard k) \<and> tm_timeout (tmrs k (TThread t)) = now k + 1) k3 k' t"
      unfolding due3 .
    then show ?thesis by (rule woken_pre) (use k3(5,6,8,9) in auto)
  qed
  moreover have "rt_tick_increase user k = Some k'"
    using k(3) k3(1) k'(1) by (simp add: rt_tick_increase_def Let_def rt_timer_check_def)
  ultimately show ?thesis using k' k3(7) by (auto simp: tick_ok_def)
qed

section \<open>Properties\<close>

fun rt_ticks :: "nat \<Rightarrow> (nat \<Rightarrow> kern \<Rightarrow> kern option) \<Rightarrow> kern \<Rightarrow> kern option" where
  "rt_ticks 0 user k = Some k"
| "rt_ticks (Suc n) user k = do { k1 \<leftarrow> rt_tick_increase user k; rt_ticks n user k1 }"

lemma ticks_wake:
  assumes "tick_ok k"
    and "if TThread t \<in> set (hard k) then stat k t = T_SUSPEND \<and> d = tdist (now k) (tm_timeout (tmrs k (TThread t)))
      else active_stat (stat k t) \<and> t_error (tcbs k t) = RT_ETIMEOUT \<and> d = 0"
  shows "\<exists>k'. rt_ticks m user k = Some k' \<and> tick_ok k' \<and>
    (if m < d then stat k' t = T_SUSPEND else active_stat (stat k' t) \<and> t_error (tcbs k' t) = RT_ETIMEOUT)"
  using assms
proof (induction m arbitrary: k d)
  case 0
  have "TThread t \<in> set (hard k) \<Longrightarrow> 0 < d"
    using 0 tdist_inj [of "now k" "tm_timeout (tmrs k (TThread t))" "now k"]
    by (fastforce simp: tick_ok_def due_def filter_empty_conv)
  then show ?case using 0 by (auto split: if_splits)
next
  case (Suc m)
  from tick_spec [OF Suc.prems(1)] obtain k1 where k1: "rt_tick_increase user k = Some k1" "tick_ok k1"
    "now k1 = now k + 1"
    "woken (TThread t \<in> set (hard k) \<and> tm_timeout (tmrs k (TThread t)) = now k + 1) k k1 t" by blast
  show ?case
  proof (cases "TThread t \<in> set (hard k)")
    case False
    then have "TThread t \<notin> set (hard k1)" "active_stat (stat k1 t)" "t_error (tcbs k1 t) = RT_ETIMEOUT" "d = 0"
      using k1(4) Suc.prems(2) by (auto simp: woken_def)
    then show ?thesis using Suc.IH [OF k1(2), of 0] k1(1) by simp
  next
    case in_hard: True
    then have d: "stat k t = T_SUSPEND" "d = tdist (now k) (tm_timeout (tmrs k (TThread t)))"
      using Suc.prems(2) by auto
    show ?thesis
    proof (cases "tm_timeout (tmrs k (TThread t)) = now k + 1")
      case True
      then have "d = 1" using d(2) by (simp add: tdist_later)
      then show ?thesis using Suc.IH [OF k1(2), of 0] k1(1,4) in_hard True by (simp add: woken_def)
    next
      case False
      have "0 < d" using Suc.prems(1) in_hard d(2) tdist_inj [of "now k" "tm_timeout (tmrs k (TThread t))" "now k"]
        by (fastforce simp: tick_ok_def due_def filter_empty_conv)
      then have "tdist (now k1) (tm_timeout (tmrs k (TThread t))) = d - 1"
        using tdist_tick [of "now k" "tm_timeout (tmrs k (TThread t))"] k1(3) d(2) by simp
      moreover have "TThread t \<in> set (hard k1)" "stat k1 t = T_SUSPEND"
        "tmrs k1 (TThread t) = tmrs k (TThread t)"
        using k1(4) False in_hard d(1) by (auto simp: woken_def active_stat_def)
      ultimately show ?thesis using Suc.IH [OF k1(2), of "d - 1"] k1(1) \<open>0 < d\<close> by auto
    qed
  qed
qed

lemma sleep_tick_ok:
  assumes "tick_ok k" "cur k = Some t" "stat k t = T_RUNNING" "n < half_range" "0 < n"
  shows "\<exists>k1. rt_thread_sleep n k = Some k1 \<and> tick_ok k1 \<and> TThread t \<in> set (hard k1) \<and> stat k1 t = T_SUSPEND \<and>
    tdist (now k1) (tm_timeout (tmrs k1 (TThread t))) = unat n"
proof -
  from sleep_spec [of k t n] assms obtain k1 where
    k1: "rt_thread_sleep n k = Some k1" "kinv k1" "tminv k1" "cur k1 \<noteq> None" "stat k1 t = T_SUSPEND"
    "set (hard k1) = insert (TThread t) (set (hard k))" "tm_timeout (tmrs k1 (TThread t)) = now k + n"
    "now k1 = now k" "\<forall>m. m \<noteq> TThread t \<longrightarrow> tm_timeout (tmrs k1 m) = tm_timeout (tmrs k m)"
    by (auto simp: tick_ok_def)
  have "now k + n \<noteq> now k" using assms(5) by auto
  then have "tm_timeout (tmrs k1 m) \<noteq> now k1" if "m \<in> set (hard k1)" for m
    using that assms(1) k1(6-9) by (cases "m = TThread t") (auto simp: tick_ok_def due_def filter_empty_conv)
  then have "due k1 = []" by (auto simp: due_def filter_empty_conv)
  then show ?thesis using k1 assms(1) by (auto simp: tick_ok_def thread_timers_only_def tdist_later)
qed

text \<open>C3. The tick interrupt never fails an assertion and returns: with only thread timers pending
  it keeps the kernel invariants, wakes exactly the threads whose timers expire at this tick,
  with the timeout error, and leaves every other thread's state (up to running or ready),
  error and timer as they were. The functions of user timers are an arbitrary argument.\<close>

theorem tick_interrupt:
  assumes "tick_ok k"
  shows "\<exists>k'. rt_tick_increase user k = Some k' \<and> tick_ok k' \<and> now k' = now k + 1 \<and>
    (\<forall>t. woken (TThread t \<in> set (hard k) \<and> tm_timeout (tmrs k (TThread t)) = now k + 1) k k' t)"
  using tick_spec [OF assms] .

lemma kern_example_tick_ok: "tick_ok kern_example"
proof -
  have "tminv kern_example" by (simp add: tminv_def timers_inv_def kern_example_def)
  then show ?thesis using kern_example_inv
    by (simp add: tick_ok_def due_def thread_timers_only_def kern_example_def)
qed

theorem tick_interrupt_witness:
  "\<exists>k'. rt_tick_increase (\<lambda>_. Some) kern_example = Some k' \<and> tick_ok k' \<and> now k' = 101"
  using tick_interrupt [OF kern_example_tick_ok, of "\<lambda>_. Some"] by (auto simp: kern_example_def)

text \<open>C5. \<^verbatim>\<open>rt_thread_sleep\<close> sleeps exactly as long as asked: the caller is suspended, and after
  \<open>m\<close> ticks (whatever else the tick interrupt does) it is still suspended if \<open>m\<close> is smaller
  than the requested number, and ready or running with the timeout error otherwise.\<close>

theorem sleep_exact:
  assumes "tick_ok k" "cur k = Some t" "stat k t = T_RUNNING" "n < half_range" "0 < n"
  shows "\<exists>k1 k2. rt_thread_sleep n k = Some k1 \<and> stat k1 t = T_SUSPEND \<and> rt_ticks m user k1 = Some k2 \<and>
    (if m < unat n then stat k2 t = T_SUSPEND
     else active_stat (stat k2 t) \<and> t_error (tcbs k2 t) = RT_ETIMEOUT)"
proof -
  obtain k1 where k1: "rt_thread_sleep n k = Some k1" "tick_ok k1" "TThread t \<in> set (hard k1)" "stat k1 t = T_SUSPEND"
    "tdist (now k1) (tm_timeout (tmrs k1 (TThread t))) = unat n"
    using sleep_tick_ok [OF assms] by blast
  then show ?thesis using ticks_wake [OF k1(2), of t "unat n" m user] by auto
qed

theorem sleep_exact_witness:
  "(\<exists>k1 k2. rt_thread_sleep 3 kern_example = Some k1 \<and> rt_ticks 2 (\<lambda>_. Some) k1 = Some k2 \<and>
     stat k2 1 = T_SUSPEND) \<and>
   (\<exists>k1 k2. rt_thread_sleep 3 kern_example = Some k1 \<and> rt_ticks 3 (\<lambda>_. Some) k1 = Some k2 \<and>
     active_stat (stat k2 1))"
proof -
  have k: "cur kern_example = Some 1" "stat kern_example 1 = T_RUNNING" "(3 :: 32 word) < half_range" "0 < (3 :: 32 word)"
    by (simp_all add: kern_example_def tcb_at_def word_less_nat_alt)
  show ?thesis
    using sleep_exact [OF kern_example_tick_ok k, of 2 "\<lambda>_. Some"]
      sleep_exact [OF kern_example_tick_ok k, of 3 "\<lambda>_. Some"] by auto
qed

text \<open>C36. Suspending a ready thread and resuming it succeeds, keeps the invariants, and puts it
  behind the other threads of its priority, in ready state; in any other state than suspended
  \<^verbatim>\<open>rt_thread_resume\<close> reports an error and changes nothing.\<close>

theorem suspend_resume:
  assumes "kinv k" "tminv k" "stat k t = T_READY" "cur k \<noteq> Some t"
  shows "\<exists>k1 k2. rt_thread_suspend t k = Some (k1, RT_EOK) \<and> stat k1 t = T_SUSPEND \<and>
    rt_thread_suspend t k1 = Some (k1, RT_ERROR) \<and>
    rt_thread_resume t k1 = Some (k2, RT_EOK) \<and> kinv k2 \<and> tminv k2 \<and> stat k2 t = T_READY \<and>
    lists k2 (LReady (prio k t)) = removeAll t (lists k (LReady (prio k t))) @ [t] \<and>
    rt_thread_resume t k2 = Some (k2, RT_ERROR)"
proof -
  have "active_stat (stat k t)" using assms(3) by (simp add: active_stat_def)
  from suspend_spec [OF assms(1,2) this] obtain k1 where
    k1: "rt_thread_suspend t k = Some (k1, RT_EOK)" "kinv k1" "tminv k1" "cur k1 = cur k"
    "tcbs k1 = (tcbs k)(t := (tcbs k t)\<lparr>t_linked := False, t_stat := T_SUSPEND\<rparr>)"
    "\<forall>l. lists k1 l = removeAll t (lists k l)" by blast
  have s: "stat k1 t = T_SUSPEND" "prio k1 t = prio k t" using k1(5) by simp_all
  from resume_spec [OF k1(2,3) s(1)] obtain k2 where
    k2: "rt_thread_resume t k1 = Some (k2, RT_EOK)" "kinv k2" "tminv k2"
    "tcbs k2 = (tcbs k1)(t := (tcbs k1 t)\<lparr>t_stat := (if cur k1 = Some t then T_RUNNING else T_READY),
      t_linked := (cur k1 \<noteq> Some t)\<rparr>)"
    "\<forall>l. lists k2 l = removeAll t (lists k1 l) @
      (if cur k1 \<noteq> Some t \<and> l = LReady (prio k1 t) then [t] else [])" by blast
  have r: "stat k2 t = T_READY" using k2(4) k1(4) assms(4) by simp
  have l: "lists k2 (LReady (prio k t)) = removeAll t (lists k (LReady (prio k t))) @ [t]"
    using k2(5) k1(4,6) assms(4) s(2) by simp
  show ?thesis using k1(1) s(1) k2(1-3) r l
    by (auto simp: rt_thread_suspend_def [of t k1] rt_thread_resume_def [of t k2])
qed

theorem suspend_resume_witness:
  "\<exists>k1 k2. rt_thread_suspend 2 kern_example = Some (k1, RT_EOK) \<and> rt_thread_resume 2 k1 = Some (k2, RT_EOK) \<and>
     lists k2 (LReady 5) = [4, 2]"
proof -
  have k: "kinv kern_example" "tminv kern_example" using kern_example_tick_ok by (simp_all add: tick_ok_def)
  have "stat kern_example 2 = T_READY" "cur kern_example \<noteq> Some 2" "prio kern_example 2 = 5"
    "lists kern_example (LReady 5) = [2, 4]"
    by (simp_all add: kern_example_def tcb_at_def)
  then show ?thesis using suspend_resume [OF k, of 2] by auto
qed

text \<open>C39. Starting a fresh thread: it returns, keeps the invariants, and when the scheduler is
  unlocked and the new thread's priority is above that of the running thread (and of every
  ready one), the new thread is running at once.\<close>

theorem startup_preempts:
  assumes "kinv k" "tminv k" "cur k = Some c" "stat k c = T_RUNNING" "lock_nest k = 0"
    and "stat k t = T_INIT" "t_init_prio (tcbs k t) < prio k c"
    and "list_all (\<lambda>q. lists k (LReady q) = []) [0..<t_init_prio (tcbs k t) + 1]"
  shows "\<exists>k'. rt_thread_startup t k = Some k' \<and> kinv k' \<and> cur k' = Some t \<and> stat k' t = T_RUNNING \<and>
    stat k' c = T_READY"
proof -
  let ?p = "t_init_prio (tcbs k t)"
  let ?k0 = "upd_tcb t (\<lambda>c. c\<lparr>t_prio := t_init_prio c, t_mask := 2 ^ t_init_prio c, t_stat := T_SUSPEND,
    t_yield := False\<rparr>) k"
  have tc: "t \<noteq> c" using assms(4,6) by auto
  have th: "prio_ok (tcbs k c)" using kinvX_thread [OF assms(1), of c] assms(4) by (simp add: thread_ok_def)
  have p32: "?p < 32" using prio_okD(1) [OF th] assms(7) by simp
  have lo: "lists_ok k" using assms(1) by (simp add: kinvX_def)
  have ul: "\<not> t_linked (tcbs k t)" using kinvX_thread [OF assms(1), of t] assms(6) by (simp add: thread_ok_def)
  note nl = unlinked_no_list [OF lo ul]
  have "kinvX {t} ?k0" by (rule upd_kinvX [OF kinvX_mono [OF assms(1)]]) (use nl in simp_all)
  then have k0: "kinv ?k0" by (rule kinvX_discharge) (use p32 nl in \<open>simp add: thread_ok_def prio_ok_def\<close>)
  have t0: "tminv ?k0" by (rule tminv_frame [OF assms(2)]) (use assms(6) in auto)
  from resume_spec [OF k0 t0, of t] assms(3) tc obtain k1 where
    k1: "rt_thread_resume t ?k0 = Some (k1, RT_EOK)" "kinv k1" "cur k1 = Some c" "lock_nest k1 = 0"
    "tcbs k1 = (tcbs ?k0)(t := (tcbs ?k0 t)\<lparr>t_stat := T_READY, t_linked := True\<rparr>)"
    "\<forall>l. lists k1 l = removeAll t (lists k l) @ (if l = LReady ?p then [t] else [])"
    using assms(5) by auto
  have e: "lists k (LReady q) = []" if "q \<le> ?p" for q using assms(8) that by (auto simp: list_all_iff)
  have l1: "lists k1 (LReady ?p) = [t]" "\<And>q. q < ?p \<Longrightarrow> lists k1 (LReady q) = []" using k1(6) e by auto
  have "bit (ready_group k1) ?p" using k1(2) p32 l1(1) by (auto simp: kinvX_def ready_ok_def)
  then have g: "ready_group k1 \<noteq> 0" by auto
  obtain t' p rest where top: "get_highest_priority_thread k1 = Some (t', p)" "lists k1 (LReady p) = t' # rest"
    "\<forall>q<p. lists k1 (LReady q) = []" using get_highest [OF k1(2) g] by blast
  have "p = ?p" using top(2,3) l1 by (metis linorder_neqE_nat list.distinct(1))
  then have tt: "t' = t" "p = ?p" using top(2) l1(1) by auto
  have c1: "stat k1 c = T_RUNNING" "p < prio k1 c" using k1(5) tc assms(4,7) tt by auto
  from schedule_preempt [OF k1(2-4) top(1) g c1(1)] c1(2) obtain k' where
    k': "rt_schedule k1 = Some k'" "kinv k'" "cur k' = Some t'"
    "tcbs k' = (tcbs k1)(c := (tcbs k1 c)\<lparr>t_yield := False, t_stat := T_READY, t_linked := True\<rparr>,
      t' := (tcbs k1 t')\<lparr>t_linked := False, t_stat := T_RUNNING\<rparr>)" by auto
  then show ?thesis using k1(1,3) tt tc assms(6) by (simp add: rt_thread_startup_def)
qed

theorem startup_preempts_witness:
  "\<exists>k'. rt_thread_startup 9 (upd_tcb 9 (\<lambda>c. c\<lparr>t_init_prio := 3\<rparr>) kern_example) = Some k' \<and> cur k' = Some 9"
proof -
  let ?k = "upd_tcb 9 (\<lambda>c. c\<lparr>t_init_prio := 3\<rparr>) kern_example"
  have k: "kinv kern_example" "tminv kern_example" using kern_example_tick_ok by (simp_all add: tick_ok_def)
  have 1: "kinv ?k" by (rule upd_same_kinvX [OF k(1)]) simp_all
  have 2: "tminv ?k" by (rule tminv_frame [OF k(2)]) auto
  have "cur ?k = Some 1" "stat ?k 1 = T_RUNNING" "lock_nest ?k = 0" "stat ?k 9 = T_INIT"
    "t_init_prio (tcbs ?k 9) < prio ?k 1" "list_all (\<lambda>q. lists ?k (LReady q) = []) [0..<t_init_prio (tcbs ?k 9) + 1]"
    by (simp_all add: kern_example_def tcb_at_def tcb0_def list_all_iff)
  from startup_preempts [OF 1 2 this] show ?thesis by auto
qed

lemma change_priority_spec:
  assumes "kinv k" "stat k t \<noteq> T_INIT" "p < 32"
  shows "\<exists>k'. change_priority t p k = Some k' \<and> kinv k' \<and> cur k' = cur k \<and> hard k' = hard k \<and> soft k' = soft k \<and>
    tmrs k' = tmrs k \<and> now k' = now k \<and> lock_nest k' = lock_nest k \<and> int_nest k' = int_nest k \<and>
    tcbs k' = (tcbs k)(t := (tcbs k t)\<lparr>t_prio := p, t_mask := 2 ^ p\<rparr>) \<and>
    (\<forall>l. (\<forall>q. l \<noteq> LReady q) \<longrightarrow> lists k' l = lists k l) \<and>
    (if stat k t = T_READY then lists k' (LReady p) = removeAll t (lists k (LReady p)) @ [t] else lists k' = lists k)"
proof -
  let ?f = "\<lambda>c. c\<lparr>t_prio := p, t_mask := 2 ^ p\<rparr>"
  have l: "lists_ok k" "ready_ok k" using assms(1) by (simp_all add: kinvX_def)
  note th = kinvX_thread [OF assms(1), of t, simplified]
  show ?thesis
  proof (cases "stat k t = T_READY")
    case True
    have mem: "t \<in> set (lists k (LReady (prio k t)))" "cur k \<noteq> Some t" using th True by (auto simp: thread_ok_def)
    then have ok: "prio_ok (tcbs k t)" and lk: "t_linked (tcbs k t)" using l by (auto simp: ready_ok_def lists_ok_def)
    have r: "kinvX {t} (rt_schedule_remove_thread t k)"
      by (rule remove_kinvX [OF kinvX_mono [OF assms(1)] _ ok]) simp_all
    have u: "kinvX {t} (upd_tcb t ?f (rt_schedule_remove_thread t k))"
      by (rule upd_kinvX [OF r]) (simp_all add: remove_lists [OF l(1)])
    from insert_kinvX [OF u, of t] assms(3) mem(2) obtain k' where
      k': "rt_schedule_insert_thread t (upd_tcb t ?f (rt_schedule_remove_thread t k)) = Some k'" "kinv k'"
      "tcbs k' = (tcbs k)(t := (tcbs k t)\<lparr>t_linked := False, t_prio := p, t_mask := 2 ^ p, t_stat := T_READY, t_linked := True\<rparr>)"
      "lists k' = (\<lambda>l. removeAll t (lists k l))(LReady p := removeAll t (lists k (LReady p)) @ [t])" "cur k' = cur k"
      "hard k' = hard k" "soft k' = soft k" "tmrs k' = tmrs k" "now k' = now k" "lock_nest k' = lock_nest k"
      "int_nest k' = int_nest k"
      by (auto simp: prio_ok_def remove_lists [OF l(1)] fun_eq_iff)
    have "(tcbs k t)\<lparr>t_linked := False, t_prio := p, t_mask := 2 ^ p, t_stat := T_READY, t_linked := True\<rparr> =
        (tcbs k t)\<lparr>t_prio := p, t_mask := 2 ^ p\<rparr>"
      using True lk by (cases "tcbs k t") simp
    moreover have "lists k' l = lists k l" if "\<forall>q. l \<noteq> LReady q" for l
      using ready_only [OF assms(1) mem(1), of l] that k'(4) by simp
    ultimately show ?thesis using True assms(3) k' by (simp add: change_priority_def)
  next
    case False
    have nr: "t \<notin> set (lists k (LReady q))" for q
      using ready_stat [OF assms(1)] False by blast
    have "kinvX {t} (upd_tcb t ?f k)" by (rule upd_kinvX [OF kinvX_mono [OF assms(1)]]) (use nr in simp_all)
    moreover have "thread_ok (upd_tcb t ?f k) t"
      using th False assms(2,3) nr by (cases "stat k t") (auto simp: thread_ok_def prio_ok_def)
    ultimately have "kinv (upd_tcb t ?f k)" by (rule kinvX_discharge)
    then show ?thesis using False assms(3) by (simp add: change_priority_def)
  qed
qed

text \<open>Changing a priority keeps the scheduler invariant in every state of the thread; a ready
  thread goes to the tail of the list of its new priority, the other lists of waiting threads
  are not touched.\<close>

theorem change_priority_inv:
  assumes "kinv k" "stat k t \<noteq> T_INIT" "p < 32"
  shows "\<exists>k'. change_priority t p k = Some k' \<and> kinv k' \<and> prio k' t = p \<and> cur k' = cur k \<and> stat k' t = stat k t \<and>
    (if stat k t = T_READY then lists k' (LReady p) = removeAll t (lists k (LReady p)) @ [t]
     else lists k' = lists k)"
  using change_priority_spec [OF assms] by auto

theorem change_priority_inv_witness:
  "\<exists>k'. change_priority 2 7 kern_example = Some k' \<and> kinv k' \<and> lists k' (LReady 7) = [3, 2]"
  using change_priority_inv [OF kern_example_inv, of 2 7]
  by (auto simp: kern_example_def tcb_at_def)

text \<open>A thread that exits is gone: it is closed, on no ready list, and its timer is off; the
  scheduler has moved on to another thread when one is ready.\<close>

theorem exit_removes:
  assumes "kinv k" "tminv k" "cur k = Some t" "stat k t = T_RUNNING" "lock_nest k = 0" "ready_group k \<noteq> 0"
  shows "\<exists>k' c'. rt_thread_exit static k = Some k' \<and> kinv k' \<and> stat k' t = T_CLOSE \<and> cur k' = Some c' \<and> c' \<noteq> t \<and>
    t \<notin> set (lists k' (LReady (prio k' t))) \<and> TThread t \<notin> set (hard k') \<and>
    (\<not> static \<longrightarrow> lists k' LDefunct = t # lists k LDefunct)"
proof -
  let ?k1 = "upd_tcb t (\<lambda>c. c\<lparr>t_stat := T_CLOSE, t_yield := False\<rparr>) (rt_schedule_remove_thread t k)"
  let ?k2 = "rt_timer_detach (TThread t) ?k1"
  have l: "lists_ok k" using assms(1) by (simp add: kinvX_def)
  have th: "prio_ok (tcbs k t)" "\<not> t_linked (tcbs k t)"
    using kinvX_thread [OF assms(1), of t] assms(4) by (simp_all add: thread_ok_def)
  note nl = unlinked_no_list [OF l th(2)]
  have rl: "lists (rt_schedule_remove_thread t k) = lists k"
    using nl by (auto simp: remove_lists [OF l] removeAll_id)
  have r: "kinvX {t} (rt_schedule_remove_thread t k)"
    by (rule remove_kinvX [OF kinvX_mono [OF assms(1)] _ th(1)]) simp_all
  have k1: "kinvX {t} ?k1" by (rule upd_kinvX [OF r]) (simp_all add: rl nl)
  then have k1': "kinv ?k1" by (rule kinvX_discharge) (simp add: thread_ok_def rl nl)
  have k2: "kinv ?k2" by (rule kinvX_cong [OF k1']) (simp_all add: rt_timer_detach_def)
  have f: "lists ?k2 = lists k" "cur ?k2 = Some t" "lock_nest ?k2 = 0" "stat ?k2 t = T_CLOSE"
    "\<not> t_linked (tcbs ?k2 t)" "hard ?k2 = removeAll (TThread t) (hard k)"
    using assms(3,5) rl by (simp_all add: rt_timer_detach_def)
  obtain k3 where k3: "close_list static t ?k2 = Some k3" "kinv k3" "cur k3 = Some t" "lock_nest k3 = 0"
    "stat k3 t = T_CLOSE" "hard k3 = hard ?k2" "ready_group k3 = ready_group ?k2"
    "\<And>p. lists k3 (LReady p) = lists k (LReady p)" "\<not> static \<longrightarrow> lists k3 LDefunct = t # lists k LDefunct"
  proof (cases static)
    case True
    then show ?thesis using that [of ?k2] k2 f by (simp add: close_list_def)
  next
    case False
    let ?k3 = "upd_tcb t (\<lambda>c. c\<lparr>t_linked := True\<rparr>) (?k2\<lparr>lists := (lists ?k2)(LDefunct := t # lists ?k2 LDefunct)\<rparr>)"
    have l2: "lists_ok ?k2" using k2 by (simp add: kinvX_def)
    have "lists_ok ?k3"
      by (rule lists_ok_add [OF l2 f(5), of "t # lists ?k2 LDefunct" LDefunct])
        (use l2 nl f(1) in \<open>auto simp: lists_ok_def\<close>)
    moreover have "ready_ok ?k3" using k2 by (auto simp: kinvX_def ready_ok_def)
    moreover have "thread_ok ?k3 x" for x
      using kinvX_thread [OF k2, of x] f(4) nl f(1) by (cases "x = t"; cases "stat ?k2 x") (auto simp: thread_ok_def)
    ultimately have "kinv ?k3" by (simp add: kinvX_def)
    then show ?thesis using that [of ?k3] False f by (simp add: close_list_def link_head_def link_with_def)
  qed
  have g: "ready_group k3 \<noteq> 0"
  proof
    assume z: "ready_group k3 = 0"
    obtain x p rest where "lists k (LReady p) = x # rest" "p < 32"
      using get_highest [OF assms(1,6)] by blast
    then show False using no_ready [OF k3(2) z] k3(8) by simp
  qed
  obtain x p rest where top: "get_highest_priority_thread k3 = Some (x, p)"
    using get_highest [OF k3(2) g] by blast
  from schedule_blocked [OF k3(2-4) top g] k3(5) obtain k' where
    k': "rt_schedule k3 = Some k'" "kinv k'" "cur k' = Some x" "t \<noteq> x"
    "lists k' = (\<lambda>l. removeAll x (lists k3 l))" "hard k' = hard k3"
    "tcbs k' = (tcbs k3)(x := (tcbs k3 x)\<lparr>t_linked := False, t_stat := T_RUNNING\<rparr>)" by auto
  have xr: "x \<in> set (lists k3 (LReady p))" using get_highest [OF k3(2) g] top by auto
  have "removeAll x (lists k3 LDefunct) = lists k3 LDefunct" by (rule ready_only [OF k3(2) xr]) simp
  then show ?thesis
    using k3 k' assms(3) f(6) nl kinvX_thread [OF k'(2), of t]
    by (auto simp: rt_thread_exit_def Let_def thread_ok_def)
qed

theorem exit_removes_witness:
  "\<exists>k' c'. rt_thread_exit False kern_example = Some k' \<and> stat k' 1 = T_CLOSE \<and> cur k' = Some c' \<and> c' \<noteq> 1 \<and>
     lists k' LDefunct = [1]"
proof -
  have k: "kinv kern_example" "tminv kern_example" using kern_example_tick_ok by (simp_all add: tick_ok_def)
  have "cur kern_example = Some 1" "stat kern_example 1 = T_RUNNING" "lock_nest kern_example = 0"
    "ready_group kern_example \<noteq> 0" "lists kern_example LDefunct = []"
    by (simp_all add: kern_example_def tcb_at_def)
  then show ?thesis using exit_removes [OF k, of 1 False] by fastforce
qed

section \<open>Delays\<close>

lemma tick_from_millisecond: "0 \<le> ms \<Longrightarrow> ms < 2 ^ 31 \<Longrightarrow> rt_tick_from_millisecond ms = word_of_int ms"
proof -
  assume a: "0 \<le> ms" "ms < 2 ^ 31"
  have "cdiv (1000 * (ms mod 1000) + 999) 1000 = ms mod 1000" using a by (simp add: cdiv_def)
  moreover have "cdiv ms 1000 = ms div 1000" using a by (simp add: cdiv_nonneg)
  ultimately have "rt_tick_from_millisecond ms = word_of_int (1000 * (ms div 1000) + ms mod 1000)"
    using a(1) by (simp add: rt_tick_from_millisecond_def del: of_int_add of_int_mult add: of_int_add [symmetric])
  then show ?thesis by (simp only: mult_div_mod_eq)
qed

text \<open>With 1000 ticks per second a delay of \<open>ms\<close> milliseconds is a sleep of exactly \<open>ms\<close> ticks, for
  every \<open>ms\<close> below $2^{31}$; a negative delay, documented as waiting for ever, fails the assertion
  on the length of the timer.\<close>

theorem mdelay_ticks:
  assumes "kinv k" "tminv k" "cur k = Some t" "stat k t = T_RUNNING" "ms < 2 ^ 31"
  shows "rt_thread_mdelay ms k = (if ms < 0 then None else rt_thread_sleep (word_of_int ms) k)"
proof (cases "ms < 0")
  case True
  have "active_stat (stat k t)" using assms(4) by (simp add: active_stat_def)
  from suspend_spec [OF assms(1,2) this] obtain k1 where
    k1: "rt_thread_suspend t k = Some (k1, RT_EOK)" by blast
  have "timer_start (TThread t) (upd_tmr (TThread t) (\<lambda>m. m\<lparr>tm_init := - 1\<rparr>) k1) = None"
    by (simp add: timer_start_def upd_tmr_def)
  then show ?thesis
    using True assms(3) k1
    by (simp add: rt_thread_mdelay_def rt_tick_from_millisecond_def rt_thread_sleep_def thread_timer_arm_def rt_timer_control_def)
next
  case False
  then show ?thesis using tick_from_millisecond [of ms] assms(5) by (simp add: rt_thread_mdelay_def)
qed

theorem mdelay_ticks_witness:
  "rt_thread_mdelay (- 5) kern_example = None \<and> rt_thread_mdelay 1500 kern_example = rt_thread_sleep 1500 kern_example"
proof -
  have k: "kinv kern_example" "tminv kern_example" using kern_example_tick_ok by (simp_all add: tick_ok_def)
  have r: "cur kern_example = Some 1" "stat kern_example 1 = T_RUNNING"
    by (simp_all add: kern_example_def tcb_at_def)
  show ?thesis using mdelay_ticks [OF k r, of "- 5"] mdelay_ticks [OF k r, of 1500] by simp
qed

text \<open>\<^verbatim>\<open>rt_thread_delay_until\<close> is meant to sleep until \<open>*tick + inc\<close>, but it arms the timer with
  the time already elapsed \<open>added\<close> to the increment: the wake-up tick is \<open>*tick + inc\<close> plus
  twice the time since \<open>*tick\<close>.\<close>

theorem delay_until_oversleeps:
  assumes "kinv k" "tminv k" "cur k = Some t" "stat k t = T_RUNNING"
    and "now k - tick < inc" "now k - tick + inc < half_range"
  shows "\<exists>k'. rt_thread_delay_until tick inc k = Some (k', now k - tick + inc, True) \<and> kinv k' \<and>
    stat k' t = T_SUSPEND \<and> TThread t \<in> set (hard k') \<and>
    tm_timeout (tmrs k' (TThread t)) = tick + inc + 2 * (now k - tick)"
proof -
  from sleep_spec [OF assms(1-4,6)] obtain k' where
    k': "rt_thread_sleep (now k - tick + inc) k = Some k'" "kinv k'" "stat k' t = T_SUSPEND"
    "set (hard k') = insert (TThread t) (set (hard k))"
    "tm_timeout (tmrs k' (TThread t)) = now k + (now k - tick + inc)" by blast
  have "rt_thread_delay_until tick inc k = Some (k', now k - tick + inc, True)"
    using k'(1) assms(3,5)
    by (auto simp: rt_thread_delay_until_def rt_thread_sleep_def Let_def bind_Some_iff split: prod.splits)
  moreover have "now k + (now k - tick + inc) = tick + inc + 2 * (now k - tick)" by simp
  ultimately show ?thesis using k' by simp
qed

text \<open>Woken at tick 100, called again 4 ticks later with a period of 10, the thread sleeps until 118.\<close>

theorem delay_until_oversleeps_witness:
  "\<exists>k'. rt_thread_delay_until (now kern_example - 4) 10 kern_example = Some (k', 14, True) \<and>
     tm_timeout (tmrs k' (TThread 1)) = now kern_example + 14"
proof -
  have k: "kinv kern_example" "tminv kern_example" using kern_example_tick_ok by (simp_all add: tick_ok_def)
  have r: "cur kern_example = Some 1" "stat kern_example 1 = T_RUNNING"
    "now kern_example - (now kern_example - 4) < (10 :: 32 word)"
    "now kern_example - (now kern_example - 4) + 10 < half_range"
    by (simp_all add: kern_example_def tcb_at_def word_less_nat_alt)
  from delay_until_oversleeps [OF k r] show ?thesis by (auto simp: algebra_simps)
qed

end
