(* ===== verification/Ipc.thy ===== *)
theory Ipc
  imports Thread
begin

text \<open>
  The common part of the inter-thread communication objects, \<^verbatim>\<open>src/ipc.c\<close> lines 61 to 185: the
  waiting lists. A blocking call of an object is two atomic pieces, the interrupts being
  disabled up to \<^verbatim>\<open>rt_schedule\<close>: the first piece puts the current thread on a waiting list,
  arms its timer when the time is limited, and reschedules; the second is what the thread
  does when it runs again. The first piece ends with \<open>Waits\<close> when the processor went to
  another thread. When \<^verbatim>\<open>rt_schedule\<close> did not switch (the scheduler is locked, or nothing else is
  ready) the code simply goes on, and so does the model.

  A waiting time is a C \<open>int\<close>: positive is a number of ticks, zero is not to wait, negative
  is for ever.
\<close>

section \<open>Operations\<close>

datatype ipc_flag = RT_IPC_FLAG_FIFO | RT_IPC_FLAG_PRIO

datatype 'a outcome = Done 'a | Waits

fun prio_insert :: "(tid \<Rightarrow> nat) \<Rightarrow> tid \<Rightarrow> tid list \<Rightarrow> tid list" where
  "prio_insert P t [] = [t]"
| "prio_insert P t (s # ss) = (if P t < P s then t # s # ss else s # prio_insert P t ss)"

fun wait_insert :: "ipc_flag \<Rightarrow> (tid \<Rightarrow> nat) \<Rightarrow> tid \<Rightarrow> tid list \<Rightarrow> tid list" where
  "wait_insert RT_IPC_FLAG_FIFO P t ss = ss @ [t]"
| "wait_insert RT_IPC_FLAG_PRIO P t ss = prio_insert P t ss"

text \<open>Suspending a thread on a list, the place in the list given by \<open>ins\<close>.\<close>

definition suspend_on :: "(kern \<Rightarrow> tid \<Rightarrow> tid list \<Rightarrow> tid list) \<Rightarrow> lid \<Rightarrow> tid \<Rightarrow> kern \<Rightarrow> kern option" where
  "suspend_on ins l t k =
     do {
       (k1, _) \<leftarrow> rt_thread_suspend t k;
       link_with (ins k1 t) l t k1
     }"

definition rt_ipc_list_suspend :: "lid \<Rightarrow> tid \<Rightarrow> ipc_flag \<Rightarrow> kern \<Rightarrow> kern option" where
  "rt_ipc_list_suspend l t flag k = suspend_on (\<lambda>k. wait_insert flag (prio k)) l t k"

definition rt_ipc_list_resume :: "lid \<Rightarrow> kern \<Rightarrow> kern option" where
  "rt_ipc_list_resume l k =
     (case lists k l of
        [] \<Rightarrow> None
      | t # _ \<Rightarrow> do { (k1, _) \<leftarrow> rt_thread_resume t k; Some k1 })"

partial_function (option) rt_ipc_list_resume_all :: "lid \<Rightarrow> kern \<Rightarrow> kern option" where
  "rt_ipc_list_resume_all l k =
     (case lists k l of
        [] \<Rightarrow> Some k
      | t # _ \<Rightarrow> do {
          (k1, _) \<leftarrow> rt_thread_resume t (upd_tcb t (\<lambda>c. c\<lparr>t_error := RT_ERROR\<rparr>) k);
          rt_ipc_list_resume_all l k1
        })"

declare rt_ipc_list_resume_all.simps [code]

text \<open>The test \<^verbatim>\<open>RT_DEBUG_IN_THREAD_CONTEXT\<close>, an assertion.\<close>

definition in_thread_context :: "kern \<Rightarrow> bool" where
  "in_thread_context k \<longleftrightarrow> cur k \<noteq> None \<and> int_nest k = 0"

text \<open>The blocking sequence of all objects: wait on a list, arm the timer, reschedule.\<close>

definition block_on :: "(kern \<Rightarrow> tid \<Rightarrow> tid list \<Rightarrow> tid list) \<Rightarrow> lid \<Rightarrow> int \<Rightarrow> tid \<Rightarrow> kern \<Rightarrow> kern option" where
  "block_on ins l time t k =
     do {
       k1 \<leftarrow> suspend_on ins l t k;
       k2 \<leftarrow> (if 0 < time then thread_timer_arm t (word_of_int time) k1 else Some k1);
       rt_schedule k2
     }"

definition ipc_wait :: "lid \<Rightarrow> ipc_flag \<Rightarrow> int \<Rightarrow> tid \<Rightarrow> kern \<Rightarrow> kern option" where
  "ipc_wait l flag time t k = block_on (\<lambda>k. wait_insert flag (prio k)) l time t k"

definition clear_error :: "tid \<Rightarrow> kern \<Rightarrow> kern" where
  "clear_error t = upd_tcb t (\<lambda>c. c\<lparr>t_error := RT_EOK\<rparr>)"

abbreviation err :: "kern \<Rightarrow> tid \<Rightarrow> rt_err" where "err k t \<equiv> t_error (tcbs k t)"

section \<open>The waiting-list policy\<close>

text \<open>The contract of a queueing policy: it inserts the one thread and keeps the order of the
  others.\<close>

locale wait_policy =
  fixes ins :: "tid \<Rightarrow> tid list \<Rightarrow> tid list"
  assumes ins_split: "\<exists>us vs. ss = us @ vs \<and> ins t ss = us @ t # vs"
begin

lemma set_ins [simp]: "set (ins t ss) = insert t (set ss)"
  using ins_split [of ss t] by auto

lemma distinct_ins: "distinct (ins t ss) \<longleftrightarrow> t \<notin> set ss \<and> distinct ss"
  using ins_split [of ss t] by auto

lemma remove_ins: "t \<notin> set ss \<Longrightarrow> removeAll t (ins t ss) = ss"
  using ins_split [of ss t] by auto

lemma ins_not_Nil [simp]: "ins t ss \<noteq> []"
  using ins_split [of ss t] by auto

end

lemma prio_insert_split: "\<exists>us vs. ss = us @ vs \<and> prio_insert P t ss = us @ t # vs \<and>
    (\<forall>u \<in> set us. P u \<le> P t) \<and> (vs \<noteq> [] \<longrightarrow> P t < P (hd vs))"
proof (induction ss)
  case (Cons s ss)
  then obtain us vs where i: "ss = us @ vs" "prio_insert P t ss = us @ t # vs" "\<forall>u \<in> set us. P u \<le> P t"
    "vs \<noteq> [] \<longrightarrow> P t < P (hd vs)" by blast
  show ?case
  proof (cases "P t < P s")
    case True
    have "s # ss = [] @ (s # ss)" by simp
    then show ?thesis using True by (intro exI [of _ "[]"] exI [of _ "s # ss"]) simp
  next
    case False
    then show ?thesis using i by (intro exI [of _ "s # us"] exI [of _ vs]) auto
  qed
qed simp

interpretation wait_q: wait_policy "wait_insert flag P" for flag P
proof
  fix ss t
  show "\<exists>us vs. ss = us @ vs \<and> wait_insert flag P t ss = us @ t # vs"
    using prio_insert_split [of ss P t] by (cases flag) auto
qed

lemma prio_insert_sorted: "sorted (map P (prio_insert P t ss)) \<longleftrightarrow> sorted (map P ss)"
proof
  assume s: "sorted (map P ss)"
  obtain us vs where i: "ss = us @ vs" "prio_insert P t ss = us @ t # vs" "\<forall>u \<in> set us. P u \<le> P t"
    "vs \<noteq> [] \<longrightarrow> P t < P (hd vs)" using prio_insert_split by blast
  have "\<forall>v \<in> set vs. P t \<le> P v"
    using s i(1,4) by (cases vs) (auto simp: sorted_append less_imp_le order.trans)
  then show "sorted (map P (prio_insert P t ss))" using s i(1-3) by (auto simp: sorted_append)
next
  assume s: "sorted (map P (prio_insert P t ss))"
  obtain us vs where "ss = us @ vs" "prio_insert P t ss = us @ t # vs" using prio_insert_split by blast
  then show "sorted (map P ss)" using s by (auto simp: sorted_append)
qed

lemma prio_insert_cong: "P t = Q t \<Longrightarrow> (\<And>x. x \<in> set ss \<Longrightarrow> P x = Q x) \<Longrightarrow> prio_insert P t ss = prio_insert Q t ss"
  by (induction ss) auto

section \<open>The invariant of the waiting lists\<close>

definition waits_ok :: "kern \<Rightarrow> bool" where
  "waits_ok k \<longleftrightarrow> (\<forall>l t. wait_list l \<longrightarrow> t \<in> set (lists k l) \<longrightarrow> stat k t = T_SUSPEND)"

text \<open>The invariant of the kernel state between atomic pieces.\<close>

definition ipc_inv :: "kern \<Rightarrow> bool" where
  "ipc_inv k \<longleftrightarrow> kinv k \<and> tminv k \<and> waits_ok k"

lemma ipc_invD: "ipc_inv k \<Longrightarrow> kinv k" "ipc_inv k \<Longrightarrow> tminv k" "ipc_inv k \<Longrightarrow> waits_ok k"
  by (simp_all add: ipc_inv_def)

lemma waits_ok_sub:
  assumes "waits_ok k" "\<And>l x. wait_list l \<Longrightarrow> x \<in> set (lists k' l) \<Longrightarrow> x \<in> set (lists k l) \<and> stat k' x = stat k x"
  shows "waits_ok k'"
  using assms by (fastforce simp: waits_ok_def)

lemma wait_list_sched: "sched_frame k k' \<Longrightarrow> wait_list l \<Longrightarrow> lists k' l = lists k l"
  by (cases l) (auto simp: sched_frame_def)

lemma waits_ok_sched: "waits_ok k \<Longrightarrow> sched_frame k k' \<Longrightarrow> waits_ok k'"
proof -
  assume a: "waits_ok k" "sched_frame k k'"
  show ?thesis
    by (rule waits_ok_sub [OF a(1)])
      (use a wait_list_sched [OF a(2)] sched_frame_stat [OF a(2), of T_SUSPEND] in
        \<open>auto simp: waits_ok_def active_stat_def\<close>)
qed

lemma clear_error_simps [simp]:
  "tcbs (clear_error t k) = (tcbs k)(t := (tcbs k t)\<lparr>t_error := RT_EOK\<rparr>)" "lists (clear_error t k) = lists k"
  "cur (clear_error t k) = cur k" "lock_nest (clear_error t k) = lock_nest k" "int_nest (clear_error t k) = int_nest k"
  "ready_group (clear_error t k) = ready_group k" "now (clear_error t k) = now k" "hard (clear_error t k) = hard k"
  "soft (clear_error t k) = soft k" "tmrs (clear_error t k) = tmrs k"
  by (simp_all add: clear_error_def)

lemma ipc_inv_upd:
  assumes "ipc_inv k" "\<And>c. t_stat (f c) = t_stat c" "\<And>c. t_prio (f c) = t_prio c" "\<And>c. t_mask (f c) = t_mask c"
    "\<And>c. t_linked (f c) = t_linked c"
  shows "ipc_inv (upd_tcb t f k)"
proof -
  have "kinv (upd_tcb t f k)" by (rule upd_same_kinvX [OF ipc_invD(1) [OF assms(1)]]) (use assms in simp_all)
  moreover have "tminv (upd_tcb t f k)" by (rule tminv_frame [OF ipc_invD(2) [OF assms(1)]]) (use assms in auto)
  moreover have "waits_ok (upd_tcb t f k)" using ipc_invD(3) [OF assms(1)] assms(2) by (auto simp: waits_ok_def)
  ultimately show ?thesis by (simp add: ipc_inv_def)
qed

lemma ipc_inv_error: "ipc_inv k \<Longrightarrow> ipc_inv (upd_tcb t (\<lambda>c. c\<lparr>t_error := e\<rparr>) k)"
  by (rule ipc_inv_upd) simp_all

lemma ipc_inv_clear [inv_intro]: "ipc_inv k \<Longrightarrow> ipc_inv (clear_error t k)"
  unfolding clear_error_def by (rule ipc_inv_error)

lemma schedule_ipc:
  assumes "ipc_inv k" "cur k = Some c"
  shows "\<exists>k' c'. rt_schedule k = Some k' \<and> ipc_inv k' \<and> cur k' = Some c' \<and> sched_frame k k'"
  using schedule_frame [OF ipc_invD(1) [OF assms(1)] assms(2)] tminv_sched [OF ipc_invD(2) [OF assms(1)]]
    waits_ok_sched [OF ipc_invD(3) [OF assms(1)]] by (auto simp: ipc_inv_def)

section \<open>Suspending on a list\<close>

lemma lists_ok_wait_other: "ipc_inv k \<Longrightarrow> t \<in> set (lists k l) \<Longrightarrow> m \<noteq> l \<Longrightarrow> t \<notin> set (lists k m)"
  by (auto simp: ipc_inv_def kinvX_def lists_ok_def)

lemma wait_distinct: "ipc_inv k \<Longrightarrow> distinct (lists k l)"
  by (simp add: ipc_inv_def kinvX_def lists_ok_def)

lemma running_unlinked: "ipc_inv k \<Longrightarrow> stat k t = T_RUNNING \<Longrightarrow> \<not> t_linked (tcbs k t) \<and> t \<notin> set (lists k l)"
proof -
  assume a: "ipc_inv k" "stat k t = T_RUNNING"
  have u: "\<not> t_linked (tcbs k t)"
    using kinvX_thread [OF ipc_invD(1) [OF a(1)], of t] a(2) by (simp add: thread_ok_def)
  then show ?thesis using a(1) unlinked_no_list [of k t l] by (simp add: ipc_inv_def kinvX_def)
qed

lemma ready_exists: "kinv k \<Longrightarrow> ready_group k \<noteq> 0 \<longleftrightarrow> (\<exists>p < 32. lists k (LReady p) \<noteq> [])"
  using get_highest [of "{}" k] no_ready [of "{}" k] by fastforce

text \<open>Linking an unlinked suspended thread into a waiting list.\<close>

lemma link_wait:
  assumes w: "wait_policy ins"
    and k: "kinv k" "waits_ok k" "stat k t = T_SUSPEND" "\<not> t_linked (tcbs k t)" "wait_list l"
    and k': "k' = upd_tcb t (\<lambda>c. c\<lparr>t_linked := True\<rparr>) (k\<lparr>lists := (lists k)(l := ins t (lists k l))\<rparr>)"
  shows "kinv k' \<and> waits_ok k'"
proof -
  have lo: "lists_ok k" and ro: "ready_ok k" using k(1) by (simp_all add: kinvX_def)
  note nl = unlinked_no_list [OF lo k(4)]
  have nr: "l \<noteq> LReady p" for p using k(5) by auto
  have "lists_ok k'"
    by (rule lists_ok_add [OF lo k(4), of "ins t (lists k l)" l])
      (use lo nl in \<open>auto simp: k' lists_ok_def wait_policy.set_ins [OF w] wait_policy.distinct_ins [OF w]\<close>)
  moreover have "ready_ok k'" using ro nr by (auto simp: k' ready_ok_def prio_ok_def)
  moreover have "thread_ok k' x" for x
    using kinvX_thread [OF k(1), of x] nr k(3) by (cases "stat k x") (auto simp: k' thread_ok_def prio_ok_def)
  moreover have "waits_ok k'" using k(2,3) by (auto simp: k' waits_ok_def wait_policy.set_ins [OF w])
  ultimately show ?thesis by (simp add: kinvX_def)
qed

text \<open>A way to queue that depends on the priorities only, and may be used for blocking.\<close>

locale wait_order =
  fixes ins :: "kern \<Rightarrow> tid \<Rightarrow> tid list \<Rightarrow> tid list"
  assumes policy: "wait_policy (ins k)"
    and by_prio: "prio k' = prio k \<Longrightarrow> ins k' = ins k"

context wait_order
begin

lemma suspend_on_spec:
  assumes k: "ipc_inv k" "cur k = Some t" "stat k t = T_RUNNING" "wait_list l"
  shows "\<exists>k'. suspend_on ins l t k = Some k' \<and> ipc_inv k' \<and> cur k' = Some t \<and>
    hard k' = removeAll (TThread t) (hard k) \<and> now k' = now k \<and> lock_nest k' = lock_nest k \<and>
    int_nest k' = int_nest k \<and>
    tcbs k' = (tcbs k)(t := (tcbs k t)\<lparr>t_stat := T_SUSPEND, t_linked := True\<rparr>) \<and>
    lists k' = (lists k)(l := ins k t (lists k l)) \<and>
    (\<forall>m. tm_timeout (tmrs k' m) = tm_timeout (tmrs k m))"
proof -
  have "active_stat (stat k t)" using k(3) by (simp add: active_stat_def)
  from suspend_spec [OF ipc_invD(1,2) [OF k(1)] this] obtain k1 where
    k1: "rt_thread_suspend t k = Some (k1, RT_EOK)" "kinv k1" "tminv k1" "cur k1 = Some t"
    "hard k1 = removeAll (TThread t) (hard k)" "now k1 = now k" "lock_nest k1 = lock_nest k" "int_nest k1 = int_nest k"
    "tcbs k1 = (tcbs k)(t := (tcbs k t)\<lparr>t_linked := False, t_stat := T_SUSPEND\<rparr>)"
    "\<forall>l. lists k1 l = removeAll t (lists k l)" using k(2) by auto
  have st: "tm_timeout (tmrs k1 m) = tm_timeout (tmrs k m)" for m
    using k1(1) by (auto simp: rt_thread_suspend_def rt_timer_stop_def split: if_splits)
  note u = running_unlinked [OF k(1,3)]
  have l1: "lists k1 = lists k" using k1(10) u by (auto intro!: ext)
  have p1: "ins k1 = ins k" by (rule by_prio, rule ext) (simp add: k1(9))
  have w1: "waits_ok k1" using ipc_invD(3) [OF k(1)] u l1 k1(9) by (auto simp: waits_ok_def)
  define k' where "k' = upd_tcb t (\<lambda>c. c\<lparr>t_linked := True\<rparr>)
    (k1\<lparr>lists := (lists k1)(l := ins k1 t (lists k1 l))\<rparr>)"
  have s1: "stat k1 t = T_SUSPEND" "\<not> t_linked (tcbs k1 t)" using k1(9) by simp_all
  have "kinv k' \<and> waits_ok k'" by (rule link_wait [OF policy k1(2) w1 s1 k(4) k'_def])
  moreover have "tminv k'" by (rule tminv_frame [OF k1(3)]) (auto simp: k'_def)
  ultimately have "ipc_inv k'" by (simp add: ipc_inv_def)
  moreover have "suspend_on ins l t k = Some k'"
    using k1(1) s1(2) by (simp add: suspend_on_def link_with_def k'_def)
  ultimately show ?thesis using k1 l1 p1 st by (simp add: k'_def)
qed

text \<open>The whole blocking sequence with the scheduler unlocked and another thread ready.\<close>

lemma block_on_spec:
  assumes k: "ipc_inv k" "cur k = Some t" "stat k t = T_RUNNING" "wait_list l"
    and run: "lock_nest k = 0" "ready_group k \<noteq> 0" "time < 0x7fffffff"
  shows "\<exists>k' c'. block_on ins l time t k = Some k' \<and> ipc_inv k' \<and> cur k' = Some c' \<and> c' \<noteq> t \<and>
    tcbs k' t = (tcbs k t)\<lparr>t_stat := T_SUSPEND, t_linked := True\<rparr> \<and>
    (\<forall>m. wait_list m \<longrightarrow> lists k' m = ((lists k)(l := ins k t (lists k l))) m) \<and>
    set (hard k') = (if 0 < time then insert (TThread t) (set (hard k)) else set (hard k) - {TThread t}) \<and>
    (0 < time \<longrightarrow> tm_timeout (tmrs k' (TThread t)) = now k + word_of_int time) \<and> now k' = now k \<and>
    (\<forall>m. m \<noteq> TThread t \<longrightarrow> tm_timeout (tmrs k' m) = tm_timeout (tmrs k m)) \<and>
    (\<forall>x. x \<noteq> t \<longrightarrow> tcbs k' x = tcbs k x \<or>
       active_stat (stat k x) \<and> active_stat (stat k' x) \<and> same_but_stat (tcbs k x) (tcbs k' x))"
proof -
  from suspend_on_spec [OF k] obtain k1 where
    k1: "suspend_on ins l t k = Some k1" "ipc_inv k1" "cur k1 = Some t"
    "hard k1 = removeAll (TThread t) (hard k)" "now k1 = now k" "lock_nest k1 = lock_nest k"
    "tcbs k1 = (tcbs k)(t := (tcbs k t)\<lparr>t_stat := T_SUSPEND, t_linked := True\<rparr>)"
    "lists k1 = (lists k)(l := ins k t (lists k l))"
    "\<forall>m. tm_timeout (tmrs k1 m) = tm_timeout (tmrs k m)" by blast
  have s1: "stat k1 t = T_SUSPEND" using k1(7) by simp
  obtain k2 where k2: "(if 0 < time then thread_timer_arm t (word_of_int time) k1 else Some k1) = Some k2"
    "ipc_inv k2" "cur k2 = Some t" "tcbs k2 = tcbs k1" "lists k2 = lists k1" "lock_nest k2 = 0" "now k2 = now k"
    "set (hard k2) = (if 0 < time then insert (TThread t) (set (hard k)) else set (hard k) - {TThread t})"
    "0 < time \<longrightarrow> tm_timeout (tmrs k2 (TThread t)) = now k + word_of_int time"
    "\<forall>m. m \<noteq> TThread t \<longrightarrow> tm_timeout (tmrs k2 m) = tm_timeout (tmrs k m)"
  proof (cases "0 < time")
    case False
    then show ?thesis using that [of k1] k1 run(1) by simp
  next
    case True
    have "(word_of_int time :: 32 word) < half_range"
    proof -
      have "uint (word_of_int time :: 32 word) = time"
        using True run(3) by (simp add: uint_word_of_int)
      then have "unat (word_of_int time :: 32 word) = nat time" by (simp flip: nat_uint_eq)
      then show ?thesis using run(3) by (simp add: word_less_nat_alt)
    qed
    from arm_spec [OF ipc_invD(1,2) [OF k1(2)] s1 this] obtain k2 where
      k2: "thread_timer_arm t (word_of_int time) k1 = Some k2" "kinv k2" "tminv k2" "tcbs k2 = tcbs k1"
      "lists k2 = lists k1" "cur k2 = cur k1" "lock_nest k2 = lock_nest k1" "now k2 = now k1"
      "set (hard k2) = insert (TThread t) (set (hard k1))"
      "tm_timeout (tmrs k2 (TThread t)) = now k1 + word_of_int time"
      "\<forall>m. m \<noteq> TThread t \<longrightarrow> tmrs k2 m = tmrs k1 m" by blast
    moreover have "waits_ok k2" using ipc_invD(3) [OF k1(2)] k2(4,5) by (simp add: waits_ok_def)
    ultimately show ?thesis using that [of k2] True k1 run(1) by (simp add: ipc_inv_def)
  qed
  have "lists k2 (LReady p) = lists k (LReady p)" for p using k2(5) k1(8) k(4) by auto
  then have g: "ready_group k2 \<noteq> 0"
    using run(2) ready_exists [OF ipc_invD(1) [OF k(1)]] ready_exists [OF ipc_invD(1) [OF k2(2)]] by simp
  obtain x p rest where top: "get_highest_priority_thread k2 = Some (x, p)" "lists k2 (LReady p) = x # rest"
    using get_highest [OF ipc_invD(1) [OF k2(2)] g] by blast
  have "stat k2 t \<noteq> T_RUNNING" using s1 k2(4) by simp
  from schedule_blocked [OF ipc_invD(1) [OF k2(2)] k2(3,6) top(1) g this] obtain k' where
    k': "rt_schedule k2 = Some k'" "cur k' = Some x" "t \<noteq> x" by blast
  from schedule_ipc [OF k2(2,3)] k'(1) have i: "ipc_inv k'" "sched_frame k2 k'" by auto
  have "tcbs k' t = tcbs k2 t"
    using sched_frameD [OF i(2), of t] s1 k2(4) by (auto simp: active_stat_def)
  moreover have "tcbs k' y = tcbs k y \<or>
       active_stat (stat k y) \<and> active_stat (stat k' y) \<and> same_but_stat (tcbs k y) (tcbs k' y)" if "y \<noteq> t" for y
  proof -
    have "tcbs k2 y = tcbs k y" using k2(4) k1(7) that by simp
    then show ?thesis using sched_frameD [OF i(2), of y] by simp
  qed
  moreover have "hard k' = hard k2" "tmrs k' = tmrs k2" "now k' = now k" using i(2) k2(7) by (simp_all add: sched_frame_def)
  moreover have "block_on ins l time t k = Some k'" using k1(1) k2(1) k'(1) by (simp add: block_on_def)
  moreover have "lists k' m = ((lists k)(l := ins k t (lists k l))) m" if "wait_list m" for m
    using wait_list_sched [OF i(2) that] k2(5) k1(8) by simp
  ultimately show ?thesis using k' i(1) k1(7) k2(4,8-10) by auto
qed

text \<open>With the scheduler locked nothing is switched: the caller goes on although it is suspended.\<close>

lemma block_on_locked:
  assumes k: "ipc_inv k" "cur k = Some t" "stat k t = T_RUNNING" "wait_list l"
    and run: "lock_nest k \<noteq> 0" "time \<le> 0"
  shows "\<exists>k'. block_on ins l time t k = Some k' \<and> cur k' = Some t \<and> stat k' t = T_SUSPEND \<and>
    err k' t = err k t \<and> lists k' l = ins k t (lists k l)"
proof -
  from suspend_on_spec [OF k] obtain k1 where
    k1: "suspend_on ins l t k = Some k1" "cur k1 = Some t" "lock_nest k1 = lock_nest k"
    "tcbs k1 = (tcbs k)(t := (tcbs k t)\<lparr>t_stat := T_SUSPEND, t_linked := True\<rparr>)"
    "lists k1 = (lists k)(l := ins k t (lists k l))" by blast
  then show ?thesis using run schedule_idle [of k1] by (simp add: block_on_def)
qed

end

text \<open>The two flags of the IPC objects, and last in, first out, which the memory pools use.\<close>

interpretation ipcq: wait_order "\<lambda>k. wait_insert flag (prio k)" for flag
  by unfold_locales (use wait_q.ins_split in auto)

interpretation lifoq: wait_order "\<lambda>_ t ss. t # ss"
  by unfold_locales (auto intro: exI [of _ "[]"])

lemmas list_suspend_spec = ipcq.suspend_on_spec [folded rt_ipc_list_suspend_def]
lemmas ipc_wait_spec = ipcq.block_on_spec [folded ipc_wait_def]
lemmas ipc_wait_locked = ipcq.block_on_locked [folded ipc_wait_def]

section \<open>Resuming from a list\<close>

lemma resume_waiter:
  assumes k: "ipc_inv k" "t \<in> set (lists k l)" "wait_list l"
  shows "\<exists>k'. rt_thread_resume t k = Some (k', RT_EOK) \<and> ipc_inv k' \<and> cur k' = cur k \<and> now k' = now k \<and>
    lock_nest k' = lock_nest k \<and> int_nest k' = int_nest k \<and> hard k' = removeAll (TThread t) (hard k) \<and>
    tcbs k' = (tcbs k)(t := (tcbs k t)\<lparr>t_stat := (if cur k = Some t then T_RUNNING else T_READY),
      t_linked := (cur k \<noteq> Some t)\<rparr>) \<and>
    (\<forall>m. wait_list m \<longrightarrow> lists k' m = ((lists k)(l := removeAll t (lists k l))) m) \<and>
    (cur k \<noteq> Some t \<longrightarrow> lists k' (LReady (prio k t)) = lists k (LReady (prio k t)) @ [t])"
proof -
  have s: "stat k t = T_SUSPEND" using ipc_invD(3) [OF k(1)] k(2,3) by (auto simp: waits_ok_def)
  from resume_spec [OF ipc_invD(1,2) [OF k(1)] s] obtain k' where
    k': "rt_thread_resume t k = Some (k', RT_EOK)" "kinv k'" "tminv k'" "cur k' = cur k"
    "hard k' = removeAll (TThread t) (hard k)" "now k' = now k" "lock_nest k' = lock_nest k" "int_nest k' = int_nest k"
    "tcbs k' = (tcbs k)(t := (tcbs k t)\<lparr>t_stat := (if cur k = Some t then T_RUNNING else T_READY),
      t_linked := (cur k \<noteq> Some t)\<rparr>)"
    "\<forall>m. lists k' m = removeAll t (lists k m) @
      (if cur k \<noteq> Some t \<and> m = LReady (prio k t) then [t] else [])" by blast
  have o: "t \<notin> set (lists k m)" if "m \<noteq> l" for m by (rule lists_ok_wait_other [OF k(1,2) that])
  have wl: "lists k' m = ((lists k)(l := removeAll t (lists k l))) m" if "wait_list m" for m
    using k'(10) that o [of m] by (cases m) auto
  have "waits_ok k'"
    by (rule waits_ok_sub [OF ipc_invD(3) [OF k(1)]]) (use wl o k'(9) in \<open>auto split: if_splits\<close>)
  moreover have "LReady (prio k t) \<noteq> l" using k(3) by auto
  ultimately show ?thesis using k' wl o [of "LReady (prio k t)"] by (simp add: ipc_inv_def)
qed

lemma list_resume_spec:
  assumes k: "ipc_inv k" "lists k l = t # ts" "wait_list l"
  shows "\<exists>k'. rt_ipc_list_resume l k = Some k' \<and> ipc_inv k' \<and> cur k' = cur k \<and> now k' = now k \<and>
    lock_nest k' = lock_nest k \<and> int_nest k' = int_nest k \<and> hard k' = removeAll (TThread t) (hard k) \<and>
    tcbs k' = (tcbs k)(t := (tcbs k t)\<lparr>t_stat := (if cur k = Some t then T_RUNNING else T_READY),
      t_linked := (cur k \<noteq> Some t)\<rparr>) \<and>
    (\<forall>m. wait_list m \<longrightarrow> lists k' m = ((lists k)(l := ts)) m) \<and>
    (cur k \<noteq> Some t \<longrightarrow> lists k' (LReady (prio k t)) = lists k (LReady (prio k t)) @ [t])"
proof -
  have t: "t \<in> set (lists k l)" "t \<notin> set ts" using k(2) wait_distinct [OF k(1), of l] by auto
  then have ra: "removeAll t (lists k l) = ts" using k(2) by simp
  have e: "rt_ipc_list_resume l k = map_option fst (rt_thread_resume t k)"
    using k(2) by (cases "rt_thread_resume t k") (auto simp: rt_ipc_list_resume_def)
  obtain k' where k': "rt_thread_resume t k = Some (k', RT_EOK)"
    and rest: "ipc_inv k' \<and> cur k' = cur k \<and> now k' = now k \<and>
      lock_nest k' = lock_nest k \<and> int_nest k' = int_nest k \<and> hard k' = removeAll (TThread t) (hard k) \<and>
      tcbs k' = (tcbs k)(t := (tcbs k t)\<lparr>t_stat := (if cur k = Some t then T_RUNNING else T_READY),
        t_linked := (cur k \<noteq> Some t)\<rparr>) \<and>
      (\<forall>m. wait_list m \<longrightarrow> lists k' m = ((lists k)(l := ts)) m) \<and>
      (cur k \<noteq> Some t \<longrightarrow> lists k' (LReady (prio k t)) = lists k (LReady (prio k t)) @ [t])"
    using resume_waiter [OF k(1) t(1) k(3)] unfolding ra by blast
  have "rt_ipc_list_resume l k = Some k'" using e k' by simp
  then show ?thesis using rest by blast
qed

lemma same_but_stat_trans: "same_but_stat c d \<Longrightarrow> same_but_stat d e \<Longrightarrow> same_but_stat c e"
  by (cases c; cases d; cases e) (simp add: same_but_stat_def)

text \<open>Waking the first waiter and rescheduling, the end of every release and send.\<close>

lemma wake_first_spec:
  assumes k: "ipc_inv k" "lists k l = t # ts" "wait_list l" "cur k = Some c"
  shows "\<exists>k1 k' c'. rt_ipc_list_resume l k = Some k1 \<and> rt_schedule k1 = Some k' \<and> ipc_inv k' \<and> cur k' = Some c' \<and>
    now k' = now k \<and> active_stat (stat k' t) \<and> err k' t = err k t \<and> TThread t \<notin> set (hard k') \<and>
    (\<forall>x. same_but_stat (tcbs k x) (tcbs k' x)) \<and>
    (\<forall>m. wait_list m \<longrightarrow> lists k' m = ((lists k)(l := ts)) m)"
proof -
  from list_resume_spec [OF k(1-3)] obtain k1 where
    k1: "rt_ipc_list_resume l k = Some k1" "ipc_inv k1" "cur k1 = Some c" "now k1 = now k"
    "hard k1 = removeAll (TThread t) (hard k)"
    "tcbs k1 = (tcbs k)(t := (tcbs k t)\<lparr>t_stat := (if cur k = Some t then T_RUNNING else T_READY),
      t_linked := (cur k \<noteq> Some t)\<rparr>)"
    "\<forall>m. wait_list m \<longrightarrow> lists k1 m = ((lists k)(l := ts)) m" using k(4) by auto
  from schedule_ipc [OF k1(2,3)] obtain k' c' where
    k': "rt_schedule k1 = Some k'" "ipc_inv k'" "cur k' = Some c'" "sched_frame k1 k'" by blast
  have a: "active_stat (stat k1 t)" "err k1 t = err k t" using k1(6) by (simp_all add: active_stat_def)
  have "active_stat (stat k' t) \<and> err k' t = err k t"
    using sched_frameD [OF k'(4), of t] a same_but_statD [of "tcbs k1 t" "tcbs k' t"] by auto
  moreover have "same_but_stat (tcbs k x) (tcbs k' x)" for x
  proof -
    have "same_but_stat (tcbs k x) (tcbs k1 x)" using k1(6) by (simp add: same_but_stat_def)
    moreover have "same_but_stat (tcbs k1 x) (tcbs k' x)" using sched_frameD [OF k'(4), of x] by auto
    ultimately show ?thesis by (rule same_but_stat_trans)
  qed
  moreover have "lists k' m = ((lists k)(l := ts)) m" if "wait_list m" for m
    using wait_list_sched [OF k'(4) that] k1(7) that by simp
  moreover have "hard k' = hard k1" "now k' = now k1" using k'(4) by (simp_all add: sched_frame_def)
  ultimately show ?thesis using k1 k' by auto
qed

text \<open>A thread that is ready or running stays so, and the lock of the scheduler stays as it is.\<close>

lemma wake_keeps_active:
  assumes "ipc_inv k" "lists k l = t # ts" "wait_list l" "cur k = Some c" "rt_ipc_list_resume l k = Some k1" "rt_schedule k1 = Some k'"
  shows "active_stat (stat k x) \<Longrightarrow> active_stat (stat k' x)" "lock_nest k' = lock_nest k"
proof -
  obtain k1' where k1: "rt_ipc_list_resume l k = Some k1'" "ipc_inv k1'" "cur k1' = cur k" "lock_nest k1' = lock_nest k"
    "tcbs k1' = (tcbs k)(t := (tcbs k t)\<lparr>t_stat := (if cur k = Some t then T_RUNNING else T_READY), t_linked := (cur k \<noteq> Some t)\<rparr>)"
    using list_resume_spec [OF assms(1-3)] by blast
  then have e: "k1' = k1" using assms(5) by simp
  have "cur k1 = Some c" "ipc_inv k1" using k1(2,3) assms(4) e by simp_all
  then obtain k2 where "rt_schedule k1 = Some k2" "sched_frame k1 k2" using schedule_ipc by blast
  then have f: "sched_frame k1 k'" using assms(6) by simp
  then show "lock_nest k' = lock_nest k" using k1(4) e by (simp add: sched_frame_def)
  assume "active_stat (stat k x)"
  then have "active_stat (stat k1 x)" using k1(5) by (simp add: e active_stat_def)
  then show "active_stat (stat k' x)" using sched_frameD [OF f, of x] by auto
qed

text \<open>Leaving the outermost critical section.\<close>

lemma ipc_inv_lock: "ipc_inv k \<Longrightarrow> ipc_inv (k\<lparr>lock_nest := n\<rparr>)"
  using kinvX_cong [of "{}" k "k\<lparr>lock_nest := n\<rparr>"] tminv_frame [of k "k\<lparr>lock_nest := n\<rparr>"]
  by (auto simp: ipc_inv_def waits_ok_def)

lemma enter_outermost:
  "ipc_inv k \<Longrightarrow> lock_nest k = 0 \<Longrightarrow> ipc_inv (rt_enter_critical k) \<and> lock_nest (rt_enter_critical k) = 1 \<and>
    cur (rt_enter_critical k) = cur k \<and> lists (rt_enter_critical k) = lists k \<and> tcbs (rt_enter_critical k) = tcbs k"
  using ipc_inv_lock [of k 1] by (simp add: rt_enter_critical_def)

lemma exit_outermost:
  assumes "ipc_inv k" "cur k = Some c" "lock_nest k = 1"
  shows "\<exists>k' c'. rt_exit_critical k = Some k' \<and> ipc_inv k' \<and> cur k' = Some c' \<and> lock_nest k' = 0 \<and>
    (\<forall>l. wait_list l \<longrightarrow> lists k' l = lists k l) \<and> (\<forall>x. same_but_stat (tcbs k x) (tcbs k' x)) \<and>
    (\<forall>x. active_stat (stat k x) \<longrightarrow> active_stat (stat k' x))"
proof -
  obtain k' c' where k': "rt_schedule (k\<lparr>lock_nest := 0\<rparr>) = Some k'" "ipc_inv k'" "cur k' = Some c'" "sched_frame (k\<lparr>lock_nest := 0\<rparr>) k'"
    using schedule_ipc [OF ipc_inv_lock [OF assms(1), of 0], of c] assms(2) by auto
  then have "rt_exit_critical k = Some k'" using assms(2,3) by (simp add: rt_exit_critical_def)
  moreover have "same_but_stat (tcbs k x) (tcbs k' x) \<and> (active_stat (stat k x) \<longrightarrow> active_stat (stat k' x))" for x
    using sched_frameD [OF k'(4), of x] by auto
  moreover have "lists k' l = lists k l" if "wait_list l" for l using wait_list_sched [OF k'(4) that] by simp
  ultimately show ?thesis using k' by (simp add: sched_frame_def)
qed

lemma resume_all_spec:
  assumes "ipc_inv k" "wait_list l"
  shows "\<exists>k'. rt_ipc_list_resume_all l k = Some k' \<and> ipc_inv k' \<and> cur k' = cur k \<and> now k' = now k \<and>
    lock_nest k' = lock_nest k \<and> int_nest k' = int_nest k \<and>
    (\<forall>m. wait_list m \<longrightarrow> lists k' m = ((lists k)(l := [])) m) \<and>
    (\<forall>t. if t \<in> set (lists k l) then active_stat (stat k' t) \<and> err k' t = RT_ERROR else tcbs k' t = tcbs k t)"
  using assms(1)
proof (induction "lists k l" arbitrary: k)
  case Nil
  then show ?case by (intro exI [of _ k]) (auto simp: rt_ipc_list_resume_all.simps [of l k])
next
  case (Cons t ts)
  let ?k = "upd_tcb t (\<lambda>c. c\<lparr>t_error := RT_ERROR\<rparr>) k"
  have l: "lists k l = t # ts" using Cons.hyps(2) by simp
  have d: "t \<notin> set ts" using wait_distinct [OF Cons.prems, of l] l by simp
  from list_resume_spec [OF ipc_inv_error [OF Cons.prems], of t RT_ERROR l t ts] l assms(2) obtain k1 where
    k1: "rt_ipc_list_resume l ?k = Some k1" "ipc_inv k1" "cur k1 = cur k" "now k1 = now k"
    "lock_nest k1 = lock_nest k" "int_nest k1 = int_nest k"
    "tcbs k1 = (tcbs ?k)(t := (tcbs ?k t)\<lparr>t_stat := (if cur k = Some t then T_RUNNING else T_READY),
      t_linked := (cur k \<noteq> Some t)\<rparr>)"
    "\<forall>m. wait_list m \<longrightarrow> lists k1 m = ((lists k)(l := ts)) m" by auto
  have l1: "ts = lists k1 l" using k1(8) assms(2) by simp
  from Cons.hyps(1) [OF l1 k1(2)] obtain k' where
    k': "rt_ipc_list_resume_all l k1 = Some k'" "ipc_inv k'" "cur k' = cur k1" "now k' = now k1"
    "lock_nest k' = lock_nest k1" "int_nest k' = int_nest k1"
    "\<forall>m. wait_list m \<longrightarrow> lists k' m = ((lists k1)(l := [])) m"
    "\<forall>x. if x \<in> set (lists k1 l) then active_stat (stat k' x) \<and> err k' x = RT_ERROR else tcbs k' x = tcbs k1 x"
    by blast
  have "rt_ipc_list_resume_all l k = Some k'"
    using k1(1) k'(1) l
    by (auto simp: rt_ipc_list_resume_all.simps [of l k] rt_ipc_list_resume_def bind_Some_iff split: prod.splits)
  moreover have "if x \<in> set (lists k l) then active_stat (stat k' x) \<and> err k' x = RT_ERROR else tcbs k' x = tcbs k x" for x
    using spec [OF k'(8), of x] l l1 d k1(7) by (cases "x = t") (auto simp: active_stat_def)
  ultimately show ?case using k1(3-6,8) k' by auto
qed

section \<open>Timed waits\<close>

lemma tick_waits:
  assumes "waits_ok k" "\<forall>t. woken (b t) k k' t"
  shows "waits_ok k'"
  unfolding waits_ok_def
proof (intro allI impI)
  fix l t assume l: "wait_list l" "t \<in> set (lists k' l)"
  have w: "woken (b t) k k' t" using assms(2) by (rule spec)
  show "stat k' t = T_SUSPEND"
  proof (cases "b t")
    case True
    then show ?thesis using w l by (simp add: woken_def)
  next
    case False
    then have "t \<in> set (lists k l)" using w l by (simp add: woken_def)
    then have "stat k t = T_SUSPEND" using assms(1) l(1) by (auto simp: waits_ok_def)
    then show ?thesis using w False by (auto simp: woken_def active_stat_def)
  qed
qed

lemma ticks_waits:
  "tick_ok k \<Longrightarrow> waits_ok k \<Longrightarrow> rt_ticks m user k = Some k' \<Longrightarrow> waits_ok k'"
proof (induction m arbitrary: k)
  case (Suc m)
  from tick_spec [OF Suc.prems(1)] obtain k1 where k1: "rt_tick_increase user k = Some k1" "tick_ok k1"
    "\<forall>t. woken (TThread t \<in> set (hard k) \<and> tm_timeout (tmrs k (TThread t)) = now k + 1) k k1 t" by blast
  have "waits_ok k1" by (rule tick_waits [OF Suc.prems(2) k1(3)])
  then show ?case using Suc.IH [OF k1(2)] Suc.prems(3) k1(1) by simp
qed simp

text \<open>The situation in which a thread blocks: it runs, the scheduler is unlocked, no tick is
  being served and another thread is ready (the idle thread always is).\<close>

definition can_block :: "tid \<Rightarrow> kern \<Rightarrow> bool" where
  "can_block t k \<longleftrightarrow> tick_ok k \<and> waits_ok k \<and> cur k = Some t \<and> stat k t = T_RUNNING \<and> int_nest k = 0 \<and>
     lock_nest k = 0 \<and> ready_group k \<noteq> 0"

lemma can_blockD:
  "can_block t k \<Longrightarrow> ipc_inv k" "can_block t k \<Longrightarrow> cur k = Some t" "can_block t k \<Longrightarrow> stat k t = T_RUNNING"
  "can_block t k \<Longrightarrow> in_thread_context k" "can_block t k \<Longrightarrow> lock_nest k = 0" "can_block t k \<Longrightarrow> ready_group k \<noteq> 0"
  by (simp_all add: can_block_def ipc_inv_def tick_ok_def in_thread_context_def)

lemma can_block_clear: "can_block t k \<Longrightarrow> can_block t (clear_error t k)"
  using ipc_inv_clear [of k t]
  by (auto simp: can_block_def ipc_inv_def tick_ok_def due_def thread_timers_only_def)

context wait_order
begin

lemma block_on_tick_ok:
  assumes "can_block t k" "wait_list l" "time < 0x7fffffff" "block_on ins l time t k = Some k'"
  shows "tick_ok k' \<and> waits_ok k'"
proof -
  note c = can_blockD [OF assms(1)]
  from block_on_spec [OF c(1-3) assms(2) c(5,6) assms(3)] assms(4) obtain c' where
    k': "ipc_inv k'" "cur k' = Some c'"
    "set (hard k') = (if 0 < time then insert (TThread t) (set (hard k)) else set (hard k) - {TThread t})"
    "0 < time \<longrightarrow> tm_timeout (tmrs k' (TThread t)) = now k + word_of_int time" "now k' = now k"
    "\<forall>m. m \<noteq> TThread t \<longrightarrow> tm_timeout (tmrs k' m) = tm_timeout (tmrs k m)" by auto
  have "(word_of_int time :: 32 word) \<noteq> 0" if "0 < time"
  proof
    assume "(word_of_int time :: 32 word) = 0"
    then have "uint (word_of_int time :: 32 word) = 0" by simp
    then show False using that assms(3) by (simp add: uint_word_of_int)
  qed
  then have "tm_timeout (tmrs k' m) \<noteq> now k'" if "m \<in> set (hard k')" for m
    using that assms(1) k'(3-6)
    by (cases "m = TThread t") (auto simp: can_block_def tick_ok_def due_def filter_empty_conv split: if_splits)
  then have "due k' = []" by (auto simp: due_def filter_empty_conv)
  then show ?thesis
    using k' assms(1) by (auto simp: can_block_def tick_ok_def ipc_inv_def thread_timers_only_def split: if_splits)
qed

end

lemmas ipc_wait_tick_ok = ipcq.block_on_tick_ok [folded ipc_wait_def]

text \<open>Blocking with the error field cleared first, as the calls do.\<close>

context wait_order
begin

lemma block_on_cleared:
  assumes "can_block t k" "wait_list l" "time < 0x7fffffff"
  shows "\<exists>k'. block_on ins l time t (clear_error t k) = Some k' \<and> ipc_inv k' \<and> cur k' \<noteq> None \<and> cur k' \<noteq> Some t \<and>
    stat k' t = T_SUSPEND \<and> err k' t = RT_EOK \<and> now k' = now k \<and>
    (\<forall>m. wait_list m \<longrightarrow> lists k' m = ((lists k)(l := ins k t (lists k l))) m)"
proof -
  note c = can_blockD [OF can_block_clear [OF assms(1)]]
  have pr: "ins (clear_error t k) = ins k" by (rule by_prio, rule ext) simp
  from block_on_spec [OF c(1-3) assms(2) c(5,6) assms(3)] obtain k' c' where
    k': "block_on ins l time t (clear_error t k) = Some k'" "ipc_inv k'" "cur k' = Some c'" "c' \<noteq> t"
    "tcbs k' t = (tcbs (clear_error t k) t)\<lparr>t_stat := T_SUSPEND, t_linked := True\<rparr>" "now k' = now k"
    "\<forall>m. wait_list m \<longrightarrow> lists k' m = ((lists k)
      (l := ins (clear_error t k) t (lists k l))) m"
    by auto
  then show ?thesis unfolding pr by simp
qed

end

lemmas block_cleared = ipcq.block_on_cleared [folded ipc_wait_def]

text \<open>What is left of the waiting time when a thread that waited since tick \<open>t0\<close> runs again: the
  subtraction is done on unsigned ticks and read back as a signed number.\<close>

definition time_left :: "int \<Rightarrow> 32 word \<Rightarrow> kern \<Rightarrow> int" where
  "time_left timeout t0 k =
     (if 0 < timeout then
        (let r = sint (word_of_int timeout - (now k - t0)) in if r < 0 then 0 else r)
      else timeout)"

text \<open>A timed wait that nobody serves: suspended until the time is over, then ready with the
  timeout error and off the list.\<close>

context wait_order
begin

lemma block_on_expires:
  assumes "can_block t k" "wait_list l" "0 < time" "time < 0x7fffffff" "block_on ins l time t k = Some k1"
  shows "\<exists>k2. rt_ticks m user k1 = Some k2 \<and> tick_ok k2 \<and> waits_ok k2 \<and>
    (if int m < time then stat k2 t = T_SUSPEND
     else active_stat (stat k2 t) \<and> err k2 t = RT_ETIMEOUT \<and> t \<notin> set (lists k2 l))"
proof -
  note c = can_blockD [OF assms(1)]
  note ok = block_on_tick_ok [OF assms(1,2,4,5)]
  from block_on_spec [OF c(1-3) assms(2) c(5,6) assms(4)] assms(3,5) have
    k1: "TThread t \<in> set (hard k1)" "stat k1 t = T_SUSPEND"
    "tm_timeout (tmrs k1 (TThread t)) = now k1 + word_of_int time" by auto
  have "uint (word_of_int time :: 32 word) = time" using assms(3,4) by (simp add: uint_word_of_int)
  then have "unat (word_of_int time :: 32 word) = nat time" by (simp flip: nat_uint_eq)
  then have "tdist (now k1) (tm_timeout (tmrs k1 (TThread t))) = nat time"
    using assms(4) k1(3) by (simp add: tdist_later)
  then obtain k2 where k2: "rt_ticks m user k1 = Some k2" "tick_ok k2"
    "if m < nat time then stat k2 t = T_SUSPEND else active_stat (stat k2 t) \<and> t_error (tcbs k2 t) = RT_ETIMEOUT"
    using ticks_wake [of k1 t "nat time" m user] ok k1 by auto
  have w: "waits_ok k2" by (rule ticks_waits [OF _ _ k2(1)]) (use ok in auto)
  then have "active_stat (stat k2 t) \<Longrightarrow> t \<notin> set (lists k2 l)"
    using assms(2) by (auto simp: waits_ok_def active_stat_def)
  moreover have "m < nat time \<longleftrightarrow> int m < time" by auto
  ultimately show ?thesis using k2 w by auto
qed

end

lemmas timed_wait_expires = ipcq.block_on_expires [folded ipc_wait_def]

text \<open>The example kernel can block: its thread 1 runs, three others are ready.\<close>

lemma kern_example_waits: "wait_list l \<Longrightarrow> lists kern_example l = []"
  by (cases l) (simp_all add: kern_example_def)

lemma kern_example_simps [simplified]:
  "stat kern_example 1 = T_RUNNING" "cur kern_example = Some 1" "prio kern_example 1 = 5"
  "int_nest kern_example = 0" "lock_nest kern_example = 0" "ready_group kern_example \<noteq> 0"
  by (simp_all add: kern_example_def tcb_at_def)

lemma kern_example_can_block: "can_block 1 kern_example"
proof -
  have "waits_ok kern_example" using kern_example_waits by (simp add: waits_ok_def)
  then show ?thesis using kern_example_tick_ok kern_example_simps by (simp add: can_block_def)
qed

end
