(* ===== verification/Sem.thy ===== *)
theory Sem
  imports Ipc
begin

text \<open>
  Semaphores, \<^verbatim>\<open>src/ipc.c\<close> lines 199 to 515. A semaphore is its 16-bit value and its queueing
  flag; its waiting list is the kernel list \<open>LSuspend o\<close> of its identity \<open>o\<close>. The lemmas show
  that each operation refines a counting semaphore with a queue.
\<close>

section \<open>Operations\<close>

record sem =
  sem_value :: "16 word"
  sem_flag :: ipc_flag

definition rt_sem_init :: "nat \<Rightarrow> nat \<Rightarrow> ipc_flag \<Rightarrow> kern \<Rightarrow> (kern \<times> sem) option" where
  "rt_sem_init o' value flag k =
     (if value < 0x10000
      then Some (k\<lparr>lists := (lists k)(LSuspend o' := [])\<rparr>, \<lparr>sem_value = of_nat value, sem_flag = flag\<rparr>)
      else None)"

definition rt_sem_detach :: "nat \<Rightarrow> kern \<Rightarrow> kern option" where
  "rt_sem_detach o' k = rt_ipc_list_resume_all (LSuspend o') k"

definition rt_sem_take_resume :: "tid \<Rightarrow> kern \<Rightarrow> rt_err" where
  "rt_sem_take_resume t k = (if err k t \<noteq> RT_EOK then err k t else RT_EOK)"

definition rt_sem_take :: "nat \<Rightarrow> int \<Rightarrow> sem \<Rightarrow> kern \<Rightarrow> (kern \<times> sem \<times> rt_err outcome) option" where
  "rt_sem_take o' time s k =
     (if 0 < sem_value s then Some (k, s\<lparr>sem_value := sem_value s - 1\<rparr>, Done RT_EOK)
      else if time = 0 then Some (k, s, Done RT_ETIMEOUT)
      else if in_thread_context k then
        do {
          t \<leftarrow> cur k;
          k1 \<leftarrow> ipc_wait (LSuspend o') (sem_flag s) time t (clear_error t k);
          Some (k1, s, if cur k1 = Some t then Done (rt_sem_take_resume t k1) else Waits)
        }
      else None)"

definition rt_sem_trytake :: "nat \<Rightarrow> sem \<Rightarrow> kern \<Rightarrow> (kern \<times> sem \<times> rt_err outcome) option" where
  "rt_sem_trytake o' s k = rt_sem_take o' 0 s k"

definition rt_sem_release :: "nat \<Rightarrow> sem \<Rightarrow> kern \<Rightarrow> (kern \<times> sem) option" where
  "rt_sem_release o' s k =
     (if lists k (LSuspend o') \<noteq> [] then
        do {
          k1 \<leftarrow> rt_ipc_list_resume (LSuspend o') k;
          k2 \<leftarrow> rt_schedule k1;
          Some (k2, s)
        }
      else Some (k, s\<lparr>sem_value := sem_value s + 1\<rparr>))"

text \<open>\<^verbatim>\<open>RT_IPC_CMD_RESET\<close>; any other command is an error.\<close>

definition rt_sem_control :: "nat \<Rightarrow> 32 word option \<Rightarrow> sem \<Rightarrow> kern \<Rightarrow> (kern \<times> sem \<times> rt_err) option" where
  "rt_sem_control o' reset s k =
     (case reset of
        Some value \<Rightarrow> do {
          k1 \<leftarrow> rt_ipc_list_resume_all (LSuspend o') k;
          k2 \<leftarrow> rt_schedule k1;
          Some (k2, s\<lparr>sem_value := ucast value\<rparr>, RT_EOK)
        }
      | None \<Rightarrow> Some (k, s, RT_ERROR))"

section \<open>The abstract semaphore\<close>

text \<open>A counter and a queue of waiting threads.\<close>

datatype sem_event = Acquired | Refused | Queued | Released

inductive sem_step :: "(tid \<Rightarrow> tid list \<Rightarrow> tid list) \<Rightarrow> tid \<Rightarrow> sem_event \<Rightarrow> nat \<times> tid list \<Rightarrow> nat \<times> tid list \<Rightarrow> bool"
  for ins :: "tid \<Rightarrow> tid list \<Rightarrow> tid list" where
  acquire: "sem_step ins t Acquired (Suc v, q) (v, q)"
| refuse: "sem_step ins t Refused (0, q) (0, q)"
| queue: "sem_step ins t Queued (0, q) (0, ins t q)"
| signal: "sem_step ins t Released (v, []) (Suc v, [])"
| hand_over: "sem_step ins t Released (v, x # q) (v, q)"

inductive_simps sem_step_simps:
  "sem_step ins t Acquired a b" "sem_step ins t Refused a b" "sem_step ins t Queued a b" "sem_step ins t Released a b"

inductive_cases sem_stepE: "sem_step ins t e a b"

text \<open>A thread waits only while the counter is zero, whatever the order of the operations.\<close>

definition sem_consistent :: "nat \<times> tid list \<Rightarrow> bool" where
  "sem_consistent a \<longleftrightarrow> snd a = [] \<or> fst a = 0"

lemma sem_step_consistent [inv_intro]: "sem_step ins t e a b \<Longrightarrow> sem_consistent a \<Longrightarrow> sem_consistent b"
  by (erule sem_stepE) (auto simp: sem_consistent_def)

definition sem_abs :: "nat \<Rightarrow> sem \<Rightarrow> kern \<Rightarrow> nat \<times> tid list" where
  "sem_abs o' s k = (unat (sem_value s), lists k (LSuspend o'))"

fun take_event :: "rt_err outcome \<Rightarrow> sem_event" where
  "take_event Waits = Queued"
| "take_event (Done e) = (if e = RT_EOK then Acquired else Refused)"

section \<open>Properties\<close>

lemma take_blocks:
  assumes "can_block t k" "sem_value s = 0" "time \<noteq> 0" "time < 0x7fffffff"
  shows "\<exists>k'. rt_sem_take o' time s k = Some (k', s, Waits) \<and>
    ipc_wait (LSuspend o') (sem_flag s) time t (clear_error t k) = Some k' \<and> ipc_inv k' \<and>
    stat k' t = T_SUSPEND \<and> err k' t = RT_EOK \<and>
    lists k' (LSuspend o') = wait_insert (sem_flag s) (prio k) t (lists k (LSuspend o'))"
proof -
  have cb: "can_block t (clear_error t k)" by (rule can_block_clear [OF assms(1)])
  note c = can_blockD [OF cb]
  have pr: "prio (clear_error t k) = prio k" by (rule ext) simp
  from ipc_wait_spec [OF c(1-3) _ c(5,6) assms(4), of "LSuspend o'" "sem_flag s"] obtain k' c' where
    k': "ipc_wait (LSuspend o') (sem_flag s) time t (clear_error t k) = Some k'" "ipc_inv k'" "cur k' = Some c'" "c' \<noteq> t"
    "tcbs k' t = (tcbs (clear_error t k) t)\<lparr>t_stat := T_SUSPEND, t_linked := True\<rparr>"
    "\<forall>m. wait_list m \<longrightarrow> lists k' m = ((lists (clear_error t k))
      (LSuspend o' := wait_insert (sem_flag s) (prio (clear_error t k)) t (lists (clear_error t k) (LSuspend o')))) m"
    by auto
  have "lists k' (LSuspend o') = wait_insert (sem_flag s) (prio k) t (lists k (LSuspend o'))"
    using k'(6) pr by simp
  then show ?thesis
    using assms(2,3) k' can_blockD(2,4) [OF assms(1)] by (simp add: rt_sem_take_def)
qed

text \<open>C8. Semaphores refine the counting semaphore with a queue: from any state in which the
  calling thread may block, \<^verbatim>\<open>rt_sem_take\<close> with any waiting time and \<^verbatim>\<open>rt_sem_release\<close> below the
  16-bit limit return, keep the kernel invariant, and act on value and queue as one step of
  the abstract semaphore, the step named by the return value.\<close>

theorem sem_refines:
  assumes "can_block t k" "time < 0x7fffffff" "unat (sem_value s) < 65535"
  shows "(\<exists>k' s' r. rt_sem_take o' time s k = Some (k', s', r) \<and> ipc_inv k' \<and>
      sem_step (wait_insert (sem_flag s) (prio k)) t (take_event r) (sem_abs o' s k) (sem_abs o' s' k')) \<and>
    (\<exists>k' s'. rt_sem_release o' s k = Some (k', s') \<and> ipc_inv k' \<and>
      sem_step (wait_insert (sem_flag s) (prio k)) t Released (sem_abs o' s k) (sem_abs o' s' k'))"
proof
  note c = can_blockD [OF assms(1)]
  show "\<exists>k' s' r. rt_sem_take o' time s k = Some (k', s', r) \<and> ipc_inv k' \<and>
      sem_step (wait_insert (sem_flag s) (prio k)) t (take_event r) (sem_abs o' s k) (sem_abs o' s' k')"
  proof (cases "sem_value s = 0")
    case False
    then have "unat (sem_value s) = Suc (unat (sem_value s - 1))" by (simp add: unat_minus_one unat_gt_0)
    then show ?thesis using False c(1)
      by (simp add: rt_sem_take_def sem_abs_def sem_step_simps word_greater_zero_iff)
  next
    case z: True
    show ?thesis
    proof (cases "time = 0")
      case True
      then show ?thesis using z c(1) by (simp add: rt_sem_take_def sem_abs_def sem_step_simps)
    next
      case False
      from take_blocks [OF assms(1) z False assms(2), of o'] show ?thesis
        using z by (auto simp: sem_abs_def sem_step_simps)
    qed
  qed
next
  note c = can_blockD [OF assms(1)]
  show "\<exists>k' s'. rt_sem_release o' s k = Some (k', s') \<and> ipc_inv k' \<and>
      sem_step (wait_insert (sem_flag s) (prio k)) t Released (sem_abs o' s k) (sem_abs o' s' k')"
  proof (cases "lists k (LSuspend o')")
    case Nil
    have "unat (sem_value s + 1) = Suc (unat (sem_value s))" using assms(3) by (simp add: unat_word_ariths)
    then show ?thesis using Nil c(1) by (simp add: rt_sem_release_def sem_abs_def sem_step_simps)
  next
    case (Cons x q)
    from wake_first_spec [OF c(1) Cons _ c(2)] show ?thesis
      using Cons by (auto simp: rt_sem_release_def sem_abs_def sem_step_simps)
  qed
qed

theorem sem_refines_witness:
  "\<exists>k' s' r. rt_sem_take 0 (- 1) \<lparr>sem_value = 0, sem_flag = RT_IPC_FLAG_FIFO\<rparr> kern_example = Some (k', s', r) \<and>
     sem_step (wait_insert RT_IPC_FLAG_FIFO (prio kern_example)) 1 (take_event r) (0, []) (sem_abs 0 s' k')"
  using sem_refines [OF kern_example_can_block, of "- 1" "\<lparr>sem_value = 0, sem_flag = RT_IPC_FLAG_FIFO\<rparr>" 0]
  by (auto simp: sem_abs_def kern_example_waits)

text \<open>C34. A release hands the token to the first waiting thread: that thread leaves the list, is
  ready or already running, its timer is off and its \<^verbatim>\<open>rt_sem_take\<close> will return success; the
  value does not change, so the token cannot be taken by another thread in between.\<close>

theorem sem_release_hands_over:
  assumes "ipc_inv k" "cur k = Some c" "lists k (LSuspend o') = t # ts" "err k t = RT_EOK"
  shows "\<exists>k' c'. rt_sem_release o' s k = Some (k', s) \<and> ipc_inv k' \<and> cur k' = Some c' \<and> active_stat (stat k' t) \<and>
    rt_sem_take_resume t k' = RT_EOK \<and> TThread t \<notin> set (hard k') \<and> lists k' (LSuspend o') = ts"
  using wake_first_spec [OF assms(1,3) _ assms(2)] assms(3,4)
  by (auto simp: rt_sem_release_def rt_sem_take_resume_def)

text \<open>Thread 1 waits on an empty semaphore; thread 2, which runs then, releases it.\<close>

theorem sem_release_hands_over_witness:
  "\<exists>k1 s1 k2. rt_sem_take 0 (- 1) \<lparr>sem_value = 0, sem_flag = RT_IPC_FLAG_PRIO\<rparr> kern_example = Some (k1, s1, Waits) \<and>
     rt_sem_release 0 s1 k1 = Some (k2, s1) \<and> rt_sem_take_resume 1 k2 = RT_EOK \<and> lists k2 (LSuspend 0) = []"
proof -
  let ?s = "\<lparr>sem_value = 0, sem_flag = RT_IPC_FLAG_PRIO\<rparr>"
  from take_blocks [OF kern_example_can_block, of ?s "- 1" 0] obtain k1 where
    k1: "rt_sem_take 0 (- 1) ?s kern_example = Some (k1, ?s, Waits)" "ipc_inv k1" "err k1 1 = RT_EOK"
    "lists k1 (LSuspend 0) = [1]"
    "ipc_wait (LSuspend 0) RT_IPC_FLAG_PRIO (- 1) 1 (clear_error 1 kern_example) = Some k1"
    by (auto simp: kern_example_waits)
  have "can_block 1 (clear_error 1 kern_example)" by (rule can_block_clear [OF kern_example_can_block])
  from ipc_wait_tick_ok [OF this _ _ k1(5)] obtain c where "cur k1 = Some c" by (auto simp: tick_ok_def)
  from sem_release_hands_over [OF k1(2) this k1(4,3), of ?s] k1(1) show ?thesis by blast
qed

text \<open>C29. A timed take on an empty semaphore that nobody releases: the thread is suspended for
  exactly the given number of ticks, then it is ready or running, off the waiting list, and
  its \<^verbatim>\<open>rt_sem_take\<close> returns the timeout error.\<close>

theorem sem_take_times_out:
  assumes "can_block t k" "sem_value s = 0" "0 < time" "time < 0x7fffffff"
  shows "\<exists>k1 k2. rt_sem_take o' time s k = Some (k1, s, Waits) \<and> rt_ticks m user k1 = Some k2 \<and> tick_ok k2 \<and>
    (if int m < time then stat k2 t = T_SUSPEND
     else active_stat (stat k2 t) \<and> rt_sem_take_resume t k2 = RT_ETIMEOUT \<and> t \<notin> set (lists k2 (LSuspend o')))"
proof -
  have "time \<noteq> 0" using assms(3) by simp
  from take_blocks [OF assms(1,2) this assms(4), of o'] obtain k1 where
    k1: "rt_sem_take o' time s k = Some (k1, s, Waits)"
    "ipc_wait (LSuspend o') (sem_flag s) time t (clear_error t k) = Some k1" by blast
  have cb: "can_block t (clear_error t k)" by (rule can_block_clear [OF assms(1)])
  obtain k2 where "rt_ticks m user k1 = Some k2" "tick_ok k2"
    "if int m < time then stat k2 t = T_SUSPEND
     else active_stat (stat k2 t) \<and> err k2 t = RT_ETIMEOUT \<and> t \<notin> set (lists k2 (LSuspend o'))"
    using timed_wait_expires [OF cb _ assms(3,4) k1(2), of m user] by auto
  then show ?thesis using k1(1) by (simp add: rt_sem_take_resume_def)
qed

theorem sem_take_times_out_witness:
  "\<exists>k1 k2. rt_sem_take 0 20 \<lparr>sem_value = 0, sem_flag = RT_IPC_FLAG_FIFO\<rparr> kern_example =
       Some (k1, \<lparr>sem_value = 0, sem_flag = RT_IPC_FLAG_FIFO\<rparr>, Waits) \<and>
     rt_ticks 20 (\<lambda>_. Some) k1 = Some k2 \<and> rt_sem_take_resume 1 k2 = RT_ETIMEOUT"
  using sem_take_times_out [OF kern_example_can_block, of "\<lparr>sem_value = 0, sem_flag = RT_IPC_FLAG_FIFO\<rparr>" 20 0 20 "\<lambda>_. Some"]
  by auto

section \<open>Two limits\<close>

text \<open>The value is not checked against its 16 bits.\<close>

lemma sem_release_wraps:
  "lists k (LSuspend o') = [] \<Longrightarrow> rt_sem_release o' \<lparr>sem_value = 65535, sem_flag = f\<rparr> k =
    Some (k, \<lparr>sem_value = 0, sem_flag = f\<rparr>)"
  by (simp add: rt_sem_release_def)

text \<open>Called with the scheduler locked, a take on an empty semaphore reports success at once
  although no token was there: the caller is put on the waiting list and marked suspended,
  nothing is switched, and the error field it then reads is the one it has just cleared.\<close>

theorem sem_take_in_critical_section:
  assumes "ipc_inv k" "cur k = Some t" "stat k t = T_RUNNING" "int_nest k = 0" "lock_nest k \<noteq> 0"
    and "sem_value s = 0" "time < 0"
  shows "\<exists>k'. rt_sem_take o' time s k = Some (k', s, Done RT_EOK) \<and> stat k' t = T_SUSPEND \<and>
    t \<in> set (lists k' (LSuspend o'))"
proof -
  have i: "ipc_inv (clear_error t k)" by (rule ipc_inv_clear [OF assms(1)])
  from ipc_wait_locked [OF i, of t "LSuspend o'" time "sem_flag s"] assms obtain k' where
    "ipc_wait (LSuspend o') (sem_flag s) time t (clear_error t k) = Some k'" "cur k' = Some t" "stat k' t = T_SUSPEND"
    "err k' t = RT_EOK" "t \<in> set (lists k' (LSuspend o'))" by auto
  then show ?thesis
    using assms by (simp add: rt_sem_take_def in_thread_context_def rt_sem_take_resume_def)
qed

theorem sem_take_in_critical_section_witness:
  "\<exists>k'. rt_sem_take 0 (- 1) \<lparr>sem_value = 0, sem_flag = RT_IPC_FLAG_FIFO\<rparr> (rt_enter_critical kern_example) =
     Some (k', \<lparr>sem_value = 0, sem_flag = RT_IPC_FLAG_FIFO\<rparr>, Done RT_EOK) \<and> stat k' 1 = T_SUSPEND"
proof -
  let ?k = "rt_enter_critical kern_example"
  have "ipc_inv kern_example" using can_blockD(1) [OF kern_example_can_block] .
  then have "kinv ?k" "tminv ?k" "waits_ok ?k"
    using kinvX_cong [of "{}" kern_example ?k] tminv_frame [of kern_example ?k]
    by (auto simp: ipc_inv_def rt_enter_critical_def waits_ok_def)
  then have "ipc_inv ?k" by (simp add: ipc_inv_def)
  moreover have "cur ?k = Some 1" "stat ?k 1 = T_RUNNING" "int_nest ?k = 0" "lock_nest ?k \<noteq> 0"
    by (simp_all add: rt_enter_critical_def kern_example_def tcb_at_def)
  ultimately show ?thesis
    using sem_take_in_critical_section [of ?k 1 "\<lparr>sem_value = 0, sem_flag = RT_IPC_FLAG_FIFO\<rparr>" "- 1" 0] by auto
qed

end
