(* ===== verification/Mutex.thy ===== *)
theory Mutex
  imports Ipc
begin

text \<open>
  Mutexes, \<^verbatim>\<open>src/ipc.c\<close> lines 530 to 900: recursive, owned by a thread, with priority
  inheritance. The label \<^verbatim>\<open>__again\<close> of \<^verbatim>\<open>rt_mutex_take\<close> is \<open>mutex_again\<close>: it is entered from the
  start of the call and after a wait that was interrupted by a signal. The waiting list of
  the mutex \<open>o\<close> is \<open>LSuspend o\<close>.
\<close>

section \<open>Operations\<close>

record mutex =
  mx_value :: "16 word"
  mx_orig :: nat
  mx_hold :: "8 word"
  mx_owner :: "tid option"
  mx_flag :: ipc_flag

definition rt_mutex_init :: "nat \<Rightarrow> ipc_flag \<Rightarrow> kern \<Rightarrow> kern \<times> mutex" where
  "rt_mutex_init o' flag k =
     (k\<lparr>lists := (lists k)(LSuspend o' := [])\<rparr>,
      \<lparr>mx_value = 1, mx_orig = 0xFF, mx_hold = 0, mx_owner = None, mx_flag = flag\<rparr>)"

definition rt_mutex_detach :: "nat \<Rightarrow> kern \<Rightarrow> kern option" where
  "rt_mutex_detach o' k = rt_ipc_list_resume_all (LSuspend o') k"

partial_function (option) mutex_again ::
  "nat \<Rightarrow> int \<Rightarrow> tid \<Rightarrow> mutex \<Rightarrow> kern \<Rightarrow> (kern \<times> mutex \<times> rt_err outcome) option" where
  "mutex_again o' time t m k =
     (if 0 < mx_value m then
        Some (k, m\<lparr>mx_value := mx_value m - 1, mx_owner := Some t, mx_orig := prio k t, mx_hold := mx_hold m + 1\<rparr>,
          Done RT_EOK)
      else if time = 0 then
        Some (upd_tcb t (\<lambda>c. c\<lparr>t_error := RT_ETIMEOUT\<rparr>) k, m, Done RT_ETIMEOUT)
      else do {
        w \<leftarrow> mx_owner m;
        k1 \<leftarrow> (if prio k t < prio k w then rt_thread_control w (CTRL_CHANGE_PRIORITY (prio k t)) k else Some k);
        k2 \<leftarrow> ipc_wait (LSuspend o') (mx_flag m) time t k1;
        if cur k2 = Some t then
          (if err k2 t = RT_EINTR then mutex_again o' time t m k2 else Some (k2, m, Done (err k2 t)))
        else Some (k2, m, Waits)
      })"

declare mutex_again.simps [code]

definition rt_mutex_take :: "nat \<Rightarrow> int \<Rightarrow> mutex \<Rightarrow> kern \<Rightarrow> (kern \<times> mutex \<times> rt_err outcome) option" where
  "rt_mutex_take o' time m k =
     (if in_thread_context k then
        do {
          t \<leftarrow> cur k;
          let k0 = clear_error t k;
          if mx_owner m = Some t then Some (k0, m\<lparr>mx_hold := mx_hold m + 1\<rparr>, Done RT_EOK)
          else mutex_again o' time t m k0
        }
      else None)"

text \<open>What a waiting thread does when it runs again.\<close>

definition rt_mutex_take_resume ::
  "nat \<Rightarrow> int \<Rightarrow> tid \<Rightarrow> mutex \<Rightarrow> kern \<Rightarrow> (kern \<times> mutex \<times> rt_err outcome) option" where
  "rt_mutex_take_resume o' time t m k =
     (if err k t = RT_EINTR then mutex_again o' time t m k else Some (k, m, Done (err k t)))"

definition rt_mutex_release :: "nat \<Rightarrow> mutex \<Rightarrow> kern \<Rightarrow> (kern \<times> mutex \<times> rt_err) option" where
  "rt_mutex_release o' m k =
     (if in_thread_context k then
        do {
          t \<leftarrow> cur k;
          if mx_owner m \<noteq> Some t then Some (upd_tcb t (\<lambda>c. c\<lparr>t_error := RT_ERROR\<rparr>) k, m, RT_ERROR)
          else
            let h = mx_hold m - 1 in
            if h = 0 then
              do {
                k1 \<leftarrow> (if mx_orig m \<noteq> prio k t
                       then rt_thread_control t (CTRL_CHANGE_PRIORITY (mx_orig m)) k else Some k);
                case lists k1 (LSuspend o') of
                  x # _ \<Rightarrow> do {
                    k2 \<leftarrow> rt_ipc_list_resume (LSuspend o') k1;
                    k3 \<leftarrow> rt_schedule k2;
                    Some (k3, m\<lparr>mx_hold := h + 1, mx_owner := Some x, mx_orig := prio k1 x\<rparr>, RT_EOK)
                  }
                | [] \<Rightarrow> Some (k1, m\<lparr>mx_hold := h, mx_value := mx_value m + 1, mx_owner := None, mx_orig := 0xff\<rparr>, RT_EOK)
              }
            else Some (k, m\<lparr>mx_hold := h\<rparr>, RT_EOK)
        }
      else None)"

definition rt_mutex_control :: "mutex \<Rightarrow> rt_err" where
  "rt_mutex_control m = RT_ERROR"

section \<open>The invariant of a mutex\<close>

text \<open>
  Free: value 1, nobody waits. Held: value 0, a positive hold count, an owner that is a live
  thread and does not wait for the mutex itself. With the priority queueing flag the queue
  is in order of priority and the owner's priority is at least that of every waiter.
\<close>

definition inherited :: "mutex \<Rightarrow> nat \<Rightarrow> kern \<Rightarrow> bool" where
  "inherited m o' k \<longleftrightarrow> sorted (map (prio k) (lists k (LSuspend o'))) \<and>
     (case mx_owner m of None \<Rightarrow> True | Some w \<Rightarrow> list_all (\<lambda>x. prio k w \<le> prio k x) (lists k (LSuspend o')))"

definition mutex_ok :: "nat \<Rightarrow> mutex \<Rightarrow> kern \<Rightarrow> bool" where
  "mutex_ok o' m k \<longleftrightarrow>
     (case mx_owner m of
        None \<Rightarrow> mx_value m = 1 \<and> mx_hold m = 0 \<and> lists k (LSuspend o') = []
      | Some w \<Rightarrow> mx_value m = 0 \<and> mx_hold m \<noteq> 0 \<and> mx_orig m < 32 \<and> w \<notin> set (lists k (LSuspend o')) \<and>
          stat k w \<noteq> T_INIT) \<and>
     (mx_flag m = RT_IPC_FLAG_PRIO \<longrightarrow> inherited m o' k)"

lemma rt_mutex_init_ok: "rt_mutex_init o' flag k = (k', m) \<Longrightarrow> mutex_ok o' m k'"
  by (auto simp: rt_mutex_init_def mutex_ok_def inherited_def)

text \<open>Raising the owner to the priority of the caller.\<close>

lemma raise_owner:
  assumes "can_block t k" "w \<noteq> t" "stat k w \<noteq> T_INIT"
  shows "\<exists>k1. (if prio k t < prio k w then rt_thread_control w (CTRL_CHANGE_PRIORITY (prio k t)) k else Some k) = Some k1 \<and>
    can_block t k1 \<and> (\<forall>l. wait_list l \<longrightarrow> lists k1 l = lists k l) \<and> prio k1 w = min (prio k w) (prio k t) \<and>
    (\<forall>x. x \<noteq> w \<longrightarrow> tcbs k1 x = tcbs k x) \<and> stat k1 w = stat k w"
proof (cases "prio k t < prio k w")
  case False
  then show ?thesis using assms(1) by auto
next
  case True
  note c = can_blockD [OF assms(1)]
  note i = ipc_invD [OF c(1)]
  have "prio k t < 32"
    using kinvX_thread [OF i(1), of t] c(3) by (auto simp: thread_ok_def dest: prio_okD)
  from change_priority_spec [OF i(1) assms(3) this] obtain k1 where
    k1: "change_priority w (prio k t) k = Some k1" "kinv k1" "cur k1 = cur k" "hard k1 = hard k" "soft k1 = soft k"
    "tmrs k1 = tmrs k" "now k1 = now k" "lock_nest k1 = lock_nest k" "int_nest k1 = int_nest k"
    "tcbs k1 = (tcbs k)(w := (tcbs k w)\<lparr>t_prio := prio k t, t_mask := 2 ^ prio k t\<rparr>)"
    "\<forall>l. (\<forall>q. l \<noteq> LReady q) \<longrightarrow> lists k1 l = lists k l"
    "if stat k w = T_READY then lists k1 (LReady (prio k t)) = removeAll w (lists k (LReady (prio k t))) @ [w]
     else lists k1 = lists k" by blast
  have wl: "lists k1 l = lists k l" if "wait_list l" for l using k1(11) that by (cases l) auto
  have st: "stat k1 x = stat k x" for x by (simp add: k1(10))
  have "tminv k1" by (rule tminv_frame [OF i(2)]) (use k1 in auto)
  moreover have "waits_ok k1" using i(3) wl st by (auto simp: waits_ok_def)
  moreover have "ready_group k1 \<noteq> 0"
    using k1(12) c(6) ready_exists [OF i(1)] ready_exists [OF k1(2)] \<open>prio k t < 32\<close>
    by (auto split: if_splits)
  ultimately have "can_block t k1"
    using assms(1) k1 st by (auto simp: can_block_def tick_ok_def due_def thread_timers_only_def)
  then show ?thesis using True k1(1,10) wl st by (auto simp: rt_thread_control_def)
qed

section \<open>Properties\<close>

lemma hold_no_wrap: "(h :: 8 word) \<noteq> 255 \<Longrightarrow> h + 1 \<noteq> 0"
proof
  assume a: "h \<noteq> 255" "h + 1 = 0"
  have "h = - 1" using a(2) by (simp add: eq_neg_iff_add_eq_0)
  moreover have "(- 1 :: 8 word) = 255" by simp
  ultimately show False using a(1) by metis
qed

lemma sorted_prio_cong: "(\<And>x. x \<in> set xs \<Longrightarrow> P x = Q x) \<Longrightarrow> sorted (map P xs) = sorted (map Q xs)"
  by (metis map_cong)

lemma mutex_ok_cong:
  assumes "mutex_ok o' m k" "lists k' (LSuspend o') = lists k (LSuspend o')" "\<And>x. prio k' x = prio k x"
    "\<And>x. stat k' x = stat k x"
  shows "mutex_ok o' m k'"
proof -
  have "prio k' = prio k" using assms(3) by (rule ext)
  then have "inherited m o' k' \<longleftrightarrow> inherited m o' k" using assms(2,3) by (simp add: inherited_def split: option.splits)
  then show ?thesis using assms(1,2,4) by (simp add: mutex_ok_def split: option.splits)
qed

lemma mutex_heldD:
  assumes "mutex_ok o' m k" "mx_owner m = Some w"
  shows "mx_value m = 0" "mx_hold m \<noteq> 0" "mx_orig m < 32" "w \<notin> set (lists k (LSuspend o'))" "stat k w \<noteq> T_INIT"
  using assms by (simp_all add: mutex_ok_def)

text \<open>Queueing the caller on a held mutex keeps the inheritance clause.\<close>

lemma inherited_queue:
  assumes "inherited m o' k" "mx_owner m = Some w" "w \<noteq> t" "w \<notin> set (lists k (LSuspend o'))"
    and "lists k' (LSuspend o') = prio_insert (prio k) t (lists k (LSuspend o'))"
    and "prio k' w = min (prio k w) (prio k t)" "\<And>x. x \<noteq> w \<Longrightarrow> prio k' x = prio k x"
  shows "inherited m o' k'"
proof -
  let ?q = "lists k (LSuspend o')"
  have se: "set (prio_insert (prio k) t ?q) = insert t (set ?q)"
    using wait_q.set_ins [of RT_IPC_FLAG_PRIO "prio k" t ?q] by simp
  have pq: "prio k' x = prio k x" if "x \<in> set (prio_insert (prio k) t ?q)" for x
    by (rule assms(7)) (use that se assms(3,4) in auto)
  have "sorted (map (prio k) (prio_insert (prio k) t ?q))"
    using assms(1) by (simp add: prio_insert_sorted inherited_def)
  then have "sorted (map (prio k') (prio_insert (prio k) t ?q))"
    using sorted_prio_cong [of "prio_insert (prio k) t ?q" "prio k'" "prio k"] pq by simp
  moreover have "prio k' w \<le> prio k' x" if "x \<in> set (prio_insert (prio k) t ?q)" for x
    using that se assms(1,2,6) pq [OF that] by (auto simp: inherited_def list_all_iff min_le_iff_disj)
  ultimately show ?thesis using assms(2,5) by (simp add: inherited_def list_all_iff)
qed

text \<open>Waiting for a mutex held by another thread.\<close>

lemma take_held:
  assumes cb: "can_block t k" and ok: "mutex_ok o' m k" and w: "mx_owner m = Some w" "w \<noteq> t"
    and time: "time \<noteq> 0" "time < 0x7fffffff"
  shows "\<exists>k'. rt_mutex_take o' time m k = Some (k', m, Waits) \<and> ipc_inv k' \<and> mutex_ok o' m k' \<and>
    stat k' t = T_SUSPEND \<and> err k' t = RT_EOK \<and> prio k' w = min (prio k w) (prio k t) \<and>
    lists k' (LSuspend o') = wait_insert (mx_flag m) (prio k) t (lists k (LSuspend o'))"
proof -
  note c = can_blockD [OF cb] and m = mutex_heldD [OF ok w(1)]
  let ?k0 = "clear_error t k" and ?q = "lists k (LSuspend o')"
  have "stat ?k0 w \<noteq> T_INIT" using m(5) by auto
  from raise_owner [OF can_block_clear [OF cb] w(2) this] obtain k1 where
    k1: "(if prio ?k0 t < prio ?k0 w then rt_thread_control w (CTRL_CHANGE_PRIORITY (prio ?k0 t)) ?k0 else Some ?k0) = Some k1"
    "can_block t k1" "\<forall>l. wait_list l \<longrightarrow> lists k1 l = lists ?k0 l" "prio k1 w = min (prio ?k0 w) (prio ?k0 t)"
    "\<forall>x. x \<noteq> w \<longrightarrow> tcbs k1 x = tcbs ?k0 x" "stat k1 w = stat ?k0 w" by blast
  have k1w: "prio k1 w = min (prio k w) (prio k t)" "stat k1 w = stat k w" using k1(4,6) by simp_all
  note c1 = can_blockD [OF k1(2)]
  have q: "lists k1 (LSuspend o') = ?q" using k1(3) by simp
  have p1: "prio k1 x = prio k x" if "x \<noteq> w" for x using k1(5) that by simp
  have ins: "wait_insert (mx_flag m) (prio k1) t ?q = wait_insert (mx_flag m) (prio k) t ?q"
  proof (cases "mx_flag m")
    case RT_IPC_FLAG_PRIO
    have "prio_insert (prio k1) t ?q = prio_insert (prio k) t ?q"
      by (rule prio_insert_cong; rule p1) (use m(4) w(2) in auto)
    then show ?thesis using RT_IPC_FLAG_PRIO by simp
  qed simp
  from ipc_wait_spec [OF c1(1-3) _ c1(5,6) time(2), of "LSuspend o'" "mx_flag m"] obtain k2 c' where
    k2: "ipc_wait (LSuspend o') (mx_flag m) time t k1 = Some k2" "ipc_inv k2" "cur k2 = Some c'" "c' \<noteq> t"
    "tcbs k2 t = (tcbs k1 t)\<lparr>t_stat := T_SUSPEND, t_linked := True\<rparr>"
    "lists k2 (LSuspend o') = wait_insert (mx_flag m) (prio k) t ?q"
    "\<forall>x. x \<noteq> t \<longrightarrow> tcbs k2 x = tcbs k1 x \<or>
       active_stat (stat k1 x) \<and> active_stat (stat k2 x) \<and> same_but_stat (tcbs k1 x) (tcbs k2 x)"
    using q ins by auto
  have p2: "prio k2 x = prio k1 x" for x
    using k2(5,7) same_but_statD [of "tcbs k1 x" "tcbs k2 x"] by (cases "x = t") auto
  have sw: "stat k2 w \<noteq> T_INIT" using spec [OF k2(7), of w] k1w(2) m(5) w(2) by (auto simp: active_stat_def)
  have "inherited m o' k2" if "mx_flag m = RT_IPC_FLAG_PRIO"
    by (rule inherited_queue [of m o' k w t]) (use ok that w m(4) k2(6) p1 p2 k1w(1) in \<open>simp_all add: mutex_ok_def\<close>)
  then have "mutex_ok o' m k2" using w m k2(6) sw by (simp add: mutex_ok_def)
  moreover have "rt_mutex_take o' time m k = Some (k2, m, Waits)"
    using time(1) w c(2,4) m(1) k2(1,3,4)
    by (simp add: rt_mutex_take_def mutex_again.simps k1(1) del: clear_error_simps(1) split del: if_split)
  moreover have "tcbs k1 t = tcbs ?k0 t" using k1(5) w(2) by simp
  ultimately show ?thesis using k2(2,5,6) p2 [of w] k1w(1) by simp
qed

text \<open>The three cases in which the call does not block.\<close>

lemma take_free:
  assumes "can_block t k" "mutex_ok o' m k" "mx_owner m = None"
  shows "\<exists>k' m'. rt_mutex_take o' time m k = Some (k', m', Done RT_EOK) \<and> ipc_inv k' \<and> mutex_ok o' m' k' \<and>
    mx_owner m' = Some t \<and> mx_orig m' = prio k t \<and> mx_hold m' = 1"
proof -
  note c = can_blockD [OF assms(1)] and c0 = can_blockD [OF can_block_clear [OF assms(1)]]
  have m: "mx_value m = 1" "mx_hold m = 0" "lists k (LSuspend o') = []" using assms(2,3) by (simp_all add: mutex_ok_def)
  have "prio k t < 32"
    using kinvX_thread [OF ipc_invD(1) [OF c(1)], of t] c(3) by (auto simp: thread_ok_def dest: prio_okD)
  then show ?thesis
    using assms(3) m c c0(1) by (simp add: rt_mutex_take_def mutex_again.simps mutex_ok_def inherited_def)
qed

lemma take_again:
  assumes "can_block t k" "mutex_ok o' m k" "mx_owner m = Some t" "mx_hold m \<noteq> 255"
  shows "\<exists>k' m'. rt_mutex_take o' time m k = Some (k', m', Done RT_EOK) \<and> ipc_inv k' \<and> mutex_ok o' m' k' \<and>
    mx_owner m' = Some t \<and> mx_hold m' = mx_hold m + 1"
proof -
  note c = can_blockD [OF assms(1)] and c0 = can_blockD [OF can_block_clear [OF assms(1)]]
  let ?m = "m\<lparr>mx_hold := mx_hold m + 1\<rparr>"
  have "mutex_ok o' ?m k"
    using assms(2,3) hold_no_wrap [OF assms(4)] by (simp add: mutex_ok_def inherited_def)
  then have "mutex_ok o' ?m (clear_error t k)" by (rule mutex_ok_cong) simp_all
  then show ?thesis using assms(3) c(2,4) c0(1) by (simp add: rt_mutex_take_def)
qed

lemma take_busy:
  assumes "can_block t k" "mutex_ok o' m k" "mx_owner m = Some w" "w \<noteq> t"
  shows "\<exists>k'. rt_mutex_take o' 0 m k = Some (k', m, Done RT_ETIMEOUT) \<and> ipc_inv k' \<and> mutex_ok o' m k' \<and>
    prio k' w = prio k w"
proof -
  note c = can_blockD [OF assms(1)] and c0 = can_blockD [OF can_block_clear [OF assms(1)]]
  let ?k = "upd_tcb t (\<lambda>c. c\<lparr>t_error := RT_ETIMEOUT\<rparr>) (clear_error t k)"
  have "mutex_ok o' m ?k" by (rule mutex_ok_cong [OF assms(2)]) simp_all
  moreover have "ipc_inv ?k" by (rule ipc_inv_error [OF c0(1)])
  ultimately show ?thesis
    using assms(3,4) c(2,4) mutex_heldD(1) [OF assms(2,3)] by (simp add: rt_mutex_take_def mutex_again.simps)
qed

text \<open>C11. \<^verbatim>\<open>rt_mutex_take\<close> returns and keeps the kernel and the mutex invariant, priority
  inheritance included: the owner takes again by counting; a free mutex is taken; on a held
  one the call gives up at once with waiting time 0, and otherwise the caller waits in the
  queue and the owner's priority is raised to the caller's. The caller is a thread that can block, and
  the owner has not taken the mutex 255 times already, where its 8-bit count would wrap.\<close>

theorem mutex_take_inherits:
  assumes "can_block t k" "mutex_ok o' m k" "time < 0x7fffffff" "mx_hold m \<noteq> 255"
  shows "\<exists>k' m' r. rt_mutex_take o' time m k = Some (k', m', r) \<and> ipc_inv k' \<and> mutex_ok o' m' k' \<and>
    (case mx_owner m of
       None \<Rightarrow> r = Done RT_EOK \<and> mx_owner m' = Some t \<and> mx_orig m' = prio k t
     | Some w \<Rightarrow>
         if w = t then r = Done RT_EOK \<and> mx_hold m' = mx_hold m + 1 \<and> mx_owner m' = Some t
         else m' = m \<and>
           (if time = 0 then r = Done RT_ETIMEOUT \<and> prio k' w = prio k w
            else r = Waits \<and> stat k' t = T_SUSPEND \<and> prio k' w = min (prio k w) (prio k t) \<and>
              lists k' (LSuspend o') = wait_insert (mx_flag m) (prio k) t (lists k (LSuspend o'))))"
proof (cases "mx_owner m")
  case None
  then show ?thesis using take_free [OF assms(1,2) None, of time] by auto
next
  case (Some w)
  consider "w = t" | "w \<noteq> t" "time = 0" | "w \<noteq> t" "time \<noteq> 0" by blast
  then show ?thesis
  proof cases
    case 1
    then show ?thesis using take_again [OF assms(1,2) _ assms(4), of time] Some by auto
  next
    case 2
    then show ?thesis using take_busy [OF assms(1,2) Some] Some by auto
  next
    case 3
    then show ?thesis using take_held [OF assms(1,2) Some 3(1) 3(2) assms(3)] Some by auto
  qed
qed

text \<open>Thread 1 of the example kernel asks for a mutex held by thread 3 of the lower priority 7: it
  waits, and thread 3 is raised to priority 5.\<close>

definition mutex_example :: mutex where
  "mutex_example = \<lparr>mx_value = 0, mx_orig = 7, mx_hold = 1, mx_owner = Some 3, mx_flag = RT_IPC_FLAG_PRIO\<rparr>"

lemma mutex_example_ok: "mutex_ok 0 mutex_example kern_example"
  by (simp add: mutex_ok_def inherited_def mutex_example_def kern_example_waits) (simp add: kern_example_def tcb_at_def)

theorem mutex_take_inherits_witness:
  "\<exists>k'. rt_mutex_take 0 (- 1) mutex_example kern_example = Some (k', mutex_example, Waits) \<and>
     prio kern_example 3 = 7 \<and> prio k' 3 = 5 \<and> lists k' (LSuspend 0) = [1]"
proof -
  have m: "mx_owner mutex_example = Some 3" "mx_hold mutex_example \<noteq> 255" "mx_flag mutex_example = RT_IPC_FLAG_PRIO"
    by (simp_all add: mutex_example_def)
  have k: "prio kern_example 3 = 7" "prio kern_example 1 = 5" "lists kern_example (LSuspend 0) = []"
    by (simp_all add: kern_example_def tcb_at_def)
  from mutex_take_inherits [OF kern_example_can_block mutex_example_ok, of "- 1"] show ?thesis
    using m k by auto
qed

lemma wait_prio: "ipc_inv k \<Longrightarrow> wait_list l \<Longrightarrow> t \<in> set (lists k l) \<Longrightarrow> prio k t < 32"
proof -
  assume a: "ipc_inv k" "wait_list l" "t \<in> set (lists k l)"
  have "stat k t = T_SUSPEND" using ipc_invD(3) [OF a(1)] a(2,3) by (auto simp: waits_ok_def)
  then have "prio_ok (tcbs k t)" using kinvX_thread [OF ipc_invD(1) [OF a(1)], of t] by (simp add: thread_ok_def)
  then show ?thesis by (rule prio_okD)
qed

text \<open>Releasing: the priority the owner had is restored.\<close>

lemma restore_prio:
  assumes "ipc_inv k" "cur k = Some t" "stat k t = T_RUNNING" "p < 32"
  shows "\<exists>k1. (if p \<noteq> prio k t then rt_thread_control t (CTRL_CHANGE_PRIORITY p) k else Some k) = Some k1 \<and>
    ipc_inv k1 \<and> prio k1 t = p \<and> stat k1 = stat k \<and> lists k1 = lists k \<and> cur k1 = Some t \<and> err k1 = err k \<and>
    (\<forall>x. x \<noteq> t \<longrightarrow> prio k1 x = prio k x)"
proof (cases "p = prio k t")
  case True
  then show ?thesis using assms by auto
next
  case False
  note i = ipc_invD [OF assms(1)]
  have "stat k t \<noteq> T_INIT" using assms(3) by simp
  from change_priority_spec [OF i(1) this assms(4)] assms(2,3) obtain k1 where
    k1: "change_priority t p k = Some k1" "kinv k1" "cur k1 = Some t" "hard k1 = hard k" "soft k1 = soft k"
    "tmrs k1 = tmrs k" "now k1 = now k" "tcbs k1 = (tcbs k)(t := (tcbs k t)\<lparr>t_prio := p, t_mask := 2 ^ p\<rparr>)"
    "lists k1 = lists k" by auto
  have "tminv k1" by (rule tminv_frame [OF i(2)]) (use k1 in auto)
  moreover have "waits_ok k1" using i(3) k1(8,9) by (auto simp: waits_ok_def)
  ultimately show ?thesis
    using False k1 by (auto simp: ipc_inv_def rt_thread_control_def fun_eq_iff)
qed

text \<open>C14. \<^verbatim>\<open>rt_mutex_release\<close> by the owner's last release restores the priority it had, and hands
  the mutex to the first waiter, which becomes the owner, wakes without an error and cannot
  lose it again before it runs, or frees the mutex when nobody waits; an inner release only
  counts down; a thread that is not the owner gets an error and changes nothing of the mutex.\<close>

theorem mutex_release_hands_over:
  assumes "ipc_inv k" "mutex_ok o' m k" "cur k = Some t" "stat k t = T_RUNNING" "int_nest k = 0"
  shows "\<exists>k' m' e. rt_mutex_release o' m k = Some (k', m', e) \<and> ipc_inv k' \<and> mutex_ok o' m' k' \<and>
    (if mx_owner m \<noteq> Some t then m' = m \<and> e = RT_ERROR
     else e = RT_EOK \<and>
       (if mx_hold m \<noteq> 1 then m' = m\<lparr>mx_hold := mx_hold m - 1\<rparr> \<and> k' = k
        else prio k' t = mx_orig m \<and>
          (case lists k (LSuspend o') of
             [] \<Rightarrow> mx_owner m' = None \<and> mx_value m' = 1
           | x # xs \<Rightarrow> mx_owner m' = Some x \<and> mx_orig m' = prio k x \<and> mx_hold m' = 1 \<and>
               active_stat (stat k' x) \<and> err k' x = err k x \<and> lists k' (LSuspend o') = xs)))"
proof -
  have tc: "in_thread_context k" using assms(3,5) by (simp add: in_thread_context_def)
  consider "mx_owner m \<noteq> Some t" | "mx_owner m = Some t" "mx_hold m \<noteq> 1" | "mx_owner m = Some t" "mx_hold m = 1" by blast
  then show ?thesis
  proof cases
    case 1
    have "mutex_ok o' m (upd_tcb t (\<lambda>c. c\<lparr>t_error := RT_ERROR\<rparr>) k)" by (rule mutex_ok_cong [OF assms(2)]) simp_all
    then show ?thesis using 1 tc assms(3) ipc_inv_error [OF assms(1)] by (simp add: rt_mutex_release_def)
  next
    case 2
    have "mx_hold m - 1 \<noteq> 0" using 2(2) by simp
    then have "mutex_ok o' (m\<lparr>mx_hold := mx_hold m - 1\<rparr>) k"
      using assms(2) 2(1) by (simp add: mutex_ok_def inherited_def)
    then show ?thesis using 2 tc assms(1,3) by (simp add: rt_mutex_release_def Let_def)
  next
    case 3
    note h = mutex_heldD [OF assms(2) 3(1)]
    from restore_prio [OF assms(1,3,4) h(3)] obtain k1 where
      k1: "(if mx_orig m \<noteq> prio k t then rt_thread_control t (CTRL_CHANGE_PRIORITY (mx_orig m)) k else Some k) = Some k1"
      "ipc_inv k1" "prio k1 t = mx_orig m" "stat k1 = stat k" "lists k1 = lists k" "cur k1 = Some t" "err k1 = err k"
      "\<forall>x. x \<noteq> t \<longrightarrow> prio k1 x = prio k x" by blast
    have rel: "rt_mutex_release o' m k =
        (case lists k1 (LSuspend o') of
           x # _ \<Rightarrow> do {
             k2 \<leftarrow> rt_ipc_list_resume (LSuspend o') k1;
             k3 \<leftarrow> rt_schedule k2;
             Some (k3, m\<lparr>mx_hold := 1, mx_owner := Some x, mx_orig := prio k1 x\<rparr>, RT_EOK)
           }
         | [] \<Rightarrow> Some (k1, m\<lparr>mx_hold := 0, mx_value := 1, mx_owner := None, mx_orig := 0xff\<rparr>, RT_EOK))"
      using 3 tc assms(3) h(1)
      by (simp add: rt_mutex_release_def Let_def k1(1) split del: if_split split: list.split)
    show ?thesis
    proof (cases "lists k (LSuspend o')")
      case Nil
      then show ?thesis
        using 3 k1 by (simp add: rel mutex_ok_def inherited_def)
    next
      case (Cons x xs)
      then have l1: "lists k1 (LSuspend o') = x # xs" using k1(5) by simp
      let ?m = "m\<lparr>mx_hold := 1, mx_owner := Some x, mx_orig := prio k1 x\<rparr>"
      from wake_first_spec [OF k1(2) l1 _ k1(6)] obtain k2 k' where
        k': "rt_ipc_list_resume (LSuspend o') k1 = Some k2" "rt_schedule k2 = Some k'" "ipc_inv k'"
        "active_stat (stat k' x)" "err k' x = err k1 x" "lists k' (LSuspend o') = xs"
        "\<forall>y. same_but_stat (tcbs k1 y) (tcbs k' y)" by auto
      have ne: "y \<noteq> t" if "y \<in> set (x # xs)" for y using that h(4) Cons by auto
      have pr: "prio k' y = prio k1 y" for y using same_but_statD [OF spec [OF k'(7), of y]] by simp
      have px: "prio k1 y = prio k y" if "y \<in> set (x # xs)" for y using k1(8) ne [OF that] by blast
      have "distinct (x # xs)" using wait_distinct [OF assms(1), of "LSuspend o'"] Cons by simp
      moreover have "prio k x < 32" by (rule wait_prio [OF assms(1), of "LSuspend o'"]) (simp_all add: Cons)
      moreover have "inherited ?m o' k'" if "mx_flag m = RT_IPC_FLAG_PRIO"
      proof -
        have "sorted (map (prio k) (x # xs))" using assms(2) that Cons by (simp add: mutex_ok_def inherited_def)
        moreover have "sorted (map (prio k1) xs) = sorted (map (prio k) xs)"
          by (rule sorted_prio_cong, rule px) simp
        ultimately show ?thesis
          using pr px k'(6) by (simp add: inherited_def list_all_iff)
      qed
      ultimately have "mutex_ok o' ?m k'"
        using h(1) k'(4,6) px by (auto simp: mutex_ok_def active_stat_def)
      then show ?thesis
        using 3 k'(1-6) k1(3) fun_cong [OF k1(7), of x] Cons l1 px pr by (simp add: rel)
    qed
  qed
qed

text \<open>Thread 1, raised to priority 5 from 6 while it held the mutex, releases it.\<close>

theorem mutex_release_hands_over_witness:
  "\<exists>k' m'. rt_mutex_release 0 (mutex_example\<lparr>mx_owner := Some 1, mx_orig := 6\<rparr>) kern_example = Some (k', m', RT_EOK) \<and>
     prio kern_example 1 = 5 \<and> prio k' 1 = 6 \<and> mx_owner m' = None"
proof -
  let ?m = "mutex_example\<lparr>mx_owner := Some 1, mx_orig := 6\<rparr>"
  note c = can_blockD [OF kern_example_can_block]
  have l: "lists kern_example (LSuspend 0) = []" "prio kern_example 1 = 5" "int_nest kern_example = 0"
    by (simp_all add: kern_example_def tcb_at_def)
  have "mutex_ok 0 ?m kern_example"
    using c(3) l by (simp add: mutex_ok_def inherited_def mutex_example_def)
  from mutex_release_hands_over [OF c(1) this c(2,3) l(3)] show ?thesis
    using l by (auto simp: mutex_example_def)
qed

section \<open>A limit\<close>

text \<open>The hold count is not checked against its 8 bits: the 256th nested take makes it zero.\<close>

lemma mutex_hold_wraps:
  assumes "cur k = Some t" "int_nest k = 0" "mx_owner m = Some t" "mx_hold m = 255"
  shows "rt_mutex_take o' time m k = Some (clear_error t k, m\<lparr>mx_hold := 0\<rparr>, Done RT_EOK)"
  using assms by (simp add: rt_mutex_take_def in_thread_context_def)

end
