(* ===== verification/Event.thy ===== *)
theory Event
  imports Ipc
begin

text \<open>
  Event sets, \<^verbatim>\<open>src/ipc.c\<close> lines 915 to 1282: 32 flags; a thread waits for all (AND) or any
  (OR) of a set of them and may clear them when it gets them. The conditions of the waiting
  threads are in their control blocks (\<open>t_evset\<close>, \<open>t_evinfo\<close>).

  The loop of \<^verbatim>\<open>rt_event_send\<close> reads the successor of a node before the thread is taken off
  the list and nothing else touches the list, so it visits the list as it was at the start.
\<close>

section \<open>Operations\<close>

record event =
  ev_set :: "32 word"
  ev_flag :: ipc_flag

definition RT_EVENT_FLAG_AND :: "8 word" where "RT_EVENT_FLAG_AND = 0x01"
definition RT_EVENT_FLAG_OR :: "8 word" where "RT_EVENT_FLAG_OR = 0x02"
definition RT_EVENT_FLAG_CLEAR :: "8 word" where "RT_EVENT_FLAG_CLEAR = 0x04"

definition rt_event_init :: "nat \<Rightarrow> ipc_flag \<Rightarrow> kern \<Rightarrow> kern \<times> event" where
  "rt_event_init o' flag k = (k\<lparr>lists := (lists k)(LSuspend o' := [])\<rparr>, \<lparr>ev_set = 0, ev_flag = flag\<rparr>)"

definition rt_event_detach :: "nat \<Rightarrow> kern \<Rightarrow> kern option" where
  "rt_event_detach o' k = rt_ipc_list_resume_all (LSuspend o') k"

definition satisfied :: "8 word \<Rightarrow> 32 word \<Rightarrow> 32 word \<Rightarrow> bool" where
  "satisfied info want s \<longleftrightarrow>
     (if info AND RT_EVENT_FLAG_AND \<noteq> 0 then want AND s = want
      else info AND RT_EVENT_FLAG_OR \<noteq> 0 \<and> want AND s \<noteq> 0)"

text \<open>The flags a satisfied thread gets: all it waits for, or those of them that are set.\<close>

definition delivered :: "8 word \<Rightarrow> 32 word \<Rightarrow> 32 word \<Rightarrow> 32 word" where
  "delivered info want s = (if info AND RT_EVENT_FLAG_AND \<noteq> 0 then want else want AND s)"

fun event_wake :: "tid list \<Rightarrow> 32 word \<Rightarrow> bool \<Rightarrow> kern \<Rightarrow> (kern \<times> 32 word \<times> bool) option" where
  "event_wake [] s ns k = Some (k, s, ns)"
| "event_wake (t # ts) s ns k =
     (let info = t_evinfo (tcbs k t); want = t_evset (tcbs k t)
      in if satisfied info want s then
           do {
             let k1 = upd_tcb t (\<lambda>c. c\<lparr>t_evset := delivered info want s\<rparr>) k;
             let s1 = (if info AND RT_EVENT_FLAG_CLEAR \<noteq> 0 then s AND NOT (t_evset (tcbs k1 t)) else s);
             (k2, _) \<leftarrow> rt_thread_resume t k1;
             event_wake ts s1 True k2
           }
         else event_wake ts s ns k)"

definition rt_event_send :: "nat \<Rightarrow> 32 word \<Rightarrow> event \<Rightarrow> kern \<Rightarrow> (kern \<times> event \<times> rt_err) option" where
  "rt_event_send o' flags e k =
     (if flags = 0 then Some (k, e, RT_ERROR)
      else do {
        (k1, s, need_schedule) \<leftarrow> event_wake (lists k (LSuspend o')) (ev_set e OR flags) False k;
        k2 \<leftarrow> (if need_schedule then rt_schedule k1 else Some k1);
        Some (k2, e\<lparr>ev_set := s\<rparr>, RT_EOK)
      })"

text \<open>When the wait is over: the flags received, if any, and the return value.\<close>

definition rt_event_recv_resume :: "tid \<Rightarrow> kern \<Rightarrow> 32 word option \<times> rt_err" where
  "rt_event_recv_resume t k =
     (if err k t \<noteq> RT_EOK then (None, err k t) else (Some (t_evset (tcbs k t)), err k t))"

definition rt_event_recv ::
  "nat \<Rightarrow> 32 word \<Rightarrow> 8 word \<Rightarrow> int \<Rightarrow> event \<Rightarrow> kern \<Rightarrow> (kern \<times> event \<times> (32 word option \<times> rt_err) outcome) option" where
  "rt_event_recv o' flags opt timeout e k =
     (if \<not> in_thread_context k then None
      else if flags = 0 then Some (k, e, Done (None, RT_ERROR))
      else do {
        t \<leftarrow> cur k;
        let k0 = clear_error t k;
        if opt AND RT_EVENT_FLAG_AND = 0 \<and> opt AND RT_EVENT_FLAG_OR = 0 then None
        else if satisfied opt flags (ev_set e) then
          Some (k0, (if opt AND RT_EVENT_FLAG_CLEAR \<noteq> 0 then e\<lparr>ev_set := ev_set e AND NOT flags\<rparr> else e),
            Done (Some (ev_set e AND flags), err k0 t))
        else if timeout = 0 then
          Some (upd_tcb t (\<lambda>c. c\<lparr>t_error := RT_ETIMEOUT\<rparr>) k0, e, Done (None, RT_ETIMEOUT))
        else do {
          let k1 = upd_tcb t (\<lambda>c. c\<lparr>t_evset := flags, t_evinfo := opt\<rparr>) k0;
          k2 \<leftarrow> ipc_wait (LSuspend o') (ev_flag e) timeout t k1;
          Some (k2, e, if cur k2 = Some t then Done (rt_event_recv_resume t k2) else Waits)
        }
      })"

definition rt_event_control :: "nat \<Rightarrow> bool \<Rightarrow> event \<Rightarrow> kern \<Rightarrow> (kern \<times> event \<times> rt_err) option" where
  "rt_event_control o' reset e k =
     (if reset then
        do {
          k1 \<leftarrow> rt_ipc_list_resume_all (LSuspend o') k;
          k2 \<leftarrow> rt_schedule k1;
          Some (k2, e\<lparr>ev_set := 0\<rparr>, RT_EOK)
        }
      else Some (k, e, RT_ERROR))"

section \<open>Serving a list of conditions\<close>

text \<open>The abstract event set: the waiting conditions in order, served one after the other; the
  result is who gets which flags, and the flags left.\<close>

fun serve :: "(tid \<Rightarrow> 8 word \<times> 32 word) \<Rightarrow> tid list \<Rightarrow> 32 word \<Rightarrow> (tid \<times> 32 word) list \<times> 32 word" where
  "serve c [] s = ([], s)"
| "serve c (t # ts) s =
     (let (info, want) = c t
      in if satisfied info want s then
           (let got = delivered info want s;
                (r, s') = serve c ts (if info AND RT_EVENT_FLAG_CLEAR \<noteq> 0 then s AND NOT got else s)
            in ((t, got) # r, s'))
         else serve c ts s)"

definition conds :: "kern \<Rightarrow> tid \<Rightarrow> 8 word \<times> 32 word" where
  "conds k t = (t_evinfo (tcbs k t), t_evset (tcbs k t))"

definition unserved :: "(tid \<Rightarrow> 8 word \<times> 32 word) \<Rightarrow> 32 word \<Rightarrow> tid \<Rightarrow> bool" where
  "unserved c s t \<longleftrightarrow> \<not> satisfied (fst (c t)) (snd (c t)) s"

lemma satisfied_mono: "satisfied i w s \<Longrightarrow> s AND s' = s \<Longrightarrow> satisfied i w s'"
proof -
  assume a: "satisfied i w s" "s AND s' = s"
  have e: "w AND s = (w AND s') AND s" using a(2) by (simp add: and.assoc and.commute [of s' s])
  have 1: "w AND s' = w" if "w AND s = w"
  proof -
    have "w AND s' = (w AND s) AND s'" using that by simp
    also have "\<dots> = w AND (s AND s')" by (rule and.assoc)
    finally show ?thesis using that a(2) by simp
  qed
  have 2: "w AND s' \<noteq> 0" if "w AND s \<noteq> 0"
  proof
    assume "w AND s' = 0"
    then show False using that e by simp
  qed
  show ?thesis using a(1) 1 2 by (auto simp: satisfied_def split: if_splits)
qed

definition flags_left :: "8 word \<times> 32 word \<Rightarrow> 32 word \<Rightarrow> 32 word" where
  "flags_left c s = (if fst c AND RT_EVENT_FLAG_CLEAR \<noteq> 0 then s AND NOT (delivered (fst c) (snd c) s) else s)"

lemma serve_Cons:
  "serve c (t # ts) s =
     (if unserved c s t then serve c ts s
      else ((t, delivered (fst (c t)) (snd (c t)) s) # fst (serve c ts (flags_left (c t) s)),
        snd (serve c ts (flags_left (c t) s))))"
  by (cases "c t") (simp add: unserved_def flags_left_def Let_def case_prod_beta)

declare serve.simps(2) [simp del]

lemma and_trans: "a AND b = a \<Longrightarrow> b AND d = b \<Longrightarrow> a AND d = (a :: 32 word)"
proof -
  assume a: "a AND b = a" "b AND d = b"
  have "a AND d = (a AND b) AND d" using a(1) by simp
  also have "\<dots> = a AND (b AND d)" by (rule and.assoc)
  finally show ?thesis using a by simp
qed

lemma flags_left_sub: "flags_left c s AND s = flags_left c s"
proof -
  have "(s AND NOT x) AND s = s AND NOT x" for x :: "32 word" by (simp add: and.commute and.left_commute)
  then show ?thesis by (simp add: flags_left_def)
qed

lemma serve_shrinks: "snd (serve c ts s) AND s = snd (serve c ts s)"
proof (induction ts arbitrary: s)
  case (Cons t ts)
  have "snd (serve c ts (flags_left (c t) s)) AND s = snd (serve c ts (flags_left (c t) s))"
    by (rule and_trans [OF Cons.IH flags_left_sub])
  then show ?case using Cons.IH [of s] by (simp add: serve_Cons)
qed simp

lemma serve_woken_sub: "fst ` set (fst (serve c ts s)) \<subseteq> set ts"
proof (induction ts arbitrary: s)
  case (Cons t ts)
  show ?case using Cons.IH [of s] Cons.IH [of "flags_left (c t) s"] by (auto simp: serve_Cons)
qed simp

text \<open>Whoever is not woken is not satisfied by the flags that are left: no wake-up is lost.\<close>

lemma serve_unserved:
  "t \<in> set ts \<Longrightarrow> t \<notin> fst ` set (fst (serve c ts s)) \<Longrightarrow> unserved c (snd (serve c ts s)) t"
proof (induction ts arbitrary: s)
  case (Cons x ts)
  show ?case
  proof (cases "unserved c s x")
    case True
    have "unserved c (snd (serve c ts s)) x"
      using True serve_shrinks [of c ts s] satisfied_mono by (auto simp: unserved_def)
    then show ?thesis using Cons.IH [of s] Cons.prems True by (auto simp: serve_Cons)
  next
    case False
    have "t \<noteq> x" using Cons.prems(2) False by (auto simp: serve_Cons)
    then show ?thesis using Cons.IH [of "flags_left (c x) s"] Cons.prems False by (auto simp: serve_Cons)
  qed
qed simp

lemma serve_cong: "(\<And>t. t \<in> set ts \<Longrightarrow> c t = d t) \<Longrightarrow> serve c ts s = serve d ts s"
  by (induction ts arbitrary: s) (simp_all add: serve_Cons unserved_def)

section \<open>The loop serves the list\<close>

lemma event_wake_spec:
  assumes "ipc_inv k" "lists k (LSuspend o') = us @ ts" "\<And>t. t \<in> set ts \<Longrightarrow> conds k t = c t"
  shows "\<exists>k'. event_wake ts s ns k = Some (k', snd (serve c ts s), ns \<or> fst (serve c ts s) \<noteq> []) \<and> ipc_inv k' \<and>
    cur k' = cur k \<and> now k' = now k \<and>
    lists k' (LSuspend o') = us @ filter (\<lambda>t. t \<notin> fst ` set (fst (serve c ts s))) ts \<and>
    (\<forall>t. t \<notin> fst ` set (fst (serve c ts s)) \<longrightarrow> tcbs k' t = tcbs k t) \<and>
    (\<forall>t got. (t, got) \<in> set (fst (serve c ts s)) \<longrightarrow> active_stat (stat k' t) \<and> err k' t = err k t \<and>
      t_evset (tcbs k' t) = got)"
  using assms
proof (induction ts arbitrary: k us s ns)
  case Nil
  then show ?case by simp
next
  case (Cons t ts)
  have d: "t \<notin> set ts" "t \<notin> set us" "distinct ts"
    using wait_distinct [OF Cons.prems(1), of "LSuspend o'"] Cons.prems(2) by auto
  have ct: "c t = (t_evinfo (tcbs k t), t_evset (tcbs k t))" using Cons.prems(3) [of t] by (simp add: conds_def)
  show ?case
  proof (cases "unserved c s t")
    case True
    have e: "event_wake (t # ts) s ns k = event_wake ts s ns k" "serve c (t # ts) s = serve c ts s"
      using True ct by (simp_all add: unserved_def serve_Cons)
    have "t \<notin> fst ` set (fst (serve c ts s))" using serve_woken_sub [of c ts s] d(1) by blast
    then show ?thesis
      using Cons.IH [OF Cons.prems(1), of "us @ [t]" s ns] Cons.prems(2,3) unfolding e by simp
  next
    case False
    let ?got = "delivered (fst (c t)) (snd (c t)) s" and ?s1 = "flags_left (c t) s"
    let ?k1 = "upd_tcb t (\<lambda>x. x\<lparr>t_evset := ?got\<rparr>) k"
    have k1: "ipc_inv ?k1" by (rule ipc_inv_upd [OF Cons.prems(1)]) simp_all
    have m: "t \<in> set (lists ?k1 (LSuspend o'))" using Cons.prems(2) by simp
    from resume_waiter [OF k1 m] obtain k2 where
      k2: "rt_thread_resume t ?k1 = Some (k2, RT_EOK)" "ipc_inv k2" "cur k2 = cur k" "now k2 = now k"
      "tcbs k2 = (tcbs ?k1)(t := (tcbs ?k1 t)\<lparr>t_stat := (if cur k = Some t then T_RUNNING else T_READY),
        t_linked := (cur k \<noteq> Some t)\<rparr>)"
      "lists k2 (LSuspend o') = removeAll t (lists k (LSuspend o'))" by auto
    have l2: "lists k2 (LSuspend o') = us @ ts" using k2(6) Cons.prems(2) d by simp
    have c2: "conds k2 x = c x" if "x \<in> set ts" for x
      using that d(1) k2(5) Cons.prems(3) [of x] by (auto simp: conds_def)
    obtain k' where k': "event_wake ts ?s1 True k2 = Some (k', snd (serve c ts ?s1), True)" "ipc_inv k'"
      "cur k' = cur k2" "now k' = now k2"
      "lists k' (LSuspend o') = us @ filter (\<lambda>t. t \<notin> fst ` set (fst (serve c ts ?s1))) ts"
      "\<forall>x. x \<notin> fst ` set (fst (serve c ts ?s1)) \<longrightarrow> tcbs k' x = tcbs k2 x"
      "\<forall>x got. (x, got) \<in> set (fst (serve c ts ?s1)) \<longrightarrow> active_stat (stat k' x) \<and> err k' x = err k2 x \<and>
        t_evset (tcbs k' x) = got"
      using Cons.IH [OF k2(2) l2 c2, of ?s1 True] by auto
    have e: "serve c (t # ts) s = ((t, ?got) # fst (serve c ts ?s1), snd (serve c ts ?s1))"
      using False by (simp add: serve_Cons)
    have "event_wake (t # ts) s ns k = Some (k', snd (serve c ts ?s1), True)"
      using False ct k2(1) k'(1) by (simp add: unserved_def flags_left_def cong: if_cong)
    moreover have tw: "t \<notin> fst ` set (fst (serve c ts ?s1))" using serve_woken_sub [of c ts ?s1] d(1) by blast
    moreover have "tcbs k' t = tcbs k2 t" using k'(6) tw by blast
    moreover have "err k2 x = err k x" for x using k2(5) by simp
    moreover have "filter (\<lambda>x. x \<notin> insert t (fst ` set (fst (serve c ts ?s1)))) (t # ts) =
        filter (\<lambda>x. x \<notin> fst ` set (fst (serve c ts ?s1))) ts"
      using d(1) by (auto intro!: filter_cong)
    ultimately show ?thesis
      unfolding e using k'(2-7) k2(3-5) by (auto simp: active_stat_def)
  qed
qed

section \<open>Properties\<close>

text \<open>No thread waits for a condition that the event set satisfies.\<close>

definition event_ok :: "nat \<Rightarrow> event \<Rightarrow> kern \<Rightarrow> bool" where
  "event_ok o' e k \<longleftrightarrow> list_all (unserved (conds k) (ev_set e)) (lists k (LSuspend o'))"

lemma rt_event_init_ok: "rt_event_init o' flag k = (k', e) \<Longrightarrow> event_ok o' e k'"
  by (auto simp: rt_event_init_def event_ok_def)

lemma event_ok_shrink:
  "event_ok o' e k \<Longrightarrow> lists k' (LSuspend o') = lists k (LSuspend o') \<Longrightarrow>
    (\<And>t. t \<in> set (lists k (LSuspend o')) \<Longrightarrow> conds k' t = conds k t) \<Longrightarrow> ev_set e' AND ev_set e = ev_set e' \<Longrightarrow>
    event_ok o' e' k'"
  using satisfied_mono [of _ _ "ev_set e'" "ev_set e"] by (auto simp: event_ok_def list_all_iff unserved_def)

text \<open>Blocking in \<^verbatim>\<open>rt_event_recv\<close>.\<close>

lemma recv_blocks:
  assumes "can_block t k" "event_ok o' e k" "flags \<noteq> 0" "timeout \<noteq> 0" "timeout < 0x7fffffff"
    and "\<not> satisfied opt flags (ev_set e)" "opt AND RT_EVENT_FLAG_AND \<noteq> 0 \<or> opt AND RT_EVENT_FLAG_OR \<noteq> 0"
  shows "\<exists>k'. rt_event_recv o' flags opt timeout e k = Some (k', e, Waits) \<and> ipc_inv k' \<and> event_ok o' e k' \<and>
    stat k' t = T_SUSPEND \<and> err k' t = RT_EOK \<and> cur k' \<noteq> None \<and> conds k' t = (opt, flags) \<and>
    lists k' (LSuspend o') = wait_insert (ev_flag e) (prio k) t (lists k (LSuspend o'))"
proof -
  note c = can_blockD [OF assms(1)]
  let ?k0 = "clear_error t k"
  let ?k1 = "upd_tcb t (\<lambda>c. c\<lparr>t_evset := flags, t_evinfo := opt\<rparr>) ?k0"
  have i1: "ipc_inv ?k1" by (rule ipc_inv_upd [OF ipc_inv_clear [OF c(1)]]) simp_all
  have f1: "cur ?k1 = Some t" "stat ?k1 t = T_RUNNING" "lock_nest ?k1 = 0" "ready_group ?k1 \<noteq> 0" using c by simp_all
  have nt: "t \<notin> set (lists k (LSuspend o'))" using running_unlinked [OF c(1,3)] by blast
  have pr: "prio ?k1 = prio k" by (rule ext) simp
  from ipc_wait_spec [OF i1 f1(1,2) _ f1(3,4) assms(5), of "LSuspend o'" "ev_flag e"] obtain k2 c' where
    k2: "ipc_wait (LSuspend o') (ev_flag e) timeout t ?k1 = Some k2" "ipc_inv k2" "cur k2 = Some c'" "c' \<noteq> t"
    "tcbs k2 t = (tcbs ?k1 t)\<lparr>t_stat := T_SUSPEND, t_linked := True\<rparr>"
    "lists k2 (LSuspend o') = wait_insert (ev_flag e) (prio ?k1) t (lists k (LSuspend o'))"
    "\<forall>x. x \<noteq> t \<longrightarrow> tcbs k2 x = tcbs ?k1 x \<or>
       active_stat (stat ?k1 x) \<and> active_stat (stat k2 x) \<and> same_but_stat (tcbs ?k1 x) (tcbs k2 x)" by auto
  have cx: "conds k2 x = conds k x" if "x \<noteq> t" for x
    using spec [OF k2(7), of x] that same_but_statD [of "tcbs k x" "tcbs k2 x"] by (auto simp: conds_def)
  have ct: "conds k2 t = (opt, flags)" using k2(5) by (simp add: conds_def)
  have l: "lists k2 (LSuspend o') = wait_insert (ev_flag e) (prio k) t (lists k (LSuspend o'))"
    using k2(6) unfolding pr .
  have "unserved (conds k2) (ev_set e) x" if "x \<in> insert t (set (lists k (LSuspend o')))" for x
    using that ct cx [of x] assms(2,6) by (cases "x = t") (auto simp: event_ok_def list_all_iff unserved_def)
  then have "event_ok o' e k2" using l by (simp add: event_ok_def list_all_iff)
  moreover have "rt_event_recv o' flags opt timeout e k = Some (k2, e, Waits)"
    using assms(3,4,6,7) c(2,4) k2(1,3,4) by (auto simp: rt_event_recv_def Let_def)
  ultimately show ?thesis using k2(2,3,5) ct l by simp
qed

lemma event_send_step:
  assumes "ipc_inv k" "cur k = Some c" "flags \<noteq> 0"
  shows "\<exists>k' e' r. rt_event_send o' flags e k = Some (k', e', RT_EOK) \<and> ipc_inv k' \<and> event_ok o' e' k' \<and>
    serve (conds k) (lists k (LSuspend o')) (ev_set e OR flags) = (r, ev_set e') \<and>
    lists k' (LSuspend o') = filter (\<lambda>t. t \<notin> fst ` set r) (lists k (LSuspend o')) \<and>
    (\<forall>t got. (t, got) \<in> set r \<longrightarrow> active_stat (stat k' t) \<and> err k' t = err k t \<and> t_evset (tcbs k' t) = got)"
proof -
  let ?q = "lists k (LSuspend o')" and ?s = "ev_set e OR flags"
  obtain r s' where sv: "serve (conds k) ?q ?s = (r, s')" by fastforce
  have q: "lists k (LSuspend o') = [] @ ?q" by simp
  from event_wake_spec [OF assms(1) q, of "conds k" ?s False] sv obtain k1 where
    k1: "event_wake ?q ?s False k = Some (k1, s', r \<noteq> [])" "ipc_inv k1" "cur k1 = cur k"
    "lists k1 (LSuspend o') = filter (\<lambda>t. t \<notin> fst ` set r) ?q"
    "\<forall>t. t \<notin> fst ` set r \<longrightarrow> tcbs k1 t = tcbs k t"
    "\<forall>t got. (t, got) \<in> set r \<longrightarrow> active_stat (stat k1 t) \<and> err k1 t = err k t \<and> t_evset (tcbs k1 t) = got" by auto
  obtain k' where k': "(if r \<noteq> [] then rt_schedule k1 else Some k1) = Some k'" "ipc_inv k'" "sched_frame k1 k'"
    using schedule_ipc [OF k1(2), of c] k1(2,3) assms(2) by (cases "r = []") auto
  have same: "t_evset (tcbs k' t) = t_evset (tcbs k1 t) \<and> t_evinfo (tcbs k' t) = t_evinfo (tcbs k1 t) \<and>
      err k' t = err k1 t \<and> (active_stat (stat k1 t) \<longrightarrow> active_stat (stat k' t))" for t
    using sched_frameD [OF k'(3), of t] same_but_statD [of "tcbs k1 t" "tcbs k' t"] by auto
  have l: "lists k' (LSuspend o') = filter (\<lambda>t. t \<notin> fst ` set r) ?q"
    using wait_list_sched [OF k'(3), of "LSuspend o'"] k1(4) by simp
  have un: "unserved (conds k') s' t" if "t \<in> set (lists k' (LSuspend o'))" for t
  proof -
    have t: "t \<in> set ?q" "t \<notin> fst ` set r" using that l by auto
    have "unserved (conds k) s' t" using serve_unserved [OF t(1), of "conds k" ?s] t(2) sv by simp
    moreover have "conds k' t = conds k t" using k1(5) t(2) same [of t] by (simp add: conds_def)
    ultimately show ?thesis by (simp add: unserved_def)
  qed
  let ?e = "e\<lparr>ev_set := s'\<rparr>"
  have "rt_event_send o' flags e k = Some (k', ?e, RT_EOK)"
    using assms(3) k1(1) k'(1) by (simp add: rt_event_send_def)
  moreover have "event_ok o' ?e k'" using un by (simp add: event_ok_def list_all_iff)
  moreover have "active_stat (stat k' t) \<and> err k' t = err k t \<and> t_evset (tcbs k' t) = got" if "(t, got) \<in> set r" for t got
    using k1(6) that same [of t] by auto
  ultimately show ?thesis using k'(2) l sv by (intro exI [of _ k'] exI [of _ ?e] exI [of _ r]) simp
qed

text \<open>C30. Sending an event never loses a wake-up: it returns, keeps the kernel invariant, and
  serves the waiting conditions in queue order exactly as the abstract event set does; each
  thread that is woken has the flags it was served with in its control block, those that stay
  on the list are the others, in order, and none of them is satisfied by the flags that are
  left.\<close>

theorem event_send_serves:
  assumes "ipc_inv k" "cur k = Some c" "flags \<noteq> 0"
  shows "\<exists>k' e' r. rt_event_send o' flags e k = Some (k', e', RT_EOK) \<and> ipc_inv k' \<and> event_ok o' e' k' \<and>
    serve (conds k) (lists k (LSuspend o')) (ev_set e OR flags) = (r, ev_set e') \<and>
    lists k' (LSuspend o') = filter (\<lambda>t. t \<notin> fst ` set r) (lists k (LSuspend o')) \<and>
    (\<forall>t got. (t, got) \<in> set r \<longrightarrow> active_stat (stat k' t) \<and> err k' t = err k t \<and> t_evset (tcbs k' t) = got)"
  using assms by (rule event_send_step)

text \<open>Thread 1 waits for flags 0 and 1; sending both wakes it with both.\<close>

theorem event_send_serves_witness:
  "\<exists>k1 k2 e2. rt_event_recv 0 3 RT_EVENT_FLAG_AND (- 1) \<lparr>ev_set = 0, ev_flag = RT_IPC_FLAG_FIFO\<rparr> kern_example =
       Some (k1, \<lparr>ev_set = 0, ev_flag = RT_IPC_FLAG_FIFO\<rparr>, Waits) \<and>
     rt_event_send 0 3 \<lparr>ev_set = 0, ev_flag = RT_IPC_FLAG_FIFO\<rparr> k1 = Some (k2, e2, RT_EOK) \<and>
     rt_event_recv_resume 1 k2 = (Some 3, RT_EOK) \<and> lists k2 (LSuspend 0) = []"
proof -
  let ?e = "\<lparr>ev_set = 0, ev_flag = RT_IPC_FLAG_FIFO\<rparr>"
  have ok: "event_ok 0 ?e kern_example" by (simp add: event_ok_def kern_example_waits)
  have s: "\<not> satisfied RT_EVENT_FLAG_AND 3 (ev_set ?e)" "RT_EVENT_FLAG_AND AND RT_EVENT_FLAG_AND \<noteq> 0"
    by (simp_all add: satisfied_def RT_EVENT_FLAG_AND_def)
  obtain k1 where k1: "rt_event_recv 0 3 RT_EVENT_FLAG_AND (- 1) ?e kern_example = Some (k1, ?e, Waits)" "ipc_inv k1" "cur k1 \<noteq> None"
    "err k1 1 = RT_EOK" "conds k1 1 = (RT_EVENT_FLAG_AND, 3)" "lists k1 (LSuspend 0) = [1]"
    using recv_blocks [OF kern_example_can_block ok, of 3 "- 1" RT_EVENT_FLAG_AND] s
    by (auto simp: kern_example_waits)
  obtain c where "cur k1 = Some c" using k1(3) by auto
  moreover have "serve (conds k1) (lists k1 (LSuspend 0)) (ev_set ?e OR 3) = ([(1, 3)], 3)"
    unfolding k1(6) serve_Cons unserved_def flags_left_def k1(5)
    by (simp add: satisfied_def delivered_def RT_EVENT_FLAG_AND_def RT_EVENT_FLAG_CLEAR_def)
  ultimately show ?thesis
    using event_send_serves [OF k1(2), of c 3 0 ?e] k1(1,4,6) by (auto simp: rt_event_recv_resume_def)
qed

text \<open>Receiving: a condition the event set satisfies is received at once, with the flags it
  asked for that are set, cleared on demand; otherwise the call gives up at once with waiting
  time 0, or the caller waits in the queue with its condition recorded. In every case no
  thread waits for a condition that is satisfied.\<close>

theorem event_recv_spec:
  assumes "can_block t k" "event_ok o' e k" "flags \<noteq> 0" "timeout < 0x7fffffff"
    and "opt AND RT_EVENT_FLAG_AND \<noteq> 0 \<or> opt AND RT_EVENT_FLAG_OR \<noteq> 0"
  shows "\<exists>k' e' r. rt_event_recv o' flags opt timeout e k = Some (k', e', r) \<and> ipc_inv k' \<and> event_ok o' e' k' \<and>
    (if satisfied opt flags (ev_set e) then r = Done (Some (ev_set e AND flags), RT_EOK) \<and>
       ev_set e' = (if opt AND RT_EVENT_FLAG_CLEAR \<noteq> 0 then ev_set e AND NOT flags else ev_set e)
     else e' = e \<and> (if timeout = 0 then r = Done (None, RT_ETIMEOUT)
       else r = Waits \<and> stat k' t = T_SUSPEND \<and> conds k' t = (opt, flags) \<and>
         lists k' (LSuspend o') = wait_insert (ev_flag e) (prio k) t (lists k (LSuspend o'))))"
proof -
  note c = can_blockD [OF assms(1)]
  let ?k0 = "clear_error t k"
  have i0: "ipc_inv ?k0" by (rule ipc_inv_clear [OF c(1)])
  consider "satisfied opt flags (ev_set e)" | "\<not> satisfied opt flags (ev_set e)" "timeout = 0"
    | "\<not> satisfied opt flags (ev_set e)" "timeout \<noteq> 0" by blast
  then show ?thesis
  proof cases
    case 1
    let ?e = "if opt AND RT_EVENT_FLAG_CLEAR \<noteq> 0 then e\<lparr>ev_set := ev_set e AND NOT flags\<rparr> else e"
    have "event_ok o' ?e ?k0"
      by (rule event_ok_shrink [OF assms(2)])
        (auto simp: conds_def and.commute and.left_commute)
    then show ?thesis
      using 1 assms(3,5) c(2,4) i0 by (auto simp: rt_event_recv_def Let_def)
  next
    case 2
    let ?k = "upd_tcb t (\<lambda>c. c\<lparr>t_error := RT_ETIMEOUT\<rparr>) ?k0"
    have "event_ok o' e ?k" by (rule event_ok_shrink [OF assms(2)]) (auto simp: conds_def)
    moreover have "ipc_inv ?k" by (rule ipc_inv_error [OF i0])
    ultimately show ?thesis
      using 2 assms(3,5) c(2,4) by (auto simp: rt_event_recv_def Let_def)
  next
    case 3
    from recv_blocks [OF assms(1-3) 3(2) assms(4) 3(1) assms(5)] show ?thesis using 3 by auto
  qed
qed

theorem event_recv_spec_witness:
  "\<exists>k' e'. rt_event_recv 0 3 (RT_EVENT_FLAG_OR OR RT_EVENT_FLAG_CLEAR) 5 \<lparr>ev_set = 6, ev_flag = RT_IPC_FLAG_PRIO\<rparr> kern_example =
     Some (k', e', Done (Some 2, RT_EOK)) \<and> ev_set e' = 4"
proof -
  let ?e = "\<lparr>ev_set = 6, ev_flag = RT_IPC_FLAG_PRIO\<rparr>" and ?o = "RT_EVENT_FLAG_OR OR RT_EVENT_FLAG_CLEAR"
  have ok: "event_ok 0 ?e kern_example" by (simp add: event_ok_def kern_example_waits)
  have s: "satisfied ?o 3 (ev_set ?e)" "?o AND RT_EVENT_FLAG_OR \<noteq> 0" "?o AND RT_EVENT_FLAG_CLEAR \<noteq> 0"
    by (simp_all add: satisfied_def RT_EVENT_FLAG_AND_def RT_EVENT_FLAG_OR_def RT_EVENT_FLAG_CLEAR_def)
  show ?thesis using event_recv_spec [OF kern_example_can_block ok, of 3 5 ?o] s by auto
qed

end
