(* ===== verification/BQueue.thy ===== *)
theory BQueue
  imports Prelude
begin

text \<open>
  The contract of a bounded first-in first-out queue, which the mailboxes, the message queues
  and the byte and data queues of the kernel promise to their users. The contract is a
  locale over the operations of a provider; what a user may conclude from it is proved once
  inside the locale: whatever the order of the calls, the values that come out are those
  that went in, each once, in order.
\<close>

section \<open>The contract\<close>

text \<open>\<open>put\<close> and \<open>get\<close> are \<open>None\<close> when the queue is full or empty; \<open>ok\<close> restricts the values
  that may be put.\<close>

locale bounded_queue =
  fixes inv :: "'s \<Rightarrow> bool"
    and abs :: "'s \<Rightarrow> 'a list"
    and cap :: "'s \<Rightarrow> nat"
    and ok :: "'s \<Rightarrow> 'a \<Rightarrow> bool"
    and put :: "'a \<Rightarrow> 's \<Rightarrow> 's option"
    and get :: "'s \<Rightarrow> ('a \<times> 's) option"
  assumes room: "inv s \<Longrightarrow> length (abs s) \<le> cap s"
    and put_full: "inv s \<Longrightarrow> length (abs s) = cap s \<Longrightarrow> put x s = None"
    and put_room: "inv s \<Longrightarrow> length (abs s) < cap s \<Longrightarrow> ok s x \<Longrightarrow>
      \<exists>s'. put x s = Some s' \<and> inv s' \<and> abs s' = abs s @ [x] \<and> cap s' = cap s \<and> ok s' = ok s"
    and get_empty: "inv s \<Longrightarrow> abs s = [] \<Longrightarrow> get s = None"
    and get_head: "inv s \<Longrightarrow> abs s = x # xs \<Longrightarrow>
      \<exists>s'. get s = Some (x, s') \<and> inv s' \<and> abs s' = xs \<and> cap s' = cap s \<and> ok s' = ok s"

text \<open>A history of calls: what was accepted, what was handed out, and the final state.\<close>

datatype 'a qop = QPut 'a | QGet

fun qrun :: "('a \<Rightarrow> 's \<Rightarrow> 's option) \<Rightarrow> ('s \<Rightarrow> ('a \<times> 's) option) \<Rightarrow> 'a qop list \<Rightarrow> 's \<Rightarrow> 'a list \<times> 'a list \<times> 's" where
  "qrun put get [] s = ([], [], s)"
| "qrun put get (QPut x # ops) s =
     (case put x s of
        None \<Rightarrow> qrun put get ops s
      | Some s' \<Rightarrow> (let (ins, outs, r) = qrun put get ops s' in (x # ins, outs, r)))"
| "qrun put get (QGet # ops) s =
     (case get s of
        None \<Rightarrow> qrun put get ops s
      | Some (x, s') \<Rightarrow> (let (ins, outs, r) = qrun put get ops s' in (ins, x # outs, r)))"

fun put_ok :: "('a \<Rightarrow> bool) \<Rightarrow> 'a qop \<Rightarrow> bool" where
  "put_ok P (QPut x) = P x"
| "put_ok P QGet = True"

context bounded_queue
begin

lemma put_cases:
  assumes "inv s" "ok s x"
  obtains "length (abs s) = cap s" "put x s = None"
  | s' where "put x s = Some s'" "inv s'" "abs s' = abs s @ [x]" "cap s' = cap s" "ok s' = ok s"
  using room [OF assms(1)] put_full [OF assms(1)] put_room [OF assms(1) _ assms(2)] by (metis le_neq_implies_less)

lemma get_cases:
  assumes "inv s"
  obtains "abs s = []" "get s = None"
  | x s' where "get s = Some (x, s')" "inv s'" "abs s = x # abs s'" "cap s' = cap s" "ok s' = ok s"
  using get_empty [OF assms] get_head [OF assms] by (metis list.exhaust)

text \<open>First in, first out, nothing lost, nothing made up.\<close>

lemma qrun_fifo:
  "inv s \<Longrightarrow> list_all (put_ok (ok s)) ops \<Longrightarrow> qrun put get ops s = (ins, outs, s') \<Longrightarrow>
    inv s' \<and> abs s @ ins = outs @ abs s' \<and> length (abs s') \<le> cap s"
proof (induction ops arbitrary: s ins outs)
  case Nil
  then show ?case using room [of s] by simp
next
  case (Cons a ops)
  show ?case
  proof (cases a)
    case (QPut x)
    then have okx: "ok s x" using Cons.prems(2) by simp
    show ?thesis
    proof (rule put_cases [OF Cons.prems(1) okx])
      assume "put x s = None"
      then show ?thesis using Cons.IH [of s ins outs] Cons.prems QPut by simp
    next
      fix s1 assume s1: "put x s = Some s1" "inv s1" "abs s1 = abs s @ [x]" "cap s1 = cap s" "ok s1 = ok s"
      obtain i os where r: "qrun put get ops s1 = (i, os, s')" "ins = x # i" "outs = os"
        using Cons.prems(3) QPut s1(1) by (auto split: prod.splits)
      show ?thesis using Cons.IH [OF s1(2) _ r(1)] Cons.prems(2) s1(3-5) r(2,3) by simp
    qed
  next
    case QGet
    show ?thesis
    proof (rule get_cases [OF Cons.prems(1)])
      assume "get s = None"
      then show ?thesis using Cons.IH [of s ins outs] Cons.prems QGet by simp
    next
      fix x s1 assume s1: "get s = Some (x, s1)" "inv s1" "abs s = x # abs s1" "cap s1 = cap s" "ok s1 = ok s"
      obtain i os where r: "qrun put get ops s1 = (i, os, s')" "ins = i" "outs = x # os"
        using Cons.prems(3) QGet s1(1) by (auto split: prod.splits)
      show ?thesis using Cons.IH [OF s1(2) _ r(1)] Cons.prems(2) s1(3-5) r(2,3) by simp
    qed
  qed
qed

end

section \<open>Rings\<close>

text \<open>\<open>e\<close> elements of an array of \<open>n\<close>, from index \<open>b\<close> on, wrapping around.\<close>

definition ring_list :: "'a list \<Rightarrow> nat \<Rightarrow> nat \<Rightarrow> nat \<Rightarrow> 'a list" where
  "ring_list xs n b e = map (\<lambda>i. xs ! ((b + i) mod n)) [0..<e]"

lemma length_ring_list [simp]: "length (ring_list xs n b e) = e"
  by (simp add: ring_list_def)

lemma ring_mod_neq:
  assumes "i < e" "e < (n :: nat)"
  shows "(b + i) mod n \<noteq> (b + e) mod n"
proof
  assume "(b + i) mod n = (b + e) mod n"
  then have "n dvd (b + e) - (b + i)" using assms mod_eq_dvd_iff_nat [of "b + i" "b + e" n] by simp
  then have "n dvd e - i" by simp
  then show False using assms by (auto dest: dvd_imp_le)
qed

lemma ring_put:
  assumes "e < n" "length xs = n"
  shows "ring_list (xs[(b + e) mod n := v]) n b (Suc e) = ring_list xs n b e @ [v]"
proof -
  have "xs[(b + e) mod n := v] ! ((b + i) mod n) = xs ! ((b + i) mod n)" if "i < e" for i
    using ring_mod_neq [OF that assms(1), of b] by (metis nth_list_update_neq)
  moreover have "(b + e) mod n < length xs" using assms by simp
  ultimately show ?thesis by (simp add: ring_list_def)
qed

lemma ring_get:
  assumes "b < n" "0 < e"
  shows "ring_list xs n b e = xs ! b # ring_list xs n ((b + 1) mod n) (e - 1)"
proof -
  obtain e' where e: "e = Suc e'" using assms(2) by (cases e) auto
  have "(b + Suc i) mod n = ((b + 1) mod n + i) mod n" for i by (simp add: mod_add_left_eq)
  then show ?thesis using assms(1) by (simp add: ring_list_def e map_upt_Suc del: upt_Suc)
qed

text \<open>Advancing an index as the code does, by comparison.\<close>

lemma advance_mod: "b < (n :: nat) \<Longrightarrow> (b + 1) mod n = (if b + 1 \<ge> n then 0 else b + 1)"
  by (cases "b + 1 = n") auto

text \<open>Blocks: a run of the ring is one piece or two pieces of the array; a part of a run is a run.\<close>

lemma ring_list_nth: "i < e \<Longrightarrow> ring_list xs n b e ! i = xs ! ((b + i) mod n)"
  by (simp add: ring_list_def)

lemma ring_list_piece:
  assumes "b + e \<le> n" "n \<le> length xs"
  shows "ring_list xs n b e = take e (drop b xs)"
  by (rule nth_equalityI) (use assms in \<open>auto simp: ring_list_nth\<close>)

lemma ring_list_pieces:
  assumes "b \<le> n" "n \<le> b + e" "e \<le> n" "n \<le> length xs"
  shows "ring_list xs n b e = take (n - b) (drop b xs) @ take (e - (n - b)) xs"
proof (rule nth_equalityI)
  fix i assume "i < length (ring_list xs n b e)"
  then have i: "i < e" by simp
  show "ring_list xs n b e ! i = (take (n - b) (drop b xs) @ take (e - (n - b)) xs) ! i"
  proof (cases "i < n - b")
    case True
    then show ?thesis using i assms by (simp add: ring_list_nth nth_append)
  next
    case False
    then have "n \<le> b + i" "b + i - n < n" using i assms by auto
    then have "(b + i) mod n = b + i - n" by (simp add: le_mod_geq)
    then have "(b + i) mod n = i - (n - b)" using assms(1) by simp
    then show ?thesis using False i assms by (simp add: ring_list_nth nth_append)
  qed
qed (use assms in auto)

lemma ring_list_drop: "ring_list xs n ((b + k) mod n) (e - k) = drop k (ring_list xs n b e)"
  by (rule nth_equalityI) (auto simp: ring_list_nth mod_add_left_eq add.assoc)

lemma ring_list_take: "take k (ring_list xs n b e) = ring_list xs n b (min k e)"
  by (rule nth_equalityI) (auto simp: ring_list_nth)

text \<open>Storing a block at index \<open>w\<close> around the end.\<close>

definition ring_store :: "'a list \<Rightarrow> nat \<Rightarrow> nat \<Rightarrow> 'a list \<Rightarrow> 'a list" where
  "ring_store xs n w ys =
     map (\<lambda>x. if x < n \<and> (x + n - w) mod n < length ys then ys ! ((x + n - w) mod n) else xs ! x) [0..<length xs]"

lemma ring_store_length [simp]: "length (ring_store xs n w ys) = length xs"
  by (simp add: ring_store_def)

lemma ring_store_piece:
  assumes "w + length ys \<le> n" "n \<le> length xs" "w < n"
  shows "take w xs @ ys @ drop (w + length ys) xs = ring_store xs n w ys"
proof (rule nth_equalityI)
  fix i assume "i < length (take w xs @ ys @ drop (w + length ys) xs)"
  then have i: "i < length xs" using assms by simp
  have "(i + n - w) mod n = (if i < w then i + n - w else i - w)" if "i < n"
    using that assms(3) by (simp add: mod_if)
  then show "(take w xs @ ys @ drop (w + length ys) xs) ! i = ring_store xs n w ys ! i"
    using i assms by (auto simp: ring_store_def nth_append)
qed (use assms in auto)

lemma ring_store_pieces:
  assumes "n \<le> w + length ys" "length ys \<le> n" "n \<le> length xs" "w < n"
  shows "take (length ys - (n - w)) (drop (n - w) ys) @
      drop (length ys - (n - w)) (take w xs @ take (n - w) ys @ drop n xs) = ring_store xs n w ys"
proof (rule nth_equalityI)
  fix i assume "i < length (take (length ys - (n - w)) (drop (n - w) ys) @
      drop (length ys - (n - w)) (take w xs @ take (n - w) ys @ drop n xs))"
  then have i: "i < length xs" using assms by simp
  have "(i + n - w) mod n = (if i < w then i + n - w else i - w)" if "i < n"
    using that assms(4) by (simp add: mod_if)
  then show "(take (length ys - (n - w)) (drop (n - w) ys) @
      drop (length ys - (n - w)) (take w xs @ take (n - w) ys @ drop n xs)) ! i = ring_store xs n w ys ! i"
    using i assms by (cases "length ys = n - w") (auto simp: ring_store_def nth_append min_def add.commute)
qed (use assms in auto)

lemma ring_list_store:
  assumes "e + length ys \<le> n" "n \<le> length xs"
  shows "ring_list (ring_store xs n ((b + e) mod n) ys) n b (e + length ys) = ring_list xs n b e @ ys"
proof (rule nth_equalityI)
  fix i assume "i < length (ring_list (ring_store xs n ((b + e) mod n) ys) n b (e + length ys))"
  then have i: "i < e + length ys" by simp
  then have n: "0 < n" using assms by simp
  let ?x = "(b + i) mod n"
  have x: "?x < n" "?x < length xs" using n assms(2) less_le_trans [of ?x n] by simp_all
  have "(?x + n - (b + e) mod n) mod n = (i + n - e) mod n"
  proof -
    have "int ((?x + n - (b + e) mod n) mod n) = (int (b + i) mod int n - int (b + e) mod int n + int n) mod int n"
      using n mod_less_divisor [OF n, of "b + e"] by (simp add: zmod_int of_nat_diff less_imp_le algebra_simps)
    also have "\<dots> = (int (b + i) - int (b + e)) mod int n" by (simp only: mod_add_self2 mod_diff_eq)
    also have "\<dots> = (int i - int e + int n) mod int n" by (simp only: mod_add_self2) simp
    also have "\<dots> = int ((i + n - e) mod n)" using assms(1) by (simp add: zmod_int of_nat_diff algebra_simps)
    finally show ?thesis by simp
  qed
  moreover have "(i + n - e) mod n = (if i < e then i + n - e else i - e)"
    using i assms(1) by (simp add: mod_if)
  ultimately show "ring_list (ring_store xs n ((b + e) mod n) ys) n b (e + length ys) ! i = (ring_list xs n b e @ ys) ! i"
    using i x assms by (auto simp: ring_list_nth ring_store_def nth_append)
qed simp

end
