(* ===== verification/Mailbox.thy ===== *)
theory Mailbox
  imports Ipc BQueue
begin

text \<open>
  Mailboxes, \<^verbatim>\<open>src/ipc.c\<close> lines 1299 to 1763: a ring of machine words. Receivers wait on
  \<open>LSuspend o\<close>, senders on \<open>LSender o\<close>. The \<^verbatim>\<open>while\<close> loops of the two blocking calls are
  \<open>mb_send_loop\<close> and \<open>mb_recv_loop\<close>, entered at the start of the call and again when a waiting
  thread runs, with what is left of its waiting time. A store or a load outside the pool is
  \<open>None\<close>.
\<close>

section \<open>The ring\<close>

record mailbox =
  mb_pool :: "32 word list"
  mb_size :: "16 word"
  mb_entry :: "16 word"
  mb_in :: "16 word"
  mb_out :: "16 word"
  mb_flag :: ipc_flag

definition rt_mb_init :: "nat \<Rightarrow> 32 word list \<Rightarrow> nat \<Rightarrow> ipc_flag \<Rightarrow> kern \<Rightarrow> kern \<times> mailbox" where
  "rt_mb_init o' msgpool sz flag k =
     (k\<lparr>lists := (lists k)(LSuspend o' := [], LSender o' := [])\<rparr>,
      \<lparr>mb_pool = msgpool, mb_size = of_nat sz, mb_entry = 0, mb_in = 0, mb_out = 0, mb_flag = flag\<rparr>)"

definition mb_store :: "32 word \<Rightarrow> mailbox \<Rightarrow> mailbox option" where
  "mb_store value mb =
     (if unat (mb_in mb) < length (mb_pool mb) then
        Some (mb\<lparr>mb_pool := (mb_pool mb)[unat (mb_in mb) := value],
          mb_in := (if mb_in mb + 1 \<ge> mb_size mb then 0 else mb_in mb + 1), mb_entry := mb_entry mb + 1\<rparr>)
      else None)"

definition mb_load :: "mailbox \<Rightarrow> (32 word \<times> mailbox) option" where
  "mb_load mb =
     (if unat (mb_out mb) < length (mb_pool mb) then
        Some (mb_pool mb ! unat (mb_out mb),
          mb\<lparr>mb_out := (if mb_out mb + 1 \<ge> mb_size mb then 0 else mb_out mb + 1), mb_entry := mb_entry mb - 1\<rparr>)
      else None)"

definition mb_put :: "32 word \<Rightarrow> mailbox \<Rightarrow> mailbox option" where
  "mb_put value mb = (if mb_entry mb = mb_size mb then None else mb_store value mb)"

definition mb_get :: "mailbox \<Rightarrow> (32 word \<times> mailbox) option" where
  "mb_get mb = (if mb_entry mb = 0 then None else mb_load mb)"

text \<open>The invariant and the contents, oldest first.\<close>

definition mb_inv :: "mailbox \<Rightarrow> bool" where
  "mb_inv mb \<longleftrightarrow> length (mb_pool mb) = unat (mb_size mb) \<and> unat (mb_entry mb) \<le> unat (mb_size mb) \<and>
     (if mb_size mb = 0 then mb_in mb = 0 \<and> mb_out mb = 0
      else unat (mb_out mb) < unat (mb_size mb) \<and>
        unat (mb_in mb) = (unat (mb_out mb) + unat (mb_entry mb)) mod unat (mb_size mb))"

definition mb_abs :: "mailbox \<Rightarrow> 32 word list" where
  "mb_abs mb = ring_list (mb_pool mb) (unat (mb_size mb)) (unat (mb_out mb)) (unat (mb_entry mb))"

lemma mb_abs_length [simp]: "length (mb_abs mb) = unat (mb_entry mb)"
  by (simp add: mb_abs_def)

lemma rt_mb_init_inv: "length pool = sz \<Longrightarrow> sz < 65536 \<Longrightarrow> mb_inv (snd (rt_mb_init o' pool sz flag k))"
  by (auto simp: rt_mb_init_def mb_inv_def unat_of_nat word_of_nat_eq_0_iff dvd_imp_le)

text \<open>Advancing a 16-bit index.\<close>

lemma unat_Suc16: "unat (x :: 16 word) < unat (y :: 16 word) \<Longrightarrow> unat (x + 1) = unat x + 1"
proof -
  assume "unat x < unat y"
  moreover have "unat y < 2 ^ 16" using unsigned_less [of y] by simp
  ultimately show ?thesis by (simp add: unat_word_ariths)
qed

lemma advance16:
  assumes "unat (x :: 16 word) < unat (y :: 16 word)"
  shows "unat (if x + 1 \<ge> y then 0 else x + 1) = (unat x + 1) mod unat y"
  unfolding advance_mod [OF assms] by (simp add: word_le_nat_alt unat_Suc16 [OF assms])

lemma mb_store_spec:
  assumes "mb_inv mb" "mb_entry mb \<noteq> mb_size mb"
  shows "\<exists>mb'. mb_store v mb = Some mb' \<and> mb_inv mb' \<and> mb_abs mb' = mb_abs mb @ [v] \<and> mb_size mb' = mb_size mb \<and>
    mb_entry mb' = mb_entry mb + 1 \<and> mb_flag mb' = mb_flag mb"
proof -
  let ?n = "unat (mb_size mb)" and ?e = "unat (mb_entry mb)" and ?o = "unat (mb_out mb)"
  have e: "?e < ?n" using assms by (simp add: mb_inv_def word_unat_eq_iff)
  then have nz: "mb_size mb \<noteq> 0" by auto
  have i: "length (mb_pool mb) = ?n" "?o < ?n" "unat (mb_in mb) = (?o + ?e) mod ?n"
    using assms(1) nz by (simp_all add: mb_inv_def)
  have il: "unat (mb_in mb) < ?n" using i(3) e by simp
  have "(unat (mb_in mb) + 1) mod ?n = (?o + (?e + 1)) mod ?n" unfolding i(3) by (simp add: mod_simps)
  then have "mb_inv (mb\<lparr>mb_pool := (mb_pool mb)[unat (mb_in mb) := v],
      mb_in := (if mb_in mb + 1 \<ge> mb_size mb then 0 else mb_in mb + 1), mb_entry := mb_entry mb + 1\<rparr>)"
    using i e nz advance16 [OF il] unat_Suc16 [OF e] by (simp add: mb_inv_def)
  moreover have "ring_list ((mb_pool mb)[unat (mb_in mb) := v]) ?n ?o (Suc ?e) = mb_abs mb @ [v]"
    unfolding i(3) mb_abs_def by (rule ring_put [OF e i(1)])
  ultimately show ?thesis
    using il i(1) unat_Suc16 [OF e] by (simp add: mb_store_def mb_abs_def)
qed

lemma mb_load_spec:
  assumes "mb_inv mb" "mb_abs mb = x # xs"
  shows "\<exists>mb'. mb_load mb = Some (x, mb') \<and> mb_inv mb' \<and> mb_abs mb' = xs \<and> mb_size mb' = mb_size mb \<and>
    mb_entry mb' = mb_entry mb - 1 \<and> mb_flag mb' = mb_flag mb"
proof -
  let ?n = "unat (mb_size mb)" and ?e = "unat (mb_entry mb)" and ?o = "unat (mb_out mb)"
  have "length (mb_abs mb) = Suc (length xs)" using assms(2) by simp
  then have e: "0 < ?e" by simp
  then have en: "unat (mb_entry mb - 1) = ?e - 1" by (simp add: unat_minus_one unat_gt_0)
  have "?e \<le> ?n" using assms(1) by (simp add: mb_inv_def)
  then have nz: "mb_size mb \<noteq> 0" using e by auto
  have i: "length (mb_pool mb) = ?n" "?o < ?n" "unat (mb_in mb) = (?o + ?e) mod ?n" "?e \<le> ?n"
    using assms(1) nz by (simp_all add: mb_inv_def)
  have "mb_abs mb = mb_pool mb ! ?o # ring_list (mb_pool mb) ?n ((?o + 1) mod ?n) (?e - 1)"
    unfolding mb_abs_def by (rule ring_get [OF i(2) e])
  then have x: "x = mb_pool mb ! ?o" "xs = ring_list (mb_pool mb) ?n ((?o + 1) mod ?n) (?e - 1)"
    using assms(2) by simp_all
  have "((?o + 1) mod ?n + (?e - 1)) mod ?n = (?o + 1 + (?e - 1)) mod ?n" by (rule mod_add_left_eq)
  also have "?o + 1 + (?e - 1) = ?o + ?e" using e by simp
  finally have "((?o + 1) mod ?n + (?e - 1)) mod ?n = (?o + ?e) mod ?n" .
  then show ?thesis
    using i nz advance16 [OF i(2)] en x by (simp add: mb_load_def mb_inv_def mb_abs_def)
qed

text \<open>The mailbox provides the bounded queue.\<close>

interpretation mbq: bounded_queue mb_inv mb_abs "\<lambda>mb. unat (mb_size mb)" "\<lambda>_ _. True" mb_put mb_get
proof
  fix mb :: mailbox and x :: "32 word" and xs
  assume i: "mb_inv mb"
  show "length (mb_abs mb) \<le> unat (mb_size mb)" using i by (simp add: mb_inv_def)
  show "length (mb_abs mb) = unat (mb_size mb) \<Longrightarrow> mb_put x mb = None"
    by (simp add: mb_put_def word_unat_eq_iff)
  show "length (mb_abs mb) < unat (mb_size mb) \<Longrightarrow> True \<Longrightarrow> \<exists>mb'. mb_put x mb = Some mb' \<and> mb_inv mb' \<and>
      mb_abs mb' = mb_abs mb @ [x] \<and> unat (mb_size mb') = unat (mb_size mb) \<and> (\<lambda>_. True) = (\<lambda>_. True)"
    using mb_store_spec [OF i, of x] by (auto simp: mb_put_def)
  show "mb_abs mb = [] \<Longrightarrow> mb_get mb = None"
    using mb_abs_length [of mb] by (simp add: mb_get_def del: mb_abs_length) (metis unat_0_iff)
  show "mb_abs mb = x # xs \<Longrightarrow> \<exists>mb'. mb_get mb = Some (x, mb') \<and> mb_inv mb' \<and> mb_abs mb' = xs \<and>
      unat (mb_size mb') = unat (mb_size mb) \<and> (\<lambda>_. True) = (\<lambda>_. True)"
    using mb_load_spec [OF i, of x xs] mb_abs_length [of mb] by (auto simp: mb_get_def)
qed

section \<open>The operations\<close>

definition mb_deliver :: "nat \<Rightarrow> 32 word \<Rightarrow> mailbox \<Rightarrow> kern \<Rightarrow> (kern \<times> mailbox \<times> rt_err outcome) option" where
  "mb_deliver o' value mb k =
     do {
       mb1 \<leftarrow> mb_store value mb;
       if lists k (LSuspend o') \<noteq> [] then
         do {
           k1 \<leftarrow> rt_ipc_list_resume (LSuspend o') k;
           k2 \<leftarrow> rt_schedule k1;
           Some (k2, mb1, Done RT_EOK)
         }
       else Some (k, mb1, Done RT_EOK)
     }"

partial_function (option) mb_send_loop ::
  "nat \<Rightarrow> 32 word \<Rightarrow> int \<Rightarrow> mailbox \<Rightarrow> kern \<Rightarrow> (kern \<times> mailbox \<times> rt_err outcome) option" where
  "mb_send_loop o' value timeout mb k =
     (if mb_entry mb = mb_size mb then
        do {
          t \<leftarrow> cur k;
          let k0 = clear_error t k;
          if timeout = 0 then Some (k0, mb, Done RT_EFULL)
          else if in_thread_context k0 then
            do {
              k1 \<leftarrow> ipc_wait (LSender o') (mb_flag mb) timeout t k0;
              if cur k1 \<noteq> Some t then Some (k1, mb, Waits)
              else if err k1 t \<noteq> RT_EOK then Some (k1, mb, Done (err k1 t))
              else mb_send_loop o' value (time_left timeout (now k0) k1) mb k1
            }
          else None
        }
      else mb_deliver o' value mb k)"

declare mb_send_loop.simps [code]

definition rt_mb_send_wait ::
  "nat \<Rightarrow> 32 word \<Rightarrow> int \<Rightarrow> mailbox \<Rightarrow> kern \<Rightarrow> (kern \<times> mailbox \<times> rt_err outcome) option" where
  "rt_mb_send_wait o' value timeout mb k =
     (if mb_entry mb = mb_size mb \<and> timeout = 0 then Some (k, mb, Done RT_EFULL)
      else mb_send_loop o' value timeout mb k)"

text \<open>A sender that waited since tick \<open>t0\<close> runs again.\<close>

definition rt_mb_send_resume ::
  "nat \<Rightarrow> 32 word \<Rightarrow> int \<Rightarrow> 32 word \<Rightarrow> tid \<Rightarrow> mailbox \<Rightarrow> kern \<Rightarrow> (kern \<times> mailbox \<times> rt_err outcome) option" where
  "rt_mb_send_resume o' value timeout t0 t mb k =
     (if err k t \<noteq> RT_EOK then Some (k, mb, Done (err k t))
      else mb_send_loop o' value (time_left timeout t0 k) mb k)"

definition rt_mb_send :: "nat \<Rightarrow> 32 word \<Rightarrow> mailbox \<Rightarrow> kern \<Rightarrow> (kern \<times> mailbox \<times> rt_err outcome) option" where
  "rt_mb_send o' value mb k = rt_mb_send_wait o' value 0 mb k"

definition mb_collect ::
  "nat \<Rightarrow> mailbox \<Rightarrow> kern \<Rightarrow> (kern \<times> mailbox \<times> (32 word option \<times> rt_err) outcome) option" where
  "mb_collect o' mb k =
     do {
       (value, mb1) \<leftarrow> mb_load mb;
       if lists k (LSender o') \<noteq> [] then
         do {
           k1 \<leftarrow> rt_ipc_list_resume (LSender o') k;
           k2 \<leftarrow> rt_schedule k1;
           Some (k2, mb1, Done (Some value, RT_EOK))
         }
       else Some (k, mb1, Done (Some value, RT_EOK))
     }"

partial_function (option) mb_recv_loop ::
  "nat \<Rightarrow> int \<Rightarrow> mailbox \<Rightarrow> kern \<Rightarrow> (kern \<times> mailbox \<times> (32 word option \<times> rt_err) outcome) option" where
  "mb_recv_loop o' timeout mb k =
     (if mb_entry mb = 0 then
        do {
          t \<leftarrow> cur k;
          let k0 = clear_error t k;
          if timeout = 0 then Some (upd_tcb t (\<lambda>c. c\<lparr>t_error := RT_ETIMEOUT\<rparr>) k0, mb, Done (None, RT_ETIMEOUT))
          else if in_thread_context k0 then
            do {
              k1 \<leftarrow> ipc_wait (LSuspend o') (mb_flag mb) timeout t k0;
              if cur k1 \<noteq> Some t then Some (k1, mb, Waits)
              else if err k1 t \<noteq> RT_EOK then Some (k1, mb, Done (None, err k1 t))
              else mb_recv_loop o' (time_left timeout (now k0) k1) mb k1
            }
          else None
        }
      else mb_collect o' mb k)"

declare mb_recv_loop.simps [code]

definition rt_mb_recv ::
  "nat \<Rightarrow> int \<Rightarrow> mailbox \<Rightarrow> kern \<Rightarrow> (kern \<times> mailbox \<times> (32 word option \<times> rt_err) outcome) option" where
  "rt_mb_recv o' timeout mb k =
     (if mb_entry mb = 0 \<and> timeout = 0 then Some (k, mb, Done (None, RT_ETIMEOUT))
      else mb_recv_loop o' timeout mb k)"

definition rt_mb_recv_resume ::
  "nat \<Rightarrow> int \<Rightarrow> 32 word \<Rightarrow> tid \<Rightarrow> mailbox \<Rightarrow> kern \<Rightarrow> (kern \<times> mailbox \<times> (32 word option \<times> rt_err) outcome) option" where
  "rt_mb_recv_resume o' timeout t0 t mb k =
     (if err k t \<noteq> RT_EOK then Some (k, mb, Done (None, err k t))
      else mb_recv_loop o' (time_left timeout t0 k) mb k)"

definition rt_mb_detach :: "nat \<Rightarrow> kern \<Rightarrow> kern option" where
  "rt_mb_detach o' k =
     do {
       k1 \<leftarrow> rt_ipc_list_resume_all (LSuspend o') k;
       rt_ipc_list_resume_all (LSender o') k1
     }"

definition rt_mb_control :: "nat \<Rightarrow> bool \<Rightarrow> mailbox \<Rightarrow> kern \<Rightarrow> (kern \<times> mailbox \<times> rt_err) option" where
  "rt_mb_control o' reset mb k =
     (if reset then
        do {
          k1 \<leftarrow> rt_ipc_list_resume_all (LSuspend o') k;
          k2 \<leftarrow> rt_ipc_list_resume_all (LSender o') k1;
          k3 \<leftarrow> rt_schedule k2;
          Some (k3, mb\<lparr>mb_entry := 0, mb_in := 0, mb_out := 0\<rparr>, RT_EOK)
        }
      else Some (k, mb, RT_ERROR))"

section \<open>Properties\<close>

text \<open>The ring of a mailbox is a first-in first-out queue: for every history of stores and
  loads from a good state, those on a full or empty mailbox refused, the values handed out
  followed by the contents are the old contents followed by the values accepted; the contents
  never exceed the size, and no access leaves the pool.\<close>

theorem mailbox_fifo:
  assumes "mb_inv mb" "qrun mb_put mb_get ops mb = (ins, outs, mb')"
  shows "mb_inv mb' \<and> mb_abs mb @ ins = outs @ mb_abs mb' \<and> length (mb_abs mb') \<le> unat (mb_size mb)"
proof -
  have "list_all (put_ok (\<lambda>_. True)) ops"
    by (simp add: list_all_iff) (metis put_ok.elims(3))
  then show ?thesis by (rule mbq.qrun_fifo [OF assms(1) _ assms(2)])
qed

definition mailbox_example :: mailbox where
  "mailbox_example = \<lparr>mb_pool = [0, 0], mb_size = 2, mb_entry = 0, mb_in = 1, mb_out = 1, mb_flag = RT_IPC_FLAG_FIFO\<rparr>"

lemma mailbox_example_inv: "mb_inv mailbox_example" "mb_abs mailbox_example = []"
  by (simp_all add: mb_inv_def mailbox_example_def mb_abs_def ring_list_def)

text \<open>Three stores into a mailbox of two, the third refused, and two loads across the wrap-around.\<close>

theorem mailbox_fifo_witness:
  "\<exists>mb'. qrun mb_put mb_get [QPut 7, QPut 8, QPut 9, QGet, QGet] mailbox_example = ([7, 8], [7, 8], mb') \<and>
     mb_abs mb' = []"
proof -
  have "\<exists>mb'. qrun mb_put mb_get [QPut 7, QPut 8, QPut 9, QGet, QGet] mailbox_example = ([7, 8], [7, 8], mb')"
    by (simp add: mailbox_example_def mb_put_def mb_store_def mb_get_def mb_load_def word_le_nat_alt)
  then show ?thesis
    using mailbox_fifo [OF mailbox_example_inv(1)] mailbox_example_inv(2) by fastforce
qed

text \<open>Sending to a mailbox: with room the value becomes the newest and the first waiting
  receiver, if any, is woken; on a full mailbox the call reports it at once with waiting time
  0, and otherwise the caller waits in the queue of senders. It never fails and keeps the
  invariants.\<close>

theorem mb_send_spec:
  assumes "can_block t k" "mb_inv mb" "timeout < 0x7fffffff"
  shows "\<exists>k' mb' r. rt_mb_send_wait o' v timeout mb k = Some (k', mb', r) \<and> ipc_inv k' \<and> mb_inv mb' \<and>
    (if length (mb_abs mb) < unat (mb_size mb) then
       r = Done RT_EOK \<and> mb_abs mb' = mb_abs mb @ [v] \<and>
       (case lists k (LSuspend o') of
          [] \<Rightarrow> k' = k
        | x # xs \<Rightarrow> active_stat (stat k' x) \<and> err k' x = err k x \<and> lists k' (LSuspend o') = xs)
     else mb' = mb \<and>
       (if timeout = 0 then r = Done RT_EFULL \<and> k' = k
        else r = Waits \<and> stat k' t = T_SUSPEND \<and>
          lists k' (LSender o') = wait_insert (mb_flag mb) (prio k) t (lists k (LSender o'))))"
proof -
  note c = can_blockD [OF assms(1)]
  have full: "mb_entry mb = mb_size mb \<longleftrightarrow> \<not> length (mb_abs mb) < unat (mb_size mb)"
    using assms(2) by (auto simp: mb_inv_def word_unat_eq_iff)
  consider "mb_entry mb \<noteq> mb_size mb" | "mb_entry mb = mb_size mb" "timeout = 0" | "mb_entry mb = mb_size mb" "timeout \<noteq> 0"
    by blast
  then show ?thesis
  proof cases
    case 1
    from mb_store_spec [OF assms(2) 1, of v] obtain mb' where
      mb': "mb_store v mb = Some mb'" "mb_inv mb'" "mb_abs mb' = mb_abs mb @ [v]" by blast
    show ?thesis
    proof (cases "lists k (LSuspend o')")
      case Nil
      then show ?thesis using 1 full mb' c(1)
        by (simp add: rt_mb_send_wait_def mb_send_loop.simps mb_deliver_def)
    next
      case (Cons x xs)
      from wake_first_spec [OF c(1) Cons _ c(2)] show ?thesis
        using Cons 1 full mb' by (auto simp: rt_mb_send_wait_def mb_send_loop.simps mb_deliver_def)
    qed
  next
    case 2
    then show ?thesis using full assms(2) c(1) by (simp add: rt_mb_send_wait_def)
  next
    case 3
    from block_cleared [OF assms(1) _ assms(3), of "LSender o'" "mb_flag mb"] show ?thesis
      using 3 full assms(2) can_blockD(2,4) [OF can_block_clear [OF assms(1)]]
      by (auto simp: rt_mb_send_wait_def mb_send_loop.simps)
  qed
qed

theorem mb_send_spec_witness:
  "\<exists>k' mb'. rt_mb_send_wait 0 42 0 mailbox_example kern_example = Some (k', mb', Done RT_EOK) \<and> mb_abs mb' = [42]"
  using mb_send_spec [OF kern_example_can_block mailbox_example_inv(1), of 0 0 42] mailbox_example_inv(2)
  by (auto simp: mailbox_example_def)

text \<open>Receiving from a mailbox: the oldest value is handed out and the first waiting sender,
  if any, is woken; on an empty mailbox the call gives up at once with waiting time 0, and
  otherwise the caller waits in the queue of receivers.\<close>

theorem mb_recv_spec:
  assumes "can_block t k" "mb_inv mb" "timeout < 0x7fffffff"
  shows "\<exists>k' mb' r. rt_mb_recv o' timeout mb k = Some (k', mb', r) \<and> ipc_inv k' \<and> mb_inv mb' \<and>
    (case mb_abs mb of
       v # vs \<Rightarrow> r = Done (Some v, RT_EOK) \<and> mb_abs mb' = vs \<and>
         (case lists k (LSender o') of
            [] \<Rightarrow> k' = k
          | x # xs \<Rightarrow> active_stat (stat k' x) \<and> err k' x = err k x \<and> lists k' (LSender o') = xs)
     | [] \<Rightarrow> mb' = mb \<and>
         (if timeout = 0 then r = Done (None, RT_ETIMEOUT) \<and> k' = k
          else r = Waits \<and> stat k' t = T_SUSPEND \<and>
            lists k' (LSuspend o') = wait_insert (mb_flag mb) (prio k) t (lists k (LSuspend o'))))"
proof (cases "mb_abs mb")
  case Nil
  then have e: "mb_entry mb = 0" using mb_abs_length [of mb] by (simp del: mb_abs_length add: unat_eq_0)
  note c = can_blockD [OF assms(1)]
  show ?thesis
  proof (cases "timeout = 0")
    case True
    then show ?thesis using e Nil assms(2) c(1) by (simp add: rt_mb_recv_def)
  next
    case False
    from block_cleared [OF assms(1) _ assms(3), of "LSuspend o'" "mb_flag mb"] show ?thesis
      using False e Nil assms(2) can_blockD(2,4) [OF can_block_clear [OF assms(1)]]
      by (auto simp: rt_mb_recv_def mb_recv_loop.simps)
  qed
next
  case (Cons v vs)
  then have e: "mb_entry mb \<noteq> 0" using mb_abs_length [of mb] by auto
  note c = can_blockD [OF assms(1)]
  from mb_load_spec [OF assms(2) Cons] obtain mb' where
    mb': "mb_load mb = Some (v, mb')" "mb_inv mb'" "mb_abs mb' = vs" by blast
  show ?thesis
  proof (cases "lists k (LSender o')")
    case Nil
    then show ?thesis using Cons e mb' c(1) by (simp add: rt_mb_recv_def mb_recv_loop.simps mb_collect_def)
  next
    case w: (Cons x xs)
    from wake_first_spec [OF c(1) w _ c(2)] show ?thesis
      using w Cons e mb' by (auto simp: rt_mb_recv_def mb_recv_loop.simps mb_collect_def)
  qed
qed

theorem mb_recv_spec_witness:
  "\<exists>k'. rt_mb_recv 0 (- 1) mailbox_example kern_example = Some (k', mailbox_example, Waits) \<and> lists k' (LSuspend 0) = [1]"
  using mb_recv_spec [OF kern_example_can_block mailbox_example_inv(1), of "- 1" 0] mailbox_example_inv(2)
  by (auto simp: kern_example_waits mailbox_example_def)

end
