(* ===== verification/MsgQueue.thy ===== *)
theory MsgQueue
  imports Ipc BQueue
begin

text \<open>
  Message queues, \<^verbatim>\<open>src/ipc.c\<close> lines 1786 to 2450: a pool of blocks of \<^verbatim>\<open>msg_size\<close> bytes, each
  with a link word in front, kept on two singly linked lists, the free blocks and the queued
  messages (head and tail). A block is its number in the pool; block \<open>b\<close> lies at
  \<open>b * (msg_size + 4)\<close>, so blocks do not overlap. A null pointer is \<open>None\<close>, and following it
  makes the whole computation \<open>None\<close>.

  A message is copied with the interrupts enabled, between two critical sections: a block in
  transit is on neither list. The pieces are operations of their own (\<open>mq_take_free\<close>,
  \<open>mq_fill\<close>, \<open>mq_link_tail\<close>, \<open>mq_link_head\<close>, \<open>mq_unlink_head\<close>, \<open>mq_read\<close>, \<open>mq_give_free\<close>), and
  the step relation \<open>mq_step\<close> interleaves those of any number of threads and interrupts.
\<close>

section \<open>The pool\<close>

type_synonym block = nat

record mq =
  mq_next :: "block \<Rightarrow> block option"
  mq_data :: "block \<Rightarrow> 8 word list"
  mq_msize :: "16 word"
  mq_max :: "16 word"
  mq_entry :: "16 word"
  mq_head :: "block option"
  mq_tail :: "block option"
  mq_free :: "block option"
  mq_flag :: ipc_flag

text \<open>The loop that chains all blocks into the free list.\<close>

fun mq_thread_free :: "nat \<Rightarrow> (block \<Rightarrow> block option) \<times> block option" where
  "mq_thread_free 0 = (\<lambda>_. None, None)"
| "mq_thread_free (Suc temp) = (let (nx, free) = mq_thread_free temp in (nx(temp := free), Some temp))"

definition rt_mq_init ::
  "nat \<Rightarrow> (block \<Rightarrow> 8 word list) \<Rightarrow> 32 word \<Rightarrow> 32 word \<Rightarrow> ipc_flag \<Rightarrow> kern \<Rightarrow> kern \<times> mq" where
  "rt_mq_init o' msgpool msg_size pool_size flag k =
     (let msize = ucast (RT_ALIGN msg_size 4) :: 16 word;
          mx = ucast (pool_size div (ucast msize + 4)) :: 16 word;
          (nx, free) = mq_thread_free (unat mx)
      in (k\<lparr>lists := (lists k)(LSuspend o' := [], LSender o' := [])\<rparr>,
          \<lparr>mq_next = nx, mq_data = msgpool, mq_msize = msize, mq_max = mx, mq_entry = 0,
           mq_head = None, mq_tail = None, mq_free = free, mq_flag = flag\<rparr>))"

definition mq_take_free :: "mq \<Rightarrow> (block \<times> mq) option" where
  "mq_take_free q = do { b \<leftarrow> mq_free q; Some (b, q\<lparr>mq_free := mq_next q b\<rparr>) }"

definition mq_fill :: "block \<Rightarrow> 8 word list \<Rightarrow> mq \<Rightarrow> mq" where
  "mq_fill b buffer q = q\<lparr>mq_data := (mq_data q)(b := buffer @ drop (length buffer) (mq_data q b))\<rparr>"

definition mq_clear_next :: "block \<Rightarrow> mq \<Rightarrow> mq" where
  "mq_clear_next b q = q\<lparr>mq_next := (mq_next q)(b := None)\<rparr>"

definition mq_link_tail :: "block \<Rightarrow> mq \<Rightarrow> mq" where
  "mq_link_tail b q =
     (let q1 = (case mq_tail q of Some t \<Rightarrow> q\<lparr>mq_next := (mq_next q)(t := Some b)\<rparr> | None \<Rightarrow> q)
      in q1\<lparr>mq_tail := Some b, mq_head := (if mq_head q1 = None then Some b else mq_head q1),
           mq_entry := mq_entry q1 + 1\<rparr>)"

definition mq_link_head :: "block \<Rightarrow> mq \<Rightarrow> mq" where
  "mq_link_head b q =
     q\<lparr>mq_next := (mq_next q)(b := mq_head q), mq_head := Some b,
       mq_tail := (if mq_tail q = None then Some b else mq_tail q), mq_entry := mq_entry q + 1\<rparr>"

definition mq_unlink_head :: "mq \<Rightarrow> (block \<times> mq) option" where
  "mq_unlink_head q =
     do {
       b \<leftarrow> mq_head q;
       Some (b, q\<lparr>mq_head := mq_next q b, mq_tail := (if mq_tail q = Some b then None else mq_tail q),
         mq_entry := mq_entry q - 1\<rparr>)
     }"

definition mq_read :: "block \<Rightarrow> nat \<Rightarrow> mq \<Rightarrow> 8 word list" where
  "mq_read b sz q = take (if sz > unat (mq_msize q) then unat (mq_msize q) else sz) (mq_data q b)"

definition mq_give_free :: "block \<Rightarrow> mq \<Rightarrow> mq" where
  "mq_give_free b q = q\<lparr>mq_next := (mq_next q)(b := mq_free q), mq_free := Some b\<rparr>"

section \<open>Chains\<close>

fun chain :: "(block \<Rightarrow> block option) \<Rightarrow> block option \<Rightarrow> block list \<Rightarrow> bool" where
  "chain nx p [] \<longleftrightarrow> p = None"
| "chain nx p (a # as) \<longleftrightarrow> p = Some a \<and> chain nx (nx a) as"

lemma chain_None [simp]: "chain nx None as \<longleftrightarrow> as = []"
  by (cases as) auto

lemma chain_upd [simp]: "b \<notin> set as \<Longrightarrow> chain (nx(b := v)) p as = chain nx p as"
  by (induction as arbitrary: p) auto

lemma chain_snoc:
  "chain nx p as \<Longrightarrow> as \<noteq> [] \<Longrightarrow> distinct as \<Longrightarrow> b \<notin> set as \<Longrightarrow> nx b = None \<Longrightarrow> chain (nx(last as := Some b)) p (as @ [b])"
proof (induction as arbitrary: p)
  case (Cons a as)
  show ?case
  proof (cases as)
    case Nil
    then show ?thesis using Cons.prems by auto
  next
    case (Cons a' as')
    then have "a \<noteq> last as" using \<open>distinct (a # as)\<close> last_in_set [of as] by auto
    then show ?thesis using Cons Cons.IH [of "nx a"] Cons.prems by auto
  qed
qed simp

lemma chain_head: "chain nx p as \<Longrightarrow> p = (case as of [] \<Rightarrow> None | a # _ \<Rightarrow> Some a)"
  by (cases as) auto

text \<open>Reading a chain off, given its length.\<close>

fun walk :: "(block \<Rightarrow> block option) \<Rightarrow> block option \<Rightarrow> nat \<Rightarrow> block list" where
  "walk nx p 0 = []"
| "walk nx None (Suc n) = []"
| "walk nx (Some a) (Suc n) = a # walk nx (nx a) n"

lemma walk_chain: "chain nx p as \<Longrightarrow> walk nx p (length as) = as"
  by (induction as arbitrary: p) auto

lemma mq_thread_free_chain:
  "mq_thread_free n = (nx, free) \<Longrightarrow> chain nx free (rev [0..<n])"
proof (induction n arbitrary: nx free)
  case (Suc n)
  obtain nx' free' where r: "mq_thread_free n = (nx', free')" by fastforce
  have "n \<notin> set (rev [0..<n])" by simp
  then show ?case using Suc.IH [OF r] Suc.prems r by auto
qed simp

section \<open>The representation\<close>

text \<open>
  \<open>mq_rep q F fs qs\<close>: the free blocks are \<open>fs\<close>, the queued ones \<open>qs\<close> in order, those in transit
  are the set \<open>F\<close>; together they are all blocks, each once.
\<close>

definition mq_rep :: "mq \<Rightarrow> block set \<Rightarrow> block list \<Rightarrow> block list \<Rightarrow> bool" where
  "mq_rep q F fs qs \<longleftrightarrow> chain (mq_next q) (mq_free q) fs \<and> chain (mq_next q) (mq_head q) qs \<and>
     mq_tail q = (if qs = [] then None else Some (last qs)) \<and> distinct (fs @ qs) \<and>
     set fs \<union> set qs \<union> F = {0..<unat (mq_max q)} \<and> F \<inter> (set fs \<union> set qs) = {} \<and>
     unat (mq_entry q) = length qs \<and> (\<forall>b < unat (mq_max q). length (mq_data q b) = unat (mq_msize q))"

lemma rep_data_length:
  assumes "mq_rep q F fs qs" "b \<in> set fs \<union> set qs \<union> F"
  shows "length (mq_data q b) = unat (mq_msize q)"
proof -
  have "b \<in> {0..<unat (mq_max q)}" using assms unfolding mq_rep_def by blast
  then show ?thesis using assms(1) by (simp add: mq_rep_def)
qed

lemma rep_take_free:
  assumes "mq_rep q F (b # fs) qs"
  shows "\<exists>q'. mq_take_free q = Some (b, q') \<and> mq_rep q' (insert b F) fs qs \<and> mq_data q' = mq_data q \<and>
    mq_max q' = mq_max q \<and> mq_msize q' = mq_msize q \<and> mq_flag q' = mq_flag q"
  using assms by (auto simp: mq_rep_def mq_take_free_def)

lemma rep_free_none: "mq_rep q F fs qs \<Longrightarrow> mq_free q = None \<longleftrightarrow> fs = []"
  by (cases fs) (auto simp: mq_rep_def)

lemma rep_fill:
  assumes "mq_rep q F fs qs" "b \<in> F" "length buffer \<le> unat (mq_msize q)"
  shows "mq_rep (mq_fill b buffer q) F fs qs"
  using assms by (auto simp: mq_rep_def mq_fill_def)

lemma rep_clear_next: "mq_rep q F fs qs \<Longrightarrow> b \<in> F \<Longrightarrow> mq_rep (mq_clear_next b q) F fs qs"
  by (subgoal_tac "b \<notin> set fs \<and> b \<notin> set qs") (auto simp: mq_rep_def mq_clear_next_def)

lemma rep_count:
  assumes "mq_rep q {} fs qs"
  shows "length fs + length qs = unat (mq_max q)"
proof -
  have d: "distinct (fs @ qs)" and s: "set (fs @ qs) = {0..<unat (mq_max q)}" using assms by (auto simp: mq_rep_def)
  show ?thesis using distinct_card [OF d] unfolding s by simp
qed

lemma rep_transit_bound: "mq_rep q F fs qs \<Longrightarrow> b \<in> F \<Longrightarrow> length qs < unat (mq_max q)"
proof -
  assume r: "mq_rep q F fs qs" "b \<in> F"
  then have "insert b (set qs) \<subseteq> {0..<unat (mq_max q)}" "b \<notin> set qs" by (auto simp: mq_rep_def)
  then have "card (insert b (set qs)) \<le> card {0..<unat (mq_max q)}" by (intro card_mono) auto
  then show ?thesis using r \<open>b \<notin> set qs\<close> by (simp add: mq_rep_def distinct_card)
qed

lemma unat_Suc_entry: "mq_rep q F fs qs \<Longrightarrow> b \<in> F \<Longrightarrow> unat (mq_entry q + 1) = Suc (length qs)"
proof -
  assume r: "mq_rep q F fs qs" "b \<in> F"
  have "unat (mq_max q) < 65536" using unsigned_less [of "mq_max q"] by simp
  then have "unat (mq_entry q) < 65535" using rep_transit_bound [OF r] r(1) by (simp add: mq_rep_def)
  then show ?thesis using r(1) by (simp add: unat_word_ariths mq_rep_def)
qed

lemma rep_link_tail:
  assumes "mq_rep q F fs qs" "b \<in> F" "mq_next q b = None"
  shows "mq_rep (mq_link_tail b q) (F - {b}) fs (qs @ [b])"
proof -
  have b: "b \<notin> set fs" "b \<notin> set qs" "b < unat (mq_max q)" using assms(1,2) by (auto simp: mq_rep_def)
  note e = unat_Suc_entry [OF assms(1,2)]
  show ?thesis
  proof (cases "qs = []")
    case True
    then show ?thesis using assms b e by (auto simp: mq_rep_def mq_link_tail_def)
  next
    case False
    have q: "chain (mq_next q) (mq_free q) fs" "chain (mq_next q) (mq_head q) qs" "mq_tail q = Some (last qs)"
      "distinct (fs @ qs)" using assms(1) False by (auto simp: mq_rep_def)
    have l: "last qs \<notin> set fs" using q(4) last_in_set [OF False] by auto
    have "chain ((mq_next q)(last qs := Some b)) (mq_head q) (qs @ [b])"
      by (rule chain_snoc [OF q(2) False]) (use q(4) b(2) assms(3) in auto)
    moreover have "mq_head q \<noteq> None" using q(2) False by (cases qs) auto
    ultimately show ?thesis using assms(1) b l e q(1,3) False by (auto simp: mq_rep_def mq_link_tail_def Let_def)
  qed
qed

lemma rep_link_head:
  assumes "mq_rep q F fs qs" "b \<in> F"
  shows "mq_rep (mq_link_head b q) (F - {b}) fs (b # qs)"
proof -
  have b: "b \<notin> set fs" "b \<notin> set qs" "b < unat (mq_max q)" using assms by (auto simp: mq_rep_def)
  show ?thesis using assms b unat_Suc_entry [OF assms] by (auto simp: mq_rep_def mq_link_head_def)
qed

lemma rep_unlink_head:
  assumes "mq_rep q F fs (b # qs)"
  shows "\<exists>q'. mq_unlink_head q = Some (b, q') \<and> mq_rep q' (insert b F) fs qs \<and> mq_data q' = mq_data q \<and>
    mq_max q' = mq_max q \<and> mq_msize q' = mq_msize q \<and> mq_flag q' = mq_flag q"
proof -
  have "unat (mq_entry q) = Suc (length qs)" using assms by (simp add: mq_rep_def)
  moreover from this have "mq_entry q \<noteq> 0" by auto
  ultimately have "unat (mq_entry q - 1) = length qs" by (simp add: unat_minus_one)
  moreover have "qs \<noteq> [] \<Longrightarrow> last qs \<noteq> b" using assms last_in_set [of qs] by (auto simp: mq_rep_def)
  ultimately show ?thesis using assms by (auto simp: mq_rep_def mq_unlink_head_def)
qed

lemma rep_unlink_none: "mq_rep q F fs [] \<Longrightarrow> mq_unlink_head q = None"
  by (simp add: mq_rep_def mq_unlink_head_def)

lemma rep_give_free:
  assumes "mq_rep q F fs qs" "b \<in> F"
  shows "mq_rep (mq_give_free b q) (F - {b}) (b # fs) qs"
proof -
  have b: "b \<notin> set fs" "b \<notin> set qs" "b < unat (mq_max q)" using assms by (auto simp: mq_rep_def)
  show ?thesis using assms b by (auto simp: mq_rep_def mq_give_free_def)
qed

lemmas rep_intros = rep_fill rep_clear_next rep_link_tail rep_link_head rep_give_free

lemma rt_mq_init_rep:
  assumes "rt_mq_init o' pool msg_size pool_size flag k = (k', q)"
    and "\<And>b. b < unat (mq_max q) \<Longrightarrow> length (pool b) = unat (mq_msize q)"
  shows "mq_rep q {} (rev [0..<unat (mq_max q)]) []"
  using assms mq_thread_free_chain
  by (auto simp: rt_mq_init_def Let_def mq_rep_def split: prod.splits)

section \<open>Messages in order\<close>

definition mq_inv :: "mq \<Rightarrow> bool" where
  "mq_inv q \<longleftrightarrow> (\<exists>fs qs. mq_rep q {} fs qs)"

definition msgs :: "mq \<Rightarrow> 8 word list list" where
  "msgs q = map (mq_data q) (walk (mq_next q) (mq_head q) (unat (mq_entry q)))"

lemma mq_invI: "mq_rep q {} fs qs \<Longrightarrow> mq_inv q"
  by (auto simp: mq_inv_def)

lemma msgs_rep: "mq_rep q F fs qs \<Longrightarrow> msgs q = map (mq_data q) qs"
  by (auto simp: msgs_def mq_rep_def walk_chain)

definition mq_put :: "8 word list \<Rightarrow> mq \<Rightarrow> mq option" where
  "mq_put buffer q =
     do {
       (b, q1) \<leftarrow> mq_take_free q;
       Some (mq_link_tail b (mq_fill b buffer (mq_clear_next b q1)))
     }"

definition mq_put_urgent :: "8 word list \<Rightarrow> mq \<Rightarrow> mq option" where
  "mq_put_urgent buffer q =
     do {
       (b, q1) \<leftarrow> mq_take_free q;
       Some (mq_link_head b (mq_fill b buffer q1))
     }"

definition mq_get :: "nat \<Rightarrow> mq \<Rightarrow> (8 word list \<times> mq) option" where
  "mq_get sz q =
     do {
       (b, q1) \<leftarrow> mq_unlink_head q;
       Some (mq_read b sz q1, mq_give_free b q1)
     }"

lemma piece_simps [simp]:
  "mq_data (mq_link_tail b q) = mq_data q" "mq_data (mq_link_head b q) = mq_data q"
  "mq_data (mq_clear_next b q) = mq_data q" "mq_data (mq_give_free b q) = mq_data q"
  "mq_max (mq_link_tail b q) = mq_max q" "mq_max (mq_link_head b q) = mq_max q" "mq_max (mq_fill b x q) = mq_max q"
  "mq_max (mq_clear_next b q) = mq_max q" "mq_max (mq_give_free b q) = mq_max q"
  "mq_msize (mq_link_tail b q) = mq_msize q" "mq_msize (mq_link_head b q) = mq_msize q"
  "mq_msize (mq_fill b x q) = mq_msize q" "mq_msize (mq_clear_next b q) = mq_msize q" "mq_msize (mq_give_free b q) = mq_msize q"
  "mq_flag (mq_link_tail b q) = mq_flag q" "mq_flag (mq_link_head b q) = mq_flag q" "mq_flag (mq_fill b x q) = mq_flag q"
  "mq_flag (mq_clear_next b q) = mq_flag q" "mq_flag (mq_give_free b q) = mq_flag q"
  "mq_next (mq_fill b x q) = mq_next q" "mq_next (mq_clear_next b q) b = None"
  "mq_data (mq_fill b x q) = (mq_data q)(b := x @ drop (length x) (mq_data q b))"
  by (simp_all add: mq_link_tail_def mq_link_head_def mq_clear_next_def mq_give_free_def mq_fill_def Let_def split: option.split)

text \<open>The block of a new message keeps the old bytes behind the end of a shorter one.\<close>

lemma mq_put_spec:
  assumes "mq_rep q {} (b # fs) qs" "length buffer \<le> unat (mq_msize q)"
  shows "\<exists>q'. mq_put buffer q = Some q' \<and> mq_rep q' {} fs (qs @ [b]) \<and>
    msgs q' = msgs q @ [buffer @ drop (length buffer) (mq_data q b)] \<and>
    mq_max q' = mq_max q \<and> mq_msize q' = mq_msize q \<and> mq_flag q' = mq_flag q"
proof -
  from rep_take_free [OF assms(1)] obtain q1 where
    q1: "mq_take_free q = Some (b, q1)" "mq_rep q1 {b} fs qs" "mq_data q1 = mq_data q" "mq_max q1 = mq_max q"
    "mq_msize q1 = mq_msize q" "mq_flag q1 = mq_flag q" by auto
  let ?q2 = "mq_fill b buffer (mq_clear_next b q1)"
  have "mq_rep ?q2 {b} fs qs"
    by (intro rep_intros q1(2)) (use assms(2) q1(5) in auto)
  then have r: "mq_rep (mq_link_tail b ?q2) {} fs (qs @ [b])"
    using rep_link_tail [of ?q2 "{b}" fs qs b] by simp
  have "b \<notin> set qs" using assms(1) by (auto simp: mq_rep_def)
  then have "msgs (mq_link_tail b ?q2) = msgs q @ [buffer @ drop (length buffer) (mq_data q b)]"
    using q1(3) by (simp add: msgs_rep [OF r] msgs_rep [OF assms(1)])
  then show ?thesis using r q1 by (simp add: mq_put_def)
qed

lemma mq_put_urgent_spec:
  assumes "mq_rep q {} (b # fs) qs" "length buffer \<le> unat (mq_msize q)"
  shows "\<exists>q'. mq_put_urgent buffer q = Some q' \<and> mq_rep q' {} fs (b # qs) \<and>
    msgs q' = (buffer @ drop (length buffer) (mq_data q b)) # msgs q \<and>
    mq_max q' = mq_max q \<and> mq_msize q' = mq_msize q \<and> mq_flag q' = mq_flag q"
proof -
  from rep_take_free [OF assms(1)] obtain q1 where
    q1: "mq_take_free q = Some (b, q1)" "mq_rep q1 {b} fs qs" "mq_data q1 = mq_data q" "mq_max q1 = mq_max q"
    "mq_msize q1 = mq_msize q" "mq_flag q1 = mq_flag q" by auto
  let ?q2 = "mq_fill b buffer q1"
  have "mq_rep ?q2 {b} fs qs" by (intro rep_intros q1(2)) (use assms(2) q1(5) in auto)
  then have r: "mq_rep (mq_link_head b ?q2) {} fs (b # qs)"
    using rep_link_head [of ?q2 "{b}" fs qs b] by simp
  have "b \<notin> set qs" using assms(1) by (auto simp: mq_rep_def)
  then have "msgs (mq_link_head b ?q2) = (buffer @ drop (length buffer) (mq_data q b)) # msgs q"
    using q1(3) by (simp add: msgs_rep [OF r] msgs_rep [OF assms(1)])
  then show ?thesis using r q1 by (simp add: mq_put_urgent_def)
qed

lemma mq_get_spec:
  assumes "mq_rep q {} fs (b # qs)"
  shows "\<exists>q'. mq_get sz q = Some (take sz (hd (msgs q)), q') \<and> mq_rep q' {} (b # fs) qs \<and> msgs q' = tl (msgs q) \<and>
    mq_max q' = mq_max q \<and> mq_msize q' = mq_msize q \<and> mq_flag q' = mq_flag q"
proof -
  from rep_unlink_head [OF assms] obtain q1 where
    q1: "mq_unlink_head q = Some (b, q1)" "mq_rep q1 {b} fs qs" "mq_data q1 = mq_data q" "mq_max q1 = mq_max q"
    "mq_msize q1 = mq_msize q" "mq_flag q1 = mq_flag q" by auto
  have r: "mq_rep (mq_give_free b q1) {} (b # fs) qs" using rep_give_free [OF q1(2), of b] by simp
  have "length (mq_data q b) = unat (mq_msize q)" by (rule rep_data_length [OF assms]) simp
  then have "mq_read b sz q1 = take sz (mq_data q b)" using q1(3,5) by (simp add: mq_read_def)
  then show ?thesis
    using q1 r by (simp add: mq_get_def msgs_rep [OF r] msgs_rep [OF assms])
qed

lemma mq_inv_cases:
  assumes "mq_inv q"
  obtains fs qs where "mq_rep q {} fs qs" "length fs + length (msgs q) = unat (mq_max q)"
    "mq_free q = None \<longleftrightarrow> fs = []" "mq_entry q = 0 \<longleftrightarrow> qs = []"
proof -
  obtain fs qs where r: "mq_rep q {} fs qs" using assms by (auto simp: mq_inv_def)
  have "unat (mq_entry q) = length qs" using r by (simp add: mq_rep_def)
  then have "mq_entry q = 0 \<longleftrightarrow> qs = []" by (metis length_0_conv unat_eq_zero)
  then show ?thesis using that [OF r] rep_count [OF r] msgs_rep [OF r] rep_free_none [OF r] by simp
qed

text \<open>For messages of the full block size the queue provides the bounded queue.\<close>

interpretation mqq: bounded_queue mq_inv msgs "\<lambda>q. unat (mq_max q)" "\<lambda>q m. length m = unat (mq_msize q)"
  mq_put "\<lambda>q. mq_get (unat (mq_msize q)) q"
proof
  fix q :: mq and x :: "8 word list" and xs
  assume "mq_inv q"
  then obtain fs qs where r: "mq_rep q {} fs qs" "length fs + length (msgs q) = unat (mq_max q)"
    "mq_free q = None \<longleftrightarrow> fs = []" by (rule mq_inv_cases)
  note m = msgs_rep [OF r(1)]
  show "length (msgs q) \<le> unat (mq_max q)" using r(2) by simp
  show "length (msgs q) = unat (mq_max q) \<Longrightarrow> mq_put x q = None"
    using r(2,3) by (simp add: mq_put_def mq_take_free_def)
  show "msgs q = [] \<Longrightarrow> mq_get (unat (mq_msize q)) q = None"
    using r(1) m rep_unlink_none [of q "{}" fs] by (simp add: mq_get_def)
  show "\<exists>q'. mq_put x q = Some q' \<and> mq_inv q' \<and> msgs q' = msgs q @ [x] \<and> unat (mq_max q') = unat (mq_max q) \<and>
      (\<lambda>m :: 8 word list. length m = unat (mq_msize q')) = (\<lambda>m. length m = unat (mq_msize q))"
    if room: "length (msgs q) < unat (mq_max q)" and full: "length x = unat (mq_msize q)"
  proof -
    obtain b fs' where fs: "fs = b # fs'" using room r(2) by (cases fs) auto
    then have "length (mq_data q b) = length x" using rep_data_length [OF r(1), of b] full by simp
    then show ?thesis
      using mq_put_spec [OF r(1) [unfolded fs], of x] full by (auto intro: mq_invI)
  qed
  show "\<exists>q'. mq_get (unat (mq_msize q)) q = Some (x, q') \<and> mq_inv q' \<and> msgs q' = xs \<and> unat (mq_max q') = unat (mq_max q) \<and>
      (\<lambda>m :: 8 word list. length m = unat (mq_msize q')) = (\<lambda>m. length m = unat (mq_msize q))"
    if ne: "msgs q = x # xs"
  proof -
    obtain b qs' where qs: "qs = b # qs'" using ne m by (cases qs) auto
    have "length x = unat (mq_msize q)" using rep_data_length [OF r(1), of b] ne m qs by simp
    then show ?thesis
      using mq_get_spec [OF r(1) [unfolded qs], of "unat (mq_msize q)"] ne by (auto intro: mq_invI)
  qed
qed

section \<open>Interleaving\<close>

text \<open>One piece of one call of any thread or interrupt. The block a call works on is in transit;
  a sender has cleared its link before it appends the block.\<close>

inductive mq_step :: "mq \<times> block set \<Rightarrow> mq \<times> block set \<Rightarrow> bool" where
  take_free: "mq_take_free q = Some (b, q') \<Longrightarrow> mq_step (q, F) (q', insert b F)"
| clear_next: "b \<in> F \<Longrightarrow> mq_step (q, F) (mq_clear_next b q, F)"
| fill: "b \<in> F \<Longrightarrow> length buffer \<le> unat (mq_msize q) \<Longrightarrow> mq_step (q, F) (mq_fill b buffer q, F)"
| link_tail: "b \<in> F \<Longrightarrow> mq_next q b = None \<Longrightarrow> mq_step (q, F) (mq_link_tail b q, F - {b})"
| link_head: "b \<in> F \<Longrightarrow> mq_step (q, F) (mq_link_head b q, F - {b})"
| unlink_head: "mq_unlink_head q = Some (b, q') \<Longrightarrow> mq_step (q, F) (q', insert b F)"
| give_free: "b \<in> F \<Longrightarrow> mq_step (q, F) (mq_give_free b q, F - {b})"

inductive_cases mq_stepE: "mq_step (q, F) s"

lemma mq_step_rep [inv_intro]:
  assumes "mq_step (q, F) (q', F')" "mq_rep q F fs qs"
  shows "\<exists>fs' qs'. mq_rep q' F' fs' qs' \<and> mq_max q' = mq_max q"
  using assms(1)
proof (cases rule: mq_step.cases)
  case (take_free b)
  then obtain fs' where "fs = b # fs'"
    using assms(2) by (cases fs) (auto simp: mq_rep_def mq_take_free_def)
  then show ?thesis using rep_take_free [of q F b fs' qs] assms(2) take_free by auto
next
  case (unlink_head b)
  then obtain qs' where "qs = b # qs'"
    using assms(2) by (cases qs) (auto simp: mq_rep_def mq_unlink_head_def)
  then show ?thesis using rep_unlink_head [of q F fs b qs'] assms(2) unlink_head by auto
qed (use assms(2) rep_intros in \<open>fastforce\<close>)+

lemma mq_steps_rep:
  "mq_step\<^sup>*\<^sup>* (q, F) (q', F') \<Longrightarrow> mq_rep q F fs qs \<Longrightarrow> \<exists>fs' qs'. mq_rep q' F' fs' qs' \<and> mq_max q' = mq_max q"
proof (induction "(q', F')" arbitrary: q' F' rule: rtranclp_induct)
  case base
  then show ?case by auto
next
  case (step s)
  then show ?case using mq_step_rep by (cases s) fastforce
qed

section \<open>The operations\<close>

text \<open>The code of \<^verbatim>\<open>rt_mq_send_wait\<close> and \<^verbatim>\<open>rt_mq_urgent\<close> behind the search for a block: copy,
  link, wake the first receiver.\<close>

definition mq_wake :: "lid \<Rightarrow> mq \<Rightarrow> 'a \<Rightarrow> kern \<Rightarrow> (kern \<times> mq \<times> 'a outcome) option" where
  "mq_wake l q res k =
     (if lists k l \<noteq> [] then
        do {
          k1 \<leftarrow> rt_ipc_list_resume l k;
          k2 \<leftarrow> rt_schedule k1;
          Some (k2, q, Done res)
        }
      else Some (k, q, Done res))"

partial_function (option) mq_send_loop ::
  "nat \<Rightarrow> 8 word list \<Rightarrow> int \<Rightarrow> mq \<Rightarrow> kern \<Rightarrow> (kern \<times> mq \<times> rt_err outcome) option" where
  "mq_send_loop o' buffer timeout q k =
     (if mq_free q = None then
        do {
          t \<leftarrow> cur k;
          let k0 = clear_error t k;
          if timeout = 0 then Some (k0, q, Done RT_EFULL)
          else if in_thread_context k0 then
            do {
              k1 \<leftarrow> ipc_wait (LSender o') (mq_flag q) timeout t k0;
              if cur k1 \<noteq> Some t then Some (k1, q, Waits)
              else if err k1 t \<noteq> RT_EOK then Some (k1, q, Done (err k1 t))
              else mq_send_loop o' buffer (time_left timeout (now k0) k1) q k1
            }
          else None
        }
      else do { q1 \<leftarrow> mq_put buffer q; mq_wake (LSuspend o') q1 RT_EOK k })"

declare mq_send_loop.simps [code]

definition rt_mq_send_wait ::
  "nat \<Rightarrow> 8 word list \<Rightarrow> int \<Rightarrow> mq \<Rightarrow> kern \<Rightarrow> (kern \<times> mq \<times> rt_err outcome) option" where
  "rt_mq_send_wait o' buffer timeout q k =
     (if buffer = [] then None
      else if length buffer > unat (mq_msize q) then Some (k, q, Done RT_ERROR)
      else if mq_free q = None \<and> timeout = 0 then Some (k, q, Done RT_EFULL)
      else mq_send_loop o' buffer timeout q k)"

definition rt_mq_send_resume ::
  "nat \<Rightarrow> 8 word list \<Rightarrow> int \<Rightarrow> 32 word \<Rightarrow> tid \<Rightarrow> mq \<Rightarrow> kern \<Rightarrow> (kern \<times> mq \<times> rt_err outcome) option" where
  "rt_mq_send_resume o' buffer timeout t0 t q k =
     (if err k t \<noteq> RT_EOK then Some (k, q, Done (err k t))
      else mq_send_loop o' buffer (time_left timeout t0 k) q k)"

definition rt_mq_send :: "nat \<Rightarrow> 8 word list \<Rightarrow> mq \<Rightarrow> kern \<Rightarrow> (kern \<times> mq \<times> rt_err outcome) option" where
  "rt_mq_send o' buffer q k = rt_mq_send_wait o' buffer 0 q k"

definition rt_mq_urgent :: "nat \<Rightarrow> 8 word list \<Rightarrow> mq \<Rightarrow> kern \<Rightarrow> (kern \<times> mq \<times> rt_err outcome) option" where
  "rt_mq_urgent o' buffer q k =
     (if buffer = [] then None
      else if length buffer > unat (mq_msize q) then Some (k, q, Done RT_ERROR)
      else if mq_free q = None then Some (k, q, Done RT_EFULL)
      else do { q1 \<leftarrow> mq_put_urgent buffer q; mq_wake (LSuspend o') q1 RT_EOK k })"

partial_function (option) mq_recv_loop ::
  "nat \<Rightarrow> nat \<Rightarrow> int \<Rightarrow> mq \<Rightarrow> kern \<Rightarrow> (kern \<times> mq \<times> (8 word list option \<times> rt_err) outcome) option" where
  "mq_recv_loop o' sz timeout q k =
     (if mq_entry q = 0 then
        (if in_thread_context k then
           do {
             t \<leftarrow> cur k;
             let k0 = clear_error t k;
             if timeout = 0 then Some (upd_tcb t (\<lambda>c. c\<lparr>t_error := RT_ETIMEOUT\<rparr>) k0, q, Done (None, RT_ETIMEOUT))
             else do {
               k1 \<leftarrow> ipc_wait (LSuspend o') (mq_flag q) timeout t k0;
               if cur k1 \<noteq> Some t then Some (k1, q, Waits)
               else if err k1 t \<noteq> RT_EOK then Some (k1, q, Done (None, err k1 t))
               else mq_recv_loop o' sz (time_left timeout (now k0) k1) q k1
             }
           }
         else None)
      else do { (m, q1) \<leftarrow> mq_get sz q; mq_wake (LSender o') q1 (Some m, RT_EOK) k })"

declare mq_recv_loop.simps [code]

definition rt_mq_recv ::
  "nat \<Rightarrow> nat \<Rightarrow> int \<Rightarrow> mq \<Rightarrow> kern \<Rightarrow> (kern \<times> mq \<times> (8 word list option \<times> rt_err) outcome) option" where
  "rt_mq_recv o' sz timeout q k =
     (if sz = 0 then None
      else if mq_entry q = 0 \<and> timeout = 0 then Some (k, q, Done (None, RT_ETIMEOUT))
      else mq_recv_loop o' sz timeout q k)"

definition rt_mq_recv_resume ::
  "nat \<Rightarrow> nat \<Rightarrow> int \<Rightarrow> 32 word \<Rightarrow> tid \<Rightarrow> mq \<Rightarrow> kern \<Rightarrow> (kern \<times> mq \<times> (8 word list option \<times> rt_err) outcome) option" where
  "rt_mq_recv_resume o' sz timeout t0 t q k =
     (if err k t \<noteq> RT_EOK then Some (k, q, Done (None, err k t))
      else mq_recv_loop o' sz (time_left timeout t0 k) q k)"

definition rt_mq_detach :: "nat \<Rightarrow> kern \<Rightarrow> kern option" where
  "rt_mq_detach o' k =
     do {
       k1 \<leftarrow> rt_ipc_list_resume_all (LSuspend o') k;
       rt_ipc_list_resume_all (LSender o') k1
     }"

text \<open>\<^verbatim>\<open>RT_IPC_CMD_RESET\<close>: the loop moves the queued blocks to the free list one by one; the tail is
  compared with the block in each turn. It does not end on a cyclic list.\<close>

partial_function (option) mq_reset_loop :: "mq \<Rightarrow> mq option" where
  "mq_reset_loop q =
     (case mq_head q of
        None \<Rightarrow> Some q
      | Some b \<Rightarrow>
          mq_reset_loop (mq_give_free b
            (q\<lparr>mq_head := mq_next q b, mq_tail := (if mq_tail q = Some b then None else mq_tail q)\<rparr>)))"

declare mq_reset_loop.simps [code]

definition rt_mq_control :: "nat \<Rightarrow> bool \<Rightarrow> mq \<Rightarrow> kern \<Rightarrow> (kern \<times> mq \<times> rt_err) option" where
  "rt_mq_control o' reset q k =
     (if reset then
        do {
          k1 \<leftarrow> rt_ipc_list_resume_all (LSuspend o') k;
          k2 \<leftarrow> rt_ipc_list_resume_all (LSender o') k1;
          q1 \<leftarrow> mq_reset_loop q;
          k3 \<leftarrow> rt_schedule k2;
          Some (k3, q1\<lparr>mq_entry := 0\<rparr>, RT_EOK)
        }
      else Some (k, q, RT_ERROR))"

section \<open>Properties\<close>

text \<open>A message queue hands out messages of the block size first in, first out: for every
  history of sends and receives from a good state the messages received followed by those
  queued are the ones queued before followed by those accepted, and the number of queued
  messages never exceeds the number of blocks.\<close>

theorem mq_fifo:
  assumes "mq_inv q" "list_all (put_ok (\<lambda>m. length m = unat (mq_msize q))) ops"
    and "qrun mq_put (\<lambda>q. mq_get (unat (mq_msize q)) q) ops q = (ins, outs, q')"
  shows "mq_inv q' \<and> msgs q @ ins = outs @ msgs q' \<and> length (msgs q') \<le> unat (mq_max q)"
  by (rule mqq.qrun_fifo [OF assms])

text \<open>A pool of two blocks of four bytes, fresh from \<^verbatim>\<open>rt_mq_init\<close>.\<close>

definition mq_example :: mq where
  "mq_example = \<lparr>mq_next = (\<lambda>_. None)(1 := Some 0), mq_data = (\<lambda>_. [0, 0, 0, 0]), mq_msize = 4, mq_max = 2,
     mq_entry = 0, mq_head = None, mq_tail = None, mq_free = Some 1, mq_flag = RT_IPC_FLAG_FIFO\<rparr>"

lemma mq_example_rep: "mq_rep mq_example {} [1, 0] []"
  by (auto simp: mq_rep_def mq_example_def)

lemma mq_example_inv: "mq_inv mq_example" "msgs mq_example = []"
  by (rule mq_invI [OF mq_example_rep]) (simp add: msgs_rep [OF mq_example_rep])

theorem mq_fifo_witness:
  "\<exists>q'. qrun mq_put (\<lambda>q. mq_get (unat (mq_msize q)) q) [QPut [1, 2, 3, 4], QGet, QGet] mq_example =
     ([[1, 2, 3, 4]], [[1, 2, 3, 4]], q') \<and> msgs q' = []"
proof -
  have l: "list_all (put_ok (\<lambda>m. length m = unat (mq_msize mq_example))) [QPut [1, 2, 3, 4 :: 8 word], QGet, QGet]"
    by (simp add: mq_example_def)
  have "\<exists>q'. qrun mq_put (\<lambda>q. mq_get (unat (mq_msize q)) q) [QPut [1, 2, 3, 4], QGet, QGet] mq_example =
     ([[1, 2, 3, 4]], [[1, 2, 3, 4]], q')"
    by (simp add: mq_example_def mq_put_def mq_get_def mq_take_free_def mq_fill_def mq_clear_next_def mq_link_tail_def
      mq_unlink_head_def mq_read_def mq_give_free_def)
  then show ?thesis
    using mq_fifo [OF mq_example_inv(1) l] mq_example_inv(2) by fastforce
qed

text \<open>C28. However the pieces of concurrent sends and receives interleave, no block is lost or used
  twice: from a fresh queue every reachable state has the free list, the queue and the set of
  blocks in transit disjoint, together all blocks, the counter equal to the number of queued
  messages and the tail pointer on the last of them.\<close>

theorem mq_interleaving:
  assumes "mq_rep q {} fs qs" "mq_step\<^sup>*\<^sup>* (q, {}) (q', F)"
  shows "\<exists>fs' qs'. mq_rep q' F fs' qs' \<and> length fs' + length qs' + card F = unat (mq_max q)"
proof -
  from mq_steps_rep [OF assms(2,1)] obtain fs' qs' where
    r: "mq_rep q' F fs' qs'" "mq_max q' = mq_max q" by blast
  have d: "distinct (fs' @ qs')" "set (fs' @ qs') \<union> F = {0..<unat (mq_max q)}" "F \<inter> set (fs' @ qs') = {}"
    using r by (auto simp: mq_rep_def)
  have "finite F" using d(2) by (metis finite_Un finite_atLeastLessThan)
  then have "card (set (fs' @ qs') \<union> F) = length (fs' @ qs') + card F"
    using card_Un_disjoint [of "set (fs' @ qs')" F] d(3) distinct_card [OF d(1)] by (simp add: Int_commute)
  then have "length fs' + length qs' + card F = unat (mq_max q)" unfolding d(2) by simp
  then show ?thesis using r(1) by blast
qed

text \<open>A sender takes a block and is interrupted by another one, which completes first.\<close>

theorem mq_interleaving_witness:
  "\<exists>q F fs qs. mq_step\<^sup>*\<^sup>* (mq_example, {}) (q, F) \<and> mq_rep q F fs qs \<and> F = {1} \<and> length fs + length qs = 1"
proof -
  obtain q1 where q1: "mq_take_free mq_example = Some (1, q1)" "mq_rep q1 {1} [0] []"
    using rep_take_free [OF mq_example_rep] by auto
  obtain q2 where q2: "mq_take_free q1 = Some (0, q2)" "mq_rep q2 {0, 1} [] []"
    using rep_take_free [OF q1(2)] by auto
  have "mq_step (mq_example, {}) (q1, {1})" "mq_step (q1, {1}) (q2, {0, 1})"
    using mq_step.take_free [OF q1(1), of "{}"] mq_step.take_free [OF q2(1), of "{1}"] by auto
  moreover have "mq_step (q2, {0, 1}) (mq_link_head 0 q2, {0, 1} - {0})" by (rule mq_step.link_head) simp
  moreover have "{0, 1} - {0} = {1 :: nat}" by auto
  ultimately have s: "mq_step\<^sup>*\<^sup>* (mq_example, {}) (mq_link_head 0 q2, {1})"
    by (metis converse_rtranclp_into_rtranclp rtranclp.rtrancl_refl)
  have "unat (mq_max mq_example) = 2" by (simp add: mq_example_def)
  then show ?thesis using mq_interleaving [OF mq_example_rep s] s by fastforce
qed

lemma mq_wake_spec:
  assumes "ipc_inv k" "cur k = Some c" "wait_list l"
  shows "\<exists>k'. mq_wake l q res k = Some (k', q, Done res) \<and> ipc_inv k' \<and>
    (case lists k l of [] \<Rightarrow> k' = k | x # xs \<Rightarrow> active_stat (stat k' x) \<and> err k' x = err k x \<and> lists k' l = xs)"
proof (cases "lists k l")
  case Nil
  then show ?thesis using assms(1) by (simp add: mq_wake_def)
next
  case (Cons x xs)
  from wake_first_spec [OF assms(1) Cons assms(3,2)] show ?thesis
    using Cons assms(3) by (auto simp: mq_wake_def)
qed

lemma mq_room:
  assumes "mq_inv q"
  shows "mq_free q = None \<longleftrightarrow> \<not> length (msgs q) < unat (mq_max q)" "mq_entry q = 0 \<longleftrightarrow> msgs q = []"
proof -
  obtain fs qs where r: "mq_rep q {} fs qs" "length fs + length (msgs q) = unat (mq_max q)"
    "mq_free q = None \<longleftrightarrow> fs = []" "mq_entry q = 0 \<longleftrightarrow> qs = []" using assms by (rule mq_inv_cases)
  show "mq_free q = None \<longleftrightarrow> \<not> length (msgs q) < unat (mq_max q)" using r(2,3) by (cases fs) auto
  show "mq_entry q = 0 \<longleftrightarrow> msgs q = []" using r(4) msgs_rep [OF r(1)] by simp
qed

lemma mq_put_room:
  assumes "mq_inv q" "length (msgs q) < unat (mq_max q)" "length buffer \<le> unat (mq_msize q)"
  shows "\<exists>q' old. mq_put buffer q = Some q' \<and> mq_inv q' \<and> msgs q' = msgs q @ [buffer @ old] \<and> mq_msize q' = mq_msize q"
proof -
  obtain fs qs where r: "mq_rep q {} fs qs" "length fs + length (msgs q) = unat (mq_max q)"
    using assms(1) by (rule mq_inv_cases)
  then obtain b fs' where fs: "fs = b # fs'" using assms(2) by (cases fs) auto
  show ?thesis using mq_put_spec [OF r(1) [unfolded fs] assms(3)] mq_invI by blast
qed

lemma mq_get_ne:
  assumes "mq_inv q" "msgs q = m # ms"
  shows "\<exists>q'. mq_get sz q = Some (take sz m, q') \<and> mq_inv q' \<and> msgs q' = ms \<and> mq_msize q' = mq_msize q"
proof -
  obtain fs qs where r: "mq_rep q {} fs qs" using assms(1) by (rule mq_inv_cases)
  then obtain b qs' where qs: "qs = b # qs'" using assms(2) msgs_rep [OF r] by (cases qs) auto
  show ?thesis using mq_get_spec [OF r [unfolded qs], of sz] assms(2) by (auto intro: mq_invI)
qed

text \<open>Sending: a message longer than a block is refused; with a free block the message is queued
  last (behind its bytes the block keeps old ones) and the first waiting receiver is woken; on
  a full queue the call reports it at once with waiting time 0, and otherwise the caller waits
  in the queue of senders. The call never fails and keeps the invariants.\<close>

theorem mq_send_spec:
  assumes "can_block t k" "mq_inv q" "timeout < 0x7fffffff" "buffer \<noteq> []"
  shows "\<exists>k' q' r. rt_mq_send_wait o' buffer timeout q k = Some (k', q', r) \<and> ipc_inv k' \<and> mq_inv q' \<and>
    (if length buffer > unat (mq_msize q) then r = Done RT_ERROR \<and> q' = q \<and> k' = k
     else if length (msgs q) < unat (mq_max q) then
       r = Done RT_EOK \<and> (\<exists>old. msgs q' = msgs q @ [buffer @ old]) \<and>
       (case lists k (LSuspend o') of
          [] \<Rightarrow> k' = k
        | x # xs \<Rightarrow> active_stat (stat k' x) \<and> err k' x = err k x \<and> lists k' (LSuspend o') = xs)
     else q' = q \<and>
       (if timeout = 0 then r = Done RT_EFULL \<and> k' = k
        else r = Waits \<and> stat k' t = T_SUSPEND \<and>
          lists k' (LSender o') = wait_insert (mq_flag q) (prio k) t (lists k (LSender o'))))"
proof -
  note c = can_blockD [OF assms(1)] and room = mq_room(1) [OF assms(2)]
  consider "length buffer > unat (mq_msize q)" | "length buffer \<le> unat (mq_msize q)" "mq_free q \<noteq> None"
    | "length buffer \<le> unat (mq_msize q)" "mq_free q = None" "timeout = 0"
    | "length buffer \<le> unat (mq_msize q)" "mq_free q = None" "timeout \<noteq> 0" by fastforce
  then show ?thesis
  proof cases
    case 1
    then show ?thesis using assms(2,4) c(1) by (simp add: rt_mq_send_wait_def)
  next
    case 2
    have "length (msgs q) < unat (mq_max q)" using 2(2) unfolding room by simp
    from mq_put_room [OF assms(2) this 2(1)] obtain q' old where
      q': "mq_put buffer q = Some q'" "mq_inv q'" "msgs q' = msgs q @ [buffer @ old]" by blast
    from mq_wake_spec [OF c(1,2), of "LSuspend o'" q' RT_EOK] obtain k' where
      "mq_wake (LSuspend o') q' RT_EOK k = Some (k', q', Done RT_EOK)" "ipc_inv k'"
      "case lists k (LSuspend o') of [] \<Rightarrow> k' = k
        | x # xs \<Rightarrow> active_stat (stat k' x) \<and> err k' x = err k x \<and> lists k' (LSuspend o') = xs" by auto
    then show ?thesis using 2 q' assms(4) room by (auto simp: rt_mq_send_wait_def mq_send_loop.simps)
  next
    case 3
    then show ?thesis using room assms(2,4) c(1) by (simp add: rt_mq_send_wait_def)
  next
    case 4
    from block_cleared [OF assms(1) _ assms(3), of "LSender o'" "mq_flag q"] show ?thesis
      using 4 room assms(2,4) can_blockD(2,4) [OF can_block_clear [OF assms(1)]]
      by (auto simp: rt_mq_send_wait_def mq_send_loop.simps)
  qed
qed

theorem mq_send_spec_witness:
  "\<exists>k' q'. rt_mq_send_wait 0 [1, 2, 3, 4, 5] 0 mq_example kern_example = Some (kern_example, mq_example, Done RT_ERROR) \<and>
     rt_mq_send_wait 0 [1, 2] 0 mq_example kern_example = Some (k', q', Done RT_EOK) \<and> length (msgs q') = 1"
  using mq_send_spec [OF kern_example_can_block mq_example_inv(1), of 0 "[1, 2, 3, 4, 5]" 0]
    mq_send_spec [OF kern_example_can_block mq_example_inv(1), of 0 "[1, 2]" 0] mq_example_inv(2)
  by (auto simp: mq_example_def)

text \<open>Receiving: the first queued message is handed out, cut to the receiver's size, its block is
  freed and the first waiting sender is woken; on an empty queue the call gives up at once with
  waiting time 0, and otherwise the caller waits in the queue of receivers.\<close>

theorem mq_recv_spec:
  assumes "can_block t k" "mq_inv q" "timeout < 0x7fffffff" "0 < sz"
  shows "\<exists>k' q' r. rt_mq_recv o' sz timeout q k = Some (k', q', r) \<and> ipc_inv k' \<and> mq_inv q' \<and>
    (case msgs q of
       m # ms \<Rightarrow> r = Done (Some (take sz m), RT_EOK) \<and> msgs q' = ms \<and>
         (case lists k (LSender o') of
            [] \<Rightarrow> k' = k
          | x # xs \<Rightarrow> active_stat (stat k' x) \<and> err k' x = err k x \<and> lists k' (LSender o') = xs)
     | [] \<Rightarrow> q' = q \<and>
         (if timeout = 0 then r = Done (None, RT_ETIMEOUT) \<and> k' = k
          else r = Waits \<and> stat k' t = T_SUSPEND \<and>
            lists k' (LSuspend o') = wait_insert (mq_flag q) (prio k) t (lists k (LSuspend o'))))"
proof -
  note c = can_blockD [OF assms(1)] and e = mq_room(2) [OF assms(2)]
  show ?thesis
  proof (cases "msgs q")
    case Nil
    then have z: "mq_entry q = 0" using e by simp
    show ?thesis
    proof (cases "timeout = 0")
      case True
      then show ?thesis using z Nil assms(2,4) c(1) by (simp add: rt_mq_recv_def)
    next
      case False
      from block_cleared [OF assms(1) _ assms(3), of "LSuspend o'" "mq_flag q"] show ?thesis
        using False z Nil assms(2,4) c(2,4) by (auto simp: rt_mq_recv_def mq_recv_loop.simps)
    qed
  next
    case (Cons m ms)
    from mq_get_ne [OF assms(2) Cons, of sz] obtain q' where
      q': "mq_get sz q = Some (take sz m, q')" "mq_inv q'" "msgs q' = ms" by blast
    from mq_wake_spec [OF c(1,2), of "LSender o'" q' "(Some (take sz m), RT_EOK)"] obtain k' where
      "mq_wake (LSender o') q' (Some (take sz m), RT_EOK) k = Some (k', q', Done (Some (take sz m), RT_EOK))" "ipc_inv k'"
      "case lists k (LSender o') of [] \<Rightarrow> k' = k
        | x # xs \<Rightarrow> active_stat (stat k' x) \<and> err k' x = err k x \<and> lists k' (LSender o') = xs" by auto
    then show ?thesis using Cons e q' assms(4) by (simp add: rt_mq_recv_def mq_recv_loop.simps)
  qed
qed

theorem mq_recv_spec_witness:
  "\<exists>k'. rt_mq_recv 0 4 (- 1) mq_example kern_example = Some (k', mq_example, Waits) \<and> lists k' (LSuspend 0) = [1]"
  using mq_recv_spec [OF kern_example_can_block mq_example_inv(1), of "- 1" 4 0] mq_example_inv(2)
  by (auto simp: kern_example_waits mq_example_def)

text \<open>Round trip: a message of any length up to the block size, sent to an empty queue on which
  nobody waits, is received unchanged by a receiver that asks for its length, whether it was
  sent normally or urgently.\<close>

theorem mq_roundtrip:
  assumes "mq_inv q" "msgs q = []" "0 < mq_max q" "buffer \<noteq> []" "length buffer \<le> unat (mq_msize q)"
    and "lists k (LSuspend o') = []" "lists k (LSender o') = []"
  shows "\<exists>q1 q2 q3 q4. rt_mq_send o' buffer q k = Some (k, q1, Done RT_EOK) \<and>
    rt_mq_recv o' (length buffer) 0 q1 k = Some (k, q2, Done (Some buffer, RT_EOK)) \<and> msgs q2 = [] \<and>
    rt_mq_urgent o' buffer q k = Some (k, q3, Done RT_EOK) \<and>
    rt_mq_recv o' (length buffer) 0 q3 k = Some (k, q4, Done (Some buffer, RT_EOK)) \<and> msgs q4 = []"
proof -
  have lt: "length (msgs q) < unat (mq_max q)" using assms(2,3) by (simp add: unat_gt_0)
  then have f: "mq_free q \<noteq> None" using mq_room(1) [OF assms(1)] by simp
  have recv: "\<exists>q2. rt_mq_recv o' (length buffer) 0 q1 k = Some (k, q2, Done (Some buffer, RT_EOK)) \<and> msgs q2 = []"
    if "mq_inv q1" "msgs q1 = [buffer @ old]" for q1 old
    using mq_get_ne [OF that, of "length buffer"] mq_room(2) [OF that(1)] that(2) assms(4,7)
    by (auto simp: rt_mq_recv_def mq_recv_loop.simps mq_wake_def)
  obtain q1 old where q1: "mq_put buffer q = Some q1" "mq_inv q1" "msgs q1 = [buffer @ old]"
    using mq_put_room [OF assms(1) lt assms(5)] assms(2) by auto
  obtain fs qs where r: "mq_rep q {} fs qs" "length fs + length (msgs q) = unat (mq_max q)"
    using assms(1) by (rule mq_inv_cases)
  obtain b fs' where fs: "fs = b # fs'" using lt r(2) by (cases fs) auto
  obtain q3 old3 where q3: "mq_put_urgent buffer q = Some q3" "mq_inv q3" "msgs q3 = [buffer @ old3]"
    using mq_put_urgent_spec [OF r(1) [unfolded fs] assms(5)] assms(2) mq_invI by auto
  have "rt_mq_send o' buffer q k = Some (k, q1, Done RT_EOK)"
    using q1(1) f assms(4-6) by (auto simp: rt_mq_send_def rt_mq_send_wait_def mq_send_loop.simps mq_wake_def)
  moreover have "rt_mq_urgent o' buffer q k = Some (k, q3, Done RT_EOK)"
    using q3(1) f assms(4-6) by (auto simp: rt_mq_urgent_def mq_wake_def)
  ultimately show ?thesis using recv [OF q1(2,3)] recv [OF q3(2,3)] by blast
qed

theorem mq_roundtrip_witness:
  "\<exists>q1 q2. rt_mq_send 0 [7, 8, 9] mq_example kern_example = Some (kern_example, q1, Done RT_EOK) \<and>
     rt_mq_recv 0 3 0 q1 kern_example = Some (kern_example, q2, Done (Some [7, 8, 9], RT_EOK))"
  using mq_roundtrip [OF mq_example_inv, of "[7, 8, 9]" kern_example 0]
  by (auto simp: kern_example_waits mq_example_def numeral_3_eq_3)

lemma mq_reset_loop_ends:
  "mq_rep (q\<lparr>mq_entry := of_nat (length qs)\<rparr>) F fs qs \<Longrightarrow> length qs < 65536 \<Longrightarrow>
    \<exists>q'. mq_reset_loop q = Some q' \<and> mq_rep (q'\<lparr>mq_entry := 0\<rparr>) F (rev qs @ fs) []"
proof (induction qs arbitrary: q fs)
  case Nil
  then have "mq_head q = None" by (simp add: mq_rep_def)
  then show ?case using Nil by (simp add: mq_reset_loop.simps)
next
  case (Cons b qs)
  let ?q = "mq_give_free b (q\<lparr>mq_head := mq_next q b, mq_tail := (if mq_tail q = Some b then None else mq_tail q)\<rparr>)"
  have "qs \<noteq> [] \<Longrightarrow> last qs \<noteq> b" using Cons.prems(1) last_in_set [of qs] by (auto simp: mq_rep_def)
  moreover have "unat (of_nat (length qs) :: 16 word) = length qs" using Cons.prems(2) by (simp add: unat_of_nat)
  ultimately have "mq_rep (?q\<lparr>mq_entry := of_nat (length qs)\<rparr>) F (b # fs) qs"
    using Cons.prems(1) by (auto simp: mq_rep_def mq_give_free_def)
  moreover have "mq_head q = Some b" using Cons.prems(1) by (simp add: mq_rep_def)
  then have "mq_reset_loop q = mq_reset_loop ?q" by (simp add: mq_reset_loop.simps [of q])
  ultimately show ?case using Cons.IH [of ?q "b # fs"] Cons.prems(2) by simp
qed

text \<open>Resetting a message queue ends: every waiting receiver and sender is woken with an error,
  and all blocks are free again.\<close>

theorem mq_reset:
  assumes "ipc_inv k" "cur k = Some c" "mq_inv q"
  shows "\<exists>k' q'. rt_mq_control o' True q k = Some (k', q', RT_EOK) \<and> ipc_inv k' \<and> mq_inv q' \<and> msgs q' = [] \<and>
    lists k' (LSuspend o') = [] \<and> lists k' (LSender o') = [] \<and>
    (\<forall>t. if t \<in> set (lists k (LSuspend o') @ lists k (LSender o')) then active_stat (stat k' t) \<and> err k' t = RT_ERROR
       else err k' t = err k t)"
proof -
  from resume_all_spec [OF assms(1), of "LSuspend o'"] obtain k1 where
    k1: "rt_ipc_list_resume_all (LSuspend o') k = Some k1" "ipc_inv k1" "cur k1 = cur k"
    "\<forall>m. wait_list m \<longrightarrow> lists k1 m = ((lists k)(LSuspend o' := [])) m"
    "\<forall>t. if t \<in> set (lists k (LSuspend o')) then active_stat (stat k1 t) \<and> err k1 t = RT_ERROR else tcbs k1 t = tcbs k t"
    by auto
  from resume_all_spec [OF k1(2), of "LSender o'"] obtain k2 where
    k2: "rt_ipc_list_resume_all (LSender o') k1 = Some k2" "ipc_inv k2" "cur k2 = cur k1"
    "\<forall>m. wait_list m \<longrightarrow> lists k2 m = ((lists k1)(LSender o' := [])) m"
    "\<forall>t. if t \<in> set (lists k1 (LSender o')) then active_stat (stat k2 t) \<and> err k2 t = RT_ERROR else tcbs k2 t = tcbs k1 t"
    by auto
  from schedule_ipc [OF k2(2), of c] k2(3) k1(3) assms(2) obtain k3 where
    k3: "rt_schedule k2 = Some k3" "ipc_inv k3" "sched_frame k2 k3" by auto
  obtain fs qs where r: "mq_rep q {} fs qs" using assms(3) by (rule mq_inv_cases)
  have "unat (mq_entry q) = length qs" using r by (simp add: mq_rep_def)
  moreover have "unat (mq_entry q) < 65536" using unsigned_less [of "mq_entry q", where 'a = nat] by simp
  ultimately have lq: "of_nat (length qs) = mq_entry q" "length qs < 65536" by (metis of_nat_unat ucast_id, simp)
  have "mq_rep (q\<lparr>mq_entry := of_nat (length qs)\<rparr>) {} fs qs" using r lq(1) by simp
  from mq_reset_loop_ends [OF this lq(2)] obtain q1 where
    q1: "mq_reset_loop q = Some q1" "mq_rep (q1\<lparr>mq_entry := 0\<rparr>) {} (rev qs @ fs) []" by blast
  have same: "err k3 t = err k2 t \<and> (active_stat (stat k2 t) \<longrightarrow> active_stat (stat k3 t))" for t
    using sched_frameD [OF k3(3), of t] same_but_statD [of "tcbs k2 t" "tcbs k3 t"] by auto
  have l1: "lists k1 (LSender o') = lists k (LSender o')" using k1(4) by simp
  have "if t \<in> set (lists k (LSuspend o') @ lists k (LSender o')) then active_stat (stat k3 t) \<and> err k3 t = RT_ERROR
       else err k3 t = err k t" for t
    using spec [OF k1(5), of t] spec [OF k2(5), of t] same [of t] l1 by (auto split: if_splits)
  moreover have "lists k3 (LSuspend o') = []" "lists k3 (LSender o') = []"
    using wait_list_sched [OF k3(3)] k2(4) k1(4) by simp_all
  moreover have "rt_mq_control o' True q k = Some (k3, q1\<lparr>mq_entry := 0\<rparr>, RT_EOK)"
    using k1(1) k2(1) k3(1) q1(1) by (simp add: rt_mq_control_def)
  ultimately show ?thesis
    using k3(2) mq_invI [OF q1(2)] msgs_rep [OF q1(2)] by (intro exI [of _ k3] exI [of _ "q1\<lparr>mq_entry := 0\<rparr>"]) simp
qed

theorem mq_reset_witness:
  "\<exists>k' q'. rt_mq_control 0 True mq_example kern_example = Some (k', q', RT_EOK) \<and> msgs q' = []"
  using mq_reset [OF can_blockD(1) [OF kern_example_can_block] can_blockD(2) [OF kern_example_can_block]
    mq_example_inv(1), of 0] by blast

end
