(* ===== verification/MemHeap.thy ===== *)
theory MemHeap
  imports RtList
begin

text \<open>
  The system heap, \<^verbatim>\<open>src/memheap.c\<close> (\<^verbatim>\<open>RT_USING_MEMHEAP_AS_HEAP\<close>). A pool is a sequence of
  blocks, each a header \<^verbatim>\<open>struct rt_memheap_item\<close> followed by its payload; the headers form a
  circular list in address order, closed by an empty used block, and the free ones a second
  circular list through the header in the control block. An address is a number below
  \<open>2 ^ 32\<close>, and the 32-bit arithmetic is written out with \<open>u32\<close>. The headers are a map from
  addresses (\<open>items\<close>), the control blocks another (\<open>heaps\<close>); the payload bytes are a third, which
  only the copying functions touch.

  The lock of a heap is a semaphore: the code between taking and releasing it is one
  step, and what the n-th \<^verbatim>\<open>rt_sem_take\<close> on a lock returns is the function \<open>lock_result\<close>.
\<close>

section \<open>Operations\<close>

abbreviation RT_MEMHEAP_SIZE :: nat where "RT_MEMHEAP_SIZE \<equiv> 24"
abbreviation RT_MEMHEAP_MINIALLOC :: nat where "RT_MEMHEAP_MINIALLOC \<equiv> 12"
abbreviation RT_MEMHEAP_MAGIC :: "32 word" where "RT_MEMHEAP_MAGIC \<equiv> 0x1ea01ea0"
abbreviation RT_MEMHEAP_MASK :: "32 word" where "RT_MEMHEAP_MASK \<equiv> 0xfffffffe"
abbreviation RT_MEMHEAP_USED :: "32 word" where "RT_MEMHEAP_USED \<equiv> 1"

type_synonym addr = nat

record memheap_item =
  i_magic :: "32 word"
  i_pool :: addr
  i_next :: addr
  i_prev :: addr
  i_next_free :: addr
  i_prev_free :: addr

record memheap =
  start_addr :: addr
  pool_size :: nat
  available_size :: nat
  max_used_size :: nat
  block_list :: addr
  free_list :: addr
  free_header :: addr

record mem =
  items :: "addr \<Rightarrow> memheap_item"
  heaps :: "addr \<Rightarrow> memheap"
  bytes :: "addr \<Rightarrow> 8 word"
  lock_result :: "nat \<Rightarrow> rt_err"
  lock_takes :: nat
  errno :: rt_err

definition upd_item :: "addr \<Rightarrow> (memheap_item \<Rightarrow> memheap_item) \<Rightarrow> mem \<Rightarrow> mem" where
  "upd_item a f m = m\<lparr>items := (items m)(a := f (items m a))\<rparr>"

definition upd_heap :: "addr \<Rightarrow> (memheap \<Rightarrow> memheap) \<Rightarrow> mem \<Rightarrow> mem" where
  "upd_heap h f m = m\<lparr>heaps := (heaps m)(h := f (heaps m h))\<rparr>"

definition is_used :: "mem \<Rightarrow> addr \<Rightarrow> bool" where
  "is_used m a \<longleftrightarrow> i_magic (items m a) AND RT_MEMHEAP_USED \<noteq> 0"

definition MEMITEM_SIZE :: "mem \<Rightarrow> addr \<Rightarrow> nat" where
  "MEMITEM_SIZE m a = u32 (int (i_next (items m a)) - int a - int RT_MEMHEAP_SIZE)"

definition take_lock :: "mem \<Rightarrow> rt_err \<times> mem" where
  "take_lock m = (lock_result m (lock_takes m), m\<lparr>lock_takes := lock_takes m + 1\<rparr>)"

definition rt_memheap_init :: "addr \<Rightarrow> addr \<Rightarrow> addr \<Rightarrow> nat \<Rightarrow> mem \<Rightarrow> mem" where
  "rt_memheap_init h hdr start size0 m =
     (let pool = size0 div 4 * 4;
          avail = u32 (int pool - 2 * int RT_MEMHEAP_SIZE);
          tail = u32 (int start + int avail + int RT_MEMHEAP_SIZE);
          m1 = upd_heap h (\<lambda>_. \<lparr>start_addr = start, pool_size = pool, available_size = avail,
                 max_used_size = u32 (int pool - int avail), block_list = start,
                 free_list = hdr, free_header = hdr\<rparr>) m;
          m2 = upd_item hdr (\<lambda>_. \<lparr>i_magic = RT_MEMHEAP_MAGIC, i_pool = h, i_next = 0, i_prev = 0,
                 i_next_free = hdr, i_prev_free = hdr\<rparr>) m1;
          m3 = upd_item start (\<lambda>_. \<lparr>i_magic = RT_MEMHEAP_MAGIC, i_pool = h, i_next = tail, i_prev = tail,
                 i_next_free = i_next_free (items m2 hdr), i_prev_free = hdr\<rparr>) m2;
          m4 = upd_item (i_next_free (items m3 hdr)) (\<lambda>i. i\<lparr>i_prev_free := start\<rparr>) m3;
          m5 = upd_item hdr (\<lambda>i. i\<lparr>i_next_free := start\<rparr>) m4
      in upd_item tail (\<lambda>_. \<lparr>i_magic = RT_MEMHEAP_MAGIC OR RT_MEMHEAP_USED, i_pool = h, i_next = start,
           i_prev = start, i_next_free = 0, i_prev_free = 0\<rparr>) m5)"

text \<open>The pieces of code the operations share: a free block leaves the free list, a block
  becomes the first of the free list, a new free block is put behind a block, the high-water mark
  follows the number of free bytes.\<close>

definition free_unlink :: "addr \<Rightarrow> mem \<Rightarrow> mem" where
  "free_unlink a m =
     (let m1 = upd_item (i_next_free (items m a)) (\<lambda>i. i\<lparr>i_prev_free := i_prev_free (items m a)\<rparr>) m
      in upd_item (i_prev_free (items m1 a)) (\<lambda>i. i\<lparr>i_next_free := i_next_free (items m1 a)\<rparr>) m1)"

definition free_insert :: "addr \<Rightarrow> addr \<Rightarrow> mem \<Rightarrow> mem" where
  "free_insert h a m =
     (let fl = free_list (heaps m h);
          m1 = upd_item a (\<lambda>i. i\<lparr>i_next_free := i_next_free (items m fl)\<rparr>) m;
          m2 = upd_item a (\<lambda>i. i\<lparr>i_prev_free := fl\<rparr>) m1;
          m3 = upd_item (i_next_free (items m2 fl)) (\<lambda>i. i\<lparr>i_prev_free := a\<rparr>) m2
      in upd_item fl (\<lambda>i. i\<lparr>i_next_free := a\<rparr>) m3)"

definition block_insert :: "addr \<Rightarrow> addr \<Rightarrow> addr \<Rightarrow> mem \<Rightarrow> mem" where
  "block_insert h a n m =
     (let m1 = upd_item n (\<lambda>i. i\<lparr>i_magic := RT_MEMHEAP_MAGIC, i_pool := h\<rparr>) m;
          m2 = upd_item n (\<lambda>i. i\<lparr>i_prev := a\<rparr>) m1;
          m3 = upd_item n (\<lambda>i. i\<lparr>i_next := i_next (items m2 a)\<rparr>) m2;
          m4 = upd_item (i_next (items m3 a)) (\<lambda>i. i\<lparr>i_prev := n\<rparr>) m3
      in upd_item a (\<lambda>i. i\<lparr>i_next := n\<rparr>) m4)"

definition set_available :: "addr \<Rightarrow> nat \<Rightarrow> mem \<Rightarrow> mem" where
  "set_available h n = upd_heap h (\<lambda>c. c\<lparr>available_size := n\<rparr>)"

definition note_used :: "addr \<Rightarrow> mem \<Rightarrow> mem" where
  "note_used h = upd_heap h (\<lambda>c. let used = u32 (int (pool_size c) - int (available_size c))
     in if max_used_size c < used then c\<lparr>max_used_size := used\<rparr> else c)"

partial_function (option) find_free :: "mem \<Rightarrow> addr \<Rightarrow> nat \<Rightarrow> addr \<Rightarrow> nat \<Rightarrow> (addr \<times> nat) option" where
  "find_free m fl sz hp fsz =
     (if hp \<noteq> fl \<and> fsz < sz then
        (let fsz' = MEMITEM_SIZE m hp
         in find_free m fl sz (if fsz' < sz then i_next_free (items m hp) else hp) fsz')
      else Some (hp, fsz))"

declare find_free.simps [code]

text \<open>The size of a request: rounded up to four bytes, in 32 bits, at least twelve.\<close>

definition request_size :: "nat \<Rightarrow> nat" where
  "request_size n = (let s = unat (RT_ALIGN (of_nat n) 4) in if s < RT_MEMHEAP_MINIALLOC then RT_MEMHEAP_MINIALLOC else s)"

definition alloc_split :: "addr \<Rightarrow> addr \<Rightarrow> nat \<Rightarrow> mem \<Rightarrow> mem" where
  "alloc_split h a sz m =
     (let n = u32 (int a + int sz + int RT_MEMHEAP_SIZE);
          m1 = free_unlink a (block_insert h a n m);
          m2 = upd_item a (\<lambda>i. i\<lparr>i_next_free := 0, i_prev_free := 0\<rparr>) m1;
          m3 = free_insert h n m2
      in note_used h (set_available h (u32 (int (available_size (heaps m3 h)) - int sz - int RT_MEMHEAP_SIZE)) m3))"

definition alloc_whole :: "addr \<Rightarrow> addr \<Rightarrow> nat \<Rightarrow> mem \<Rightarrow> mem" where
  "alloc_whole h a free_size m =
     (let m1 = note_used h (set_available h (u32 (int (available_size (heaps m h)) - int free_size)) m)
      in upd_item a (\<lambda>i. i\<lparr>i_next_free := 0, i_prev_free := 0\<rparr>) (free_unlink a m1))"

definition rt_memheap_alloc :: "addr \<Rightarrow> nat \<Rightarrow> mem \<Rightarrow> (addr \<times> mem) option" where
  "rt_memheap_alloc h size0 m =
     (let sz = request_size size0 in
      if sz < available_size (heaps m h) then
        (let (r, m1) = take_lock m in
         if r \<noteq> RT_EOK then Some (0, m1\<lparr>errno := r\<rparr>)
         else do {
           let fl = free_list (heaps m1 h);
           (a, fsz) \<leftarrow> find_free m1 fl sz (i_next_free (items m1 fl)) 0;
           if sz \<le> fsz then
             (let m2 = (if u32 (int sz + int RT_MEMHEAP_SIZE + int RT_MEMHEAP_MINIALLOC) \<le> fsz
                        then alloc_split h a sz m1 else alloc_whole h a fsz m1);
                  m3 = upd_item a (\<lambda>i. i\<lparr>i_magic := i_magic i OR RT_MEMHEAP_USED\<rparr>) m2
              in Some (u32 (int a + int RT_MEMHEAP_SIZE), m3))
           else Some (0, m1)
         })
      else Some (0, m))"

definition merge_left :: "addr \<Rightarrow> addr \<Rightarrow> mem \<Rightarrow> addr \<times> mem" where
  "merge_left h a m =
     (let p = i_prev (items m a);
          m1 = set_available h (u32 (int (available_size (heaps m h)) + int RT_MEMHEAP_SIZE)) m;
          m2 = upd_item p (\<lambda>i. i\<lparr>i_next := i_next (items m1 a)\<rparr>) m1;
          m3 = upd_item (i_next (items m2 a)) (\<lambda>i. i\<lparr>i_prev := i_prev (items m2 a)\<rparr>) m2
      in (i_prev (items m3 a), m3))"

definition merge_right :: "addr \<Rightarrow> addr \<Rightarrow> mem \<Rightarrow> mem" where
  "merge_right h a m =
     (let m1 = set_available h (u32 (int (available_size (heaps m h)) + int RT_MEMHEAP_SIZE)) m;
          n = i_next (items m1 a);
          m2 = upd_item (i_next (items m1 n)) (\<lambda>i. i\<lparr>i_prev := a\<rparr>) m1;
          m3 = upd_item a (\<lambda>i. i\<lparr>i_next := i_next (items m2 n)\<rparr>) m2
      in free_unlink n m3)"

text \<open>The locked section of \<^verbatim>\<open>rt_memheap_free\<close>.\<close>

definition give_back :: "addr \<Rightarrow> addr \<Rightarrow> mem \<Rightarrow> mem" where
  "give_back h a m =
     (let m1 = upd_item a (\<lambda>i. i\<lparr>i_magic := i_magic i AND NOT RT_MEMHEAP_USED\<rparr>) m;
          m2 = set_available h (u32 (int (available_size (heaps m1 h)) + int (MEMITEM_SIZE m1 a))) m1;
          left = \<not> is_used m2 (i_prev (items m2 a));
          (b, m3) = (if left then merge_left h a m2 else (a, m2));
          m4 = (if \<not> is_used m3 (i_next (items m3 b)) then merge_right h b m3 else m3)
      in if left then m4 else free_insert h b m4)"

definition rt_memheap_free :: "addr \<Rightarrow> mem \<Rightarrow> mem option" where
  "rt_memheap_free ptr m =
     (if ptr = 0 then Some m
      else
        (let a = u32 (int ptr - int RT_MEMHEAP_SIZE) in
         if i_magic (items m a) AND RT_MEMHEAP_MASK = RT_MEMHEAP_MAGIC \<and> is_used m a \<and>
            i_magic (items m (i_next (items m a))) AND RT_MEMHEAP_MASK = RT_MEMHEAP_MAGIC then
           (let h = i_pool (items m a);
                (r, m0) = take_lock m in
            if h = 0 then None
            else if r \<noteq> RT_EOK then Some (m0\<lparr>errno := r\<rparr>)
            else Some (give_back h a m0))
         else None))"

definition memcpy :: "addr \<Rightarrow> addr \<Rightarrow> nat \<Rightarrow> mem \<Rightarrow> mem" where
  "memcpy d s n m = m\<lparr>bytes := (\<lambda>x. if d \<le> x \<and> x < d + n then bytes m (s + (x - d)) else bytes m x)\<rparr>"

definition expand_block :: "addr \<Rightarrow> addr \<Rightarrow> nat \<Rightarrow> nat \<Rightarrow> mem \<Rightarrow> mem" where
  "expand_block h ptr oldsize newsize m =
     (let a = u32 (int ptr - int RT_MEMHEAP_SIZE);
          b = i_next (items m a);
          m1 = note_used h (set_available h (u32 (int (available_size (heaps m h)) - (int newsize - int oldsize))) m);
          m2 = free_unlink b m1;
          m3 = upd_item (i_next (items m2 b)) (\<lambda>i. i\<lparr>i_prev := i_prev (items m2 b)\<rparr>) m2;
          m4 = upd_item (i_prev (items m3 b)) (\<lambda>i. i\<lparr>i_next := i_next (items m3 b)\<rparr>) m3;
          n = u32 (int ptr + int newsize)
      in free_insert h n (block_insert h a n m4))"

definition shrink_block :: "addr \<Rightarrow> addr \<Rightarrow> nat \<Rightarrow> mem \<Rightarrow> mem" where
  "shrink_block h a newsize m =
     (let n = u32 (int a + int newsize + int RT_MEMHEAP_SIZE);
          m1 = block_insert h a n m;
          f = i_next (items m1 n);
          m4 = (if \<not> is_used m1 f then
                  (let m2 = set_available h (u32 (int (available_size (heaps m1 h)) - int (MEMITEM_SIZE m1 f))) m1;
                       m3 = upd_item (i_next (items m2 f)) (\<lambda>i. i\<lparr>i_prev := n\<rparr>) m2
                   in free_unlink f (upd_item n (\<lambda>i. i\<lparr>i_next := i_next (items m3 f)\<rparr>) m3))
                else m1);
          m5 = free_insert h n m4
      in set_available h (u32 (int (available_size (heaps m5 h)) + int (MEMITEM_SIZE m5 n))) m5)"

definition rt_memheap_realloc :: "addr \<Rightarrow> addr \<Rightarrow> nat \<Rightarrow> mem \<Rightarrow> (addr \<times> mem) option" where
  "rt_memheap_realloc h ptr newsize0 m =
     (if newsize0 = 0 then map_option (Pair 0) (rt_memheap_free ptr m)
      else
        (let newsize = request_size newsize0 in
         if ptr = 0 then rt_memheap_alloc h newsize m
         else
           (let a = u32 (int ptr - int RT_MEMHEAP_SIZE);
                oldsize = MEMITEM_SIZE m a in
            if oldsize < newsize then
              (let (r, m1) = take_lock m;
                   b = i_next (items m1 a) in
               if r \<noteq> RT_EOK then Some (0, m1\<lparr>errno := r\<rparr>)
               else if b \<le> a then None
               else if \<not> is_used m1 b \<and>
                  u32 (int newsize + int RT_MEMHEAP_MINIALLOC) < u32 (int (MEMITEM_SIZE m1 b) + int oldsize) then
                 Some (ptr, expand_block h ptr oldsize newsize m1)
               else do {
                 (q, m2) \<leftarrow> rt_memheap_alloc h newsize m1;
                 if q \<noteq> 0 then
                   map_option (Pair q) (rt_memheap_free ptr
                     (memcpy q ptr (if oldsize < newsize then oldsize else newsize) m2))
                 else Some (q, m2)
               })
            else if oldsize \<le> u32 (int newsize + int RT_MEMHEAP_SIZE + int RT_MEMHEAP_MINIALLOC) then Some (ptr, m)
            else
              (let (r, m1) = take_lock m in
               if r \<noteq> RT_EOK then Some (0, m1\<lparr>errno := r\<rparr>)
               else Some (ptr, shrink_block h a newsize m1)))))"

text \<open>The heap of the system: \<open>sys\<close> is the address of \<^verbatim>\<open>_heap\<close>, \<open>hs\<close> the memory heaps in the object
  list, which \<^verbatim>\<open>rt_malloc\<close> tries one after the other.\<close>

definition rt_system_heap_init :: "addr \<Rightarrow> addr \<Rightarrow> addr \<Rightarrow> addr \<Rightarrow> mem \<Rightarrow> mem" where
  "rt_system_heap_init sys hdr begin_addr end_addr m =
     rt_memheap_init sys hdr begin_addr (u32 (int end_addr - int begin_addr)) m"

fun malloc_others :: "addr \<Rightarrow> addr list \<Rightarrow> nat \<Rightarrow> mem \<Rightarrow> (addr \<times> mem) option" where
  "malloc_others sys [] n m = Some (0, m)"
| "malloc_others sys (h # hs) n m =
     (if h = sys then malloc_others sys hs n m
      else do {
        (p, m1) \<leftarrow> rt_memheap_alloc h n m;
        if p \<noteq> 0 then Some (p, m1) else malloc_others sys hs n m1
      })"

definition rt_malloc :: "addr \<Rightarrow> addr list \<Rightarrow> nat \<Rightarrow> mem \<Rightarrow> (addr \<times> mem) option" where
  "rt_malloc sys hs n m = do {
     (p, m1) \<leftarrow> rt_memheap_alloc sys n m;
     if p = 0 then malloc_others sys hs n m1 else Some (p, m1)
   }"

definition rt_free :: "addr \<Rightarrow> mem \<Rightarrow> mem option" where
  "rt_free p m = rt_memheap_free p m"

definition rt_realloc :: "addr \<Rightarrow> addr list \<Rightarrow> addr \<Rightarrow> nat \<Rightarrow> mem \<Rightarrow> (addr \<times> mem) option" where
  "rt_realloc sys hs p n m =
     (if p = 0 then rt_malloc sys hs n m
      else if n = 0 then map_option (Pair 0) (rt_free p m)
      else do {
        let a = u32 (int p - int RT_MEMHEAP_SIZE);
        (q, m1) \<leftarrow> rt_memheap_realloc (i_pool (items m a)) p n m;
        if q = 0 then do {
          (r, m2) \<leftarrow> rt_malloc sys hs n m1;
          if r \<noteq> 0 then
            (let oldsize = MEMITEM_SIZE m2 a
             in map_option (Pair r) (rt_free p (memcpy r p (if oldsize < n then oldsize else n) m2)))
          else Some (r, m2)
        } else Some (q, m1)
      })"

definition memset0 :: "addr \<Rightarrow> nat \<Rightarrow> mem \<Rightarrow> mem" where
  "memset0 p n m = m\<lparr>bytes := (\<lambda>x. if p \<le> x \<and> x < p + n then 0 else bytes m x)\<rparr>"

definition rt_calloc :: "addr \<Rightarrow> addr list \<Rightarrow> nat \<Rightarrow> nat \<Rightarrow> mem \<Rightarrow> (addr \<times> mem) option" where
  "rt_calloc sys hs cnt n m = do {
     let total_size = u32 (int cnt * int n);
     (p, m1) \<leftarrow> rt_malloc sys hs total_size m;
     Some (p, if p \<noteq> 0 then memset0 p total_size m1 else m1)
   }"

section \<open>Well-formed heaps\<close>

text \<open>The two circular lists as lists of the list theory.\<close>

definition bview :: "mem \<Rightarrow> lheap" where
  "bview m = \<lparr>nxt = \<lambda>a. i_next (items m a), prv = \<lambda>a. i_prev (items m a)\<rparr>"

definition fview :: "mem \<Rightarrow> lheap" where
  "fview m = \<lparr>nxt = \<lambda>a. i_next_free (items m a), prv = \<lambda>a. i_prev_free (items m a)\<rparr>"

lemma view_simps [simp]:
  "nxt (bview m) a = i_next (items m a)" "prv (bview m) a = i_prev (items m a)"
  "nxt (fview m) a = i_next_free (items m a)" "prv (fview m) a = i_prev_free (items m a)"
  by (simp_all add: bview_def fview_def)

text \<open>Lists of headers: far enough apart, no two free ones adjacent, the free bytes, and the
  blocks in use, from the address handed out to its size.\<close>

fun spaced :: "addr list \<Rightarrow> bool" where
  "spaced (a # b # xs) \<longleftrightarrow> a + 36 \<le> b \<and> spaced (b # xs)"
| "spaced xs \<longleftrightarrow> True"

fun coalesced :: "(addr \<Rightarrow> bool) \<Rightarrow> addr list \<Rightarrow> bool" where
  "coalesced U (a # b # xs) \<longleftrightarrow> (U a \<or> U b) \<and> coalesced U (b # xs)"
| "coalesced U xs \<longleftrightarrow> True"

fun free_bytes :: "(addr \<Rightarrow> bool) \<Rightarrow> addr list \<Rightarrow> nat" where
  "free_bytes U (a # b # xs) = (if U a then 0 else b - a - 24) + free_bytes U (b # xs)"
| "free_bytes U xs = 0"

fun live_of :: "(addr \<Rightarrow> bool) \<Rightarrow> addr list \<Rightarrow> (addr \<times> nat) list" where
  "live_of U (a # b # xs) = (if U a then (a + 24, b - a - 24) # live_of U (b # xs) else live_of U (b # xs))"
| "live_of U xs = []"

lemma spaced_cut: "spaced (us @ a # xs) \<longleftrightarrow> spaced (us @ [a]) \<and> spaced (a # xs)"
proof (induction us)
  case (Cons u us)
  then show ?case by (cases us) auto
qed simp

lemma coalesced_cut: "coalesced U (us @ a # xs) \<longleftrightarrow> coalesced U (us @ [a]) \<and> coalesced U (a # xs)"
proof (induction us)
  case (Cons u us)
  then show ?case by (cases us) auto
qed simp

lemma free_bytes_cut: "free_bytes U (us @ a # xs) = free_bytes U (us @ [a]) + free_bytes U (a # xs)"
proof (induction us)
  case (Cons u us)
  then show ?case by (cases us) auto
qed simp

lemma live_of_cut: "live_of U (us @ a # xs) = live_of U (us @ [a]) @ live_of U (a # xs)"
proof (induction us)
  case (Cons u us)
  then show ?case by (cases us) auto
qed simp

lemmas cuts = spaced_cut coalesced_cut free_bytes_cut live_of_cut

lemma coalesced_mono: "coalesced U xs \<Longrightarrow> (\<And>x. x \<in> set xs \<Longrightarrow> U x \<Longrightarrow> V x) \<Longrightarrow> coalesced V xs"
  by (induction U xs rule: coalesced.induct) auto

lemma free_bytes_cong: "(\<And>x. x \<in> set (butlast xs) \<Longrightarrow> U x = V x) \<Longrightarrow> free_bytes U xs = free_bytes V xs"
  by (induction U xs rule: free_bytes.induct) auto

lemma live_of_cong: "(\<And>x. x \<in> set (butlast xs) \<Longrightarrow> U x = V x) \<Longrightarrow> live_of U xs = live_of V xs"
  by (induction U xs rule: live_of.induct) auto

lemma spaced_less: "spaced (a # xs) \<Longrightarrow> x \<in> set xs \<Longrightarrow> a + 36 \<le> x"
proof (induction xs arbitrary: a)
  case (Cons b xs)
  show ?case
  proof (cases "x = b")
    case False
    then have "b + 36 \<le> x" using Cons.IH [of b] Cons.prems by auto
    then show ?thesis using Cons.prems(1) by simp
  qed (use Cons.prems in simp)
qed simp

lemma spaced_before: "spaced (us @ [a]) \<Longrightarrow> x \<in> set us \<Longrightarrow> x + 36 \<le> a"
proof (induction us)
  case (Cons u us)
  show ?case
  proof (cases "x = u")
    case True
    then show ?thesis using spaced_less [of u "us @ [a]" a] Cons.prems by simp
  next
    case False
    have "spaced (us @ [a])" using Cons.prems(1) by (cases us) auto
    then show ?thesis using Cons False by simp
  qed
qed simp

lemma spaced_last: "spaced (a # xs) \<Longrightarrow> a \<le> last (a # xs)"
  using spaced_less [of a xs "last xs"] by (cases xs) auto

lemma free_bytes_bound: "spaced (a # xs) \<Longrightarrow> free_bytes U (a # xs) \<le> last (a # xs) - a"
proof (induction xs arbitrary: a)
  case (Cons b xs)
  have "free_bytes U (b # xs) \<le> last (b # xs) - b" using Cons by simp
  moreover have "b \<le> last (b # xs)" using spaced_last [of b xs] Cons.prems by simp
  ultimately show ?case using Cons.prems by (auto split: if_splits)
qed simp

text \<open>A block of the pool, from its header \<open>a\<close> to the next header \<open>b\<close>.\<close>

definition magic_ok :: "mem \<Rightarrow> addr \<Rightarrow> addr \<Rightarrow> bool" where
  "magic_ok m h a \<longleftrightarrow> i_magic (items m a) AND RT_MEMHEAP_MASK = RT_MEMHEAP_MAGIC \<and> i_pool (items m a) = h"

definition blocks_ok :: "mem \<Rightarrow> addr \<Rightarrow> addr list \<Rightarrow> bool" where
  "blocks_ok m h L \<longleftrightarrow>
     (let c = heaps m h in
      0 < h \<and> 0 < start_addr c \<and> 4 dvd start_addr c \<and> 4 dvd pool_size c \<and>
      start_addr c + pool_size c \<le> 4294967296 \<and> block_list c = start_addr c \<and>
      free_list c = free_header c \<and> (free_header c < start_addr c \<or> start_addr c + pool_size c \<le> free_header c) \<and>
      2 \<le> length L \<and> hd L = start_addr c \<and> last L + 24 = start_addr c + pool_size c \<and>
      ring (bview m) (hd L) (tl L) \<and> spaced L \<and>
      (\<forall>a \<in> set L. 4 dvd a \<and> magic_ok m h a) \<and> is_used m (last L))"

definition free_ok :: "mem \<Rightarrow> addr \<Rightarrow> addr list \<Rightarrow> addr list \<Rightarrow> bool" where
  "free_ok m h L F \<longleftrightarrow> ring (fview m) (free_header (heaps m h)) F \<and> set F = {a \<in> set L. \<not> is_used m a}"

definition sizes_ok :: "mem \<Rightarrow> addr \<Rightarrow> addr list \<Rightarrow> bool" where
  "sizes_ok m h L \<longleftrightarrow>
     (let c = heaps m h in available_size c = free_bytes (is_used m) L \<and>
      pool_size c - available_size c \<le> max_used_size c \<and> max_used_size c \<le> pool_size c)"

definition heap_rep :: "mem \<Rightarrow> addr \<Rightarrow> addr list \<Rightarrow> addr list \<Rightarrow> bool" where
  "heap_rep m h L F \<longleftrightarrow> blocks_ok m h L \<and> free_ok m h L F \<and> sizes_ok m h L \<and> coalesced (is_used m) L"

text \<open>The list of headers, read off the memory.\<close>

fun walk :: "mem \<Rightarrow> addr \<Rightarrow> nat \<Rightarrow> addr list" where
  "walk m a 0 = [a]"
| "walk m a (Suc n) = (if i_next (items m a) \<le> a then [a] else a # walk m (i_next (items m a)) n)"

definition blocks_of :: "mem \<Rightarrow> addr \<Rightarrow> addr list" where
  "blocks_of m h = walk m (start_addr (heaps m h)) (pool_size (heaps m h))"

definition heap_ok :: "mem \<Rightarrow> addr \<Rightarrow> bool" where
  "heap_ok m h \<longleftrightarrow> (\<exists>F. heap_rep m h (blocks_of m h) F)"

definition live :: "mem \<Rightarrow> addr \<Rightarrow> addr \<Rightarrow> nat option" where
  "live m h = map_of (live_of (is_used m) (blocks_of m h))"

section \<open>The pieces\<close>

lemma upd_simps [simp]:
  "items (upd_item a f m) = (items m)(a := f (items m a))" "heaps (upd_item a f m) = heaps m"
  "bytes (upd_item a f m) = bytes m" "lock_result (upd_item a f m) = lock_result m"
  "lock_takes (upd_item a f m) = lock_takes m" "errno (upd_item a f m) = errno m"
  "items (upd_heap h g m) = items m" "heaps (upd_heap h g m) = (heaps m)(h := g (heaps m h))"
  "bytes (upd_heap h g m) = bytes m" "lock_result (upd_heap h g m) = lock_result m"
  "lock_takes (upd_heap h g m) = lock_takes m" "errno (upd_heap h g m) = errno m"
  by (simp_all add: upd_item_def upd_heap_def)

lemma account_simps [simp]:
  "items (set_available h n m) = items m" "items (note_used h m) = items m"
  by (simp_all add: set_available_def note_used_def)

lemma free_unlink_simps [simp]:
  "i_next (items (free_unlink a m) x) = i_next (items m x)" "i_prev (items (free_unlink a m) x) = i_prev (items m x)"
  "i_magic (items (free_unlink a m) x) = i_magic (items m x)" "i_pool (items (free_unlink a m) x) = i_pool (items m x)"
  "heaps (free_unlink a m) = heaps m"
  by (simp_all add: free_unlink_def Let_def)

lemma free_insert_simps [simp]:
  "i_next (items (free_insert h a m) x) = i_next (items m x)" "i_prev (items (free_insert h a m) x) = i_prev (items m x)"
  "i_magic (items (free_insert h a m) x) = i_magic (items m x)" "i_pool (items (free_insert h a m) x) = i_pool (items m x)"
  "heaps (free_insert h a m) = heaps m"
  by (simp_all add: free_insert_def Let_def)

lemma block_insert_simps [simp]:
  "i_next_free (items (block_insert h a n m) x) = i_next_free (items m x)"
  "i_prev_free (items (block_insert h a n m) x) = i_prev_free (items m x)"
  "i_magic (items (block_insert h a n m) x) = (if x = n then RT_MEMHEAP_MAGIC else i_magic (items m x))"
  "i_pool (items (block_insert h a n m) x) = (if x = n then h else i_pool (items m x))"
  "heaps (block_insert h a n m) = heaps m"
  by (simp_all add: block_insert_def Let_def)

definition place :: "memheap \<Rightarrow> addr \<times> nat \<times> addr \<times> addr \<times> addr" where
  "place c = (start_addr c, pool_size c, block_list c, free_list c, free_header c)"

lemma place_account [simp]:
  "place (heaps (set_available h n m) k) = place (heaps m k)" "place (heaps (note_used h m) k) = place (heaps m k)"
  by (simp_all add: place_def set_available_def note_used_def Let_def)

text \<open>What an operation on a heap leaves alone: the headers outside \<open>A\<close>, the other heaps, the
  place of the pool, the payload.\<close>

definition confined :: "addr \<Rightarrow> addr set \<Rightarrow> mem \<Rightarrow> mem \<Rightarrow> bool" where
  "confined h A m m' \<longleftrightarrow>
     (\<forall>x. x \<notin> A \<longrightarrow> items m' x = items m x) \<and> (\<forall>k. k \<noteq> h \<longrightarrow> heaps m' k = heaps m k) \<and>
     place (heaps m' h) = place (heaps m h) \<and>
     bytes m' = bytes m \<and> lock_result m' = lock_result m"

lemma confined_refl: "confined h A m m"
  by (simp add: confined_def)

lemma confined_trans: "confined h A m m1 \<Longrightarrow> confined h A m1 m2 \<Longrightarrow> confined h A m m2"
  by (simp add: confined_def)

lemma confined_upd: "a \<in> A \<Longrightarrow> confined h A m (upd_item a f m)"
  by (auto simp: confined_def)

lemma confined_account: "confined h A m (set_available h n m)" "confined h A m (note_used h m)"
  by (simp_all add: confined_def set_available_def note_used_def Let_def place_def)

lemma confined_unlink:
  "i_next_free (items m a) \<in> A \<Longrightarrow> i_prev_free (items m a) \<in> A \<Longrightarrow> a \<noteq> i_next_free (items m a) \<Longrightarrow>
    confined h A m (free_unlink a m)"
  by (auto simp: confined_def free_unlink_def Let_def)

lemma confined_insert:
  "a \<in> A \<Longrightarrow> free_list (heaps m h) \<in> A \<Longrightarrow> i_next_free (items m (free_list (heaps m h))) \<in> A \<Longrightarrow>
    a \<noteq> free_list (heaps m h) \<Longrightarrow> confined h A m (free_insert h a m)"
  by (auto simp: confined_def free_insert_def Let_def)

lemma confined_block_insert:
  "a \<in> A \<Longrightarrow> n \<in> A \<Longrightarrow> i_next (items m a) \<in> A \<Longrightarrow> a \<noteq> n \<Longrightarrow> confined h A m (block_insert h a n m)"
  by (auto simp: confined_def block_insert_def Let_def)

lemma block_insert_links:
  assumes "i_next (items m a) \<noteq> n" "a \<noteq> n"
  shows "i_next (items (block_insert h a n m) x) = (if x = a then n else if x = n then i_next (items m a) else i_next (items m x))"
    and "i_prev (items (block_insert h a n m) x) =
      (if x = i_next (items m a) then n else if x = n then a else i_prev (items m x))"
  using assms by (auto simp: block_insert_def Let_def)

text \<open>The free list.\<close>

lemma unlink_ring:
  assumes "ring (fview m) l F" "a \<in> set F"
  shows "ring (fview (free_unlink a m)) l (remove1 a F)"
    "i_next_free (items m a) \<in> set (l # F)" "i_prev_free (items m a) \<in> set (l # F)"
    "i_next_free (items m a) \<noteq> a"
proof -
  have d: "distinct (l # F)" using assms(1) by (simp add: ring_def)
  obtain us vs where F: "F = us @ a # vs" using assms(2) by (meson split_list)
  obtain ps p where p: "l # us = ps @ [p]" by (metis append_butlast_last_id list.distinct(1))
  obtain q qs where q: "vs @ [l] = q # qs" by (cases "vs @ [l]") auto
  have e: "l # F @ [l] = ps @ p # a # q # qs" using F p q by simp
  then have e2: "l # F @ [l] = (ps @ [p]) @ a # q # qs" by simp
  have ln: "i_next_free (items m a) = q" "i_prev_free (items m a) = p"
    using ring_link [OF assms(1) e] ring_link [OF assms(1) e2] by auto
  have pq: "p \<in> set (l # us)" "q \<in> set (vs @ [l])" using p q by auto
  then show "i_next_free (items m a) \<in> set (l # F)" "i_prev_free (items m a) \<in> set (l # F)" using ln F by auto
  have al: "a \<noteq> l" using assms(2) d by auto
  have ne: "p \<noteq> a" "q \<noteq> a" using pq d F by auto
  then show "i_next_free (items m a) \<noteq> a" using ln by simp
  have r: "remove1 a F = us @ vs" using d F by (simp add: remove1_append)
  show "ring (fview (free_unlink a m)) l (remove1 a F)"
  proof (rule ring_delete [OF assms(1) e al])
    show "l # remove1 a F @ [l] = ps @ p # q # qs" using r p q by simp
  qed (use ln ne in \<open>auto simp: free_unlink_def Let_def\<close>)
qed

lemma insert_ring:
  assumes "ring (fview m) l F" "free_list (heaps m h) = l" "a \<notin> set (l # F)"
  shows "ring (fview (free_insert h a m)) l (a # F)" "i_next_free (items m l) \<in> set (l # F)"
proof -
  obtain q qs where q: "F @ [l] = q # qs" by (cases "F @ [l]") auto
  then have e: "l # F @ [l] = [] @ l # q # qs" by simp
  have ln: "i_next_free (items m l) = q" using ring_link [OF assms(1) e] by simp
  have "q \<in> set (F @ [l])" using q by simp
  then show "i_next_free (items m l) \<in> set (l # F)" using ln by simp
  have "q \<noteq> a" using assms(3) q by (cases F) auto
  then show "ring (fview (free_insert h a m)) l (a # F)"
    by (intro ring_insert [OF assms(1) e assms(3)]) (use q ln assms(2,3) in \<open>auto simp: free_insert_def Let_def\<close>)
qed

text \<open>The block list.\<close>

lemma bring_insert:
  assumes "ring (bview m) (hd (us @ a # b # vs)) (tl (us @ a # b # vs))" "n \<notin> set (us @ a # b # vs)"
    and "\<And>x. i_next (items m' x) = (if x = a then n else if x = n then b else i_next (items m x))"
    and "\<And>x. i_prev (items m' x) = (if x = b then n else if x = n then a else i_prev (items m x))"
  shows "ring (bview m') (hd (us @ a # n # b # vs)) (tl (us @ a # n # b # vs))"
proof -
  define l where "l = hd (us @ a # b # vs)"
  have h: "hd (us @ a # n # b # vs) = l" by (cases us) (simp_all add: l_def)
  have e: "l # tl (us @ a # b # vs) @ [l] = us @ a # b # vs @ [l]"
    "l # tl (us @ a # n # b # vs) @ [l] = us @ a # n # b # vs @ [l]" by (cases us; simp add: l_def)+
  have "n \<notin> set (l # tl (us @ a # b # vs))" using assms(2) by (cases us) (auto simp: l_def)
  then have "ring (bview m') l (tl (us @ a # n # b # vs))"
    by (intro ring_insert [OF assms(1) [folded l_def] e(1) _ e(2)]) (simp_all add: assms(3,4))
  then show ?thesis by (simp add: h)
qed

lemma bring_delete:
  assumes "ring (bview m) (hd (us @ a # n # c # vs)) (tl (us @ a # n # c # vs))"
    and "\<And>x. x \<noteq> n \<Longrightarrow> i_next (items m' x) = (if x = a then c else i_next (items m x))"
    and "\<And>x. x \<noteq> n \<Longrightarrow> i_prev (items m' x) = (if x = c then a else i_prev (items m x))"
  shows "ring (bview m') (hd (us @ a # c # vs)) (tl (us @ a # c # vs))"
proof -
  define l where "l = hd (us @ a # n # c # vs)"
  have h: "hd (us @ a # c # vs) = l" by (cases us) (simp_all add: l_def)
  have e: "l # tl (us @ a # n # c # vs) @ [l] = us @ a # n # c # vs @ [l]"
    "l # tl (us @ a # c # vs) @ [l] = us @ a # c # vs @ [l]" by (cases us; simp add: l_def)+
  have d: "distinct (l # tl (us @ a # n # c # vs))" using assms(1) by (simp add: ring_def l_def)
  then have "n \<noteq> l" by (cases us) (auto simp: l_def)
  then have "ring (bview m') l (tl (us @ a # c # vs))"
    by (intro ring_delete [OF assms(1) [folded l_def] e(1) _ e(2)]) (simp_all add: assms(2,3))
  then show ?thesis by (simp add: h)
qed

lemma bring_wrap:
  assumes "ring (bview m) (hd L) (tl L)" "L \<noteq> []"
  shows "i_prev (items m (hd L)) = last L"
proof -
  have "hd L # tl L @ [hd L] = butlast L @ last L # hd L # []" using assms(2) by simp
  from ring_link [OF assms(1) this] show ?thesis by simp
qed

lemma bring_link:
  assumes "ring (bview m) (hd L) (tl L)" "L = us @ a # b # vs"
  shows "i_next (items m a) = b" "i_prev (items m b) = a"
proof -
  have "hd L # tl L @ [hd L] = us @ a # b # (vs @ [hd L])" using assms(2) by (cases us) auto
  from ring_link [OF assms(1) this] show "i_next (items m a) = b" "i_prev (items m b) = a" by simp_all
qed

lemma blocks_ok_ring:
  assumes "blocks_ok m h L"
  shows "ring (bview m) (hd L) (tl L)" "spaced L" "is_used m (last L)" "L \<noteq> []" "2 \<le> length L"
    "free_list (heaps m h) = free_header (heaps m h)"
  using assms unfolding blocks_ok_def Let_def by (elim conjE, (assumption | fastforce))+

lemma blocks_ok_bounds:
  assumes "blocks_ok m h L" "a \<in> set L"
  shows "start_addr (heaps m h) \<le> a" "a + 24 \<le> start_addr (heaps m h) + pool_size (heaps m h)"
    "a + 24 \<le> 4294967296" "0 < a" "4 dvd a" "magic_ok m h a" "a \<noteq> free_header (heaps m h)"
proof -
  have ok: "hd L = start_addr (heaps m h)" "last L + 24 = start_addr (heaps m h) + pool_size (heaps m h)" "spaced L"
    "start_addr (heaps m h) + pool_size (heaps m h) \<le> 4294967296" "0 < start_addr (heaps m h)" "4 dvd a" "magic_ok m h a"
    "free_header (heaps m h) < start_addr (heaps m h) \<or> start_addr (heaps m h) + pool_size (heaps m h) \<le> free_header (heaps m h)"
    using assms by (simp_all add: blocks_ok_def Let_def)
  obtain us vs where L: "L = us @ a # vs" using assms(2) by (meson split_list)
  have sp: "spaced (us @ [a])" "spaced (a # vs)" using ok(3) L spaced_cut [of us a vs] by auto
  have "hd L \<le> a" using spaced_before [OF sp(1), of "hd L"] L by (cases us) auto
  moreover have "a \<le> last L" using spaced_last [OF sp(2)] L by simp
  ultimately show "start_addr (heaps m h) \<le> a" "a + 24 \<le> start_addr (heaps m h) + pool_size (heaps m h)"
    "a + 24 \<le> 4294967296" "0 < a" "4 dvd a" "magic_ok m h a" "a \<noteq> free_header (heaps m h)" using ok by auto
qed

lemma block_facts:
  assumes "blocks_ok m h L" "L = us @ a # b # vs"
  shows "i_next (items m a) = b" "i_prev (items m b) = a" "a + 36 \<le> b" "MEMITEM_SIZE m a = b - a - 24"
    "b + 24 \<le> 4294967296"
proof -
  note r = blocks_ok_ring(1) [OF assms(1)] and sp = blocks_ok_ring(2) [OF assms(1)]
  show n: "i_next (items m a) = b" and "i_prev (items m b) = a" using bring_link [OF r assms(2)] by auto
  show ab: "a + 36 \<le> b" using sp by (simp add: assms(2) spaced_cut [of us a "b # vs"])
  show b: "b + 24 \<le> 4294967296" using blocks_ok_bounds(3) [OF assms(1), of b] assms(2) by simp
  have "int b - int a - 24 = int (b - a - 24)" using ab by simp
  then show "MEMITEM_SIZE m a = b - a - 24" using b by (simp add: MEMITEM_SIZE_def n u32_eqI)
qed

text \<open>A block that is not the last one has a successor.\<close>

lemma block_split:
  assumes "a \<in> set L" "a \<noteq> last L"
  obtains us b vs where "L = us @ a # b # vs"
proof -
  obtain us vs where L: "L = us @ a # vs" using assms(1) by (meson split_list)
  then obtain b ws where "vs = b # ws" using assms(2) by (cases vs) auto
  then show thesis using that L by simp
qed

text \<open>The search is first fit in the order of the free list.\<close>

lemma find_free_first_fit:
  assumes "ring (fview m) l (xs @ ys)"
  shows "fsz < sz \<Longrightarrow> find_free m l sz (hd (ys @ [l])) fsz =
    Some (case find (\<lambda>a. sz \<le> MEMITEM_SIZE m a) ys of Some a \<Rightarrow> (a, MEMITEM_SIZE m a)
      | None \<Rightarrow> (l, if ys = [] then fsz else MEMITEM_SIZE m (last ys)))"
  using assms
proof (induction ys arbitrary: xs fsz)
  case Nil
  then show ?case by (subst find_free.simps) simp
next
  case (Cons y ys)
  have d: "y \<noteq> l" using Cons.prems(2) by (auto simp: ring_def)
  show ?case
  proof (cases "sz \<le> MEMITEM_SIZE m y")
    case True
    then show ?thesis using d Cons.prems(1)
      by (subst find_free.simps) (simp add: Let_def find_free.simps [of m l sz y "MEMITEM_SIZE m y"])
  next
    case False
    obtain q qs where q: "ys @ [l] = q # qs" by (cases "ys @ [l]") auto
    obtain ps where "l # xs @ y # ys @ [l] = ps @ y # q # qs" using q by (metis append_Cons)
    then have "i_next_free (items m y) = hd (ys @ [l])" using ring_link [OF Cons.prems(2), of ps y q qs] q by simp
    then show ?thesis using False d Cons.prems(1) Cons.IH [of "MEMITEM_SIZE m y" "xs @ [y]"] Cons.prems(2)
      by (subst find_free.simps) (simp add: Let_def split: option.splits)
  qed
qed

end
