(* ===== verification/MemAlloc.thy ===== *)
theory MemAlloc
  imports MemHeap
begin

text \<open>
  Allocation and release in a memory heap: \<^verbatim>\<open>rt_memheap_alloc\<close> and \<^verbatim>\<open>rt_memheap_free\<close> keep
  the heap well formed and change the blocks in use by exactly the one they hand out or take
  back. The splitting and merging of blocks are followed on the lists of headers.
\<close>

section \<open>Allocation\<close>

lemma magic_word [simp]:
  "((w :: 32 word) OR 1) AND 4294967294 = w AND 4294967294" "(w AND - 2) AND 4294967294 = w AND 4294967294"
  "(w AND - 2) AND 1 = 0" "(w OR 1) AND 1 = 1"
proof -
  have m: "(4294967294 :: 32 word) = NOT 1" "(- 2 :: 32 word) = NOT 1" by simp_all
  show "(w OR 1) AND 4294967294 = w AND 4294967294" "(w AND - 2) AND 4294967294 = w AND 4294967294"
    unfolding m by (rule bit_eqI, auto simp only: bit_and_iff bit_or_iff bit_not_iff)+
  show "(w AND - 2) AND 1 = 0" unfolding m
    by (rule bit_eqI) (auto simp only: bit_and_iff bit_or_iff bit_not_iff bit_0_eq bot_apply bot_bool_def)
  show "(w OR 1) AND 1 = 1" by (rule bit_eqI) (auto simp only: bit_and_iff bit_or_iff)
qed

lemma is_used_simps [simp]:
  "is_used (free_unlink a m) x = is_used m x" "is_used (free_insert h a m) x = is_used m x"
  "is_used (set_available h k m) x = is_used m x" "is_used (note_used h m) x = is_used m x"
  "is_used (block_insert h a n m) x = (x \<noteq> n \<and> is_used m x)"
  "is_used (upd_item a (\<lambda>i. i\<lparr>i_magic := i_magic i OR 1\<rparr>) m) x = (x = a \<or> is_used m x)"
  "is_used (upd_item a (\<lambda>i. i\<lparr>i_magic := i_magic i AND - 2\<rparr>) m) x = (x \<noteq> a \<and> is_used m x)"
  "is_used (upd_item a (\<lambda>i. i\<lparr>i_next_free := p, i_prev_free := q\<rparr>) m) x = is_used m x"
  by (simp_all add: is_used_def bit.conj_disj_distrib2)

lemma blocks_ok_new:
  assumes "blocks_ok m h L" "place (heaps m' h) = place (heaps m h)"
    and "hd L' = hd L" "last L' = last L" "2 \<le> length L'" "ring (bview m') (hd L') (tl L')" "spaced L'"
    and "\<And>x. x \<in> set L' \<Longrightarrow> 4 dvd x \<and> magic_ok m' h x" "is_used m' (last L)"
  shows "blocks_ok m' h L'"
proof -
  have p: "start_addr (heaps m' h) = start_addr (heaps m h)" "pool_size (heaps m' h) = pool_size (heaps m h)"
    "block_list (heaps m' h) = block_list (heaps m h)" "free_list (heaps m' h) = free_list (heaps m h)"
    "free_header (heaps m' h) = free_header (heaps m h)" using assms(2) by (simp_all add: place_def)
  show ?thesis using assms(1,5,8,9) assms(6,7) unfolding blocks_ok_def Let_def p assms(3,4)
    by (elim conjE, intro conjI ballI) (assumption | simp)+
qed

lemma blocks_ok_same:
  assumes "blocks_ok m h L" "place (heaps m' h) = place (heaps m h)"
    and "\<And>x. i_next (items m' x) = i_next (items m x)" "\<And>x. i_prev (items m' x) = i_prev (items m x)"
    and "\<And>x. magic_ok m' h x = magic_ok m h x" "is_used m (last L) \<Longrightarrow> is_used m' (last L)"
  shows "blocks_ok m' h L"
proof (rule blocks_ok_new [OF assms(1,2) refl refl])
  have "bview m' = bview m" by (simp add: bview_def assms(3,4))
  then show "ring (bview m') (hd L) (tl L)" using blocks_ok_ring(1) [OF assms(1)] by simp
  show "4 dvd x \<and> magic_ok m' h x" if "x \<in> set L" for x
    using blocks_ok_bounds(5,6) [OF assms(1) that] assms(5) by simp
qed (use blocks_ok_ring [OF assms(1)] assms(6) in auto)

lemma block_insert_ok:
  assumes ok: "blocks_ok m h (us @ a # b # vs)" and n: "a + 36 \<le> n" "n + 36 \<le> b" "4 dvd n"
  shows "blocks_ok (block_insert h a n m) h (us @ a # n # b # vs)"
proof -
  note bf = block_facts [OF ok refl]
  have sp: "spaced (us @ [a])" "spaced (b # vs)"
    using blocks_ok_ring(2) [OF ok] spaced_cut [of us a "b # vs"] by auto
  have nin: "n \<notin> set (us @ a # b # vs)"
    using n spaced_before [OF sp(1), of n] spaced_less [OF sp(2), of n] by auto
  have ne: "i_next (items m a) \<noteq> n" "a \<noteq> n" using n bf(1) by auto
  show ?thesis
  proof (rule blocks_ok_new [OF ok])
    show "ring (bview (block_insert h a n m)) (hd (us @ a # n # b # vs)) (tl (us @ a # n # b # vs))"
      by (rule bring_insert [OF blocks_ok_ring(1) [OF ok] nin]) (simp_all add: block_insert_links [OF ne] bf(1))
    show "spaced (us @ a # n # b # vs)"
      using sp n spaced_cut [of us a "n # b # vs"] by simp
    show "4 dvd x \<and> magic_ok (block_insert h a n m) h x" if "x \<in> set (us @ a # n # b # vs)" for x
      using that n(3) blocks_ok_bounds(5,6) [OF ok, of x] by (auto simp: magic_ok_def)
    show "is_used (block_insert h a n m) (last (us @ a # b # vs))"
      using blocks_ok_ring(3) [OF ok] nin last_in_set [of "us @ a # b # vs"] by auto
    show "hd (us @ a # n # b # vs) = hd (us @ a # b # vs)" by (cases us) auto
  qed simp_all
qed

lemma block_delete_ok:
  assumes ok: "blocks_ok m h (us @ a # n # c # vs)"
    and "place (heaps m' h) = place (heaps m h)"
    and "\<And>x. x \<noteq> n \<Longrightarrow> i_next (items m' x) = (if x = a then c else i_next (items m x))"
    and "\<And>x. x \<noteq> n \<Longrightarrow> i_prev (items m' x) = (if x = c then a else i_prev (items m x))"
    and "\<And>x. magic_ok m' h x = magic_ok m h x" "\<And>x. is_used m' x = is_used m x"
  shows "blocks_ok m' h (us @ a # c # vs)"
proof (rule blocks_ok_new [OF ok assms(2)])
  have "spaced (us @ a # n # c # vs)" by (rule blocks_ok_ring(2) [OF ok])
  then show "spaced (us @ a # c # vs)"
    using spaced_cut [of us a "n # c # vs"] spaced_cut [of us a "c # vs"] by simp
  show "4 dvd x \<and> magic_ok m' h x" if "x \<in> set (us @ a # c # vs)" for x
    using that blocks_ok_bounds(5,6) [OF ok, of x] assms(5) by auto
  show "is_used m' (last (us @ a # n # c # vs))" using blocks_ok_ring(3) [OF ok] assms(6) by simp
  show "hd (us @ a # c # vs) = hd (us @ a # n # c # vs)" by (cases us) auto
  show "ring (bview m') (hd (us @ a # c # vs)) (tl (us @ a # c # vs))"
    by (rule bring_delete [OF blocks_ok_ring(1) [OF ok] assms(3,4)])
qed simp_all

lemma free_bytes_pool:
  assumes "blocks_ok m h L"
  shows "free_bytes U L + 24 \<le> pool_size (heaps m h)"
proof -
  obtain a xs where L: "L = a # xs" using blocks_ok_ring(4) [OF assms] by (cases L) auto
  have "a = start_addr (heaps m h)" "last L + 24 = start_addr (heaps m h) + pool_size (heaps m h)"
    using assms L by (auto simp: blocks_ok_def Let_def)
  then show ?thesis using free_bytes_bound [of a xs U] blocks_ok_ring(2) [OF assms] spaced_last [of a xs] L by simp
qed

lemma pool_size_bound: "blocks_ok m h L \<Longrightarrow> pool_size (heaps m h) < 4294967296"
  by (auto simp: blocks_ok_def Let_def)

lemma sizes_ok_take:
  assumes "blocks_ok m h L" "sizes_ok m h L" "N = free_bytes (is_used m') L'" "N \<le> available_size (heaps m h)"
    and "heaps m' h = heaps (note_used h (set_available h N m)) h"
  shows "sizes_ok m' h L'"
proof -
  have "N \<le> pool_size (heaps m h)" "pool_size (heaps m h) < 4294967296"
    using assms(2,4) free_bytes_pool [OF assms(1), of "is_used m"] pool_size_bound [OF assms(1)]
    by (auto simp: sizes_ok_def Let_def)
  then have "u32 (int (pool_size (heaps m h)) - int N) = pool_size (heaps m h) - N"
    by (intro u32_eqI) auto
  then show ?thesis using assms(2-5) by (auto simp: sizes_ok_def Let_def note_used_def set_available_def)
qed

lemma sizes_ok_give:
  assumes "sizes_ok m h L" "N = free_bytes (is_used m') L'" "available_size (heaps m h) \<le> N"
    and "heaps m' h = (heaps m h)\<lparr>available_size := N\<rparr>"
  shows "sizes_ok m' h L'"
  using assms by (auto simp: sizes_ok_def Let_def)

lemma fview_same:
  "(\<And>x. i_next_free (items m' x) = i_next_free (items m x)) \<Longrightarrow>
    (\<And>x. i_prev_free (items m' x) = i_prev_free (items m x)) \<Longrightarrow> fview m' = fview m"
  by (simp add: fview_def)

lemma free_okD:
  assumes "free_ok m h L F" "blocks_ok m h L"
  shows "ring (fview m) (free_header (heaps m h)) F" "a \<in> set F \<longleftrightarrow> a \<in> set L \<and> \<not> is_used m a"
    "distinct F" "free_header (heaps m h) \<notin> set L"
  using assms blocks_ok_bounds(7) [OF assms(2), of "free_header (heaps m h)"] by (auto simp: free_ok_def ring_def)

lemma heap_repD:
  assumes "heap_rep m h L F"
  shows "blocks_ok m h L" "free_ok m h L F" "sizes_ok m h L" "coalesced (is_used m) L"
  using assms by (simp_all add: heap_rep_def)

lemma place_free: "place c = place d \<Longrightarrow> free_header c = free_header d \<and> free_list c = free_list d"
  by (simp add: place_def)

lemma free_neighbour_used:
  assumes "heap_rep m h (us @ a # b # vs) F" "\<not> is_used m a"
  shows "is_used m b" "us \<noteq> [] \<Longrightarrow> is_used m (last us)"
proof -
  have c: "coalesced (is_used m) (us @ a # b # vs)" by (rule heap_repD(4) [OF assms(1)])
  then show "is_used m b" using assms(2) coalesced_cut [of _ us a "b # vs"] by simp
  assume "us \<noteq> []"
  then obtain ws u where "us = ws @ [u]" by (metis append_butlast_last_id)
  then show "is_used m (last us)" using c assms(2) coalesced_cut [of "is_used m" ws u "a # b # vs"] by simp
qed

text \<open>Splitting a free block, and taking it whole, on the lists of headers.\<close>

lemma split_lists:
  assumes co: "coalesced U (us @ a # b # vs)" "\<not> U a" and sp: "spaced (us @ a # b # vs)"
    and n: "a + 36 \<le> n" "n + 36 \<le> b" "n = a + sz + 24"
    and V: "\<And>x. V x \<longleftrightarrow> x \<noteq> n \<and> (x = a \<or> U x)"
  shows "coalesced V (us @ a # n # b # vs)"
    "free_bytes U (us @ a # b # vs) = free_bytes V (us @ a # n # b # vs) + (sz + 24)"
    "live_of V (us @ a # n # b # vs) = live_of U (us @ [a]) @ (a + 24, sz) # live_of U (b # vs)"
    "live_of U (us @ a # b # vs) = live_of U (us @ [a]) @ live_of U (b # vs)"
proof -
  have sp2: "spaced (us @ [a])" "spaced (b # vs)" using sp spaced_cut [of us a "b # vs"] by auto
  have us: "x \<noteq> n \<and> x \<noteq> a" if "x \<in> set us" for x using spaced_before [OF sp2(1) that] n by auto
  have vs: "x \<noteq> n \<and> x \<noteq> a" if "x \<in> set (b # vs)" for x using spaced_less [OF sp2(2), of x] n that by auto
  have c: "coalesced U (us @ [a])" "coalesced U (b # vs)" "U b" using co coalesced_cut [of U us a "b # vs"] by auto
  have "coalesced V (us @ [a])" "coalesced V (b # vs)"
    by (rule coalesced_mono [OF c(1)], use V us n in auto) (rule coalesced_mono [OF c(2)], use V vs in auto)
  then show "coalesced V (us @ a # n # b # vs)"
    using c(3) V [of a] V [of b] n coalesced_cut [of V us a "n # b # vs"] by auto
  have bl: "x \<in> set us" if "x \<in> set (butlast (us @ [a]))" for x using that by simp
  have e: "free_bytes V (us @ [a]) = free_bytes U (us @ [a])" "live_of V (us @ [a]) = live_of U (us @ [a])"
    by (rule free_bytes_cong live_of_cong, use V us bl in blast)+
  have f: "free_bytes V (b # vs) = free_bytes U (b # vs)" "live_of V (b # vs) = live_of U (b # vs)"
    by (rule free_bytes_cong live_of_cong, use V vs in \<open>blast dest: in_set_butlastD\<close>)+
  show "free_bytes U (us @ a # b # vs) = free_bytes V (us @ a # n # b # vs) + (sz + 24)"
    using e f V [of a] V [of n] co(2) n free_bytes_cut [of U us a "b # vs"] free_bytes_cut [of V us a "n # b # vs"] by simp
  show "live_of V (us @ a # n # b # vs) = live_of U (us @ [a]) @ (a + 24, sz) # live_of U (b # vs)"
    using e f V [of a] V [of n] n live_of_cut [of V us a "n # b # vs"] by simp
  show "live_of U (us @ a # b # vs) = live_of U (us @ [a]) @ live_of U (b # vs)"
    using co(2) live_of_cut [of U us a "b # vs"] by simp
qed

lemma alloc_split_rep:
  fixes us :: "addr list"
  assumes rep: "heap_rep m h (us @ a # b # vs) F" and fr: "\<not> is_used m a"
    and sz: "a + 24 + sz + 36 \<le> b" "4 dvd sz" "12 \<le> sz"
  defines "n \<equiv> a + sz + 24"
    and "m' \<equiv> upd_item a (\<lambda>i. i\<lparr>i_magic := i_magic i OR RT_MEMHEAP_USED\<rparr>) (alloc_split h a sz m)"
  shows "heap_rep m' h (us @ a # n # b # vs) (n # remove1 a F)"
    "is_used m' x \<longleftrightarrow> x \<noteq> n \<and> (x = a \<or> is_used m x)"
    "confined h (insert (free_header (heaps m h)) (set (us @ a # n # b # vs))) m m'"
proof -
  note ok = heap_repD(1) [OF rep] and fo = heap_repD(2) [OF rep]
  note bf = block_facts [OF ok refl] and fd = free_okD [OF fo ok]
  define hdr where "hdr = free_header (heaps m h)"
  have fl: "free_list (heaps m h) = hdr" using blocks_ok_ring(6) [OF ok] by (simp add: hdr_def)
  have n: "a + 36 \<le> n" "n + 36 \<le> b" "4 dvd n"
    using sz blocks_ok_bounds(5) [OF ok, of a] by (auto simp: n_def)
  have n32: "u32 (int a + int sz + int RT_MEMHEAP_SIZE) = n"
    using n(2) bf(5) by (intro u32_eqI) (auto simp: n_def)
  have d: "distinct (us @ a # b # vs)"
    using blocks_ok_ring(1,4) [OF ok] by (auto simp: ring_def simp del: distinct_append)
  have sp: "spaced (us @ [a])" "spaced (b # vs)"
    using blocks_ok_ring(2) [OF ok] spaced_cut [of us a "b # vs"] by auto
  have nin: "n \<notin> set (us @ a # b # vs)"
    using n spaced_before [OF sp(1), of n] spaced_less [OF sp(2), of n] by auto
  have aF: "a \<in> set F" using fr fd(2) by simp
  have bok: "blocks_ok (block_insert h a n m) h (us @ a # n # b # vs)" by (rule block_insert_ok [OF ok n])
  then have nh: "n \<noteq> hdr" using blocks_ok_bounds(7) [of "block_insert h a n m" h _ n] by (auto simp: hdr_def)
  define m1 where "m1 = free_unlink a (block_insert h a n m)"
  define m2 where "m2 = upd_item a (\<lambda>i. i\<lparr>i_next_free := 0, i_prev_free := 0\<rparr>) m1"
  define m3 where "m3 = free_insert h n m2"
  define N where "N = u32 (int (available_size (heaps m h)) - int sz - int RT_MEMHEAP_SIZE)"
  have m': "m' = upd_item a (\<lambda>i. i\<lparr>i_magic := i_magic i OR RT_MEMHEAP_USED\<rparr>) (note_used h (set_available h N m3))"
    unfolding m'_def alloc_split_def Let_def n32 m1_def m2_def m3_def N_def by simp
  show used: "is_used m' x \<longleftrightarrow> x \<noteq> n \<and> (x = a \<or> is_used m x)" for x
    using n(1) by (auto simp: m' m3_def m2_def m1_def)
  note sl = split_lists [OF heap_repD(4) [OF rep] fr blocks_ok_ring(2) [OF ok] n(1,2) meta_eq_to_obj_eq [OF n_def] used]
  have r: "ring (fview (block_insert h a n m)) hdr F"
    using fd(1) fview_same [of "block_insert h a n m" m] by (simp add: hdr_def)
  note ur = unlink_ring [OF r aF, folded m1_def]
  have r2: "ring (fview m2) hdr (remove1 a F)"
    by (rule ring_frame [OF ur(1)]) (use fd(3,4) aF fd(2) [of a] in \<open>auto simp: m2_def hdr_def\<close>)
  have nF: "n \<notin> set (hdr # remove1 a F)" using nin nh fd(2) [of n] set_remove1_subset [of a F] by auto
  have fl2: "free_list (heaps m2 h) = hdr" by (simp add: m2_def m1_def fl)
  note ir = insert_ring [OF r2 fl2 nF, folded m3_def]
  have fv: "fview m' = fview m3" by (rule fview_same) (simp_all add: m')
  have pl: "place (heaps m' h) = place (heaps m h)" by (simp add: m' m3_def m2_def m1_def)
  have "blocks_ok m' h (us @ a # n # b # vs)"
    by (rule blocks_ok_same [OF bok]) (use n(1) pl in \<open>auto simp: m' m3_def m2_def m1_def magic_ok_def split: if_splits\<close>)
  moreover have "set F = {x \<in> set (us @ a # b # vs). \<not> is_used m x}" using fo by (simp add: free_ok_def)
  then have "free_ok m' h (us @ a # n # b # vs) (n # remove1 a F)"
    using ir(1) fv fd(3) fr nin place_free [OF pl] unfolding free_ok_def used by (auto simp: hdr_def)
  moreover have "coalesced (is_used m') (us @ a # n # b # vs)" by (rule sl(1))
  moreover have "sizes_ok m' h (us @ a # n # b # vs)"
  proof -
    have b32: "available_size (heaps m h) < 4294967296"
      using heap_repD(3) [OF rep] free_bytes_pool [OF ok, of "is_used m"] pool_size_bound [OF ok] by (simp add: sizes_ok_def Let_def)
    have av: "available_size (heaps m h) = free_bytes (is_used m') (us @ a # n # b # vs) + (sz + 24)"
      using heap_repD(3) [OF rep] sl(2) by (simp add: sizes_ok_def Let_def)
    then have N: "N = available_size (heaps m h) - (sz + 24)" unfolding N_def using b32 by (intro u32_eqI) auto
    then have "N = free_bytes (is_used m') (us @ a # n # b # vs)" using av by simp
    then show ?thesis
      by (rule sizes_ok_take [OF ok heap_repD(3) [OF rep]])
        (simp_all add: N m' m3_def m2_def m1_def note_used_def set_available_def Let_def)
  qed
  ultimately show "heap_rep m' h (us @ a # n # b # vs) (n # remove1 a F)" by (simp add: heap_rep_def)
  define A where "A = insert hdr (set (us @ a # n # b # vs))"
  have sub: "set (hdr # F) \<subseteq> A" "set (hdr # remove1 a F) \<subseteq> A"
    using fd(2) set_remove1_subset [of a F] by (auto simp: A_def)
  have "confined h A m (block_insert h a n m)"
    by (rule confined_block_insert) (use n bf(1) in \<open>auto simp: A_def\<close>)
  moreover have "confined h A (block_insert h a n m) m1"
    unfolding m1_def by (rule confined_unlink) (use ur sub in auto)
  moreover have "confined h A m1 m2" unfolding m2_def by (rule confined_upd) (simp add: A_def)
  moreover have "confined h A m2 m3" unfolding m3_def
    by (rule confined_insert) (use fl2 ir(2) sub nh in \<open>auto simp: A_def\<close>)
  moreover have "confined h A m3 m'" unfolding m'
    by (rule confined_trans [OF confined_trans [OF confined_account(1) confined_account(2)] confined_upd]) (simp add: A_def)
  ultimately show "confined h (insert (free_header (heaps m h)) (set (us @ a # n # b # vs))) m m'"
    unfolding A_def hdr_def by (blast intro: confined_trans)
qed

lemma flip_lists:
  assumes sp: "spaced (us @ a # b # vs)" and V: "\<not> U a" "\<And>x. V x \<longleftrightarrow> x = a \<or> U x"
  shows "free_bytes U (us @ a # b # vs) = free_bytes V (us @ a # b # vs) + (b - a - 24)"
    "live_of V (us @ a # b # vs) = live_of U (us @ [a]) @ (a + 24, b - a - 24) # live_of U (b # vs)"
    "live_of U (us @ a # b # vs) = live_of U (us @ [a]) @ live_of U (b # vs)"
proof -
  have sp2: "spaced (us @ [a])" "spaced (a # b # vs)" using sp spaced_cut [of us a "b # vs"] by auto
  have us: "x \<noteq> a" if "x \<in> set us" for x using spaced_before [OF sp2(1) that] by auto
  have vs: "x \<noteq> a" if "x \<in> set (b # vs)" for x using spaced_less [OF sp2(2) that] by auto
  have e: "free_bytes V (us @ [a]) = free_bytes U (us @ [a])" "live_of V (us @ [a]) = live_of U (us @ [a])"
    by (rule free_bytes_cong live_of_cong, use V us in auto)+
  have f: "free_bytes V (b # vs) = free_bytes U (b # vs)" "live_of V (b # vs) = live_of U (b # vs)"
    by (rule free_bytes_cong live_of_cong, use V vs in \<open>blast dest: in_set_butlastD\<close>)+
  show "free_bytes U (us @ a # b # vs) = free_bytes V (us @ a # b # vs) + (b - a - 24)"
    using e f V(1) V(2) [of a] free_bytes_cut [of U us a "b # vs"] free_bytes_cut [of V us a "b # vs"] by simp
  show "live_of V (us @ a # b # vs) = live_of U (us @ [a]) @ (a + 24, b - a - 24) # live_of U (b # vs)"
    using e f V(2) [of a] live_of_cut [of V us a "b # vs"] by simp
  show "live_of U (us @ a # b # vs) = live_of U (us @ [a]) @ live_of U (b # vs)"
    using V(1) live_of_cut [of U us a "b # vs"] by simp
qed

lemma available_bound:
  assumes "heap_rep m h L F"
  shows "available_size (heaps m h) = free_bytes (is_used m) L" "available_size (heaps m h) < 4294967296"
  using heap_repD(3) [OF assms] free_bytes_pool [OF heap_repD(1) [OF assms], of "is_used m"]
    pool_size_bound [OF heap_repD(1) [OF assms]] by (auto simp: sizes_ok_def Let_def)

lemma alloc_whole_rep:
  fixes us :: "addr list"
  assumes rep: "heap_rep m h (us @ a # b # vs) F" and fr: "\<not> is_used m a"
  defines "m' \<equiv> upd_item a (\<lambda>i. i\<lparr>i_magic := i_magic i OR RT_MEMHEAP_USED\<rparr>) (alloc_whole h a (b - a - 24) m)"
  shows "heap_rep m' h (us @ a # b # vs) (remove1 a F)" "is_used m' x \<longleftrightarrow> x = a \<or> is_used m x"
    "confined h (insert (free_header (heaps m h)) (set (us @ a # b # vs))) m m'"
proof -
  note ok = heap_repD(1) [OF rep] and fo = heap_repD(2) [OF rep]
  note fd = free_okD [OF fo ok]
  define hdr where "hdr = free_header (heaps m h)"
  define A where "A = insert hdr (set (us @ a # b # vs))"
  define N where "N = u32 (int (available_size (heaps m h)) - int (b - a - 24))"
  define m1 where "m1 = note_used h (set_available h N m)"
  define m2 where "m2 = free_unlink a m1"
  have m': "m' = upd_item a (\<lambda>i. i\<lparr>i_magic := i_magic i OR RT_MEMHEAP_USED\<rparr>)
      (upd_item a (\<lambda>i. i\<lparr>i_next_free := 0, i_prev_free := 0\<rparr>) m2)"
    by (simp add: m'_def alloc_whole_def Let_def m1_def m2_def N_def)
  show used: "is_used m' x \<longleftrightarrow> x = a \<or> is_used m x" for x by (auto simp: m' m2_def m1_def)
  note wl = flip_lists [OF blocks_ok_ring(2) [OF ok], of "is_used m", OF fr used]
  have co: "coalesced (is_used m') (us @ a # b # vs)"
    by (rule coalesced_mono [OF heap_repD(4) [OF rep]]) (use used in auto)
  have aF: "a \<in> set F" using fr fd(2) by simp
  have r: "ring (fview m1) hdr F" using fd(1) fview_same [of m1 m] by (simp add: hdr_def m1_def)
  note ur = unlink_ring [OF r aF, folded m2_def]
  have r2: "ring (fview m') hdr (remove1 a F)"
    by (rule ring_frame [OF ur(1)]) (use fd(3,4) aF fd(2) [of a] in \<open>auto simp: m' hdr_def\<close>)
  have pl: "place (heaps m' h) = place (heaps m h)" by (simp add: m' m2_def m1_def)
  have bok: "blocks_ok m' h (us @ a # b # vs)"
    by (rule blocks_ok_same [OF ok pl]) (auto simp: m' m2_def m1_def magic_ok_def)
  have fok: "free_ok m' h (us @ a # b # vs) (remove1 a F)"
    using r2 fd(3) fo place_free [OF pl] unfolding free_ok_def used by (auto simp: hdr_def)
  have N: "N = free_bytes (is_used m') (us @ a # b # vs)"
    unfolding N_def using available_bound [OF rep] wl(1) by (intro u32_eqI) auto
  then have le: "N \<le> available_size (heaps m h)" using wl(1) available_bound(1) [OF rep] by simp
  have "sizes_ok m' h (us @ a # b # vs)"
    by (rule sizes_ok_take [OF ok heap_repD(3) [OF rep] N le]) (simp add: m' m2_def m1_def)
  then show "heap_rep m' h (us @ a # b # vs) (remove1 a F)" using bok fok co by (simp add: heap_rep_def)
  have sub: "set (hdr # F) \<subseteq> A" using fd(2) by (auto simp: A_def)
  have "confined h A m m1" unfolding m1_def by (rule confined_trans [OF confined_account(1) confined_account(2)])
  moreover have "confined h A m1 m2" unfolding m2_def by (rule confined_unlink) (use ur sub in auto)
  moreover have "confined h A m2 m'" unfolding m'
    by (rule confined_trans [OF confined_upd confined_upd]) (simp_all add: A_def)
  ultimately show "confined h (insert (free_header (heaps m h)) (set (us @ a # b # vs))) m m'"
    unfolding A_def hdr_def by (blast intro: confined_trans)
qed

text \<open>The lock and the error number are not part of the heap.\<close>

lemma lock_simps [simp]:
  "bview (m\<lparr>lock_takes := n\<rparr>) = bview m" "fview (m\<lparr>lock_takes := n\<rparr>) = fview m"
  "is_used (m\<lparr>lock_takes := n\<rparr>) = is_used m" "MEMITEM_SIZE (m\<lparr>lock_takes := n\<rparr>) = MEMITEM_SIZE m"
  "magic_ok (m\<lparr>lock_takes := n\<rparr>) = magic_ok m"
  "bview (m\<lparr>errno := e\<rparr>) = bview m" "fview (m\<lparr>errno := e\<rparr>) = fview m"
  "is_used (m\<lparr>errno := e\<rparr>) = is_used m" "magic_ok (m\<lparr>errno := e\<rparr>) = magic_ok m"
  "bview (m\<lparr>bytes := bs\<rparr>) = bview m" "fview (m\<lparr>bytes := bs\<rparr>) = fview m"
  "is_used (m\<lparr>bytes := bs\<rparr>) = is_used m" "magic_ok (m\<lparr>bytes := bs\<rparr>) = magic_ok m"
  by (simp_all add: bview_def fview_def is_used_def MEMITEM_SIZE_def magic_ok_def fun_eq_iff)

lemma heap_rep_lock [simp]:
  "heap_rep (m\<lparr>lock_takes := n\<rparr>) h L F = heap_rep m h L F" "heap_rep (m\<lparr>errno := e\<rparr>) h L F = heap_rep m h L F"
  "heap_rep (m\<lparr>bytes := bs\<rparr>) h L F = heap_rep m h L F"
  by (simp_all add: heap_rep_def blocks_ok_def free_ok_def sizes_ok_def)

lemma walk_spaced:
  assumes "\<And>us a b vs. L = us @ a # b # vs \<Longrightarrow> i_next (items m a) = b \<and> a < b"
    and "i_next (items m (last L)) \<le> last L"
  shows "L = us @ a # xs \<Longrightarrow> length xs \<le> n \<Longrightarrow> walk m a n = a # xs"
proof (induction n arbitrary: us a xs)
  case (Suc n)
  show ?case
  proof (cases xs)
    case Nil
    then show ?thesis using Suc.prems assms(2) by simp
  next
    case (Cons b ys)
    then have "i_next (items m a) = b" "a < b" using assms(1) [of us a b ys] Suc.prems by auto
    then show ?thesis using Suc.IH [of "us @ [a]" b ys] Suc.prems Cons by simp
  qed
qed simp

lemma spaced_length: "spaced (a # xs) \<Longrightarrow> a + 36 * length xs \<le> last (a # xs)"
proof (induction xs arbitrary: a)
  case (Cons b xs)
  then have "b + 36 * length xs \<le> last (b # xs)" by simp
  then show ?case using Cons.prems by simp
qed simp

lemma blocks_of_rep:
  assumes "heap_rep m h L F"
  shows "blocks_of m h = L"
proof -
  note ok = heap_repD(1) [OF assms]
  note ne = blocks_ok_ring [OF ok]
  obtain s bs where L: "L = s # bs" using ne(4) by (cases L) auto
  have s: "s = start_addr (heaps m h)" "last L + 24 = start_addr (heaps m h) + pool_size (heaps m h)"
    using ok L by (auto simp: blocks_ok_def Let_def)
  have "s + 36 * length bs \<le> last L" using spaced_length [of s bs] ne(2) L by simp
  then have len: "length bs \<le> pool_size (heaps m h)" using s by simp
  have "hd L # tl L @ [hd L] = butlast L @ last L # hd L # []" using ne(4) by simp
  from ring_link [OF ne(1) this] have "i_next (items m (last L)) = hd L" by simp
  moreover have "hd L \<le> last L" using spaced_last [of s bs] ne(2) L by simp
  ultimately have le: "i_next (items m (last L)) \<le> last L" by simp
  have "walk m s (pool_size (heaps m h)) = s # bs"
  proof (rule walk_spaced [where us = "[]", OF _ le _ len])
    fix us a b vs assume "L = us @ a # b # vs"
    then show "i_next (items m a) = b \<and> a < b" using block_facts(1,3) [OF ok, of us a b vs] by simp
  qed (simp add: L)
  then show ?thesis using s L by (simp add: blocks_of_def)
qed

lemma heap_okI: "heap_rep m h L F \<Longrightarrow> heap_ok m h"
  using blocks_of_rep by (auto simp: heap_ok_def)

lemma live_rep: "heap_rep m h L F \<Longrightarrow> live m h = map_of (live_of (is_used m) L)"
  using blocks_of_rep by (simp add: live_def)

lemma heap_okE:
  assumes "heap_ok m h"
  obtains L F where "heap_rep m h L F"
  using assms by (auto simp: heap_ok_def)

lemma heap_ok_lock [simp]:
  "heap_ok (m\<lparr>lock_takes := n\<rparr>) h = heap_ok m h" "heap_ok (m\<lparr>errno := e\<rparr>) h = heap_ok m h"
  "heap_ok (m\<lparr>bytes := bs\<rparr>) h = heap_ok m h"
  using heap_okI heap_rep_lock by (meson heap_okE)+

lemma live_lock [simp]:
  assumes "heap_ok m h"
  shows "live (m\<lparr>lock_takes := n\<rparr>) h = live m h" "live (m\<lparr>errno := e\<rparr>) h = live m h"
    "live (m\<lparr>bytes := bs\<rparr>) h = live m h"
  using assms by (auto elim!: heap_okE simp: live_rep)

lemma live_of_iff:
  "(p, n) \<in> set (live_of U L) \<longleftrightarrow> (\<exists>us a b vs. L = us @ a # b # vs \<and> U a \<and> p = a + 24 \<and> n = b - a - 24)"
proof (induction U L rule: live_of.induct)
  case (1 U a b xs)
  have "(\<exists>us c d vs. a # b # xs = us @ c # d # vs \<and> U c \<and> p = c + 24 \<and> n = d - c - 24) \<longleftrightarrow>
    (U a \<and> p = a + 24 \<and> n = b - a - 24) \<or> (\<exists>us c d vs. b # xs = us @ c # d # vs \<and> U c \<and> p = c + 24 \<and> n = d - c - 24)"
    (is "?l = (?x \<or> ?y)")
  proof
    assume ?l
    then obtain us c d vs where "a # b # xs = us @ c # d # vs" "U c \<and> p = c + 24 \<and> n = d - c - 24" by blast
    then show "?x \<or> ?y" by (cases us) auto
  next
    assume "?x \<or> ?y"
    then show ?l
    proof
      assume ?x
      then show ?l by (intro exI [of _ "[]"]) auto
    next
      assume ?y
      then obtain us c d vs where "b # xs = us @ c # d # vs" "U c \<and> p = c + 24 \<and> n = d - c - 24" by blast
      then show ?l by (intro exI [of _ "a # us"]) auto
    qed
  qed
  then show ?case using 1 by auto
qed auto

lemma live_of_keys: "set (map fst (live_of U L)) \<subseteq> (\<lambda>a. a + 24) ` {a \<in> set L. U a}"
  by (induction U L rule: live_of.induct) auto

lemma live_of_distinct: "distinct L \<Longrightarrow> distinct (map fst (live_of U L))"
proof (induction U L rule: live_of.induct)
  case (1 U a b xs)
  moreover have "a + 24 \<notin> set (map fst (live_of U (b # xs)))" using 1(3) live_of_keys [of U "b # xs"] by auto
  ultimately show ?case by auto
qed auto

lemma map_of_mid: "k \<notin> fst ` set xs \<Longrightarrow> map_of (xs @ (k, v) # ys) = (map_of (xs @ ys))(k \<mapsto> v)"
  by (induction xs) auto

lemma request_size_facts:
  "4 dvd request_size n" "12 \<le> request_size n" "request_size n < 4294967296"
  "n \<le> 4294967292 \<Longrightarrow> n \<le> request_size n \<and> request_size n < n + 12 + 4"
  by (auto simp: request_size_def RT_ALIGN_4 Let_def)

lemma request_size_bound: "n \<le> 4294967280 \<Longrightarrow> request_size n \<le> 4294967280"
  by (auto simp: request_size_def RT_ALIGN_4 Let_def)

lemma request_size_wraps: "4294967292 < n \<Longrightarrow> n < 4294967296 \<Longrightarrow> request_size n = 12"
proof -
  assume "4294967292 < n" "n < 4294967296"
  then have e: "n + 3 = (n - 4294967293) + 4294967296" "n - 4294967293 < 3" by auto
  then have "(n + 3) mod 4294967296 = n - 4294967293" unfolding e(1) mod_add_self2 using e(2) by (intro mod_less) linarith
  then have "(n + 3) mod 4294967296 div 4 = 0" using e(2) by simp
  then show ?thesis by (simp add: request_size_def RT_ALIGN_4 Let_def)
qed

definition territory :: "mem \<Rightarrow> addr \<Rightarrow> addr set" where
  "territory m h = insert (free_header (heaps m h))
     {x. start_addr (heaps m h) \<le> x \<and> x < start_addr (heaps m h) + pool_size (heaps m h)}"

lemma blocks_in_territory:
  assumes "blocks_ok m h L"
  shows "insert (free_header (heaps m h)) (set L) \<subseteq> territory m h"
  using blocks_ok_bounds(1,2) [OF assms] by (fastforce simp: territory_def)

lemma confined_mono: "confined h A m m' \<Longrightarrow> A \<subseteq> B \<Longrightarrow> confined h B m m'"
  by (auto simp: confined_def)

lemma confined_territory: "confined h A m m' \<Longrightarrow> territory m' h = territory m h"
  by (simp add: confined_def place_def territory_def)

lemma find_Some: "find P xs = Some x \<Longrightarrow> x \<in> set xs \<and> P x"
  by (induction xs) (auto split: if_splits)

text \<open>Allocation takes the first block of the free list that is large enough.\<close>

lemma alloc_unfold:
  fixes n :: nat
  assumes rep: "heap_rep m h L F" and lock: "lock_result m (lock_takes m) = RT_EOK"
  defines "sz \<equiv> request_size n" and "m1 \<equiv> m\<lparr>lock_takes := Suc (lock_takes m)\<rparr>"
  shows "rt_memheap_alloc h n m = Some
     (if sz < available_size (heaps m h)
      then (case find (\<lambda>a. sz \<le> MEMITEM_SIZE m a) F of
          None \<Rightarrow> (0, m1)
        | Some a \<Rightarrow> (u32 (int a + int RT_MEMHEAP_SIZE), upd_item a (\<lambda>i. i\<lparr>i_magic := i_magic i OR RT_MEMHEAP_USED\<rparr>)
            (if u32 (int sz + int RT_MEMHEAP_SIZE + int RT_MEMHEAP_MINIALLOC) \<le> MEMITEM_SIZE m a
             then alloc_split h a sz m1 else alloc_whole h a (MEMITEM_SIZE m a) m1)))
      else (0, m))"
proof -
  note ok = heap_repD(1) [OF rep]
  define hdr where "hdr = free_header (heaps m h)"
  have fl: "free_list (heaps m h) = hdr" using blocks_ok_ring(6) [OF ok] by (simp add: hdr_def)
  have r: "ring (fview m1) hdr ([] @ F)" using free_okD(1) [OF heap_repD(2) [OF rep] ok] by (simp add: hdr_def m1_def)
  obtain q qs where q: "F @ [hdr] = q # qs" by (cases "F @ [hdr]") auto
  have "i_next_free (items m1 hdr) = q" using ring_link [OF r, of "[]" hdr q qs] q by simp
  moreover have "hd (F @ [hdr]) = q" using q by simp
  moreover have "0 < sz" using request_size_facts(2) [of n] by (simp add: sz_def)
  ultimately have ff: "find_free m1 hdr sz (i_next_free (items m1 hdr)) 0 =
    Some (case find (\<lambda>a. sz \<le> MEMITEM_SIZE m1 a) F of Some a \<Rightarrow> (a, MEMITEM_SIZE m1 a)
      | None \<Rightarrow> (hdr, if F = [] then 0 else MEMITEM_SIZE m1 (last F)))"
    using find_free_first_fit [OF r, of 0 sz] by simp
  have none: "find (\<lambda>a. sz \<le> MEMITEM_SIZE m a) F = None \<Longrightarrow> F \<noteq> [] \<Longrightarrow> MEMITEM_SIZE m (last F) < sz"
    using last_in_set [of F] by (simp add: find_None_iff not_le)
  have ms: "MEMITEM_SIZE m1 = MEMITEM_SIZE m" "heaps m1 = heaps m" by (simp_all add: m1_def)
  show ?thesis
  proof (cases "find (\<lambda>a. sz \<le> MEMITEM_SIZE m a) F")
    case None
    then show ?thesis using none \<open>0 < sz\<close> lock fl
      by (cases "F = []") (simp_all add: rt_memheap_alloc_def take_lock_def sz_def [symmetric] m1_def [symmetric] ff ms Let_def)
  next
    case (Some a)
    moreover have "sz \<le> MEMITEM_SIZE m a" using find_Some [OF Some] by simp
    ultimately show ?thesis using lock fl
      by (simp add: rt_memheap_alloc_def take_lock_def sz_def [symmetric] m1_def [symmetric] ff ms Let_def)
  qed
qed

lemma live_iff:
  assumes "heap_rep m h L F"
  shows "live m h p = Some n \<longleftrightarrow> (\<exists>us a b vs. L = us @ a # b # vs \<and> is_used m a \<and> p = a + 24 \<and> n = b - a - 24)"
proof -
  have "distinct (hd L # tl L)" using blocks_ok_ring(1) [OF heap_repD(1) [OF assms]] by (simp add: ring_def)
  then have "distinct L" using blocks_ok_ring(4) [OF heap_repD(1) [OF assms]] by simp
  then show ?thesis
    by (simp add: live_rep [OF assms] map_of_eq_Some_iff live_of_distinct live_of_iff)
qed

lemma not_live:
  assumes "heap_rep m h L F" "\<not> is_used m a"
  shows "live m h (a + 24) = None"
  using live_iff [OF assms(1), of "a + 24"] assms(2) by (cases "live m h (a + 24)") auto

lemma live_insert:
  assumes "heap_rep m h L F" "heap_rep m' h L' F'" "live m h p = None"
    and "live_of (is_used m) L = xs @ ys" "live_of (is_used m') L' = xs @ (p, k) # ys"
  shows "live m' h = (live m h)(p \<mapsto> k)"
proof -
  have "p \<notin> fst ` set xs"
    using assms(1,3,4) by (auto simp: live_rep map_add_def map_of_eq_None_iff split: option.splits)
  then show ?thesis using assms by (simp add: live_rep map_of_mid del: map_of_append)
qed

lemma rt_memheap_alloc_fit:
  fixes n :: nat
  assumes rep: "heap_rep m h L F" and lock: "lock_result m (lock_takes m) = RT_EOK"
    and sz: "sz = request_size n" "sz < available_size (heaps m h)"
    and fit: "find (\<lambda>a. sz \<le> MEMITEM_SIZE m a) F = Some a"
  obtains m' L' F' k where "rt_memheap_alloc h n m = Some (a + 24, m')" "heap_rep m' h L' F'"
    "sz \<le> k" "k < sz + 36" "live m h (a + 24) = None" "live m' h = (live m h)(a + 24 \<mapsto> k)"
    "confined h (territory m h) m m'"
proof -
  note ok = heap_repD(1) [OF rep] and fo = heap_repD(2) [OF rep]
  define m1 where "m1 = m\<lparr>lock_takes := Suc (lock_takes m)\<rparr>"
  have rep1: "heap_rep m1 h L F" using rep by (simp add: m1_def)
  have us1: "is_used m1 = is_used m" and te1: "territory m1 h = territory m h"
    by (simp_all add: m1_def territory_def)
  have li1: "live m1 h = live m h" unfolding m1_def by (rule live_lock [OF heap_okI [OF rep]])
  have c1: "confined h (territory m h) m m1" by (simp add: confined_def m1_def)
  have a: "a \<in> set L" "\<not> is_used m a" "sz \<le> MEMITEM_SIZE m a" using find_Some [OF fit] free_okD(2) [OF fo ok] by auto
  then obtain us b vs where L: "L = us @ a # b # vs" using blocks_ok_ring(3) [OF ok] by (metis block_split)
  note bf = block_facts [OF ok L]
  have aus: "\<not> is_used m1 a" using a(2) us1 by simp
  have rf: "4 dvd sz" "12 \<le> sz" using request_size_facts [of n] sz(1) by simp_all
  have p: "u32 (int a + int RT_MEMHEAP_SIZE) = a + 24" using bf by (intro u32_eqI) auto
  have s36: "u32 (int sz + int RT_MEMHEAP_SIZE + int RT_MEMHEAP_MINIALLOC) = sz + 36"
    using bf a(3) by (intro u32_eqI) auto
  note un = alloc_unfold [OF rep lock, of n, folded sz(1) m1_def, unfolded fit option.case p s36]
  note nl = not_live [OF rep a(2)]
  have rp1: "heap_rep m1 h (us @ a # b # vs) F" using rep1 L by simp
  note ok1 = heap_repD(1) [OF rp1]
  show thesis
  proof (cases "sz + 36 \<le> MEMITEM_SIZE m a")
    case True
    define m' where "m' = upd_item a (\<lambda>i. i\<lparr>i_magic := i_magic i OR RT_MEMHEAP_USED\<rparr>) (alloc_split h a sz m1)"
    have le: "a + 24 + sz + 36 \<le> b" using True bf by simp
    note sp = alloc_split_rep [OF rp1 aus le rf, folded m'_def]
    have n: "a + 36 \<le> a + sz + 24" "a + sz + 24 + 36 \<le> b" using le rf by auto
    note sl = split_lists [OF heap_repD(4) [OF rp1] aus blocks_ok_ring(2) [OF ok1] n refl sp(2)]
    have "live m' h = (live m1 h)(a + 24 \<mapsto> sz)"
      by (rule live_insert [OF rp1 sp(1)]) (use nl li1 sl(3,4) in simp_all)
    moreover have "confined h (territory m h) m1 m'"
      using confined_mono [OF sp(3)] blocks_in_territory [OF heap_repD(1) [OF sp(1)]]
        confined_territory [OF sp(3)] te1 sp(3) by (auto simp: confined_def place_def)
    moreover have "rt_memheap_alloc h n m = Some (a + 24, m')" using un sz(2) True by (simp add: m'_def)
    ultimately show thesis using that [OF _ sp(1), of sz] nl li1 confined_trans [OF c1] by simp
  next
    case False
    define m' where "m' = upd_item a (\<lambda>i. i\<lparr>i_magic := i_magic i OR RT_MEMHEAP_USED\<rparr>) (alloc_whole h a (b - a - 24) m1)"
    note wh = alloc_whole_rep [OF rp1 aus, folded m'_def]
    note wl = flip_lists [OF blocks_ok_ring(2) [OF ok1], of "is_used m1", OF aus wh(2)]
    have "live m' h = (live m1 h)(a + 24 \<mapsto> b - a - 24)"
      by (rule live_insert [OF rp1 wh(1)]) (use nl li1 wl(2,3) in simp_all)
    moreover have "confined h (territory m h) m1 m'"
      using confined_mono [OF wh(3)] blocks_in_territory [OF ok1] te1 by simp
    moreover have "rt_memheap_alloc h n m = Some (a + 24, m')" using un sz(2) False bf(4) by (simp add: m'_def)
    ultimately show thesis using that [OF _ wh(1), of "b - a - 24"] nl li1 confined_trans [OF c1] False a(3) bf(4) by simp
  qed
qed

section \<open>Release\<close>

text \<open>While a block is being given back, the invariant holds except around that block \<open>x\<close>.\<close>

definition freeing :: "mem \<Rightarrow> addr \<Rightarrow> addr list \<Rightarrow> addr list \<Rightarrow> addr \<Rightarrow> bool" where
  "freeing m h L F x \<longleftrightarrow> blocks_ok m h L \<and> sizes_ok m h L \<and> ring (fview m) (free_header (heaps m h)) F \<and>
     x \<in> set L \<and> \<not> is_used m x \<and> coalesced (\<lambda>y. y = x \<or> is_used m y) L \<and>
     set F - {x} = {y \<in> set L. \<not> is_used m y} - {x}"

lemma freeingD:
  assumes "freeing m h L F x"
  shows "blocks_ok m h L" "sizes_ok m h L" "ring (fview m) (free_header (heaps m h)) F" "x \<in> set L" "\<not> is_used m x"
    "coalesced (\<lambda>y. y = x \<or> is_used m y) L" "set F - {x} = {y \<in> set L. \<not> is_used m y} - {x}"
  using assms by (simp_all add: freeing_def)

lemma distinct_blocks: "blocks_ok m h L \<Longrightarrow> distinct L"
  using blocks_ok_ring(1,4) [of m h L] by (cases L) (simp_all add: ring_def)

text \<open>Two adjacent free blocks become one: the second header disappears.\<close>

lemma delete_lists:
  assumes "spaced (us @ p # n # c # vs)" "\<not> U p" "\<not> U n"
  shows "free_bytes U (us @ p # c # vs) = free_bytes U (us @ p # n # c # vs) + 24"
    "live_of U (us @ p # c # vs) = live_of U (us @ p # n # c # vs)"
proof -
  have "spaced (p # n # c # vs)" using assms(1) spaced_cut [of us p "n # c # vs"] by simp
  then have "p + 36 \<le> n" "n + 36 \<le> c" by auto
  then show "free_bytes U (us @ p # c # vs) = free_bytes U (us @ p # n # c # vs) + 24"
    using assms(2,3) free_bytes_cut [of U us p "c # vs"] free_bytes_cut [of U us p "n # c # vs"] by simp
  show "live_of U (us @ p # c # vs) = live_of U (us @ p # n # c # vs)"
    using assms(2,3) live_of_cut [of U us p "c # vs"] live_of_cut [of U us p "n # c # vs"] by simp
qed

lemma merge_freeing:
  assumes fr: "freeing m h (us @ p # n # c # vs) F x" "x = p \<or> x = n" "\<not> is_used m p" "\<not> is_used m n"
    and heap: "heaps m' h = (heaps m h)\<lparr>available_size := u32 (int (available_size (heaps m h)) + int RT_MEMHEAP_SIZE)\<rparr>"
    and ptr: "\<And>y. y \<noteq> n \<Longrightarrow> i_next (items m' y) = (if y = p then c else i_next (items m y))"
      "\<And>y. y \<noteq> n \<Longrightarrow> i_prev (items m' y) = (if y = c then p else i_prev (items m y))"
    and flags: "\<And>y. magic_ok m' h y = magic_ok m h y" "is_used m' = is_used m"
    and F': "ring (fview m') (free_header (heaps m h)) F'" "set F' = set F - {n}"
  shows "freeing m' h (us @ p # c # vs) F' p"
    "live_of (is_used m') (us @ p # c # vs) = live_of (is_used m) (us @ p # n # c # vs)"
proof -
  note fd = freeingD [OF fr(1)]
  note d = distinct_blocks [OF fd(1)]
  have pl: "place (heaps m' h) = place (heaps m h)" by (simp add: heap place_def)
  have bok: "blocks_ok m' h (us @ p # c # vs)"
    by (rule block_delete_ok [OF fd(1) pl ptr flags(1)]) (simp_all add: flags(2))
  note dl = delete_lists [OF blocks_ok_ring(2) [OF fd(1)], of "is_used m", OF fr(3,4)]
  then show "live_of (is_used m') (us @ p # c # vs) = live_of (is_used m) (us @ p # n # c # vs)" by (simp add: flags(2))
  have av: "available_size (heaps m h) = free_bytes (is_used m) (us @ p # n # c # vs)"
    using fd(2) by (simp add: sizes_ok_def Let_def)
  have "u32 (int (available_size (heaps m h)) + int RT_MEMHEAP_SIZE) = free_bytes (is_used m') (us @ p # c # vs)"
    using av dl(1) free_bytes_pool [OF bok, of "is_used m"] pool_size_bound [OF bok] flags(2) by (intro u32_eqI) auto
  with heap have hp: "heaps m' h = (heaps m h)\<lparr>available_size := free_bytes (is_used m') (us @ p # c # vs)\<rparr>" by simp
  have "sizes_ok m' h (us @ p # c # vs)"
    by (rule sizes_ok_give [OF fd(2) refl _ hp]) (use av dl(1) flags(2) in simp)
  moreover have "coalesced (\<lambda>y. y = p \<or> is_used m y) (us @ p # c # vs)"
  proof -
    have cc: "coalesced (\<lambda>y. y = x \<or> is_used m y) (us @ [p])" "coalesced (\<lambda>y. y = x \<or> is_used m y) (c # vs)"
      using fd(6) coalesced_cut [of _ us p "n # c # vs"] by auto
    have "coalesced (\<lambda>y. y = p \<or> is_used m y) (us @ [p])" by (rule coalesced_mono [OF cc(1)]) (use fr(2) d in auto)
    moreover have "coalesced (\<lambda>y. y = p \<or> is_used m y) (c # vs)" by (rule coalesced_mono [OF cc(2)]) (use fr(2) d in auto)
    ultimately show ?thesis using coalesced_cut [of _ us p "c # vs"] by auto
  qed
  moreover have "set F' - {p} = {y \<in> set (us @ p # c # vs). \<not> is_used m' y} - {p}"
  proof -
    have "set F' - {p} = (set F - {x}) - {n, p}" using F'(2) fr(2) by auto
    also have "\<dots> = {y \<in> set (us @ p # n # c # vs). \<not> is_used m y} - {n, p}" using fd(7) fr(2) by auto
    also have "\<dots> = {y \<in> set (us @ p # c # vs). \<not> is_used m' y} - {p}" using d by (auto simp: flags(2))
    finally show ?thesis .
  qed
  ultimately show "freeing m' h (us @ p # c # vs) F' p"
    using bok fr(3) F'(1) place_free [OF pl] by (simp add: freeing_def flags(2))
qed

lemma settle:
  assumes "coalesced (\<lambda>y. y = x \<or> U y) (us @ x # b # vs)" "distinct (us @ x # b # vs)"
    and "us \<noteq> [] \<Longrightarrow> U (last us)" "U b"
  shows "coalesced U (us @ x # b # vs)"
proof -
  have c: "coalesced (\<lambda>y. y = x \<or> U y) (us @ [x])" "coalesced (\<lambda>y. y = x \<or> U y) (b # vs)"
    using assms(1) coalesced_cut [of _ us x "b # vs"] by auto
  have "coalesced U (us @ [x])"
  proof (cases us rule: rev_cases)
    case (snoc ws u)
    then have "coalesced (\<lambda>y. y = x \<or> U y) (ws @ [u])" using c(1) coalesced_cut [of _ ws u "[x]"] by simp
    then have "coalesced U (ws @ [u])" by (rule coalesced_mono) (use assms(2) snoc in auto)
    then show ?thesis using snoc assms(3) coalesced_cut [of U ws u "[x]"] by simp
  qed simp
  moreover have "coalesced U (b # vs)" by (rule coalesced_mono [OF c(2)]) (use assms(2) in auto)
  ultimately show ?thesis using assms(4) coalesced_cut [of U us x "b # vs"] by simp
qed

lemma freeing_done:
  assumes fr: "freeing m h (us @ x # b # vs) F x" and nb: "us \<noteq> [] \<Longrightarrow> is_used m (last us)" "is_used m b"
  shows "x \<in> set F \<Longrightarrow> heap_rep m h (us @ x # b # vs) F"
    "x \<notin> set F \<Longrightarrow> heap_rep (free_insert h x m) h (us @ x # b # vs) (x # F)"
    "i_next_free (items m (free_header (heaps m h))) \<in> set (free_header (heaps m h) # F)"
proof -
  note fd = freeingD [OF fr]
  have co: "coalesced (is_used m) (us @ x # b # vs)"
    by (rule settle [OF fd(6) distinct_blocks [OF fd(1)]]) (use nb in auto)
  have ff: "set F \<union> {x} = {y \<in> set (us @ x # b # vs). \<not> is_used m y}" using fd(5,7) by auto
  show "heap_rep m h (us @ x # b # vs) F" if "x \<in> set F"
    using that fd co ff by (auto simp: heap_rep_def free_ok_def)
  have xh: "x \<noteq> free_header (heaps m h)" using blocks_ok_bounds(7) [OF fd(1,4)] .
  show "heap_rep (free_insert h x m) h (us @ x # b # vs) (x # F)" if "x \<notin> set F"
  proof -
    have "ring (fview (free_insert h x m)) (free_header (heaps m h)) (x # F)"
      by (rule insert_ring(1) [OF fd(3) blocks_ok_ring(6) [OF fd(1)]]) (use xh that in auto)
    moreover have "blocks_ok (free_insert h x m) h (us @ x # b # vs)"
      by (rule blocks_ok_same [OF fd(1)]) (simp_all add: magic_ok_def)
    moreover have us: "is_used (free_insert h x m) = is_used m" by (simp add: fun_eq_iff)
    ultimately show ?thesis using co fd(2) ff by (auto simp: heap_rep_def free_ok_def sizes_ok_def us)
  qed
  obtain q qs where q: "F @ [free_header (heaps m h)] = q # qs" by (cases "F @ [free_header (heaps m h)]") auto
  then have "i_next_free (items m (free_header (heaps m h))) = q"
    using ring_link [OF fd(3), of "[]" "free_header (heaps m h)" q qs] by simp
  moreover have "q \<in> set (F @ [free_header (heaps m h)])" using q by simp
  ultimately show "i_next_free (items m (free_header (heaps m h))) \<in> set (free_header (heaps m h) # F)" by simp
qed

lemma mark_freeing:
  fixes us :: "addr list"
  assumes rep: "heap_rep m h (us @ a # b # vs) F" and us: "is_used m a"
  defines "m1 \<equiv> upd_item a (\<lambda>i. i\<lparr>i_magic := i_magic i AND NOT RT_MEMHEAP_USED\<rparr>) m"
  defines "m2 \<equiv> set_available h (u32 (int (available_size (heaps m1 h)) + int (MEMITEM_SIZE m1 a))) m1"
  shows "freeing m2 h (us @ a # b # vs) F a" "a \<notin> set F" "is_used m2 x \<longleftrightarrow> x \<noteq> a \<and> is_used m x"
    "live_of (is_used m) (us @ a # b # vs) = live_of (is_used m2) (us @ [a]) @ (a + 24, b - a - 24) # live_of (is_used m2) (b # vs)"
    "live_of (is_used m2) (us @ a # b # vs) = live_of (is_used m2) (us @ [a]) @ live_of (is_used m2) (b # vs)"
    "confined h (set (us @ a # b # vs)) m m2"
proof -
  note ok = heap_repD(1) [OF rep] and fo = heap_repD(2) [OF rep]
  note bf = block_facts [OF ok refl] and fd = free_okD [OF fo ok]
  note d = distinct_blocks [OF ok]
  show used: "is_used m2 x \<longleftrightarrow> x \<noteq> a \<and> is_used m x" for x by (simp add: m2_def m1_def)
  then have bk: "is_used m x \<longleftrightarrow> x = a \<or> is_used m2 x" for x using us by auto
  show aF: "a \<notin> set F" using us fd(2) by simp
  note fl = flip_lists [OF blocks_ok_ring(2) [OF ok], of "is_used m2" "is_used m", OF _ bk]
  show "live_of (is_used m) (us @ a # b # vs) = live_of (is_used m2) (us @ [a]) @ (a + 24, b - a - 24) # live_of (is_used m2) (b # vs)"
    "live_of (is_used m2) (us @ a # b # vs) = live_of (is_used m2) (us @ [a]) @ live_of (is_used m2) (b # vs)"
    by (rule fl, simp add: used)+
  have ms: "MEMITEM_SIZE m1 a = b - a - 24" using bf(4) by (simp add: MEMITEM_SIZE_def m1_def)
  have sum: "available_size (heaps m h) + (b - a - 24) = free_bytes (is_used m2) (us @ a # b # vs)"
    using fl(1) available_bound(1) [OF rep] by (simp add: used)
  then have "u32 (int (available_size (heaps m1 h)) + int (MEMITEM_SIZE m1 a)) = free_bytes (is_used m2) (us @ a # b # vs)"
    using free_bytes_pool [OF ok, of "is_used m2"] pool_size_bound [OF ok] unfolding ms by (intro u32_eqI) (auto simp: m1_def)
  then have hp: "heaps m2 h = (heaps m h)\<lparr>available_size := free_bytes (is_used m2) (us @ a # b # vs)\<rparr>"
    by (simp add: m2_def set_available_def m1_def)
  have pl: "place (heaps m2 h) = place (heaps m h)" by (simp add: hp place_def)
  have la: "last (us @ a # b # vs) \<noteq> a" using d by auto
  have "blocks_ok m2 h (us @ a # b # vs)"
    by (rule blocks_ok_same [OF ok pl]) (use used la in \<open>simp_all add: m2_def m1_def magic_ok_def\<close>)
  moreover have "sizes_ok m2 h (us @ a # b # vs)"
    by (rule sizes_ok_give [OF heap_repD(3) [OF rep] refl _ hp]) (use sum in simp)
  moreover have "ring (fview m2) (free_header (heaps m2 h)) F"
    using fd(1) fview_same [of m2 m] place_free [OF pl] by (simp add: m2_def m1_def)
  moreover have "(\<lambda>y. y = a \<or> is_used m2 y) = is_used m" using bk by (simp add: fun_eq_iff)
  moreover have "set F = {x \<in> set (us @ a # b # vs). \<not> is_used m x}" using fo by (simp add: free_ok_def)
  ultimately show "freeing m2 h (us @ a # b # vs) F a"
    using heap_repD(4) [OF rep] used by (auto simp: freeing_def)
  show "confined h (set (us @ a # b # vs)) m m2" unfolding m2_def m1_def
    by (rule confined_trans [OF confined_upd confined_account(1)]) simp
qed

lemma merge_left_freeing:
  assumes fr: "freeing m h (us @ p # a # b # vs) F a" and p: "\<not> is_used m p" and aF: "a \<notin> set F"
  obtains m' where "merge_left h a m = (p, m')" "freeing m' h (us @ p # b # vs) F p" "p \<in> set F"
    "live_of (is_used m') (us @ p # b # vs) = live_of (is_used m) (us @ p # a # b # vs)"
    "is_used m' = is_used m" "confined h (set (us @ p # a # b # vs)) m m'"
proof -
  note fd = freeingD [OF fr]
  note d = distinct_blocks [OF fd(1)]
  have e: "us @ p # a # b # vs = (us @ [p]) @ a # b # vs" by simp
  have pa: "i_prev (items m a) = p" using block_facts(2) [OF fd(1) refl] .
  have ab: "i_next (items m a) = b" using block_facts(1) [OF fd(1) e] .
  have ne: "p \<noteq> a" "p \<noteq> b" "a \<noteq> b" using d by auto
  define m' where "m' = upd_item b (\<lambda>i. i\<lparr>i_prev := p\<rparr>) (upd_item p (\<lambda>i. i\<lparr>i_next := b\<rparr>)
      (set_available h (u32 (int (available_size (heaps m h)) + int RT_MEMHEAP_SIZE)) m))"
  have mp: "merge_left h a m = (p, m')" using ne by (simp add: m'_def merge_left_def Let_def pa ab)
  have pF: "p \<in> set F" using fd(7) p ne by auto
  have used: "is_used m' = is_used m" by (simp add: fun_eq_iff is_used_def m'_def)
  have heap: "heaps m' h = (heaps m h)\<lparr>available_size := u32 (int (available_size (heaps m h)) + int RT_MEMHEAP_SIZE)\<rparr>"
    by (simp add: m'_def set_available_def)
  have ptr: "i_next (items m' y) = (if y = p then b else i_next (items m y))"
    "i_prev (items m' y) = (if y = b then p else i_prev (items m y))" for y by (auto simp: m'_def)
  have mg: "magic_ok m' h y = magic_ok m h y" for y by (auto simp: m'_def magic_ok_def)
  have r: "ring (fview m') (free_header (heaps m h)) F" using fd(3) fview_same [of m' m] by (simp add: m'_def)
  have F: "set F = set F - {a}" using aF by simp
  note mf = merge_freeing [OF fr disjI2 [OF refl] p fd(5) heap ptr mg used r F]
  have "confined h (set (us @ p # a # b # vs)) m m'" unfolding m'_def
    by (rule confined_trans [OF confined_trans [OF confined_account(1) confined_upd] confined_upd]) simp_all
  then show thesis using that [OF mp mf(1) pF mf(2) used] by blast
qed

lemma merge_right_freeing:
  assumes fr: "freeing m h (us @ x # n # c # vs) F x" and n: "\<not> is_used m n"
  defines "m' \<equiv> merge_right h x m"
  shows "freeing m' h (us @ x # c # vs) (remove1 n F) x"
    "live_of (is_used m') (us @ x # c # vs) = live_of (is_used m) (us @ x # n # c # vs)"
    "is_used m' = is_used m"
    "confined h (insert (free_header (heaps m h)) (set (us @ x # n # c # vs))) m m'"
proof -
  note fd = freeingD [OF fr]
  note d = distinct_blocks [OF fd(1)]
  have e: "us @ x # n # c # vs = (us @ [x]) @ n # c # vs" by simp
  have xn: "i_next (items m x) = n" using block_facts(1) [OF fd(1) refl] .
  have nc: "i_next (items m n) = c" using block_facts(1) [OF fd(1) e] .
  have ne: "x \<noteq> n" "x \<noteq> c" "n \<noteq> c" using d by auto
  define m3 where "m3 = upd_item x (\<lambda>i. i\<lparr>i_next := c\<rparr>) (upd_item c (\<lambda>i. i\<lparr>i_prev := x\<rparr>)
      (set_available h (u32 (int (available_size (heaps m h)) + int RT_MEMHEAP_SIZE)) m))"
  have m': "m' = free_unlink n m3" using ne by (simp add: m'_def m3_def merge_right_def Let_def xn nc)
  have nF: "n \<in> set F" using fd(7) n ne by auto
  have dF: "distinct F" using fd(3) by (simp add: ring_def)
  show used: "is_used m' = is_used m" by (simp add: fun_eq_iff is_used_def m' m3_def)
  have heap: "heaps m' h = (heaps m h)\<lparr>available_size := u32 (int (available_size (heaps m h)) + int RT_MEMHEAP_SIZE)\<rparr>"
    by (simp add: m' m3_def set_available_def)
  have ptr: "i_next (items m' y) = (if y = x then c else i_next (items m y))"
    "i_prev (items m' y) = (if y = c then x else i_prev (items m y))" for y by (auto simp: m' m3_def)
  have mg: "magic_ok m' h y = magic_ok m h y" for y by (auto simp: m' m3_def magic_ok_def)
  have r: "ring (fview m3) (free_header (heaps m h)) F" using fd(3) fview_same [of m3 m] by (simp add: m3_def)
  note ur = unlink_ring [OF r nF, folded m']
  have F: "set (remove1 n F) = set F - {n}" using dF by simp
  note mf = merge_freeing [OF fr disjI1 [OF refl] fd(5) n heap ptr mg used ur(1) F]
  then show "freeing m' h (us @ x # c # vs) (remove1 n F) x"
    "live_of (is_used m') (us @ x # c # vs) = live_of (is_used m) (us @ x # n # c # vs)" by auto
  define A where "A = insert (free_header (heaps m h)) (set (us @ x # n # c # vs))"
  have sub: "set (free_header (heaps m h) # F) \<subseteq> A" using fd(4,7) by (auto simp: A_def)
  have "confined h A m m3" unfolding m3_def
    by (rule confined_trans [OF confined_trans [OF confined_account(1) confined_upd] confined_upd]) (simp_all add: A_def)
  moreover have "confined h A m3 m'" unfolding m' by (rule confined_unlink) (use ur sub in auto)
  ultimately show "confined h (insert (free_header (heaps m h)) (set (us @ x # n # c # vs))) m m'"
    unfolding A_def by (rule confined_trans)
qed

lemma coalesced_at: "coalesced U (us @ a # b # vs) \<Longrightarrow> U a \<or> U b"
  using coalesced_cut [of U us a "b # vs"] by simp

text \<open>The state after the left merge, whether it happened or not.\<close>

lemma free_left:
  assumes fr: "freeing m h (us @ a # b # vs) F a" and aF: "a \<notin> set F"
    and co: "coalesced U (us @ a # b # vs)" "\<And>y. y \<noteq> a \<Longrightarrow> U y = is_used m y"
  obtains ws x m' where
    "(if \<not> is_used m (i_prev (items m a)) then merge_left h a m else (a, m)) = (x, m')"
    "freeing m' h (ws @ x # b # vs) F x" "ws \<noteq> [] \<Longrightarrow> is_used m (last ws)"
    "x \<in> set F \<longleftrightarrow> \<not> is_used m (i_prev (items m a))" "is_used m' = is_used m"
    "live_of (is_used m') (ws @ x # b # vs) = live_of (is_used m) (us @ a # b # vs)"
    "confined h (set (us @ a # b # vs)) m m'" "set (ws @ x # b # vs) \<subseteq> set (us @ a # b # vs)"
proof (cases us rule: rev_cases)
  case Nil
  have "i_prev (items m a) = last (us @ a # b # vs)"
    using bring_wrap [OF blocks_ok_ring(1) [OF freeingD(1) [OF fr]]] Nil by simp
  then have "is_used m (i_prev (items m a))" using blocks_ok_ring(3) [OF freeingD(1) [OF fr]] by simp
  then show thesis using that [of a m us] fr aF Nil confined_refl by simp
next
  case (snoc ws p)
  have e: "us @ a # b # vs = ws @ p # a # b # vs" using snoc by simp
  have d: "distinct (ws @ p # a # b # vs)" using distinct_blocks [OF freeingD(1) [OF fr]] e by simp
  have pa: "i_prev (items m a) = p" using block_facts(2) [OF freeingD(1) [OF fr] e] .
  show thesis
  proof (cases "is_used m p")
    case True
    then show thesis using that [of a m us] fr aF snoc pa confined_refl by simp
  next
    case False
    obtain m' where m': "merge_left h a m = (p, m')" "freeing m' h (ws @ p # b # vs) F p" "p \<in> set F"
      "live_of (is_used m') (ws @ p # b # vs) = live_of (is_used m) (ws @ p # a # b # vs)"
      "is_used m' = is_used m" "confined h (set (ws @ p # a # b # vs)) m m'"
      using merge_left_freeing [OF fr [unfolded e] False aF] by blast
    have lw: "is_used m (last ws)" if "ws \<noteq> []"
    proof -
      obtain zs w where w: "ws = zs @ [w]" using \<open>ws \<noteq> []\<close> by (cases ws rule: rev_cases) auto
      have "coalesced U (zs @ w # p # a # b # vs)" using co(1) unfolding e w by simp
      then have "U w \<or> U p" by (rule coalesced_at)
      moreover have "\<not> U p" "w \<noteq> a" using False co(2) [of p] d w by auto
      ultimately show ?thesis using co(2) [of w] w by simp
    qed
    show thesis
    proof (rule that [of p m' ws])
      show "(if \<not> is_used m (i_prev (items m a)) then merge_left h a m else (a, m)) = (p, m')"
        using m'(1) pa False by simp
      show "p \<in> set F \<longleftrightarrow> \<not> is_used m (i_prev (items m a))" using m'(3) pa False by simp
      show "live_of (is_used m') (ws @ p # b # vs) = live_of (is_used m) (us @ a # b # vs)"
        "confined h (set (us @ a # b # vs)) m m'" "set (ws @ p # b # vs) \<subseteq> set (us @ a # b # vs)"
        using m'(4,6) by (simp_all add: e) auto
      show "freeing m' h (ws @ p # b # vs) F p" "is_used m' = is_used m" by (rule m'(2), rule m'(5))
    qed (rule lw)
  qed
qed

text \<open>The state after both merges.\<close>

lemma free_right:
  assumes fr: "freeing m h (ws @ x # b # vs) F x" and nb: "ws \<noteq> [] \<Longrightarrow> is_used m (last ws)"
    and co: "\<And>c zs. vs = c # zs \<Longrightarrow> is_used m b \<or> is_used m c"
  defines "m' \<equiv> (if \<not> is_used m (i_next (items m x)) then merge_right h x m else m)"
  obtains c zs F' where "freeing m' h (ws @ x # c # zs) F' x" "ws \<noteq> [] \<Longrightarrow> is_used m' (last ws)" "is_used m' c"
    "x \<in> set F' \<longleftrightarrow> x \<in> set F" "is_used m' = is_used m"
    "live_of (is_used m') (ws @ x # c # zs) = live_of (is_used m) (ws @ x # b # vs)"
    "confined h (insert (free_header (heaps m h)) (set (ws @ x # b # vs))) m m'"
    "set (ws @ x # c # zs) \<subseteq> set (ws @ x # b # vs)"
proof (cases "is_used m b")
  note xb = block_facts(1) [OF freeingD(1) [OF fr] refl]
  case True
  then show thesis using that [of b vs F] fr nb confined_refl xb by (simp add: m'_def)
next
  note xb = block_facts(1) [OF freeingD(1) [OF fr] refl]
  case False
  have "vs \<noteq> []" using blocks_ok_ring(3) [OF freeingD(1) [OF fr]] False by auto
  then obtain c zs where vs: "vs = c # zs" by (cases vs) auto
  note mr = merge_right_freeing [OF fr [unfolded vs] False]
  have e: "m' = merge_right h x m" using False xb by (simp add: m'_def)
  have "x \<noteq> b" using distinct_blocks [OF freeingD(1) [OF fr]] by auto
  moreover have "is_used m c" using co [OF vs] False by simp
  ultimately show thesis using that [of c zs "remove1 b F"] mr nb vs unfolding e by auto
qed

lemma rt_memheap_free_rep:
  assumes rep: "heap_rep m h L F" and L: "L = us @ a # b # vs" and us: "is_used m a"
    and lock: "lock_result m (lock_takes m) = RT_EOK"
  obtains m' L' F' where "rt_memheap_free (a + 24) m = Some m'" "heap_rep m' h L' F'"
    "live m' h = (live m h)(a + 24 := None)" "confined h (territory m h) m m'"
proof -
  define m0 where "m0 = m\<lparr>lock_takes := Suc (lock_takes m)\<rparr>"
  have rep0: "heap_rep m0 h (us @ a # b # vs) F" and us0: "is_used m0 a" using rep L us by (simp_all add: m0_def)
  note ok = heap_repD(1) [OF rep] and ok0 = heap_repD(1) [OF rep0]
  define m1 where "m1 = upd_item a (\<lambda>i. i\<lparr>i_magic := i_magic i AND NOT RT_MEMHEAP_USED\<rparr>) m0"
  define m2 where "m2 = set_available h (u32 (int (available_size (heaps m1 h)) + int (MEMITEM_SIZE m1 a))) m1"
  note mk = mark_freeing [OF rep0 us0, folded m1_def, folded m2_def]
  note d = distinct_blocks [OF ok0]
  have u2: "is_used m0 y = is_used m2 y" if "y \<noteq> a" for y using that mk(3) by simp
  obtain ws x m3 where l: "(if \<not> is_used m2 (i_prev (items m2 a)) then merge_left h a m2 else (a, m2)) = (x, m3)"
    "freeing m3 h (ws @ x # b # vs) F x" "ws \<noteq> [] \<Longrightarrow> is_used m2 (last ws)"
    "x \<in> set F \<longleftrightarrow> \<not> is_used m2 (i_prev (items m2 a))" "is_used m3 = is_used m2"
    "live_of (is_used m3) (ws @ x # b # vs) = live_of (is_used m2) (us @ a # b # vs)"
    "confined h (set (us @ a # b # vs)) m2 m3" "set (ws @ x # b # vs) \<subseteq> set (us @ a # b # vs)"
    by (rule free_left [OF mk(1,2) heap_repD(4) [OF rep0] u2]) (assumption, rule that)
  have bc: "is_used m3 b \<or> is_used m3 c" if "vs = c # zs" for c zs
  proof -
    have "is_used m0 b \<or> is_used m0 c"
      using heap_repD(4) [OF rep0] coalesced_at [of _ "us @ [a]" b c zs] that by simp
    then show ?thesis using u2 [of b] u2 [of c] d that by (auto simp: l(5))
  qed
  have lw3: "ws \<noteq> [] \<Longrightarrow> is_used m3 (last ws)" using l(3,5) by simp
  define m4 where "m4 = (if \<not> is_used m3 (i_next (items m3 x)) then merge_right h x m3 else m3)"
  obtain c zs F' where r: "freeing m4 h (ws @ x # c # zs) F' x" "ws \<noteq> [] \<Longrightarrow> is_used m4 (last ws)" "is_used m4 c"
    "x \<in> set F' \<longleftrightarrow> x \<in> set F" "is_used m4 = is_used m3"
    "live_of (is_used m4) (ws @ x # c # zs) = live_of (is_used m3) (ws @ x # b # vs)"
    "confined h (insert (free_header (heaps m3 h)) (set (ws @ x # b # vs))) m3 m4"
    "set (ws @ x # c # zs) \<subseteq> set (ws @ x # b # vs)"
    by (rule free_right [OF l(2) lw3 bc, folded m4_def]) (assumption, assumption, rule that)
  define m5 where "m5 = (if x \<in> set F then m4 else free_insert h x m4)"
  note dn = freeing_done [OF r(1) r(2) r(3)]
  define F5 where "F5 = (if x \<in> set F then F' else x # F')"
  have rep5: "heap_rep m5 h (ws @ x # c # zs) F5" using dn(1,2) r(4) by (simp add: m5_def F5_def)
  have used5: "is_used m5 = is_used m4" by (simp add: fun_eq_iff m5_def)
  have call: "rt_memheap_free (a + 24) m = Some m5"
  proof -
    have "a + 24 < 4294967296" using block_facts(3,5) [OF ok L] by simp
    then have a: "u32 (int (a + 24) - int RT_MEMHEAP_SIZE) = a" by (intro u32_eqI) auto
    have am: "magic_ok m h a" "magic_ok m h b" using blocks_ok_bounds(6) [OF ok] L by auto
    have h: "h \<noteq> 0" using ok by (simp add: blocks_ok_def Let_def)
    have nb: "i_next (items m a) = b" using block_facts(1) [OF ok L] .
    have "give_back h a m0 = m5"
      unfolding give_back_def Let_def m1_def [symmetric] m2_def [symmetric] l(1) prod.case m4_def [symmetric]
      by (simp only: m5_def l(4))
    then show ?thesis using am h nb us lock unfolding rt_memheap_free_def a magic_ok_def
      by (simp add: take_lock_def m0_def [symmetric])
  qed
  have k0: "live m0 h = live m h" unfolding m0_def by (rule live_lock [OF heap_okI [OF rep]])
  have "live_of (is_used m5) (ws @ x # c # zs) = live_of (is_used m2) (us @ [a]) @ live_of (is_used m2) (b # vs)"
    using r(6) l(6) mk(5) used5 by simp
  moreover have n5: "live m5 h (a + 24) = None"
  proof (rule ccontr)
    assume "live m5 h (a + 24) \<noteq> None"
    then obtain k where "live m5 h (a + 24) = Some k" by auto
    then have "is_used m5 a" using live_iff [OF rep5, of "a + 24" k] by auto
    then show False using mk(3) [of a] used5 r(5) l(5) by simp
  qed
  ultimately have "live m0 h = (live m5 h)(a + 24 \<mapsto> b - a - 24)"
    using live_insert [OF rep5 rep0 n5 _ mk(4)] by simp
  then have lv: "live m5 h = (live m h)(a + 24 := None)" using n5 k0 by (auto simp: fun_eq_iff)
  define A where "A = insert (free_header (heaps m h)) (set (us @ a # b # vs))"
  have "confined h A m m0" by (simp add: confined_def m0_def)
  moreover have "confined h A m0 m2" by (rule confined_mono [OF mk(6)]) (auto simp: A_def)
  moreover have "confined h A m2 m3" by (rule confined_mono [OF l(7)]) (auto simp: A_def)
  ultimately have c3: "confined h A m m3" by (blast intro: confined_trans)
  then have hd3: "free_header (heaps m3 h) = free_header (heaps m h)" by (simp add: confined_def place_def)
  have "confined h A m3 m4" by (rule confined_mono [OF r(7)]) (use hd3 l(8) in \<open>auto simp: A_def\<close>)
  with c3 have c4: "confined h A m m4" by (rule confined_trans)
  then have hd4: "free_header (heaps m4 h) = free_header (heaps m h)" by (simp add: confined_def place_def)
  have fl4: "free_list (heaps m4 h) = free_header (heaps m4 h)" using blocks_ok_ring(6) [OF freeingD(1) [OF r(1)]] .
  have "set F' \<subseteq> insert x (set (ws @ x # c # zs))" using freeingD(7) [OF r(1)] by blast
  moreover have sub: "set (ws @ x # c # zs) \<subseteq> A" using l(8) r(8) by (simp only: A_def) blast
  ultimately have subF: "set F' \<subseteq> A" "x \<in> A" "free_header (heaps m h) \<in> A" by (auto simp: A_def)
  have xh: "x \<noteq> free_header (heaps m4 h)" using blocks_ok_bounds(7) [OF freeingD(1,4) [OF r(1)]] .
  have "i_next_free (items m4 (free_header (heaps m h))) \<in> A" using dn(3) subF unfolding hd4 by auto
  then have "confined h A m4 (free_insert h x m4)" by (intro confined_insert) (use subF xh in \<open>simp_all add: fl4 hd4\<close>)
  then have "confined h A m4 m5" by (simp add: m5_def confined_refl)
  with c4 have "confined h A m m5" by (rule confined_trans)
  then have "confined h (territory m h) m m5"
    by (rule confined_mono) (use blocks_in_territory [OF ok] L in \<open>auto simp: A_def\<close>)
  then show thesis using that [OF call rep5 lv] by blast
qed

end
