(* ===== verification/Allocator.thy ===== *)
theory Allocator
  imports Prelude
begin

text \<open>
  What an allocator promises to its clients, as a locale over the operations of a provider, and
  what a client may conclude whatever it does: the blocks it holds are big enough and
  disjoint, they stay so until it gives them back, and no call goes wrong. The memory heaps
  and the memory pools interpret it.
\<close>

section \<open>The contract\<close>

text \<open>\<open>live\<close> gives the size of the block handed out at an address, \<open>fits n k\<close> says that \<open>k\<close> bytes
  serve a request of \<open>n\<close>; address 0 is the failure of \<open>alloc\<close>.\<close>

locale allocator =
  fixes inv :: "'s \<Rightarrow> bool"
    and live :: "'s \<Rightarrow> nat \<Rightarrow> nat option"
    and fits :: "nat \<Rightarrow> nat \<Rightarrow> bool"
    and alloc :: "nat \<Rightarrow> 's \<Rightarrow> (nat \<times> 's) option"
    and free :: "nat \<Rightarrow> 's \<Rightarrow> 's option"
  assumes live_apart: "inv s \<Longrightarrow> live s p = Some n \<Longrightarrow> live s q = Some k \<Longrightarrow> p \<noteq> q \<Longrightarrow> p + n \<le> q \<or> q + k \<le> p"
    and live_null: "inv s \<Longrightarrow> live s 0 = None"
    and alloc_ok: "inv s \<Longrightarrow> \<exists>p s'. alloc n s = Some (p, s') \<and> inv s' \<and>
      (if p = 0 then live s' = live s else live s p = None \<and> (\<exists>k. fits n k \<and> live s' = (live s)(p \<mapsto> k)))"
    and free_ok: "inv s \<Longrightarrow> live s p \<noteq> None \<Longrightarrow> \<exists>s'. free p s = Some s' \<and> inv s' \<and> live s' = (live s)(p := None)"

text \<open>A client keeps a list of the blocks it holds, with the sizes it asked for. It asks for a
  block, and puts it in front, or gives back the one at some position.\<close>

datatype aop = AAlloc nat | AFree nat

definition drop_nth :: "nat \<Rightarrow> 'a list \<Rightarrow> 'a list" where
  "drop_nth i xs = take i xs @ drop (Suc i) xs"

fun arun :: "(nat \<Rightarrow> 's \<Rightarrow> (nat \<times> 's) option) \<Rightarrow> (nat \<Rightarrow> 's \<Rightarrow> 's option) \<Rightarrow> aop list \<Rightarrow>
    (nat \<times> nat) list \<times> 's \<Rightarrow> ((nat \<times> nat) list \<times> 's) option" where
  "arun alloc free [] c = Some c"
| "arun alloc free (AAlloc n # ops) (held, s) =
     (case alloc n s of None \<Rightarrow> None
      | Some (p, s') \<Rightarrow> arun alloc free ops (if p = 0 then held else (p, n) # held, s'))"
| "arun alloc free (AFree i # ops) (held, s) =
     (if i < length held then
        (case free (fst (held ! i)) s of None \<Rightarrow> None
         | Some s' \<Rightarrow> arun alloc free ops (drop_nth i held, s'))
      else arun alloc free ops (held, s))"

text \<open>The client's view: what it holds is what is live, each block large enough.\<close>

definition holds :: "(nat \<Rightarrow> nat option) \<Rightarrow> (nat \<Rightarrow> nat \<Rightarrow> bool) \<Rightarrow> (nat \<times> nat) list \<Rightarrow> bool" where
  "holds lv fits held \<longleftrightarrow> distinct (map fst held) \<and> dom lv = fst ` set held \<and>
     (\<forall>(p, n) \<in> set held. \<exists>k. lv p = Some k \<and> fits n k)"

lemma holdsD: "holds lv fits held \<Longrightarrow> (p, n) \<in> set held \<Longrightarrow> \<exists>k. lv p = Some k \<and> fits n k"
  by (auto simp: holds_def)

lemma holds_alloc:
  assumes "holds lv fits held" "lv p = None" "fits n k"
  shows "holds (lv(p \<mapsto> k)) fits ((p, n) # held)"
proof -
  have "p \<notin> fst ` set held" using assms(1,2) by (auto simp: holds_def domIff)
  then show ?thesis using assms by (fastforce simp: holds_def)
qed

lemma holds_free:
  assumes "holds lv fits held" "i < length held"
  shows "holds (lv(fst (held ! i) := None)) fits (drop_nth i held)"
proof -
  define x where "x = held ! i"
  have h: "held = take i held @ x # drop (Suc i) held" using assms(2) by (simp add: x_def id_take_nth_drop)
  have d: "distinct (map fst (take i held @ x # drop (Suc i) held))" using assms(1) h by (simp add: holds_def)
  then have nin: "fst x \<notin> fst ` set (drop_nth i held)" by (auto simp: drop_nth_def)
  have se: "set held = insert x (set (drop_nth i held))" by (subst h) (auto simp: drop_nth_def)
  have "distinct (map fst (drop_nth i held))" using d by (auto simp: drop_nth_def)
  moreover have "dom (lv(fst x := None)) = fst ` set (drop_nth i held)"
    using assms(1) se nin by (auto simp: holds_def)
  moreover have "\<exists>k. (lv(fst x := None)) p = Some k \<and> fits n k" if "(p, n) \<in> set (drop_nth i held)" for p n
  proof -
    have "p \<noteq> fst x" using nin imageI [OF that, of fst] unfolding fst_conv by metis
    then show ?thesis using holdsD [OF assms(1), of p n] se that by simp
  qed
  ultimately show ?thesis by (auto simp: holds_def x_def)
qed

context allocator
begin

text \<open>Whatever the client does, nothing goes wrong, and it holds disjoint blocks.\<close>

lemma arun_safe:
  "inv s \<Longrightarrow> holds (live s) fits held \<Longrightarrow>
    \<exists>held' s'. arun alloc free ops (held, s) = Some (held', s') \<and> inv s' \<and> holds (live s') fits held'"
proof (induction ops arbitrary: held s)
  case Nil
  then show ?case by simp
next
  case (Cons op ops)
  show ?case
  proof (cases op)
    case (AAlloc n)
    obtain p s1 where a: "alloc n s = Some (p, s1)" "inv s1"
      "if p = 0 then live s1 = live s else live s p = None \<and> (\<exists>k. fits n k \<and> live s1 = (live s)(p \<mapsto> k))"
      using alloc_ok [OF Cons.prems(1)] by blast
    have "holds (live s1) fits (if p = 0 then held else (p, n) # held)"
      using a(3) Cons.prems(2) holds_alloc by (auto split: if_splits)
    then show ?thesis using Cons.IH [OF a(2)] AAlloc a(1) by simp
  next
    case (AFree i)
    show ?thesis
    proof (cases "i < length held")
      case True
      then have "held ! i \<in> set held" by simp
      then have "live s (fst (held ! i)) \<noteq> None"
        using holdsD [OF Cons.prems(2), of "fst (held ! i)" "snd (held ! i)"] by auto
      then obtain s1 where f: "free (fst (held ! i)) s = Some s1" "inv s1" "live s1 = (live s)(fst (held ! i) := None)"
        using free_ok [OF Cons.prems(1)] by blast
      have "holds (live s1) fits (drop_nth i held)" unfolding f(3) by (rule holds_free [OF Cons.prems(2) True])
      from Cons.IH [OF f(2) this] show ?thesis using f(1) AFree True by simp
    next
      case False
      then show ?thesis using Cons AFree by simp
    qed
  qed
qed

lemma held_apart:
  assumes "inv s" "holds (live s) fits held" "(p, n) \<in> set held" "(q, k) \<in> set held" "p \<noteq> q"
    and mono: "\<And>n k. fits n k \<Longrightarrow> n \<le> k"
  shows "p + n \<le> q \<or> q + k \<le> p"
proof -
  obtain n' k' where "live s p = Some n'" "n \<le> n'" "live s q = Some k'" "k \<le> k'"
    using holdsD [OF assms(2,3)] holdsD [OF assms(2,4)] mono by blast
  then show ?thesis using live_apart [OF assms(1), of p n' q k'] assms(5) by linarith
qed

end

end
