(* ===== verification/SysHeap.thy ===== *)
theory SysHeap
  imports MemAlloc Allocator
begin

text \<open>
  The users' view of the system heap: initialisation, reallocation, the functions
  \<^verbatim>\<open>rt_malloc\<close>, \<^verbatim>\<open>rt_free\<close>, \<^verbatim>\<open>rt_realloc\<close> and \<^verbatim>\<open>rt_calloc\<close> over several heaps, and what they promise:
  blocks in use lie inside the pool, are aligned, never overlap, and keep their contents.
\<close>

section \<open>Initialisation\<close>

lemma init_rep:
  fixes m :: mem
  assumes h: "0 < h" "0 < start" "4 dvd start" "start + sz \<le> 4294967296" "60 \<le> sz div 4 * 4"
    and hdr: "hdr < start \<or> start + sz div 4 * 4 \<le> hdr"
  defines "tail \<equiv> start + sz div 4 * 4 - 24"
  shows "heap_rep (rt_memheap_init h hdr start sz m) h [start, tail] [start]"
proof -
  define pool where "pool = sz div 4 * 4"
  have p: "60 \<le> pool" "pool \<le> sz" "4 dvd pool" using h(5) by (simp_all add: pool_def)
  have av: "u32 (int pool - 2 * int RT_MEMHEAP_SIZE) = pool - 48"
    using p h by (intro u32_eqI) auto
  have mx: "u32 (int pool - int (pool - 48)) = 48" using p by (intro u32_eqI) auto
  have tl: "u32 (int start + int (pool - 48) + int RT_MEMHEAP_SIZE) = tail"
    using p h unfolding tail_def pool_def [symmetric] by (intro u32_eqI) auto
  define m' where "m' = rt_memheap_init h hdr start sz m"
  have t: "start + 36 \<le> tail" "tail + 24 = start + pool" "tail - start - 24 = pool - 48"
    using p by (simp_all add: tail_def pool_def [symmetric])
  have ne: "hdr \<noteq> start" "hdr \<noteq> tail" "start \<noteq> tail" using hdr t p by (auto simp: pool_def [symmetric])
  have m: "items m' hdr = \<lparr>i_magic = RT_MEMHEAP_MAGIC, i_pool = h, i_next = 0, i_prev = 0, i_next_free = start, i_prev_free = start\<rparr>"
    "items m' start = \<lparr>i_magic = RT_MEMHEAP_MAGIC, i_pool = h, i_next = tail, i_prev = tail, i_next_free = hdr, i_prev_free = hdr\<rparr>"
    "items m' tail = \<lparr>i_magic = RT_MEMHEAP_MAGIC OR RT_MEMHEAP_USED, i_pool = h, i_next = start, i_prev = start, i_next_free = 0, i_prev_free = 0\<rparr>"
    "heaps m' h = \<lparr>start_addr = start, pool_size = pool, available_size = pool - 48, max_used_size = 48, block_list = start,
      free_list = hdr, free_header = hdr\<rparr>"
    unfolding m'_def rt_memheap_init_def Let_def pool_def [symmetric] av mx tl using ne by simp_all
  have "4 dvd tail" using h(3) p(3) t(2) by presburger
  then have "blocks_ok m' h [start, tail]"
    using h p t hdr ne by (auto simp: blocks_ok_def ring_def m magic_ok_def is_used_def pool_def [symmetric])
  moreover have "free_ok m' h [start, tail] [start]"
    using ne by (auto simp: free_ok_def ring_def m is_used_def)
  moreover have "sizes_ok m' h [start, tail]" using p t by (simp add: sizes_ok_def m is_used_def)
  ultimately show ?thesis by (simp add: heap_rep_def m'_def [symmetric] m is_used_def)
qed

section \<open>Resizing in place\<close>

lemma reshape_lists:
  assumes co: "coalesced U (us @ a # b # c # vs)" and sp: "spaced (us @ a # b # c # vs)" and u: "U a" "\<not> U b"
    and n: "a + 36 \<le> n" "n + 36 \<le> c" and V: "\<And>y. V y \<longleftrightarrow> y \<noteq> n \<and> U y"
  shows "coalesced V (us @ a # n # c # vs)"
    "free_bytes V (us @ a # n # c # vs) + (c - b - 24) = free_bytes U (us @ a # b # c # vs) + (c - n - 24)"
    "live_of U (us @ a # b # c # vs) = live_of U (us @ [a]) @ (a + 24, b - a - 24) # live_of U (c # vs)"
    "live_of V (us @ a # n # c # vs) = live_of U (us @ [a]) @ (a + 24, n - a - 24) # live_of U (c # vs)"
proof -
  have sp2: "spaced (us @ [a])" "spaced (c # vs)" using sp spaced_cut [of us a "b # c # vs"] by auto
  have us: "x \<noteq> n" if "x \<in> set (us @ [a])" for x using spaced_before [OF sp2(1), of x] n that by auto
  have vs: "x \<noteq> n" if "x \<in> set (c # vs)" for x using spaced_less [OF sp2(2), of x] n that by auto
  have cc: "coalesced U (us @ [a])" "coalesced U (c # vs)" "U c"
    using co u coalesced_cut [of U us a "b # c # vs"] by auto
  have "coalesced V (us @ [a])" by (rule coalesced_mono [OF cc(1)]) (use V us in auto)
  moreover have "coalesced V (c # vs)" by (rule coalesced_mono [OF cc(2)]) (use V vs in auto)
  ultimately show "coalesced V (us @ a # n # c # vs)"
    using u cc(3) V [of a] V [of c] n coalesced_cut [of V us a "n # c # vs"] by auto
  have e: "free_bytes V (us @ [a]) = free_bytes U (us @ [a])" "live_of V (us @ [a]) = live_of U (us @ [a])"
    by (rule free_bytes_cong live_of_cong, use V us in \<open>blast dest: in_set_butlastD\<close>)+
  have f: "free_bytes V (c # vs) = free_bytes U (c # vs)" "live_of V (c # vs) = live_of U (c # vs)"
    by (rule free_bytes_cong live_of_cong, use V vs in \<open>blast dest: in_set_butlastD\<close>)+
  show "free_bytes V (us @ a # n # c # vs) + (c - b - 24) = free_bytes U (us @ a # b # c # vs) + (c - n - 24)"
    using e f u V [of a] V [of n] n free_bytes_cut [of U us a "b # c # vs"] free_bytes_cut [of V us a "n # c # vs"] by simp
  show "live_of U (us @ a # b # c # vs) = live_of U (us @ [a]) @ (a + 24, b - a - 24) # live_of U (c # vs)"
    using u live_of_cut [of U us a "b # c # vs"] by simp
  show "live_of V (us @ a # n # c # vs) = live_of U (us @ [a]) @ (a + 24, n - a - 24) # live_of U (c # vs)"
    using e f u V [of a] V [of n] n live_of_cut [of V us a "n # c # vs"] by simp
qed

lemma trim_lists:
  assumes co: "coalesced U (us @ a # b # vs)" and sp: "spaced (us @ a # b # vs)" and u: "U a" "U b"
    and n: "a + 36 \<le> n" "n + 36 \<le> b" and V: "\<And>y. V y \<longleftrightarrow> y \<noteq> n \<and> U y"
  shows "coalesced V (us @ a # n # b # vs)"
    "free_bytes V (us @ a # n # b # vs) = free_bytes U (us @ a # b # vs) + (b - n - 24)"
    "live_of U (us @ a # b # vs) = live_of U (us @ [a]) @ (a + 24, b - a - 24) # live_of U (b # vs)"
    "live_of V (us @ a # n # b # vs) = live_of U (us @ [a]) @ (a + 24, n - a - 24) # live_of U (b # vs)"
proof -
  have sp2: "spaced (us @ [a])" "spaced (b # vs)" using sp spaced_cut [of us a "b # vs"] by auto
  have us: "x \<noteq> n" if "x \<in> set (us @ [a])" for x using spaced_before [OF sp2(1), of x] n that by auto
  have vs: "x \<noteq> n" if "x \<in> set (b # vs)" for x using spaced_less [OF sp2(2), of x] n that by auto
  have cc: "coalesced U (us @ [a])" "coalesced U (b # vs)"
    using co coalesced_cut [of U us a "b # vs"] by auto
  have "coalesced V (us @ [a])" by (rule coalesced_mono [OF cc(1)]) (use V us in auto)
  moreover have "coalesced V (b # vs)" by (rule coalesced_mono [OF cc(2)]) (use V vs in auto)
  ultimately show "coalesced V (us @ a # n # b # vs)"
    using u V [of a] V [of b] n coalesced_cut [of V us a "n # b # vs"] by auto
  have e: "free_bytes V (us @ [a]) = free_bytes U (us @ [a])" "live_of V (us @ [a]) = live_of U (us @ [a])"
    by (rule free_bytes_cong live_of_cong, use V us in \<open>blast dest: in_set_butlastD\<close>)+
  have f: "free_bytes V (b # vs) = free_bytes U (b # vs)" "live_of V (b # vs) = live_of U (b # vs)"
    by (rule free_bytes_cong live_of_cong, use V vs in \<open>blast dest: in_set_butlastD\<close>)+
  show "free_bytes V (us @ a # n # b # vs) = free_bytes U (us @ a # b # vs) + (b - n - 24)"
    using e f u V [of a] V [of n] n free_bytes_cut [of U us a "b # vs"] free_bytes_cut [of V us a "n # b # vs"] by simp
  show "live_of U (us @ a # b # vs) = live_of U (us @ [a]) @ (a + 24, b - a - 24) # live_of U (b # vs)"
    using u live_of_cut [of U us a "b # vs"] by simp
  show "live_of V (us @ a # n # b # vs) = live_of U (us @ [a]) @ (a + 24, n - a - 24) # live_of U (b # vs)"
    using e f u V [of a] V [of n] n live_of_cut [of V us a "n # b # vs"] by simp
qed

lemma live_resize:
  assumes "heap_rep m h L F" "heap_rep m' h L' F'"
    and "live_of (is_used m) L = xs @ (p, k) # ys" "live_of (is_used m') L' = xs @ (p, k') # ys"
  shows "live m' h = (live m h)(p \<mapsto> k')" "live m h p = Some k"
proof -
  have "distinct (map fst (xs @ (p, k) # ys))"
    using live_of_distinct [OF distinct_blocks [OF heap_repD(1) [OF assms(1)]], of "is_used m"] assms(3) by simp
  then have "p \<notin> fst ` set xs" by auto
  then show "live m' h = (live m h)(p \<mapsto> k')" "live m h p = Some k"
    using assms by (simp_all add: live_rep map_of_mid del: map_of_append)
qed

text \<open>Growing into the free block behind.\<close>

lemma expand_rep:
  fixes us :: "addr list"
  assumes rep: "heap_rep m h (us @ a # b # c # vs) F" and u: "is_used m a" "\<not> is_used m b"
    and n: "b < a + 24 + newsize" "a + 24 + newsize + 36 \<le> c" "4 dvd newsize"
  defines "n \<equiv> a + 24 + newsize" and "m' \<equiv> expand_block h (a + 24) (b - a - 24) newsize m"
  shows "heap_rep m' h (us @ a # n # c # vs) (n # remove1 b F)" "is_used m' y \<longleftrightarrow> y \<noteq> n \<and> is_used m y"
    "confined h (insert n (insert (free_header (heaps m h)) (set (us @ a # b # c # vs)))) m m'"
proof -
  note ok = heap_repD(1) [OF rep] and fo = heap_repD(2) [OF rep]
  note fd = free_okD [OF fo ok] and d = distinct_blocks [OF ok]
  define hdr where "hdr = free_header (heaps m h)"
  define A where "A = insert n (insert hdr (set (us @ a # b # c # vs)))"
  have ab: "i_next (items m a) = b" "a + 36 \<le> b" using block_facts(1,3) [OF ok refl] by auto
  have L2: "us @ a # b # c # vs = (us @ [a]) @ b # c # vs" by simp
  have bc: "i_next (items m b) = c" "i_prev (items m b) = a" "c + 24 \<le> 4294967296"
    using block_facts(1,5) [OF ok L2] block_facts(2) [OF ok refl] by auto
  have nn: "a + 36 \<le> n" "n + 36 \<le> c" "4 dvd n" "b < n"
    using n ab blocks_ok_bounds(5) [OF ok, of a] by (auto simp: n_def)
  have a32: "u32 (int (a + 24) - int RT_MEMHEAP_SIZE) = a" "u32 (int (a + 24) + int newsize) = n"
    using bc(3) nn by (auto intro!: u32_eqI simp: n_def)
  define N where "N = u32 (int (available_size (heaps m h)) - (int newsize - int (b - a - 24)))"
  define m1 where "m1 = note_used h (set_available h N m)"
  define m2 where "m2 = free_unlink b m1"
  define m4 where "m4 = upd_item a (\<lambda>i. i\<lparr>i_next := c\<rparr>) (upd_item c (\<lambda>i. i\<lparr>i_prev := a\<rparr>) m2)"
  define m5 where "m5 = block_insert h a n m4"
  have m': "m' = free_insert h n m5"
    using d unfolding m'_def expand_block_def Let_def a32 ab(1)
    by (simp add: m5_def m4_def m2_def m1_def N_def bc)
  have bF: "b \<in> set F" using u fd(2) by simp
  have r1: "ring (fview m1) hdr F" using fd(1) fview_same [of m1 m] by (simp add: hdr_def m1_def)
  note ur = unlink_ring [OF r1 bF, folded m2_def]
  have pl4: "place (heaps m4 h) = place (heaps m h)" by (simp add: m4_def m2_def m1_def)
  have used4: "is_used m4 y = is_used m y" for y by (auto simp: is_used_def m4_def m2_def m1_def)
  have ok4: "blocks_ok m4 h (us @ a # c # vs)"
    by (rule block_delete_ok [OF ok pl4 _ _ _ used4]) (simp_all add: m4_def m2_def m1_def magic_ok_def)
  have ok5: "blocks_ok m5 h (us @ a # n # c # vs)" unfolding m5_def by (rule block_insert_ok [OF ok4 nn(1-3)])
  have pl5: "place (heaps m5 h) = place (heaps m h)" using pl4 by (simp add: m5_def)
  have hdr5: "free_header (heaps m5 h) = hdr" "free_list (heaps m5 h) = hdr"
    using place_free [OF pl5] blocks_ok_ring(6) [OF ok] by (simp_all add: hdr_def)
  have nh: "n \<noteq> hdr" using blocks_ok_bounds(7) [OF ok5, of n] hdr5 by simp
  have nL: "n \<notin> set (us @ a # b # c # vs)" using distinct_blocks [OF ok5] nn(4) by auto
  have r5: "ring (fview m5) hdr (remove1 b F)"
    using ur(1) fview_same [of m5 m2] by (simp add: m5_def m4_def)
  have nF: "n \<notin> set (hdr # remove1 b F)" using nL nh fd(2) [of n] set_remove1_subset [of b F] by auto
  note ir = insert_ring [OF r5 hdr5(2) nF, folded m']
  show used: "is_used m' y \<longleftrightarrow> y \<noteq> n \<and> is_used m y" for y by (simp add: m' m5_def used4)
  note rl = reshape_lists [OF heap_repD(4) [OF rep] blocks_ok_ring(2) [OF ok] u nn(1,2) used]
  have ok': "blocks_ok m' h (us @ a # n # c # vs)"
    by (rule blocks_ok_same [OF ok5]) (simp_all add: m' magic_ok_def)
  moreover have "set F = {x \<in> set (us @ a # b # c # vs). \<not> is_used m x}" using fo by (simp add: free_ok_def)
  then have "free_ok m' h (us @ a # n # c # vs) (n # remove1 b F)"
    using ir(1) fd(3) u(2) nL d hdr5(1) unfolding free_ok_def used by (auto simp: m')
  moreover have "sizes_ok m' h (us @ a # n # c # vs)"
  proof -
    have "int N = int (free_bytes (is_used m') (us @ a # n # c # vs))"
    proof -
      have "int (available_size (heaps m h)) - (int newsize - int (b - a - 24)) = int (free_bytes (is_used m') (us @ a # n # c # vs))"
        using rl(2) available_bound(1) [OF rep] nn ab(2) by (simp add: n_def)
      moreover have "free_bytes (is_used m') (us @ a # n # c # vs) < 4294967296"
        using free_bytes_pool [OF ok', of "is_used m'"] pool_size_bound [OF ok'] by simp
      ultimately show ?thesis by (simp add: N_def)
    qed
    then have N: "N = free_bytes (is_used m') (us @ a # n # c # vs)" by simp
    then have "N \<le> available_size (heaps m h)" using rl(2) available_bound(1) [OF rep] nn by simp
    then show ?thesis
      by (rule sizes_ok_take [OF ok heap_repD(3) [OF rep] N]) (simp add: m' m5_def m4_def m2_def m1_def)
  qed
  ultimately show "heap_rep m' h (us @ a # n # c # vs) (n # remove1 b F)" using rl(1) by (simp add: heap_rep_def)
  have sub: "set (hdr # F) \<subseteq> A" "set (hdr # remove1 b F) \<subseteq> A"
    using fd(2) set_remove1_subset [of b F] by (auto simp: A_def)
  have "confined h A m m1" unfolding m1_def by (rule confined_trans [OF confined_account(1) confined_account(2)])
  moreover have "confined h A m1 m2" unfolding m2_def by (rule confined_unlink) (use ur sub in auto)
  moreover have "confined h A m2 m4" unfolding m4_def by (rule confined_trans [OF confined_upd confined_upd]) (simp_all add: A_def)
  moreover have "confined h A m4 m5" unfolding m5_def
    by (rule confined_block_insert) (use nn in \<open>auto simp: A_def m4_def\<close>)
  moreover have "confined h A m5 m'" unfolding m'
    by (rule confined_insert) (use hdr5 ir(2) sub nh in \<open>auto simp: A_def\<close>)
  ultimately show "confined h (insert n (insert (free_header (heaps m h)) (set (us @ a # b # c # vs)))) m m'"
    unfolding A_def hdr_def by (blast intro: confined_trans)
qed

text \<open>Cutting off the end, which joins the free block behind it if there is one.\<close>

lemma shrink_used_rep:
  fixes us :: "addr list"
  assumes rep: "heap_rep m h (us @ a # b # vs) F" and u: "is_used m a" "is_used m b"
    and n: "a + 24 + newsize + 36 \<le> b" "12 \<le> newsize" "4 dvd newsize"
  defines "n \<equiv> a + 24 + newsize" and "m' \<equiv> shrink_block h a newsize m"
  shows "heap_rep m' h (us @ a # n # b # vs) (n # F)" "is_used m' y \<longleftrightarrow> y \<noteq> n \<and> is_used m y"
    "confined h (insert n (insert (free_header (heaps m h)) (set (us @ a # b # vs)))) m m'"
proof -
  note ok = heap_repD(1) [OF rep] and fo = heap_repD(2) [OF rep]
  note fd = free_okD [OF fo ok]
  define hdr where "hdr = free_header (heaps m h)"
  define A where "A = insert n (insert hdr (set (us @ a # b # vs)))"
  have ab: "i_next (items m a) = b" "b + 24 \<le> 4294967296" using block_facts(1,5) [OF ok refl] by auto
  have nn: "a + 36 \<le> n" "n + 36 \<le> b" "4 dvd n" using n blocks_ok_bounds(5) [OF ok, of a] by (auto simp: n_def)
  have n32: "u32 (int a + int newsize + int RT_MEMHEAP_SIZE) = n" using ab nn by (intro u32_eqI) (auto simp: n_def)
  define m1 where "m1 = block_insert h a n m"
  have ok1: "blocks_ok m1 h (us @ a # n # b # vs)" unfolding m1_def by (rule block_insert_ok [OF ok nn])
  have L2: "us @ a # n # b # vs = (us @ [a]) @ n # b # vs" by simp
  have nL: "n \<notin> set (us @ a # b # vs)" using distinct_blocks [OF ok1] by auto
  have nb: "i_next (items m1 n) = b" using block_facts(1) [OF ok1 L2] .
  have ub: "is_used m1 b" using u(2) nL by (simp add: m1_def)
  define m5 where "m5 = free_insert h n m1"
  have ms: "MEMITEM_SIZE m5 n = b - n - 24"
    using block_facts(4) [OF ok1 L2] by (simp add: MEMITEM_SIZE_def m5_def)
  define N where "N = u32 (int (available_size (heaps m h)) + int (b - n - 24))"
  have m': "m' = set_available h N m5"
    unfolding m'_def shrink_block_def Let_def n32 m1_def [symmetric] nb using ub
    by (simp add: m5_def [symmetric] ms N_def) (simp add: m5_def m1_def)
  have r1: "ring (fview m1) hdr F" using fd(1) fview_same [of m1 m] by (simp add: hdr_def m1_def)
  have hdr1: "free_list (heaps m1 h) = hdr" using blocks_ok_ring(6) [OF ok] by (simp add: m1_def hdr_def)
  have nh: "n \<noteq> hdr" using blocks_ok_bounds(7) [OF ok1, of n] by (simp add: m1_def hdr_def)
  have nF: "n \<notin> set (hdr # F)" using nL nh fd(2) [of n] by auto
  note ir = insert_ring [OF r1 hdr1 nF, folded m5_def]
  show used: "is_used m' y \<longleftrightarrow> y \<noteq> n \<and> is_used m y" for y by (simp add: m' m5_def m1_def)
  note tl = trim_lists [OF heap_repD(4) [OF rep] blocks_ok_ring(2) [OF ok] u nn(1,2) used]
  have ok': "blocks_ok m' h (us @ a # n # b # vs)"
    by (rule blocks_ok_same [OF ok1]) (simp_all add: m' m5_def magic_ok_def)
  moreover have "set F = {x \<in> set (us @ a # b # vs). \<not> is_used m x}" using fo by (simp add: free_ok_def)
  then have "free_ok m' h (us @ a # n # b # vs) (n # F)"
    using ir(1) nL fview_same [of m' m5] unfolding free_ok_def used by (auto simp: m' m5_def m1_def hdr_def set_available_def)
  moreover have "sizes_ok m' h (us @ a # n # b # vs)"
  proof -
    have N: "N = free_bytes (is_used m') (us @ a # n # b # vs)"
      using tl(2) available_bound(1) [OF rep] free_bytes_pool [OF ok', of "is_used m'"] pool_size_bound [OF ok']
      unfolding N_def by (intro u32_eqI) auto
    show ?thesis
      by (rule sizes_ok_give [OF heap_repD(3) [OF rep] N])
        (use N tl(2) available_bound(1) [OF rep] in simp, simp add: m' m5_def m1_def set_available_def)
  qed
  ultimately show "heap_rep m' h (us @ a # n # b # vs) (n # F)" using tl(1) by (simp add: heap_rep_def)
  have sub: "set (hdr # F) \<subseteq> A" using fd(2) by (auto simp: A_def)
  have "confined h A m m1" unfolding m1_def
    by (rule confined_block_insert) (use nn ab in \<open>auto simp: A_def\<close>)
  moreover have "confined h A m1 m5" unfolding m5_def
    by (rule confined_insert) (use hdr1 ir(2) sub nh in \<open>auto simp: A_def\<close>)
  moreover have "confined h A m5 m'" unfolding m' by (rule confined_account)
  ultimately show "confined h (insert n (insert (free_header (heaps m h)) (set (us @ a # b # vs)))) m m'"
    unfolding A_def hdr_def by (blast intro: confined_trans)
qed

lemma shrink_free_rep:
  fixes us :: "addr list"
  assumes rep: "heap_rep m h (us @ a # b # c # vs) F" and u: "is_used m a" "\<not> is_used m b"
    and n: "a + 24 + newsize + 36 \<le> b" "12 \<le> newsize" "4 dvd newsize"
  defines "n \<equiv> a + 24 + newsize" and "m' \<equiv> shrink_block h a newsize m"
  shows "heap_rep m' h (us @ a # n # c # vs) (n # remove1 b F)" "is_used m' y \<longleftrightarrow> y \<noteq> n \<and> is_used m y"
    "confined h (insert n (insert (free_header (heaps m h)) (set (us @ a # b # c # vs)))) m m'"
proof -
  note ok = heap_repD(1) [OF rep] and fo = heap_repD(2) [OF rep]
  note fd = free_okD [OF fo ok] and d = distinct_blocks [OF ok]
  define hdr where "hdr = free_header (heaps m h)"
  define A where "A = insert n (insert hdr (set (us @ a # b # c # vs)))"
  have ab: "i_next (items m a) = b" "b + 24 \<le> 4294967296" using block_facts(1,5) [OF ok refl] by auto
  have L0: "us @ a # b # c # vs = (us @ [a]) @ b # c # vs" by simp
  have bc: "MEMITEM_SIZE m b = c - b - 24" "b + 36 \<le> c" "c + 24 \<le> 4294967296" "i_next (items m b) = c"
    using block_facts [OF ok L0] by auto
  have nn: "a + 36 \<le> n" "n + 36 \<le> b" "4 dvd n" "n + 36 \<le> c"
    using n bc(2) blocks_ok_bounds(5) [OF ok, of a] by (auto simp: n_def)
  have n32: "u32 (int a + int newsize + int RT_MEMHEAP_SIZE) = n" using ab nn by (intro u32_eqI) (auto simp: n_def)
  define m1 where "m1 = block_insert h a n m"
  have ok1: "blocks_ok m1 h (us @ a # n # b # c # vs)" unfolding m1_def by (rule block_insert_ok [OF ok nn(1-3)])
  have L1: "us @ a # n # b # c # vs = (us @ [a]) @ n # b # c # vs" by simp
  have L2: "us @ a # n # b # c # vs = (us @ [a, n]) @ b # c # vs" by simp
  have nL: "n \<notin> set (us @ a # b # c # vs)" using distinct_blocks [OF ok1] by auto
  have nb: "i_next (items m1 n) = b" "i_next (items m1 b) = c" "MEMITEM_SIZE m1 b = c - b - 24"
    using block_facts(1) [OF ok1 L1] block_facts(1,4) [OF ok1 L2] by auto
  have ub: "\<not> is_used m1 b" using u(2) by (simp add: m1_def)
  define K where "K = u32 (int (available_size (heaps m h)) - int (c - b - 24))"
  define m3 where "m3 = upd_item n (\<lambda>i. i\<lparr>i_next := c\<rparr>) (upd_item c (\<lambda>i. i\<lparr>i_prev := n\<rparr>) (set_available h K m1))"
  define m4 where "m4 = free_unlink b m3"
  define m5 where "m5 = free_insert h n m4"
  define N where "N = u32 (int K + int (c - n - 24))"
  have pl3: "place (heaps m3 h) = place (heaps m1 h)" by (simp add: m3_def)
  have used3: "is_used m3 y = is_used m1 y" for y by (auto simp: is_used_def m3_def)
  have ok3: "blocks_ok m3 h ((us @ [a]) @ n # c # vs)"
    by (rule block_delete_ok [OF ok1 [unfolded L1] pl3 _ _ _ used3])
      (use nn bc(2) in \<open>auto simp: m3_def magic_ok_def\<close>)
  have ok5: "blocks_ok m5 h (us @ a # n # c # vs)"
    using blocks_ok_same [OF ok3, of m5] by (simp add: m5_def m4_def magic_ok_def)
  have "us @ a # n # c # vs = (us @ [a]) @ n # c # vs" by simp
  from block_facts(4) [OF ok5 this] have ms: "MEMITEM_SIZE m5 n = c - n - 24" .
  have hp5: "heaps m5 h = (heaps m h)\<lparr>available_size := K\<rparr>" by (simp add: m5_def m4_def m3_def m1_def set_available_def)
  have nc: "n \<noteq> c" "n \<noteq> b" "b \<noteq> c" using nn bc(2) by auto
  have m': "m' = set_available h N m5"
  proof -
    have e1: "u32 (int (available_size (heaps m1 h)) - int (c - b - 24)) = K" by (simp add: K_def m1_def)
    have x1: "i_next (items (set_available h K m1) b) = c" by (simp add: nb)
    have x2: "i_next (items (upd_item c f (set_available h K m1)) b) = c" for f using nc by (simp add: nb)
    have av: "available_size (heaps m5 h) = K" by (simp add: hp5)
    show ?thesis
      unfolding m'_def shrink_block_def Let_def n32 m1_def [symmetric] nb e1 x1 x2 m3_def [symmetric] m4_def [symmetric]
      using ub by (simp only: if_True not_False_eq_True m5_def [symmetric] ms av N_def)
  qed
  have bF: "b \<in> set F" using u fd(2) by simp
  have r3: "ring (fview m3) hdr F" using fd(1) fview_same [of m3 m] by (simp add: hdr_def m3_def m1_def)
  note ur = unlink_ring [OF r3 bF, folded m4_def]
  have hdr4: "free_list (heaps m4 h) = hdr"
    using blocks_ok_ring(6) [OF ok] by (simp add: m4_def m3_def m1_def hdr_def set_available_def)
  have nh: "n \<noteq> hdr" using blocks_ok_bounds(7) [OF ok1, of n] by (simp add: m1_def hdr_def)
  have nF: "n \<notin> set (hdr # remove1 b F)" using nL nh fd(2) [of n] set_remove1_subset [of b F] by auto
  note ir = insert_ring [OF ur(1) hdr4 nF, folded m5_def]
  show used: "is_used m' y \<longleftrightarrow> y \<noteq> n \<and> is_used m y" for y by (simp add: m' m5_def m4_def used3 m1_def)
  note rl = reshape_lists [OF heap_repD(4) [OF rep] blocks_ok_ring(2) [OF ok] u nn(1,4) used]
  have ok': "blocks_ok m' h (us @ a # n # c # vs)"
    by (rule blocks_ok_same [OF ok5]) (simp_all add: m' magic_ok_def)
  moreover have "set F = {x \<in> set (us @ a # b # c # vs). \<not> is_used m x}" using fo by (simp add: free_ok_def)
  then have "free_ok m' h (us @ a # n # c # vs) (n # remove1 b F)"
    using ir(1) fd(3) u(2) nL d fview_same [of m' m5] unfolding free_ok_def used
    by (auto simp: m' set_available_def hp5 hdr_def)
  moreover have "sizes_ok m' h (us @ a # n # c # vs)"
  proof -
    have av: "available_size (heaps m h) = free_bytes (is_used m) (us @ a # b # c # vs)"
      "available_size (heaps m h) < 4294967296" using available_bound [OF rep] by auto
    have le: "c - b - 24 \<le> free_bytes (is_used m) (us @ a # b # c # vs)"
      using u free_bytes_cut [of "is_used m" us a "b # c # vs"] by simp
    then have K: "K = available_size (heaps m h) - (c - b - 24)" unfolding K_def using av by (intro u32_eqI) auto
    have N: "N = free_bytes (is_used m') (us @ a # n # c # vs)"
      using rl(2) av K le free_bytes_pool [OF ok', of "is_used m'"] pool_size_bound [OF ok']
      unfolding N_def by (intro u32_eqI) auto
    have "available_size (heaps m h) \<le> N" using N rl(2) av nn by simp
    then show ?thesis
      by (rule sizes_ok_give [OF heap_repD(3) [OF rep] N]) (simp add: m' hp5 set_available_def)
  qed
  ultimately show "heap_rep m' h (us @ a # n # c # vs) (n # remove1 b F)" using rl(1) by (simp add: heap_rep_def)
  have sub: "set (hdr # F) \<subseteq> A" "set (hdr # remove1 b F) \<subseteq> A"
    using fd(2) set_remove1_subset [of b F] by (auto simp: A_def)
  have "confined h A m m1" unfolding m1_def
    by (rule confined_block_insert) (use nn ab in \<open>auto simp: A_def\<close>)
  moreover have "confined h A m1 m3" unfolding m3_def
    by (rule confined_trans [OF confined_trans [OF confined_account(1) confined_upd] confined_upd]) (simp_all add: A_def)
  moreover have "confined h A m3 m4" unfolding m4_def by (rule confined_unlink) (use ur sub in auto)
  moreover have "confined h A m4 m5" unfolding m5_def
    by (rule confined_insert) (use hdr4 ir(2) sub nh in \<open>auto simp: A_def\<close>)
  moreover have "confined h A m5 m'" unfolding m' by (rule confined_account)
  ultimately show "confined h (insert n (insert (free_header (heaps m h)) (set (us @ a # b # c # vs)))) m m'"
    unfolding A_def hdr_def by (blast intro: confined_trans)
qed

section \<open>Contracts\<close>

lemma live_split:
  assumes "heap_rep m h L F" "live m h p = Some k"
  obtains us a b vs where "L = us @ a # b # vs" "is_used m a" "p = a + 24" "k = b - a - 24" "a + 36 \<le> b"
  using assms(2) unfolding live_iff [OF assms(1)] using block_facts(3) [OF heap_repD(1) [OF assms(1)]] by blast

lemma live_place:
  assumes "heap_ok m h" "live m h p = Some k"
  shows "start_addr (heaps m h) + 24 \<le> p" "p + k + 24 \<le> start_addr (heaps m h) + pool_size (heaps m h)"
    "4 dvd p" "12 \<le> k" "0 < p" "p + k + 24 \<le> 4294967296"
proof -
  obtain L F where rep: "heap_rep m h L F" using assms(1) by (rule heap_okE)
  note ok = heap_repD(1) [OF rep]
  obtain us a b vs where L: "L = us @ a # b # vs" "p = a + 24" "k = b - a - 24" "a + 36 \<le> b"
    using live_split [OF rep assms(2)] by metis
  then have "a \<in> set L" "b \<in> set L" by auto
  then show "start_addr (heaps m h) + 24 \<le> p" "p + k + 24 \<le> start_addr (heaps m h) + pool_size (heaps m h)"
    "4 dvd p" "12 \<le> k" "0 < p" "p + k + 24 \<le> 4294967296"
    using blocks_ok_bounds(1,5) [OF ok, of a] blocks_ok_bounds(2,3) [OF ok, of b] L by auto
qed

lemma live_disjoint:
  assumes "heap_ok m h" "live m h p = Some n" "live m h q = Some k" "p \<noteq> q"
  shows "p + n + 24 \<le> q \<or> q + k + 24 \<le> p"
proof -
  obtain L F where rep: "heap_rep m h L F" using assms(1) by (rule heap_okE)
  note sp = blocks_ok_ring(2) [OF heap_repD(1) [OF rep]]
  obtain us a b vs where L: "L = us @ a # b # vs" "p = a + 24" "n = b - a - 24" "a + 36 \<le> b"
    using live_split [OF rep assms(2)] by metis
  obtain us' a' b' vs' where L': "L = us' @ a' # b' # vs'" "q = a' + 24" "k = b' - a' - 24" "a' + 36 \<le> b'"
    using live_split [OF rep assms(3)] by metis
  have s: "spaced (us @ [a])" "spaced (a # b # vs)" using sp L(1) spaced_cut [of us a "b # vs"] by auto
  have s': "spaced (us' @ [a'])" using sp L'(1) spaced_cut [of us' a' "b' # vs'"] by simp
  have "a' \<in> set (us @ a # b # vs)" unfolding L(1) [symmetric] L'(1) by simp
  then consider "a' \<in> set us" | "a' \<in> set (b # vs)" using assms(4) L(2) L'(2) by auto
  then show ?thesis
  proof cases
    case 1
    then obtain ws zs where w: "us @ [a] = ws @ a' # zs @ [a]" by (metis append_Cons append_assoc split_list)
    have "us' = ws \<and> b' # vs' = zs @ a # b # vs"
    proof -
      have "distinct L" using distinct_blocks [OF heap_repD(1) [OF rep]] .
      moreover have "L = ws @ a' # zs @ a # b # vs" using L(1) w by (metis append_Cons append_Nil append_assoc)
      ultimately show ?thesis using L'(1) append_Cons_eq_iff [of a' us' "b' # vs'" ws "zs @ a # b # vs"]
        by (metis distinct.simps(2) distinct_append not_distinct_conv_prefix append_eq_Cons_conv Un_iff disjoint_iff list.set_intros(1) set_append)
    qed
    then have "b' = a \<or> b' \<in> set us" using w by (cases zs) (auto simp: append_eq_append_conv2)
    then have "b' \<le> a" using spaced_before [OF s(1)] by force
    then show ?thesis using L L' by auto
  next
    case 2
    then have "b \<le> a'" using spaced_less [of b vs a'] s(2) by auto
    then show ?thesis using L L' by auto
  qed
qed

text \<open>The sizes of the free blocks.\<close>

definition free_sizes :: "mem \<Rightarrow> addr \<Rightarrow> nat list" where
  "free_sizes m h = map snd (live_of (\<lambda>a. \<not> is_used m a) (blocks_of m h))"

lemma fit_iff:
  assumes "heap_rep m h L F"
  shows "(\<exists>a \<in> set F. P (MEMITEM_SIZE m a)) \<longleftrightarrow> (\<exists>k \<in> set (free_sizes m h). P k)"
proof -
  note ok = heap_repD(1) [OF assms] and fd = free_okD [OF heap_repD(2,1) [OF assms]]
  have "(\<exists>k \<in> set (free_sizes m h). P k) \<longleftrightarrow> (\<exists>us a b vs. L = us @ a # b # vs \<and> \<not> is_used m a \<and> P (b - a - 24))"
  proof -
    have "k \<in> set (free_sizes m h) \<longleftrightarrow> (\<exists>p. (p, k) \<in> set (live_of (\<lambda>a. \<not> is_used m a) L))" for k
      by (simp add: free_sizes_def blocks_of_rep [OF assms] snd_eq_Range Range_iff)
    then have "k \<in> set (free_sizes m h) \<longleftrightarrow> (\<exists>us a b vs. L = us @ a # b # vs \<and> \<not> is_used m a \<and> k = b - a - 24)" for k
      by (simp add: live_of_iff)
    then show ?thesis by (simp only: Bex_def) metis
  qed
  also have "\<dots> \<longleftrightarrow> (\<exists>a \<in> set F. P (MEMITEM_SIZE m a))"
  proof
    assume "\<exists>us a b vs. L = us @ a # b # vs \<and> \<not> is_used m a \<and> P (b - a - 24)"
    then obtain us a b vs where L: "L = us @ a # b # vs" "\<not> is_used m a" "P (b - a - 24)" by blast
    then have "a \<in> set F" using fd(2) by simp
    then show "\<exists>a \<in> set F. P (MEMITEM_SIZE m a)"
      using block_facts(4) [OF ok L(1)] L(3) by (intro bexI [of _ a]) simp_all
  next
    assume "\<exists>a \<in> set F. P (MEMITEM_SIZE m a)"
    then obtain a where a: "a \<in> set F" "P (MEMITEM_SIZE m a)" by blast
    then have "a \<in> set L" "\<not> is_used m a" using fd(2) by auto
    moreover obtain us b vs where L: "L = us @ a # b # vs"
      using calculation blocks_ok_ring(3) [OF ok] block_split [of a L] by blast
    ultimately show "\<exists>us a b vs. L = us @ a # b # vs \<and> \<not> is_used m a \<and> P (b - a - 24)"
      using a(2) block_facts(4) [OF ok L] by auto
  qed
  finally show ?thesis by simp
qed

lemma alloc_total:
  assumes ok: "heap_ok m h" and lock: "lock_result m (lock_takes m) = RT_EOK"
  obtains p m' where "rt_memheap_alloc h n m = Some (p, m')" "heap_ok m' h" "confined h (territory m h) m m'"
    "p \<noteq> 0 \<longleftrightarrow> request_size n < available_size (heaps m h) \<and> (\<exists>k \<in> set (free_sizes m h). request_size n \<le> k)"
    "p = 0 \<Longrightarrow> live m' h = live m h"
    "p \<noteq> 0 \<Longrightarrow> live m h p = None \<and> (\<exists>k. request_size n \<le> k \<and> k < request_size n + 36 \<and> live m' h = (live m h)(p \<mapsto> k))"
proof -
  obtain L F where rep: "heap_rep m h L F" using ok by (rule heap_okE)
  note un = alloc_unfold [OF rep lock, of n]
  have fit: "find (\<lambda>a. request_size n \<le> MEMITEM_SIZE m a) F = None \<longleftrightarrow> \<not> (\<exists>k \<in> set (free_sizes m h). request_size n \<le> k)"
    unfolding fit_iff [OF rep, symmetric] by (auto simp: find_None_iff)
  show thesis
  proof (cases "request_size n < available_size (heaps m h)")
    case False
    then show thesis using that [of 0 m] un ok confined_refl by simp
  next
    case True
    show thesis
    proof (cases "find (\<lambda>a. request_size n \<le> MEMITEM_SIZE m a) F")
      case None
      define m1 where "m1 = m\<lparr>lock_takes := Suc (lock_takes m)\<rparr>"
      have "rt_memheap_alloc h n m = Some (0, m1)" using un True None by (simp add: m1_def)
      moreover have "live m1 h = live m h" unfolding m1_def by (rule live_lock [OF ok])
      moreover have "heap_ok m1 h" "confined h (territory m h) m m1" using ok by (simp_all add: m1_def confined_def)
      ultimately show thesis using that [of 0 m1] None fit by simp
    next
      case (Some a)
      obtain m' L' F' k where r: "rt_memheap_alloc h n m = Some (a + 24, m')" "heap_rep m' h L' F'" "request_size n \<le> k"
        "k < request_size n + 36" "live m h (a + 24) = None" "live m' h = (live m h)(a + 24 \<mapsto> k)"
        "confined h (territory m h) m m'"
        by (rule rt_memheap_alloc_fit [OF rep lock refl True Some])
      have ex: "\<exists>k \<in> set (free_sizes m h). request_size n \<le> k" using fit Some by auto
      show thesis by (rule that [OF r(1) heap_okI [OF r(2)] r(7)]) (use r(3-6) True ex in auto)
    qed
  qed
qed

lemma free_total:
  assumes ok: "heap_ok m h" and lv: "live m h p = Some k" and lock: "lock_result m (lock_takes m) = RT_EOK"
  obtains m' where "rt_memheap_free p m = Some m'" "heap_ok m' h" "confined h (territory m h) m m'"
    "live m' h = (live m h)(p := None)"
proof -
  obtain L F where rep: "heap_rep m h L F" using ok by (rule heap_okE)
  obtain us a b vs where L: "L = us @ a # b # vs" "is_used m a" "p = a + 24" using live_split [OF rep lv] by metis
  obtain m' L' F' where r: "rt_memheap_free (a + 24) m = Some m'" "heap_rep m' h L' F'"
    "live m' h = (live m h)(a + 24 := None)" "confined h (territory m h) m m'"
    by (rule rt_memheap_free_rep [OF rep L(1,2) lock])
  then show thesis using that heap_okI L(3) by metis
qed

definition lock_free :: "mem \<Rightarrow> bool" where
  "lock_free m \<longleftrightarrow> (\<forall>n. lock_result m n = RT_EOK)"

lemma lock_freeD: "lock_free m \<Longrightarrow> lock_result m n = RT_EOK"
  by (simp add: lock_free_def)

lemma lock_free_confined: "confined h A m m' \<Longrightarrow> lock_free m' = lock_free m"
  by (simp add: confined_def lock_free_def)

lemma confined_pool: "confined h A m m' \<Longrightarrow> pool_size (heaps m' h) = pool_size (heaps m h)"
  by (simp add: confined_def place_def)

interpretation mh: allocator "\<lambda>m. heap_ok m h \<and> lock_free m \<and> pool_size (heaps m h) = sz" "\<lambda>m. live m h"
  "\<lambda>n k. request_size n \<le> k" "rt_memheap_alloc h" rt_memheap_free for h sz
proof (unfold_locales, goal_cases)
  case (1 s p n q k)
  then show ?case using live_disjoint [of s h p n q k] by auto
next
  case (2 s)
  then show ?case using live_place(5) [of s h 0] by (cases "live s h 0") auto
next
  case (3 s n)
  then have ok: "heap_ok s h" "lock_free s" "pool_size (heaps s h) = sz" by auto
  show ?case
  proof (rule alloc_total [OF ok(1) lock_freeD [OF ok(2)], of n])
    fix p m' assume a: "rt_memheap_alloc h n s = Some (p, m')" "heap_ok m' h" "confined h (territory s h) s m'"
      "p = 0 \<Longrightarrow> live m' h = live s h"
      "p \<noteq> 0 \<Longrightarrow> live s h p = None \<and> (\<exists>k. request_size n \<le> k \<and> k < request_size n + 36 \<and> live m' h = (live s h)(p \<mapsto> k))"
    show ?thesis
      using a(1,2,4,5) lock_free_confined [OF a(3)] confined_pool [OF a(3)] ok(2,3)
      by (intro exI [of _ p] exI [of _ m']) auto
  qed
next
  case (4 s p)
  then obtain k where ok: "heap_ok s h" "lock_free s" "live s h p = Some k" "pool_size (heaps s h) = sz" by auto
  show ?case
  proof (rule free_total [OF ok(1,3) lock_freeD [OF ok(2)]])
    fix m' assume a: "rt_memheap_free p s = Some m'" "heap_ok m' h" "confined h (territory s h) s m'"
      "live m' h = (live s h)(p := None)"
    show ?thesis
      using a(1,2,4) lock_free_confined [OF a(3)] confined_pool [OF a(3)] ok(2,4) by (intro exI [of _ m']) simp
  qed
qed

section \<open>Reallocation\<close>

text \<open>What a reallocation of the block at \<open>p\<close>, \<open>k\<close> bytes, to \<open>n\<close> bytes may answer: either nothing
  has changed, or the block is now at \<open>q\<close>, large enough, with its contents.\<close>

definition moved :: "addr \<Rightarrow> addr \<Rightarrow> nat \<Rightarrow> nat \<Rightarrow> mem \<Rightarrow> addr \<Rightarrow> mem \<Rightarrow> bool" where
  "moved h p k n m q m' \<longleftrightarrow>
     (\<exists>k'. request_size n \<le> k' \<and> live m' h = ((live m h)(p := None))(q \<mapsto> k') \<and>
       (\<forall>i < min k k'. bytes m' (q + i) = bytes m (p + i)) \<and>
       (\<forall>x. \<not> (q \<le> x \<and> x < q + k') \<longrightarrow> bytes m' x = bytes m x))"

lemma movedI_same:
  assumes "request_size n \<le> k'" "live m' h = (live m h)(p \<mapsto> k')" "bytes m' = bytes m"
  shows "moved h p k n m p m'"
  using assms by (auto simp: moved_def intro!: exI [of _ k'])

lemma request_size_idem: "request_size (request_size n) = request_size n"
proof -
  define s where "s = request_size n"
  have s: "4 dvd s" "12 \<le> s" "s < 4294967296" using request_size_facts [of n] by (simp_all add: s_def)
  have "s \<le> 4294967292" using s by presburger
  moreover have "(s + 3) div 4 * 4 = s" using s(1) by presburger
  ultimately have "request_size s = s" using s(2) by (simp add: request_size_def RT_ALIGN_4 Let_def)
  then show ?thesis by (simp add: s_def)
qed

lemma confined_in_place:
  assumes "confined h (insert n (insert (free_header (heaps m h)) (set L))) m m'" "blocks_ok m h L"
    and "heap_rep m' h L' F'" "n \<in> set L'"
  shows "confined h (territory m h) m m'"
proof (rule confined_mono [OF assms(1)])
  have "n \<in> territory m' h" using blocks_in_territory [OF heap_repD(1) [OF assms(3)]] assms(4) by auto
  then show "insert n (insert (free_header (heaps m h)) (set L)) \<subseteq> territory m h"
    using blocks_in_territory [OF assms(2)] confined_territory [OF assms(1)] by auto
qed

lemma realloc_grow:
  assumes rep: "heap_rep m h L F" and L: "L = us @ a # b # vs" and u: "is_used m a" "\<not> is_used m b"
    and sz: "b - a - 24 < sz" "sz + 12 < MEMITEM_SIZE m b + (b - a - 24)" "4 dvd sz"
  defines "m' \<equiv> expand_block h (a + 24) (b - a - 24) sz m"
  shows "heap_ok m' h" "live m' h = (live m h)(a + 24 \<mapsto> sz)" "confined h (territory m h) m m'" "bytes m' = bytes m"
proof -
  note ok = heap_repD(1) [OF rep]
  have "vs \<noteq> []" using blocks_ok_ring(3) [OF ok] u(2) L by auto
  then obtain c zs where vs: "vs = c # zs" by (cases vs) auto
  have L2: "L = (us @ [a]) @ b # c # zs" using L vs by simp
  have bf: "MEMITEM_SIZE m b = c - b - 24" "b + 36 \<le> c" "a + 36 \<le> b"
    using block_facts(3,4) [OF ok L2] block_facts(3) [OF ok L] by auto
  have rp: "heap_rep m h (us @ a # b # c # zs) F" using rep L vs by simp
  have n: "b < a + 24 + sz" "a + 24 + sz + 36 \<le> c" using sz bf by auto
  note ex = expand_rep [OF rp u n sz(3), folded m'_def]
  have nn: "a + 36 \<le> a + 24 + sz" using n bf by simp
  note rl = reshape_lists [OF heap_repD(4) [OF rp] blocks_ok_ring(2) [OF heap_repD(1) [OF rp]] u nn n(2) ex(2)]
  show "heap_ok m' h" by (rule heap_okI [OF ex(1)])
  have "a + 24 + sz - a - 24 = sz" by simp
  then show "live m' h = (live m h)(a + 24 \<mapsto> sz)" using live_resize(1) [OF rp ex(1) rl(3) rl(4)] by simp
  show "confined h (territory m h) m m'" by (rule confined_in_place [OF ex(3) heap_repD(1) [OF rp] ex(1)]) simp
  then show "bytes m' = bytes m" by (simp add: confined_def)
qed

lemma realloc_shrink:
  assumes rep: "heap_rep m h L F" and L: "L = us @ a # b # vs" and u: "is_used m a"
    and sz: "a + 24 + sz + 36 \<le> b" "12 \<le> sz" "4 dvd sz"
  defines "m' \<equiv> shrink_block h a sz m"
  shows "heap_ok m' h" "live m' h = (live m h)(a + 24 \<mapsto> sz)" "confined h (territory m h) m m'" "bytes m' = bytes m"
proof -
  note ok = heap_repD(1) [OF rep]
  have e: "a + 24 + sz - a - 24 = sz" "a + 36 \<le> a + 24 + sz" using sz(2) by auto
  have "heap_ok m' h \<and> live m' h = (live m h)(a + 24 \<mapsto> sz) \<and> confined h (territory m h) m m'"
  proof (cases "is_used m b")
    case True
    have rp: "heap_rep m h (us @ a # b # vs) F" using rep L by simp
    note sh = shrink_used_rep [OF rp u True sz, folded m'_def]
    note tl = trim_lists [OF heap_repD(4) [OF rp] blocks_ok_ring(2) [OF heap_repD(1) [OF rp]] u True e(2) sz(1) sh(2)]
    show ?thesis
      using heap_okI [OF sh(1)] live_resize(1) [OF rp sh(1) tl(3,4)] confined_in_place [OF sh(3) heap_repD(1) [OF rp] sh(1)] e(1)
      by simp
  next
    case False
    have "vs \<noteq> []" using blocks_ok_ring(3) [OF ok] False L by auto
    then obtain c zs where vs: "vs = c # zs" by (cases vs) auto
    have rp: "heap_rep m h (us @ a # b # c # zs) F" using rep L vs by simp
    have L0: "us @ a # b # c # zs = (us @ [a]) @ b # c # zs" by simp
    have "b + 36 \<le> c" using block_facts(3) [OF heap_repD(1) [OF rp] L0] .
    then have nc: "a + 24 + sz + 36 \<le> c" using sz(1) by simp
    note sh = shrink_free_rep [OF rp u False sz, folded m'_def]
    note rl = reshape_lists [OF heap_repD(4) [OF rp] blocks_ok_ring(2) [OF heap_repD(1) [OF rp]] u False e(2) nc sh(2)]
    show ?thesis
      using heap_okI [OF sh(1)] live_resize(1) [OF rp sh(1) rl(3,4)] confined_in_place [OF sh(3) heap_repD(1) [OF rp] sh(1)] e(1)
      by simp
  qed
  then show "heap_ok m' h" "live m' h = (live m h)(a + 24 \<mapsto> sz)" "confined h (territory m h) m m'" "bytes m' = bytes m"
    by (simp_all add: confined_def)
qed

lemma realloc_move:
  assumes ok: "heap_ok m h" "lock_free m" and lv: "live m h p = Some k" and sz: "sz = request_size n" "k < sz"
  obtains q m' where "(case rt_memheap_alloc h sz m of None \<Rightarrow> None | Some (q, m2) \<Rightarrow>
      if q \<noteq> 0 then map_option (Pair q) (rt_memheap_free p (memcpy q p k m2)) else Some (q, m2)) = Some (q, m')"
    "heap_ok m' h" "confined h (territory m h) m (m'\<lparr>bytes := bytes m\<rparr>)"
    "q = 0 \<Longrightarrow> live m' h = live m h \<and> bytes m' = bytes m" "q \<noteq> 0 \<Longrightarrow> moved h p k n m q m'"
proof (rule alloc_total [OF ok(1) lock_freeD [OF ok(2)], of sz])
  fix q m2
  assume a: "rt_memheap_alloc h sz m = Some (q, m2)" "heap_ok m2 h" "confined h (territory m h) m m2"
    "(q \<noteq> 0) = (request_size sz < available_size (heaps m h) \<and> (\<exists>k \<in> set (free_sizes m h). request_size sz \<le> k))"
    "q = 0 \<Longrightarrow> live m2 h = live m h"
    "q \<noteq> 0 \<Longrightarrow> live m h q = None \<and> (\<exists>k. request_size sz \<le> k \<and> k < request_size sz + 36 \<and> live m2 h = (live m h)(q \<mapsto> k))"
  have b2: "bytes m2 = bytes m" "lock_free m2" using a(3) ok(2) by (simp_all add: confined_def lock_free_confined [OF a(3)])
  show thesis
  proof (cases "q = 0")
    case True
    have "confined h (territory m h) m (m2\<lparr>bytes := bytes m\<rparr>)" using a(3) by (simp add: confined_def)
    then show thesis using that [of q m2] a True b2 by simp
  next
    case False
    obtain k' where k': "request_size sz \<le> k'" "live m2 h = (live m h)(q \<mapsto> k')" "live m h q = None" using a(6) False by blast
    have szk: "sz \<le> k'" using k'(1) request_size_idem [of n] sz(1) by simp
    have pq: "p \<noteq> q" using lv k'(3) by auto
    define mc where "mc = memcpy q p k m2"
    have okc: "heap_ok mc h" "live mc h = live m2 h" unfolding mc_def memcpy_def using a(2) live_lock(3) [OF a(2)] by simp_all
    have lc: "lock_result mc i = RT_EOK" for i using lock_freeD [OF b2(2)] by (simp add: mc_def memcpy_def)
    have "live mc h p = Some k" using okc(2) k'(2) pq lv by simp
    from free_total [OF okc(1) this lc] obtain m' where m': "rt_memheap_free p mc = Some m'" "heap_ok m' h"
      "confined h (territory mc h) mc m'" "live m' h = (live mc h)(p := None)" by metis
    have bt: "bytes m' = (\<lambda>x. if q \<le> x \<and> x < q + k then bytes m (p + (x - q)) else bytes m x)"
      using m'(3) unfolding b2(1) [symmetric] by (simp add: confined_def mc_def memcpy_def)
    have lm: "live m' h = ((live m h)(p := None))(q \<mapsto> k')" using m'(4) okc(2) k'(2) pq by (auto simp: fun_eq_iff)
    have "moved h p k n m q m'" unfolding moved_def
    proof (intro exI conjI)
      show "request_size n \<le> k'" using szk sz(1) by simp
      show "\<forall>x. \<not> (q \<le> x \<and> x < q + k') \<longrightarrow> bytes m' x = bytes m x" using bt szk sz(2) by auto
      show "\<forall>i < min k k'. bytes m' (q + i) = bytes m (p + i)" using bt by simp
    qed (rule lm)
    moreover have "territory mc h = territory m h" using confined_territory [OF a(3)] by (simp add: mc_def memcpy_def territory_def)
    then have "confined h (territory m h) m (m'\<lparr>bytes := bytes m\<rparr>)"
      using m'(3) a(3) by (auto simp: confined_def mc_def memcpy_def)
    ultimately show thesis using that [of q m'] a(1) m'(1,2) False by (simp add: mc_def)
  qed
qed

lemma moved_lock [simp]: "heap_ok m h \<Longrightarrow> moved h p k n (m\<lparr>lock_takes := i\<rparr>) q m' = moved h p k n m q m'"
  by (simp add: moved_def)

lemma realloc_total:
  assumes ok: "heap_ok m h" "lock_free m" and lv: "live m h p = Some k" and n: "0 < n" "n \<le> 4294967280"
  obtains q m' where "rt_memheap_realloc h p n m = Some (q, m')" "heap_ok m' h"
    "confined h (territory m h) m (m'\<lparr>bytes := bytes m\<rparr>)"
    "q = 0 \<Longrightarrow> live m' h = live m h \<and> bytes m' = bytes m" "q \<noteq> 0 \<Longrightarrow> moved h p k n m q m'"
proof -
  define sz where "sz = request_size n"
  have sz: "4 dvd sz" "12 \<le> sz" "sz + 12 < 4294967296" "sz + 12 < 4294967296"
    using request_size_facts(1,2) [of n] request_size_bound [OF n(2)] unfolding sz_def by auto
  obtain L F where rep: "heap_rep m h L F" using ok(1) by (rule heap_okE)
  note bok = heap_repD(1) [OF rep]
  obtain us a b vs where L: "L = us @ a # b # vs" "is_used m a" "p = a + 24" "k = b - a - 24" "a + 36 \<le> b"
    using live_split [OF rep lv] by metis
  note bf = block_facts [OF bok L(1)]
  have a: "u32 (int p - int RT_MEMHEAP_SIZE) = a" using bf(5) L(3,5) by (intro u32_eqI) auto
  have p0: "p \<noteq> 0" using L(3) by simp
  have ms: "MEMITEM_SIZE m a = k" using bf(4) L(4) by simp
  define m1 where "m1 = m\<lparr>lock_takes := Suc (lock_takes m)\<rparr>"
  have m1: "heap_rep m1 h L F" "is_used m1 = is_used m" "MEMITEM_SIZE m1 = MEMITEM_SIZE m" "i_next (items m1 a) = b"
    "bytes m1 = bytes m" "territory m1 h = territory m h" "lock_free m1" "heap_ok m1 h" "live m1 h = live m h"
    "\<And>m'. confined h A m1 m' = confined h A m m'" for A
    using rep bf(1) ok live_lock(1) [OF ok(1)] by (simp_all add: m1_def territory_def lock_free_def confined_def)
  have lk: "take_lock m = (RT_EOK, m1)" using lock_freeD [OF ok(2)] by (simp add: take_lock_def m1_def)
  have mv: "moved h p k n m1 q m' = moved h p k n m q m'" for q m' unfolding m1_def by (rule moved_lock [OF ok(1)])
  have lv1: "live m1 h p = Some k" using lv m1(9) by simp
  note un = rt_memheap_realloc_def [of h p n m, folded sz_def, unfolded Let_def a ms lk prod.case m1(2-4)]
  have nz: "n \<noteq> 0" using n(1) by simp
  consider "k < sz" "\<not> is_used m b" "u32 (int sz + int RT_MEMHEAP_MINIALLOC) < u32 (int (MEMITEM_SIZE m b) + int k)"
    | "k < sz" "is_used m b \<or> \<not> u32 (int sz + int RT_MEMHEAP_MINIALLOC) < u32 (int (MEMITEM_SIZE m b) + int k)"
    | "sz \<le> k" "k \<le> u32 (int sz + int RT_MEMHEAP_SIZE + int RT_MEMHEAP_MINIALLOC)"
    | "sz \<le> k" "\<not> k \<le> u32 (int sz + int RT_MEMHEAP_SIZE + int RT_MEMHEAP_MINIALLOC)" by linarith
  then show thesis
  proof cases
    case 1
    have "vs \<noteq> []" using blocks_ok_ring(3) [OF bok] 1(2) L(1) by auto
    then obtain c zs where vs: "vs = c # zs" by (cases vs) auto
    have L2: "L = (us @ [a]) @ b # c # zs" using L(1) vs by simp
    have "MEMITEM_SIZE m b + k < 4294967296" using block_facts(3-5) [OF bok L2] L(4,5) by simp
    then have "sz + 12 < MEMITEM_SIZE m b + k"
      using 1(3) sz(4) u32_small [of "sz + 12"] u32_small [of "MEMITEM_SIZE m b + k"] by simp
    then have c: "b - a - 24 < sz" "sz + 12 < MEMITEM_SIZE m1 b + (b - a - 24)" using 1(1) L(4) m1(3) by auto
    have u: "is_used m1 a" "\<not> is_used m1 b" using L(2) 1(2) m1(2) by auto
    note g = realloc_grow [OF m1(1) L(1) u c sz(1)]
    define m' where "m' = expand_block h (a + 24) (b - a - 24) sz m1"
    have "rt_memheap_realloc h p n m = Some (p, m')" using un 1 nz p0 L(3-5) by (simp add: m'_def)
    moreover have "moved h p k n m p m'" unfolding mv [symmetric]
      by (rule movedI_same [of n sz]) (use g L(3) in \<open>simp_all add: sz_def m'_def\<close>)
    moreover have "m'\<lparr>bytes := bytes m\<rparr> = m'" using g(4) m1(5) by (simp add: m'_def)
    ultimately show thesis using that [of p m'] g(1,3) p0 m1(6,10) by (simp add: m'_def)
  next
    case 2
    obtain q m' where r: "(case rt_memheap_alloc h sz m1 of None \<Rightarrow> None | Some (q, m2) \<Rightarrow>
        if q \<noteq> 0 then map_option (Pair q) (rt_memheap_free p (memcpy q p k m2)) else Some (q, m2)) = Some (q, m')"
      "heap_ok m' h" "confined h (territory m1 h) m1 (m'\<lparr>bytes := bytes m1\<rparr>)"
      "q = 0 \<Longrightarrow> live m' h = live m1 h \<and> bytes m' = bytes m1" "q \<noteq> 0 \<Longrightarrow> moved h p k n m1 q m'"
      by (rule realloc_move [OF m1(8,7) lv1 sz_def 2(1)]) (rule that)
    have "rt_memheap_realloc h p n m = Some (q, m')"
    proof -
      have c: "\<not> (\<not> is_used m b \<and> u32 (int sz + int RT_MEMHEAP_MINIALLOC) < u32 (int (MEMITEM_SIZE m b) + int k))"
        using 2(2) by blast
      have ba: "\<not> b \<le> a" using L(5) by simp
      show ?thesis using r(1) unfolding un
        by (simp only: c ba nz p0 2(1) if_True if_False not_True_eq_False refl simp_thms split: option.splits)
          (auto split: option.splits prod.splits)
    qed
    then show thesis using that [of q m'] r(2-5) mv m1 by simp
  next
    case 3
    then have "rt_memheap_realloc h p n m = Some (p, m)" using un nz p0 by simp
    moreover have "moved h p k n m p m" by (rule movedI_same [of n k]) (use 3 lv in \<open>auto simp: sz_def\<close>)
    ultimately show thesis using that [of p m] ok(1) p0 confined_refl by simp
  next
    case 4
    have "u32 (int sz + int RT_MEMHEAP_SIZE + int RT_MEMHEAP_MINIALLOC) = sz + 36"
      using 4(1) bf(5) L(4,5) by (intro u32_eqI) auto
    then have lt: "a + 24 + sz + 36 \<le> b" using 4 L(4,5) by simp
    have u: "is_used m1 a" using L(2) m1(2) by simp
    note g = realloc_shrink [OF m1(1) L(1) u lt sz(2,1)]
    define m' where "m' = shrink_block h a sz m1"
    have "rt_memheap_realloc h p n m = Some (p, m')" using un 4 nz p0 by (simp add: m'_def)
    moreover have "moved h p k n m p m'" unfolding mv [symmetric]
      by (rule movedI_same [of n sz]) (use g L(3) in \<open>simp_all add: sz_def m'_def\<close>)
    moreover have "m'\<lparr>bytes := bytes m\<rparr> = m'" using g(4) m1(5) by (simp add: m'_def)
    ultimately show thesis using that [of p m'] g(1,3) p0 m1(6,10) by (simp add: m'_def)
  qed
qed

section \<open>Several heaps\<close>

lemma heap_frame:
  assumes ok: "heap_ok m g" and c: "confined h (territory m h) m m'" and ne: "g \<noteq> h"
    and dis: "territory m g \<inter> territory m h = {}"
  shows "heap_ok m' g" "live m' g = live m g" "territory m' g = territory m g"
proof -
  obtain L F where rep: "heap_rep m g L F" using ok by (rule heap_okE)
  note bok = heap_repD(1) [OF rep] and fok = heap_repD(2) [OF rep]
  have hp: "heaps m' g = heaps m g" using c ne by (simp add: confined_def)
  have it: "items m' x = items m x" if "x \<in> insert (free_header (heaps m g)) (set L)" for x
    using blocks_in_territory [OF bok] that dis c unfolding confined_def by blast
  have us: "is_used m' x = is_used m x" "magic_ok m' g x = magic_ok m g x" if "x \<in> set L" for x
    using it [of x] that by (simp_all add: is_used_def magic_ok_def)
  have "blocks_ok m' g L"
  proof (rule blocks_ok_new [OF bok])
    show "ring (bview m') (hd L) (tl L)"
      by (rule ring_frame [OF blocks_ok_ring(1) [OF bok]]) (use blocks_ok_ring(4) [OF bok] it in auto)
    show "4 dvd x \<and> magic_ok m' g x" if "x \<in> set L" for x using blocks_ok_bounds(5,6) [OF bok that] us(2) [OF that] by simp
    show "is_used m' (last L)" using blocks_ok_ring(3,4) [OF bok] us(1) [of "last L"] by simp
  qed (use blocks_ok_ring [OF bok] hp in simp_all)
  moreover have fF: "set F = {x \<in> set L. \<not> is_used m x}" using fok by (simp add: free_ok_def)
  have "ring (fview m') (free_header (heaps m' g)) F" unfolding hp
    by (rule ring_frame [OF free_okD(1) [OF fok bok]]) (use it fF in auto)
  then have "free_ok m' g L F" using fF us(1) by (auto simp: free_ok_def)
  moreover have fb: "free_bytes (is_used m') L = free_bytes (is_used m) L" "live_of (is_used m') L = live_of (is_used m) L"
    by (rule free_bytes_cong live_of_cong, use us(1) in \<open>blast dest: in_set_butlastD\<close>)+
  then have "sizes_ok m' g L" using heap_repD(3) [OF rep] hp by (simp add: sizes_ok_def)
  moreover have "coalesced (is_used m') L" by (rule coalesced_mono [OF heap_repD(4) [OF rep]]) (use us(1) in simp)
  ultimately have rep': "heap_rep m' g L F" by (simp add: heap_rep_def)
  then show "heap_ok m' g" "live m' g = live m g" "territory m' g = territory m g"
    using heap_okI live_rep [OF rep] live_rep [OF rep'] fb(2) hp by (simp_all add: territory_def)
qed

definition sys_ok :: "addr list \<Rightarrow> mem \<Rightarrow> bool" where
  "sys_ok hs m \<longleftrightarrow> lock_free m \<and> (\<forall>h \<in> set hs. heap_ok m h) \<and>
     (\<forall>g \<in> set hs. \<forall>h \<in> set hs. g \<noteq> h \<longrightarrow> territory m g \<inter> territory m h = {})"

definition live_sys :: "addr list \<Rightarrow> mem \<Rightarrow> addr \<Rightarrow> nat option" where
  "live_sys hs m p = (case find (\<lambda>h. live m h p \<noteq> None) hs of None \<Rightarrow> None | Some h \<Rightarrow> live m h p)"

lemma sys_okD:
  assumes "sys_ok hs m"
  shows "lock_free m" "h \<in> set hs \<Longrightarrow> heap_ok m h"
    "g \<in> set hs \<Longrightarrow> h \<in> set hs \<Longrightarrow> g \<noteq> h \<Longrightarrow> territory m g \<inter> territory m h = {}"
  using assms by (simp_all add: sys_ok_def)

lemma live_in_territory:
  assumes "heap_ok m h" "live m h p = Some k" "p \<le> x" "x < p + k"
  shows "x \<in> territory m h"
  using live_place(1,2) [OF assms(1,2)] assms(3,4) by (simp add: territory_def)

lemma live_one_heap:
  assumes "sys_ok hs m" "g \<in> set hs" "h \<in> set hs" "live m g p = Some k" "live m h p = Some n"
  shows "g = h"
proof (rule ccontr)
  assume "g \<noteq> h"
  then have "territory m g \<inter> territory m h = {}" using sys_okD(3) [OF assms(1-3)] by simp
  moreover have "p \<in> territory m g" "p \<in> territory m h"
    using live_in_territory [OF sys_okD(2) [OF assms(1,2)] assms(4), of p] live_place(4) [OF sys_okD(2) [OF assms(1,2)] assms(4)]
      live_in_territory [OF sys_okD(2) [OF assms(1,3)] assms(5), of p] live_place(4) [OF sys_okD(2) [OF assms(1,3)] assms(5)]
    by simp_all
  ultimately show False by blast
qed

lemma live_sys_iff:
  assumes "sys_ok hs m"
  shows "live_sys hs m p = Some k \<longleftrightarrow> (\<exists>h \<in> set hs. live m h p = Some k)"
proof
  assume "live_sys hs m p = Some k"
  then show "\<exists>h \<in> set hs. live m h p = Some k" using find_Some by (fastforce simp: live_sys_def split: option.splits)
next
  assume "\<exists>h \<in> set hs. live m h p = Some k"
  then obtain h where h: "h \<in> set hs" "live m h p = Some k" by blast
  then obtain g where g: "find (\<lambda>h. live m h p \<noteq> None) hs = Some g"
    by (cases "find (\<lambda>h. live m h p \<noteq> None) hs") (auto simp: find_None_iff)
  then obtain n where "g \<in> set hs" "live m g p = Some n" using find_Some [OF g] by auto
  then have "g = h" using live_one_heap [OF assms] h by blast
  then show "live_sys hs m p = Some k" using g h by (simp add: live_sys_def)
qed

text \<open>A change of one heap, seen by the whole system.\<close>

lemma sys_step:
  assumes ok: "sys_ok hs m" and h: "h \<in> set hs" and hm: "heap_ok m' h" and c: "confined h (territory m h) m m'"
  shows "sys_ok hs m'" "g \<in> set hs \<Longrightarrow> g \<noteq> h \<Longrightarrow> live m' g = live m g"
proof -
  have fr: "heap_ok m' g \<and> live m' g = live m g \<and> territory m' g = territory m g" if "g \<in> set hs" "g \<noteq> h" for g
    using heap_frame [OF sys_okD(2) [OF ok that(1)] c that(2) sys_okD(3) [OF ok that(1) h that(2)]] by simp
  then show "g \<in> set hs \<Longrightarrow> g \<noteq> h \<Longrightarrow> live m' g = live m g" by simp
  have te: "territory m' g = territory m g" if "g \<in> set hs" for g
    using fr [OF that] confined_territory [OF c] by (cases "g = h") simp_all
  have "heap_ok m' g" if "g \<in> set hs" for g using fr [OF that] hm by (cases "g = h") simp_all
  moreover have "lock_free m'" using lock_free_confined [OF c] sys_okD(1) [OF ok] by simp
  ultimately show "sys_ok hs m'" using sys_okD(3) [OF ok] te unfolding sys_ok_def by simp
qed

lemma live_sys_step:
  assumes ok: "sys_ok hs m" "sys_ok hs m'" and h: "h \<in> set hs"
    and others: "\<And>g. g \<in> set hs \<Longrightarrow> g \<noteq> h \<Longrightarrow> live m' g = live m g"
  shows "live m' h = live m h \<Longrightarrow> live_sys hs m' = live_sys hs m"
    "live m h p = None \<Longrightarrow> live m' h = (live m h)(p \<mapsto> k) \<Longrightarrow> live_sys hs m p = None \<and> live_sys hs m' = (live_sys hs m)(p \<mapsto> k)"
    "live m h p = Some k \<Longrightarrow> live m' h = (live m h)(p := None) \<Longrightarrow> live_sys hs m' = (live_sys hs m)(p := None)"
proof -
  show "live_sys hs m' = live_sys hs m" if "live m' h = live m h"
  proof (rule map_eqI)
    show "live_sys hs m' x = Some y \<longleftrightarrow> live_sys hs m x = Some y" for x y
      unfolding live_sys_iff [OF ok(1)] live_sys_iff [OF ok(2)] using that others by metis
  qed
  show "live_sys hs m p = None \<and> live_sys hs m' = (live_sys hs m)(p \<mapsto> k)"
    if l: "live m h p = None" "live m' h = (live m h)(p \<mapsto> k)"
  proof
    have o: "live m g p = None" if "g \<in> set hs" for g
    proof (cases "g = h")
      case False
      show ?thesis
      proof (cases "live m g p")
        case (Some n)
        then have "live m' g p = Some n" using others [OF \<open>g \<in> set hs\<close> False] by simp
        moreover have "live m' h p = Some k" using l(2) by simp
        ultimately show ?thesis using live_one_heap [OF ok(2) \<open>g \<in> set hs\<close> h] False by blast
      qed
    qed (use l in simp)
    then show n: "live_sys hs m p = None" using live_sys_iff [OF ok(1), of p] by (cases "live_sys hs m p") auto
    show "live_sys hs m' = (live_sys hs m)(p \<mapsto> k)"
    proof (rule map_eqI)
      have pw: "live m' g x = (if x = p then (if g = h then Some k else None) else live m g x)" if "g \<in> set hs" for g x
        using others [OF that] o [OF that] l by (cases "g = h") auto
      have "(\<exists>g \<in> set hs. live m' g x = Some y) \<longleftrightarrow> (if x = p then y = k else \<exists>g \<in> set hs. live m g x = Some y)" for x y
        using h by (auto simp: pw split: if_splits)
      then show "live_sys hs m' x = Some y \<longleftrightarrow> ((live_sys hs m)(p \<mapsto> k)) x = Some y" for x y
        unfolding live_sys_iff [OF ok(2)] using live_sys_iff [OF ok(1), of x y] by auto
    qed
  qed
  show "live_sys hs m' = (live_sys hs m)(p := None)"
    if l: "live m h p = Some k" "live m' h = (live m h)(p := None)"
  proof (rule map_eqI)
    have o: "live m' g p = None" if "g \<in> set hs" for g
    proof (cases "g = h")
      case False
      show ?thesis
      proof (cases "live m' g p")
        case (Some n)
        then have "live m g p = Some n" using others [OF that False] by simp
        then show ?thesis using live_one_heap [OF ok(1) that h _ l(1)] False by blast
      qed
    qed (use l in simp)
    have pw: "live m' g x = (if x = p then None else live m g x)" if "g \<in> set hs" for g x
      using others [OF that] o [OF that] l by (cases "g = h") auto
    have "(\<exists>g \<in> set hs. live m' g x = Some y) \<longleftrightarrow> x \<noteq> p \<and> (\<exists>g \<in> set hs. live m g x = Some y)" for x y
      by (auto simp: pw split: if_splits)
    then show "live_sys hs m' x = Some y \<longleftrightarrow> ((live_sys hs m)(p := None)) x = Some y" for x y
      unfolding live_sys_iff [OF ok(2)] using live_sys_iff [OF ok(1), of x y] by auto
  qed
qed

definition alloc_result :: "addr list \<Rightarrow> nat \<Rightarrow> mem \<Rightarrow> addr \<Rightarrow> mem \<Rightarrow> bool" where
  "alloc_result hs n m p m' \<longleftrightarrow> sys_ok hs m' \<and>
     (if p = 0 then live_sys hs m' = live_sys hs m
      else live_sys hs m p = None \<and> (\<exists>k. request_size n \<le> k \<and> live_sys hs m' = (live_sys hs m)(p \<mapsto> k)))"

lemma alloc_result_none:
  assumes "alloc_result hs n m 0 m1"
  shows "sys_ok hs m1" "alloc_result hs n m1 q m2 = alloc_result hs n m q m2"
  using assms by (simp_all add: alloc_result_def)

lemma heap_alloc_result:
  assumes "sys_ok hs m" "h \<in> set hs"
  obtains p m' where "rt_memheap_alloc h n m = Some (p, m')" "alloc_result hs n m p m'" "bytes m' = bytes m"
proof (rule alloc_total [OF sys_okD(2) [OF assms] lock_freeD [OF sys_okD(1) [OF assms(1)]], of n])
  fix p m'
  assume a: "rt_memheap_alloc h n m = Some (p, m')" "heap_ok m' h" "confined h (territory m h) m m'"
    "p = 0 \<Longrightarrow> live m' h = live m h"
    "p \<noteq> 0 \<Longrightarrow> live m h p = None \<and> (\<exists>k. request_size n \<le> k \<and> k < request_size n + 36 \<and> live m' h = (live m h)(p \<mapsto> k))"
  note st = sys_step [OF assms a(2,3)]
  note ls = live_sys_step [OF assms(1) st(1) assms(2) st(2)]
  have "alloc_result hs n m p m'"
    using a(4,5) ls(1) ls(2) [of p] st(1) by (cases "p = 0") (auto simp: alloc_result_def)
  then show thesis using that a(1,3) by (simp add: confined_def)
qed

lemma malloc_others_result:
  "sys_ok hs m \<Longrightarrow> set gs \<subseteq> set hs \<Longrightarrow>
    \<exists>p m'. malloc_others sys gs n m = Some (p, m') \<and> alloc_result hs n m p m' \<and> bytes m' = bytes m"
proof (induction gs arbitrary: m)
  case Nil
  then show ?case by (simp add: alloc_result_def)
next
  case (Cons g gs)
  show ?case
  proof (cases "g = sys")
    case True
    then show ?thesis using Cons by simp
  next
    case False
    obtain p m1 where a: "rt_memheap_alloc g n m = Some (p, m1)" "alloc_result hs n m p m1" "bytes m1 = bytes m"
      using heap_alloc_result [of hs m g n] Cons.prems by auto
    show ?thesis
    proof (cases "p = 0")
      case True
      then have r: "alloc_result hs n m 0 m1" using a(2) by simp
      obtain q m2 where "malloc_others sys gs n m1 = Some (q, m2)" "alloc_result hs n m1 q m2" "bytes m2 = bytes m1"
        using Cons.IH [OF alloc_result_none(1) [OF r]] Cons.prems(2) by auto
      then show ?thesis using alloc_result_none(2) [OF r] a(1,3) True False by simp
    qed (use a False in simp)
  qed
qed

lemma malloc_result:
  assumes "sys_ok hs m" "sys \<in> set hs"
  obtains p m' where "rt_malloc sys hs n m = Some (p, m')" "alloc_result hs n m p m'" "bytes m' = bytes m"
proof (rule heap_alloc_result [OF assms, of n])
  fix p m1 assume a: "rt_memheap_alloc sys n m = Some (p, m1)" "alloc_result hs n m p m1" "bytes m1 = bytes m"
  show thesis
  proof (cases "p = 0")
    case True
    then have r: "alloc_result hs n m 0 m1" using a(2) by simp
    obtain q m2 where q: "malloc_others sys hs n m1 = Some (q, m2)" "alloc_result hs n m1 q m2" "bytes m2 = bytes m1"
      using malloc_others_result [OF alloc_result_none(1) [OF r] subset_refl, of sys n] by blast
    show thesis by (rule that [of q m2]) (use q a(1,3) True alloc_result_none(2) [OF r] in \<open>simp_all add: rt_malloc_def\<close>)
  qed (use that [of p m1] a in \<open>simp add: rt_malloc_def\<close>)
qed

lemma free_result:
  assumes "sys_ok hs m" "live_sys hs m p \<noteq> None"
  obtains m' where "rt_free p m = Some m'" "sys_ok hs m'" "live_sys hs m' = (live_sys hs m)(p := None)" "bytes m' = bytes m"
proof -
  obtain h k where h: "h \<in> set hs" "live m h p = Some k" using assms(2) live_sys_iff [OF assms(1), of p] by auto
  obtain m' where m': "rt_memheap_free p m = Some m'" "heap_ok m' h" "confined h (territory m h) m m'"
    "live m' h = (live m h)(p := None)"
    by (rule free_total [OF sys_okD(2) [OF assms(1) h(1)] h(2) lock_freeD [OF sys_okD(1) [OF assms(1)]]])
  note st = sys_step [OF assms(1) h(1) m'(2,3)]
  show thesis
    using that [of m'] m' st(1) live_sys_step(3) [OF assms(1) st(1) h(1) st(2) h(2) m'(4)]
    by (simp add: rt_free_def confined_def)
qed

lemma live_sys_disjoint:
  assumes ok: "sys_ok hs m" and l: "live_sys hs m p = Some n" "live_sys hs m q = Some k" "p \<noteq> q"
  shows "p + n \<le> q \<or> q + k \<le> p"
proof -
  obtain g h where gh: "g \<in> set hs" "live m g p = Some n" "h \<in> set hs" "live m h q = Some k"
    using l live_sys_iff [OF ok] by blast
  show ?thesis
  proof (cases "g = h")
    case True
    then show ?thesis using live_disjoint [OF sys_okD(2) [OF ok gh(1)], of p n q k] gh l(3) by auto
  next
    case False
    then have d: "territory m g \<inter> territory m h = {}" using sys_okD(3) [OF ok gh(1,3)] by simp
    have "0 < n" "0 < k" using live_place(4) [OF sys_okD(2) [OF ok gh(1)] gh(2)] live_place(4) [OF sys_okD(2) [OF ok gh(3)] gh(4)] by auto
    then show ?thesis
      using d live_in_territory [OF sys_okD(2) [OF ok gh(1)] gh(2), of "max p q"]
        live_in_territory [OF sys_okD(2) [OF ok gh(3)] gh(4), of "max p q"] by (cases "p \<le> q") (auto simp: max_def)
  qed
qed

text \<open>The functions of the system heap are an allocator.\<close>

interpretation sy: allocator "\<lambda>m. sys_ok (sys # hs) m" "live_sys (sys # hs)" "\<lambda>n k. request_size n \<le> k"
  "rt_malloc sys (sys # hs)" rt_free for sys hs
proof (unfold_locales, goal_cases)
  case (1 s p n q k)
  then show ?case by (rule live_sys_disjoint)
next
  case (2 s)
  show ?case
  proof (cases "live_sys (sys # hs) s 0")
    case (Some k)
    then obtain h where "h \<in> set (sys # hs)" "live s h 0 = Some k" using live_sys_iff [OF 2] by blast
    then show ?thesis using live_place(5) [OF sys_okD(2) [OF 2], of h 0 k] by simp
  qed
next
  case (3 s n)
  show ?case by (rule malloc_result [OF 3, of sys n]) (auto simp: alloc_result_def)
next
  case (4 s p)
  show ?case by (rule free_result [OF 4]) auto
qed

lemma live_header:
  assumes "heap_ok m h" "live m h p = Some k"
  shows "u32 (int p - int RT_MEMHEAP_SIZE) = p - 24" "MEMITEM_SIZE m (p - 24) = k" "i_pool (items m (p - 24)) = h"
proof -
  obtain L F where rep: "heap_rep m h L F" using assms(1) by (rule heap_okE)
  obtain us a b vs where L: "L = us @ a # b # vs" "p = a + 24" "k = b - a - 24" using live_split [OF rep assms(2)] by metis
  have "magic_ok m h a" using blocks_ok_bounds(6) [OF heap_repD(1) [OF rep], of a] L(1) by simp
  then show "MEMITEM_SIZE m (p - 24) = k" "i_pool (items m (p - 24)) = h"
    using block_facts(4) [OF heap_repD(1) [OF rep] L(1)] L by (auto simp: magic_ok_def)
  show "u32 (int p - int RT_MEMHEAP_SIZE) = p - 24"
    using live_place(5,6) [OF assms] L(2) by (intro u32_eqI) auto
qed

text \<open>The system's reallocation: in place, elsewhere in the same heap, or in another heap.\<close>

definition realloc_result :: "addr list \<Rightarrow> addr \<Rightarrow> nat \<Rightarrow> nat \<Rightarrow> mem \<Rightarrow> addr \<Rightarrow> mem \<Rightarrow> bool" where
  "realloc_result hs p k n m q m' \<longleftrightarrow> sys_ok hs m' \<and>
     (if q = 0 then live_sys hs m' = live_sys hs m \<and> bytes m' = bytes m
      else (\<exists>k'. n \<le> k' \<and> live_sys hs m' = ((live_sys hs m)(p := None))(q \<mapsto> k')) \<and>
        (\<forall>i < min k n. bytes m' (q + i) = bytes m (p + i)))"

lemma sys_ok_bytes [simp]: "sys_ok hs (m\<lparr>bytes := bs\<rparr>) = sys_ok hs m"
  by (simp add: sys_ok_def territory_def lock_free_def)

lemma live_sys_bytes: "sys_ok hs m \<Longrightarrow> live_sys hs (m\<lparr>bytes := bs\<rparr>) = live_sys hs m"
proof (rule map_eqI)
  fix x y assume ok: "sys_ok hs m"
  then have "live (m\<lparr>bytes := bs\<rparr>) h = live m h" if "h \<in> set hs" for h
    using live_lock(3) [OF sys_okD(2) [OF ok that]] by simp
  then show "live_sys hs (m\<lparr>bytes := bs\<rparr>) x = Some y \<longleftrightarrow> live_sys hs m x = Some y"
    using live_sys_iff [of hs "m\<lparr>bytes := bs\<rparr>"] live_sys_iff [OF ok] ok by auto
qed

lemma copy_over:
  assumes ok: "sys_ok hs m" and l: "live_sys hs m p = Some k" "live_sys hs m r = Some k'" "p \<noteq> r"
    and n: "n \<le> k'" "min k n = d"
  obtains m' where "rt_free p (memcpy r p d m) = Some m'" "sys_ok hs m'" "live_sys hs m' = (live_sys hs m)(p := None)"
    "\<forall>i < min k n. bytes m' (r + i) = bytes m (p + i)"
proof -
  have ok': "sys_ok hs (memcpy r p d m)" and l': "live_sys hs (memcpy r p d m) = live_sys hs m"
    using ok live_sys_bytes [OF ok] by (simp_all add: memcpy_def)
  have nn: "live_sys hs (memcpy r p d m) p \<noteq> None" using l l' by simp
  obtain m' where m': "rt_free p (memcpy r p d m) = Some m'" "sys_ok hs m'"
    "live_sys hs m' = (live_sys hs (memcpy r p d m))(p := None)" "bytes m' = bytes (memcpy r p d m)"
    by (rule free_result [OF ok' nn])
  then show thesis using that [of m'] n l' by (simp add: memcpy_def)
qed

lemma realloc_result_total:
  assumes ok: "sys_ok hs m" and sys: "sys \<in> set hs" and lv: "live_sys hs m p = Some k" and n: "0 < n" "n \<le> 4294967280"
  obtains q m' where "rt_realloc sys hs p n m = Some (q, m')" "realloc_result hs p k n m q m'"
proof -
  obtain h where h: "h \<in> set hs" "live m h p = Some k" using lv live_sys_iff [OF ok] by blast
  note hok = sys_okD(2) [OF ok h(1)]
  note hd = live_header [OF hok h(2)]
  have p0: "p \<noteq> 0" using live_place(5) [OF hok h(2)] by simp
  have nr: "n \<le> request_size n" using request_size_facts(4) [of n] n(2) by simp
  obtain q m1 where r: "rt_memheap_realloc h p n m = Some (q, m1)" "heap_ok m1 h"
    "confined h (territory m h) m (m1\<lparr>bytes := bytes m\<rparr>)"
    "q = 0 \<Longrightarrow> live m1 h = live m h \<and> bytes m1 = bytes m" "q \<noteq> 0 \<Longrightarrow> moved h p k n m q m1"
    by (rule realloc_total [OF hok sys_okD(1) [OF ok] h(2) n]) (rule that)
  define mb where "mb = m1\<lparr>bytes := bytes m\<rparr>"
  have mb: "heap_ok mb h" "live mb h = live m1 h" using r(2) live_lock(3) [OF r(2)] by (simp_all add: mb_def)
  note st = sys_step [OF ok h(1) mb(1) r(3) [folded mb_def]]
  note ls = live_sys_step [OF ok st(1) h(1) st(2)]
  have s1: "sys_ok hs m1" using st(1) by (simp add: mb_def)
  have lb: "live_sys hs mb = live_sys hs m1" unfolding mb_def by (rule live_sys_bytes [OF s1])
  have un: "rt_realloc sys hs p n m = (if q = 0 then do {
          (r, m2) \<leftarrow> rt_malloc sys hs n m1;
          if r \<noteq> 0 then map_option (Pair r) (rt_free p (memcpy r p (if MEMITEM_SIZE m2 (p - 24) < n then MEMITEM_SIZE m2 (p - 24) else n) m2))
          else Some (r, m2) } else Some (q, m1))"
    using p0 n(1) unfolding rt_realloc_def Let_def hd(1,3) r(1) by simp
  show thesis
  proof (cases "q = 0")
    case False
    obtain k' where k': "request_size n \<le> k'" "live m1 h = ((live m h)(p := None))(q \<mapsto> k')"
      "\<forall>i < min k k'. bytes m1 (q + i) = bytes m (p + i)" using r(5) [OF False] by (auto simp: moved_def)
    have "live_sys hs m1 = ((live_sys hs m)(p := None))(q \<mapsto> k')"
    proof -
      define ml where "ml = ((live m h)(p := None))"
      have others: "live m1 g = live m g" if "g \<in> set hs" "g \<noteq> h" for g
        using st(2) [OF that] live_lock(3) [OF sys_okD(2) [OF s1 that(1)]] by (simp add: mb_def)
      have qn: "live m g q = None" if "g \<in> set hs" "g \<noteq> h" for g
      proof (cases "live m g q")
        case (Some y)
        then have "live m1 g q = Some y" using others [OF that] by simp
        moreover have "live m1 h q = Some k'" using k'(2) by simp
        ultimately show ?thesis using live_one_heap [OF s1 that(1) h(1)] that(2) by blast
      qed
      have pn: "live m g p = None" if "g \<in> set hs" "g \<noteq> h" for g
      proof (cases "live m g p")
        case (Some y)
        then show ?thesis using live_one_heap [OF ok that(1) h(1) _ h(2)] that(2) by blast
      qed
      have pw: "live m1 g x = (if g = h then (((live m h)(p := None))(q \<mapsto> k')) x else if x = p \<or> x = q then None else live m g x)"
        if "g \<in> set hs" for g x
        using k'(2) others [OF that] qn [OF that] pn [OF that] by auto
      show ?thesis
      proof (rule map_eqI)
        have "(\<exists>g \<in> set hs. live m1 g x = Some y) \<longleftrightarrow> (if x = q then y = k' else x \<noteq> p \<and> (\<exists>g \<in> set hs. live m g x = Some y))" for x y
          using h(1) by (auto simp: pw split: if_splits)
        then show "live_sys hs m1 x = Some y \<longleftrightarrow> (((live_sys hs m)(p := None))(q \<mapsto> k')) x = Some y" for x y
          unfolding live_sys_iff [OF s1] using live_sys_iff [OF ok, of x y] by auto
      qed
    qed
    moreover have "\<forall>i < min k n. bytes m1 (q + i) = bytes m (p + i)" using k'(1,3) nr by simp
    ultimately have "realloc_result hs p k n m q m1"
      using s1 False k'(1) nr unfolding realloc_result_def by (auto intro!: exI [of _ k'])
    then show thesis using that [of q m1] un False by simp
  next
    case True
    then have m1: "live_sys hs m1 = live_sys hs m" "bytes m1 = bytes m" using r(4) ls(1) mb(2) lb by auto
    obtain r2 m2 where r2: "rt_malloc sys hs n m1 = Some (r2, m2)" "alloc_result hs n m1 r2 m2" "bytes m2 = bytes m1"
      by (rule malloc_result [OF s1 sys])
    show thesis
    proof (cases "r2 = 0")
      case True
      then have "realloc_result hs p k n m 0 m2" using r2 m1 by (auto simp: realloc_result_def alloc_result_def)
      then show thesis using that [of 0 m2] un \<open>q = 0\<close> r2(1) True by simp
    next
      case False
      then obtain k' where k': "live_sys hs m1 r2 = None" "request_size n \<le> k'" "live_sys hs m2 = (live_sys hs m1)(r2 \<mapsto> k')"
        and s2: "sys_ok hs m2" using r2(2) by (auto simp: alloc_result_def)
      have pr: "p \<noteq> r2" using k'(1) m1(1) lv by auto
      have l2: "live_sys hs m2 p = Some k" "live_sys hs m2 r2 = Some k'" using k'(3) m1(1) lv pr by auto
      obtain g where g: "g \<in> set hs" "live m2 g p = Some k" using l2(1) live_sys_iff [OF s2] by blast
      have ms: "MEMITEM_SIZE m2 (p - 24) = k" by (rule live_header(2) [OF sys_okD(2) [OF s2 g(1)] g(2)])
      have nk: "n \<le> k'" using nr k'(2) by simp
      have mk: "min k n = (if k < n then k else n)" by simp
      obtain m3 where m3: "rt_free p (memcpy r2 p (if k < n then k else n) m2) = Some m3" "sys_ok hs m3"
        "live_sys hs m3 = (live_sys hs m2)(p := None)" "\<forall>i < min k n. bytes m3 (r2 + i) = bytes m2 (p + i)"
        by (rule copy_over [OF s2 l2 pr nk mk])
      have lm3: "live_sys hs m3 = ((live_sys hs m)(p := None))(r2 \<mapsto> k')"
        using m3(3) k'(3) m1(1) pr by (simp add: fun_upd_twist)
      have "realloc_result hs p k n m r2 m3"
        using False m3(2,4) nk lm3 m1(2) r2(3) unfolding realloc_result_def by auto
      moreover have "rt_realloc sys hs p n m = Some (r2, m3)"
        unfolding un using \<open>q = 0\<close> r2(1) False m3(1) by (simp add: ms cong: if_cong)
      ultimately show thesis using that [of r2 m3] by simp
    qed
  qed
qed

section \<open>Properties\<close>

text \<open>A heap of 1024 bytes at address 4096, for the examples.\<close>

definition blank_mem :: mem where
  "blank_mem = \<lparr>items = (\<lambda>_. \<lparr>i_magic = 0, i_pool = 0, i_next = 0, i_prev = 0, i_next_free = 0, i_prev_free = 0\<rparr>),
     heaps = (\<lambda>_. \<lparr>start_addr = 0, pool_size = 0, available_size = 0, max_used_size = 0, block_list = 0, free_list = 0, free_header = 0\<rparr>),
     bytes = (\<lambda>_. 0), lock_result = (\<lambda>_. RT_EOK), lock_takes = 0, errno = RT_EOK\<rparr>"

definition demo_heap :: mem where
  "demo_heap = rt_memheap_init 16 64 4096 1024 blank_mem"

lemma init_lock: "lock_result (rt_memheap_init h hdr start sz m) = lock_result m"
  by (simp add: rt_memheap_init_def Let_def)

lemma demo_rep: "heap_rep demo_heap 16 [4096, 5096] [4096]"
  using init_rep [of 16 4096 1024 64 blank_mem] by (simp add: demo_heap_def)

lemma demo_ok: "heap_ok demo_heap 16" "lock_free demo_heap" "sys_ok [16] demo_heap" "blocks_of demo_heap 16 = [4096, 5096]"
proof -
  show "heap_ok demo_heap 16" by (rule heap_okI [OF demo_rep])
  show "lock_free demo_heap" by (simp add: lock_free_def demo_heap_def init_lock blank_mem_def)
  then show "sys_ok [16] demo_heap" using \<open>heap_ok demo_heap 16\<close> by (simp add: sys_ok_def)
  show "blocks_of demo_heap 16 = [4096, 5096]" by (rule blocks_of_rep [OF demo_rep])
qed

lemma demo_fields: "available_size (heaps demo_heap 16) = 976" "\<not> is_used demo_heap 4096" "live demo_heap 16 = Map.empty"
    "free_sizes demo_heap 16 = [976]" "max_used_size (heaps demo_heap 16) = 48"
proof -
  show u: "\<not> is_used demo_heap 4096" using free_okD(2) [OF heap_repD(2,1) [OF demo_rep], of 4096] by simp
  then show "live demo_heap 16 = Map.empty" by (simp add: live_rep [OF demo_rep])
  show "available_size (heaps demo_heap 16) = 976" using available_bound(1) [OF demo_rep] u by simp
  show "free_sizes demo_heap 16 = [976]" using u by (simp add: free_sizes_def demo_ok(4))
  show "max_used_size (heaps demo_heap 16) = 48"
    by (simp add: demo_heap_def rt_memheap_init_def Let_def u32_def)
qed

lemma demo_request: "request_size 100 = 100"
  by (simp add: request_size_def RT_ALIGN_def Let_def)

text \<open>The first block of 100 bytes.\<close>

lemma demo_alloc:
  obtains m where "rt_memheap_alloc 16 100 demo_heap = Some (4120, m)" "heap_rep m 16 [4096, 4220, 5096] [4220]"
    "lock_free m" "live m 16 = [4120 \<mapsto> 100]" "free_sizes m 16 = [852]" "available_size (heaps m 16) = 852"
    "rt_malloc 16 [16] 100 demo_heap = Some (4120, m)" "sys_ok [16] m" "live_sys [16] m 4120 = Some 100"
proof -
  define m1 where "m1 = demo_heap\<lparr>lock_takes := Suc (lock_takes demo_heap)\<rparr>"
  have r1: "heap_rep m1 16 ([] @ 4096 # 5096 # []) [4096]" using demo_rep by (simp add: m1_def)
  have u1: "\<not> is_used m1 4096" using demo_fields(2) by (simp add: m1_def)
  define m where "m = upd_item 4096 (\<lambda>i. i\<lparr>i_magic := i_magic i OR RT_MEMHEAP_USED\<rparr>) (alloc_split 16 4096 100 m1)"
  note sp = alloc_split_rep [OF r1 u1, of 100, folded m_def, simplified]
  have rep: "heap_rep m 16 [4096, 4220, 5096] [4220]" using sp(1) by simp
  have us: "is_used m 4096" "\<not> is_used m 4220" using sp(2) by simp_all
  have ms: "MEMITEM_SIZE demo_heap 4096 = 976"
    using block_facts(4) [OF heap_repD(1) [OF demo_rep], of "[]" 4096 5096 "[]"] by simp
  have "u32 136 = 136" using u32_small [of 136] by simp
  then have al: "rt_memheap_alloc 16 100 demo_heap = Some (4120, m)"
    using alloc_unfold [OF demo_rep lock_freeD [OF demo_ok(2)], of 100] u32_small [of 4120]
    by (simp add: demo_request demo_fields ms m1_def [symmetric] m_def)
  have lf: "lock_free m" using lock_free_confined [OF sp(3)] demo_ok(2) by (simp add: m1_def lock_free_def)
  have lv: "live m 16 = [4120 \<mapsto> 100]" "free_sizes m 16 = [852]" "available_size (heaps m 16) = 852"
    using us by (simp_all add: live_rep [OF rep] free_sizes_def blocks_of_rep [OF rep] available_bound(1) [OF rep])
  have ok: "sys_ok [16] m" using heap_okI [OF rep] lf by (simp add: sys_ok_def)
  then have "live_sys [16] m 4120 = Some 100" using live_sys_iff [OF ok, of 4120 100] lv(1) by simp
  then show thesis using that [OF al rep lf lv] al ok by (simp add: rt_malloc_def)
qed

lemma heap_init:
  assumes "0 < h" "0 < start" "4 dvd start" "start + sz \<le> 4294967296" "60 \<le> sz div 4 * 4"
    and "hdr < start \<or> start + sz div 4 * 4 \<le> hdr"
  shows "heap_ok (rt_memheap_init h hdr start sz m) h" "live (rt_memheap_init h hdr start sz m) h = Map.empty"
    "free_sizes (rt_memheap_init h hdr start sz m) h = [sz div 4 * 4 - 48]"
    "pool_size (heaps (rt_memheap_init h hdr start sz m) h) = sz div 4 * 4"
proof -
  note rep = init_rep [OF assms, of m]
  have u: "\<not> is_used (rt_memheap_init h hdr start sz m) start"
    using free_okD(2) [OF heap_repD(2,1) [OF rep], of start] by simp
  then show "heap_ok (rt_memheap_init h hdr start sz m) h" "live (rt_memheap_init h hdr start sz m) h = Map.empty"
    "free_sizes (rt_memheap_init h hdr start sz m) h = [sz div 4 * 4 - 48]"
    using heap_okI [OF rep] by (simp_all add: live_rep [OF rep] free_sizes_def blocks_of_rep [OF rep])
  show "pool_size (heaps (rt_memheap_init h hdr start sz m) h) = sz div 4 * 4"
    using heap_repD(1) [OF rep] assms(5) by (auto simp: blocks_ok_def Let_def)
qed

text \<open>A heap that has just been initialised is well formed, with one free block between its two
  headers and nothing in use.\<close>

theorem heap_init_ok:
  assumes "0 < h" "0 < start" "4 dvd start" "start + sz \<le> 4294967296" "60 \<le> sz div 4 * 4"
    and "hdr < start \<or> start + sz div 4 * 4 \<le> hdr"
  shows "heap_ok (rt_memheap_init h hdr start sz m) h \<and> live (rt_memheap_init h hdr start sz m) h = Map.empty \<and>
    free_sizes (rt_memheap_init h hdr start sz m) h = [sz div 4 * 4 - 48]"
  using heap_init(1-3) [OF assms, of m] by blast

theorem heap_init_ok_witness:
  "heap_ok (rt_memheap_init 16 64 4096 1024 blank_mem) 16 \<and> live (rt_memheap_init 16 64 4096 1024 blank_mem) 16 = Map.empty \<and>
    free_sizes (rt_memheap_init 16 64 4096 1024 blank_mem) 16 = [976]"
  using heap_init_ok [of 16 4096 1024 64 blank_mem] by simp

text \<open>C15. Allocation succeeds exactly when a free block is large enough and fewer bytes are asked for than are free
  in all; the block is new, of the size asked for (with less than 36 bytes to spare), and
  nothing else changes.\<close>

theorem heap_alloc_spec:
  assumes "heap_ok m h" "lock_result m (lock_takes m) = RT_EOK"
  shows "\<exists>p m'. rt_memheap_alloc h n m = Some (p, m') \<and> heap_ok m' h \<and>
    (p \<noteq> 0 \<longleftrightarrow> request_size n < available_size (heaps m h) \<and> (\<exists>k \<in> set (free_sizes m h). request_size n \<le> k)) \<and>
    (if p = 0 then live m' h = live m h
     else live m h p = None \<and> (\<exists>k. request_size n \<le> k \<and> k < request_size n + 36 \<and> live m' h = (live m h)(p \<mapsto> k)))"
  by (rule alloc_total [OF assms, of n]) auto

theorem heap_alloc_spec_witness:
  "\<exists>p m' k. rt_memheap_alloc 16 100 demo_heap = Some (p, m') \<and> heap_ok m' 16 \<and> 100 \<le> k \<and> live m' 16 = [p \<mapsto> k]"
proof -
  have "lock_result demo_heap (lock_takes demo_heap) = RT_EOK" using demo_ok(2) by (simp add: lock_free_def)
  then show ?thesis using heap_alloc_spec [OF demo_ok(1), of 100] demo_fields demo_request by auto
qed

text \<open>C16. Releasing a block in use takes exactly this block out of use.\<close>

theorem heap_free_spec:
  assumes "heap_ok m h" "live m h p = Some k" "lock_result m (lock_takes m) = RT_EOK"
  shows "\<exists>m'. rt_memheap_free p m = Some m' \<and> heap_ok m' h \<and> live m' h = (live m h)(p := None)"
  by (rule free_total [OF assms]) auto

theorem heap_free_spec_witness:
  "\<exists>m m'. rt_memheap_alloc 16 100 demo_heap = Some (4120, m) \<and> rt_memheap_free 4120 m = Some m' \<and>
    heap_ok m' 16 \<and> live m' 16 = Map.empty"
proof (rule demo_alloc)
  fix m assume a: "rt_memheap_alloc 16 100 demo_heap = Some (4120, m)" "heap_rep m 16 [4096, 4220, 5096] [4220]"
    "lock_free m" "live m 16 = [4120 \<mapsto> 100]"
  then have "live m 16 4120 = Some 100" by simp
  from heap_free_spec [OF heap_okI [OF a(2)] this lock_freeD [OF a(3)]] show ?thesis using a(1,4) by auto
qed

text \<open>A heap with no block in use is one free block: two free blocks never lie side by side.\<close>

lemma all_free:
  assumes "heap_ok m h" "live m h = Map.empty"
  shows "free_sizes m h = [pool_size (heaps m h) - 48] \<and> available_size (heaps m h) = pool_size (heaps m h) - 48"
proof -
  obtain L F where rep: "heap_rep m h L F" using assms(1) by (rule heap_okE)
  note ok = heap_repD(1) [OF rep]
  obtain a b vs where L: "L = a # b # vs" using blocks_ok_ring(5) [OF ok] by (cases L; cases "tl L") auto
  have free: "\<not> is_used m x" if "L = us @ x # y # zs" for us x y zs
    using live_iff [OF rep, of "x + 24" "y - x - 24"] assms(2) that by auto
  have "vs = []"
  proof (cases vs)
    case (Cons c zs)
    then have "L = [a] @ b # c # zs" using L by simp
    then have "\<not> is_used m b" "\<not> is_used m a" using free [of "[a]" b] free [of "[]" a] L by auto
    then show ?thesis using heap_repD(4) [OF rep] L by simp
  qed
  moreover have "\<not> is_used m a" using free [of "[]" a b vs] L by simp
  moreover have "a = start_addr (heaps m h)" "last L + 24 = start_addr (heaps m h) + pool_size (heaps m h)"
    using ok L by (auto simp: blocks_ok_def Let_def)
  ultimately show ?thesis using available_bound(1) [OF rep] L by (simp add: free_sizes_def blocks_of_rep [OF rep])
qed

text \<open>C37. Nothing stays fragmented. A client works on a heap that has just been initialised, with any sequence of
  allocations and releases, in any order (the lock can be taken); no call goes wrong, and whenever the client has
  given back all it held, the pool is one free block again, of the size it had in the beginning.\<close>

theorem heap_all_free:
  assumes "0 < h" "0 < start" "4 dvd start" "start + sz \<le> 4294967296" "60 \<le> sz div 4 * 4"
    and "hdr < start \<or> start + sz div 4 * 4 \<le> hdr" "lock_free m"
  shows "\<exists>held m'. arun (rt_memheap_alloc h) rt_memheap_free ops ([], rt_memheap_init h hdr start sz m) = Some (held, m') \<and>
    heap_ok m' h \<and>
    (held = [] \<longrightarrow> free_sizes m' h = [sz div 4 * 4 - 48] \<and> available_size (heaps m' h) = sz div 4 * 4 - 48)"
proof -
  let ?m = "rt_memheap_init h hdr start sz m"
  note i = heap_init [OF assms(1-6), of m]
  have "heap_ok ?m h \<and> lock_free ?m \<and> pool_size (heaps ?m h) = sz div 4 * 4"
    using i(1,4) assms(7) by (simp add: lock_free_def init_lock)
  moreover have "holds (live ?m h) (\<lambda>n k. request_size n \<le> k) []" using i(2) by (simp add: holds_def)
  ultimately obtain held m' where r: "arun (rt_memheap_alloc h) rt_memheap_free ops ([], ?m) = Some (held, m')"
    "heap_ok m' h" "pool_size (heaps m' h) = sz div 4 * 4" "holds (live m' h) (\<lambda>n k. request_size n \<le> k) held"
    using mh.arun_safe by metis
  have "held = [] \<Longrightarrow> live m' h = Map.empty" using r(4) by (simp add: holds_def)
  then show ?thesis using r(1-3) all_free [OF r(2)] by auto
qed

text \<open>Three blocks, given back in another order.\<close>

theorem heap_all_free_witness:
  "\<exists>held m'. arun (rt_memheap_alloc 16) rt_memheap_free
      [AAlloc 100, AAlloc 200, AAlloc 300, AFree 1, AFree 0, AFree 0] ([], demo_heap) = Some (held, m') \<and>
    (held = [] \<longrightarrow> free_sizes m' 16 = [976])"
proof -
  have "lock_free blank_mem" by (simp add: lock_free_def blank_mem_def)
  from heap_all_free [of 16 4096 1024 64, OF _ _ _ _ _ _ this] show ?thesis unfolding demo_heap_def by fastforce
qed

text \<open>C6. The system's allocator, used in any way whatever by a client that keeps track of the blocks it
  holds: no call fails an assertion or runs for ever, the blocks stay well formed, and the client
  always holds exactly the live ones. A block is at least as large as the rounded request. The code rounds
  up to a multiple of 4 in 32 bits: up to 4294967292 bytes that is no less than what was asked for,
  so every such block has the bytes asked for and none of them is in another such block; a greater request wraps
  and is answered with a tiny block (\<open>huge_request_tiny_block\<close>).\<close>

theorem system_heap_client:
  assumes "sys_ok (sys # hs) m" "holds (live_sys (sys # hs) m) (\<lambda>n k. request_size n \<le> k) held"
  shows "\<exists>held' m'. arun (rt_malloc sys (sys # hs)) rt_free ops (held, m) = Some (held', m') \<and>
    sys_ok (sys # hs) m' \<and> holds (live_sys (sys # hs) m') (\<lambda>n k. request_size n \<le> k) held' \<and>
    (\<forall>(p, n) \<in> set held'. n \<le> 4294967292 \<longrightarrow> (\<exists>k. live_sys (sys # hs) m' p = Some k \<and> n \<le> k)) \<and>
    (\<forall>(p, n) \<in> set held'. \<forall>(q, k) \<in> set held'. p \<noteq> q \<longrightarrow> n \<le> 4294967292 \<longrightarrow> k \<le> 4294967292 \<longrightarrow>
      p + n \<le> q \<or> q + k \<le> p)"
proof -
  obtain held' m' where r: "arun (rt_malloc sys (sys # hs)) rt_free ops (held, m) = Some (held', m')"
    "sys_ok (sys # hs) m'" "holds (live_sys (sys # hs) m') (\<lambda>n k. request_size n \<le> k) held'"
    using sy.arun_safe [OF assms] by blast
  have big: "\<exists>k. live_sys (sys # hs) m' p = Some k \<and> n \<le> k" if "(p, n) \<in> set held'" "n \<le> 4294967292" for p n
    using holdsD [OF r(3) that(1)] request_size_facts(4) [OF that(2)] by auto
  have "p + n \<le> q \<or> q + k \<le> p"
    if h: "(p, n) \<in> set held'" "(q, k) \<in> set held'" "p \<noteq> q" "n \<le> 4294967292" "k \<le> 4294967292" for p n q k
  proof -
    obtain n' k' where "live_sys (sys # hs) m' p = Some n'" "n \<le> n'" "live_sys (sys # hs) m' q = Some k'" "k \<le> k'"
      using big [OF h(1,4)] big [OF h(2,5)] by blast
    then show ?thesis using live_sys_disjoint [OF r(2), of p n' q k'] h(3) by linarith
  qed
  then show ?thesis using r big by (intro exI conjI) (assumption | fast)+
qed

theorem system_heap_client_witness:
  "\<exists>held' m'. arun (rt_malloc 16 [16]) rt_free [AAlloc 100, AAlloc 2000, AFree 0, AAlloc 7] ([], demo_heap) = Some (held', m') \<and>
    sys_ok [16] m' \<and> (\<forall>(p, n) \<in> set held'. n \<le> 4294967292 \<longrightarrow> (\<exists>k. live_sys [16] m' p = Some k \<and> n \<le> k))"
proof -
  have "live_sys [16] demo_heap = Map.empty" by (simp add: live_sys_def fun_eq_iff demo_fields(3))
  then have "holds (live_sys [16] demo_heap) (\<lambda>n k. request_size n \<le> k) []" by (simp add: holds_def)
  from system_heap_client [of 16 "[]", OF demo_ok(3) this, of "[AAlloc 100, AAlloc 2000, AFree 0, AAlloc 7]"]
  show ?thesis by (elim exE conjE) (intro exI conjI, assumption+)
qed

text \<open>C27. Reallocation of a live block never goes wrong (for sizes up to 4 GB less 16): it fails and changes nothing, or the
  block is in its old or a new place, large enough, with the contents that fit.\<close>

theorem system_realloc_spec:
  assumes "sys_ok hs m" "sys \<in> set hs" "live_sys hs m p = Some k" "0 < n" "n \<le> 4294967280"
  shows "\<exists>q m'. rt_realloc sys hs p n m = Some (q, m') \<and> sys_ok hs m' \<and>
     (if q = 0 then live_sys hs m' = live_sys hs m \<and> bytes m' = bytes m
      else (\<exists>k'. n \<le> k' \<and> live_sys hs m' = ((live_sys hs m)(p := None))(q \<mapsto> k')) \<and>
        (\<forall>i < min k n. bytes m' (q + i) = bytes m (p + i)))"
  by (rule realloc_result_total [OF assms]) (auto simp: realloc_result_def)

theorem system_realloc_spec_witness:
  "\<exists>m q m'. rt_malloc 16 [16] 100 demo_heap = Some (4120, m) \<and> rt_realloc 16 [16] 4120 200 m = Some (q, m') \<and> sys_ok [16] m'"
proof (rule demo_alloc)
  fix m assume a: "rt_malloc 16 [16] 100 demo_heap = Some (4120, m)" "sys_ok [16] m" "live_sys [16] m 4120 = Some 100"
  from system_realloc_spec [OF a(2) _ a(3), of 16 200] show ?thesis using a(1) by auto
qed

text \<open>A reallocation to more than 4 GB less 16 overflows the test for the free block behind: it answers with the old
  address, and the header chain now runs through the middle of the block's own header.\<close>

theorem huge_realloc_corrupts:
  assumes ok: "heap_ok m h" and lv: "live m h p = Some k" and lock: "lock_result m (lock_takes m) = RT_EOK"
    and n: "4294967280 < n" "n \<le> 4294967292" and nb: "\<not> is_used m (p + k)"
  shows "\<exists>m'. rt_memheap_realloc h p n m = Some (p, m') \<and> i_next (items m' (p - 24)) < p"
proof -
  define sz where "sz = request_size n"
  have sz: "4294967280 < sz" "sz < 4294967296" "4 dvd sz"
    using request_size_facts(1,3,4) [of n] n unfolding sz_def by auto
  then have s4: "4294967284 \<le> sz" "sz \<le> 4294967292" by presburger+
  obtain L F where rep: "heap_rep m h L F" using ok by (rule heap_okE)
  note bok = heap_repD(1) [OF rep]
  obtain us a b vs where L: "L = us @ a # b # vs" "p = a + 24" "k = b - a - 24" "a + 36 \<le> b" using live_split [OF rep lv] by metis
  note bf = block_facts [OF bok L(1)]
  have b: "b = p + k" using L(2-4) by simp
  then obtain c zs where vs: "vs = c # zs" using blocks_ok_ring(3) [OF bok] nb L(1) by (cases vs) auto
  have L2: "L = (us @ [a]) @ b # c # zs" using L(1) vs by simp
  have bc: "MEMITEM_SIZE m b = c - b - 24" "b + 36 \<le> c" "c + 24 \<le> 4294967296" using block_facts(3-5) [OF bok L2] by auto
  have a32: "u32 (int p - int RT_MEMHEAP_SIZE) = a" using live_header(1) [OF ok lv] L(2) by simp
  have ms: "MEMITEM_SIZE m a = k" using bf(4) L(3) by simp
  define m1 where "m1 = m\<lparr>lock_takes := Suc (lock_takes m)\<rparr>"
  have m1: "is_used m1 = is_used m" "MEMITEM_SIZE m1 = MEMITEM_SIZE m" "i_next (items m1 a) = b" using bf(1) by (simp_all add: m1_def)
  have lk: "take_lock m = (RT_EOK, m1)" using lock by (simp add: take_lock_def m1_def)
  have w: "u32 (int sz + int RT_MEMHEAP_MINIALLOC) < 12"
  proof -
    have "(int sz + 12) mod 4294967296 = int sz + 12 - 4294967296"
      using s4 by (intro int_mod_pos_eq [of _ _ 1]) auto
    then show ?thesis using s4 by (simp add: u32_def)
  qed
  have "u32 (int (MEMITEM_SIZE m b) + int k) = MEMITEM_SIZE m b + k" using bc L by (intro u32_eqI) auto
  then have c: "u32 (int sz + int RT_MEMHEAP_MINIALLOC) < u32 (int (MEMITEM_SIZE m b) + int k)"
    using w bc L(3,4) by simp
  define m' where "m' = expand_block h p k sz m1"
  have nz: "n \<noteq> 0" "p \<noteq> 0" "k < sz" "\<not> b \<le> a" using n L bf(5) s4 by auto
  have "rt_memheap_realloc h p n m = Some (p, m')"
    using rt_memheap_realloc_def [of h p n m, folded sz_def, unfolded Let_def a32 ms lk prod.case m1] c nz nb b
    by (simp add: m'_def)
  moreover have "i_next (items m' a) = u32 (int p + int sz)"
    by (simp add: m'_def expand_block_def Let_def a32 [simplified] block_insert_def)
  moreover have "u32 (int p + int sz) < p"
  proof -
    have "(int p + int sz) mod 4294967296 = int p + int sz - 4294967296"
      using s4 bf(5) L by (intro int_mod_pos_eq [of _ _ 1]) auto
    then show ?thesis using s4 L(2) by (simp add: u32_def)
  qed
  ultimately show ?thesis using L(2) by simp
qed

theorem huge_realloc_corrupts_witness:
  "\<exists>m m'. rt_memheap_alloc 16 100 demo_heap = Some (4120, m) \<and> rt_memheap_realloc 16 4120 4294967288 m = Some (4120, m') \<and>
    i_next (items m' 4096) < 4120"
proof (rule demo_alloc)
  fix m assume a: "rt_memheap_alloc 16 100 demo_heap = Some (4120, m)" "heap_rep m 16 [4096, 4220, 5096] [4220]"
    "lock_free m" "live m 16 = [4120 \<mapsto> 100]"
  have "live m 16 4120 = Some 100" using a(4) by simp
  moreover have "\<not> is_used m (4120 + 100)" using free_okD(2) [OF heap_repD(2,1) [OF a(2)], of 4220] by simp
  ultimately show ?thesis
    using huge_realloc_corrupts [OF heap_okI [OF a(2)] _ lock_freeD [OF a(3)], of 4120 100 4294967288] a(1) by simp
qed

lemma free_bytes_sum: "free_bytes U L = sum_list (map snd (live_of (\<lambda>a. \<not> U a) L))"
  by (induction U L rule: free_bytes.induct) auto

text \<open>A request for the last bytes of the heap fails although they are free in one block: the test is strict.\<close>

theorem exact_fit_refused:
  assumes "heap_ok m h" "free_sizes m h = [k]" "request_size n = k"
  shows "rt_memheap_alloc h n m = Some (0, m)"
proof -
  obtain L F where rep: "heap_rep m h L F" using assms(1) by (rule heap_okE)
  have "available_size (heaps m h) = k"
    using available_bound(1) [OF rep] assms(2) by (simp add: free_bytes_sum free_sizes_def blocks_of_rep [OF rep])
  then show ?thesis using assms(3) by (simp add: rt_memheap_alloc_def)
qed

theorem exact_fit_refused_witness:
  "rt_memheap_alloc 16 976 demo_heap = Some (0, demo_heap)"
  by (rule exact_fit_refused [OF demo_ok(1) demo_fields(4)]) (simp add: request_size_def RT_ALIGN_def Let_def)

text \<open>A request of nearly 4 GB is rounded up to 0 in 32 bits: it is answered with a block of less than 48 bytes.\<close>

theorem huge_request_tiny_block:
  assumes "heap_ok m h" "lock_result m (lock_takes m) = RT_EOK" "4294967292 < n" "n < 4294967296"
    and "rt_memheap_alloc h n m = Some (p, m')" "p \<noteq> 0"
  shows "\<exists>k < 48. live m' h p = Some k"
proof (rule alloc_total [OF assms(1,2), of n])
  fix q m2 assume "rt_memheap_alloc h n m = Some (q, m2)"
    "q \<noteq> 0 \<Longrightarrow> live m h q = None \<and> (\<exists>k. request_size n \<le> k \<and> k < request_size n + 36 \<and> live m2 h = (live m h)(q \<mapsto> k))"
  then show ?thesis using assms(5,6) request_size_wraps [OF assms(3,4)] by auto
qed

theorem huge_request_tiny_block_witness:
  "\<exists>p m'. rt_memheap_alloc 16 4294967295 demo_heap = Some (p, m') \<and> (\<exists>k < 48. live m' 16 p = Some k)"
proof -
  have w: "request_size 4294967295 = 12" by (rule request_size_wraps) simp_all
  have lk: "lock_result demo_heap (lock_takes demo_heap) = RT_EOK" using demo_ok(2) by (simp add: lock_free_def)
  obtain p m' where a: "rt_memheap_alloc 16 4294967295 demo_heap = Some (p, m')" "p \<noteq> 0"
    by (rule alloc_total [OF demo_ok(1) lk, of 4294967295]) (use demo_fields w in auto)
  then show ?thesis using huge_request_tiny_block [OF demo_ok(1) lk _ _ a] by auto
qed

text \<open>Zeroed memory: when the product does not wrap and the call succeeds, every byte asked for is zero.\<close>

theorem system_calloc_spec:
  assumes "sys_ok hs m" "sys \<in> set hs" "cnt * n \<le> 4294967292"
  shows "\<exists>p m'. rt_calloc sys hs cnt n m = Some (p, m') \<and> sys_ok hs m' \<and>
    (if p = 0 then live_sys hs m' = live_sys hs m
     else \<exists>k. cnt * n \<le> k \<and> live_sys hs m' = (live_sys hs m)(p \<mapsto> k) \<and> (\<forall>i < cnt * n. bytes m' (p + i) = 0))"
proof -
  have t: "u32 (int cnt * int n) = cnt * n" using assms(3) by (intro u32_eqI) auto
  obtain p m1 where a: "rt_malloc sys hs (cnt * n) m = Some (p, m1)" "alloc_result hs (cnt * n) m p m1"
    by (rule malloc_result [OF assms(1,2)])
  have c: "rt_calloc sys hs cnt n m = Some (p, if p \<noteq> 0 then memset0 p (cnt * n) m1 else m1)"
    by (simp add: rt_calloc_def Let_def t a(1))
  show ?thesis
  proof (cases "p = 0")
    case True
    then show ?thesis using a(2) c by (simp add: alloc_result_def)
  next
    case False
    then obtain k where k: "request_size (cnt * n) \<le> k" "live_sys hs m1 = (live_sys hs m)(p \<mapsto> k)" and ok: "sys_ok hs m1"
      using a(2) by (auto simp: alloc_result_def)
    have "cnt * n \<le> k" using request_size_facts(4) [OF assms(3)] k(1) by simp
    moreover have "live_sys hs (memset0 p (cnt * n) m1) = live_sys hs m1" "sys_ok hs (memset0 p (cnt * n) m1)"
      using live_sys_bytes [OF ok] ok by (simp_all add: memset0_def)
    moreover have "\<forall>i < cnt * n. bytes (memset0 p (cnt * n) m1) (p + i) = 0" by (simp add: memset0_def)
    ultimately show ?thesis using c False k(2) by auto
  qed
qed

theorem system_calloc_spec_witness:
  "\<exists>p m'. rt_calloc 16 [16] 25 4 demo_heap = Some (p, m') \<and> sys_ok [16] m'"
  using system_calloc_spec [OF demo_ok(3), of 16 25 4] by auto

text \<open>When the lock cannot be taken, a release returns without a word and the block stays in use.\<close>

theorem free_without_lock:
  assumes ok: "heap_ok m h" and lv: "live m h p = Some k" and lock: "lock_result m (lock_takes m) \<noteq> RT_EOK"
  shows "\<exists>m'. rt_memheap_free p m = Some m' \<and> live m' h = live m h \<and> errno m' = lock_result m (lock_takes m)"
proof -
  obtain L F where rep: "heap_rep m h L F" using ok by (rule heap_okE)
  note bok = heap_repD(1) [OF rep]
  obtain us a b vs where L: "L = us @ a # b # vs" "is_used m a" "p = a + 24" using live_split [OF rep lv] by metis
  have a32: "u32 (int p - int RT_MEMHEAP_SIZE) = a" using live_header(1) [OF ok lv] L(3) by simp
  have am: "magic_ok m h a" "magic_ok m h b" using blocks_ok_bounds(6) [OF bok] L(1) by auto
  have h: "h \<noteq> 0" using bok by (simp add: blocks_ok_def Let_def)
  define m1 where "m1 = m\<lparr>lock_takes := Suc (lock_takes m)\<rparr>"
  have "live (m1\<lparr>errno := e\<rparr>) h = live m h" for e
    using live_lock(2) [of m1 h e] live_lock(1) [OF ok] ok by (simp add: m1_def)
  moreover have "rt_memheap_free p m = Some (m1\<lparr>errno := lock_result m (lock_takes m)\<rparr>)"
    using am h L(2,3) lock block_facts(1) [OF bok L(1)] unfolding rt_memheap_free_def a32 magic_ok_def
    by (simp add: take_lock_def m1_def)
  ultimately show ?thesis by auto
qed

theorem free_without_lock_witness:
  "\<exists>m m'. rt_memheap_alloc 16 100 demo_heap = Some (4120, m) \<and>
    rt_memheap_free 4120 (m\<lparr>lock_result := (\<lambda>_. RT_EINTR)\<rparr>) = Some m' \<and> live m' 16 = [4120 \<mapsto> 100]"
proof (rule demo_alloc)
  fix m assume a: "rt_memheap_alloc 16 100 demo_heap = Some (4120, m)" "heap_rep m 16 [4096, 4220, 5096] [4220]"
    "live m 16 = [4120 \<mapsto> 100]"
  define m1 where "m1 = m\<lparr>lock_result := (\<lambda>_. RT_EINTR)\<rparr>"
  have v: "bview m1 = bview m" "fview m1 = fview m" "is_used m1 = is_used m" "magic_ok m1 = magic_ok m" "heaps m1 = heaps m"
    by (simp_all add: m1_def bview_def fview_def is_used_def magic_ok_def fun_eq_iff)
  then have r: "heap_rep m1 16 [4096, 4220, 5096] [4220]"
    using a(2) by (simp add: heap_rep_def blocks_ok_def free_ok_def sizes_ok_def)
  have l: "live m1 16 = [4120 \<mapsto> 100]" using a(3) v(3) by (simp add: live_rep [OF r] live_rep [OF a(2)])
  then have "live m1 16 4120 = Some 100" by simp
  moreover have "lock_result m1 (lock_takes m1) \<noteq> RT_EOK" by (simp add: m1_def)
  ultimately show ?thesis using free_without_lock [OF heap_okI [OF r], of 4120 100] a(1) l by (auto simp: m1_def)
qed

end
