(* ===== verification/MemPool.thy ===== *)
theory MemPool
  imports Ipc Allocator SysHeap
begin

text \<open>
  Memory pools, \<^verbatim>\<open>src/mempool.c\<close>: an area cut into blocks of one size, each with a header of one
  pointer. The header of a free block points to the next free one, that of a used block to the
  pool. The record \<open>mempool\<close> is the control block and the pointers stored in the area
  (\<open>mp_mem\<close>); a load or a store outside the area is \<open>None\<close>, and so is a division by a block
  size that wrapped to zero. The pool waits with last in, first out: \<^verbatim>\<open>rt_list_insert_after\<close>
  puts the newest waiter in front (\<open>LSuspend o'\<close> of the kernel state).
\<close>

section \<open>The blocks\<close>

record mempool =
  mp_self :: nat
  mp_start :: nat
  mp_size :: nat
  mp_bsize :: nat
  mp_total :: nat
  mp_free :: nat
  mp_list :: nat
  mp_mem :: "nat \<Rightarrow> nat"

definition mp_in_area :: "nat \<Rightarrow> mempool \<Rightarrow> bool" where
  "mp_in_area a p \<longleftrightarrow> mp_start p \<le> a \<and> a + 4 \<le> mp_start p + mp_size p"

definition mp_read :: "nat \<Rightarrow> mempool \<Rightarrow> nat option" where
  "mp_read a p = (if mp_in_area a p then Some (mp_mem p a) else None)"

definition mp_write :: "nat \<Rightarrow> nat \<Rightarrow> mempool \<Rightarrow> mempool option" where
  "mp_write a v p = (if mp_in_area a p then Some (p\<lparr>mp_mem := (mp_mem p)(a := v)\<rparr>) else None)"

definition mp_stride :: "mempool \<Rightarrow> nat" where
  "mp_stride p = u32 (int (mp_bsize p) + 4)"

text \<open>The address of a block; the subtraction \<^verbatim>\<open>offset - 1\<close> may wrap.\<close>

definition mp_cell :: "mempool \<Rightarrow> int \<Rightarrow> nat" where
  "mp_cell p off = u32 (int (mp_start p) + off * int (mp_stride p))"

fun mp_link :: "nat \<Rightarrow> int \<Rightarrow> mempool \<Rightarrow> mempool option" where
  "mp_link 0 off p = Some p"
| "mp_link (Suc n) off p =
     do {
       p1 \<leftarrow> mp_write (mp_cell p off) (mp_cell p (off + 1)) p;
       mp_link n (off + 1) p1
     }"

definition mp_format :: "mempool \<Rightarrow> mempool option" where
  "mp_format p =
     do {
       p1 \<leftarrow> mp_link (mp_total p) 0 p;
       p2 \<leftarrow> mp_write (mp_cell p1 (int (mp_total p) - 1)) 0 p1;
       Some (p2\<lparr>mp_list := mp_start p\<rparr>)
     }"

definition rt_mp_init :: "nat \<Rightarrow> nat \<Rightarrow> nat \<Rightarrow> nat \<Rightarrow> nat \<Rightarrow> kern \<Rightarrow> (kern \<times> mempool) option" where
  "rt_mp_init o' self start sz bsz k =
     (if start = 0 \<or> sz = 0 \<or> bsz = 0 then None
      else
        (let sz' = unat (of_nat sz AND NOT (3 :: 32 word));
             bsz' = unat (RT_ALIGN (of_nat bsz) 4);
             total = sz' div u32 (int bsz' + 4)
         in if u32 (int bsz' + 4) = 0 then None
            else do {
              p \<leftarrow> mp_format \<lparr>mp_self = self, mp_start = start, mp_size = sz', mp_bsize = bsz', mp_total = total,
                mp_free = total, mp_list = 0, mp_mem = \<lambda>_. 0\<rparr>;
              Some (k\<lparr>lists := (lists k)(LSuspend o' := [])\<rparr>, p)
            }))"

text \<open>The free list: taking its first block and putting one back.\<close>

definition mp_take :: "mempool \<Rightarrow> (nat \<times> mempool) option" where
  "mp_take p =
     (if mp_list p = 0 then None
      else do {
        next \<leftarrow> mp_read (mp_list p) p;
        p1 \<leftarrow> mp_write (mp_list p) (mp_self p) p;
        Some (mp_list p + 4, p1\<lparr>mp_free := u32 (int (mp_free p) - 1), mp_list := next\<rparr>)
      })"

definition mp_put :: "nat \<Rightarrow> mempool \<Rightarrow> mempool option" where
  "mp_put block p =
     (let b = u32 (int block - 4)
      in do {
        owner \<leftarrow> mp_read b p;
        if owner = mp_self p then
          do {
            p1 \<leftarrow> mp_write b (mp_list p) p;
            Some (p1\<lparr>mp_free := u32 (int (mp_free p) + 1), mp_list := b\<rparr>)
          }
        else None
      })"

section \<open>The invariant\<close>

fun path :: "(nat \<Rightarrow> nat) \<Rightarrow> nat \<Rightarrow> nat list \<Rightarrow> bool" where
  "path m a [] \<longleftrightarrow> a = 0"
| "path m a (x # xs) \<longleftrightarrow> a = x \<and> x \<noteq> 0 \<and> path m (m x) xs"

fun chain :: "nat \<Rightarrow> (nat \<Rightarrow> nat) \<Rightarrow> nat \<Rightarrow> nat list" where
  "chain 0 m a = []"
| "chain (Suc n) m a = (if a = 0 then [] else a # chain n m (m a))"

definition mp_cells :: "mempool \<Rightarrow> nat list" where
  "mp_cells p = map (\<lambda>i. mp_start p + i * (mp_bsize p + 4)) [0..<mp_total p]"

definition mp_frees :: "mempool \<Rightarrow> nat list" where
  "mp_frees p = chain (mp_total p) (mp_mem p) (mp_list p)"

text \<open>The blocks in use, by the address handed out.\<close>

definition mp_live :: "mempool \<Rightarrow> nat \<Rightarrow> nat option" where
  "mp_live p a =
     (if 4 \<le> a \<and> a - 4 \<in> set (mp_cells p) \<and> a - 4 \<notin> set (mp_frees p) then Some (mp_bsize p) else None)"

definition mp_geom :: "mempool \<Rightarrow> bool" where
  "mp_geom p \<longleftrightarrow> 0 < mp_start p \<and> mp_start p + mp_size p \<le> 2 ^ 32 \<and> 0 < mp_bsize p \<and> 0 < mp_total p \<and>
     mp_total p * (mp_bsize p + 4) \<le> mp_size p"

definition mp_inv :: "mempool \<Rightarrow> bool" where
  "mp_inv p \<longleftrightarrow> mp_geom p \<and> path (mp_mem p) (mp_list p) (mp_frees p) \<and> distinct (mp_frees p) \<and>
     set (mp_frees p) \<subseteq> set (mp_cells p) \<and> length (mp_frees p) = mp_free p \<and>
     (\<forall>c \<in> set (mp_cells p) - set (mp_frees p). mp_mem p c = mp_self p)"

lemma path_chain: "path m a xs \<Longrightarrow> length xs \<le> n \<Longrightarrow> chain n m a = xs"
proof (induction xs arbitrary: a n)
  case Nil
  then show ?case by (cases n) auto
next
  case (Cons x xs)
  then show ?case by (cases n) auto
qed

lemma path_upd: "c \<notin> set xs \<Longrightarrow> path (m(c := v)) a xs = path m a xs"
  by (induction xs arbitrary: a) auto

text \<open>The address arithmetic of a pool that fits its area.\<close>

lemma mp_geom_size:
  assumes "mp_geom p"
  shows "mp_bsize p + 4 < 2 ^ 32" "mp_stride p = mp_bsize p + 4" "mp_size p < 2 ^ 32"
proof -
  have "1 * (mp_bsize p + 4) \<le> mp_total p * (mp_bsize p + 4)"
    by (rule mult_le_mono1) (use assms in \<open>simp add: mp_geom_def\<close>)
  then have m: "mp_bsize p + 4 \<le> mp_total p * (mp_bsize p + 4)" by (simp only: mult_1)
  have g: "0 < mp_start p" "mp_start p + mp_size p \<le> 2 ^ 32" "mp_total p * (mp_bsize p + 4) \<le> mp_size p"
    using assms by (simp_all add: mp_geom_def)
  have b: "mp_bsize p + 4 < 2 ^ 32" "mp_size p < 2 ^ 32" subgoal using m g by linarith subgoal using g by linarith done
  have "mp_stride p = mp_bsize p + 4" unfolding mp_stride_def by (rule u32_eqI) (use b(1) in auto)
  with b show "mp_bsize p + 4 < 2 ^ 32" "mp_stride p = mp_bsize p + 4" "mp_size p < 2 ^ 32" by auto
qed

lemma mp_cell_place:
  assumes "mp_geom p" "i < mp_total p"
  shows "mp_start p + (i + 1) * (mp_bsize p + 4) \<le> mp_start p + mp_size p"
proof -
  have "(i + 1) * (mp_bsize p + 4) \<le> mp_total p * (mp_bsize p + 4)"
    by (rule mult_le_mono1) (use assms(2) in simp)
  then show ?thesis using assms(1) by (simp only: mp_geom_def) linarith
qed

lemma mp_cell_eq:
  assumes "mp_geom p" "i < mp_total p"
  shows "mp_cell p (int i) = mp_start p + i * (mp_bsize p + 4)" "mp_in_area (mp_start p + i * (mp_bsize p + 4)) p"
proof -
  have le: "mp_start p + i * (mp_bsize p + 4) + (mp_bsize p + 4) \<le> mp_start p + mp_size p"
    using mp_cell_place [OF assms] by (simp add: add_mult_distrib)
  then have "mp_start p + i * (mp_bsize p + 4) < 2 ^ 32" using assms(1) by (simp only: mp_geom_def) linarith
  then show "mp_cell p (int i) = mp_start p + i * (mp_bsize p + 4)"
    unfolding mp_cell_def mp_geom_size(2) [OF assms(1)] by (intro u32_eqI) auto
  show "mp_in_area (mp_start p + i * (mp_bsize p + 4)) p" using le by (simp add: mp_in_area_def)
qed

lemma mp_cellsE:
  assumes "c \<in> set (mp_cells p)"
  obtains i where "i < mp_total p" "c = mp_start p + i * (mp_bsize p + 4)"
  using assms by (auto simp: mp_cells_def)

lemma mp_cells_bounds:
  assumes "mp_geom p" "c \<in> set (mp_cells p)"
  shows "mp_start p \<le> c" "c + 4 + mp_bsize p \<le> mp_start p + mp_size p" "c \<noteq> 0" "mp_in_area c p"
    "u32 (int (c + 4) - 4) = c"
proof -
  obtain i where i: "i < mp_total p" "c = mp_start p + i * (mp_bsize p + 4)" using assms(2) by (rule mp_cellsE)
  show b: "mp_start p \<le> c" "c + 4 + mp_bsize p \<le> mp_start p + mp_size p"
    using mp_cell_place [OF assms(1) i(1)] i(2) by (simp_all add: add_mult_distrib)
  show "c \<noteq> 0" "mp_in_area c p" using b assms(1) by (auto simp: mp_geom_def mp_in_area_def)
  have "c < 4294967296" using b assms(1) by (simp add: mp_geom_def)
  then show "u32 (int (c + 4) - 4) = c" by (intro u32_eqI) auto
qed

lemma mp_cells_distinct: "distinct (mp_cells p)"
  by (auto simp: mp_cells_def distinct_map inj_on_def)

lemma mp_cells_length [simp]: "length (mp_cells p) = mp_total p"
  by (simp add: mp_cells_def)

lemma mp_cells_apart:
  assumes "c \<in> set (mp_cells p)" "d \<in> set (mp_cells p)" "c < d"
  shows "c + 4 + mp_bsize p \<le> d"
proof -
  obtain i j where ij: "c = mp_start p + i * (mp_bsize p + 4)" "d = mp_start p + j * (mp_bsize p + 4)"
    using assms(1,2) by (auto elim!: mp_cellsE)
  then have "i < j" using assms(3) by simp
  then have "(i + 1) * (mp_bsize p + 4) \<le> j * (mp_bsize p + 4)" by (intro mult_le_mono1) simp
  then show ?thesis using ij by (simp add: add_mult_distrib)
qed

section \<open>Taking and putting back\<close>

lemma mp_invD:
  "mp_inv p \<Longrightarrow> mp_geom p" "mp_inv p \<Longrightarrow> path (mp_mem p) (mp_list p) (mp_frees p)" "mp_inv p \<Longrightarrow> distinct (mp_frees p)"
  "mp_inv p \<Longrightarrow> set (mp_frees p) \<subseteq> set (mp_cells p)" "mp_inv p \<Longrightarrow> length (mp_frees p) = mp_free p"
  "mp_inv p \<Longrightarrow> c \<in> set (mp_cells p) \<Longrightarrow> c \<notin> set (mp_frees p) \<Longrightarrow> mp_mem p c = mp_self p"
  by (simp_all add: mp_inv_def)

lemma mp_invI:
  assumes "mp_geom p" "path (mp_mem p) (mp_list p) fs" "distinct fs" "set fs \<subseteq> set (mp_cells p)" "length fs = mp_free p"
    "\<And>c. c \<in> set (mp_cells p) \<Longrightarrow> c \<notin> set fs \<Longrightarrow> mp_mem p c = mp_self p"
  shows "mp_inv p \<and> mp_frees p = fs"
proof -
  have "length fs \<le> mp_total p"
    using card_mono [OF _ assms(4)] assms(3) mp_cells_distinct [of p] by (simp add: distinct_card)
  then have "mp_frees p = fs" unfolding mp_frees_def by (rule path_chain [OF assms(2)])
  then show ?thesis using assms by (simp add: mp_inv_def)
qed

lemma mp_free_bounds:
  assumes "mp_inv p"
  shows "mp_free p \<le> mp_total p" "mp_total p < 2 ^ 32"
proof -
  show "mp_free p \<le> mp_total p"
    using card_mono [OF _ mp_invD(4) [OF assms]] mp_invD(3,5) [OF assms] mp_cells_distinct [of p] by (simp add: distinct_card)
  have "mp_total p * 1 \<le> mp_total p * (mp_bsize p + 4)" by (rule mult_le_mono2) simp
  also have "\<dots> \<le> mp_size p" using mp_invD(1) [OF assms] by (simp add: mp_geom_def)
  also have "\<dots> < 2 ^ 32" by (rule mp_geom_size(3) [OF mp_invD(1) [OF assms]])
  finally show "mp_total p < 2 ^ 32" by simp
qed

text \<open>What the operations leave alone.\<close>

definition mp_same :: "mempool \<Rightarrow> mempool \<Rightarrow> bool" where
  "mp_same p q \<longleftrightarrow> mp_self q = mp_self p \<and> mp_start q = mp_start p \<and> mp_size q = mp_size p \<and> mp_bsize q = mp_bsize p \<and>
     mp_total q = mp_total p"

lemma mp_same_facts:
  assumes "mp_same p q"
  shows "mp_cells q = mp_cells p" "mp_geom q = mp_geom p" "mp_in_area a q = mp_in_area a p" "mp_self q = mp_self p"
  using assms by (simp_all add: mp_same_def mp_cells_def mp_geom_def mp_in_area_def)

lemma mp_live_same: "mp_same p q \<Longrightarrow> mp_live q a =
    (if 4 \<le> a \<and> a - 4 \<in> set (mp_cells p) \<and> a - 4 \<notin> set (mp_frees q) then Some (mp_bsize p) else None)"
  by (simp add: mp_live_def mp_same_facts) (simp add: mp_same_def)

lemma mp_take_spec:
  assumes "mp_inv p" "mp_frees p = b # fs"
  shows "\<exists>q. mp_take p = Some (b + 4, q) \<and> mp_inv q \<and> mp_same p q \<and> mp_frees q = fs \<and> mp_free q = mp_free p - 1 \<and>
    mp_live p (b + 4) = None \<and> mp_live q = (mp_live p)(b + 4 \<mapsto> mp_bsize p)"
proof -
  have pa: "mp_list p = b" "b \<noteq> 0" "path (mp_mem p) (mp_mem p b) fs" using mp_invD(2) [OF assms(1)] assms(2) by simp_all
  have d: "b \<notin> set fs" "distinct fs" using mp_invD(3) [OF assms(1)] assms(2) by simp_all
  have c: "b \<in> set (mp_cells p)" "set fs \<subseteq> set (mp_cells p)" using mp_invD(4) [OF assms(1)] assms(2) by simp_all
  have n: "mp_free p = Suc (length fs)" using mp_invD(5) [OF assms(1)] assms(2) by simp
  then have u: "u32 (int (mp_free p) - 1) = length fs" using mp_free_bounds [OF assms(1)] by (intro u32_eqI) auto
  have "mp_in_area b p" by (rule mp_cells_bounds(4) [OF mp_invD(1) [OF assms(1)] c(1)])
  define q where "q = p\<lparr>mp_mem := (mp_mem p)(b := mp_self p), mp_free := length fs, mp_list := mp_mem p b\<rparr>"
  have s: "mp_same p q" by (simp add: q_def mp_same_def)
  have "mp_inv q \<and> mp_frees q = fs"
  proof (rule mp_invI)
    show "mp_geom q" using mp_invD(1) [OF assms(1)] mp_same_facts(2) [OF s] by simp
    show "path (mp_mem q) (mp_list q) fs" using pa(3) d(1) by (simp add: q_def path_upd)
    show "distinct fs" by (rule d(2))
    show "set fs \<subseteq> set (mp_cells q)" using c(2) mp_same_facts(1) [OF s] by simp
    show "length fs = mp_free q" by (simp add: q_def)
    show "mp_mem q x = mp_self q" if "x \<in> set (mp_cells q)" "x \<notin> set fs" for x
      using mp_invD(6) [OF assms(1), of x] that mp_same_facts(1) [OF s] assms(2) by (simp add: q_def)
  qed
  then have i: "mp_inv q" "mp_frees q = fs" by auto
  have "mp_take p = Some (b + 4, q)"
    using pa(1,2) u \<open>mp_in_area b p\<close> by (simp add: mp_take_def mp_read_def mp_write_def q_def)
  moreover have "mp_live q = (mp_live p)(b + 4 \<mapsto> mp_bsize p)"
  proof (rule ext)
    fix a show "mp_live q a = ((mp_live p)(b + 4 \<mapsto> mp_bsize p)) a"
      unfolding mp_live_same [OF s] i(2) using c(1) d(1) assms(2) by (cases "4 \<le> a") (auto simp: mp_live_def)
  qed
  moreover have "mp_live p (b + 4) = None" using assms(2) by (simp add: mp_live_def)
  ultimately show ?thesis using i s n by (auto simp: q_def)
qed

lemma mp_put_spec:
  assumes "mp_inv p" "mp_live p a \<noteq> None"
  shows "\<exists>q. mp_put a p = Some q \<and> mp_inv q \<and> mp_same p q \<and> mp_frees q = (a - 4) # mp_frees p \<and>
    mp_free q = mp_free p + 1 \<and> mp_live q = (mp_live p)(a := None)"
proof -
  define b where "b = a - 4"
  have a: "a = b + 4" and b: "b \<in> set (mp_cells p)" "b \<notin> set (mp_frees p)"
    using assms(2) by (auto simp: mp_live_def b_def split: if_splits)
  note bo = mp_cells_bounds [OF mp_invD(1) [OF assms(1)] b(1)]
  have "card (insert b (set (mp_frees p))) \<le> card (set (mp_cells p))"
    by (rule card_mono) (use b(1) mp_invD(4) [OF assms(1)] in auto)
  then have n: "mp_free p < mp_total p"
    using b(2) mp_invD(3,5) [OF assms(1)] mp_cells_distinct [of p] by (simp add: distinct_card)
  then have u: "u32 (int (mp_free p) + 1) = mp_free p + 1" using mp_free_bounds(2) [OF assms(1)] by (intro u32_eqI) auto
  define q where "q = p\<lparr>mp_mem := (mp_mem p)(b := mp_list p), mp_free := mp_free p + 1, mp_list := b\<rparr>"
  have s: "mp_same p q" by (simp add: q_def mp_same_def)
  have "mp_inv q \<and> mp_frees q = b # mp_frees p"
  proof (rule mp_invI)
    show "mp_geom q" using mp_invD(1) [OF assms(1)] mp_same_facts(2) [OF s] by simp
    show "path (mp_mem q) (mp_list q) (b # mp_frees p)"
      using mp_invD(2) [OF assms(1)] b(2) bo(3) by (simp add: q_def path_upd)
    show "distinct (b # mp_frees p)" using b(2) mp_invD(3) [OF assms(1)] by simp
    show "set (b # mp_frees p) \<subseteq> set (mp_cells q)" using b(1) mp_invD(4) [OF assms(1)] mp_same_facts(1) [OF s] by simp
    show "length (b # mp_frees p) = mp_free q" using mp_invD(5) [OF assms(1)] by (simp add: q_def)
    show "mp_mem q x = mp_self q" if "x \<in> set (mp_cells q)" "x \<notin> set (b # mp_frees p)" for x
      using mp_invD(6) [OF assms(1), of x] that mp_same_facts(1) [OF s] by (simp add: q_def)
  qed
  then have i: "mp_inv q" "mp_frees q = b # mp_frees p" by auto
  have "mp_put a p = Some q"
    using bo(4,5) u mp_invD(6) [OF assms(1) b] by (simp add: mp_put_def mp_read_def mp_write_def q_def a)
  moreover have "mp_live q = (mp_live p)(a := None)"
  proof (rule ext)
    fix x show "mp_live q x = ((mp_live p)(a := None)) x"
      unfolding mp_live_same [OF s] i(2) using a by (cases "4 \<le> x") (auto simp: mp_live_def)
  qed
  ultimately show ?thesis using i s by (auto simp: q_def b_def)
qed

section \<open>Initialisation\<close>

lemma mp_link_spec:
  assumes "mp_geom p" "n + i = mp_total p"
  shows "\<exists>q. mp_link n (int i) p = Some q \<and> q = p\<lparr>mp_mem := mp_mem q\<rparr> \<and>
    (\<forall>j. j + 1 < mp_total p \<longrightarrow> i \<le> j \<longrightarrow> mp_mem q (mp_start p + j * (mp_bsize p + 4)) = mp_start p + (j + 1) * (mp_bsize p + 4)) \<and>
    (\<forall>j < i. mp_mem q (mp_start p + j * (mp_bsize p + 4)) = mp_mem p (mp_start p + j * (mp_bsize p + 4)))"
  using assms
proof (induction n arbitrary: i p)
  case 0
  then show ?case by (intro exI [of _ p]) auto
next
  case (Suc n)
  let ?c = "\<lambda>j. mp_start p + j * (mp_bsize p + 4)"
  have il: "i < mp_total p" using Suc.prems(2) by simp
  note ce = mp_cell_eq [OF Suc.prems(1) il]
  define p1 where "p1 = p\<lparr>mp_mem := (mp_mem p)(?c i := mp_cell p (int i + 1))\<rparr>"
  have e: "mp_start p1 = mp_start p" "mp_bsize p1 = mp_bsize p" "mp_total p1 = mp_total p"
    "mp_mem p1 = (mp_mem p)(?c i := mp_cell p (int i + 1))" by (simp_all add: p1_def)
  have g: "mp_geom p1" using Suc.prems(1) by (simp add: mp_geom_def p1_def)
  have t: "n + Suc i = mp_total p1" using Suc.prems(2) by (simp add: p1_def)
  obtain q where q: "mp_link n (int (Suc i)) p1 = Some q" "q = p1\<lparr>mp_mem := mp_mem q\<rparr>"
    "\<And>j. j + 1 < mp_total p \<Longrightarrow> Suc i \<le> j \<Longrightarrow> mp_mem q (?c j) = ?c (j + 1)"
    "\<And>j. j < Suc i \<Longrightarrow> mp_mem q (?c j) = mp_mem p1 (?c j)"
    using Suc.IH [OF g t] unfolding e by blast
  have "mp_link (Suc n) (int i) p = Some q"
    using q(1) ce by (simp add: mp_write_def p1_def add.commute)
  moreover have "q = p\<lparr>mp_mem := mp_mem q\<rparr>" using q(2) by (simp add: p1_def)
  moreover have "mp_mem q (?c j) = ?c (j + 1)" if "j + 1 < mp_total p" "i \<le> j" for j
  proof (cases "j = i")
    case True
    have "mp_cell p (int i + 1) = ?c (i + 1)" using mp_cell_eq(1) [OF Suc.prems(1), of "i + 1"] that True by (simp add: add.commute)
    then show ?thesis using q(4) [of i] True by (simp add: e)
  qed (use q(3) that in simp)
  moreover have "mp_mem q (?c j) = mp_mem p (?c j)" if "j < i" for j
    using q(4) [of j] that by (simp add: e)
  ultimately show ?case by blast
qed

lemma path_run:
  assumes "\<And>j. i \<le> j \<Longrightarrow> j + 1 < n \<Longrightarrow> m (c j) = c (j + 1)" "m (c (n - 1)) = 0" "i < n" "\<And>j. j < n \<Longrightarrow> c j \<noteq> 0"
  shows "path m (c i) (map c [i..<n])"
  using assms(1,3)
proof (induction "n - i" arbitrary: i)
  case (Suc k)
  show ?case
  proof (cases "Suc i = n")
    case True
    then have "n - 1 = i" by simp
    then have "m (c i) = 0" using assms(2) by simp
    moreover have "[i..<n] = [i]" using True by auto
    ultimately show ?thesis using assms(4) [of i] Suc.prems(2) by simp
  next
    case False
    then have i: "Suc i < n" using Suc.prems(2) by simp
    have "path m (c (Suc i)) (map c [Suc i..<n])" using Suc.hyps Suc.prems(1) i by simp
    moreover have "m (c i) = c (Suc i)" using Suc.prems(1) [of i] i by simp
    moreover have "[i..<n] = i # [Suc i..<n]" using Suc.prems(2) by (simp add: upt_rec)
    ultimately show ?thesis using assms(4) [of i] Suc.prems(2) by simp
  qed
qed simp

lemma mp_format_spec:
  assumes "mp_geom p" "mp_free p = mp_total p"
  shows "\<exists>q. mp_format p = Some q \<and> mp_inv q \<and> mp_same p q \<and> mp_frees q = mp_cells p \<and> mp_free q = mp_total p"
proof -
  let ?c = "\<lambda>j. mp_start p + j * (mp_bsize p + 4)"
  have t: "0 < mp_total p" using assms(1) by (simp add: mp_geom_def)
  obtain q where q: "mp_link (mp_total p) 0 p = Some q" "q = p\<lparr>mp_mem := mp_mem q\<rparr>"
    "\<And>j. j + 1 < mp_total p \<Longrightarrow> mp_mem q (?c j) = ?c (j + 1)"
    using mp_link_spec [OF assms(1), of "mp_total p" 0] by auto
  define r where "r = p\<lparr>mp_mem := (mp_mem q)(?c (mp_total p - 1) := 0), mp_list := mp_start p\<rparr>"
  have last: "mp_cell q (int (mp_total p) - 1) = ?c (mp_total p - 1)" "mp_in_area (?c (mp_total p - 1)) q"
  proof -
    have "int (mp_total p) - 1 = int (mp_total p - 1)" using t by simp
    moreover have "mp_cell q = mp_cell p" "mp_in_area a q = mp_in_area a p" for a
      by (subst q(2), simp add: fun_eq_iff mp_cell_def mp_stride_def mp_in_area_def)+
    ultimately show "mp_cell q (int (mp_total p) - 1) = ?c (mp_total p - 1)" "mp_in_area (?c (mp_total p - 1)) q"
      using mp_cell_eq [OF assms(1), of "mp_total p - 1"] t by simp_all
  qed
  have "q\<lparr>mp_mem := (mp_mem q)(?c (mp_total p - 1) := 0), mp_list := mp_start p\<rparr> = r"
    unfolding r_def by (subst q(2)) simp
  then have f: "mp_format p = Some r" using q(1) last by (simp add: mp_format_def mp_write_def)
  have s: "mp_same p r" by (simp add: r_def mp_same_def)
  have nz: "?c j \<noteq> 0" for j using assms(1) by (simp add: mp_geom_def)
  have inj: "?c j = ?c k \<longleftrightarrow> j = k" for j k by simp
  have "path (mp_mem r) (?c 0) (map ?c [0..<mp_total p])"
  proof (rule path_run [where m = "mp_mem r" and c = ?c])
    show "0 < mp_total p" by (rule t)
    show "mp_mem r (?c (mp_total p - 1)) = 0" by (simp add: r_def)
    show "mp_mem r (?c j) = ?c (j + 1)" if "0 \<le> j" "j + 1 < mp_total p" for j
      using q(3) [OF that(2)] inj [of j "mp_total p - 1"] that by (simp add: r_def)
    show "?c j \<noteq> 0" for j by (rule nz)
  qed
  then have pa: "path (mp_mem r) (mp_list r) (mp_cells p)" by (simp add: r_def mp_cells_def)
  have "mp_inv r \<and> mp_frees r = mp_cells p"
  proof (rule mp_invI)
    show "mp_geom r" using assms(1) mp_same_facts(2) [OF s] by simp
    show "path (mp_mem r) (mp_list r) (mp_cells p)" by (rule pa)
  qed (use mp_same_facts(1) [OF s] mp_cells_distinct assms(2) in \<open>auto simp: r_def\<close>)
  then show ?thesis using f s assms(2) by (auto simp: r_def)
qed

lemma rt_mp_init_spec:
  assumes "0 < start" "start + sz div 4 * 4 \<le> 2 ^ 32" "sz < 2 ^ 32" "0 < bsz" "(bsz + 3) div 4 * 4 + 4 \<le> sz div 4 * 4"
  shows "\<exists>p. rt_mp_init o' self start sz bsz k = Some (k\<lparr>lists := (lists k)(LSuspend o' := [])\<rparr>, p) \<and> mp_inv p \<and>
    mp_bsize p = (bsz + 3) div 4 * 4 \<and> mp_total p = sz div 4 * 4 div ((bsz + 3) div 4 * 4 + 4) \<and> mp_free p = mp_total p \<and>
    mp_frees p = mp_cells p \<and> mp_self p = self \<and> mp_start p = start \<and> mp_size p \<le> sz"
proof -
  let ?b = "(bsz + 3) div 4 * 4" and ?s = "sz div 4 * 4"
  have s: "unat (of_nat sz AND NOT (3 :: 32 word)) = ?s" using assms(3) by (simp only: and_not_3 unat_of_nat) simp
  have sl: "?s < 2 ^ 32" using assms(3) by (rule le_less_trans [rotated]) simp
  then have "?b + 4 < 2 ^ 32" using assms(5) by simp
  then have bl: "bsz + 3 < 2 ^ 32" by simp
  then have b: "unat (RT_ALIGN (of_nat bsz) 4) = ?b" by (simp add: RT_ALIGN_4)
  have u: "u32 (int ?b + 4) = ?b + 4" by (rule u32_eqI) (use \<open>?b + 4 < 2 ^ 32\<close> in auto)
  define p0 where "p0 = \<lparr>mp_self = self, mp_start = start, mp_size = ?s, mp_bsize = ?b, mp_total = ?s div (?b + 4),
    mp_free = ?s div (?b + 4), mp_list = 0, mp_mem = \<lambda>_. 0\<rparr>"
  have "0 < ?s div (?b + 4)" using assms(5) by (simp only: div_greater_zero_iff) simp
  moreover have "?s div (?b + 4) * (?b + 4) \<le> ?s" by (rule div_times_less_eq_dividend)
  moreover have "0 < ?b" using assms(4) by simp
  ultimately have "mp_geom p0" using assms(1,2) unfolding mp_geom_def p0_def by (simp only: mempool.simps)
  moreover have "mp_free p0 = mp_total p0" by (simp add: p0_def)
  ultimately obtain q where q: "mp_format p0 = Some q" "mp_inv q" "mp_same p0 q" "mp_frees q = mp_cells p0" "mp_free q = mp_total p0"
    using mp_format_spec [of p0] by blast
  have ne: "?b + 4 \<noteq> 0" "start \<noteq> 0" "sz \<noteq> 0" "bsz \<noteq> 0" using assms by auto
  have "rt_mp_init o' self start sz bsz k = Some (k\<lparr>lists := (lists k)(LSuspend o' := [])\<rparr>, q)"
    unfolding rt_mp_init_def Let_def s b u if_not_P [OF ne(1)] p0_def [symmetric] q(1) using ne by simp
  moreover have "mp_frees q = mp_cells q" using q(4) mp_same_facts(1) [OF q(3)] by simp
  ultimately show ?thesis using q by (auto simp: mp_same_def p0_def)
qed

text \<open>An area smaller than one block: the loop runs zero times, and the store that ends the list
  goes one block in front of the area.\<close>

lemma mp_format_empty:
  assumes "mp_total p = 0" "mp_stride p \<le> mp_start p" "0 < mp_stride p" "mp_start p < 2 ^ 32"
  shows "mp_format p = None"
proof -
  have "mp_cell p (- 1) = mp_start p - mp_stride p"
    unfolding mp_cell_def by (rule u32_eqI) (use assms in auto)
  then show ?thesis using assms by (simp add: mp_format_def mp_write_def mp_in_area_def)
qed

section \<open>The pool as an allocator\<close>

text \<open>A client of the pool asks for blocks up to the block size and does not wait.\<close>

definition pool_alloc :: "nat \<Rightarrow> mempool \<Rightarrow> (nat \<times> mempool) option" where
  "pool_alloc n p = (if n \<le> mp_bsize p \<and> mp_free p \<noteq> 0 then mp_take p else Some (0, p))"

definition pool_free :: "nat \<Rightarrow> mempool \<Rightarrow> mempool option" where
  "pool_free a p = (if a = 0 then Some p else mp_put a p)"

lemma pool_alloc_spec:
  assumes "mp_inv p"
  shows "\<exists>a q. pool_alloc n p = Some (a, q) \<and> mp_inv q \<and> mp_same p q \<and>
    (if a = 0 then q = p \<and> (mp_bsize p < n \<or> mp_free p = 0)
     else n \<le> mp_bsize p \<and> mp_live p a = None \<and> mp_live q = (mp_live p)(a \<mapsto> mp_bsize p) \<and> mp_free q + 1 = mp_free p)"
proof (cases "n \<le> mp_bsize p \<and> mp_free p \<noteq> 0")
  case True
  then obtain b fs where b: "mp_frees p = b # fs" using mp_invD(5) [OF assms] by (cases "mp_frees p") auto
  from mp_take_spec [OF assms b] obtain q where
    q: "mp_take p = Some (b + 4, q)" "mp_inv q" "mp_same p q" "mp_free q = mp_free p - 1" "mp_live p (b + 4) = None"
    "mp_live q = (mp_live p)(b + 4 \<mapsto> mp_bsize p)" by blast
  then show ?thesis using True by (intro exI [of _ "b + 4"] exI [of _ q]) (simp add: pool_alloc_def)
next
  case False
  then show ?thesis using assms by (auto simp: pool_alloc_def mp_same_def)
qed

lemma pool_free_spec:
  assumes "mp_inv p" "mp_live p a \<noteq> None"
  shows "\<exists>q. pool_free a p = Some q \<and> mp_inv q \<and> mp_same p q \<and> mp_live q = (mp_live p)(a := None) \<and> mp_free q = mp_free p + 1"
proof -
  have "a \<noteq> 0" using assms(2) by (auto simp: mp_live_def split: if_splits)
  then show ?thesis using mp_put_spec [OF assms] by (auto simp: pool_free_def)
qed

lemma mp_liveE:
  assumes "mp_live p a = Some n"
  obtains x where "a = x + 4" "x \<in> set (mp_cells p)" "x \<notin> set (mp_frees p)" "n = mp_bsize p"
proof -
  have "4 \<le> a" "a - 4 \<in> set (mp_cells p)" "a - 4 \<notin> set (mp_frees p)" "n = mp_bsize p"
    using assms by (auto simp: mp_live_def split: if_splits)
  then show thesis using that [of "a - 4"] by simp
qed

lemma mp_live_apart:
  assumes "mp_inv p" "mp_live p a = Some n" "mp_live p c = Some k" "a \<noteq> c"
  shows "a + n \<le> c \<or> c + k \<le> a"
proof -
  obtain x where x: "a = x + 4" "x \<in> set (mp_cells p)" "n = mp_bsize p"
    using mp_liveE [OF assms(2)] by metis
  obtain y where y: "c = y + 4" "y \<in> set (mp_cells p)" "k = mp_bsize p"
    using mp_liveE [OF assms(3)] by metis
  consider "x < y" | "y < x" using assms(4) x(1) y(1) by (metis linorder_neqE_nat)
  then show ?thesis using mp_cells_apart [OF x(2) y(2)] mp_cells_apart [OF y(2) x(2)] x(1,3) y(1,3) by cases simp_all
qed

lemma mp_same_refl [simp]: "mp_same p p"
  by (simp add: mp_same_def)

lemma mp_same_trans: "mp_same p q \<Longrightarrow> mp_same q r \<Longrightarrow> mp_same p r"
  by (simp add: mp_same_def)

interpretation po: allocator "\<lambda>p. mp_inv p \<and> mp_same p0 p" mp_live "\<lambda>n k. n \<le> k" pool_alloc pool_free for p0
proof (unfold_locales, goal_cases)
  case (1 s p n q k)
  then show ?case by (intro mp_live_apart) auto
next
  case (2 s)
  then show ?case by (simp add: mp_live_def)
next
  case (3 s n)
  then have i: "mp_inv s" "mp_same p0 s" by auto
  obtain a q where r: "pool_alloc n s = Some (a, q)" "mp_inv q" "mp_same s q"
    "if a = 0 then q = s \<and> (mp_bsize s < n \<or> mp_free s = 0)
     else n \<le> mp_bsize s \<and> mp_live s a = None \<and> mp_live q = (mp_live s)(a \<mapsto> mp_bsize s) \<and> mp_free q + 1 = mp_free s"
    using pool_alloc_spec [OF i(1), of n] by blast
  have "mp_same p0 q" by (rule mp_same_trans [OF i(2) r(3)])
  then show ?case by (intro exI [of _ a] exI [of _ q]) (use r in \<open>simp split: if_splits, blast\<close>)
next
  case (4 s p)
  then have i: "mp_inv s" "mp_same p0 s" by auto
  from pool_free_spec [OF i(1) 4(2)] mp_same_trans [OF i(2)] show ?case by blast
qed

text \<open>The number of blocks in use and the free count add up.\<close>

lemma mp_live_count:
  assumes "mp_inv p"
  shows "card (dom (mp_live p)) + mp_free p = mp_total p"
proof -
  have d: "dom (mp_live p) = (\<lambda>c. c + 4) ` (set (mp_cells p) - set (mp_frees p))"
  proof (rule set_eqI)
    fix a show "a \<in> dom (mp_live p) \<longleftrightarrow> a \<in> (\<lambda>c. c + 4) ` (set (mp_cells p) - set (mp_frees p))"
      by (auto simp: mp_live_def domIff image_iff intro!: bexI [of _ "a - 4"])
  qed
  have "card (dom (mp_live p)) = card (set (mp_cells p) - set (mp_frees p))"
    unfolding d by (rule card_image) (simp add: inj_on_def)
  also have "\<dots> = mp_total p - mp_free p"
    using card_Diff_subset [OF _ mp_invD(4) [OF assms]] mp_invD(3,5) [OF assms] mp_cells_distinct [of p]
    by (simp add: distinct_card)
  finally show ?thesis using mp_free_bounds(1) [OF assms] by simp
qed

section \<open>The blocking calls\<close>

definition rt_set_errno :: "rt_err \<Rightarrow> kern \<Rightarrow> kern" where
  "rt_set_errno e k =
     (if int_nest k \<noteq> 0 then k
      else case cur k of None \<Rightarrow> k | Some t \<Rightarrow> upd_tcb t (\<lambda>c. c\<lparr>t_error := e\<rparr>) k)"

partial_function (option) mp_alloc_loop ::
  "nat \<Rightarrow> int \<Rightarrow> mempool \<Rightarrow> kern \<Rightarrow> (kern \<times> mempool \<times> nat outcome) option" where
  "mp_alloc_loop o' time p k =
     (if mp_free p = 0 then
        (if time = 0 then Some (rt_set_errno RT_ETIMEOUT k, p, Done 0)
         else if int_nest k = 0 then
           do {
             t \<leftarrow> cur k;
             k1 \<leftarrow> block_on (\<lambda>_ t ss. t # ss) (LSuspend o') time t (clear_error t k);
             if cur k1 \<noteq> Some t then Some (k1, p, Waits)
             else if err k1 t \<noteq> RT_EOK then Some (k1, p, Done 0)
             else mp_alloc_loop o' (time_left time (now k) k1) p k1
           }
         else None)
      else do {
        (block, p1) \<leftarrow> mp_take p;
        Some (k, p1, Done block)
      })"

declare mp_alloc_loop.simps [code]

definition rt_mp_alloc :: "nat \<Rightarrow> int \<Rightarrow> mempool \<Rightarrow> kern \<Rightarrow> (kern \<times> mempool \<times> nat outcome) option" where
  "rt_mp_alloc o' time p k = mp_alloc_loop o' time p k"

text \<open>A thread that waited since tick \<open>t0\<close> runs again.\<close>

definition rt_mp_alloc_resume ::
  "nat \<Rightarrow> int \<Rightarrow> 32 word \<Rightarrow> tid \<Rightarrow> mempool \<Rightarrow> kern \<Rightarrow> (kern \<times> mempool \<times> nat outcome) option" where
  "rt_mp_alloc_resume o' time t0 t p k =
     (if err k t \<noteq> RT_EOK then Some (k, p, Done 0)
      else mp_alloc_loop o' (time_left time t0 k) p k)"

definition rt_mp_free :: "nat \<Rightarrow> nat \<Rightarrow> mempool \<Rightarrow> kern \<Rightarrow> (kern \<times> mempool) option" where
  "rt_mp_free o' block p k =
     (if block = 0 then Some (k, p)
      else do {
        p1 \<leftarrow> mp_put block p;
        (case lists k (LSuspend o') of
           [] \<Rightarrow> Some (k, p1)
         | t # _ \<Rightarrow> do {
             (k1, _) \<leftarrow> rt_thread_resume t (clear_error t k);
             k2 \<leftarrow> rt_schedule k1;
             Some (k2, p1)
           })
      })"

definition rt_mp_detach :: "nat \<Rightarrow> kern \<Rightarrow> kern option" where
  "rt_mp_detach o' k = rt_ipc_list_resume_all (LSuspend o') k"

text \<open>A pool on the system heap: the control block (52 bytes) and the area are two allocations.
  \<open>None\<close> is a store outside the area, the result \<open>Some (m, None)\<close> the failure the code reports.\<close>

definition mp_object :: "addr \<Rightarrow> addr list \<Rightarrow> mem \<Rightarrow> (addr \<times> mem) option" where
  "mp_object sys hs m =
     do {
       (obj, m1) \<leftarrow> rt_malloc sys hs 52 m;
       Some (obj, if obj \<noteq> 0 then memset0 obj 52 m1 else m1)
     }"

definition rt_mp_create :: "addr \<Rightarrow> addr list \<Rightarrow> nat \<Rightarrow> nat \<Rightarrow> mem \<Rightarrow> (mem \<times> mempool option) option" where
  "rt_mp_create sys hs cnt bsz m =
     (if cnt = 0 \<or> bsz = 0 then None
      else do {
        (obj, m1) \<leftarrow> mp_object sys hs m;
        if obj = 0 then Some (m1, None)
        else
          (let bsz' = unat (RT_ALIGN (of_nat bsz) 4);
               sz = u32 (int (u32 (int bsz' + 4)) * int cnt)
           in do {
             (start, m2) \<leftarrow> rt_malloc sys hs sz m1;
             if start = 0 then do { m3 \<leftarrow> rt_free obj m2; Some (m3, None) }
             else do {
               p \<leftarrow> mp_format \<lparr>mp_self = obj, mp_start = start, mp_size = sz, mp_bsize = bsz', mp_total = cnt,
                 mp_free = cnt, mp_list = 0, mp_mem = \<lambda>_. 0\<rparr>;
               Some (m2, Some p)
             }
           })
      })"

definition rt_mp_delete :: "nat \<Rightarrow> mempool \<Rightarrow> mem \<Rightarrow> kern \<Rightarrow> (kern \<times> mem) option" where
  "rt_mp_delete o' p m k =
     do {
       k1 \<leftarrow> rt_ipc_list_resume_all (LSuspend o') k;
       m1 \<leftarrow> rt_free (mp_start p) m;
       m2 \<leftarrow> rt_free (mp_self p) m1;
       Some (k1, m2)
     }"

section \<open>Properties\<close>

lemma mp_live_area:
  assumes "mp_inv p" "mp_live p a = Some n"
  shows "mp_start p + 4 \<le> a" "a + n \<le> mp_start p + mp_size p"
  using mp_liveE [OF assms(2)] mp_cells_bounds(1,2) [OF mp_invD(1) [OF assms(1)]] by (metis add.commute add_le_mono1 add.assoc)+

lemma pool_client_gen:
  assumes "mp_inv p" "mp_frees p = mp_cells p"
  shows "\<exists>held q. arun pool_alloc pool_free ops ([], p) = Some (held, q) \<and> mp_inv q \<and> mp_same p q \<and>
    holds (mp_live q) (\<lambda>n k. n \<le> k) held \<and> length held + mp_free q = mp_total p"
proof -
  have "mp_live p = Map.empty" using assms(2) by (simp add: fun_eq_iff mp_live_def)
  then have h: "holds (mp_live p) (\<lambda>n k. n \<le> k) []" by (simp add: holds_def)
  have "mp_inv p \<and> mp_same p p" using assms(1) by simp
  from po.arun_safe [OF this h, of ops] obtain held q where
    q: "arun pool_alloc pool_free ops ([], p) = Some (held, q)" "mp_inv q" "mp_same p q" "holds (mp_live q) (\<lambda>n k. n \<le> k) held"
    by blast
  have "length held = card (set (map fst held))" using distinct_card [of "map fst held"] q(4) by (simp add: holds_def)
  also have "\<dots> = card (dom (mp_live q))" using q(4) by (simp add: holds_def)
  finally have "length held + mp_free q = mp_total q" using mp_live_count [OF q(2)] by simp
  then show ?thesis using q by (auto simp: mp_same_def)
qed

text \<open>C9. A fresh pool used in any way by a client that does not wait: no access leaves the area, the client holds disjoint
  blocks inside the area that are large enough, and the blocks it holds and the free count always add
  up to the number of blocks that fit the area.\<close>

theorem pool_client:
  assumes "0 < start" "start + sz div 4 * 4 \<le> 2 ^ 32" "sz < 2 ^ 32" "0 < bsz" "(bsz + 3) div 4 * 4 + 4 \<le> sz div 4 * 4"
  shows "\<exists>k' p held q. rt_mp_init o' self start sz bsz k = Some (k', p) \<and>
    arun pool_alloc pool_free ops ([], p) = Some (held, q) \<and>
    length held + mp_free q = sz div 4 * 4 div ((bsz + 3) div 4 * 4 + 4) \<and>
    holds (mp_live q) (\<lambda>n k. n \<le> k) held \<and>
    (\<forall>(a, n) \<in> set held. start \<le> a \<and> a + n \<le> start + sz \<and>
       (\<forall>(b, m) \<in> set held. a = b \<or> a + n \<le> b \<or> b + m \<le> a))"
proof -
  obtain p where p: "rt_mp_init o' self start sz bsz k = Some (k\<lparr>lists := (lists k)(LSuspend o' := [])\<rparr>, p)" "mp_inv p"
    "mp_total p = sz div 4 * 4 div ((bsz + 3) div 4 * 4 + 4)" "mp_frees p = mp_cells p" "mp_start p = start" "mp_size p \<le> sz"
    using rt_mp_init_spec [OF assms, of o' self k] by blast
  obtain held q where q: "arun pool_alloc pool_free ops ([], p) = Some (held, q)" "mp_inv q" "mp_same p q"
    "holds (mp_live q) (\<lambda>n k. n \<le> k) held" "length held + mp_free q = mp_total p"
    using pool_client_gen [OF p(2,4), of ops] by blast
  have i: "mp_inv q \<and> mp_same p q" using q(2,3) by simp
  have "start \<le> a \<and> a + n \<le> start + sz" if h: "(a, n) \<in> set held" for a n
  proof -
    obtain l where l: "mp_live q a = Some l" "n \<le> l" using holdsD [OF q(4) h] by blast
    have "mp_start q = start" "mp_size q \<le> sz" using q(3) p(5,6) by (simp_all add: mp_same_def)
    then show ?thesis using mp_live_area [OF q(2) l(1)] l(2) by linarith
  qed
  moreover have "a = b \<or> a + n \<le> b \<or> b + m \<le> a" if "(a, n) \<in> set held" "(b, m) \<in> set held" for a n b m
    using po.held_apart [OF i q(4) that] by (cases "a = b") blast+
  ultimately have "\<forall>(a, n) \<in> set held. start \<le> a \<and> a + n \<le> start + sz \<and>
       (\<forall>(b, m) \<in> set held. a = b \<or> a + n \<le> b \<or> b + m \<le> a)" by blast
  then show ?thesis using p(1,3) q(1,4,5) by auto
qed

theorem pool_client_witness:
  "\<exists>k' p held q. rt_mp_init 0 64 4096 66 10 kern_example = Some (k', p) \<and>
    arun pool_alloc pool_free [AAlloc 10, AAlloc 12, AFree 1, AAlloc 13, AAlloc 1] ([], p) = Some (held, q) \<and>
    length held + mp_free q = 4"
  using pool_client [of 4096 66 10 0 64 kern_example "[AAlloc 10, AAlloc 12, AFree 1, AAlloc 13, AAlloc 1]"]
  by auto

text \<open>An area that does not hold one block is not refused: the initialisation stores outside it.\<close>

theorem pool_too_small:
  assumes "0 < sz" "0 < bsz" "sz < bsz" "bsz < 2 ^ 31" "bsz + 8 \<le> start" "start < 2 ^ 32"
  shows "rt_mp_init o' self start sz bsz k = None"
proof -
  let ?b = "(bsz + 3) div 4 * 4" and ?s = "sz div 4 * 4"
  have s: "unat (of_nat sz AND NOT (3 :: 32 word)) = ?s" using assms(3,4) by (simp only: and_not_3 unat_of_nat) simp
  have b: "unat (RT_ALIGN (of_nat bsz) 4) = ?b" using assms(4) by (simp add: RT_ALIGN_4)
  have bb: "bsz \<le> ?b" "?b \<le> bsz + 3" using div_times_less_eq_dividend [of "bsz + 3" 4] by presburger+
  have u: "u32 (int ?b + 4) = ?b + 4" by (rule u32_eqI) (use bb assms(4) in auto)
  have "?s < ?b + 4" using bb assms(3) div_times_less_eq_dividend [of sz 4] by linarith
  then have t: "?s div (?b + 4) = 0" by (rule div_less)
  have "mp_format \<lparr>mp_self = self, mp_start = start, mp_size = ?s, mp_bsize = ?b, mp_total = 0, mp_free = 0,
      mp_list = 0, mp_mem = \<lambda>_. 0\<rparr> = None"
    by (rule mp_format_empty) (use u bb assms(5,6) in \<open>simp_all add: mp_stride_def\<close>)
  then show ?thesis unfolding rt_mp_init_def Let_def s b u t by simp
qed

theorem pool_too_small_witness:
  "rt_mp_init 0 64 4096 80 100 kern_example = None"
  by (rule pool_too_small) simp_all

text \<open>Taking a block with a waiting time: a free block is handed out at once; with none the
  call gives up at once with time 0, and otherwise the caller waits, in front of the others.\<close>

theorem mp_alloc_spec:
  assumes "can_block t k" "mp_inv p" "time < 0x7fffffff"
  shows "\<exists>k' p' r. rt_mp_alloc o' time p k = Some (k', p', r) \<and> ipc_inv k' \<and> mp_inv p' \<and>
    (if mp_free p \<noteq> 0 then
       (\<exists>a. r = Done a \<and> a \<noteq> 0 \<and> k' = k \<and> mp_live p a = None \<and> mp_live p' = (mp_live p)(a \<mapsto> mp_bsize p))
     else p' = p \<and>
       (if time = 0 then r = Done 0 \<and> err k' t = RT_ETIMEOUT
        else r = Waits \<and> stat k' t = T_SUSPEND \<and> lists k' (LSuspend o') = t # lists k (LSuspend o')))"
proof -
  note c = can_blockD [OF assms(1)]
  have n: "int_nest k = 0" using assms(1) by (simp add: can_block_def)
  consider "mp_free p \<noteq> 0" | "mp_free p = 0" "time = 0" | "mp_free p = 0" "time \<noteq> 0" by blast
  then show ?thesis
  proof cases
    case 1
    then obtain b fs where "mp_frees p = b # fs" using mp_invD(5) [OF assms(2)] by (cases "mp_frees p") auto
    from mp_take_spec [OF assms(2) this] 1 c(1) show ?thesis
      by (auto simp: rt_mp_alloc_def mp_alloc_loop.simps)
  next
    case 2
    have "ipc_inv (upd_tcb t (\<lambda>c. c\<lparr>t_error := RT_ETIMEOUT\<rparr>) k)" by (rule ipc_inv_error [OF c(1)])
    then show ?thesis using 2 c(2) n assms(2) by (simp add: rt_mp_alloc_def mp_alloc_loop.simps rt_set_errno_def)
  next
    case 3
    from lifoq.block_on_cleared [OF assms(1) _ assms(3), of "LSuspend o'"] show ?thesis
      using 3 assms(2) c(2) n by (auto simp: rt_mp_alloc_def mp_alloc_loop.simps)
  qed
qed

lemma kern_example_fresh_pool:
  "\<exists>k p. rt_mp_init 0 64 4096 66 10 kern_example = Some (k, p) \<and> mp_inv p \<and> mp_free p = 4"
  using rt_mp_init_spec [of 4096 66 10 0 64 kern_example] by auto

theorem mp_alloc_spec_witness:
  "\<exists>k p k' p' a. rt_mp_init 0 64 4096 66 10 kern_example = Some (k, p) \<and> rt_mp_alloc 0 (- 1) p kern_example = Some (k', p', Done a) \<and> a \<noteq> 0"
proof -
  obtain k p where p: "rt_mp_init 0 64 4096 66 10 kern_example = Some (k, p)" "mp_inv p" "mp_free p = 4"
    using kern_example_fresh_pool by blast
  from mp_alloc_spec [OF kern_example_can_block p(2), of "- 1" 0] p(1,3) show ?thesis by auto
qed

text \<open>Giving a block back wakes the front waiter with error \<open>RT_EOK\<close>, which is the one that came last;
  without waiters nothing but the pool changes.\<close>

theorem mp_free_spec:
  assumes "ipc_inv k" "cur k = Some c" "mp_inv p" "mp_live p a \<noteq> None"
  shows "\<exists>k' p'. rt_mp_free o' a p k = Some (k', p') \<and> ipc_inv k' \<and> mp_inv p' \<and> mp_live p' = (mp_live p)(a := None) \<and>
    mp_free p' = mp_free p + 1 \<and>
    (case lists k (LSuspend o') of
       [] \<Rightarrow> k' = k
     | t # ts \<Rightarrow> active_stat (stat k' t) \<and> err k' t = RT_EOK \<and> TThread t \<notin> set (hard k') \<and> lists k' (LSuspend o') = ts)"
proof -
  have a0: "a \<noteq> 0" using assms(4) by (auto simp: mp_live_def split: if_splits)
  obtain q where q: "mp_put a p = Some q" "mp_inv q" "mp_live q = (mp_live p)(a := None)" "mp_free q = mp_free p + 1"
    using mp_put_spec [OF assms(3,4)] by blast
  show ?thesis
  proof (cases "lists k (LSuspend o')")
    case Nil
    then show ?thesis using q a0 assms(1) by (simp add: rt_mp_free_def)
  next
    case (Cons t ts)
    then have "lists (clear_error t k) (LSuspend o') = t # ts" by simp
    from wake_first_spec [OF ipc_inv_clear [OF assms(1)] this _, of c] assms(2) obtain k1 k' where
      k': "rt_ipc_list_resume (LSuspend o') (clear_error t k) = Some k1" "rt_schedule k1 = Some k'" "ipc_inv k'"
      "active_stat (stat k' t)" "err k' t = RT_EOK" "TThread t \<notin> set (hard k')" "lists k' (LSuspend o') = ts"
      by auto
    then show ?thesis using q a0 Cons
      by (auto simp: rt_mp_free_def rt_ipc_list_resume_def bind_Some_iff split: prod.splits)
  qed
qed

theorem mp_free_spec_witness:
  "\<exists>p a k' p'. mp_live p a \<noteq> None \<and> rt_mp_free 0 a p kern_example = Some (k', p') \<and> mp_live p' a = None \<and> ipc_inv k'"
proof -
  obtain k p where p: "mp_inv p" "mp_free p = 4" using kern_example_fresh_pool by blast
  obtain a q where q: "pool_alloc 0 p = Some (a, q)" "mp_inv q" "a = 0 \<longrightarrow> mp_bsize p < 0 \<or> mp_free p = 0"
    "a \<noteq> 0 \<longrightarrow> mp_live q = (mp_live p)(a \<mapsto> mp_bsize p)"
    using pool_alloc_spec [OF p(1), of 0] by (auto split: if_splits)
  then have l: "mp_live q a \<noteq> None" using p(2) by auto
  from mp_free_spec [OF can_blockD(1,2) [OF kern_example_can_block] q(2) l, of 0] obtain k' p' where
    "rt_mp_free 0 a q kern_example = Some (k', p')" "ipc_inv k'" "mp_live p' = (mp_live q)(a := None)" by blast
  then show ?thesis using l by (intro exI [of _ q] exI [of _ a] exI [of _ k'] exI [of _ p']) simp
qed

text \<open>A timed wait for a block that nobody serves ends after exactly its ticks: the thread is
  ready again, off the waiting list, and the call returns no block.\<close>

theorem mp_alloc_times_out:
  assumes "can_block t k" "mp_free p = 0" "0 < time" "time < 0x7fffffff"
  shows "\<exists>k1 k2. rt_mp_alloc o' time p k = Some (k1, p, Waits) \<and> rt_ticks m user k1 = Some k2 \<and>
    (if int m < time then stat k2 t = T_SUSPEND
     else active_stat (stat k2 t) \<and> t \<notin> set (lists k2 (LSuspend o')) \<and>
       rt_mp_alloc_resume o' time (now k) t q k2 = Some (k2, q, Done 0))"
proof -
  have n: "int_nest k = 0" "cur k = Some t" using assms(1) by (simp_all add: can_block_def)
  have w: "wait_list (LSuspend o')" by simp
  from lifoq.block_on_cleared [OF assms(1) w assms(4)] obtain k1 where
    k1: "block_on (\<lambda>_ t ss. t # ss) (LSuspend o') time t (clear_error t k) = Some k1" "cur k1 \<noteq> Some t" by blast
  have "rt_mp_alloc o' time p k = Some (k1, p, Waits)"
    using assms(2,3) n k1 by (simp add: rt_mp_alloc_def mp_alloc_loop.simps)
  moreover from lifoq.block_on_expires [OF can_block_clear [OF assms(1)] w assms(3,4) k1(1), of m user] obtain k2 where
    "rt_ticks m user k1 = Some k2" "if int m < time then stat k2 t = T_SUSPEND
     else active_stat (stat k2 t) \<and> err k2 t = RT_ETIMEOUT \<and> t \<notin> set (lists k2 (LSuspend o'))" by blast
  ultimately show ?thesis by (auto simp: rt_mp_alloc_resume_def)
qed

theorem mp_alloc_times_out_witness:
  "\<exists>p k1 k2. rt_mp_alloc 0 10 p kern_example = Some (k1, p, Waits) \<and> rt_ticks 10 (\<lambda>_. Some) k1 = Some k2 \<and> active_stat (stat k2 1)"
proof -
  let ?p = "\<lparr>mp_self = 64, mp_start = 4096, mp_size = 16, mp_bsize = 12, mp_total = 1, mp_free = 0, mp_list = 0, mp_mem = \<lambda>_. 64\<rparr>"
  have "mp_free ?p = 0" by simp
  from mp_alloc_times_out [OF kern_example_can_block this, of 10 0 10 "\<lambda>_. Some"] show ?thesis by fastforce
qed

section \<open>Pools on the heap\<close>

lemma mp_object_spec:
  assumes "sys_ok hs m" "sys \<in> set hs"
  obtains obj m1 where "mp_object sys hs m = Some (obj, m1)" "sys_ok hs m1"
    "if obj = 0 then live_sys hs m1 = live_sys hs m
     else live_sys hs m obj = None \<and> (\<exists>j \<ge> 52. live_sys hs m1 = (live_sys hs m)(obj \<mapsto> j))"
proof -
  obtain obj m1 where a: "rt_malloc sys hs 52 m = Some (obj, m1)" "alloc_result hs 52 m obj m1"
    by (rule malloc_result [OF assms])
  define m2 where "m2 = (if obj \<noteq> 0 then memset0 obj 52 m1 else m1)"
  have ok: "sys_ok hs m1" using a(2) by (simp add: alloc_result_def)
  have m2: "sys_ok hs m2" "live_sys hs m2 = live_sys hs m1"
    using ok live_sys_bytes [OF ok] by (simp_all add: m2_def memset0_def)
  have "52 \<le> request_size 52" using request_size_facts(4) [of 52] by simp
  then have "if obj = 0 then live_sys hs m2 = live_sys hs m
     else live_sys hs m obj = None \<and> (\<exists>j \<ge> 52. live_sys hs m2 = (live_sys hs m)(obj \<mapsto> j))"
    using a(2) unfolding m2(2) alloc_result_def by (cases "obj = 0") (simp, metis order.trans)
  then show thesis using that [of obj m2] a(1) m2(1) by (simp add: mp_object_def m2_def)
qed

text \<open>Creating a pool whose size fits 32 bits: it fails and gives everything back, or all its blocks are free
  and lie in a live block of the heap, the control block in another.\<close>

theorem mp_create_spec:
  assumes "sys_ok hs m" "sys \<in> set hs" "0 < cnt" "0 < bsz" "((bsz + 3) div 4 * 4 + 4) * cnt \<le> 4294967280"
  shows "\<exists>m' r. rt_mp_create sys hs cnt bsz m = Some (m', r) \<and> sys_ok hs m' \<and>
    (case r of
       None \<Rightarrow> live_sys hs m' = live_sys hs m
     | Some p \<Rightarrow> mp_inv p \<and> mp_free p = cnt \<and> mp_total p = cnt \<and> bsz \<le> mp_bsize p \<and>
         (\<exists>i j. live_sys hs m' = (live_sys hs m)(mp_self p \<mapsto> i, mp_start p \<mapsto> j) \<and> mp_self p \<noteq> mp_start p \<and>
            52 \<le> i \<and> mp_size p \<le> j))"
proof -
  let ?b = "(bsz + 3) div 4 * 4"
  define sz where "sz = (?b + 4) * cnt"
  have "(?b + 4) * 1 \<le> (?b + 4) * cnt" by (rule mult_le_mono2) (use assms(3) in simp)
  then have sb: "?b + 4 \<le> sz" "sz \<le> 4294967280" using assms(5) by (simp_all add: sz_def)
  then have b: "unat (RT_ALIGN (of_nat bsz) 4) = ?b" by (simp add: RT_ALIGN_4)
  have u: "u32 (int ?b + 4) = ?b + 4" by (rule u32_eqI) (use sb in auto)
  have us: "u32 (int (?b + 4) * int cnt) = sz" by (rule u32_eqI) (use sb in \<open>simp_all add: sz_def\<close>)
  obtain obj m1 where o: "mp_object sys hs m = Some (obj, m1)" "sys_ok hs m1"
    "if obj = 0 then live_sys hs m1 = live_sys hs m
     else live_sys hs m obj = None \<and> (\<exists>j \<ge> 52. live_sys hs m1 = (live_sys hs m)(obj \<mapsto> j))"
    by (rule mp_object_spec [OF assms(1,2)])
  show ?thesis
  proof (cases "obj = 0")
    case True
    then show ?thesis using o assms(3,4) by (simp add: rt_mp_create_def)
  next
    case False
    then obtain j where j: "52 \<le> j" "live_sys hs m obj = None" "live_sys hs m1 = (live_sys hs m)(obj \<mapsto> j)" using o(3) by auto
    obtain start m2 where a: "rt_malloc sys hs sz m1 = Some (start, m2)" "alloc_result hs sz m1 start m2"
      by (rule malloc_result [OF o(2) assms(2)])
    have un: "rt_mp_create sys hs cnt bsz m =
      (if start = 0 then do { m3 \<leftarrow> rt_free obj m2; Some (m3, None) }
       else do {
         p \<leftarrow> mp_format \<lparr>mp_self = obj, mp_start = start, mp_size = sz, mp_bsize = ?b, mp_total = cnt,
           mp_free = cnt, mp_list = 0, mp_mem = \<lambda>_. 0\<rparr>;
         Some (m2, Some p)
       })"
      unfolding rt_mp_create_def Let_def b u us using assms(3,4) False o(1) a(1) by simp
    show ?thesis
    proof (cases "start = 0")
      case True
      then have r: "sys_ok hs m2" "live_sys hs m2 = live_sys hs m1" using a(2) by (simp_all add: alloc_result_def)
      then have nn: "live_sys hs m2 obj \<noteq> None" using j(3) by simp
      obtain m3 where m3: "rt_free obj m2 = Some m3" "sys_ok hs m3" "live_sys hs m3 = (live_sys hs m2)(obj := None)"
        by (rule free_result [OF r(1) nn])
      have "live_sys hs m3 = live_sys hs m" using m3(3) r(2) j(2,3) by auto
      then show ?thesis using un True m3 by simp
    next
      case False
      then obtain l where l: "live_sys hs m1 start = None" "request_size sz \<le> l" "live_sys hs m2 = (live_sys hs m1)(start \<mapsto> l)" "sys_ok hs m2"
        using a(2) by (auto simp: alloc_result_def)
      have sl: "sz \<le> l" using request_size_facts(4) [of sz] l(2) sb(2) by simp
      have "live_sys hs m2 start = Some l" using l(3) by simp
      then obtain h where h: "h \<in> set hs" "live m2 h start = Some l" using live_sys_iff [OF l(4)] by blast
      have "start + l \<le> 4294967296" using live_place(6) [OF sys_okD(2) [OF l(4) h(1)] h(2)] by simp
      define p0 where "p0 = \<lparr>mp_self = obj, mp_start = start, mp_size = sz, mp_bsize = ?b, mp_total = cnt,
           mp_free = cnt, mp_list = 0, mp_mem = \<lambda>_. 0\<rparr>"
      have "mp_geom p0" using False sl \<open>start + l \<le> 4294967296\<close> assms(3,4)
        by (simp add: mp_geom_def p0_def sz_def mult.commute)
      moreover have "mp_free p0 = mp_total p0" by (simp add: p0_def)
      ultimately obtain q where q: "mp_format p0 = Some q" "mp_inv q" "mp_same p0 q" "mp_free q = mp_total p0"
        using mp_format_spec by blast
      have ne: "obj \<noteq> start" using l(1) j(3) by auto
      have "bsz \<le> ?b" by presburger
      then show ?thesis using un False q l(3,4) j(1,3) sl ne by (auto simp: p0_def mp_same_def)
    qed
  qed
qed

theorem mp_create_spec_witness:
  "\<exists>m' r. rt_mp_create 16 [16] 4 10 demo_heap = Some (m', r) \<and> sys_ok [16] m'"
  using mp_create_spec [OF demo_ok(3), of 16 4 10] by auto

lemma mp_link_fails: "0 < n \<Longrightarrow> \<not> mp_in_area (mp_cell p off) p \<Longrightarrow> mp_link n off p = None"
  by (cases n) (simp_all add: mp_write_def)

text \<open>The product of count and block size is not checked: half a billion blocks of four bytes ask the heap
  for nothing, and the loop that links them runs out of the area at once.\<close>

theorem mp_create_overflows:
  assumes "mp_object sys hs m = Some (obj, m1)" "obj \<noteq> 0" "rt_malloc sys hs 0 m1 = Some (start, m2)" "start \<noteq> 0"
  shows "rt_mp_create sys hs 0x20000000 4 m = None"
proof -
  have b: "unat (RT_ALIGN (of_nat 4) 4) = 4" by (subst RT_ALIGN_4) simp
  have u: "u32 (int 4 + 4) = 8" "u32 (int 8 * int 0x20000000) = 0" by (simp_all add: u32_def)
  have "mp_format \<lparr>mp_self = obj, mp_start = start, mp_size = 0, mp_bsize = 4, mp_total = 0x20000000, mp_free = 0x20000000,
      mp_list = 0, mp_mem = \<lambda>_. 0\<rparr> = None"
    unfolding mp_format_def by (subst mp_link_fails) (simp_all add: mp_in_area_def)
  then show ?thesis unfolding rt_mp_create_def Let_def b u using assms by simp
qed

text \<open>Deleting a pool wakes every waiter with \<open>RT_ERROR\<close> and gives both blocks back.\<close>

theorem mp_delete_spec:
  assumes "ipc_inv k" "sys_ok hs m" "live_sys hs m (mp_start p) \<noteq> None" "live_sys hs m (mp_self p) \<noteq> None"
    "mp_self p \<noteq> mp_start p"
  shows "\<exists>k' m'. rt_mp_delete o' p m k = Some (k', m') \<and> ipc_inv k' \<and> sys_ok hs m' \<and>
    live_sys hs m' = (live_sys hs m)(mp_start p := None, mp_self p := None) \<and> lists k' (LSuspend o') = [] \<and>
    (\<forall>t \<in> set (lists k (LSuspend o')). active_stat (stat k' t) \<and> err k' t = RT_ERROR)"
proof -
  from resume_all_spec [OF assms(1), of "LSuspend o'"] obtain k1 where
    k1: "rt_ipc_list_resume_all (LSuspend o') k = Some k1" "ipc_inv k1" "lists k1 (LSuspend o') = []"
    "\<forall>t. if t \<in> set (lists k (LSuspend o')) then active_stat (stat k1 t) \<and> err k1 t = RT_ERROR else tcbs k1 t = tcbs k t"
    by auto
  obtain m1 where m1: "rt_free (mp_start p) m = Some m1" "sys_ok hs m1" "live_sys hs m1 = (live_sys hs m)(mp_start p := None)"
    by (rule free_result [OF assms(2,3)])
  then have "live_sys hs m1 (mp_self p) \<noteq> None" using assms(4,5) by simp
  then obtain m2 where m2: "rt_free (mp_self p) m1 = Some m2" "sys_ok hs m2" "live_sys hs m2 = (live_sys hs m1)(mp_self p := None)"
    by (rule free_result [OF m1(2)])
  show ?thesis using k1 m1 m2 by (auto simp: rt_mp_delete_def)
qed

end
