(* ===== verification/Ieee.thy ===== *)
theory Ieee
  imports Complex_Main Prelude
begin

text \<open>
  Binary floating point as the C sources use it: \<^verbatim>\<open>float\<close> with 24 and \<^verbatim>\<open>double\<close> with 53 bits of
  precision, each operation rounded to nearest, ties to even. A number is a pair \<open>(m, k)\<close>
  that stands for \<open>m / 2 ^ k\<close>. The range of the exponent is not modelled: the sources stay far
  from overflow and from the subnormal numbers. Each operation rounds by itself, as the C
  standard has it without contraction into fused operations.
\<close>

type_synonym flt = "int \<times> nat"

section \<open>Rounding\<close>

text \<open>The power of two that brings \<open>n\<close> up to \<open>b\<close>.\<close>

function kfind :: "int \<Rightarrow> int \<Rightarrow> nat" where
  "kfind n b = (if n \<le> 0 \<or> b \<le> n then 0 else Suc (kfind (2 * n) b))"
  by pat_completeness auto
termination by (relation "measure (\<lambda>(n, b). nat (b - n))") auto

declare kfind.simps [simp del]

definition rne :: "int \<Rightarrow> int \<Rightarrow> int" where
  "rne a b =
     (let q = a div b; r = a mod b
      in if 2 * r < b \<or> 2 * r = b \<and> even q then q else q + 1)"

text \<open>The quotient \<open>n / d\<close> rounded to \<open>p\<close> bits.\<close>

definition fround :: "nat \<Rightarrow> int \<Rightarrow> int \<Rightarrow> flt" where
  "fround p n d =
     (let a = \<bar>n\<bar>; k = kfind a (2 ^ (p - 1) * d)
      in (sgn n * rne (a * 2 ^ k) d, k))"

section \<open>Operations\<close>

definition f_of_int :: "int \<Rightarrow> flt" where
  "f_of_int n = (n, 0)"

fun f_div :: "nat \<Rightarrow> flt \<Rightarrow> flt \<Rightarrow> flt" where
  "f_div p (m, k) (n, l) = fround p (sgn n * m * 2 ^ l) (\<bar>n\<bar> * 2 ^ k)"

fun f_mul :: "nat \<Rightarrow> flt \<Rightarrow> flt \<Rightarrow> flt" where
  "f_mul p (m, k) (n, l) = fround p (m * n) (2 ^ (k + l))"

fun f_add :: "nat \<Rightarrow> flt \<Rightarrow> flt \<Rightarrow> flt" where
  "f_add p (m, k) (n, l) = fround p (m * 2 ^ l + n * 2 ^ k) (2 ^ (k + l))"

fun f_sub :: "nat \<Rightarrow> flt \<Rightarrow> flt \<Rightarrow> flt" where
  "f_sub p (m, k) (n, l) = fround p (m * 2 ^ l - n * 2 ^ k) (2 ^ (k + l))"

text \<open>Conversion to an integer type cuts towards zero.\<close>

fun f_trunc :: "flt \<Rightarrow> int" where
  "f_trunc (m, k) = cdiv m (2 ^ k)"

fun f_val :: "flt \<Rightarrow> real" where
  "f_val (m, k) = real_of_int m / 2 ^ k"

section \<open>The rounding error\<close>

lemma kfind_reaches: "0 < n \<Longrightarrow> b \<le> n * 2 ^ kfind n b"
proof (induction n b rule: kfind.induct)
  case (1 n b)
  show ?case
  proof (cases "b \<le> n")
    case True
    then show ?thesis by (simp add: kfind.simps)
  next
    case False
    then have "kfind n b = Suc (kfind (2 * n) b)" using "1.prems" by (simp add: kfind.simps [of n])
    then show ?thesis using 1 False by (simp add: mult.commute mult.left_commute)
  qed
qed

lemma rne_error: "0 < b \<Longrightarrow> 2 * \<bar>rne a b * b - a\<bar> \<le> b"
proof -
  assume b: "0 < b"
  define q r where "q = a div b" and "r = a mod b"
  have a: "a = q * b + r" "0 \<le> r" "r < b" using b by (simp_all add: q_def r_def)
  show ?thesis
  proof (cases "2 * r < b \<or> 2 * r = b \<and> even q")
    case True
    then have "rne a b = q" by (simp add: rne_def q_def r_def Let_def)
    then show ?thesis using a True by auto
  next
    case False
    then have "rne a b = q + 1" by (simp add: rne_def q_def r_def Let_def)
    then have "rne a b * b - a = b - r" using a(1) by (simp add: algebra_simps)
    then show ?thesis using a(3) False by auto
  qed
qed

lemma rne_exact: "0 < b \<Longrightarrow> rne (c * b) b = c"
  by (simp add: rne_def)

lemma fround_exact:
  assumes "0 < d"
  shows "f_val (fround p (c * d) d) = real_of_int c"
proof -
  define k where "k = kfind (\<bar>c\<bar> * d) (2 ^ (p - 1) * d)"
  have a: "\<bar>c * d\<bar> = \<bar>c\<bar> * d" using assms by (simp add: abs_mult)
  have e: "\<bar>c\<bar> * d * 2 ^ k = (\<bar>c\<bar> * 2 ^ k) * d" by (simp add: algebra_simps)
  have "rne (\<bar>c\<bar> * d * 2 ^ k) d = \<bar>c\<bar> * 2 ^ k" unfolding e by (rule rne_exact [OF assms])
  then have "fround p (c * d) d = (sgn (c * d) * (\<bar>c\<bar> * 2 ^ k), k)"
    by (simp add: fround_def Let_def a k_def)
  also have "sgn (c * d) * (\<bar>c\<bar> * 2 ^ k) = c * 2 ^ k"
    using assms by (simp add: sgn_mult mult.assoc [symmetric] sgn_mult_abs)
  finally show ?thesis by simp
qed

lemma fround_error:
  assumes "0 < d" "0 < p"
  shows "\<bar>f_val (fround p n d) - real_of_int n / d\<bar> \<le> \<bar>real_of_int n / d\<bar> / 2 ^ p"
proof (cases "n = 0")
  case True
  then show ?thesis by (simp add: fround_def Let_def)
next
  case False
  define a k where "a = \<bar>n\<bar>" and "k = kfind a (2 ^ (p - 1) * d)"
  define r where "r = rne (a * 2 ^ k) d"
  have a: "0 < a" using False by (simp add: a_def)
  have f: "f_val (fround p n d) = real_of_int (sgn n) * (real_of_int r / 2 ^ k)"
    unfolding fround_def Let_def a_def [symmetric] k_def [symmetric] r_def by simp
  have na: "n = sgn n * a" by (simp add: a_def sgn_mult_abs)
  have n: "real_of_int n / d = real_of_int (sgn n) * (real_of_int a / d)"
    by (subst na) simp
  have "2 * \<bar>r * d - a * 2 ^ k\<bar> \<le> d" unfolding r_def by (rule rne_error [OF assms(1)])
  then have "real_of_int (2 * \<bar>r * d - a * 2 ^ k\<bar>) \<le> real_of_int d" by (simp only: of_int_le_iff)
  then have e: "2 * \<bar>real_of_int r * d - real_of_int a * 2 ^ k\<bar> \<le> d" by simp
  have "2 ^ (p - 1) * d \<le> a * 2 ^ k" unfolding k_def by (rule kfind_reaches [OF a])
  then have "real_of_int (2 ^ (p - 1) * d) \<le> real_of_int (a * 2 ^ k)" by (simp only: of_int_le_iff)
  then have g: "2 ^ (p - 1) * real_of_int d \<le> real_of_int a * 2 ^ k" by simp
  have pp: "(2 :: real) ^ p = 2 * 2 ^ (p - 1)" using assms(2) by (cases p) simp_all
  have dk: "0 < real_of_int d * 2 ^ k" using assms(1) by simp
  have "\<bar>real_of_int r / 2 ^ k - real_of_int a / d\<bar> = \<bar>real_of_int r * d - real_of_int a * 2 ^ k\<bar> / (real_of_int d * 2 ^ k)"
  proof -
    have "real_of_int r / 2 ^ k - real_of_int a / d = (real_of_int r * d - real_of_int a * 2 ^ k) / (real_of_int d * 2 ^ k)"
      using assms(1) by (simp add: field_simps)
    then show ?thesis using dk by (simp add: abs_divide)
  qed
  also have "\<dots> \<le> (real_of_int d / 2) / (real_of_int d * 2 ^ k)"
    by (rule divide_right_mono) (use e dk in auto)
  also have "\<dots> = (1 / 2) / 2 ^ k" using assms(1) by simp
  also have "\<dots> \<le> (real_of_int a / d) / 2 ^ p"
    using g assms(1) unfolding pp by (simp add: field_simps)
  finally have "\<bar>real_of_int r / 2 ^ k - real_of_int a / d\<bar> \<le> (real_of_int a / d) / 2 ^ p" .
  moreover have "f_val (fround p n d) - real_of_int n / d = real_of_int (sgn n) * (real_of_int r / 2 ^ k - real_of_int a / d)"
    unfolding f n by (simp add: algebra_simps)
  moreover have "\<bar>real_of_int (sgn n)\<bar> = 1" using False by (simp add: sgn_if)
  moreover have "\<bar>real_of_int n / d\<bar> = real_of_int a / d" using assms(1) by (simp add: a_def abs_divide)
  ultimately show ?thesis by (simp add: abs_mult)
qed

text \<open>The conversion of a value that is not negative is the floor.\<close>

lemma f_trunc_floor: "0 \<le> f_val x \<Longrightarrow> f_trunc x = \<lfloor>f_val x\<rfloor>"
proof (cases x)
  case (Pair m k)
  assume "0 \<le> f_val x"
  then have "0 \<le> m" using Pair not_le [of "2 ^ k" "0 :: real"] by (auto simp: zero_le_divide_iff)
  then have "f_trunc x = m div 2 ^ k" using Pair by (simp add: cdiv_nonneg)
  also have "\<dots> = \<lfloor>real_of_int m / real_of_int (2 ^ k)\<rfloor>" by (rule floor_divide_of_int_eq [symmetric])
  finally show ?thesis using Pair by simp
qed

end
