(* ===== verification/Gear.thy ===== *)
theory Gear
  imports Ieee "HOL-Library.Monad_Syntax"
begin

text \<open>
  The gait control of the robot, \<^verbatim>\<open>applications/gear_con.c\<close> and \<^verbatim>\<open>applications/include/gear_con.h\<close>.
  Eight servos are driven by pulse-width signals; a motion program is a table with one row per
  step: the first row is a pose in degrees, every other row the change of each angle, and the
  ninth column is the time of the step in milliseconds. \<^verbatim>\<open>cmdcon\<close> plays a program.

  What a run does to the world is a list of events: a pulse set on a channel of a device, a
  channel enabled, the thread asleep. The floating-point expressions are computed as the code
  computes them, with the rounding of \<^verbatim>\<open>float\<close> and \<^verbatim>\<open>double\<close>. Reading a local before it is
  assigned or a table outside its rows is \<open>None\<close>. Only \<^verbatim>\<open>force_analysis\<close> uses trigonometric
  functions; its last step is stated over the real numbers.
\<close>

section \<open>The motion programs\<close>

definition GearProg00 :: "int list list" where
  "GearProg00 =
    [[130, 115, 45, 50, 50, 50, 115, 130, 100]]"

definition GearProg01 :: "int list list" where
  "GearProg01 =
    [[130, 115, 45, 50, 50, 50, 115, 130, 100],
     [0, 0, 0, 0, 0, 0, - 45, 20, 100],
     [0, 0, 0, 0, 0, 0, 0, - 20, 100],
     [0, 0, 0, 0, - 20, - 45, 0, 0, 100],
     [0, - 45, 0, - 20, 0, 0, 45, 0, 100],
     [0, 0, 0, 20, 20, 0, 0, 0, 100],
     [20, 0, - 45, 0, 0, 45, 0, 20, 100],
     [- 20, 0, 0, 0, 0, 0, 0, - 20, 100],
     [0, 0, 45, - 20, 0, 0, 0, 0, 100],
     [- 20, 45, 0, 20, 0, 0, 0, 0, 100],
     [20, 0, 0, 0, 0, 0, 0, 0, 100],
     [0, 0, 45, - 20, 0, 0, 0, 0, 100],
     [0, 0, 0, 20, 0, 0, 0, 0, 100],
     [20, 45, 0, 0, 0, 0, 0, 0, 100],
     [0, 0, - 45, 0, 0, 45, 0, 20, 100],
     [- 20, 0, 0, 0, 0, 0, 0, - 20, 100],
     [0, - 45, 0, - 20, - 20, 0, 45, 20, 100],
     [0, 0, 0, 20, 20, 0, 0, 0, 100],
     [0, 0, 0, 0, - 20, - 45, 0, 0, 100],
     [0, 0, 0, 0, 20, 0, - 45, 20, 100],
     [0, 0, 0, 0, 0, 0, 0, - 20, 100]]"

definition GearProg02 :: "int list list" where
  "GearProg02 =
    [[130, 115, 45, 50, 50, 50, 115, 130, 100],
     [20, 0, 0, 0, 0, 0, - 45, 20, 100],
     [- 20, 0, 0, 0, 0, 0, 0, - 20, 100],
     [0, 0, 0, - 20, - 20, 0, 0, 0, 100],
     [0, - 45, 45, 0, 0, 0, 45, 0, 100],
     [0, 0, 0, 20, 20, 0, 0, 0, 100],
     [20, 45, 0, 0, 0, 0, 0, 20, 100],
     [0, 0, - 45, 0, 0, 45, 0, 0, 100],
     [- 20, 0, 0, 0, 0, 0, 0, - 20, 100],
     [0, 0, 0, 0, - 20, 0, 0, 0, 100],
     [0, 0, 0, 0, 20, - 45, 0, 0, 100]]"

definition GearProg03 :: "int list list" where
  "GearProg03 =
    [[130, 115, 45, 50, 50, 50, 115, 130, 100],
     [20, 45, 0, 0, 0, 0, 0, 20, 100],
     [- 20, 0, 0, 0, 0, 0, 0, - 20, 100],
     [0, 0, 0, - 20, - 20, 0, 0, 0, 100],
     [0, - 45, 0, 0, 0, - 45, 45, 0, 100],
     [0, 0, 0, 20, 20, 0, 0, 0, 100],
     [20, 0, 0, 0, 0, 0, - 45, 20, 100],
     [0, 0, - 45, 0, 0, 45, 0, 0, 100],
     [- 20, 0, 0, 0, 0, 0, 0, - 20, 100],
     [0, 0, 0, - 20, 0, 0, 0, 0, 100],
     [0, 0, 45, 20, 0, 0, 0, 0, 100]]"

definition GearProg04 :: "int list list" where
  "GearProg04 =
    [[130, 115, 45, 50, 50, 50, 115, 130, 100],
     [0, 0, - 22, - 10, - 10, 0, 0, 0, 100],
     [0, 0, 0, 10, 10, 0, 0, 0, 100],
     [10, 0, 0, 0, 0, 0, 0, 10, 100],
     [0, 22, 22, 0, 0, - 22, 0, 0, 100],
     [- 10, 0, 0, 0, 0, 0, 0, - 10, 100],
     [0, 0, 0, - 10, - 10, 22, 0, 0, 100],
     [0, - 22, 0, 0, 0, 0, 22, 0, 100],
     [0, 0, 0, 10, 10, 0, 0, 0, 100],
     [0, 0, 0, 0, 0, 0, 0, 10, 100],
     [0, 0, 0, 0, 0, 0, - 22, - 10, 100]]"

definition GearProg05 :: "int list list" where
  "GearProg05 =
    [[130, 115, 45, 50, 50, 50, 115, 130, 100],
     [0, 0, 0, - 10, - 10, - 22, 0, 0, 100],
     [0, 0, 0, 10, 10, 0, 0, 0, 100],
     [10, 0, 0, 0, 0, 0, 0, 10, 100],
     [0, 0, - 22, 0, 0, 22, 22, 0, 100],
     [- 10, 0, 0, 0, 0, 0, 0, - 10, 100],
     [0, 0, 22, - 10, - 10, 0, 0, 0, 100],
     [0, 22, 0, 0, 0, 0, - 22, 0, 100],
     [0, 0, 0, 10, 10, 0, 0, 0, 100],
     [10, 0, 0, 0, 0, 0, 0, 0, 100],
     [- 10, - 22, 0, 0, 0, 0, 0, 0, 100]]"

definition GearProg06 :: "int list list" where
  "GearProg06 =
    [[130, 115, 45, 50, 50, 50, 115, 130, 100],
     [10, 0, 0, 0, 0, 0, 0, 20, 100],
     [0, 45, 0, 0, 0, 0, 45, 0, 100],
     [- 20, 0, 0, 0, 0, 0, 0, - 20, 100],
     [0, 0, 0, - 20, - 20, 0, 0, 0, 100],
     [0, 0, 45, 0, 0, 45, 0, 0, 100],
     [0, 0, 0, 20, 20, 0, 0, 0, 100],
     [0, - 45, - 45, 0, 0, - 45, - 45, 0, 100]]"

definition GearProg07 :: "int list list" where
  "GearProg07 =
    [[130, 115, 45, 50, 50, 50, 115, 130, 100],
     [0, 0, 0, - 20, - 20, 0, 0, 0, 100],
     [0, 0, - 45, 0, 0, - 45, 0, 0, 100],
     [0, 0, 0, 20, 20, 0, 0, 0, 100],
     [20, 0, 0, 0, 0, 0, 0, 20, 100],
     [0, - 45, 0, 0, 0, 0, - 45, 0, 100],
     [- 20, 0, 0, 0, 0, 0, 0, - 20, 100],
     [0, 45, 45, 0, 0, 45, 45, 0, 100]]"

definition GearProg08 :: "int list list" where
  "GearProg08 =
    [[170, 80, 80, 10, 10, 100, 80, 170, 500]]"

definition GearProg09 :: "int list list" where
  "GearProg09 =
    [[180, 115, 45, 50, 0, 50, 115, 130, 100],
     [- 50, 0, 0, 0, 50, 0, 0, 0, 200],
     [50, 0, 0, 0, - 50, 0, 0, 0, 200],
     [- 50, 0, 0, 0, 50, 0, 0, 0, 200]]"

definition GearProg10 :: "int list list" where
  "GearProg10 =
    [[130, 100, 60, 50, 65, 75, 100, 115, 200],
     [0, - 20, - 20, 0, 0, - 20, - 20, 0, 200],
     [0, 40, 40, 0, 0, 40, 40, 0, 200],
     [0, - 40, - 40, 0, 0, - 40, - 40, 0, 200],
     [0, 40, 40, 0, 0, 40, 40, 0, 200],
     [- 50, - 20, - 20, - 40, 50, - 20, - 20, 40, 200],
     [0, - 20, - 20, 0, 0, - 20, - 20, 0, 200],
     [0, 40, 40, 0, 0, 40, 40, 0, 200],
     [0, - 40, - 40, 0, 0, - 40, - 40, 0, 200],
     [0, 40, 40, 0, 0, 40, 40, 0, 200],
     [0, - 20, - 20, 0, 0, - 20, - 20, 0, 200]]"

definition GearProg11 :: "int list list" where
  "GearProg11 =
    [[130, 115, 45, 50, 50, 50, 115, 130, 100],
     [30, 0, 0, - 30, - 30, 0, 0, 30, 400],
     [- 30, 0, 0, 30, 30, 0, 0, - 30, 500],
     [30, 0, 0, - 30, - 30, 0, 0, 30, 600],
     [- 30, 0, 0, 30, 30, 0, 0, - 30, 700],
     [30, 0, 0, - 30, - 30, 0, 0, 30, 1300],
     [- 30, 0, 0, 30, 30, 0, 0, - 30, 1800],
     [65, 0, 0, - 65, - 65, 0, 0, 65, 200],
     [- 65, 0, 0, 0, 15, 0, 0, 0, 500],
     [0, 0, 0, 0, 50, 0, 0, 0, 500],
     [0, 0, 0, 65, 0, 0, 0, - 65, 500]]"

definition GearProg12 :: "int list list" where
  "GearProg12 =
    [[35, 90, 90, 145, 145, 90, 90, 35, 400],
     [0, - 45, 45, 0, 0, 45, - 45, 0, 400]]"

definition GearProg13 :: "int list list" where
  "GearProg13 =
    [[90, 80, 80, 90, 90, 100, 80, 90, 300],
     [- 40, 0, 0, 0, 0, 0, 0, 0, 300],
     [40, 0, 0, 40, 0, 0, 0, 0, 300],
     [0, 0, 0, - 40, 0, 0, 0, - 40, 300],
     [0, 0, 0, 0, 40, 0, 0, 40, 300],
     [- 40, 0, 0, 0, - 40, 0, 0, 0, 300],
     [40, 0, 0, 40, 0, 0, 0, 0, 300],
     [0, 0, 0, - 40, 0, 0, 0, - 40, 300],
     [0, 0, 0, 0, 40, 0, 0, 40, 300],
     [0, 0, 0, 0, - 40, 0, 0, 0, 300]]"

definition GearProg14 :: "int list list" where
  "GearProg14 =
    [[115, 80, 80, 65, 65, 100, 80, 115, 100],
     [45, 0, 0, - 45, 0, 0, 0, 0, 300],
     [- 45, 0, 0, 45, - 45, 0, 0, 45, 300],
     [45, 0, 0, - 45, 45, 0, 0, - 45, 300],
     [- 45, 0, 0, 45, - 45, 0, 0, 45, 300],
     [45, 0, 0, - 45, 45, 0, 0, - 45, 300],
     [- 45, 0, 0, 45, - 45, 0, 0, 45, 300],
     [45, 0, 0, - 45, 45, 0, 0, - 45, 300],
     [- 40, 0, 0, 40, 0, 0, 0, 0, 300]]"

definition GearProg15 :: "int list list" where
  "GearProg15 =
    [[70, 45, 45, 110, 110, 135, 135, 70, 300],
     [40, 0, 0, - 50, - 40, 0, 0, 0, 300],
     [- 40, 0, 0, 50, 40, 0, 0, 0, 300],
     [40, 0, 0, 0, - 40, 0, 0, 50, 300],
     [- 40, 0, 0, 0, 40, 0, 0, - 50, 300],
     [40, 0, 0, - 50, - 40, 0, 0, 0, 300],
     [- 40, 0, 0, 50, 40, 0, 0, 0, 300],
     [40, 0, 0, 0, - 40, 0, 0, 50, 300],
     [- 40, 0, 0, 0, 40, 0, 0, - 50, 300],
     [0, 45, 45, 0, 0, - 45, - 45, 0, 300]]"

text \<open>The outputs of the servos, device name and channel.\<close>

definition PWM_DEVICE :: "(string \<times> nat) list" where
  "PWM_DEVICE =
    [(''pwm0'', 1), (''pwm1'', 2), (''pwm1'', 3), (''pwm2'', 1), (''pwm3'', 3), (''pwm3'', 4), (''pwm4'', 2),
     (''pwm4'', 3), (''pwm4'', 4)]"

section \<open>Angles and pulses\<close>

text \<open>The interpolation is in single precision, the pulse in double precision.\<close>

definition map_util :: "int \<Rightarrow> int \<Rightarrow> int \<Rightarrow> int \<Rightarrow> int \<Rightarrow> int" where
  "map_util val from_low from_high to_low to_high =
     (let temp = f_div 24 (f_of_int val) (f_of_int (from_high - from_low))
      in f_trunc (f_add 24 (f_of_int to_low) (f_mul 24 temp (f_of_int (to_high - to_low)))))"

definition pulse_of :: "int \<Rightarrow> int" where
  "pulse_of temp =
     f_trunc (f_add 53 (f_of_int 500000) (f_mul 53 (f_div 53 (f_of_int temp) (f_of_int 180)) (f_of_int 2000000)))"

section \<open>Playing a program\<close>

datatype gear_event =
    Pwm string nat nat nat
  | PwmEnable string nat
  | Mdelay int

record gear =
  pwm_device :: "nat \<Rightarrow> string option"
  servoPos :: "nat \<Rightarrow> int"
  gear_angle :: "nat \<Rightarrow> int option"
  trace :: "gear_event list"

definition emit :: "gear_event \<Rightarrow> gear \<Rightarrow> gear" where
  "emit e g = g\<lparr>trace := trace g @ [e]\<rparr>"

text \<open>Setting the pulse of servo \<open>k\<close>; without a device the call returns \<^verbatim>\<open>-RT_EIO\<close>, which nobody looks at.\<close>

definition pwm_set :: "nat \<Rightarrow> nat \<Rightarrow> int \<Rightarrow> gear \<Rightarrow> gear" where
  "pwm_set k period pulse g =
     (case pwm_device g k of None \<Rightarrow> g | Some name \<Rightarrow> emit (Pwm name (snd (PWM_DEVICE ! k)) period (u32 pulse)) g)"

fun run_for :: "('b \<Rightarrow> 's \<Rightarrow> 's option) \<Rightarrow> 'b list \<Rightarrow> 's \<Rightarrow> 's option" where
  "run_for body [] s = Some s"
| "run_for body (x # xs) s = do { s1 \<leftarrow> body x s; run_for body xs s1 }"

definition entry :: "int list list \<Rightarrow> nat \<Rightarrow> nat \<Rightarrow> int option" where
  "entry prog i j = (if i < length prog \<and> j < length (prog ! i) then Some (prog ! i ! j) else None)"

definition start_pos :: "int list list \<Rightarrow> nat \<Rightarrow> nat \<Rightarrow> gear \<Rightarrow> gear option" where
  "start_pos prog i s g =
     do {
       v \<leftarrow> (if i = 0 then entry prog 0 (s - 1) else gear_angle g s);
       Some (g\<lparr>servoPos := (servoPos g)(s := v)\<rparr>)
     }"

definition next_angle :: "int list list \<Rightarrow> nat \<Rightarrow> nat \<Rightarrow> gear \<Rightarrow> gear option" where
  "next_angle prog i p g =
     do {
       d \<leftarrow> entry prog i (p - 1);
       v \<leftarrow> (if i = 0 then Some d else map_option (\<lambda>a. a + d) (gear_angle g p));
       Some (g\<lparr>gear_angle := (gear_angle g)(p \<mapsto> v)\<rparr>)
     }"

definition drive_servo :: "nat \<Rightarrow> nat \<Rightarrow> gear \<Rightarrow> gear option" where
  "drive_servo j k g =
     do {
       to \<leftarrow> gear_angle g k;
       let temp = map_util (int j) 0 5 (servoPos g k) to;
       Some (pwm_set k 20000000 (pulse_of temp) g)
     }"

definition time_section :: "int list list \<Rightarrow> nat \<Rightarrow> nat \<Rightarrow> gear \<Rightarrow> gear option" where
  "time_section prog i j g =
     do {
       g1 \<leftarrow> run_for (drive_servo j) [1..<9] g;
       ms \<leftarrow> entry prog i 8;
       Some (emit (Mdelay (cdiv ms 5)) g1)
     }"

definition gear_step :: "int list list \<Rightarrow> nat \<Rightarrow> gear \<Rightarrow> gear option" where
  "gear_step prog i g =
     do {
       g1 \<leftarrow> run_for (start_pos prog i) [1..<9] g;
       g2 \<leftarrow> run_for (next_angle prog i) [1..<9] g1;
       run_for (time_section prog i) [0..<5] g2
     }"

definition cmdcon :: "int list list \<Rightarrow> nat \<Rightarrow> gear \<Rightarrow> gear option" where
  "cmdcon prog step g = run_for (gear_step prog) [0..<step] (g\<lparr>gear_angle := \<lambda>_. None\<rparr>)"

text \<open>One round of the thread \<^verbatim>\<open>gear_control\<close>: the programs it plays with the pause after each, and
  several rounds of its endless loop.\<close>

definition gear_round :: "((int list list \<times> nat) \<times> int) list" where
  "gear_round =
    [((GearProg02, 11), 2000), ((GearProg04, 11), 2000), ((GearProg05, 11), 2000), ((GearProg06, 8), 2000),
     ((GearProg07, 8), 2000), ((GearProg09, 4), 2000), ((GearProg10, 11), 2000), ((GearProg13, 10), 20000)]"

definition play :: "(int list list \<times> nat) \<times> int \<Rightarrow> gear \<Rightarrow> gear option" where
  "play x g =
     (case x of ((prog, step), ms) \<Rightarrow> do { g1 \<leftarrow> cmdcon prog step g; Some (emit (Mdelay ms) g1) })"

fun gear_control :: "nat \<Rightarrow> gear \<Rightarrow> gear option" where
  "gear_control 0 g = Some g"
| "gear_control (Suc n) g = do { g1 \<leftarrow> run_for play gear_round g; gear_control n g1 }"

section \<open>Start-up and the test command\<close>

definition rt_device_find :: "string list \<Rightarrow> string \<Rightarrow> string option" where
  "rt_device_find registry name = (if name \<in> set registry then Some name else None)"

text \<open>The first loop of \<^verbatim>\<open>prepare_statu\<close>; \<open>False\<close> when a device is missing.\<close>

fun open_servos :: "string list \<Rightarrow> nat list \<Rightarrow> gear \<Rightarrow> gear \<times> bool" where
  "open_servos registry [] g = (g, True)"
| "open_servos registry (i # is) g =
     (let g1 = g\<lparr>pwm_device := (pwm_device g)(i := rt_device_find registry (fst (PWM_DEVICE ! i)))\<rparr>
      in case pwm_device g1 i of
           None \<Rightarrow> (g1, False)
         | Some name \<Rightarrow> open_servos registry is
             (emit (PwmEnable name (snd (PWM_DEVICE ! i))) (pwm_set i 20000000 1500000 g1)))"

definition stand_by :: "nat \<Rightarrow> gear \<Rightarrow> gear option" where
  "stand_by i g =
     do {
       a \<leftarrow> entry GearProg00 0 (i - 1);
       Some (pwm_set i 20000000 (pulse_of a) g)
     }"

text \<open>The result is \<open>None\<close> where the function ends without a \<^verbatim>\<open>return\<close>.\<close>

definition prepare_statu :: "string list \<Rightarrow> gear \<Rightarrow> (gear \<times> rt_err option) option" where
  "prepare_statu registry g =
     (case open_servos registry [1..<9] g of
        (g1, False) \<Rightarrow> Some (g1, Some RT_ERROR)
      | (g1, True) \<Rightarrow> do { g2 \<leftarrow> run_for stand_by [1..<9] g1; Some (g2, None) })"

text \<open>One turn of the loop of \<^verbatim>\<open>pwm_sample\<close> on its variables \<^verbatim>\<open>pulse\<close> and \<^verbatim>\<open>dir\<close>.\<close>

definition sample_step :: "nat \<times> nat \<Rightarrow> nat \<times> nat" where
  "sample_step s =
     (case s of (pulse, dir) \<Rightarrow>
        let pulse1 = (if dir \<noteq> 0 then u32 (int pulse + 500000) else u32 (int pulse - 500000));
            dir1 = (if pulse1 \<ge> 2500000 then 0 else dir);
            dir2 = (if 500000 = pulse1 then 1 else dir1)
        in (pulse1, dir2))"

definition pwm_sample :: "nat \<Rightarrow> nat \<times> nat" where
  "pwm_sample n = (sample_step ^^ n) (500000, 1)"

section \<open>The forces\<close>

record point =
  p_x :: int
  p_y :: int
  p_force :: int
  p_des :: int
  p_length :: int
  p_dir :: int
  p_temp :: int

text \<open>Conversion to \<^verbatim>\<open>rt_int16_t\<close>.\<close>

definition s16 :: "int \<Rightarrow> int" where
  "s16 x = (x + 32768) mod 65536 - 32768"

definition distance_of :: "bool \<Rightarrow> int \<Rightarrow> int" where
  "distance_of is_target len =
     (if len \<le> 20 then (if is_target then 80 else 0)
      else if len \<le> 90 \<and> 20 \<le> len then (90 - len) + 40
      else if 90 < len \<and> len \<le> 120 then 40 - cdiv (len - 90) 3
      else 20)"

text \<open>The repelling force of an obstacle in double precision; \<^verbatim>\<open>pow(x, 1)\<close> is \<open>x\<close>.\<close>

definition repulsion :: "int \<Rightarrow> int" where
  "repulsion des =
     (if 60 < des \<or> des = 0 then 0
      else
        (let c01 = f_div 53 (f_of_int 1) (f_of_int 100);
             c06 = f_div 53 (f_of_int 6) (f_of_int 10);
             inv = f_div 53 (f_of_int 1) (f_mul 53 (f_of_int des) c01)
         in f_trunc (f_mul 53 (f_mul 53 (f_sub 53 inv (f_div 53 (f_of_int 1) c06)) inv) (f_of_int 20))))"

definition point_of :: "bool \<Rightarrow> int \<times> int \<times> int \<times> int \<Rightarrow> point" where
  "point_of is_target box =
     (case box of (x0, x1, y0, y1) \<Rightarrow>
        let x = s16 (cdiv (x1 + x0) 2); y = s16 (cdiv (y1 + y0) 2); len = s16 (x1 - x0);
            des = s16 (distance_of is_target len)
        in \<lparr>p_x = x, p_y = y, p_force = (if is_target then 1 * des else repulsion des), p_des = des, p_length = len,
             p_dir = (if 160 < x then - 1 else 1), p_temp = (if 160 < x then x - 160 else x)\<rparr>)"

text \<open>The last step over the real numbers: the direction of a point, with the constant \<^verbatim>\<open>3.1416\<close> that
  turns it to degrees and back, and the two components of the force.\<close>

definition bearing :: "point \<Rightarrow> real" where
  "bearing p =
     (if p_temp p = 0 then 0
      else (if p_y p = 0 then pi / 2 else arctan (real_of_int (p_temp p) / real_of_int (p_y p))) * 180 / 3.1416)"

definition force_analysis :: "int \<times> int \<times> int \<times> int \<Rightarrow> int \<times> int \<times> int \<times> int \<Rightarrow> real \<times> real" where
  "force_analysis target obstacle =
     (let p = point_of True target; q = point_of False obstacle
      in (real_of_int (p_force p) * cos (bearing p * 3.1416 / 180) + real_of_int (p_force q) * cos (bearing q * 3.1416 / 180),
          real_of_int (p_force p) * sin (bearing p * 3.1416 / 180) * real_of_int (p_dir p) +
          real_of_int (p_force q) * sin (bearing q * 3.1416 / 180) * real_of_int (p_dir q) * - 1))"

section \<open>The floating-point expressions in whole numbers\<close>

lemma f_div_error:
  assumes "0 < b" "0 < p"
  shows "\<bar>f_val (f_div p (f_of_int a) (f_of_int b)) - real_of_int a / b\<bar> \<le> \<bar>real_of_int a / b\<bar> / 2 ^ p"
  using fround_error [OF assms, of a] assms(1) by (simp add: f_of_int_def)

lemma f_mul_error:
  assumes "0 < p"
  shows "\<bar>f_val (f_mul p x y) - f_val x * f_val y\<bar> \<le> \<bar>f_val x * f_val y\<bar> / 2 ^ p"
proof (cases x, cases y)
  fix m k n l assume xy: "x = (m, k)" "y = (n, l)"
  have e: "real_of_int (m * n) / real_of_int (2 ^ (k + l)) = f_val x * f_val y"
    by (simp add: xy power_add)
  have "f_mul p x y = fround p (m * n) (2 ^ (k + l))" by (simp add: xy)
  then show ?thesis using fround_error [of "2 ^ (k + l)" p "m * n"] assms unfolding e by simp
qed

lemma f_add_error:
  assumes "0 < p"
  shows "\<bar>f_val (f_add p x y) - (f_val x + f_val y)\<bar> \<le> \<bar>f_val x + f_val y\<bar> / 2 ^ p"
proof (cases x, cases y)
  fix m k n l assume xy: "x = (m, k)" "y = (n, l)"
  have e: "real_of_int (m * 2 ^ l + n * 2 ^ k) / real_of_int (2 ^ (k + l)) = f_val x + f_val y"
    by (simp add: xy power_add field_simps)
  have "f_add p x y = fround p (m * 2 ^ l + n * 2 ^ k) (2 ^ (k + l))" by (simp add: xy)
  then show ?thesis using fround_error [of "2 ^ (k + l)" p "m * 2 ^ l + n * 2 ^ k"] assms unfolding e by simp
qed

lemma f_val_of_int [simp]: "f_val (f_of_int n) = real_of_int n"
  by (simp add: f_of_int_def)

text \<open>A sum that is a whole number is exact.\<close>

lemma f_add_whole:
  assumes "f_val x + f_val y = real_of_int c"
  shows "f_val (f_add p x y) = real_of_int c"
proof (cases x, cases y)
  fix m k n l assume xy: "x = (m, k)" "y = (n, l)"
  have "real_of_int (m * 2 ^ l + n * 2 ^ k) = (f_val x + f_val y) * 2 ^ (k + l)"
    by (simp add: xy power_add field_simps)
  also have "\<dots> = real_of_int (c * 2 ^ (k + l))" using assms by simp
  finally have "m * 2 ^ l + n * 2 ^ k = c * 2 ^ (k + l)" by (simp only: of_int_eq_iff)
  then show ?thesis using fround_exact [of "2 ^ (k + l)" p c] by (simp add: xy)
qed

text \<open>A small negative number is cut to zero.\<close>

lemma f_trunc_small: "- 1 < f_val x \<Longrightarrow> f_val x < 0 \<Longrightarrow> f_trunc x = 0"
proof (cases x)
  case (Pair m k)
  assume a: "- 1 < f_val x" "f_val x < 0"
  have "(0 :: real) < 2 ^ k" by simp
  then have "real_of_int m < 0" "- (2 ^ k) < real_of_int m" using a Pair by (simp_all add: field_simps)
  then have "m < 0" "- (2 ^ k) < m" by (simp_all, metis of_int_less_iff of_int_minus of_int_numeral of_int_power)
  then show ?thesis using Pair by (simp add: cdiv_def div_pos_pos_trivial)
qed

text \<open>A value close to a fraction that is not a whole number has its floor.\<close>

lemma floor_near:
  assumes "0 < d" "n mod d \<noteq> 0" "\<bar>y - real_of_int n / real_of_int d\<bar> < 1 / real_of_int d"
  shows "\<lfloor>y\<rfloor> = n div d"
proof -
  define q r where "q = n div d" and "r = n mod d"
  have n: "n = q * d + r" "0 < r" "r < d"
    using assms(1,2) pos_mod_sign [of d n] by (auto simp: q_def r_def simp del: pos_mod_sign)
  have e: "real_of_int n / d = real_of_int q + real_of_int r / d" using assms(1) n(1) by (simp add: field_simps)
  have "real_of_int r / d \<ge> 1 / d" "real_of_int r / d \<le> 1 - 1 / d"
    using n(2,3) assms(1) by (simp_all add: field_simps)
  then have "real_of_int q \<le> y" "y < real_of_int q + 1" using assms(3) e by linarith+
  then show ?thesis unfolding q_def by linarith
qed

text \<open>The pulse of an angle.\<close>

definition pulse_whole :: "int \<Rightarrow> bool" where
  "pulse_whole c \<longleftrightarrow> f_mul 53 (f_div 53 (f_of_int (9 * c)) (f_of_int 180)) (f_of_int 2000000) =
     (let (m, k) = f_mul 53 (f_div 53 (f_of_int (9 * c)) (f_of_int 180)) (f_of_int 2000000) in (c * 100000 * 2 ^ k, k))"

lemma pulse_whole_all: "list_all pulse_whole [0..20]"
  by code_simp

lemma pulse_of_eq:
  assumes "0 \<le> t" "t \<le> 180"
  shows "pulse_of t = 500000 + t * 100000 div 9"
proof -
  define q where "q = f_mul 53 (f_div 53 (f_of_int t) (f_of_int 180)) (f_of_int 2000000)"
  define y where "y = f_val (f_add 53 (f_of_int 500000) q)"
  have P: "(2 :: real) ^ 53 = 9007199254740992" by simp
  have t: "0 \<le> real_of_int t" "real_of_int t \<le> 180" using assms by simp_all
  define u where "u = f_val (f_div 53 (f_of_int t) (f_of_int 180))"
  have u: "\<bar>u - real_of_int t / 180\<bar> \<le> real_of_int t / 180 / 2 ^ 53"
    using f_div_error [of 180 53 t] t unfolding u_def by simp
  have q: "\<bar>f_val q - u * 2000000\<bar> \<le> \<bar>u * 2000000\<bar> / 2 ^ 53"
    using f_mul_error [of 53 "f_div 53 (f_of_int t) (f_of_int 180)" "f_of_int 2000000"] unfolding q_def u_def by simp
  have ub: "0 \<le> u" "u \<le> 2" "\<bar>u - real_of_int t / 180\<bar> \<le> 1 / 9007199254740992"
    using u t unfolding P by linarith+
  have q1: "\<bar>f_val q - u * 2000000\<bar> \<le> 4000000 / 9007199254740992" using q ub unfolding P by linarith
  have y: "\<bar>y - (500000 + f_val q)\<bar> \<le> \<bar>500000 + f_val q\<bar> / 2 ^ 53"
    using f_add_error [of 53 "f_of_int 500000" q] unfolding y_def by simp
  have "\<bar>500000 + f_val q\<bar> \<le> 5000000" using q1 ub(1,2) by linarith
  then have "\<bar>500000 + f_val q\<bar> / 2 ^ 53 \<le> 5000000 / 9007199254740992" unfolding P by (rule divide_right_mono) simp
  then have y1: "\<bar>y - (500000 + f_val q)\<bar> \<le> 5000000 / 9007199254740992" using y by (rule order.trans [rotated])
  have near: "\<bar>y - (500000 + real_of_int t * 100000 / 9)\<bar> < 1 / 1000000" using y1 q1 ub t by linarith
  then have y0: "0 \<le> y" using t by linarith
  have tr: "pulse_of t = \<lfloor>y\<rfloor>" unfolding pulse_of_def q_def [symmetric] y_def by (rule f_trunc_floor) (use y0 in \<open>simp add: y_def\<close>)
  show ?thesis
  proof (cases "9 dvd t")
    case True
    then obtain c where c: "t = 9 * c" by auto
    then have "c \<in> set [0..20]" using assms by auto
    then have "pulse_whole c" using pulse_whole_all by (simp only: list_all_iff)
    then have "f_val q = real_of_int (c * 100000)"
      unfolding pulse_whole_def c [symmetric] q_def [symmetric] by (cases q) simp
    then have "y = real_of_int (500000 + c * 100000)" unfolding y_def by (intro f_add_whole) simp
    then have "\<lfloor>y\<rfloor> = 500000 + c * 100000" by (simp only: floor_of_int)
    then show ?thesis using tr c by simp
  next
    case False
    have "500000 * 9 + t * 100000 = t + 9 * (500000 + 11111 * t)" by simp
    then have "(500000 * 9 + t * 100000) mod 9 = t mod 9" by (simp only: mod_mult_self2)
    then have m: "(500000 * 9 + t * 100000) mod 9 \<noteq> 0" using False by (simp add: dvd_eq_mod_eq_0)
    have e: "real_of_int (500000 * 9 + t * 100000) / real_of_int 9 = 500000 + real_of_int t * 100000 / 9" by simp
    have "\<bar>y - real_of_int (500000 * 9 + t * 100000) / real_of_int 9\<bar> < 1 / real_of_int 9"
      unfolding e by (rule less_trans [OF near]) simp
    then have "\<lfloor>y\<rfloor> = (500000 * 9 + t * 100000) div 9" by (intro floor_near [OF _ m]) simp_all
    then show ?thesis using tr by simp
  qed
qed

lemma pulse_of_bounds: "0 \<le> t \<Longrightarrow> t \<le> 180 \<Longrightarrow> 500000 \<le> pulse_of t \<and> pulse_of t \<le> 2500000"
  unfolding pulse_of_eq by (auto simp: div_le_dividend) 

lemma pulse_of_mono: "0 \<le> s \<Longrightarrow> s < t \<Longrightarrow> t \<le> 180 \<Longrightarrow> pulse_of s < pulse_of t"
proof -
  assume a: "0 \<le> s" "s < t" "t \<le> 180"
  then have "s * 100000 + 9 \<le> t * 100000" by simp
  then have "(s * 100000 + 9) div 9 \<le> t * 100000 div 9" by (rule zdiv_mono1) simp
  then show ?thesis using a by (simp add: pulse_of_eq)
qed

text \<open>The interpolated angle. Sections 0, 1, 2 and 4 of a step are exact; the third uses the constant
  \<open>0.6\<close>, which is rounded up, so a move downwards by a multiple of five may end one degree too low.\<close>

definition scale :: "int \<Rightarrow> int \<Rightarrow> flt" where
  "scale v d = f_mul 24 (f_div 24 (f_of_int v) (f_of_int 5)) (f_of_int d)"

definition scale_whole :: "int \<Rightarrow> int \<Rightarrow> bool" where
  "scale_whole v c \<longleftrightarrow> (let (m, k) = scale v (5 * c) in m = v * c * 2 ^ k)"

lemma scale_whole_all:
  "list_all (scale_whole 1) [-36..36]"
  "list_all (scale_whole 2) [-36..36]" "list_all (scale_whole 4) [-36..36]"
  by code_simp+

lemma scale_near:
  assumes "0 \<le> v" "v \<le> 4" "- 180 \<le> d" "d \<le> 180"
  shows "\<bar>f_val (scale v d) - real_of_int (v * d) / 5\<bar> \<le> 1 / 40000"
proof -
  have P: "(2 :: real) ^ 24 = 16777216" by simp
  define u where "u = f_val (f_div 24 (f_of_int v) (f_of_int 5))"
  have v: "0 \<le> real_of_int v" "real_of_int v \<le> 4" using assms by simp_all
  have "\<bar>u - real_of_int v / 5\<bar> \<le> real_of_int v / 5 / 2 ^ 24"
    using f_div_error [of 5 24 v] v unfolding u_def by simp
  then have ub: "\<bar>u\<bar> \<le> 1" "\<bar>u - real_of_int v / 5\<bar> \<le> 1 / 16777216" using v unfolding P by linarith+
  have d: "\<bar>real_of_int d\<bar> \<le> 180" using assms by linarith
  have s: "\<bar>f_val (scale v d) - u * real_of_int d\<bar> \<le> \<bar>u * real_of_int d\<bar> / 2 ^ 24"
    using f_mul_error [of 24 "f_div 24 (f_of_int v) (f_of_int 5)" "f_of_int d"] unfolding scale_def u_def by simp
  have "\<bar>u * real_of_int d\<bar> \<le> 1 * 180" unfolding abs_mult by (rule mult_mono) (use ub d in auto)
  then have "\<bar>u * real_of_int d\<bar> / 2 ^ 24 \<le> 180 / 16777216" unfolding P by (simp add: divide_right_mono)
  moreover have "\<bar>(u - real_of_int v / 5) * real_of_int d\<bar> \<le> 1 / 16777216 * 180"
    unfolding abs_mult by (rule mult_mono) (use ub d in auto)
  then have "\<bar>u * real_of_int d - real_of_int v / 5 * real_of_int d\<bar> \<le> 180 / 16777216" by (simp add: left_diff_distrib)
  ultimately have "\<bar>f_val (scale v d) - real_of_int v / 5 * real_of_int d\<bar> \<le> 360 / 16777216" using s by linarith
  then show ?thesis by simp
qed

lemma map_util_near:
  assumes "0 \<le> v" "v \<le> 4" "0 \<le> lo" "lo \<le> 180" "0 \<le> hi" "hi \<le> 180"
  obtains y where "map_util v 0 5 lo hi = f_trunc y" "\<bar>f_val y - real_of_int (5 * lo + v * (hi - lo)) / 5\<bar> \<le> 1 / 1000"
    "v = 0 \<or> v \<noteq> 3 \<and> 5 dvd (hi - lo) \<Longrightarrow> f_val y = real_of_int (5 * lo + v * (hi - lo)) / 5"
proof -
  define s where "s = scale v (hi - lo)"
  define y where "y = f_add 24 (f_of_int lo) s"
  have P: "(2 :: real) ^ 24 = 16777216" by simp
  have e: "real_of_int (5 * lo + v * (hi - lo)) / 5 = real_of_int lo + real_of_int (v * (hi - lo)) / 5" by simp
  have m: "map_util v 0 5 lo hi = f_trunc y" by (simp add: map_util_def y_def s_def scale_def)
  have sn: "\<bar>f_val s - real_of_int (v * (hi - lo)) / 5\<bar> \<le> 1 / 40000"
    unfolding s_def by (rule scale_near) (use assms in auto)
  have "\<bar>v * (hi - lo)\<bar> \<le> 4 * 180" unfolding abs_mult by (rule mult_mono) (use assms in auto)
  then have "\<bar>real_of_int (v * (hi - lo)) / 5\<bar> \<le> 144" by linarith
  then have "\<bar>real_of_int lo + f_val s\<bar> \<le> 400" using sn assms(3,4) by linarith
  then have "\<bar>real_of_int lo + f_val s\<bar> / 2 ^ 24 \<le> 400 / 16777216" unfolding P by (rule divide_right_mono) simp
  moreover have "\<bar>f_val y - (real_of_int lo + f_val s)\<bar> \<le> \<bar>real_of_int lo + f_val s\<bar> / 2 ^ 24"
    using f_add_error [of 24 "f_of_int lo" s] unfolding y_def by simp
  ultimately have near: "\<bar>f_val y - real_of_int (5 * lo + v * (hi - lo)) / 5\<bar> \<le> 1 / 1000" unfolding e using sn by linarith
  have "f_val y = real_of_int (5 * lo + v * (hi - lo)) / 5" if x: "v = 0 \<or> v \<noteq> 3 \<and> 5 dvd (hi - lo)"
  proof (cases "v = 0")
    case True
    then have "f_val s = 0" by (simp add: s_def scale_def f_of_int_def fround_def Let_def)
    then have "f_val y = real_of_int lo" unfolding y_def by (intro f_add_whole) simp
    then show ?thesis using True by simp
  next
    case False
    then obtain c where c: "hi - lo = 5 * c" using x by auto
    have cs: "c \<in> set [-36..36]" unfolding set_upto atLeastAtMost_iff using assms c by linarith
    have "v = 1 \<or> v = 2 \<or> v = 4" using x False assms(1,2) by auto
    then have "scale_whole v c" using scale_whole_all cs unfolding list_all_iff by blast
    then have "f_val s = real_of_int (v * c)" unfolding scale_whole_def s_def c by (cases "scale v (5 * c)") simp
    then have "f_val y = real_of_int (lo + v * c)" unfolding y_def by (intro f_add_whole) simp
    then show ?thesis using c by simp
  qed
  then show thesis using that m near by blast
qed

lemma map_util_whole:
  assumes "0 \<le> v" "v \<le> 4" "0 \<le> lo" "lo \<le> 180" "0 \<le> hi" "hi \<le> 180"
  shows "0 \<le> map_util v 0 5 lo hi" "map_util v 0 5 lo hi \<le> (5 * lo + v * (hi - lo)) div 5"
    "(5 * lo + v * (hi - lo)) div 5 - 1 \<le> map_util v 0 5 lo hi"
    "v \<noteq> 3 \<or> \<not> 5 dvd (hi - lo) \<Longrightarrow> map_util v 0 5 lo hi = (5 * lo + v * (hi - lo)) div 5"
proof -
  define n where "n = 5 * lo + v * (hi - lo)"
  obtain y where y: "map_util v 0 5 lo hi = f_trunc y" "\<bar>f_val y - real_of_int n / 5\<bar> \<le> 1 / 1000"
    "v = 0 \<or> v \<noteq> 3 \<and> 5 dvd (hi - lo) \<Longrightarrow> f_val y = real_of_int n / 5"
    using map_util_near [OF assms] unfolding n_def by blast
  have n0: "0 \<le> n"
  proof -
    have "n = (5 - v) * lo + v * hi" by (simp add: n_def algebra_simps)
    then show ?thesis using assms by simp
  qed
  have tr: "f_trunc y = \<lfloor>f_val y\<rfloor>" if "0 \<le> f_val y" by (rule f_trunc_floor [OF that])
  have main: "0 \<le> f_trunc y \<and> f_trunc y \<le> n div 5 \<and> n div 5 - 1 \<le> f_trunc y \<and>
    (v \<noteq> 3 \<or> \<not> 5 dvd (hi - lo) \<longrightarrow> f_trunc y = n div 5)"
  proof (cases "5 dvd n")
    case False
    then have m: "n mod 5 \<noteq> 0" by presburger
    then have "0 < n" using n0 by (cases "n = 0") auto
    then have "1 \<le> real_of_int n" by simp
    then have y0: "0 \<le> f_val y" using y(2) by linarith
    have "\<lfloor>f_val y\<rfloor> = n div 5" by (rule floor_near [OF _ m]) (use y(2) in auto)
    then show ?thesis using tr [OF y0] n0 by simp
  next
    case True
    then obtain q where q: "n = 5 * q" by auto
    have "v = 0 \<or> v = 1 \<or> v = 2 \<or> v = 3 \<or> v = 4" using assms(1,2) by auto
    then have w: "v = 0 \<or> 5 dvd (hi - lo)" using True unfolding n_def by (elim disjE) (simp_all, presburger+)
    have yq: "\<bar>f_val y - real_of_int q\<bar> \<le> 1 / 1000" using y(2) q by simp
    show ?thesis
    proof (cases "v = 0 \<or> v \<noteq> 3 \<and> 5 dvd (hi - lo)")
      case True
      then have "f_val y = real_of_int q" using y(3) q by simp
      then show ?thesis using tr n0 q by simp
    next
      case False
      then have v3: "v = 3" "5 dvd (hi - lo)" using w by auto
      show ?thesis
      proof (cases "0 \<le> f_val y")
        case True
        then have "\<lfloor>f_val y\<rfloor> \<le> q" "q - 1 \<le> \<lfloor>f_val y\<rfloor>" "0 \<le> \<lfloor>f_val y\<rfloor>" using yq by linarith+
        then show ?thesis using tr [OF True] q v3 by simp
      next
        case neg: False
        have "0 \<le> q" using n0 q by simp
        moreover have "- 1 < f_val y" "real_of_int q < 1" using yq neg \<open>0 \<le> q\<close> by linarith+
        ultimately show ?thesis using f_trunc_small [of y] neg q v3 by simp
      qed
    qed
  qed
  then show "0 \<le> map_util v 0 5 lo hi" "map_util v 0 5 lo hi \<le> (5 * lo + v * (hi - lo)) div 5"
    "(5 * lo + v * (hi - lo)) div 5 - 1 \<le> map_util v 0 5 lo hi"
    "v \<noteq> 3 \<or> \<not> 5 dvd (hi - lo) \<Longrightarrow> map_util v 0 5 lo hi = (5 * lo + v * (hi - lo)) div 5"
    unfolding y(1) n_def [symmetric] by blast+
qed

section \<open>What a program plays\<close>

text \<open>The reference: the angles of a pose are the sums of the columns, and a step sends five commands to
  each servo on the way from the pose before to its own.\<close>

fun pose :: "int list list \<Rightarrow> nat \<Rightarrow> nat \<Rightarrow> int" where
  "pose prog 0 p = prog ! 0 ! (p - 1)"
| "pose prog (Suc i) p = pose prog i p + prog ! Suc i ! (p - 1)"

definition command :: "(nat \<Rightarrow> string option) \<Rightarrow> int list list \<Rightarrow> nat \<Rightarrow> nat \<Rightarrow> nat \<Rightarrow> gear_event list" where
  "command dev prog i j k =
     (case dev k of None \<Rightarrow> []
      | Some name \<Rightarrow> [Pwm name (snd (PWM_DEVICE ! k)) 20000000
          (u32 (pulse_of (map_util (int j) 0 5 (pose prog (i - 1) k) (pose prog i k))))])"

definition section_events :: "(nat \<Rightarrow> string option) \<Rightarrow> int list list \<Rightarrow> nat \<Rightarrow> nat \<Rightarrow> gear_event list" where
  "section_events dev prog i j = concat (map (command dev prog i j) [1..<9]) @ [Mdelay (cdiv (prog ! i ! 8) 5)]"

definition program_events :: "(nat \<Rightarrow> string option) \<Rightarrow> int list list \<Rightarrow> nat \<Rightarrow> gear_event list" where
  "program_events dev prog n = concat (map (\<lambda>i. concat (map (section_events dev prog i) [0..<5])) [0..<n])"

definition wf_prog :: "int list list \<Rightarrow> nat \<Rightarrow> bool" where
  "wf_prog prog step \<longleftrightarrow> step \<le> length prog \<and> list_all (\<lambda>row. length row = 9) prog"

lemma run_for_append: "run_for body (xs @ ys) s = Option.bind (run_for body xs s) (run_for body ys)"
  by (induction xs arbitrary: s) (auto split: bind_splits)

lemma wf_entry: "wf_prog prog step \<Longrightarrow> i < step \<Longrightarrow> j < 9 \<Longrightarrow> entry prog i j = Some (prog ! i ! j)"
  by (auto simp: wf_prog_def entry_def list_all_length)

lemma start_pos_run:
  assumes "wf_prog prog step" "i < step" "\<forall>k \<in> set ks. 1 \<le> k \<and> k \<le> 8"
    "\<forall>k \<in> set ks. 0 < i \<longrightarrow> gear_angle g k = Some (pose prog (i - 1) k)"
  shows "run_for (start_pos prog i) ks g = Some (g\<lparr>servoPos := \<lambda>s. if s \<in> set ks then pose prog (i - 1) s else servoPos g s\<rparr>)"
  using assms(3,4)
proof (induction ks arbitrary: g)
  case (Cons k ks)
  have e: "start_pos prog i k g = Some (g\<lparr>servoPos := (servoPos g)(k := pose prog (i - 1) k)\<rparr>)"
    using Cons.prems wf_entry [OF assms(1,2), of "k - 1"] by (cases "i = 0") (auto simp: start_pos_def)
  show ?case using Cons by (simp add: e fun_eq_iff)
qed simp

lemma next_angle_run:
  assumes "wf_prog prog step" "i < step" "\<forall>k \<in> set ks. 1 \<le> k \<and> k \<le> 8" "distinct ks"
    "\<forall>k \<in> set ks. 0 < i \<longrightarrow> gear_angle g k = Some (pose prog (i - 1) k)"
  shows "run_for (next_angle prog i) ks g = Some (g\<lparr>gear_angle := \<lambda>p. if p \<in> set ks then Some (pose prog i p) else gear_angle g p\<rparr>)"
  using assms(3-5)
proof (induction ks arbitrary: g)
  case (Cons k ks)
  have "entry prog i (k - 1) = Some (prog ! i ! (k - 1))" using Cons.prems(1) by (intro wf_entry [OF assms(1,2)]) auto
  then have e: "next_angle prog i k g = Some (g\<lparr>gear_angle := (gear_angle g)(k \<mapsto> pose prog i k)\<rparr>)"
    using Cons.prems by (cases i) (auto simp: next_angle_def)
  show ?case using Cons by (simp add: e fun_eq_iff)
qed simp

lemma drive_servo_run:
  assumes "\<forall>k \<in> set ks. gear_angle g k = Some (pose prog i k) \<and> servoPos g k = pose prog (i - 1) k"
  shows "run_for (drive_servo j) ks g = Some (g\<lparr>trace := trace g @ concat (map (command (pwm_device g) prog i j) ks)\<rparr>)"
  using assms
proof (induction ks arbitrary: g)
  case (Cons k ks)
  have e: "drive_servo j k g = Some (g\<lparr>trace := trace g @ command (pwm_device g) prog i j k\<rparr>)"
    using Cons.prems by (auto simp: drive_servo_def pwm_set_def emit_def command_def split: option.splits)
  show ?case using Cons by (simp add: e)
qed simp

lemma time_section_run:
  assumes "wf_prog prog step" "i < step"
    "\<forall>k \<in> set [1..<9]. gear_angle g k = Some (pose prog i k) \<and> servoPos g k = pose prog (i - 1) k"
  shows "run_for (time_section prog i) js g = Some (g\<lparr>trace := trace g @ concat (map (section_events (pwm_device g) prog i) js)\<rparr>)"
  using assms(3)
proof (induction js arbitrary: g)
  case (Cons j js)
  have e: "time_section prog i j g = Some (g\<lparr>trace := trace g @ section_events (pwm_device g) prog i j\<rparr>)"
    using drive_servo_run [OF Cons.prems, of j] wf_entry [OF assms(1,2), of 8]
    by (simp add: time_section_def section_events_def emit_def)
  show ?case using Cons by (simp add: e)
qed simp

lemma gear_step_run:
  assumes "wf_prog prog step" "i < step" "\<forall>k \<in> set [1..<9]. 0 < i \<longrightarrow> gear_angle g k = Some (pose prog (i - 1) k)"
  shows "\<exists>g'. gear_step prog i g = Some g' \<and> pwm_device g' = pwm_device g \<and>
    trace g' = trace g @ concat (map (section_events (pwm_device g) prog i) [0..<5]) \<and>
    (\<forall>k \<in> set [1..<9]. gear_angle g' k = Some (pose prog i k) \<and> servoPos g' k = pose prog (i - 1) k)"
proof -
  have ks: "\<forall>k \<in> set [1..<9]. 1 \<le> k \<and> k \<le> 8" by auto
  define g1 where "g1 = g\<lparr>servoPos := \<lambda>s. if s \<in> set [1..<9] then pose prog (i - 1) s else servoPos g s\<rparr>"
  have r1: "run_for (start_pos prog i) [1..<9] g = Some g1" unfolding g1_def by (rule start_pos_run [OF assms(1,2) ks assms(3)])
  define g2 where "g2 = g1\<lparr>gear_angle := \<lambda>p. if p \<in> set [1..<9] then Some (pose prog i p) else gear_angle g1 p\<rparr>"
  have a1: "\<forall>k \<in> set [1..<9]. 0 < i \<longrightarrow> gear_angle g1 k = Some (pose prog (i - 1) k)" using assms(3) by (simp add: g1_def)
  have r2: "run_for (next_angle prog i) [1..<9] g1 = Some g2" unfolding g2_def by (rule next_angle_run [OF assms(1,2) ks _ a1]) simp
  have a2: "\<forall>k \<in> set [1..<9]. gear_angle g2 k = Some (pose prog i k) \<and> servoPos g2 k = pose prog (i - 1) k"
    unfolding g2_def g1_def by simp
  note r3 = time_section_run [OF assms(1,2) a2, of "[0..<5]"]
  have f: "pwm_device g2 = pwm_device g" "trace g2 = trace g" by (simp_all add: g2_def g1_def)
  show ?thesis unfolding gear_step_def r1 r2 r3 Option.bind.simps f using a2 f by (auto simp del: upt_rec_numeral upt_Suc)
qed

lemma cmdcon_run:
  assumes "wf_prog prog step" "n \<le> step"
  shows "\<exists>g'. cmdcon prog n g = Some g' \<and> pwm_device g' = pwm_device g \<and>
    trace g' = trace g @ program_events (pwm_device g) prog n \<and>
    (\<forall>k \<in> set [1..<9]. 0 < n \<longrightarrow> gear_angle g' k = Some (pose prog (n - 1) k) \<and> servoPos g' k = pose prog (n - 2) k)"
  using assms(2)
proof (induction n)
  case 0
  then show ?case by (simp add: cmdcon_def program_events_def)
next
  case (Suc n)
  then obtain g1 where g1: "cmdcon prog n g = Some g1" "pwm_device g1 = pwm_device g"
    "trace g1 = trace g @ program_events (pwm_device g) prog n"
    "\<forall>k \<in> set [1..<9]. 0 < n \<longrightarrow> gear_angle g1 k = Some (pose prog (n - 1) k)" by auto
  have "n < step" using Suc.prems by simp
  from gear_step_run [OF assms(1) this g1(4)] obtain g2 where
    g2: "gear_step prog n g1 = Some g2" "pwm_device g2 = pwm_device g1"
    "trace g2 = trace g1 @ concat (map (section_events (pwm_device g1) prog n) [0..<5])"
    "\<forall>k \<in> set [1..<9]. gear_angle g2 k = Some (pose prog n k) \<and> servoPos g2 k = pose prog (n - 1) k" by blast
  have "cmdcon prog (Suc n) g = Some g2" using g1(1) g2(1) by (simp add: cmdcon_def run_for_append)
  moreover have "program_events (pwm_device g) prog (Suc n) =
      program_events (pwm_device g) prog n @ concat (map (section_events (pwm_device g) prog n) [0..<5])"
    by (simp add: program_events_def del: upt_rec_numeral)
  ultimately show ?case using g1(2,3) g2(2-4) by (simp add: numeral_2_eq_2 del: upt_rec_numeral upt_Suc)
qed

section \<open>The programs of the gait thread\<close>

definition pose_in :: "int list list \<Rightarrow> nat \<Rightarrow> nat \<Rightarrow> bool" where
  "pose_in prog i p \<longleftrightarrow> 0 \<le> pose prog i p \<and> pose prog i p \<le> 180"

definition poses_in :: "int list list \<Rightarrow> nat \<Rightarrow> bool" where
  "poses_in prog n \<longleftrightarrow> list_all (\<lambda>i. list_all (pose_in prog i) [1..<9] \<and> 0 \<le> prog ! i ! 8) [0..<n]"

definition prog_ok :: "(int list list \<times> nat) \<times> int \<Rightarrow> bool" where
  "prog_ok x \<longleftrightarrow> (case x of ((prog, step), ms) \<Rightarrow> wf_prog prog step \<and> poses_in prog step \<and> 0 \<le> ms)"

lemma gear_round_ok: "list_all prog_ok gear_round"
  by code_simp

text \<open>An event that does no harm: pulses between 0.5 and 2.5 ms in a period of 20 ms, pauses not negative.\<close>

fun servo_safe :: "gear_event \<Rightarrow> bool" where
  "servo_safe (Pwm name ch period pulse) \<longleftrightarrow> period = 20000000 \<and> 500000 \<le> pulse \<and> pulse \<le> 2500000"
| "servo_safe (PwmEnable name ch) \<longleftrightarrow> True"
| "servo_safe (Mdelay ms) \<longleftrightarrow> 0 \<le> ms"

lemma poses_inD:
  assumes "poses_in prog n" "i < n"
  shows "k \<in> set [1..<9] \<Longrightarrow> 0 \<le> pose prog i k \<and> pose prog i k \<le> 180" "0 \<le> prog ! i ! 8"
  using assms unfolding poses_in_def list_all_iff pose_in_def by auto

lemma command_safe:
  assumes "0 \<le> a" "a \<le> 180" "0 \<le> b" "b \<le> 180" "j < 5"
  shows "500000 \<le> u32 (pulse_of (map_util (int j) 0 5 a b)) \<and> u32 (pulse_of (map_util (int j) 0 5 a b)) \<le> 2500000"
proof -
  have j: "0 \<le> int j" "int j \<le> 4" using assms(5) by simp_all
  note m = map_util_whole [OF j assms(1-4)]
  have "5 * a + int j * (b - a) = (5 - int j) * a + int j * b" by (simp add: algebra_simps)
  also have "\<dots> \<le> (5 - int j) * 180 + int j * 180" by (intro add_mono mult_left_mono) (use assms j in auto)
  finally have "(5 * a + int j * (b - a)) div 5 \<le> 180" by simp
  then have "map_util (int j) 0 5 a b \<le> 180" using m(2) by simp
  then have p: "500000 \<le> pulse_of (map_util (int j) 0 5 a b)" "pulse_of (map_util (int j) 0 5 a b) \<le> 2500000"
    using pulse_of_bounds [OF m(1)] by blast+
  then have "u32 (pulse_of (map_util (int j) 0 5 a b)) = nat (pulse_of (map_util (int j) 0 5 a b))"
    by (intro u32_eqI) auto
  then show ?thesis using p by (simp add: le_nat_iff nat_le_iff)
qed

lemma program_safe:
  assumes "poses_in prog n"
  shows "list_all servo_safe (program_events dev prog n)"
proof -
  have "servo_safe e" if e: "e \<in> set (section_events dev prog i j)" "i < n" "j < 5" for e i j
  proof -
    consider k where "k \<in> set [1..<9]" "e \<in> set (command dev prog i j k)" | "e = Mdelay (cdiv (prog ! i ! 8) 5)"
      using e(1) unfolding section_events_def by auto
    then show ?thesis
    proof cases
      case (1 k)
      have "i - 1 < n" using e(2) by simp
      then show ?thesis
        using command_safe [of "pose prog (i - 1) k" "pose prog i k" j] poses_inD(1) [OF assms _ 1(1)] e(2,3) 1(2)
        by (auto simp: command_def split: option.splits)
    next
      case 2
      then show ?thesis using poses_inD(2) [OF assms e(2)] by (simp add: cdiv_nonneg)
    qed
  qed
  then show ?thesis by (auto simp: list_all_iff program_events_def simp del: upt_rec_numeral)
qed

lemma play_safe:
  assumes "prog_ok x"
  shows "\<exists>g' es. play x g = Some g' \<and> pwm_device g' = pwm_device g \<and> trace g' = trace g @ es \<and> list_all servo_safe es"
proof -
  obtain prog step ms where x: "x = ((prog, step), ms)" by (cases x) auto
  then have w: "wf_prog prog step" "poses_in prog step" "0 \<le> ms" using assms by (simp_all add: prog_ok_def)
  from cmdcon_run [OF w(1) le_refl, of g] obtain g1 where g1: "cmdcon prog step g = Some g1" "pwm_device g1 = pwm_device g"
    "trace g1 = trace g @ program_events (pwm_device g) prog step" by blast
  then show ?thesis using program_safe [OF w(2), of "pwm_device g"] w(3) x
    by (auto simp: play_def emit_def)
qed

lemma plays_safe:
  assumes "list_all prog_ok xs"
  shows "\<exists>g' es. run_for play xs g = Some g' \<and> pwm_device g' = pwm_device g \<and> trace g' = trace g @ es \<and> list_all servo_safe es"
  using assms
proof (induction xs arbitrary: g)
  case (Cons x xs)
  obtain g1 es where g1: "play x g = Some g1" "pwm_device g1 = pwm_device g" "trace g1 = trace g @ es" "list_all servo_safe es"
    using play_safe [of x g] Cons.prems by auto
  obtain g2 es2 where g2: "run_for play xs g1 = Some g2" "pwm_device g2 = pwm_device g1" "trace g2 = trace g1 @ es2" "list_all servo_safe es2"
    using Cons.IH [of g1] Cons.prems by auto
  then show ?case using g1 by (intro exI [of _ g2] exI [of _ "es @ es2"]) simp
qed simp

section \<open>Properties\<close>

text \<open>C2. However long the gait thread runs, no program reads outside its table or an unassigned local, every
  pulse it sends lies between 0.5 and 2.5 ms of a period of 20 ms, the range of the servos, and no pause is negative.\<close>

theorem gear_control_safe:
  "\<exists>g' es. gear_control n g = Some g' \<and> trace g' = trace g @ es \<and> list_all servo_safe es"
proof (induction n arbitrary: g)
  case 0
  show ?case by simp
next
  case (Suc n)
  obtain g1 es where g1: "run_for play gear_round g = Some g1" "trace g1 = trace g @ es" "list_all servo_safe es"
    using plays_safe [OF gear_round_ok, of g] by blast
  obtain g2 es2 where "gear_control n g1 = Some g2" "trace g2 = trace g1 @ es2" "list_all servo_safe es2"
    using Suc.IH [of g1] by blast
  then show ?case using g1 by (intro exI [of _ g2] exI [of _ "es @ es2"]) simp
qed

text \<open>C23. The angle sent in section \<open>j\<close> of a step, computed with \<^verbatim>\<open>float\<close>, is the exact interpolation cut to whole
  degrees, or in section 3 and for a difference divisible by five possibly one degree less.\<close>

theorem map_util_spec:
  assumes "0 \<le> j" "j \<le> 4" "0 \<le> lo" "lo \<le> 180" "0 \<le> hi" "hi \<le> 180"
  shows "map_util j 0 5 lo hi =
    (let exact = cdiv (5 * lo + j * (hi - lo)) 5
     in if j = 3 \<and> 5 dvd (hi - lo) \<and> map_util j 0 5 lo hi \<noteq> exact then exact - 1 else exact)"
proof -
  have "5 * lo + j * (hi - lo) = (5 - j) * lo + j * hi" by (simp add: algebra_simps)
  then have "0 \<le> 5 * lo + j * (hi - lo)" using assms by simp
  then have "cdiv (5 * lo + j * (hi - lo)) 5 = (5 * lo + j * (hi - lo)) div 5" by (simp add: cdiv_nonneg)
  moreover note map_util_whole(2-4) [OF assms]
  ultimately show ?thesis unfolding Let_def by (cases "j = 3 \<and> 5 dvd (hi - lo)") auto
qed

theorem map_util_spec_witness:
  "map_util 3 0 5 45 0 = 17 \<and> cdiv (5 * 45 + 3 * (0 - 45)) 5 = 18 \<and> map_util 3 0 5 45 0 =
    (let exact = cdiv (5 * 45 + 3 * (0 - 45)) 5
     in if (3 :: int) = 3 \<and> (5 :: int) dvd (0 - 45) \<and> map_util 3 0 5 45 0 \<noteq> exact then exact - 1 else exact)"
proof -
  have "map_util 3 0 5 45 0 = 17" "cdiv (5 * 45 + 3 * (0 - 45)) 5 = 18" by code_simp+
  then show ?thesis using map_util_spec [of 3 45 0] by simp
qed

text \<open>C25. The pulse of an angle, computed with \<^verbatim>\<open>double\<close>, is the exact linear map cut to whole nanoseconds; it is
  strictly increasing and maps 0 to 180 degrees to 0.5 to 2.5 ms.\<close>

theorem pulse_of_spec:
  assumes "0 \<le> t" "t \<le> 180"
  shows "pulse_of t = 500000 + t * 100000 div 9 \<and> 500000 \<le> pulse_of t \<and> pulse_of t \<le> 2500000 \<and>
    (\<forall>s. 0 \<le> s \<longrightarrow> s < t \<longrightarrow> pulse_of s < pulse_of t)"
  using pulse_of_eq [OF assms] pulse_of_bounds [OF assms] pulse_of_mono assms by blast

theorem pulse_of_spec_witness: "pulse_of 130 = 1944444"
  using pulse_of_spec [of 130] by simp

text \<open>The last commands of a program.\<close>

lemma last_commands:
  assumes "wf_prog prog (Suc n)" "poses_in prog (Suc n)"
  shows "\<exists>g' pre. cmdcon prog (Suc n) g = Some g' \<and>
    trace g' = pre @ concat (map (\<lambda>k. case pwm_device g k of None \<Rightarrow> []
      | Some name \<Rightarrow> [Pwm name (snd (PWM_DEVICE ! k)) 20000000
          (u32 (pulse_of ((pose prog (n - 1) k + 4 * pose prog n k) div 5)))]) [1..<9]) @ [Mdelay (cdiv (prog ! n ! 8) 5)]"
proof -
  from cmdcon_run [OF assms(1) le_refl, of g] obtain g' where
    g': "cmdcon prog (Suc n) g = Some g'" "trace g' = trace g @ program_events (pwm_device g) prog (Suc n)" by blast
  have "[0..<5] = [0..<4] @ [4 :: nat]" by (simp add: upt_rec)
  then have e: "program_events (pwm_device g) prog (Suc n) = program_events (pwm_device g) prog n @
      concat (map (section_events (pwm_device g) prog n) [0..<4]) @ section_events (pwm_device g) prog n 4"
    by (simp add: program_events_def del: upt_rec_numeral)
  have m: "map_util 4 0 5 (pose prog (n - 1) k) (pose prog n k) = (pose prog (n - 1) k + 4 * pose prog n k) div 5"
    if "k \<in> set [1..<9]" for k
  proof -
    have "0 \<le> pose prog (n - 1) k \<and> pose prog (n - 1) k \<le> 180" "0 \<le> pose prog n k \<and> pose prog n k \<le> 180"
      by (rule poses_inD(1) [OF assms(2) _ that], simp)+
    then have "map_util 4 0 5 (pose prog (n - 1) k) (pose prog n k) =
        (5 * pose prog (n - 1) k + 4 * (pose prog n k - pose prog (n - 1) k)) div 5" by (intro map_util_whole(4)) auto
    then show ?thesis by (simp add: algebra_simps)
  qed
  have s: "section_events (pwm_device g) prog n 4 = concat (map (\<lambda>k. case pwm_device g k of None \<Rightarrow> []
      | Some name \<Rightarrow> [Pwm name (snd (PWM_DEVICE ! k)) 20000000
          (u32 (pulse_of ((pose prog (n - 1) k + 4 * pose prog n k) div 5)))]) [1..<9]) @ [Mdelay (cdiv (prog ! n ! 8) 5)]"
    unfolding section_events_def command_def
    by (intro arg_cong2 [where f = append] arg_cong [where f = concat] map_cong refl) (simp add: m [simplified] split: option.split)
  have "trace g' = (trace g @ program_events (pwm_device g) prog n @ concat (map (section_events (pwm_device g) prog n) [0..<4])) @
      section_events (pwm_device g) prog n 4"
    using g'(2) unfolding e by (simp only: append_assoc)
  then show ?thesis using g'(1) unfolding s by blast
qed

text \<open>The last fifth of every step is left out: the last command of each servo in a program goes four fifths
  of the way, so the robot never reaches the last pose.\<close>

theorem last_pose_missed:
  assumes "wf_prog prog (Suc n)" "poses_in prog (Suc n)"
  shows "\<exists>g' pre. cmdcon prog (Suc n) g = Some g' \<and>
    trace g' = pre @ concat (map (\<lambda>k. case pwm_device g k of None \<Rightarrow> []
      | Some name \<Rightarrow> [Pwm name (snd (PWM_DEVICE ! k)) 20000000
          (u32 (pulse_of ((pose prog (n - 1) k + 4 * pose prog n k) div 5)))]) [1..<9]) @ [Mdelay (cdiv (prog ! n ! 8) 5)]"
  by (rule last_commands [OF assms])

lemma gear_example_ok: "wf_prog GearProg06 (Suc 7)" "poses_in GearProg06 (Suc 7)"
  by code_simp+

text \<open>Turning left ends with servo 2 at 124 instead of 115 degrees.\<close>

theorem last_pose_missed_witness:
  "\<exists>g' pre post. cmdcon GearProg06 8 \<lparr>pwm_device = \<lambda>_. Some ''p'', servoPos = \<lambda>_. 0, gear_angle = \<lambda>_. None, trace = []\<rparr> = Some g' \<and>
    trace g' = pre @ [Pwm ''p'' 3 20000000 (u32 (pulse_of 124))] @ post \<and> pose GearProg06 7 2 = 115 \<and> length post = 7"
proof -
  have p: "pose GearProg06 7 2 = 115" "(pose GearProg06 6 2 + 4 * pose GearProg06 7 2) div 5 = 124" by code_simp+
  have u: "[1..<9] = [1] @ 2 # [3, 4, 5, 6, 7, 8 :: nat]" by (simp add: upt_rec)
  from last_pose_missed [OF gear_example_ok, of "\<lparr>pwm_device = \<lambda>_. Some ''p'', servoPos = \<lambda>_. 0, gear_angle = \<lambda>_. None, trace = []\<rparr>"]
  obtain g' pre where
    g': "cmdcon GearProg06 (Suc 7) \<lparr>pwm_device = \<lambda>_. Some ''p'', servoPos = \<lambda>_. 0, gear_angle = \<lambda>_. None, trace = []\<rparr> = Some g'"
    "trace g' = pre @ concat (map (\<lambda>k. [Pwm ''p'' (snd (PWM_DEVICE ! k)) 20000000
          (u32 (pulse_of ((pose GearProg06 (7 - 1) k + 4 * pose GearProg06 7 k) div 5)))]) [1..<9]) @ [Mdelay (cdiv (GearProg06 ! 7 ! 8) 5)]"
    by auto
  let ?c = "\<lambda>k. [Pwm ''p'' (snd (PWM_DEVICE ! k)) 20000000 (u32 (pulse_of ((pose GearProg06 (7 - 1) k + 4 * pose GearProg06 7 k) div 5)))]"
  have "?c 2 = [Pwm ''p'' 3 20000000 (u32 (pulse_of 124))]" using p(2) by (simp add: PWM_DEVICE_def)
  then have "trace g' = (pre @ ?c 1) @ [Pwm ''p'' 3 20000000 (u32 (pulse_of 124))] @
      concat (map ?c [3, 4, 5, 6, 7, 8]) @ [Mdelay (cdiv (GearProg06 ! 7 ! 8) 5)]"
    using g'(2) unfolding u by (simp del: upt_rec_numeral)
  then show ?thesis using g'(1) p(1) by (intro exI conjI) (assumption | simp)+
qed

text \<open>C12. Playing a program. The commands sent are those of the reference: in each step five to every servo that has
  a device, at the points 0 to 4 fifths between the pose before and the pose of the step (\<open>program_events\<close>), each
  followed by a fifth of the time of the step. So the last commands of a program with angles from 0 to 180 degrees go four fifths of
  the way to its last pose, which is itself never commanded, and \<^verbatim>\<open>servoPos\<close> is left at the last pose but one
  (at the first, when it is the only one).\<close>

theorem cmdcon_spec:
  assumes "wf_prog prog (Suc n)"
  shows "\<exists>g'. cmdcon prog (Suc n) g = Some g' \<and> trace g' = trace g @ program_events (pwm_device g) prog (Suc n) \<and>
    pwm_device g' = pwm_device g \<and> (\<forall>k \<in> set [1..<9]. servoPos g' k = pose prog (n - 1) k) \<and>
    (poses_in prog (Suc n) \<longrightarrow> (\<exists>pre. trace g' = pre @ concat (map (\<lambda>k. case pwm_device g k of None \<Rightarrow> []
      | Some name \<Rightarrow> [Pwm name (snd (PWM_DEVICE ! k)) 20000000
          (u32 (pulse_of ((pose prog (n - 1) k + 4 * pose prog n k) div 5)))]) [1..<9]) @ [Mdelay (cdiv (prog ! n ! 8) 5)]))"
proof -
  from cmdcon_run [OF assms le_refl, of g] obtain g' where
    g': "cmdcon prog (Suc n) g = Some g'" "pwm_device g' = pwm_device g"
    "trace g' = trace g @ program_events (pwm_device g) prog (Suc n)"
    "\<forall>k \<in> set [1..<9]. servoPos g' k = pose prog (n - 1) k"
    by (auto simp: numeral_2_eq_2 simp del: upt_rec_numeral upt_Suc)
  then show ?thesis using last_commands [OF assms, of g] by (intro exI [of _ g'] conjI impI) auto
qed

text \<open>Playing \<^verbatim>\<open>GearProg09\<close> leaves \<^verbatim>\<open>servoPos\<close> of servo 1 at the third pose.\<close>

theorem cmdcon_spec_witness:
  "\<exists>g' pre. cmdcon GearProg09 4 \<lparr>pwm_device = \<lambda>_. None, servoPos = \<lambda>_. 0, gear_angle = \<lambda>_. None, trace = []\<rparr> = Some g' \<and>
    servoPos g' 1 = pose GearProg09 2 1 \<and> trace g' = pre @ [Mdelay (cdiv (GearProg09 ! 3 ! 8) 5)]"
proof -
  have w: "wf_prog GearProg09 (Suc 3)" "poses_in GearProg09 (Suc 3)" by code_simp+
  have c: "concat (map (\<lambda>k. []) xs) = ([] :: gear_event list)" for xs :: "nat list"
    by (induction xs) auto
  show ?thesis
    using cmdcon_spec [OF w(1), of "\<lparr>pwm_device = \<lambda>_. None, servoPos = \<lambda>_. 0, gear_angle = \<lambda>_. None, trace = []\<rparr>"] w(2)
    by (auto simp: c intro: sym)
qed

text \<open>A program that comes back to the pose it starts from.\<close>

definition closed :: "int list list \<times> nat \<Rightarrow> bool" where
  "closed x \<longleftrightarrow> (case x of (prog, n) \<Rightarrow> map (pose prog (n - 1)) [1..<9] = map (pose prog 0) [1..<9])"

text \<open>Walking forwards and backwards, stepping aside and turning right all end in the pose they start from, the standing
  pose set at start-up.\<close>

theorem gaits_closed:
  "list_all (\<lambda>x. closed x \<and> map (pose (fst x) 0) [1..<9] = map (pose GearProg00 0) [1..<9])
    [(GearProg02, 11), (GearProg03, 11), (GearProg04, 11), (GearProg05, 11), (GearProg07, 8)]"
  by code_simp

text \<open>Turning left does not: servo 1 is raised by 10 and lowered by 20 degrees, while its mirror image in the program
  for turning right moves by 20 both ways.\<close>

theorem turn_left_sags:
  "pose GearProg06 0 1 = 130 \<and> pose GearProg06 7 1 = 120 \<and> map (pose GearProg06 7) [2..<9] = map (pose GearProg06 0) [2..<9]"
  by code_simp

text \<open>The program "push up" leaves the range of the servos (the thread does not play it).\<close>

theorem push_up_exceeds:
  "pose GearProg11 7 1 = 195 \<and> pose GearProg11 7 4 = - 15 \<and> 2500000 < pulse_of (map_util 4 0 5 (pose GearProg11 6 1) (pose GearProg11 7 1))"
  by code_simp

text \<open>How long a program takes, in milliseconds.\<close>

fun pauses :: "gear_event list \<Rightarrow> int" where
  "pauses [] = 0"
| "pauses (Mdelay ms # es) = ms + pauses es"
| "pauses (_ # es) = pauses es"

lemma pauses_append [simp]: "pauses (xs @ ys) = pauses xs + pauses ys"
  by (induction xs rule: pauses.induct) simp_all

lemma pauses_concat: "pauses (concat xss) = sum_list (map pauses xss)"
  by (induction xss) simp_all

lemma pauses_section: "pauses (section_events dev prog i j) = cdiv (prog ! i ! 8) 5"
proof -
  have "pauses (command dev prog i j k) = 0" for k by (simp add: command_def split: option.split)
  then show ?thesis by (simp add: section_events_def pauses_concat o_def del: upt_rec_numeral)
qed

text \<open>The time a program takes is the sum of the times in its table, each rounded down to a multiple of five,
  whatever the devices do.\<close>

theorem program_time:
  assumes "wf_prog prog step"
  shows "\<exists>g'. cmdcon prog step g = Some g' \<and>
    pauses (trace g') = pauses (trace g) + (\<Sum>i \<leftarrow> [0..<step]. 5 * cdiv (prog ! i ! 8) 5)"
proof -
  from cmdcon_run [OF assms le_refl, of g] obtain g' where
    g': "cmdcon prog step g = Some g'" "trace g' = trace g @ program_events (pwm_device g) prog step" by blast
  have "length [0..<5] = (5 :: nat)" by simp
  then have "pauses (program_events (pwm_device g) prog step) = (\<Sum>i \<leftarrow> [0..<step]. 5 * cdiv (prog ! i ! 8) 5)"
    by (simp add: program_events_def pauses_concat pauses_section o_def sum_list_triv del: upt_rec_numeral)
  then show ?thesis using g' by auto
qed

theorem program_time_witness:
  "\<exists>g'. cmdcon GearProg09 4 \<lparr>pwm_device = \<lambda>_. None, servoPos = \<lambda>_. 0, gear_angle = \<lambda>_. None, trace = []\<rparr> = Some g' \<and>
    pauses (trace g') = 700"
proof -
  have w: "wf_prog GearProg09 4" "(\<Sum>i \<leftarrow> [0..<4]. 5 * cdiv (GearProg09 ! i ! 8) 5) = 700" by code_simp+
  show ?thesis
    using program_time [OF w(1), of "\<lparr>pwm_device = \<lambda>_. None, servoPos = \<lambda>_. 0, gear_angle = \<lambda>_. None, trace = []\<rparr>"] w(2) by auto
qed

text \<open>The test command sweeps one servo for ever: the pulse is a triangle wave of period 8 between
  0.5 and 2.5 ms.\<close>

theorem pwm_sample_triangle:
  "pwm_sample n = (500000 * (1 + (if n mod 8 \<le> 4 then n mod 8 else 8 - n mod 8)), if n mod 8 < 4 then 1 else 0)"
proof (induction n)
  case 0
  then show ?case by (simp add: pwm_sample_def)
next
  case (Suc n)
  have s: "pwm_sample (Suc n) = sample_step (pwm_sample n)" by (simp add: pwm_sample_def)
  have "n mod 8 < 8" by simp
  then consider "n mod 8 = 0" | "n mod 8 = 1" | "n mod 8 = 2" | "n mod 8 = 3" | "n mod 8 = 4" | "n mod 8 = 5" | "n mod 8 = 6" | "n mod 8 = 7"
    by linarith
  then show ?case unfolding s Suc by cases (simp_all add: sample_step_def mod_Suc u32_def)
qed

section \<open>Properties of the forces\<close>

text \<open>The two constants in double precision.\<close>

lemma repulsion_consts:
  "f_div 53 (f_of_int 1) (f_of_int 100) = (5764607523034235, 59)"
  "f_div 53 (f_of_int 1) (f_div 53 (f_of_int 6) (f_of_int 10)) = (7505999378950827, 52)"
  by code_simp+

definition repulsion_at :: "int \<Rightarrow> int" where
  "repulsion_at d =
     (let inv = f_div 53 (f_of_int 1) (f_mul 53 (f_of_int d) (5764607523034235, 59))
      in f_trunc (f_mul 53 (f_mul 53 (f_sub 53 inv (7505999378950827, 52)) inv) (f_of_int 20)))"

lemma repulsion_eq: "repulsion d = (if 60 < d \<or> d = 0 then 0 else repulsion_at d)"
  by (simp add: repulsion_def repulsion_at_def Let_def repulsion_consts)

text \<open>The forces at the distances from 20 to 60.\<close>

lemma repulsion_table1: "map repulsion_at [20..29] = [333, 294, 261, 233, 208, 186, 167, 150, 136, 122]"
  by code_simp

lemma repulsion_table2: "map repulsion_at [30..39] = [111, 100, 91, 82, 74, 68, 61, 56, 50, 46]"
  by code_simp

lemma repulsion_table3: "map repulsion_at [40..49] = [41, 37, 34, 30, 27, 24, 22, 19, 17, 15]"
  by code_simp

lemma repulsion_table4: "map repulsion_at [50..60] = [13, 11, 9, 8, 6, 5, 4, 3, 1, 0, 0]"
  by code_simp

definition repulsion_list :: "int list" where
  "repulsion_list =
    [333, 294, 261, 233, 208, 186, 167, 150, 136, 122, 111, 100, 91, 82, 74, 68, 61, 56, 50, 46,
     41, 37, 34, 30, 27, 24, 22, 19, 17, 15, 13, 11, 9, 8, 6, 5, 4, 3, 1, 0, 0]"

lemma repulsion_list_eq: "map repulsion_at [20..60] = repulsion_list"
proof -
  have "[20..60] = [20..29] @ [30..39] @ [40..49] @ [50..60 :: int]" by simp
  then show ?thesis by (simp only: map_append repulsion_table1 repulsion_table2 repulsion_table3 repulsion_table4) (simp add: repulsion_list_def)
qed

lemma repulsion_list_sorted: "sorted (rev repulsion_list)" "list_all (\<lambda>x. 0 \<le> x \<and> x \<le> 333) repulsion_list"
  "last repulsion_list = 0" "length repulsion_list = 41"
  by (simp_all add: repulsion_list_def)

lemma repulsion_nth: "i < 41 \<Longrightarrow> repulsion_at (20 + int i) = repulsion_list ! i"
proof -
  assume i: "i < 41"
  have "map repulsion_at [20..60] ! i = repulsion_at ([20..60] ! i)"
    using i by (intro nth_map) (simp only: length_upto)
  moreover have "[20..60] ! i = 20 + int i" by (rule nth_upto) (use i in simp)
  ultimately show ?thesis by (simp only: repulsion_list_eq)
qed

lemma repulsion_step:
  assumes "20 \<le> d" "d \<le> 60"
  shows "0 \<le> repulsion d" "repulsion d \<le> 333" "repulsion (d + 1) \<le> repulsion d"
proof -
  define i where "i = nat (d - 20)"
  have i: "i < 41" "d = 20 + int i" using assms by (simp_all add: i_def)
  have r: "repulsion d = repulsion_list ! i" using repulsion_nth [OF i(1)] i(2) assms by (simp add: repulsion_eq)
  have "repulsion_list ! i \<in> set repulsion_list" using i(1) repulsion_list_sorted(4) by simp
  then have b: "0 \<le> repulsion d" "repulsion d \<le> 333" using repulsion_list_sorted(2) r by (auto simp: list_all_iff)
  have "repulsion (d + 1) \<le> repulsion d"
  proof (cases "d = 60")
    case True
    then show ?thesis using b(1) by (simp add: repulsion_eq [of 61])
  next
    case False
    then have i1: "Suc i < 41" using assms i(2) by simp
    then have "repulsion (d + 1) = repulsion_list ! Suc i" using repulsion_nth [OF i1] i(2) assms False by (simp add: repulsion_eq add.commute)
    moreover have "sorted_wrt (\<ge>) repulsion_list" using repulsion_list_sorted(1) by (simp add: sorted_wrt_rev)
    then have "repulsion_list ! Suc i \<le> repulsion_list ! i"
      using sorted_wrt_nth_less [of "(\<ge>)" repulsion_list i "Suc i"] i1 repulsion_list_sorted(4) by simp
    ultimately show ?thesis using r by simp
  qed
  with b have "0 \<le> repulsion d \<and> repulsion d \<le> 333 \<and> repulsion (d + 1) \<le> repulsion d" by blast
  then show "0 \<le> repulsion d" "repulsion d \<le> 333" "repulsion (d + 1) \<le> repulsion d" by blast+
qed

lemma distance_range: "distance_of b len = 0 \<or> 20 \<le> distance_of b len \<and> distance_of b len \<le> 109"
proof -
  consider "len \<le> 20" | "20 < len" "len \<le> 90" | "90 < len" "len \<le> 120" | "120 < len" by linarith
  then show ?thesis
  proof cases
    case 3
    then have "cdiv (len - 90) 3 = (len - 90) div 3" "(len - 90) div 3 \<le> 10" "0 \<le> (len - 90) div 3"
      by (simp_all add: cdiv_nonneg)
    then show ?thesis using 3 by (simp add: distance_of_def)
  qed (auto simp: distance_of_def)
qed

lemma s16_small: "- 32768 \<le> x \<Longrightarrow> x \<le> 32767 \<Longrightarrow> s16 x = x"
  by (simp add: s16_def)

lemma repulsion_range: "0 \<le> d \<Longrightarrow> d = 0 \<or> 20 \<le> d \<Longrightarrow> 0 \<le> repulsion d \<and> repulsion d \<le> 333"
proof -
  assume d: "0 \<le> d" "d = 0 \<or> 20 \<le> d"
  show ?thesis
  proof (cases "d = 0 \<or> 60 < d")
    case True
    then show ?thesis by (auto simp: repulsion_def)
  next
    case False
    then show ?thesis using repulsion_step [of d] d by auto
  qed
qed

text \<open>The force of an obstacle, computed with \<^verbatim>\<open>double\<close>, is never negative, at most 333, falls with the
  distance, and vanishes from a distance of 60 on.\<close>

theorem repulsion_falls:
  assumes "20 \<le> d" "d \<le> e"
  shows "repulsion e \<le> repulsion d \<and> 0 \<le> repulsion e \<and> repulsion d \<le> 333 \<and> (60 \<le> d \<longrightarrow> repulsion d = 0)"
proof -
  have r60: "repulsion 60 = 0" by code_simp
  have mono: "repulsion (d + int n) \<le> repulsion d" if "20 \<le> d" for d n
  proof (induction n)
    case 0
    then show ?case by simp
  next
    case (Suc n)
    have "repulsion (d + int n + 1) \<le> repulsion (d + int n)"
    proof (cases "d + int n \<le> 60")
      case True
      then show ?thesis using repulsion_step(3) [of "d + int n"] that by simp
    next
      case False
      then show ?thesis by (simp add: repulsion_def)
    qed
    then show ?case using Suc by (simp add: add.commute add.left_commute)
  qed
  have "repulsion e \<le> repulsion d" using mono [OF assms(1), of "nat (e - d)"] assms(2) by simp
  moreover have "60 \<le> d \<longrightarrow> repulsion d = 0" using r60 by (cases "d = 60") (auto simp: repulsion_def)
  moreover have "0 \<le> repulsion e" "repulsion d \<le> 333" using repulsion_range [of e] repulsion_range [of d] assms by auto
  ultimately show ?thesis by blast
qed

theorem repulsion_falls_witness: "repulsion 45 \<le> repulsion 20 \<and> repulsion 20 = 333 \<and> repulsion 45 = 24"
proof -
  have "repulsion 20 = 333" "repulsion 45 = 24" by code_simp+
  then show ?thesis using repulsion_falls [of 20 45] by simp
qed

lemma point_force_nonneg: "0 \<le> p_force (point_of b box)"
proof -
  obtain x0 x1 y0 y1 where box: "box = (x0, x1, y0, y1)" by (cases box)
  define len where "len = s16 (x1 - x0)"
  have d: "s16 (distance_of c len) = distance_of c len" for c using distance_range [of c len] by (intro s16_small) auto
  have "0 \<le> distance_of c len" "distance_of c len = 0 \<or> 20 \<le> distance_of c len" for c using distance_range [of c len] by auto
  then have "0 \<le> distance_of c len" "0 \<le> repulsion (distance_of c len)" for c using repulsion_range [of "distance_of c len"] by auto
  then show ?thesis by (simp add: point_of_def box Let_def len_def [symmetric] d)
qed

lemma bearing_angle: "bearing p * 3.1416 / 180 =
    (if p_temp p = 0 then 0 else if p_y p = 0 then pi / 2 else arctan (real_of_int (p_temp p) / real_of_int (p_y p)))"
  by (simp add: bearing_def)

lemma bearing_cos: "0 \<le> cos (bearing p * 3.1416 / 180)"
proof -
  have "- (pi / 2) < arctan z" "arctan z < pi / 2" for z by (rule arctan_lbound, rule arctan_ubound)
  then have "0 \<le> cos (arctan z)" for z by (intro cos_ge_zero) (auto intro: less_imp_le)
  then show ?thesis unfolding bearing_angle by simp
qed

text \<open>The forward component of the force is never negative: an obstacle ahead adds to it, so the robot is never told to
  walk backwards, whatever the camera sees.\<close>

theorem force_never_backward:
  "0 \<le> fst (force_analysis target obstacle)"
  using point_force_nonneg bearing_cos by (simp add: force_analysis_def Let_def)

text \<open>The side of the target is measured from the edge of the picture on the left and from the middle on the right: one
  pixel across the middle the angle jumps from the largest to the smallest.\<close>

theorem bearing_jumps:
  "p_temp (point_of True (150, 170, 80, 120)) = 160 \<and> p_dir (point_of True (150, 170, 80, 120)) = 1 \<and>
   p_temp (point_of True (151, 171, 80, 120)) = 1 \<and> p_dir (point_of True (151, 171, 80, 120)) = - 1 \<and>
   p_temp (point_of True (0, 1, 80, 120)) = 0"
  by code_simp

section \<open>Properties of the start-up\<close>

lemma open_servos_all:
  assumes "\<forall>i \<in> set is. fst (PWM_DEVICE ! i) \<in> set registry" "distinct is"
  shows "\<exists>g'. open_servos registry is g = (g', True) \<and>
    trace g' = trace g @ concat (map (\<lambda>i. [Pwm (fst (PWM_DEVICE ! i)) (snd (PWM_DEVICE ! i)) 20000000 1500000,
      PwmEnable (fst (PWM_DEVICE ! i)) (snd (PWM_DEVICE ! i))]) is) \<and>
    (\<forall>i. pwm_device g' i = (if i \<in> set is then Some (fst (PWM_DEVICE ! i)) else pwm_device g i))"
  using assms
proof (induction "is" arbitrary: g)
  case (Cons i js)
  define g1 where "g1 = g\<lparr>pwm_device := (pwm_device g)(i \<mapsto> fst (PWM_DEVICE ! i))\<rparr>"
  define g2 where "g2 = emit (PwmEnable (fst (PWM_DEVICE ! i)) (snd (PWM_DEVICE ! i))) (pwm_set i 20000000 1500000 g1)"
  have "u32 1500000 = 1500000" using u32_small [of 1500000] by simp
  then have e: "open_servos registry (i # js) g = open_servos registry js g2"
    "trace g2 = trace g @ [Pwm (fst (PWM_DEVICE ! i)) (snd (PWM_DEVICE ! i)) 20000000 1500000,
      PwmEnable (fst (PWM_DEVICE ! i)) (snd (PWM_DEVICE ! i))]"
    "pwm_device g2 = (pwm_device g)(i \<mapsto> fst (PWM_DEVICE ! i))"
    using Cons.prems(1) by (simp_all add: rt_device_find_def g2_def g1_def emit_def pwm_set_def Let_def)
  from Cons.IH [of g2] Cons.prems obtain g' where "open_servos registry js g2 = (g', True)"
    "trace g' = trace g2 @ concat (map (\<lambda>i. [Pwm (fst (PWM_DEVICE ! i)) (snd (PWM_DEVICE ! i)) 20000000 1500000,
      PwmEnable (fst (PWM_DEVICE ! i)) (snd (PWM_DEVICE ! i))]) js)"
    "\<forall>i. pwm_device g' i = (if i \<in> set js then Some (fst (PWM_DEVICE ! i)) else pwm_device g2 i)" by auto
  then show ?case using e Cons.prems(2) by auto
qed simp

lemma stand_by_run:
  assumes "\<forall>k \<in> set ks. 1 \<le> k \<and> k \<le> 8"
  shows "run_for stand_by ks g = Some (g\<lparr>trace := trace g @ concat (map (\<lambda>k. case pwm_device g k of None \<Rightarrow> []
    | Some name \<Rightarrow> [Pwm name (snd (PWM_DEVICE ! k)) 20000000 (u32 (pulse_of (pose GearProg00 0 k)))]) ks)\<rparr>)"
  using assms
proof (induction ks arbitrary: g)
  case (Cons k ks)
  have "wf_prog GearProg00 1" by code_simp
  then have "entry GearProg00 0 (k - 1) = Some (pose GearProg00 0 k)" using Cons.prems wf_entry [of GearProg00 1 0 "k - 1"] by auto
  then have "stand_by k g = Some (g\<lparr>trace := trace g @ (case pwm_device g k of None \<Rightarrow> []
    | Some name \<Rightarrow> [Pwm name (snd (PWM_DEVICE ! k)) 20000000 (u32 (pulse_of (pose GearProg00 0 k)))])\<rparr>)"
    by (simp add: stand_by_def pwm_set_def emit_def split: option.split)
  then show ?case using Cons by (simp add: fun_eq_iff)
qed simp

text \<open>Start-up with all devices registered: each servo's channel is set to the middle, enabled, and then set to the
  standing pose; and the function ends without a result although it is declared to return one.\<close>

theorem prepare_statu_spec:
  assumes "\<forall>i \<in> set [1..<9]. fst (PWM_DEVICE ! i) \<in> set registry"
  shows "\<exists>g'. prepare_statu registry g = Some (g', None) \<and>
    (\<forall>k \<in> set [1..<9]. pwm_device g' k = Some (fst (PWM_DEVICE ! k))) \<and>
    trace g' = trace g @
      concat (map (\<lambda>k. [Pwm (fst (PWM_DEVICE ! k)) (snd (PWM_DEVICE ! k)) 20000000 1500000,
        PwmEnable (fst (PWM_DEVICE ! k)) (snd (PWM_DEVICE ! k))]) [1..<9]) @
      map (\<lambda>k. Pwm (fst (PWM_DEVICE ! k)) (snd (PWM_DEVICE ! k)) 20000000 (u32 (pulse_of (pose GearProg00 0 k)))) [1..<9]"
proof -
  obtain g1 where g1: "open_servos registry [1..<9] g = (g1, True)"
    "trace g1 = trace g @ concat (map (\<lambda>i. [Pwm (fst (PWM_DEVICE ! i)) (snd (PWM_DEVICE ! i)) 20000000 1500000,
      PwmEnable (fst (PWM_DEVICE ! i)) (snd (PWM_DEVICE ! i))]) [1..<9])"
    "\<forall>i. pwm_device g1 i = (if i \<in> set [1..<9] then Some (fst (PWM_DEVICE ! i)) else pwm_device g i)"
    using open_servos_all [OF assms distinct_upt, of g] by blast
  have ks: "\<forall>k \<in> set [1..<9]. 1 \<le> k \<and> k \<le> 8" by auto
  have e: "concat (map (\<lambda>k. case pwm_device g1 k of None \<Rightarrow> []
    | Some name \<Rightarrow> [Pwm name (snd (PWM_DEVICE ! k)) 20000000 (u32 (pulse_of (pose GearProg00 0 k)))]) [1..<9]) =
    map (\<lambda>k. Pwm (fst (PWM_DEVICE ! k)) (snd (PWM_DEVICE ! k)) 20000000 (u32 (pulse_of (pose GearProg00 0 k)))) [1..<9]"
  proof -
    have c: "concat (map f xs) = map h xs" if "\<And>k. k \<in> set xs \<Longrightarrow> f k = [h k]" for f h and xs :: "nat list"
      using that by (induction xs) auto
    show ?thesis by (rule c) (use g1(3) in simp)
  qed
  show ?thesis
    unfolding prepare_statu_def g1(1) prod.case bool.case stand_by_run [OF ks, of g1] Option.bind.simps e
    using g1(2,3) by (simp del: upt_rec_numeral upt_Suc)
qed

theorem prepare_statu_spec_witness:
  "\<exists>g'. prepare_statu [''pwm1'', ''pwm2'', ''pwm3'', ''pwm4'']
      \<lparr>pwm_device = \<lambda>_. None, servoPos = \<lambda>_. 0, gear_angle = \<lambda>_. None, trace = []\<rparr> = Some (g', None) \<and> pwm_device g' 3 = Some ''pwm2''"
proof -
  have a: "\<forall>i \<in> set [1..<9]. fst (PWM_DEVICE ! i) \<in> set [''pwm1'', ''pwm2'', ''pwm3'', ''pwm4'']"
    by code_simp
  have p: "(3 :: nat) \<in> set [1..<9]" "fst (PWM_DEVICE ! 3) = ''pwm2''" by (auto simp: PWM_DEVICE_def)
  from prepare_statu_spec [OF a, of "\<lparr>pwm_device = \<lambda>_. None, servoPos = \<lambda>_. 0, gear_angle = \<lambda>_. None, trace = []\<rparr>"] p
  show ?thesis by fastforce
qed

text \<open>The eight servos have eight different outputs.\<close>

theorem servo_outputs_distinct: "distinct (map (\<lambda>k. PWM_DEVICE ! k) [1..<9])"
  by code_simp

end
