(* ===== verification/RingBuffer.thy ===== *)
theory RingBuffer
  imports BQueue SysHeap
begin

text \<open>
  The byte ring buffer of the device drivers, \<^verbatim>\<open>components/drivers/src/ringbuffer.c\<close>. Each index
  has a mirror bit, which distinguishes a full from an empty ring when the indices are equal.
  The indices are 15-bit fields, so an assignment cuts to 15 bits; the sizes are computed in
  \<^verbatim>\<open>int\<close> and cut to \<^verbatim>\<open>rt_uint16_t\<close> where the code stores them so. \<open>memcpy\<close> outside the ring or
  beyond the end of the source is \<open>None\<close>.
\<close>

section \<open>Operations\<close>

record ringbuffer =
  buffer :: "8 word list"
  read_mirror :: bool
  read_index :: nat
  write_mirror :: bool
  write_index :: nat
  buffer_size :: int

datatype rb_state = RB_EMPTY | RB_FULL | RB_HALFFULL

definition rt_ringbuffer_status :: "ringbuffer \<Rightarrow> rb_state" where
  "rt_ringbuffer_status rb =
     (if read_index rb = write_index rb then
        (if read_mirror rb = write_mirror rb then RB_EMPTY else RB_FULL)
      else RB_HALFFULL)"

definition i15 :: "int \<Rightarrow> nat" where
  "i15 x = nat (x mod 32768)"

definition align_down4 :: "int \<Rightarrow> int" where
  "align_down4 x = x AND NOT 3"

text \<open>\<open>None\<close> is the failed assertion on the size, a signed 16-bit number.\<close>

definition rt_ringbuffer_init :: "8 word list \<Rightarrow> int \<Rightarrow> ringbuffer option" where
  "rt_ringbuffer_init pool sz =
     (if 0 < sz then
        Some \<lparr>buffer = pool, read_mirror = False, read_index = 0, write_mirror = False, write_index = 0,
          buffer_size = align_down4 sz\<rparr>
      else None)"

definition rt_ringbuffer_data_len :: "ringbuffer \<Rightarrow> int" where
  "rt_ringbuffer_data_len rb =
     (case rt_ringbuffer_status rb of
        RB_EMPTY \<Rightarrow> 0
      | RB_FULL \<Rightarrow> buffer_size rb
      | RB_HALFFULL \<Rightarrow>
          (if read_index rb < write_index rb then int (write_index rb) - int (read_index rb)
           else buffer_size rb - (int (read_index rb) - int (write_index rb))))"

definition rt_ringbuffer_space_len :: "ringbuffer \<Rightarrow> int" where
  "rt_ringbuffer_space_len rb = buffer_size rb - rt_ringbuffer_data_len rb"

text \<open>Copying \<open>n\<close> bytes of \<open>src\<close> from index \<open>k\<close> into the ring at index \<open>i\<close>.\<close>

definition copy_in :: "nat \<Rightarrow> 'a list \<Rightarrow> nat \<Rightarrow> nat \<Rightarrow> 'a list \<Rightarrow> 'a list option" where
  "copy_in i src k n pool =
     (if k + n \<le> length src \<and> i + n \<le> length pool
      then Some (take i pool @ take n (drop k src) @ drop (i + n) pool) else None)"

definition copy_out :: "'a list \<Rightarrow> nat \<Rightarrow> nat \<Rightarrow> 'a list option" where
  "copy_out pool i n = (if i + n \<le> length pool then Some (take n (drop i pool)) else None)"

text \<open>Storing \<open>len\<close> bytes at the write index, in one piece or around the end; the new mirror and index.\<close>

definition rb_store :: "8 word list \<Rightarrow> int \<Rightarrow> ringbuffer \<Rightarrow> ringbuffer option" where
  "rb_store ptr len rb =
     (let room = buffer_size rb - int (write_index rb)
      in if room > len then
           do {
             pool \<leftarrow> copy_in (write_index rb) ptr 0 (nat len) (buffer rb);
             Some (rb\<lparr>buffer := pool, write_index := i15 (int (write_index rb) + len)\<rparr>)
           }
         else
           do {
             pool \<leftarrow> copy_in (write_index rb) ptr 0 (nat room) (buffer rb);
             pool2 \<leftarrow> copy_in 0 ptr (nat room) (nat (len - room)) pool;
             Some (rb\<lparr>buffer := pool2, write_mirror := \<not> write_mirror rb, write_index := i15 (len - room)\<rparr>)
           })"

definition rt_ringbuffer_put :: "8 word list \<Rightarrow> nat \<Rightarrow> ringbuffer \<Rightarrow> (nat \<times> ringbuffer) option" where
  "rt_ringbuffer_put ptr len rb =
     (let sz = u16 (rt_ringbuffer_space_len rb)
      in if sz = 0 then Some (0, rb)
         else
           (let n = (if sz < len then sz else len)
            in map_option (Pair n) (rb_store ptr (int n) rb)))"

definition rt_ringbuffer_put_force :: "8 word list \<Rightarrow> nat \<Rightarrow> ringbuffer \<Rightarrow> (nat \<times> ringbuffer) option" where
  "rt_ringbuffer_put_force ptr len rb =
     (let space = u16 (rt_ringbuffer_space_len rb);
          (src, n) = (if int len > buffer_size rb then (drop (nat (int len - buffer_size rb)) ptr, u16 (buffer_size rb)) else (ptr, len));
          wraps = \<not> buffer_size rb - int (write_index rb) > int n
      in do {
           rb1 \<leftarrow> rb_store src (int n) rb;
           Some (n,
             if n > space then
               rb1\<lparr>read_mirror := (if wraps then \<not> read_mirror rb1 else read_mirror rb1), read_index := write_index rb1\<rparr>
             else rb1)
         })"

definition rt_ringbuffer_get :: "nat \<Rightarrow> ringbuffer \<Rightarrow> (8 word list \<times> ringbuffer) option" where
  "rt_ringbuffer_get len rb =
     (let sz = u32 (rt_ringbuffer_data_len rb)
      in if sz = 0 then Some ([], rb)
         else
           (let n = (if sz < len then u16 (int sz) else len);
                room = buffer_size rb - int (read_index rb)
            in if room > int n then
                 do {
                   xs \<leftarrow> copy_out (buffer rb) (read_index rb) n;
                   Some (xs, rb\<lparr>read_index := i15 (int (read_index rb) + int n)\<rparr>)
                 }
               else
                 do {
                   xs \<leftarrow> copy_out (buffer rb) (read_index rb) (nat room);
                   ys \<leftarrow> copy_out (buffer rb) 0 (nat (int n - room));
                   Some (xs @ ys, rb\<lparr>read_mirror := \<not> read_mirror rb, read_index := i15 (int n - room)\<rparr>)
                 }))"

text \<open>Advancing an index by one, flipping its mirror at the end.\<close>

definition rb_advance :: "ringbuffer \<Rightarrow> bool \<Rightarrow> nat \<Rightarrow> bool \<times> nat" where
  "rb_advance rb mirror index =
     (if int index = buffer_size rb - 1 then (\<not> mirror, 0) else (mirror, i15 (int index + 1)))"

definition rb_set :: "8 word \<Rightarrow> ringbuffer \<Rightarrow> ringbuffer option" where
  "rb_set ch rb =
     (if write_index rb < length (buffer rb) then
        (case rb_advance rb (write_mirror rb) (write_index rb) of (mirror, index) \<Rightarrow>
           Some (rb\<lparr>buffer := (buffer rb)[write_index rb := ch], write_mirror := mirror, write_index := index\<rparr>))
      else None)"

definition rt_ringbuffer_putchar :: "8 word \<Rightarrow> ringbuffer \<Rightarrow> (nat \<times> ringbuffer) option" where
  "rt_ringbuffer_putchar ch rb =
     (if rt_ringbuffer_space_len rb = 0 then Some (0, rb) else map_option (Pair 1) (rb_set ch rb))"

definition rt_ringbuffer_putchar_force :: "8 word \<Rightarrow> ringbuffer \<Rightarrow> (nat \<times> ringbuffer) option" where
  "rt_ringbuffer_putchar_force ch rb =
     do {
       rb1 \<leftarrow> rb_set ch rb;
       Some (1,
         if rt_ringbuffer_status rb = RB_FULL then
           rb1\<lparr>read_mirror := (if int (write_index rb) = buffer_size rb - 1 then \<not> read_mirror rb1 else read_mirror rb1),
             read_index := write_index rb1\<rparr>
         else rb1)
     }"

definition rt_ringbuffer_getchar :: "ringbuffer \<Rightarrow> (8 word option \<times> ringbuffer) option" where
  "rt_ringbuffer_getchar rb =
     (if rt_ringbuffer_data_len rb = 0 then Some (None, rb)
      else if read_index rb < length (buffer rb) then
        (case rb_advance rb (read_mirror rb) (read_index rb) of (mirror, index) \<Rightarrow>
           Some (Some (buffer rb ! read_index rb), rb\<lparr>read_mirror := mirror, read_index := index\<rparr>))
      else None)"

definition rt_ringbuffer_reset :: "ringbuffer \<Rightarrow> ringbuffer" where
  "rt_ringbuffer_reset rb = rb\<lparr>read_mirror := False, read_index := 0, write_mirror := False, write_index := 0\<rparr>"

text \<open>A ring on the heap: the control block (12 bytes) and the buffer, whose bytes are \<open>contents\<close>; the size, an
  unsigned 16-bit number, is passed on as a signed one. The addresses of the two blocks come with it.\<close>

definition s16of :: "nat \<Rightarrow> int" where
  "s16of n = (int n + 32768) mod 65536 - 32768"

definition rt_ringbuffer_create ::
  "addr \<Rightarrow> addr list \<Rightarrow> nat \<Rightarrow> mem \<Rightarrow> (mem \<times> (addr \<times> addr \<times> ringbuffer) option) option" where
  "rt_ringbuffer_create sys hs sz m =
     (if sz = 0 then None
      else
        (let sz' = u16 (align_down4 (int sz))
         in do {
           (rb, m1) \<leftarrow> rt_malloc sys hs 12 m;
           if rb = 0 then Some (m1, None)
           else do {
             (pool, m2) \<leftarrow> rt_malloc sys hs sz' m1;
             if pool = 0 then do { m3 \<leftarrow> rt_free rb m2; Some (m3, None) }
             else do {
               r \<leftarrow> rt_ringbuffer_init (map (\<lambda>i. bytes m2 (pool + i)) [0..<sz']) (s16of sz');
               Some (m2, Some (rb, pool, r))
             }
           }
         }))"

definition rt_ringbuffer_destroy :: "addr \<Rightarrow> addr \<Rightarrow> mem \<Rightarrow> mem option" where
  "rt_ringbuffer_destroy rb pool m = do { m1 \<leftarrow> rt_free pool m; rt_free rb m1 }"

section \<open>The invariant\<close>

definition rb_size :: "ringbuffer \<Rightarrow> nat" where
  "rb_size rb = nat (buffer_size rb)"

definition rb_count :: "ringbuffer \<Rightarrow> nat" where
  "rb_count rb = nat (rt_ringbuffer_data_len rb)"

definition rb_inv :: "ringbuffer \<Rightarrow> bool" where
  "rb_inv rb \<longleftrightarrow> 0 < buffer_size rb \<and> buffer_size rb < 32768 \<and> rb_size rb \<le> length (buffer rb) \<and>
     read_index rb < rb_size rb \<and> write_index rb < rb_size rb \<and>
     (if read_mirror rb = write_mirror rb then read_index rb \<le> write_index rb else write_index rb \<le> read_index rb)"

text \<open>The bytes in the ring, oldest first.\<close>

definition rb_abs :: "ringbuffer \<Rightarrow> 8 word list" where
  "rb_abs rb = ring_list (buffer rb) (rb_size rb) (read_index rb) (rb_count rb)"

lemma rb_abs_length [simp]: "length (rb_abs rb) = rb_count rb"
  by (simp add: rb_abs_def)

text \<open>The mirrors differ exactly when the run of bytes goes around the end.\<close>

lemma rb_invD:
  assumes "rb_inv rb"
  shows "0 < rb_size rb" "rb_size rb < 32768" "int (rb_size rb) = buffer_size rb" "rb_size rb \<le> length (buffer rb)"
    "read_index rb < rb_size rb" "rb_count rb \<le> rb_size rb" "rt_ringbuffer_data_len rb = int (rb_count rb)"
    "write_index rb = (read_index rb + rb_count rb) mod rb_size rb"
    "(read_mirror rb \<noteq> write_mirror rb) = (rb_size rb \<le> read_index rb + rb_count rb)"
    "rt_ringbuffer_space_len rb = int (rb_size rb - rb_count rb)" "write_index rb < rb_size rb"
proof -
  define n r w where "n = rb_size rb" and "r = read_index rb" and "w = write_index rb"
  have i: "0 < n" "n < 32768" "int n = buffer_size rb" "n \<le> length (buffer rb)" "r < n" "w < n"
    "if read_mirror rb = write_mirror rb then r \<le> w else w \<le> r"
    using assms by (auto simp: rb_inv_def n_def r_def w_def rb_size_def)
  have d: "rt_ringbuffer_data_len rb = int (if read_mirror rb = write_mirror rb then w - r else n - (r - w))"
    using i unfolding rt_ringbuffer_data_len_def rt_ringbuffer_status_def r_def [symmetric] w_def [symmetric] i(3) [symmetric]
    by (auto split: if_splits)
  then have c: "rb_count rb = (if read_mirror rb = write_mirror rb then w - r else n - (r - w))"
    by (simp add: rb_count_def)
  show "0 < rb_size rb" "rb_size rb < 32768" "int (rb_size rb) = buffer_size rb" "rb_size rb \<le> length (buffer rb)"
    "read_index rb < rb_size rb" "write_index rb < rb_size rb"
    using i by (simp_all add: n_def r_def w_def)
  show dl: "rt_ringbuffer_data_len rb = int (rb_count rb)" using c d by simp
  have "rb_count rb \<le> n \<and> (r + rb_count rb) mod n = w \<and> (read_mirror rb \<noteq> write_mirror rb) = (n \<le> r + rb_count rb)"
  proof (cases "read_mirror rb = write_mirror rb")
    case True
    then have "r \<le> w" "rb_count rb = w - r" using i(7) c by simp_all
    then have "r + rb_count rb = w" "rb_count rb \<le> n" using i(6) by simp_all
    then show ?thesis using i(6) True by simp
  next
    case False
    then have "w \<le> r" "rb_count rb = n - (r - w)" using i(7) c by simp_all
    then have "r + rb_count rb = w + n" "rb_count rb \<le> n" using i(5) by simp_all
    then show ?thesis using i(6) False by simp
  qed
  then have q: "rb_count rb \<le> n" "(r + rb_count rb) mod n = w" "(read_mirror rb \<noteq> write_mirror rb) = (n \<le> r + rb_count rb)"
    by blast+
  then show "rb_count rb \<le> rb_size rb" "write_index rb = (read_index rb + rb_count rb) mod rb_size rb"
    "(read_mirror rb \<noteq> write_mirror rb) = (rb_size rb \<le> read_index rb + rb_count rb)"
    by (simp_all add: n_def r_def w_def)
  show "rt_ringbuffer_space_len rb = int (rb_size rb - rb_count rb)"
    using q(1) dl i(3) by (simp add: rt_ringbuffer_space_len_def n_def of_nat_diff)
qed

lemma rb_invI:
  assumes "0 < n" "n < 32768" "buffer_size rb = int n" "n \<le> length (buffer rb)" "read_index rb < n" "c \<le> n"
    "write_index rb = (read_index rb + c) mod n" "(read_mirror rb \<noteq> write_mirror rb) = (n \<le> read_index rb + c)"
  shows "rb_inv rb" "rb_count rb = c" "rb_abs rb = ring_list (buffer rb) n (read_index rb) c"
proof -
  define r w where "r = read_index rb" and "w = write_index rb"
  have "rb_inv rb \<and> rt_ringbuffer_data_len rb = int c"
  proof (cases "read_mirror rb = write_mirror rb")
    case True
    then have rc: "r + c < n" using assms(8) by (simp add: r_def)
    then have w: "w = r + c" using assms(7) by (simp add: r_def w_def)
    have "rt_ringbuffer_data_len rb = int c"
      unfolding rt_ringbuffer_data_len_def rt_ringbuffer_status_def r_def [symmetric] w_def [symmetric] using True w by auto
    then show ?thesis using assms(1-5) True w rc by (simp add: rb_inv_def rb_size_def r_def [symmetric] w_def [symmetric])
  next
    case False
    then have rc: "n \<le> r + c" using assms(8) by (simp add: r_def)
    then have w: "w = r + c - n" using assms(5-7) by (simp add: r_def w_def le_mod_geq)
    then have "w \<le> r" "w = r \<longrightarrow> c = n" using assms(6) rc by arith+
    moreover have "int w = int r + int c - int n" using w rc by (simp add: of_nat_diff)
    ultimately have "rt_ringbuffer_data_len rb = int c"
      unfolding rt_ringbuffer_data_len_def rt_ringbuffer_status_def r_def [symmetric] w_def [symmetric] assms(3)
      using False by (cases "r = w") (simp_all add: not_less)
    then show ?thesis using assms(1-5) False w rc \<open>w \<le> r\<close> by (simp add: rb_inv_def rb_size_def r_def [symmetric] w_def [symmetric])
  qed
  then show "rb_inv rb" "rb_count rb = c" by (simp_all add: rb_count_def)
  then show "rb_abs rb = ring_list (buffer rb) n (read_index rb) c" using assms(3) by (simp add: rb_abs_def rb_size_def)
qed

section \<open>Storing a block\<close>

lemma i15_small [simp]: "n < 32768 \<Longrightarrow> i15 (int n) = n"
  by (simp add: i15_def)

lemma i15_eqI: "x = int n \<Longrightarrow> n < 32768 \<Longrightarrow> i15 x = n"
  by simp

lemma copy_in_Some: "k + n \<le> length src \<Longrightarrow> i + n \<le> length pool \<Longrightarrow>
    copy_in i src k n pool = Some (take i pool @ take n (drop k src) @ drop (i + n) pool)"
  by (simp add: copy_in_def)

lemma rb_store_spec:
  assumes "rb_inv rb" "len \<le> length ptr" "len \<le> rb_size rb"
  shows "rb_store ptr (int len) rb =
    Some (rb\<lparr>buffer := ring_store (buffer rb) (rb_size rb) (write_index rb) (take len ptr),
      write_mirror := (if rb_size rb \<le> write_index rb + len then \<not> write_mirror rb else write_mirror rb),
      write_index := (write_index rb + len) mod rb_size rb\<rparr>)"
proof -
  define n w xs where "n = rb_size rb" and "w = write_index rb" and "xs = buffer rb"
  have i: "0 < n" "n < 32768" "buffer_size rb = int n" "n \<le> length xs" "w < n"
    using rb_invD [OF assms(1)] by (simp_all add: n_def w_def xs_def)
  have ln: "len \<le> n" using assms(3) by (simp add: n_def)
  show ?thesis
  proof (cases "w + len < n")
    case True
    have ci: "copy_in w ptr 0 (nat (int len)) xs = Some (ring_store xs n w (take len ptr))"
      using assms(2) True i ring_store_piece [of w "take len ptr" n xs] by (simp add: copy_in_Some)
    have ix: "i15 (int w + int len) = (w + len) mod n" using True i by (intro i15_eqI) auto
    have b: "buffer_size rb - int (write_index rb) > int len" using True i by (simp add: w_def)
    show ?thesis using True b
      unfolding rb_store_def Let_def w_def [symmetric] xs_def [symmetric] ci Option.bind.simps ix n_def [symmetric] by simp
  next
    case False
    have r: "nat (int n - int w) = n - w" "nat (int len - (int n - int w)) = len - (n - w)" using i False by simp_all
    define p1 where "p1 = take w xs @ take (n - w) ptr @ drop n xs"
    have p1: "copy_in w ptr 0 (n - w) xs = Some p1"
      using assms(2) False i by (simp add: copy_in_Some p1_def)
    have "length p1 = length xs" using assms(2) False i by (simp add: p1_def)
    then have "copy_in 0 ptr (n - w) (len - (n - w)) p1 =
        Some (take (len - (n - w)) (drop (n - w) ptr) @ drop (len - (n - w)) p1)"
      using assms(2) ln False i by (simp add: copy_in_Some)
    moreover have "take (len - (n - w)) (drop (n - w) ptr) @ drop (len - (n - w)) p1 = ring_store xs n w (take len ptr)"
    proof -
      have L: "length (take len ptr) = len" using assms(2) by simp
      have "take (n - w) (take len ptr) = take (n - w) ptr" using False i by (simp add: min_absorb1)
      moreover have "take (len - (n - w)) (drop (n - w) (take len ptr)) = take (len - (n - w)) (drop (n - w) ptr)"
        by (simp add: drop_take)
      moreover have "n \<le> w + len" using False by simp
      ultimately show ?thesis using ring_store_pieces [of n w "take len ptr" xs, unfolded L] ln i by (simp only: p1_def)
    qed
    ultimately have p2: "copy_in 0 ptr (n - w) (len - (n - w)) p1 = Some (ring_store xs n w (take len ptr))" by simp
    have "(w + len) mod n = w + len - n" using False i ln by (simp add: le_mod_geq)
    then have ix: "i15 (int len - (int n - int w)) = (w + len) mod n" using False i ln by (intro i15_eqI) auto
    have b: "\<not> int n - int w > int len" using False by simp
    show ?thesis using False b
      unfolding rb_store_def Let_def w_def [symmetric] xs_def [symmetric] i(3) r p1 Option.bind.simps p2 ix n_def [symmetric] by simp
  qed
qed

text \<open>Storing what fits appends it.\<close>

lemma rb_append:
  assumes "rb_inv rb" "len \<le> length ptr" "rb_count rb + len \<le> rb_size rb"
  shows "\<exists>rb'. rb_store ptr (int len) rb = Some rb' \<and> rb_inv rb' \<and> rb_abs rb' = rb_abs rb @ take len ptr \<and>
    buffer_size rb' = buffer_size rb \<and> rb_count rb' = rb_count rb + len"
proof -
  note i = rb_invD [OF assms(1)]
  define n where "n = rb_size rb"
  define rb' where "rb' = rb\<lparr>buffer := ring_store (buffer rb) n (write_index rb) (take len ptr),
      write_mirror := (if n \<le> write_index rb + len then \<not> write_mirror rb else write_mirror rb),
      write_index := (write_index rb + len) mod n\<rparr>"
  have s: "rb_store ptr (int len) rb = Some rb'"
    unfolding rb'_def n_def by (rule rb_store_spec [OF assms(1,2)]) (use assms(3) in simp)
  have w: "write_index rb = (if read_index rb + rb_count rb < n then read_index rb + rb_count rb else read_index rb + rb_count rb - n)"
    using i(5,6,8) by (simp add: n_def le_mod_geq)
  have wi: "write_index rb' = (read_index rb' + (rb_count rb + len)) mod n"
    unfolding rb'_def using i(8) by (simp add: n_def mod_add_left_eq add.assoc)
  have m: "(read_mirror rb' \<noteq> write_mirror rb') = (n \<le> read_index rb' + (rb_count rb + len))"
    using i(5,6,9) assms(3) w unfolding rb'_def by (auto simp: n_def)
  have n: "0 < n" "n < 32768" "buffer_size rb' = int n" "n \<le> length (buffer rb')" "read_index rb' < n" "rb_count rb + len \<le> n"
    using i assms(3) by (simp_all add: rb'_def n_def)
  note v = rb_invI [OF n wi m]
  have "ring_list (buffer rb') n (read_index rb') (rb_count rb + len) = rb_abs rb @ take len ptr"
    using ring_list_store [of "rb_count rb" "take len ptr" n "buffer rb" "read_index rb"] i(4,8) assms(2,3)
    by (simp add: rb'_def rb_abs_def n_def)
  then show ?thesis using s v by (auto simp: rb'_def)
qed

lemma rb_space:
  assumes "rb_inv rb"
  shows "u16 (rt_ringbuffer_space_len rb) = rb_size rb - rb_count rb" "u32 (rt_ringbuffer_data_len rb) = rb_count rb"
proof -
  have "rb_size rb - rb_count rb < 65536" "rb_count rb < 4294967296" using rb_invD(2,6) [OF assms] by simp_all
  then show "u16 (rt_ringbuffer_space_len rb) = rb_size rb - rb_count rb" "u32 (rt_ringbuffer_data_len rb) = rb_count rb"
    unfolding rb_invD(7,10) [OF assms] by (simp_all only: u16_small u32_small)
qed

lemma rb_put_spec:
  assumes "rb_inv rb" "len \<le> length ptr"
  shows "\<exists>rb'. rt_ringbuffer_put ptr len rb = Some (min len (rb_size rb - rb_count rb), rb') \<and> rb_inv rb' \<and>
    rb_abs rb' = rb_abs rb @ take (rb_size rb - rb_count rb) (take len ptr) \<and> buffer_size rb' = buffer_size rb"
proof -
  define n where "n = (if rb_size rb - rb_count rb < len then rb_size rb - rb_count rb else len)"
  have n: "n = min len (rb_size rb - rb_count rb)" by (simp add: n_def min_def)
  show ?thesis
  proof (cases "rb_size rb - rb_count rb = 0")
    case True
    then have z: "u16 (rt_ringbuffer_space_len rb) = 0" using rb_space(1) [OF assms(1)] by simp
    show ?thesis unfolding rt_ringbuffer_put_def Let_def z True using assms(1) by simp
  next
    case False
    have "n \<le> length ptr" "rb_count rb + n \<le> rb_size rb" using assms(2) False by (auto simp: n_def)
    from rb_append [OF assms(1) this] obtain rb' where
      r: "rb_store ptr (int n) rb = Some rb'" "rb_inv rb'" "rb_abs rb' = rb_abs rb @ take n ptr" "buffer_size rb' = buffer_size rb"
      by blast
    moreover have "take n ptr = take (rb_size rb - rb_count rb) (take len ptr)" by (simp add: n min.commute)
    ultimately show ?thesis using False
      unfolding rt_ringbuffer_put_def Let_def rb_space(1) [OF assms(1)] n_def [symmetric] n [symmetric] by simp
  qed
qed

section \<open>Taking a block\<close>

lemma rb_get_spec:
  assumes "rb_inv rb"
  shows "\<exists>rb'. rt_ringbuffer_get len rb = Some (take len (rb_abs rb), rb') \<and> rb_inv rb' \<and> rb_abs rb' = drop len (rb_abs rb) \<and>
    buffer_size rb' = buffer_size rb"
proof (cases "rb_count rb = 0")
  case True
  then have "rb_abs rb = []" by (simp add: rb_abs_def ring_list_def)
  then show ?thesis using assms True rb_space [OF assms] by (simp add: rt_ringbuffer_get_def)
next
  case False
  note i = rb_invD [OF assms]
  define m r c xs where "m = rb_size rb" and "r = read_index rb" and "c = rb_count rb" and "xs = buffer rb"
  define n where "n = (if c < len then u16 (int c) else len)"
  have cm: "c \<le> m" "m < 32768" "r < m" "m \<le> length xs" "buffer_size rb = int m" using i by (simp_all add: c_def m_def r_def xs_def)
  then have n: "n = min len c" by (simp add: n_def min_def)
  then have nc: "n \<le> c" by simp
  have abs: "take len (rb_abs rb) = ring_list xs m r n" "drop len (rb_abs rb) = drop n (rb_abs rb)"
    by (simp_all add: rb_abs_def ring_list_take m_def r_def c_def xs_def n) (simp add: min_def)
  have dr: "drop n (rb_abs rb) = ring_list xs m ((r + n) mod m) (c - n)"
    by (simp add: rb_abs_def ring_list_drop m_def r_def c_def xs_def)
  define rb' where "rb' = rb\<lparr>read_mirror := (if m \<le> r + n then \<not> read_mirror rb else read_mirror rb), read_index := (r + n) mod m\<rparr>"
  have "(r + n) mod m = (if m \<le> r + n then r + n - m else r + n)" using cm nc by (simp add: le_mod_geq)
  then have rd: "read_index rb' = (if m \<le> r + n then r + n - m else r + n)" by (simp add: rb'_def)
  have "0 < m" "buffer_size rb' = int m" "m \<le> length (buffer rb')" "read_index rb' < m" "c - n \<le> m"
    using cm nc by (simp_all add: rb'_def xs_def)
  moreover have "write_index rb' = (read_index rb' + (c - n)) mod m"
  proof -
    have "(read_index rb' + (c - n)) mod m = (r + n + (c - n)) mod m" by (simp add: rb'_def mod_add_left_eq)
    also have "\<dots> = write_index rb" using nc i(8) by (simp add: r_def c_def m_def)
    finally show ?thesis by (simp add: rb'_def)
  qed
  moreover have "(read_mirror rb' \<noteq> write_mirror rb') = (m \<le> read_index rb' + (c - n))"
  proof -
    have w: "(read_mirror rb \<noteq> write_mirror rb) = (m \<le> r + c)" using i(9) by (simp add: m_def r_def c_def)
    show ?thesis
    proof (cases "m \<le> r + n")
      case True
      then have "read_index rb' + (c - n) = r + c - m" "r + c - m < m" "m \<le> r + c" using rd nc cm by simp_all
      then show ?thesis using True w by (auto simp: rb'_def)
    next
      case False
      then have "read_index rb' + (c - n) = r + c" using rd nc by simp
      then show ?thesis using False w by (simp add: rb'_def)
    qed
  qed
  ultimately have v: "rb_inv rb'" "rb_abs rb' = ring_list (buffer rb') m (read_index rb') (c - n)"
    using rb_invI [of m rb' "c - n"] cm(2) by blast+
  have "rt_ringbuffer_get len rb = Some (ring_list xs m r n, rb')"
  proof (cases "m \<le> r + n")
    case False
    then have b: "int m - int r > int n" by simp
    have co: "copy_out xs r n = Some (ring_list xs m r n)"
      using False cm ring_list_piece [of r n m xs] by (simp add: copy_out_def)
    have ix: "i15 (int r + int n) = (r + n) mod m" using False cm by (intro i15_eqI) auto
    have nz: "u32 (rt_ringbuffer_data_len rb) \<noteq> 0" "u32 (rt_ringbuffer_data_len rb) = c" using \<open>rb_count rb \<noteq> 0\<close> rb_space [OF assms] by (simp_all add: c_def)
    show ?thesis using b False nz(1)
      unfolding rt_ringbuffer_get_def Let_def nz(2) n_def [symmetric] cm(5) r_def [symmetric] xs_def [symmetric] co Option.bind.simps ix
      by (simp add: rb'_def)
  next
    case True
    then have b: "\<not> int m - int r > int n" by simp
    have e: "nat (int m - int r) = m - r" "nat (int n - (int m - int r)) = n - (m - r)" using True cm by simp_all
    have co: "copy_out xs r (m - r) = Some (take (m - r) (drop r xs))" "copy_out xs 0 (n - (m - r)) = Some (take (n - (m - r)) xs)"
      using True cm nc by (simp_all add: copy_out_def)
    have p: "ring_list xs m r n = take (m - r) (drop r xs) @ take (n - (m - r)) xs"
      by (rule ring_list_pieces) (use True cm nc in auto)
    have "(r + n) mod m = r + n - m" using True cm nc by (simp add: le_mod_geq)
    then have ix: "i15 (int n - (int m - int r)) = (r + n) mod m" using True cm nc by (intro i15_eqI) auto
    have nz: "u32 (rt_ringbuffer_data_len rb) \<noteq> 0" "u32 (rt_ringbuffer_data_len rb) = c" using \<open>rb_count rb \<noteq> 0\<close> rb_space [OF assms] by (simp_all add: c_def)
    show ?thesis using b True nz(1)
      unfolding rt_ringbuffer_get_def Let_def nz(2) n_def [symmetric] cm(5) r_def [symmetric] xs_def [symmetric] e co Option.bind.simps ix p
      by (simp add: rb'_def)
  qed
  then show ?thesis using v abs dr by (intro exI [of _ rb']) (simp add: rb'_def xs_def)
qed

section \<open>Overwriting\<close>

lemma rb_overwrite:
  assumes "rb_inv rb" "n \<le> length src" "n \<le> rb_size rb" "rb_size rb < rb_count rb + n"
  defines "wraps \<equiv> rb_size rb \<le> write_index rb + n"
  shows "\<exists>rb1. rb_store src (int n) rb = Some rb1 \<and> buffer_size rb1 = buffer_size rb \<and>
    (\<forall>rb'. rb' = rb1\<lparr>read_mirror := (if wraps then \<not> read_mirror rb1 else read_mirror rb1), read_index := write_index rb1\<rparr> \<longrightarrow>
      rb_inv rb' \<and> rb_abs rb' = (if read_mirror rb = write_mirror rb then [] else drop (rb_count rb + n - rb_size rb) (rb_abs rb @ take n src)))"
proof -
  note i = rb_invD [OF assms(1)]
  define m where "m = rb_size rb"
  define rb1 where "rb1 = rb\<lparr>buffer := ring_store (buffer rb) m (write_index rb) (take n src),
      write_mirror := (if m \<le> write_index rb + n then \<not> write_mirror rb else write_mirror rb),
      write_index := (write_index rb + n) mod m\<rparr>"
  have s: "rb_store src (int n) rb = Some rb1"
    unfolding rb1_def m_def by (rule rb_store_spec [OF assms(1-3)])
  define rb' where "rb' = rb1\<lparr>read_mirror := (if wraps then \<not> read_mirror rb1 else read_mirror rb1), read_index := write_index rb1\<rparr>"
  define w' where "w' = (write_index rb + n) mod m"
  have m: "0 < m" "m < 32768" "buffer_size rb = int m" "m \<le> length (buffer rb)" "n \<le> m" "m < rb_count rb + n" "rb_count rb \<le> m"
    using i assms(3,4) by (simp_all add: m_def)
  have mir: "(read_mirror rb' \<noteq> write_mirror rb') = (read_mirror rb \<noteq> write_mirror rb)"
    by (auto simp: rb'_def rb1_def wraps_def m_def)
  have f: "buffer_size rb' = int m" "m \<le> length (buffer rb')" "read_index rb' = w'" "write_index rb' = w'" "w' < m"
    using m by (simp_all add: rb'_def rb1_def w'_def)
  have "rb_inv rb' \<and> rb_abs rb' = (if read_mirror rb = write_mirror rb then [] else drop (rb_count rb + n - m) (rb_abs rb @ take n src))"
  proof (cases "read_mirror rb = write_mirror rb")
    case True
    have "0 \<le> m" "write_index rb' = (read_index rb' + 0) mod m" "(read_mirror rb' \<noteq> write_mirror rb') = (m \<le> read_index rb' + 0)"
      using f mir True by simp_all
    from rb_invI [OF m(1,2) f(1,2) _ this] f(3,5) have v: "rb_inv rb'" "rb_count rb' = 0" by auto
    then have "rb_abs rb' = []" by (simp add: rb_abs_def ring_list_def)
    then show ?thesis using v(1) True by simp
  next
    case False
    have "m \<le> m" "write_index rb' = (read_index rb' + m) mod m" "(read_mirror rb' \<noteq> write_mirror rb') = (m \<le> read_index rb' + m)"
      using f mir False by simp_all
    from rb_invI [OF m(1,2) f(1,2) _ this] f(3,5) have v: "rb_inv rb'" "rb_abs rb' = ring_list (buffer rb') m w' m" by auto
    have L: "length (take n src) = n" using assms(2) by simp
    have wb: "(w' + (m - n)) mod m = write_index rb"
    proof -
      have "(w' + (m - n)) mod m = (write_index rb + n + (m - n)) mod m" by (simp add: w'_def mod_add_left_eq)
      also have "\<dots> = write_index rb" using m(5) i(11) by (simp add: m_def)
      finally show ?thesis .
    qed
    have "ring_list (ring_store (buffer rb) m ((w' + (m - n)) mod m) (take n src)) m w' (m - n + length (take n src)) =
        ring_list (buffer rb) m w' (m - n) @ take n src"
      by (rule ring_list_store) (use m L in simp_all)
    then have a: "rb_abs rb' = ring_list (buffer rb) m w' (m - n) @ take n src"
      using v(2) m(5) unfolding wb L by (simp add: rb'_def rb1_def)
    have "(read_index rb + (rb_count rb + n - m)) mod m = w'"
    proof -
      have "w' = (read_index rb + rb_count rb + n) mod m" using i(8) by (simp add: w'_def m_def mod_add_left_eq)
      also have "read_index rb + rb_count rb + n = read_index rb + (rb_count rb + n - m) + m" using m(6) by simp
      finally show ?thesis by simp
    qed
    moreover have "rb_count rb - (rb_count rb + n - m) = m - n" using m by simp
    ultimately have "drop (rb_count rb + n - m) (rb_abs rb) = ring_list (buffer rb) m w' (m - n)"
      using ring_list_drop [of "buffer rb" m "read_index rb" "rb_count rb + n - m" "rb_count rb"] by (simp add: rb_abs_def m_def)
    moreover have "rb_count rb + n - m \<le> rb_count rb" using m by simp
    ultimately have "rb_abs rb' = drop (rb_count rb + n - m) (rb_abs rb @ take n src)" using a by simp
    then show ?thesis using v(1) False by simp
  qed
  then have v: "rb_inv rb'" "rb_abs rb' = (if read_mirror rb = write_mirror rb then [] else drop (rb_count rb + n - rb_size rb) (rb_abs rb @ take n src))"
    by (simp_all add: m_def)
  show ?thesis
  proof (intro exI [of _ rb1] conjI allI impI)
    show "rb_store src (int n) rb = Some rb1" by (rule s)
    show "buffer_size rb1 = buffer_size rb" by (simp add: rb1_def)
    fix x assume "x = rb1\<lparr>read_mirror := (if wraps then \<not> read_mirror rb1 else read_mirror rb1), read_index := write_index rb1\<rparr>"
    then have "x = rb'" by (simp only: rb'_def)
    then show "rb_inv x" "rb_abs x = (if read_mirror rb = write_mirror rb then [] else drop (rb_count rb + n - rb_size rb) (rb_abs rb @ take n src))"
      using v by simp_all
  qed
qed

lemma rb_force_spec:
  assumes "rb_inv rb" "len \<le> length ptr" "len < 65536"
  shows "\<exists>rb'. rt_ringbuffer_put_force ptr len rb = Some (min len (rb_size rb), rb') \<and> rb_inv rb' \<and> buffer_size rb' = buffer_size rb \<and>
    rb_abs rb' = (if rb_size rb < rb_count rb + min len (rb_size rb) \<and> read_mirror rb = write_mirror rb then []
      else drop (rb_count rb + len - rb_size rb) (rb_abs rb @ take len ptr))"
proof -
  note i = rb_invD [OF assms(1)]
  define m where "m = rb_size rb"
  have m: "0 < m" "m < 32768" "buffer_size rb = int m" "rb_count rb \<le> m" using i by (simp_all add: m_def)
  define n src where "n = min len m" and "src = drop (len - m) ptr"
  have ns: "(if int len > buffer_size rb then (drop (nat (int len - buffer_size rb)) ptr, u16 (buffer_size rb)) else (ptr, len)) = (src, n)"
    using m by (auto simp: n_def src_def nat_diff_distrib)
  have l: "n \<le> length src" "n \<le> m" using assms(2) by (auto simp: n_def src_def)
  have dd: "drop (rb_count rb + n - m) (rb_abs rb @ take n src) = drop (rb_count rb + len - m) (rb_abs rb @ take len ptr)"
  proof (cases "len \<le> m")
    case True
    then show ?thesis by (simp add: n_def src_def)
  next
    case False
    then have "n = m" "src = drop (len - m) ptr" "take n src = drop (len - m) (take len ptr)"
      using assms(2) by (simp_all add: n_def src_def drop_take)
    then show ?thesis using False by simp
  qed
  have wr': "(int n < buffer_size rb - int (write_index rb)) = (\<not> rb_size rb \<le> write_index rb + n)"
    using m by (auto simp: m_def)
  have sp: "u16 (rt_ringbuffer_space_len rb) = m - rb_count rb" using rb_space(1) [OF assms(1)] by (simp add: m_def)
  show ?thesis
  proof (cases "rb_count rb + n \<le> m")
    case True
    then have b: "\<not> n > m - rb_count rb" "\<not> m < rb_count rb + n" using m by auto
    from rb_append [OF assms(1) l(1)] True obtain rb' where
      r: "rb_store src (int n) rb = Some rb'" "rb_inv rb'" "rb_abs rb' = rb_abs rb @ take n src" "buffer_size rb' = buffer_size rb"
      by (auto simp: m_def)
    have "rb_abs rb' = drop (rb_count rb + len - m) (rb_abs rb @ take len ptr)" using r(3) dd True by simp
    then show ?thesis using r b unfolding rt_ringbuffer_put_force_def Let_def ns sp n_def [symmetric] m_def [symmetric] by simp
  next
    case False
    then have b: "n > m - rb_count rb" "m < rb_count rb + n" using m by auto
    from rb_overwrite [OF assms(1) l(1)] l(2) False obtain rb1 where
      r: "rb_store src (int n) rb = Some rb1" "buffer_size rb1 = buffer_size rb"
      "\<forall>rb'. rb' = rb1\<lparr>read_mirror := (if rb_size rb \<le> write_index rb + n then \<not> read_mirror rb1 else read_mirror rb1), read_index := write_index rb1\<rparr> \<longrightarrow>
      rb_inv rb' \<and> rb_abs rb' = (if read_mirror rb = write_mirror rb then [] else drop (rb_count rb + n - rb_size rb) (rb_abs rb @ take n src))"
      by (auto simp: m_def)
    define rb' where "rb' = rb1\<lparr>read_mirror := (if rb_size rb \<le> write_index rb + n then \<not> read_mirror rb1 else read_mirror rb1), read_index := write_index rb1\<rparr>"
    have v: "rb_inv rb'" "rb_abs rb' = (if read_mirror rb = write_mirror rb then [] else drop (rb_count rb + n - m) (rb_abs rb @ take n src))"
      using r(3) rb'_def by (auto simp: m_def)
    have "rt_ringbuffer_put_force ptr len rb = Some (n, rb')"
      using r(1) b(1) wr' unfolding rt_ringbuffer_put_force_def Let_def ns sp by (simp add: rb'_def)
    then show ?thesis using v(1) v(2) [unfolded dd] b(2) r(2) unfolding n_def [symmetric] m_def [symmetric] by (intro exI [of _ rb']) (simp add: rb'_def)
  qed
qed

section \<open>Single bytes\<close>

text \<open>The operations on one byte are the block operations on a block of one byte.\<close>

lemma rb_set_store:
  assumes "rb_inv rb"
  shows "rb_set ch rb = rb_store [ch] 1 rb"
proof -
  note i = rb_invD [OF assms]
  have w: "write_index rb < length (buffer rb)" "int (write_index rb) < buffer_size rb" "write_index rb < 32768"
    using i(2-4,11) by simp_all
  have c: "copy_in (write_index rb) [ch] 0 1 (buffer rb) = Some ((buffer rb)[write_index rb := ch])"
    using w(1) by (simp add: copy_in_def upd_conv_take_nth_drop)
  show ?thesis
  proof (cases "int (write_index rb) = buffer_size rb - 1")
    case True
    then have r: "buffer_size rb - int (write_index rb) = 1" by simp
    have "copy_in 0 [ch] 1 0 xs = Some xs" for xs by (simp add: copy_in_def)
    then show ?thesis using True w(1) c unfolding rb_set_def rb_advance_def rb_store_def Let_def r by (simp add: i15_def)
  next
    case False
    then have r: "buffer_size rb - int (write_index rb) > 1" using w(2) by simp
    then show ?thesis using False w(1) c unfolding rb_set_def rb_advance_def rb_store_def Let_def by simp
  qed
qed

lemma putchar_eq_put:
  assumes "rb_inv rb"
  shows "rt_ringbuffer_putchar ch rb = rt_ringbuffer_put [ch] 1 rb"
proof (cases "rb_count rb = rb_size rb")
  case True
  then show ?thesis using rb_space(1) [OF assms] rb_invD(10) [OF assms]
    by (simp add: rt_ringbuffer_putchar_def rt_ringbuffer_put_def)
next
  case False
  then have "rb_size rb - rb_count rb \<noteq> 0" using rb_invD(6) [OF assms] by simp
  then have "\<not> rb_size rb - rb_count rb < 1" "rt_ringbuffer_space_len rb \<noteq> 0" using rb_invD(10) [OF assms] by simp_all
  then show ?thesis using rb_set_store [OF assms]
    unfolding rt_ringbuffer_putchar_def rt_ringbuffer_put_def Let_def rb_space(1) [OF assms] by simp
qed

lemma getchar_eq_get:
  assumes "rb_inv rb"
  shows "rt_ringbuffer_getchar rb = map_option (\<lambda>(xs, rb'). (case xs of [] \<Rightarrow> None | x # _ \<Rightarrow> Some x, rb')) (rt_ringbuffer_get 1 rb)"
proof (cases "rb_count rb = 0")
  case True
  then show ?thesis using rb_space(2) [OF assms] rb_invD(7) [OF assms]
    by (simp add: rt_ringbuffer_getchar_def rt_ringbuffer_get_def)
next
  case False
  note i = rb_invD [OF assms]
  have r: "read_index rb < length (buffer rb)" "int (read_index rb) < buffer_size rb" "read_index rb < 32768"
    using i(2-5) by simp_all
  have c: "copy_out (buffer rb) (read_index rb) 1 = Some [buffer rb ! read_index rb]"
    using r(1) by (simp add: copy_out_def take_Suc hd_drop_conv_nth)
  have d: "rt_ringbuffer_data_len rb \<noteq> 0" "\<not> rb_count rb < 1" using i(7) False by simp_all
  show ?thesis
  proof (cases "int (read_index rb) = buffer_size rb - 1")
    case True
    then have rm: "buffer_size rb - int (read_index rb) = 1" by simp
    have "copy_out (buffer rb) 0 0 = Some []" by (simp add: copy_out_def)
    then show ?thesis using True r(1) c d
      unfolding rt_ringbuffer_getchar_def rt_ringbuffer_get_def rb_advance_def Let_def rm rb_space(2) [OF assms]
      by (simp add: i15_def)
  next
    case False
    then have "buffer_size rb - int (read_index rb) > 1" using r(2) by simp
    then show ?thesis using False r(1) c d
      unfolding rt_ringbuffer_getchar_def rt_ringbuffer_get_def rb_advance_def Let_def rb_space(2) [OF assms] by simp
  qed
qed

text \<open>The byte ring as a bounded queue.\<close>

definition rb_putc :: "8 word \<Rightarrow> ringbuffer \<Rightarrow> ringbuffer option" where
  "rb_putc ch rb = (case rt_ringbuffer_putchar ch rb of Some (n, rb') \<Rightarrow> (if n = 1 then Some rb' else None) | None \<Rightarrow> None)"

definition rb_getc :: "ringbuffer \<Rightarrow> (8 word \<times> ringbuffer) option" where
  "rb_getc rb = (case rt_ringbuffer_getchar rb of Some (Some c, rb') \<Rightarrow> Some (c, rb') | _ \<Rightarrow> None)"

lemma rb_putc_spec:
  assumes "rb_inv rb"
  shows "if rb_count rb < rb_size rb then \<exists>rb'. rb_putc ch rb = Some rb' \<and> rb_inv rb' \<and> rb_abs rb' = rb_abs rb @ [ch] \<and> rb_size rb' = rb_size rb
    else rb_putc ch rb = None"
proof -
  obtain rb' where r: "rt_ringbuffer_put [ch] 1 rb = Some (min 1 (rb_size rb - rb_count rb), rb')" "rb_inv rb'"
    "rb_abs rb' = rb_abs rb @ take (rb_size rb - rb_count rb) (take 1 [ch])" "buffer_size rb' = buffer_size rb"
    using rb_put_spec [OF assms, of 1 "[ch]"] by auto
  show ?thesis
  proof (cases "rb_count rb < rb_size rb")
    case True
    then have "min 1 (rb_size rb - rb_count rb) = 1" "take (rb_size rb - rb_count rb) [ch] = [ch]" by (simp_all add: min_def)
    then show ?thesis using True r by (simp add: rb_putc_def putchar_eq_put [OF assms] rb_size_def)
  next
    case False
    then show ?thesis using r by (simp add: rb_putc_def putchar_eq_put [OF assms])
  qed
qed

lemma rb_getc_spec:
  assumes "rb_inv rb"
  shows "case rb_abs rb of [] \<Rightarrow> rb_getc rb = None
    | x # xs \<Rightarrow> \<exists>rb'. rb_getc rb = Some (x, rb') \<and> rb_inv rb' \<and> rb_abs rb' = xs \<and> rb_size rb' = rb_size rb"
proof -
  obtain rb' where r: "rt_ringbuffer_get 1 rb = Some (take 1 (rb_abs rb), rb')" "rb_inv rb'"
    "rb_abs rb' = drop 1 (rb_abs rb)" "buffer_size rb' = buffer_size rb"
    using rb_get_spec [OF assms, of 1] by auto
  show ?thesis using r by (cases "rb_abs rb") (simp_all add: rb_getc_def getchar_eq_get [OF assms] rb_size_def)
qed

interpretation rbq: bounded_queue rb_inv rb_abs rb_size "\<lambda>_ _. True" rb_putc rb_getc
proof unfold_locales
  fix rb ch assume i: "rb_inv rb"
  show "length (rb_abs rb) \<le> rb_size rb" using rb_invD(6) [OF i] by simp
  show "rb_putc ch rb = None" if "length (rb_abs rb) = rb_size rb" using rb_putc_spec [OF i, of ch] that by simp
  show "\<exists>s'. rb_putc ch rb = Some s' \<and> rb_inv s' \<and> rb_abs s' = rb_abs rb @ [ch] \<and> rb_size s' = rb_size rb \<and> (\<lambda>_. True) = (\<lambda>_. True)"
    if "length (rb_abs rb) < rb_size rb" using rb_putc_spec [OF i, of ch] that by simp
  show "rb_getc rb = None" if "rb_abs rb = []" using rb_getc_spec [OF i] that by simp
  show "\<exists>s'. rb_getc rb = Some (x, s') \<and> rb_inv s' \<and> rb_abs s' = xs \<and> rb_size s' = rb_size rb \<and> (\<lambda>_. True) = (\<lambda>_. True)"
    if "rb_abs rb = x # xs" for x xs using rb_getc_spec [OF i] that by simp
qed

text \<open>A forced byte into a full ring drops the oldest one only.\<close>

lemma putchar_force_spec':
  assumes "rb_inv rb"
  shows "\<exists>rb'. rt_ringbuffer_putchar_force ch rb = Some (1, rb') \<and> rb_inv rb' \<and> buffer_size rb' = buffer_size rb \<and>
    rb_abs rb' = (if rb_count rb = rb_size rb then drop 1 (rb_abs rb) else rb_abs rb) @ [ch]"
proof (cases "rb_count rb = rb_size rb")
  case False
  note i = rb_invD [OF assms]
  from False obtain rb' where r: "rb_store [ch] 1 rb = Some rb'" "rb_inv rb'" "rb_abs rb' = rb_abs rb @ [ch]"
    "buffer_size rb' = buffer_size rb"
    using rb_append [OF assms, of 1 "[ch]"] i(6) by auto
  have "rt_ringbuffer_status rb \<noteq> RB_FULL"
  proof
    assume "rt_ringbuffer_status rb = RB_FULL"
    then have "rt_ringbuffer_data_len rb = buffer_size rb" by (simp add: rt_ringbuffer_data_len_def)
    then show False using False by (simp add: rb_count_def rb_size_def)
  qed
  then show ?thesis using r False by (simp add: rt_ringbuffer_putchar_force_def rb_set_store [OF assms])
next
  case True
  note i = rb_invD [OF assms]
  have mir: "read_mirror rb \<noteq> write_mirror rb" using i(9) True by simp
  have rw: "read_index rb = write_index rb" using i(5,8) True by simp
  then have full: "rt_ringbuffer_status rb = RB_FULL" using mir by (simp add: rt_ringbuffer_status_def)
  have w: "(rb_size rb \<le> write_index rb + 1) = (int (write_index rb) = buffer_size rb - 1)"
    using i(3,11) by auto
  then have w': "(rb_size rb \<le> Suc (write_index rb)) = (int (write_index rb) = buffer_size rb - 1)" by simp
  obtain rb1 where
    r: "rb_store [ch] 1 rb = Some rb1" "buffer_size rb1 = buffer_size rb"
    "\<forall>rb'. rb' = rb1\<lparr>read_mirror := (if rb_size rb \<le> write_index rb + 1 then \<not> read_mirror rb1 else read_mirror rb1), read_index := write_index rb1\<rparr> \<longrightarrow>
      rb_inv rb' \<and> rb_abs rb' = drop (rb_count rb + 1 - rb_size rb) (rb_abs rb @ [ch])"
    using rb_overwrite [OF assms, of 1 "[ch]"] True i(1) mir by auto
  define rb' where "rb' = rb1\<lparr>read_mirror := (if rb_size rb \<le> write_index rb + 1 then \<not> read_mirror rb1 else read_mirror rb1), read_index := write_index rb1\<rparr>"
  have v: "rb_inv rb'" "rb_abs rb' = drop 1 (rb_abs rb @ [ch])" using r(3) rb'_def True by auto
  have "rt_ringbuffer_putchar_force ch rb = Some (1, rb')"
    using r(1) full by (simp add: rt_ringbuffer_putchar_force_def rb_set_store [OF assms] rb'_def w')
  moreover have "drop 1 (rb_abs rb @ [ch]) = drop 1 (rb_abs rb) @ [ch]" using True i(1) by (simp add: Suc_le_eq)
  ultimately show ?thesis using v True r(2) by (intro exI [of _ rb']) (simp add: rb'_def)
qed

section \<open>Histories\<close>

text \<open>A history of block and byte operations: the bytes accepted, the bytes handed out, the final ring.\<close>

datatype rbop = RPut "8 word list" | RPutc "8 word" | RGet nat | RGetc

fun rb_do :: "rbop \<Rightarrow> ringbuffer \<Rightarrow> (8 word list \<times> 8 word list \<times> ringbuffer) option" where
  "rb_do (RPut xs) rb = map_option (\<lambda>(n, rb'). (take n xs, [], rb')) (rt_ringbuffer_put xs (length xs) rb)"
| "rb_do (RPutc ch) rb = map_option (\<lambda>(n, rb'). (take n [ch], [], rb')) (rt_ringbuffer_putchar ch rb)"
| "rb_do (RGet n) rb = map_option (\<lambda>(ys, rb'). ([], ys, rb')) (rt_ringbuffer_get n rb)"
| "rb_do RGetc rb = map_option (\<lambda>(c, rb'). ([], case c of None \<Rightarrow> [] | Some x \<Rightarrow> [x], rb')) (rt_ringbuffer_getchar rb)"

fun rb_history :: "rbop list \<Rightarrow> ringbuffer \<Rightarrow> (8 word list \<times> 8 word list \<times> ringbuffer) option" where
  "rb_history [] rb = Some ([], [], rb)"
| "rb_history (op # ops) rb =
     do {
       (a, b, rb1) \<leftarrow> rb_do op rb;
       (ins, outs, rb2) \<leftarrow> rb_history ops rb1;
       Some (a @ ins, b @ outs, rb2)
     }"

lemma rb_do_spec:
  assumes "rb_inv rb"
  shows "\<exists>a b rb'. rb_do op rb = Some (a, b, rb') \<and> rb_inv rb' \<and> rb_abs rb @ a = b @ rb_abs rb' \<and> buffer_size rb' = buffer_size rb"
proof (cases op)
  case (RPut xs)
  show ?thesis using rb_put_spec [OF assms, of "length xs" xs] RPut
    by (auto simp: min_def intro: take_all)
next
  case (RPutc ch)
  show ?thesis using rb_put_spec [OF assms, of 1 "[ch]"] RPutc
    by (auto simp: putchar_eq_put [OF assms] min_def not_le intro: take_all)
next
  case (RGet n)
  show ?thesis using rb_get_spec [OF assms, of n] RGet by auto
next
  case RGetc
  obtain rb' where r: "rt_ringbuffer_get 1 rb = Some (take 1 (rb_abs rb), rb')" "rb_inv rb'"
    "rb_abs rb' = drop 1 (rb_abs rb)" "buffer_size rb' = buffer_size rb"
    using rb_get_spec [OF assms, of 1] by auto
  then show ?thesis using RGetc by (cases "rb_abs rb") (simp_all add: getchar_eq_get [OF assms])
qed

lemma rb_history_spec:
  "rb_inv rb \<Longrightarrow> \<exists>ins outs rb'. rb_history ops rb = Some (ins, outs, rb') \<and> rb_inv rb' \<and> rb_abs rb @ ins = outs @ rb_abs rb' \<and>
    buffer_size rb' = buffer_size rb"
proof (induction ops arbitrary: rb)
  case Nil
  then show ?case by simp
next
  case (Cons op ops)
  obtain a b rb1 where o: "rb_do op rb = Some (a, b, rb1)" "rb_inv rb1" "rb_abs rb @ a = b @ rb_abs rb1" "buffer_size rb1 = buffer_size rb"
    using rb_do_spec [OF Cons.prems] by blast
  obtain ins outs rb2 where h: "rb_history ops rb1 = Some (ins, outs, rb2)" "rb_inv rb2" "rb_abs rb1 @ ins = outs @ rb_abs rb2"
    "buffer_size rb2 = buffer_size rb1"
    using Cons.IH [OF o(2)] by blast
  have "rb_abs rb @ a @ ins = b @ outs @ rb_abs rb2" using o(3) h(3) by (metis append.assoc)
  then show ?case using o h by simp
qed

section \<open>Rings as they are made\<close>

lemma align_down4_div: "align_down4 x = x div 4 * 4"
proof -
  have 3: "(3 :: int) = mask 2" by (simp add: mask_eq_exp_minus_1)
  have s: "2 \<le> n \<Longrightarrow> Suc (Suc (n - 2)) = n" for n :: nat by simp
  have "x AND NOT 3 = push_bit 2 (drop_bit 2 x)"
    unfolding 3 by (rule bit_eqI) (auto simp: bit_push_bit_iff bit_drop_bit_eq bit_and_iff bit_not_iff bit_mask_iff s)
  then show ?thesis by (simp add: align_down4_def push_bit_eq_mult drop_bit_eq_div)
qed

lemma rb_init_spec:
  assumes "4 \<le> sz" "sz < 32768" "nat sz \<le> length pool"
  shows "\<exists>rb. rt_ringbuffer_init pool sz = Some rb \<and> rb_inv rb \<and> rb_abs rb = [] \<and> rb_size rb = nat (sz div 4 * 4)"
proof -
  define rb where "rb = \<lparr>buffer = pool, read_mirror = False, read_index = 0, write_mirror = False, write_index = 0,
          buffer_size = sz div 4 * 4\<rparr>"
  have d: "0 < sz div 4 * 4" "sz div 4 * 4 \<le> sz" using assms(1) by simp_all
  have "rt_ringbuffer_init pool sz = Some rb" using assms(1) by (simp add: rt_ringbuffer_init_def align_down4_div rb_def)
  moreover have "rb_inv rb" using d assms(2,3) by (simp add: rb_inv_def rb_size_def rb_def)
  moreover have "rb_count rb = 0" by (simp add: rb_count_def rt_ringbuffer_data_len_def rt_ringbuffer_status_def rb_def)
  ultimately show ?thesis by (auto simp: rb_abs_def ring_list_def rb_size_def rb_def)
qed

lemma rb_reset_spec:
  assumes "rb_inv rb"
  shows "rb_inv (rt_ringbuffer_reset rb)" "rb_abs (rt_ringbuffer_reset rb) = []" "buffer_size (rt_ringbuffer_reset rb) = buffer_size rb"
proof -
  have c: "rb_count (rt_ringbuffer_reset rb) = 0"
    by (simp add: rb_count_def rt_ringbuffer_data_len_def rt_ringbuffer_status_def rt_ringbuffer_reset_def)
  then show "rb_abs (rt_ringbuffer_reset rb) = []" by (simp add: rb_abs_def ring_list_def)
  show "rb_inv (rt_ringbuffer_reset rb)" "buffer_size (rt_ringbuffer_reset rb) = buffer_size rb"
    using assms by (auto simp: rb_inv_def rt_ringbuffer_reset_def rb_size_def)
qed

text \<open>What \<^verbatim>\<open>rt_ringbuffer_create\<close> can hand out: it aligns the size to a multiple of 4 first, and passes it on as a
  signed 16-bit number, so a size below 4 and one from 32768 on end in the assertion of the initialisation.\<close>

lemma rb_create_spec:
  assumes "rt_ringbuffer_create sys hs sz m = Some (m', Some (b, pool, rb))" "sz < 65536"
  shows "4 \<le> sz" "sz < 32768" "rb_inv rb" "rb_abs rb = []" "rb_size rb = sz div 4 * 4" "length (buffer rb) = rb_size rb"
proof -
  define a where "a = sz div 4 * 4"
  have al: "a \<le> sz" "a mod 4 = 0" by (simp_all add: a_def)
  have u: "u16 (align_down4 (int sz)) = a"
  proof (rule u16_eqI)
    show "align_down4 (int sz) = int a" by (simp add: align_down4_div a_def zdiv_int)
    show "a < 65536" using al(1) assms(2) by simp
  qed
  have i: "rt_ringbuffer_init (map (\<lambda>i. bytes m' (pool + i)) [0..<a]) (s16of a) = Some rb"
    using assms(1) unfolding rt_ringbuffer_create_def Let_def u by (auto split: if_splits bind_splits)
  have pos: "0 < s16of a" using i by (simp add: rt_ringbuffer_init_def split: if_splits)
  have ab: "a < 65536" using al(1) assms(2) by simp
  have a32: "a < 32768"
  proof (rule ccontr)
    assume "\<not> a < 32768"
    then have "(int a - 32768) mod 65536 = int a - 32768" using ab by (simp add: mod_pos_pos_trivial)
    then have "(int a + 32768) mod 65536 = int a - 32768" using mod_add_self2 [of "int a - 32768" "65536 :: int"]
      by (simp add: add.commute)
    then have "s16of a = int a - 65536" by (simp add: s16of_def)
    then show False using pos ab by simp
  qed
  then have s: "s16of a = int a" by (simp add: s16of_def)
  have ad: "a div 4 * 4 = a" using al(2) by auto
  have "0 < a" using pos s by simp
  then have a4: "4 \<le> a" using ad by (cases "a div 4") simp_all
  have d: "nat (int a div 4 * 4) = a" using ad by (metis nat_int of_nat_mult of_nat_numeral zdiv_int)
  from rb_init_spec [of "int a" "map (\<lambda>i. bytes m' (pool + i)) [0..<a]"] a4 a32 i s d
  have r: "rb_inv rb" "rb_abs rb = []" "rb_size rb = a" by auto
  then show "rb_inv rb" "rb_abs rb = []" "rb_size rb = sz div 4 * 4" by (simp_all add: a_def)
  show "4 \<le> sz" using a4 al(1) by simp
  have "a div 4 < 8192" using a32 ad by linarith
  moreover have "a div 4 = sz div 4" by (simp add: a_def)
  ultimately show "sz < 32768" by linarith
  have "buffer rb = map (\<lambda>i. bytes m' (pool + i)) [0..<a]" using i by (auto simp: rt_ringbuffer_init_def split: if_splits)
  then show "length (buffer rb) = rb_size rb" using r(3) by simp
qed

lemma rb_create_total:
  assumes "sys_ok hs m" "sys \<in> set hs" "4 \<le> sz" "sz < 32768"
  shows "\<exists>m' r. rt_ringbuffer_create sys hs sz m = Some (m', r) \<and> sys_ok hs m' \<and>
    (case r of
       None \<Rightarrow> live_sys hs m' = live_sys hs m
     | Some (b, pool, rb) \<Rightarrow> rb_inv rb \<and> rb_abs rb = [] \<and> rb_size rb = sz div 4 * 4 \<and>
         (\<exists>i j. live_sys hs m' = (live_sys hs m)(b \<mapsto> i, pool \<mapsto> j) \<and> b \<noteq> pool \<and> 12 \<le> i \<and> rb_size rb \<le> j))"
proof -
  define a where "a = sz div 4 * 4"
  have al: "a \<le> sz" "a div 4 * 4 = a" "4 \<le> a" using assms(3) by (auto simp: a_def intro: mult_le_mono)
  have u: "u16 (align_down4 (int sz)) = a"
    by (rule u16_eqI) (use al(1) assms(4) in \<open>simp_all add: align_down4_div a_def zdiv_int\<close>)
  have s: "s16of a = int a" using al(1) assms(4) by (simp add: s16of_def)
  obtain b m1 where b: "rt_malloc sys hs 12 m = Some (b, m1)" "alloc_result hs 12 m b m1" by (rule malloc_result [OF assms(1,2)])
  have cr: "rt_ringbuffer_create sys hs sz m =
      (if b = 0 then Some (m1, None)
       else do {
         (pool, m2) \<leftarrow> rt_malloc sys hs a m1;
         if pool = 0 then do { m3 \<leftarrow> rt_free b m2; Some (m3, None) }
         else do {
           r \<leftarrow> rt_ringbuffer_init (map (\<lambda>i. bytes m2 (pool + i)) [0..<a]) (int a);
           Some (m2, Some (b, pool, r))
         }
       })"
    unfolding rt_ringbuffer_create_def Let_def u s b(1) using assms(3) by simp
  show ?thesis
  proof (cases "b = 0")
    case True
    then show ?thesis using cr b(2) by (simp add: alloc_result_def)
  next
    case False
    then obtain i where i: "live_sys hs m b = None" "request_size 12 \<le> i" "live_sys hs m1 = (live_sys hs m)(b \<mapsto> i)" "sys_ok hs m1"
      using b(2) by (auto simp: alloc_result_def)
    obtain pool m2 where p: "rt_malloc sys hs a m1 = Some (pool, m2)" "alloc_result hs a m1 pool m2"
      by (rule malloc_result [OF i(4) assms(2)])
    show ?thesis
    proof (cases "pool = 0")
      case True
      then have r: "sys_ok hs m2" "live_sys hs m2 = live_sys hs m1" using p(2) by (simp_all add: alloc_result_def)
      then have nn: "live_sys hs m2 b \<noteq> None" using i(3) by simp
      obtain m3 where m3: "rt_free b m2 = Some m3" "sys_ok hs m3" "live_sys hs m3 = (live_sys hs m2)(b := None)"
        by (rule free_result [OF r(1) nn])
      have "live_sys hs m3 = live_sys hs m" using m3(3) r(2) i(1,3) by auto
      then show ?thesis using cr False p True m3 by simp
    next
      case pool: False
      then obtain j where j: "live_sys hs m1 pool = None" "request_size a \<le> j" "live_sys hs m2 = (live_sys hs m1)(pool \<mapsto> j)" "sys_ok hs m2"
        using p(2) by (auto simp: alloc_result_def)
      have aj: "a \<le> j" using request_size_facts(4) [of a] j(2) al(1) assms(4) by simp
      have ti: "12 \<le> i" using request_size_facts(4) [of 12] i(2) by simp
      have "b \<noteq> pool" using i(3) j(1) by auto
      moreover obtain r where r: "rt_ringbuffer_init (map (\<lambda>i. bytes m2 (pool + i)) [0..<a]) (int a) = Some r" "rb_inv r" "rb_abs r = []"
        "rb_size r = nat (int a div 4 * 4)"
        using rb_init_spec [of "int a" "map (\<lambda>i. bytes m2 (pool + i)) [0..<a]"] al(1,3) assms(4) by auto
      moreover have "nat (int a div 4 * 4) = a" using al(2) by (metis nat_int of_nat_mult of_nat_numeral zdiv_int)
      ultimately show ?thesis using cr False p pool i(3) j(3,4) aj ti by (auto simp: a_def [symmetric])
    qed
  qed
qed

section \<open>Properties\<close>

text \<open>The ring that 8 bytes make, holding the bytes of \<open>xs\<close>; the evaluations below start from it.\<close>

definition ring8 :: "8 word list \<Rightarrow> ringbuffer" where
  "ring8 xs = \<lparr>buffer = take 8 (xs @ replicate 8 0), read_mirror = False, read_index = 0,
     write_mirror = 8 \<le> length xs, write_index = length xs mod 8, buffer_size = 8\<rparr>"

lemma ring8_inv: "length xs \<le> 8 \<Longrightarrow> rb_inv (ring8 xs)"
  by (auto simp: ring8_def rb_inv_def rb_size_def)

text \<open>C20. Whatever blocks and single bytes are put into a ring and taken from it, in any order, no access
  leaves the ring, and the bytes accepted come out in the order in which they went in: what the ring held and
  accepted is what it handed out followed by what it still holds.\<close>

theorem ring_history:
  assumes "rb_inv rb"
  shows "\<exists>ins outs rb'. rb_history ops rb = Some (ins, outs, rb') \<and> rb_inv rb' \<and> rb_abs rb @ ins = outs @ rb_abs rb' \<and>
    length (rb_abs rb') \<le> rb_size rb"
  using rb_history_spec [OF assms, of ops] by (metis rb_abs_length rb_invD(6) rb_size_def)

theorem ring_history_witness:
  "\<exists>ins outs rb'. rb_history [RPut [1, 2, 3, 4, 5, 6, 7], RGet 5, RPut [8, 9, 10, 11, 12, 13, 14], RGetc, RPutc 15, RGet 100] (ring8 []) =
    Some (ins, outs, rb') \<and> rb_inv rb' \<and> rb_abs (ring8 []) @ ins = outs @ rb_abs rb' \<and> length (rb_abs rb') \<le> rb_size (ring8 [])"
  by (rule ring_history) (simp add: ring8_inv)

lemma ring_history_run:
  "map_option (\<lambda>(ins, outs, rb'). (ins, outs, rb_abs rb'))
    (rb_history [RPut [1, 2, 3, 4, 5, 6, 7], RGet 5, RPut [8, 9, 10, 11, 12, 13, 14], RGetc, RPutc 15, RGet 3] (ring8 [])) =
   Some ([1, 2, 3, 4, 5, 6, 7, 8, 9, 10, 11, 12, 13, 15], [1, 2, 3, 4, 5, 6, 7, 8, 9], [10, 11, 12, 13, 15])"
  by code_simp

text \<open>The byte operations are the block operations on one byte, with the same result and the same final ring.\<close>

theorem ring_bytes_are_blocks:
  assumes "rb_inv rb"
  shows "rt_ringbuffer_putchar ch rb = rt_ringbuffer_put [ch] 1 rb \<and>
    rt_ringbuffer_getchar rb = map_option (\<lambda>(xs, rb'). (case xs of [] \<Rightarrow> None | x # _ \<Rightarrow> Some x, rb')) (rt_ringbuffer_get 1 rb)"
  using putchar_eq_put [OF assms] getchar_eq_get [OF assms] by simp

theorem ring_bytes_are_blocks_witness:
  "rt_ringbuffer_putchar 9 (ring8 [1, 2]) = rt_ringbuffer_put [9] 1 (ring8 [1, 2])"
  using ring_bytes_are_blocks [OF ring8_inv [of "[1, 2]"]] by simp

text \<open>A forced byte is always stored: into a full ring it replaces the oldest byte, and only that one.\<close>

theorem putchar_force_spec:
  assumes "rb_inv rb"
  shows "\<exists>rb'. rt_ringbuffer_putchar_force ch rb = Some (1, rb') \<and> rb_inv rb' \<and> buffer_size rb' = buffer_size rb \<and>
    rb_abs rb' = (if rb_count rb = rb_size rb then drop 1 (rb_abs rb) else rb_abs rb) @ [ch]"
  by (rule putchar_force_spec' [OF assms])

theorem putchar_force_spec_witness:
  "\<exists>rb'. rt_ringbuffer_putchar_force 9 (ring8 [1, 2, 3, 4, 5, 6, 7, 8]) = Some (1, rb') \<and> rb_abs rb' = [2, 3, 4, 5, 6, 7, 8, 9]"
proof -
  let ?r = "ring8 [1, 2, 3, 4, 5, 6, 7, 8]"
  have i: "rb_inv ?r" by (rule ring8_inv) simp
  have e: "rb_count ?r = 8" "rb_size ?r = 8" "rb_abs ?r = [1, 2, 3, 4, 5, 6, 7, 8]" by code_simp+
  show ?thesis using putchar_force_spec [OF i, of 9] by (auto simp: e)
qed

text \<open>A forced block stores its last bytes and keeps the newest bytes of the ring that still fit,
  but only if the bytes of the ring went around its end before the call. If they did not, and the block does not fit,
  both mirrors are flipped: the ring looks empty, and the block itself is lost with everything before it, although the
  call returns its length.\<close>

theorem put_force_spec:
  assumes "rb_inv rb" "len \<le> length ptr" "len < 65536"
  shows "\<exists>rb'. rt_ringbuffer_put_force ptr len rb = Some (min len (rb_size rb), rb') \<and> rb_inv rb' \<and> buffer_size rb' = buffer_size rb \<and>
    rb_abs rb' = (if rb_size rb < rb_count rb + min len (rb_size rb) \<and> read_mirror rb = write_mirror rb then []
      else drop (rb_count rb + len - rb_size rb) (rb_abs rb @ take len ptr))"
  by (rule rb_force_spec [OF assms])

theorem put_force_spec_witness:
  "\<exists>rb'. rt_ringbuffer_put_force [7, 8, 9] 3 (ring8 [1, 2, 3, 4, 5, 6]) = Some (3, rb') \<and> rb_abs rb' = []"
proof -
  let ?r = "ring8 [1, 2, 3, 4, 5, 6]"
  have i: "rb_inv ?r" by (rule ring8_inv) simp
  have e: "rb_count ?r = 6" "rb_size ?r = 8" "read_mirror ?r = write_mirror ?r" by code_simp+
  show ?thesis using put_force_spec [OF i, of 3 "[7, 8, 9]"] by (auto simp: e)
qed

lemma put_force_keeps:
  "map_option (\<lambda>(n, rb'). (n, rb_abs rb')) (rt_ringbuffer_put_force [9, 10, 11] 3 (ring8 [1, 2, 3, 4, 5, 6, 7, 8])) =
    Some (3, [4, 5, 6, 7, 8, 9, 10, 11])"
  by code_simp

text \<open>Creating a ring of 4 to 32767 bytes: it fails and gives everything back, or the ring is empty,
  well formed, as large as the size rounded down to a multiple of 4, and its memory is a live block of the heap, with the
  control block in another.\<close>

theorem ring_create_spec:
  assumes "sys_ok hs m" "sys \<in> set hs" "4 \<le> sz" "sz < 32768"
  shows "\<exists>m' r. rt_ringbuffer_create sys hs sz m = Some (m', r) \<and> sys_ok hs m' \<and>
    (case r of
       None \<Rightarrow> live_sys hs m' = live_sys hs m
     | Some (b, pool, rb) \<Rightarrow> rb_inv rb \<and> rb_abs rb = [] \<and> rb_size rb = sz div 4 * 4 \<and>
         (\<exists>i j. live_sys hs m' = (live_sys hs m)(b \<mapsto> i, pool \<mapsto> j) \<and> b \<noteq> pool \<and> 12 \<le> i \<and> rb_size rb \<le> j))"
  using rb_create_total [OF assms] .

theorem ring_create_spec_witness:
  "\<exists>m' r. rt_ringbuffer_create 16 [16] 10 demo_heap = Some (m', r) \<and> sys_ok [16] m'"
  using ring_create_spec [OF demo_ok(3), of 16 10] by auto

text \<open>And it can hand out no other ring: a size from 32768 on becomes negative and one below 4 becomes 0, which both
  end in the assertion of the initialisation.\<close>

lemma ring_create_sizes:
  "rt_ringbuffer_create sys hs sz m = Some (m', Some (b, pool, rb)) \<Longrightarrow> sz < 65536 \<Longrightarrow> 4 \<le> sz \<and> sz < 32768"
  using rb_create_spec(1,2) by blast

text \<open>A ring of 1, 2 or 3 bytes passes the assertion of the initialisation and gets size 0: nothing can be put into
  it, and forced bytes are stored one after the other past the end of the memory it was given.\<close>

lemma tiny_ring:
  assumes "0 < sz" "sz < 4"
  shows "\<exists>rb. rt_ringbuffer_init pool sz = Some rb \<and> buffer_size rb = 0 \<and> rt_ringbuffer_putchar ch rb = Some (0, rb)"
  using assms
  by (simp add: rt_ringbuffer_init_def align_down4_div rt_ringbuffer_putchar_def rt_ringbuffer_space_len_def
      rt_ringbuffer_data_len_def rt_ringbuffer_status_def)

lemma tiny_ring_overruns:
  "(do {
      r0 \<leftarrow> rt_ringbuffer_init [0, 0, 0] 3;
      (_, r1) \<leftarrow> rt_ringbuffer_putchar_force 1 r0;
      (_, r2) \<leftarrow> rt_ringbuffer_putchar_force 2 r1;
      (_, r3) \<leftarrow> rt_ringbuffer_putchar_force 3 r2;
      Some (write_index r3, rt_ringbuffer_putchar_force 4 r3)
    }) = Some (3, None)"
  by code_simp

end
