(* ===== verification/Completion.thy ===== *)
theory Completion
  imports Ipc
begin

text \<open>
  Completions, \<^verbatim>\<open>components/drivers/src/completion.c\<close>: a flag and a list on which at most one thread
  waits. The list is the kernel list \<open>LSuspend o\<close> of its identity \<open>o\<close>. A wait that does not return at once is
  two pieces; the second, \<open>rt_completion_wait_resume\<close>, is what the thread does when it runs again. \<open>None\<close> is a failed
  assertion.
\<close>

section \<open>Operations\<close>

record completion =
  c_flag :: bool

definition rt_completion_init :: "nat \<Rightarrow> kern \<Rightarrow> kern \<times> completion" where
  "rt_completion_init o' k = (k\<lparr>lists := (lists k)(LSuspend o' := [])\<rparr>, \<lparr>c_flag = False\<rparr>)"

definition rt_completion_wait_resume :: "tid \<Rightarrow> completion \<Rightarrow> kern \<Rightarrow> completion \<times> rt_err" where
  "rt_completion_wait_resume t c k = (c\<lparr>c_flag := False\<rparr>, err k t)"

definition rt_completion_wait :: "nat \<Rightarrow> int \<Rightarrow> completion \<Rightarrow> kern \<Rightarrow> (kern \<times> completion \<times> rt_err outcome) option" where
  "rt_completion_wait o' timeout c k =
     (if c_flag c then Some (k, c\<lparr>c_flag := False\<rparr>, Done RT_EOK)
      else if lists k (LSuspend o') \<noteq> [] then None
      else if timeout = 0 then Some (k, c, Done RT_ETIMEOUT)
      else if in_thread_context k then
        do {
          t \<leftarrow> cur k;
          k1 \<leftarrow> ipc_wait (LSuspend o') RT_IPC_FLAG_FIFO timeout t (clear_error t k);
          Some (if cur k1 = Some t then (case rt_completion_wait_resume t c k1 of (c1, e) \<Rightarrow> (k1, c1, Done e)) else (k1, c, Waits))
        }
      else None)"

definition rt_completion_done :: "nat \<Rightarrow> completion \<Rightarrow> kern \<Rightarrow> (kern \<times> completion) option" where
  "rt_completion_done o' c k =
     (if c_flag c then Some (k, c)
      else
        (let c1 = c\<lparr>c_flag := True\<rparr>
         in if lists k (LSuspend o') \<noteq> [] then
              do {
                k1 \<leftarrow> rt_ipc_list_resume (LSuspend o') k;
                k2 \<leftarrow> rt_schedule k1;
                Some (k2, c1)
              }
            else Some (k, c1)))"

section \<open>Lemmas\<close>

lemma completion_blocks:
  assumes "can_block t k" "\<not> c_flag c" "lists k (LSuspend o') = []" "time \<noteq> 0" "time < 0x7fffffff"
  shows "\<exists>k'. rt_completion_wait o' time c k = Some (k', c, Waits) \<and>
    ipc_wait (LSuspend o') RT_IPC_FLAG_FIFO time t (clear_error t k) = Some k' \<and> ipc_inv k' \<and> cur k' \<noteq> None \<and>
    stat k' t = T_SUSPEND \<and> err k' t = RT_EOK \<and> lists k' (LSuspend o') = [t]"
proof -
  note b = can_blockD [OF assms(1)]
  obtain k' where
    k': "ipc_wait (LSuspend o') RT_IPC_FLAG_FIFO time t (clear_error t k) = Some k'" "ipc_inv k'" "cur k' \<noteq> None"
    "cur k' \<noteq> Some t" "stat k' t = T_SUSPEND" "err k' t = RT_EOK"
    "\<forall>m. wait_list m \<longrightarrow> lists k' m = ((lists k)(LSuspend o' := wait_insert RT_IPC_FLAG_FIFO (prio k) t (lists k (LSuspend o')))) m"
    using block_cleared [OF assms(1) _ assms(5), of "LSuspend o'" RT_IPC_FLAG_FIFO] by auto
  then show ?thesis using assms(2-4) b(2,4) by (simp add: rt_completion_wait_def)
qed

text \<open>At most one thread waits, and none while the flag is set unless it has been woken already.\<close>

definition completion_ok :: "nat \<Rightarrow> completion \<Rightarrow> kern \<Rightarrow> bool" where
  "completion_ok o' c k \<longleftrightarrow> length (lists k (LSuspend o')) \<le> 1 \<and> (c_flag c \<longrightarrow> lists k (LSuspend o') = [])"

lemma completion_done_step:
  assumes "ipc_inv k" "cur k = Some x" "completion_ok o' c k"
  shows "\<exists>k' c' x'. rt_completion_done o' c k = Some (k', c') \<and> ipc_inv k' \<and> cur k' = Some x' \<and> completion_ok o' c' k' \<and>
    c_flag c' \<and> lists k' (LSuspend o') = [] \<and>
    (\<forall>t \<in> set (lists k (LSuspend o')). active_stat (stat k' t) \<and> err k' t = err k t \<and> TThread t \<notin> set (hard k'))"
proof (cases "lists k (LSuspend o')")
  case Nil
  then show ?thesis using assms(1,2) by (simp add: rt_completion_done_def completion_ok_def)
next
  case (Cons t ts)
  then have "ts = []" "\<not> c_flag c" using assms(3) by (simp_all add: completion_ok_def)
  then show ?thesis using wake_first_spec [OF assms(1) Cons _ assms(2)] Cons
    by (auto simp: rt_completion_done_def completion_ok_def)
qed

section \<open>Properties\<close>

text \<open>At most one thread waits on a completion. Initialising, waiting with any limit and completing
  keep this and the invariant of the kernel; a second thread that would have to wait ends in the assertion.\<close>

theorem completion_one_waiter:
  assumes "can_block t k" "completion_ok o' c k" "time < 0x7fffffff"
  shows "(case rt_completion_wait o' time c k of
      None \<Rightarrow> \<not> c_flag c \<and> lists k (LSuspend o') \<noteq> []
    | Some (k', c', r) \<Rightarrow> ipc_inv k' \<and> completion_ok o' c' k' \<and> \<not> c_flag c' \<and>
        (if c_flag c then r = Done RT_EOK else if time = 0 then r = Done RT_ETIMEOUT else r = Waits \<and> lists k' (LSuspend o') = [t])) \<and>
    (\<exists>k' c'. rt_completion_done o' c k = Some (k', c') \<and> ipc_inv k' \<and> completion_ok o' c' k' \<and> c_flag c')"
proof
  note b = can_blockD [OF assms(1)]
  show "case rt_completion_wait o' time c k of
      None \<Rightarrow> \<not> c_flag c \<and> lists k (LSuspend o') \<noteq> []
    | Some (k', c', r) \<Rightarrow> ipc_inv k' \<and> completion_ok o' c' k' \<and> \<not> c_flag c' \<and>
        (if c_flag c then r = Done RT_EOK else if time = 0 then r = Done RT_ETIMEOUT else r = Waits \<and> lists k' (LSuspend o') = [t])"
  proof (cases "c_flag c \<or> lists k (LSuspend o') \<noteq> [] \<or> time = 0")
    case True
    then show ?thesis using b(1) assms(2) by (auto simp: rt_completion_wait_def completion_ok_def)
  next
    case False
    then show ?thesis using completion_blocks [OF assms(1) _ _ _ assms(3), of c o'] by (auto simp: completion_ok_def)
  qed
  show "\<exists>k' c'. rt_completion_done o' c k = Some (k', c') \<and> ipc_inv k' \<and> completion_ok o' c' k' \<and> c_flag c'"
    using completion_done_step [OF b(1,2) assms(2)] by blast
qed

theorem completion_one_waiter_witness:
  "case rt_completion_wait 0 5 \<lparr>c_flag = False\<rparr> kern_example of None \<Rightarrow> False | Some (k', c', r) \<Rightarrow> r = Waits \<and> lists k' (LSuspend 0) = [1]"
  using completion_one_waiter [OF kern_example_can_block, of 0 "\<lparr>c_flag = False\<rparr>" 5]
  by (auto simp: completion_ok_def kern_example_waits split: option.splits)

text \<open>Completing wakes the waiting thread: it is ready or already running, its timer is off, and its wait
  returns success and leaves the completion not completed, ready for the next use.\<close>

theorem completion_done_serves:
  assumes "ipc_inv k" "cur k = Some x" "\<not> c_flag c" "lists k (LSuspend o') = [t]" "err k t = RT_EOK"
  shows "\<exists>k' c'. rt_completion_done o' c k = Some (k', c') \<and> ipc_inv k' \<and> active_stat (stat k' t) \<and> TThread t \<notin> set (hard k') \<and>
    lists k' (LSuspend o') = [] \<and> rt_completion_wait_resume t c' k' = (c'\<lparr>c_flag := False\<rparr>, RT_EOK)"
proof -
  have "completion_ok o' c k" using assms(3,4) by (simp add: completion_ok_def)
  from completion_done_step [OF assms(1,2) this] show ?thesis
    using assms(4,5) by (auto simp: rt_completion_wait_resume_def)
qed

theorem completion_done_serves_witness:
  "\<exists>k1 c1 k2 c2. rt_completion_wait 0 (- 1) \<lparr>c_flag = False\<rparr> kern_example = Some (k1, c1, Waits) \<and>
     rt_completion_done 0 c1 k1 = Some (k2, c2) \<and> snd (rt_completion_wait_resume 1 c2 k2) = RT_EOK"
proof -
  let ?c = "\<lparr>c_flag = False\<rparr>"
  from completion_blocks [OF kern_example_can_block, of ?c 0 "- 1"] obtain k1 where
    k1: "rt_completion_wait 0 (- 1) ?c kern_example = Some (k1, ?c, Waits)" "ipc_inv k1" "cur k1 \<noteq> None" "err k1 1 = RT_EOK"
    "lists k1 (LSuspend 0) = [1]"
    by (auto simp: kern_example_waits)
  from k1(3) obtain x where "cur k1 = Some x" by blast
  from completion_done_serves [OF k1(2) this _ k1(5,4), of ?c] k1(1) show ?thesis by auto
qed

text \<open>A timed wait that nobody completes ends after exactly its ticks with the timeout error. A completion that
  comes after that, but before the thread has run again, is lost: the thread returns the timeout error and clears the flag.\<close>

theorem completion_wait_times_out:
  assumes "can_block t k" "\<not> c_flag c" "lists k (LSuspend o') = []" "0 < time" "time < 0x7fffffff"
  shows "\<exists>k1 k2. rt_completion_wait o' time c k = Some (k1, c, Waits) \<and> rt_ticks m user k1 = Some k2 \<and> tick_ok k2 \<and>
    (if int m < time then stat k2 t = T_SUSPEND
     else active_stat (stat k2 t) \<and> t \<notin> set (lists k2 (LSuspend o')) \<and>
       (\<forall>b. rt_completion_wait_resume t \<lparr>c_flag = b\<rparr> k2 = (\<lparr>c_flag = False\<rparr>, RT_ETIMEOUT)))"
proof -
  have "time \<noteq> 0" using assms(4) by simp
  from completion_blocks [OF assms(1-3) this assms(5)] obtain k1 where
    k1: "rt_completion_wait o' time c k = Some (k1, c, Waits)"
    "ipc_wait (LSuspend o') RT_IPC_FLAG_FIFO time t (clear_error t k) = Some k1" by blast
  obtain k2 where "rt_ticks m user k1 = Some k2" "tick_ok k2"
    "if int m < time then stat k2 t = T_SUSPEND
     else active_stat (stat k2 t) \<and> err k2 t = RT_ETIMEOUT \<and> t \<notin> set (lists k2 (LSuspend o'))"
    using timed_wait_expires [OF can_block_clear [OF assms(1)] _ assms(4,5) k1(2), of m user] by auto
  then show ?thesis using k1(1) by (simp add: rt_completion_wait_resume_def)
qed

theorem completion_wait_times_out_witness:
  "\<exists>k1 k2. rt_completion_wait 0 20 \<lparr>c_flag = False\<rparr> kern_example = Some (k1, \<lparr>c_flag = False\<rparr>, Waits) \<and>
     rt_ticks 20 (\<lambda>_. Some) k1 = Some k2 \<and> rt_completion_wait_resume 1 \<lparr>c_flag = True\<rparr> k2 = (\<lparr>c_flag = False\<rparr>, RT_ETIMEOUT)"
  using completion_wait_times_out [OF kern_example_can_block, of "\<lparr>c_flag = False\<rparr>" 0 20 20 "\<lambda>_. Some"]
  by (auto simp: kern_example_waits)

text \<open>One completion lets two waits succeed, when the flag is still set because the woken thread has not run yet.\<close>

lemma completion_serves_two:
  "c_flag c \<Longrightarrow> rt_completion_wait o' time c k = Some (k, c\<lparr>c_flag := False\<rparr>, Done RT_EOK) \<and>
    snd (rt_completion_wait_resume t (c\<lparr>c_flag := False\<rparr>) k) = err k t"
  by (simp add: rt_completion_wait_def rt_completion_wait_resume_def)

end
