(* ===== verification/WaitQueue.thy ===== *)
theory WaitQueue
  imports Ipc
begin

text \<open>
  Wait queues of the device drivers, \<^verbatim>\<open>components/drivers/src/waitqueue.c\<close>. Nodes, not threads, are linked
  in the queue: a node names the thread to wake and the function that decides whether a wakeup is meant for it. A waiting
  thread is suspended but on no list of the kernel. A node is known by the address \<open>w_at\<close>. \<open>None\<close> is a failed assertion.
\<close>

section \<open>Operations\<close>

record rt_wqueue_node =
  w_at :: nat
  polling_thread :: tid
  w_wakeup :: "nat \<Rightarrow> int"
  w_key :: nat

datatype wq_flag = RT_WQ_FLAG_CLEAN | RT_WQ_FLAG_WAKEUP

record rt_wqueue =
  wq_flag :: wq_flag
  waiting_list :: "rt_wqueue_node list"

definition rt_wqueue_init :: "rt_wqueue" where
  "rt_wqueue_init = \<lparr>wq_flag = RT_WQ_FLAG_CLEAN, waiting_list = []\<rparr>"

definition rt_wqueue_add :: "rt_wqueue_node \<Rightarrow> rt_wqueue \<Rightarrow> rt_wqueue" where
  "rt_wqueue_add node q = q\<lparr>waiting_list := waiting_list q @ [node]\<rparr>"

definition rt_wqueue_remove :: "nat \<Rightarrow> rt_wqueue \<Rightarrow> rt_wqueue" where
  "rt_wqueue_remove a q = q\<lparr>waiting_list := filter (\<lambda>n. w_at n \<noteq> a) (waiting_list q)\<rparr>"

definition wqueue_default_wake :: "nat \<Rightarrow> int" where
  "wqueue_default_wake key = 0"

text \<open>The first node that takes the wakeup; its thread is resumed, and the result of that is not looked at.\<close>

fun wq_taker :: "nat \<Rightarrow> rt_wqueue_node list \<Rightarrow> rt_wqueue_node option" where
  "wq_taker key [] = None"
| "wq_taker key (n # ns) = (if w_wakeup n key = 0 then Some n else wq_taker key ns)"

definition rt_wqueue_wakeup :: "nat \<Rightarrow> rt_wqueue \<Rightarrow> kern \<Rightarrow> (kern \<times> rt_wqueue) option" where
  "rt_wqueue_wakeup key q k =
     (let q1 = q\<lparr>wq_flag := RT_WQ_FLAG_WAKEUP\<rparr>
      in case wq_taker key (waiting_list q) of
           None \<Rightarrow> Some (k, q1)
         | Some n \<Rightarrow> do {
             (k1, _) \<leftarrow> rt_thread_resume (polling_thread n) k;
             k2 \<leftarrow> rt_schedule k1;
             Some (k2, rt_wqueue_remove (w_at n) q1)
           })"

text \<open>What a waiting thread does when it runs again; \<open>a\<close> is the address of its node. The call returns 0 in any case.\<close>

definition rt_wqueue_wait_resume :: "nat \<Rightarrow> rt_wqueue \<Rightarrow> rt_wqueue" where
  "rt_wqueue_wait_resume a q = rt_wqueue_remove a (q\<lparr>wq_flag := RT_WQ_FLAG_CLEAN\<rparr>)"

definition rt_wqueue_wait :: "nat \<Rightarrow> bool \<Rightarrow> int \<Rightarrow> rt_wqueue \<Rightarrow> kern \<Rightarrow> (kern \<times> rt_wqueue \<times> int outcome) option" where
  "rt_wqueue_wait a condition msec q k =
     (let tick = sint (rt_tick_from_millisecond msec)
      in if int_nest k \<noteq> 0 then None
         else if condition \<or> tick = 0 then Some (k, q, Done 0)
         else if wq_flag q = RT_WQ_FLAG_WAKEUP then Some (k, rt_wqueue_wait_resume a q, Done 0)
         else do {
           t \<leftarrow> cur k;
           let q1 = rt_wqueue_add \<lparr>w_at = a, polling_thread = t, w_wakeup = wqueue_default_wake, w_key = 0\<rparr> q;
           (k1, _) \<leftarrow> rt_thread_suspend t k;
           k2 \<leftarrow> (if tick \<noteq> - 1 then thread_timer_arm t (word_of_int tick) k1 else Some k1);
           k3 \<leftarrow> rt_schedule k2;
           Some (if cur k3 = Some t then (k3, rt_wqueue_wait_resume a q1, Done 0) else (k3, q1, Waits))
         })"

section \<open>Lemmas\<close>

lemma wq_taker_split:
  "wq_taker key ns = Some n \<longleftrightarrow> (\<exists>us vs. ns = us @ n # vs \<and> w_wakeup n key = 0 \<and> (\<forall>u \<in> set us. w_wakeup u key \<noteq> 0))"
proof (induction ns)
  case (Cons m ns)
  show ?case
  proof (cases "w_wakeup m key = 0")
    case True
    then show ?thesis by (auto simp: Cons_eq_append_conv)
  next
    case False
    then have "m # ns = us @ n # vs \<and> w_wakeup n key = 0 \<and> (\<forall>u \<in> set us. w_wakeup u key \<noteq> 0) \<longleftrightarrow>
        (\<exists>us'. us = m # us' \<and> ns = us' @ n # vs \<and> w_wakeup n key = 0 \<and> (\<forall>u \<in> set us'. w_wakeup u key \<noteq> 0))" for us vs
      by (auto simp: Cons_eq_append_conv)
    then show ?thesis using Cons False by auto
  qed
qed simp

lemma wq_remove_split:
  assumes "distinct (map w_at (us @ n # vs))"
  shows "filter (\<lambda>m. w_at m \<noteq> w_at n) (us @ n # vs) = us @ vs"
proof -
  have "w_at n \<notin> w_at ` set us" "w_at n \<notin> w_at ` set vs" using assms by simp_all
  then have "\<forall>m \<in> set us. w_at m \<noteq> w_at n" "\<forall>m \<in> set vs. w_at m \<noteq> w_at n" by (simp_all add: image_iff) metis+
  then have "filter (\<lambda>m. w_at m \<noteq> w_at n) us = us" "filter (\<lambda>m. w_at m \<noteq> w_at n) vs = vs" by (auto intro: filter_True)
  then show ?thesis by simp
qed

lemma sint_tick: "0 \<le> ms \<Longrightarrow> ms < 2 ^ 31 \<Longrightarrow> sint (rt_tick_from_millisecond ms) = ms"
  by (simp add: tick_from_millisecond int_word_sint)

lemma sint_forever: "ms < 0 \<Longrightarrow> sint (rt_tick_from_millisecond ms) = - 1"
  by (simp add: rt_tick_from_millisecond_def)

lemma wait_resume_node:
  assumes "distinct (map w_at (us @ n # vs))"
  shows "rt_wqueue_wait_resume (w_at n) \<lparr>wq_flag = f, waiting_list = us @ n # vs\<rparr> = \<lparr>wq_flag = RT_WQ_FLAG_CLEAN, waiting_list = us @ vs\<rparr>"
  unfolding rt_wqueue_wait_resume_def rt_wqueue_remove_def by (simp only: rt_wqueue.simps wq_remove_split [OF assms])

text \<open>A wait with a limit is a sleep with the node in the queue.\<close>

lemma wait_is_sleep:
  assumes "int_nest k = 0" "cur k = Some t" "0 < ms" "ms < 2 ^ 31" "wq_flag q = RT_WQ_FLAG_CLEAN"
    "rt_thread_sleep (word_of_int ms) k = Some k'" "cur k' \<noteq> Some t"
  shows "rt_wqueue_wait a False ms q k =
    Some (k', rt_wqueue_add \<lparr>w_at = a, polling_thread = t, w_wakeup = wqueue_default_wake, w_key = 0\<rparr> q, Waits)"
proof -
  have "sint (rt_tick_from_millisecond ms) = ms" using sint_tick [of ms] assms(3,4) by simp
  then show ?thesis using assms
    by (auto simp: rt_wqueue_wait_def rt_thread_sleep_def bind_Some_iff Let_def split: prod.splits)
qed

lemma wakeup_spec:
  assumes "kinv k" "tminv k" "cur k = Some c" "waiting_list q = us @ n # vs" "distinct (map w_at (waiting_list q))"
    "w_wakeup n key = 0" "\<forall>u \<in> set us. w_wakeup u key \<noteq> 0"
  shows "\<exists>k'. rt_wqueue_wakeup key q k = Some (k', \<lparr>wq_flag = RT_WQ_FLAG_WAKEUP, waiting_list = us @ vs\<rparr>) \<and> kinv k' \<and> tminv k' \<and>
    cur k' \<noteq> None \<and>
    (if stat k (polling_thread n) = T_SUSPEND
     then active_stat (stat k' (polling_thread n)) \<and> TThread (polling_thread n) \<notin> set (hard k')
     else sched_frame k k') \<and>
    (\<forall>x. x \<noteq> polling_thread n \<longrightarrow> tcbs k' x = tcbs k x \<or> active_stat (stat k x) \<and> active_stat (stat k' x) \<and> same_but_stat (tcbs k x) (tcbs k' x))"
proof -
  let ?t = "polling_thread n"
  have "wq_taker key (waiting_list q) = Some n" using assms(4,6,7) by (auto simp: wq_taker_split)
  moreover have "rt_wqueue_remove (w_at n) (q\<lparr>wq_flag := RT_WQ_FLAG_WAKEUP\<rparr>) = \<lparr>wq_flag = RT_WQ_FLAG_WAKEUP, waiting_list = us @ vs\<rparr>"
    using wq_remove_split [of us n vs] assms(4,5) by (simp add: rt_wqueue_remove_def)
  ultimately have un: "rt_wqueue_wakeup key q k = do {
      (k1, _) \<leftarrow> rt_thread_resume ?t k;
      k2 \<leftarrow> rt_schedule k1;
      Some (k2, \<lparr>wq_flag = RT_WQ_FLAG_WAKEUP, waiting_list = us @ vs\<rparr>)
    }"
    unfolding rt_wqueue_wakeup_def Let_def by (simp only: option.case)
  show ?thesis
  proof (cases "stat k ?t = T_SUSPEND")
    case False
    then have r: "rt_thread_resume ?t k = Some (k, RT_ERROR)" by (simp add: rt_thread_resume_def)
    obtain k' c' where k': "rt_schedule k = Some k'" "kinv k'" "cur k' = Some c'" "sched_frame k k'"
      using schedule_frame [OF assms(1,3)] by blast
    then show ?thesis using un r False tminv_sched [OF assms(2) k'(4)] sched_frameD [OF k'(4)] by simp
  next
    case True
    obtain k1 where
      k1: "rt_thread_resume ?t k = Some (k1, RT_EOK)" "kinv k1" "tminv k1" "cur k1 = cur k"
      "hard k1 = removeAll (TThread ?t) (hard k)"
      "tcbs k1 = (tcbs k)(?t := (tcbs k ?t)\<lparr>t_stat := (if cur k = Some ?t then T_RUNNING else T_READY), t_linked := (cur k \<noteq> Some ?t)\<rparr>)"
      using resume_spec [OF assms(1,2) True] by blast
    have c1: "cur k1 = Some c" using k1(4) assms(3) by simp
    obtain k' c' where k': "rt_schedule k1 = Some k'" "kinv k'" "cur k' = Some c'" "sched_frame k1 k'"
      using schedule_frame [OF k1(2) c1] by blast
    have "active_stat (stat k1 ?t)" using k1(6) by (simp add: active_stat_def)
    then have "active_stat (stat k' ?t)" using sched_frameD [OF k'(4), of ?t] by auto
    moreover have "hard k' = hard k1" using k'(4) by (simp add: sched_frame_def)
    moreover have "tcbs k' x = tcbs k x \<or> active_stat (stat k x) \<and> active_stat (stat k' x) \<and> same_but_stat (tcbs k x) (tcbs k' x)"
      if "x \<noteq> ?t" for x
    proof -
      have "tcbs k1 x = tcbs k x" using k1(6) that by simp
      then show ?thesis using sched_frameD [OF k'(4), of x] by simp
    qed
    ultimately show ?thesis using un k1(1,5) k'(1-3) True tminv_sched [OF k1(3) k'(4)] by simp
  qed
qed

text \<open>A sleeping thread has given up the processor when the scheduler is unlocked and another thread is ready.\<close>

lemma sleep_switches:
  assumes "can_block t k" "tick < half_range"
  shows "\<exists>k' c. rt_thread_sleep tick k = Some k' \<and> cur k' = Some c \<and> c \<noteq> t"
proof -
  note b = can_blockD [OF assms(1)]
  have ki: "kinv k" "tminv k" by (rule ipc_invD [OF b(1)])+
  have "active_stat (stat k t)" using b(3) by (simp add: active_stat_def)
  from suspend_spec [OF ki this] obtain k1 where
    k1: "rt_thread_suspend t k = Some (k1, RT_EOK)" "kinv k1" "tminv k1" "cur k1 = Some t" "lock_nest k1 = 0"
    "stat k1 t = T_SUSPEND" "\<forall>l. lists k1 l = removeAll t (lists k l)" using b(2,5) by auto
  from arm_spec [OF k1(2,3,6) assms(2)] obtain k2 where
    k2: "thread_timer_arm t tick k1 = Some k2" "kinv k2" "cur k2 = Some t" "lists k2 = lists k1" "lock_nest k2 = 0" "stat k2 t = T_SUSPEND"
    using k1(4-6) by auto
  have "lists k2 l = lists k l" for l using k1(7) k2(4) running_unlinked [OF b(1,3), of l] by simp
  then have g: "ready_group k2 \<noteq> 0" using b(6) ready_exists [OF ki(1)] ready_exists [OF k2(2)] by simp
  obtain x p rest where top: "get_highest_priority_thread k2 = Some (x, p)" "lists k2 (LReady p) = x # rest"
    using get_highest [OF k2(2) g] by blast
  have "stat k2 t \<noteq> T_RUNNING" using k2(6) by simp
  from schedule_blocked [OF k2(2,3,5) top(1) g this] obtain k' where "rt_schedule k2 = Some k'" "cur k' = Some x" "t \<noteq> x" by blast
  then show ?thesis using k1(1) k2(1) b(2) by (auto simp: rt_thread_sleep_def)
qed

lemma wait_blocks:
  assumes "can_block t k" "wq_flag q = RT_WQ_FLAG_CLEAN" "0 < ms" "ms < 0x7fffffff"
  shows "\<exists>k1. rt_wqueue_wait a False ms q k =
      Some (k1, rt_wqueue_add \<lparr>w_at = a, polling_thread = t, w_wakeup = wqueue_default_wake, w_key = 0\<rparr> q, Waits) \<and>
    tick_ok k1 \<and> TThread t \<in> set (hard k1) \<and> stat k1 t = T_SUSPEND \<and> tdist (now k1) (tm_timeout (tmrs k1 (TThread t))) = nat ms"
proof -
  note b = can_blockD [OF assms(1)]
  have u: "uint (word_of_int ms :: 32 word) = ms" using assms(3,4) by (simp add: uint_word_of_int)
  then have un: "unat (word_of_int ms :: 32 word) = nat ms" by (simp flip: nat_uint_eq)
  have h: "(word_of_int ms :: 32 word) < half_range" using un assms(4) by (simp add: word_less_nat_alt)
  have p: "0 < (word_of_int ms :: 32 word)" using un assms(3) by (simp add: word_less_nat_alt)
  have ok: "tick_ok k" using assms(1) by (simp add: can_block_def)
  obtain k1 where k1: "rt_thread_sleep (word_of_int ms) k = Some k1" "tick_ok k1" "TThread t \<in> set (hard k1)" "stat k1 t = T_SUSPEND"
    "tdist (now k1) (tm_timeout (tmrs k1 (TThread t))) = nat ms"
    using sleep_tick_ok [OF ok b(2,3) h p] un by auto
  obtain c where "cur k1 = Some c" "c \<noteq> t" using sleep_switches [OF assms(1) h] k1(1) by auto
  then show ?thesis
    using wait_is_sleep [OF _ b(2) assms(3) _ assms(2) k1(1)] b(4) assms(4) k1(2-5) by (simp add: in_thread_context_def)
qed

section \<open>Properties\<close>

definition demo_node :: "nat \<Rightarrow> tid \<Rightarrow> rt_wqueue_node" where
  "demo_node a t = \<lparr>w_at = a, polling_thread = t, w_wakeup = wqueue_default_wake, w_key = 0\<rparr>"

text \<open>A wakeup reaches the first node whose function accepts it, and only that node: its thread, if it is
  suspended, is ready or running with its timer off, the node is unlinked and all others stay, and no other thread is
  touched. The queue remembers the wakeup.\<close>

theorem wq_wakeup_spec:
  assumes "kinv k" "tminv k" "cur k = Some c" "waiting_list q = us @ n # vs" "distinct (map w_at (waiting_list q))"
    "w_wakeup n key = 0" "\<forall>u \<in> set us. w_wakeup u key \<noteq> 0" "stat k (polling_thread n) = T_SUSPEND"
  shows "\<exists>k'. rt_wqueue_wakeup key q k = Some (k', \<lparr>wq_flag = RT_WQ_FLAG_WAKEUP, waiting_list = us @ vs\<rparr>) \<and> kinv k' \<and> tminv k' \<and>
    active_stat (stat k' (polling_thread n)) \<and> TThread (polling_thread n) \<notin> set (hard k') \<and>
    (\<forall>x. x \<noteq> polling_thread n \<and> stat k x = T_SUSPEND \<longrightarrow> stat k' x = T_SUSPEND)"
proof -
  obtain k' where k': "rt_wqueue_wakeup key q k = Some (k', \<lparr>wq_flag = RT_WQ_FLAG_WAKEUP, waiting_list = us @ vs\<rparr>)" "kinv k'" "tminv k'"
    "active_stat (stat k' (polling_thread n)) \<and> TThread (polling_thread n) \<notin> set (hard k')"
    "\<forall>x. x \<noteq> polling_thread n \<longrightarrow> tcbs k' x = tcbs k x \<or> active_stat (stat k x) \<and> active_stat (stat k' x) \<and> same_but_stat (tcbs k x) (tcbs k' x)"
    using wakeup_spec [OF assms(1-7)] assms(8) by auto
  have "stat k' x = T_SUSPEND" if "x \<noteq> polling_thread n" "stat k x = T_SUSPEND" for x
    using spec [OF k'(5), of x] that by (auto simp: active_stat_def)
  then show ?thesis using k'(1-4) by blast
qed

theorem wq_wakeup_spec_witness:
  "\<exists>k1 q1 k2 q2. rt_wqueue_wait 7 False 20 rt_wqueue_init kern_example = Some (k1, q1, Waits) \<and>
    rt_wqueue_wakeup 0 q1 k1 = Some (k2, q2) \<and> active_stat (stat k2 1) \<and> TThread 1 \<notin> set (hard k2)"
proof -
  obtain k1 where k1: "rt_wqueue_wait 7 False 20 rt_wqueue_init kern_example =
      Some (k1, rt_wqueue_add (demo_node 7 1) rt_wqueue_init, Waits)" "tick_ok k1" "stat k1 1 = T_SUSPEND"
    using wait_blocks [OF kern_example_can_block, of rt_wqueue_init 20 7] by (auto simp: rt_wqueue_init_def demo_node_def)
  then obtain c where c: "kinv k1" "tminv k1" "cur k1 = Some c" by (auto simp: tick_ok_def)
  have q: "waiting_list (rt_wqueue_add (demo_node 7 1) rt_wqueue_init) = [] @ demo_node 7 1 # []"
    by (simp add: rt_wqueue_add_def rt_wqueue_init_def)
  have n: "distinct (map w_at (waiting_list (rt_wqueue_add (demo_node 7 1) rt_wqueue_init)))" "w_wakeup (demo_node 7 1) 0 = 0"
    "stat k1 (polling_thread (demo_node 7 1)) = T_SUSPEND" "polling_thread (demo_node 7 1) = 1"
    using k1(3) by (simp_all add: rt_wqueue_add_def rt_wqueue_init_def demo_node_def wqueue_default_wake_def)
  show ?thesis using wq_wakeup_spec [OF c q n(1,2) _ n(3)] k1(1) n(4) by auto
qed

text \<open>A wakeup that finds no node to take it is not lost: the next wait returns at once, and clears it.\<close>

theorem wq_wakeup_before_wait:
  assumes "wq_taker key (waiting_list q) = None" "int_nest k = 0" "msec \<noteq> 0" "\<forall>n \<in> set (waiting_list q). w_at n \<noteq> a" "- (2 ^ 31) \<le> msec" "msec < 2 ^ 31"
  shows "\<exists>q1. rt_wqueue_wakeup key q k = Some (k, q1) \<and>
    rt_wqueue_wait a False msec q1 k = Some (k, \<lparr>wq_flag = RT_WQ_FLAG_CLEAN, waiting_list = waiting_list q\<rparr>, Done 0)"
proof -
  have t: "sint (rt_tick_from_millisecond msec) \<noteq> 0"
    using sint_tick [of msec] sint_forever [of msec] assms(3,6) by (cases "msec < 0") auto
  have "filter (\<lambda>n. w_at n \<noteq> a) (waiting_list q) = waiting_list q" by (rule filter_True) (use assms(4) in simp)
  then show ?thesis using assms(1,2) t
    by (simp add: rt_wqueue_wakeup_def rt_wqueue_wait_def rt_wqueue_wait_resume_def rt_wqueue_remove_def)
qed

theorem wq_wakeup_before_wait_witness:
  "\<exists>q1. rt_wqueue_wakeup 0 rt_wqueue_init kern_example = Some (kern_example, q1) \<and>
    rt_wqueue_wait 7 False 500 q1 kern_example = Some (kern_example, rt_wqueue_init, Done 0)"
  using wq_wakeup_before_wait [of 0 rt_wqueue_init kern_example 500 7] kern_example_simps(4) by (simp add: rt_wqueue_init_def)

text \<open>A wait of \<open>ms\<close> milliseconds that nothing wakes suspends its thread for exactly \<open>ms\<close> ticks. The call then takes
  its node out of the queue and returns 0, just as after a wakeup.\<close>

theorem wq_wait_exact:
  assumes "can_block t k" "wq_flag q = RT_WQ_FLAG_CLEAN" "0 < ms" "ms < 0x7fffffff" "\<forall>n \<in> set (waiting_list q). w_at n \<noteq> a"
  shows "\<exists>k1 q1 k2. rt_wqueue_wait a False ms q k = Some (k1, q1, Waits) \<and> rt_ticks m user k1 = Some k2 \<and>
    (if int m < ms then stat k2 t = T_SUSPEND else active_stat (stat k2 t)) \<and> rt_wqueue_wait_resume a q1 = q"
proof -
  obtain k1 where w: "rt_wqueue_wait a False ms q k =
      Some (k1, rt_wqueue_add \<lparr>w_at = a, polling_thread = t, w_wakeup = wqueue_default_wake, w_key = 0\<rparr> q, Waits)"
    and k1: "tick_ok k1" "TThread t \<in> set (hard k1)" "stat k1 t = T_SUSPEND" "tdist (now k1) (tm_timeout (tmrs k1 (TThread t))) = nat ms"
    using wait_blocks [OF assms(1-4), of a] by blast
  obtain k2 where "rt_ticks m user k1 = Some k2" "if m < nat ms then stat k2 t = T_SUSPEND else active_stat (stat k2 t)"
    using ticks_wake [OF k1(1), of t "nat ms" m user] k1(2-4) by auto
  moreover have "m < nat ms \<longleftrightarrow> int m < ms" by auto
  moreover have "filter (\<lambda>n. w_at n \<noteq> a) (waiting_list q) = waiting_list q" by (rule filter_True) (use assms(5) in simp)
  ultimately show ?thesis using w assms(2) by (simp add: rt_wqueue_wait_resume_def rt_wqueue_remove_def rt_wqueue_add_def)
qed

theorem wq_wait_exact_witness:
  "\<exists>k1 q1 k2. rt_wqueue_wait 7 False 20 rt_wqueue_init kern_example = Some (k1, q1, Waits) \<and> rt_ticks 20 (\<lambda>_. Some) k1 = Some k2 \<and>
    active_stat (stat k2 1) \<and> rt_wqueue_wait_resume 7 q1 = rt_wqueue_init"
  using wq_wait_exact [OF kern_example_can_block, of rt_wqueue_init 20 7 20 "\<lambda>_. Some"] by (simp add: rt_wqueue_init_def)

text \<open>A wakeup can be lost. A thread whose waiting time is over but that has not run yet still has its node in
  the queue. A wakeup then goes to this node: the result of resuming its thread, which fails, is not looked at, no waiting
  thread is woken, and the thread that timed out clears the flag when it runs. The other waiting threads stay suspended
  with nothing left to show that there was a wakeup.\<close>

theorem wq_wakeup_lost:
  assumes "kinv k" "tminv k" "cur k = Some c" "distinct (map w_at (n # vs))" "w_wakeup n key = 0" "active_stat (stat k (polling_thread n))"
  shows "\<exists>k' q'. rt_wqueue_wakeup key \<lparr>wq_flag = f, waiting_list = n # vs\<rparr> k = Some (k', q') \<and>
    (\<forall>x. stat k x = T_SUSPEND \<longrightarrow> stat k' x = T_SUSPEND) \<and>
    rt_wqueue_wait_resume (w_at n) q' = \<lparr>wq_flag = RT_WQ_FLAG_CLEAN, waiting_list = vs\<rparr>"
proof -
  have ns: "stat k (polling_thread n) \<noteq> T_SUSPEND" using assms(6) by (auto simp: active_stat_def)
  obtain k' where k': "rt_wqueue_wakeup key \<lparr>wq_flag = f, waiting_list = n # vs\<rparr> k = Some (k', \<lparr>wq_flag = RT_WQ_FLAG_WAKEUP, waiting_list = vs\<rparr>)"
    "sched_frame k k'"
    using wakeup_spec [OF assms(1-3), of "\<lparr>wq_flag = f, waiting_list = n # vs\<rparr>" "[]" n vs key] assms(4,5) ns by auto
  have "stat k' x = T_SUSPEND" if "stat k x = T_SUSPEND" for x
    using sched_frame_stat [OF k'(2), of T_SUSPEND x] that by (simp add: active_stat_def)
  moreover have "filter (\<lambda>m. w_at m \<noteq> w_at n) vs = vs"
  proof (rule filter_True)
    show "\<forall>m \<in> set vs. w_at m \<noteq> w_at n" using assms(4) by (metis (no_types) distinct.simps(2) image_eqI list.set_map list.simps(9))
  qed
  ultimately show ?thesis using k'(1) by (simp add: rt_wqueue_wait_resume_def rt_wqueue_remove_def)
qed

theorem wq_wakeup_lost_witness:
  "\<exists>k' q'. rt_wqueue_wakeup 0 \<lparr>wq_flag = RT_WQ_FLAG_CLEAN, waiting_list = [demo_node 5 1, demo_node 6 9]\<rparr> kern_example = Some (k', q') \<and>
    rt_wqueue_wait_resume 5 q' = \<lparr>wq_flag = RT_WQ_FLAG_CLEAN, waiting_list = [demo_node 6 9]\<rparr>"
proof -
  note b = can_blockD [OF kern_example_can_block]
  have n: "distinct (map w_at [demo_node 5 1, demo_node 6 9])" "w_wakeup (demo_node 5 1) 0 = 0" "w_at (demo_node 5 1) = 5"
    "active_stat (stat kern_example (polling_thread (demo_node 5 1)))"
    using b(3) by (simp_all add: demo_node_def wqueue_default_wake_def active_stat_def)
  show ?thesis using wq_wakeup_lost [OF ipc_invD(1) [OF b(1)] ipc_invD(2) [OF b(1)] b(2) n(1,2,4), of RT_WQ_FLAG_CLEAN] n(3) by auto
qed

end
