(* ===== verification/DataQueue.thy ===== *)
theory DataQueue
  imports Ipc BQueue SysHeap
begin

text \<open>
  Data queues of the device drivers, \<^verbatim>\<open>components/drivers/src/dataqueue.c\<close>: a ring of items (a pointer and
  a size) whose two 16-bit indices are not reduced to the size but run on; only the place in the ring is taken modulo the
  size. The difference of the indices is computed in \<^verbatim>\<open>int\<close>. Threads that wait to pop are on \<open>LSuspend o\<close>, those that
  wait to push on \<open>LSender o\<close>. A blocking call enters its loop at the start and again when the waiting thread runs.
  The notification is code of the application; the result says with which event it is called, if at all.
  \<open>None\<close> is a failed assertion, a division by zero or an access outside the ring.
\<close>

section \<open>Operations\<close>

type_synonym rt_data_item = "32 word \<times> 32 word"

datatype dq_event = RT_DATAQUEUE_EVENT_POP | RT_DATAQUEUE_EVENT_PUSH | RT_DATAQUEUE_EVENT_LWM

record rt_data_queue =
  dq_magic :: bool
  dq_size :: nat
  dq_lwm :: nat
  dq_get :: nat
  dq_put :: nat
  dq_ptr :: addr
  dq_queue :: "rt_data_item list"
  dq_notify :: bool

text \<open>The items in the memory that the heap hands out are whatever was there before, \<open>old\<close>.\<close>

definition rt_data_queue_init ::
  "nat \<Rightarrow> nat \<Rightarrow> nat \<Rightarrow> bool \<Rightarrow> (addr \<Rightarrow> rt_data_item) \<Rightarrow> addr \<Rightarrow> addr list \<Rightarrow> kern \<Rightarrow> mem \<Rightarrow>
    (kern \<times> mem \<times> rt_data_queue \<times> rt_err) option" where
  "rt_data_queue_init o' sz lwm notify old sys hs k m =
     do {
       (p, m1) \<leftarrow> rt_malloc sys hs (8 * sz) m;
       Some (k\<lparr>lists := (lists k)(LSender o' := [], LSuspend o' := [])\<rparr>, m1,
         \<lparr>dq_magic = True, dq_size = sz, dq_lwm = lwm, dq_get = 0, dq_put = 0, dq_ptr = p,
           dq_queue = (if p = 0 then [] else map (\<lambda>i. old (p + 8 * i)) [0..<sz]), dq_notify = notify\<rparr>,
         if p = 0 then RT_ENOMEM else RT_EOK)
     }"

definition dq_full :: "rt_data_queue \<Rightarrow> bool" where
  "dq_full q \<longleftrightarrow> int (dq_put q) - int (dq_get q) = int (dq_size q)"

definition dq_store :: "rt_data_item \<Rightarrow> rt_data_queue \<Rightarrow> rt_data_queue option" where
  "dq_store x q =
     (if dq_size q \<noteq> 0 \<and> dq_put q mod dq_size q < length (dq_queue q) then
        Some (q\<lparr>dq_queue := (dq_queue q)[dq_put q mod dq_size q := x], dq_put := u16 (int (dq_put q) + 1)\<rparr>)
      else None)"

definition dq_first :: "rt_data_queue \<Rightarrow> rt_data_item option" where
  "dq_first q =
     (if dq_size q \<noteq> 0 \<and> dq_get q mod dq_size q < length (dq_queue q) then Some (dq_queue q ! (dq_get q mod dq_size q)) else None)"

definition dq_event :: "dq_event \<Rightarrow> rt_data_queue \<Rightarrow> dq_event option" where
  "dq_event e q = (if dq_notify q then Some e else None)"

partial_function (option) dq_push_loop ::
  "nat \<Rightarrow> rt_data_item \<Rightarrow> int \<Rightarrow> rt_data_queue \<Rightarrow> kern \<Rightarrow> (kern \<times> rt_data_queue \<times> (rt_err \<times> dq_event option) outcome) option" where
  "dq_push_loop o' x timeout q k =
     (if dq_full q then
        (if timeout = 0 then Some (k, q, Done (RT_ETIMEOUT, None))
         else if int_nest k = 0 then
           do {
             t \<leftarrow> cur k;
             k1 \<leftarrow> ipc_wait (LSender o') RT_IPC_FLAG_FIFO timeout t (clear_error t k);
             if cur k1 \<noteq> Some t then Some (k1, q, Waits)
             else if err k1 t \<noteq> RT_EOK then Some (k1, q, Done (err k1 t, None))
             else dq_push_loop o' x timeout q k1
           }
         else None)
      else do {
        q1 \<leftarrow> dq_store x q;
        (if lists k (LSuspend o') \<noteq> [] then
           do {
             k1 \<leftarrow> rt_ipc_list_resume (LSuspend o') k;
             k2 \<leftarrow> rt_schedule k1;
             Some (k2, q1, Done (RT_EOK, None))
           }
         else Some (k, q1, Done (RT_EOK, dq_event RT_DATAQUEUE_EVENT_PUSH q)))
      })"

declare dq_push_loop.simps [code]

definition rt_data_queue_push ::
  "nat \<Rightarrow> rt_data_item \<Rightarrow> int \<Rightarrow> rt_data_queue \<Rightarrow> kern \<Rightarrow> (kern \<times> rt_data_queue \<times> (rt_err \<times> dq_event option) outcome) option" where
  "rt_data_queue_push o' x timeout q k = (if dq_magic q then dq_push_loop o' x timeout q k else None)"

text \<open>A thread that waited in a push or a pop runs again: it gives up on an error, and else starts over with
  its whole waiting time.\<close>

definition rt_data_queue_push_resume ::
  "nat \<Rightarrow> rt_data_item \<Rightarrow> int \<Rightarrow> tid \<Rightarrow> rt_data_queue \<Rightarrow> kern \<Rightarrow> (kern \<times> rt_data_queue \<times> (rt_err \<times> dq_event option) outcome) option" where
  "rt_data_queue_push_resume o' x timeout t q k =
     (if err k t \<noteq> RT_EOK then Some (k, q, Done (err k t, None)) else dq_push_loop o' x timeout q k)"

partial_function (option) dq_pop_loop ::
  "nat \<Rightarrow> int \<Rightarrow> rt_data_queue \<Rightarrow> kern \<Rightarrow> (kern \<times> rt_data_queue \<times> (rt_err \<times> rt_data_item option \<times> dq_event option) outcome) option" where
  "dq_pop_loop o' timeout q k =
     (if dq_get q = dq_put q then
        (if timeout = 0 then Some (k, q, Done (RT_ETIMEOUT, None, None))
         else if int_nest k = 0 then
           do {
             t \<leftarrow> cur k;
             k1 \<leftarrow> ipc_wait (LSuspend o') RT_IPC_FLAG_FIFO timeout t (clear_error t k);
             if cur k1 \<noteq> Some t then Some (k1, q, Waits)
             else if err k1 t \<noteq> RT_EOK then Some (k1, q, Done (err k1 t, None, None))
             else dq_pop_loop o' timeout q k1
           }
         else None)
      else do {
        x \<leftarrow> dq_first q;
        let q1 = q\<lparr>dq_get := u16 (int (dq_get q) + 1)\<rparr>;
        (if int (dq_put q1) - int (dq_get q1) \<le> int (dq_lwm q1) then
           (if lists k (LSender o') \<noteq> [] then
              do {
                k1 \<leftarrow> rt_ipc_list_resume (LSender o') k;
                k2 \<leftarrow> rt_schedule k1;
                Some (k2, q1, Done (RT_EOK, Some x, dq_event RT_DATAQUEUE_EVENT_LWM q))
              }
            else Some (k, q1, Done (RT_EOK, Some x, dq_event RT_DATAQUEUE_EVENT_LWM q)))
         else Some (k, q1, Done (RT_EOK, Some x, dq_event RT_DATAQUEUE_EVENT_POP q)))
      })"

declare dq_pop_loop.simps [code]

definition rt_data_queue_pop ::
  "nat \<Rightarrow> int \<Rightarrow> rt_data_queue \<Rightarrow> kern \<Rightarrow> (kern \<times> rt_data_queue \<times> (rt_err \<times> rt_data_item option \<times> dq_event option) outcome) option" where
  "rt_data_queue_pop o' timeout q k = (if dq_magic q then dq_pop_loop o' timeout q k else None)"

definition rt_data_queue_pop_resume ::
  "nat \<Rightarrow> int \<Rightarrow> tid \<Rightarrow> rt_data_queue \<Rightarrow> kern \<Rightarrow> (kern \<times> rt_data_queue \<times> (rt_err \<times> rt_data_item option \<times> dq_event option) outcome) option" where
  "rt_data_queue_pop_resume o' timeout t q k =
     (if err k t \<noteq> RT_EOK then Some (k, q, Done (err k t, None, None)) else dq_pop_loop o' timeout q k)"

text \<open>The item looked at, or \<^verbatim>\<open>RT_EEMPTY\<close> as \<open>Some None\<close>.\<close>

definition rt_data_queue_peak :: "rt_data_queue \<Rightarrow> rt_data_item option option" where
  "rt_data_queue_peak q =
     (if dq_magic q then (if dq_get q = dq_put q then Some None else map_option Some (dq_first q)) else None)"

definition rt_data_queue_reset :: "nat \<Rightarrow> rt_data_queue \<Rightarrow> kern \<Rightarrow> kern option" where
  "rt_data_queue_reset o' q k =
     (if dq_magic q then
        do {
          k1 \<leftarrow> rt_ipc_list_resume_all (LSuspend o') (rt_enter_critical k);
          k2 \<leftarrow> rt_ipc_list_resume_all (LSender o') k1;
          k3 \<leftarrow> rt_exit_critical k2;
          rt_schedule k3
        }
      else None)"

definition rt_data_queue_deinit :: "nat \<Rightarrow> rt_data_queue \<Rightarrow> kern \<Rightarrow> mem \<Rightarrow> (kern \<times> mem \<times> rt_data_queue) option" where
  "rt_data_queue_deinit o' q k m =
     do {
       k1 \<leftarrow> rt_data_queue_reset o' q k;
       m1 \<leftarrow> rt_free (dq_ptr q) m;
       Some (k1, m1, q\<lparr>dq_magic := False\<rparr>)
     }"

section \<open>The ring\<close>

definition dq_inv :: "rt_data_queue \<Rightarrow> bool" where
  "dq_inv q \<longleftrightarrow> dq_magic q \<and> 0 < dq_size q \<and> length (dq_queue q) = dq_size q \<and> dq_get q \<le> dq_put q \<and>
     dq_put q \<le> dq_get q + dq_size q \<and> dq_put q < 65536"

definition dq_abs :: "rt_data_queue \<Rightarrow> rt_data_item list" where
  "dq_abs q = ring_list (dq_queue q) (dq_size q) (dq_get q mod dq_size q) (dq_put q - dq_get q)"

lemma dq_abs_length [simp]: "length (dq_abs q) = dq_put q - dq_get q"
  by (simp add: dq_abs_def)

lemma dq_invD:
  assumes "dq_inv q"
  shows "dq_magic q" "dq_full q \<longleftrightarrow> length (dq_abs q) = dq_size q" "dq_get q = dq_put q \<longleftrightarrow> dq_abs q = []"
    "length (dq_abs q) \<le> dq_size q"
  using assms by (auto simp: dq_inv_def dq_full_def simp flip: length_0_conv)

lemma dq_store_spec:
  assumes "dq_inv q" "\<not> dq_full q" "dq_put q < 65535"
  shows "\<exists>q'. dq_store x q = Some q' \<and> dq_inv q' \<and> dq_abs q' = dq_abs q @ [x] \<and> dq_size q' = dq_size q \<and> dq_lwm q' = dq_lwm q \<and>
    dq_notify q' = dq_notify q \<and> dq_put q' = Suc (dq_put q)"
proof -
  let ?n = "dq_size q" and ?e = "dq_put q - dq_get q" and ?b = "dq_get q mod dq_size q"
  have i: "0 < ?n" "length (dq_queue q) = ?n" "dq_get q \<le> dq_put q" "?e < ?n"
    using assms(1,2) by (auto simp: dq_inv_def dq_full_def)
  have "(?b + ?e) mod ?n = (dq_get q + ?e) mod ?n" by (rule mod_add_left_eq)
  moreover have "dq_get q + ?e = dq_put q" using i(3) by simp
  ultimately have p: "dq_put q mod ?n = (?b + ?e) mod ?n" by simp
  have u: "u16 (int (dq_put q) + 1) = Suc (dq_put q)" by (rule u16_eqI) (use assms(3) in simp_all)
  define q' where "q' = q\<lparr>dq_queue := (dq_queue q)[dq_put q mod ?n := x], dq_put := Suc (dq_put q)\<rparr>"
  have "ring_list ((dq_queue q)[(?b + ?e) mod ?n := x]) ?n ?b (Suc ?e) = ring_list (dq_queue q) ?n ?b ?e @ [x]"
    by (rule ring_put [OF i(4,2)])
  moreover have "Suc (dq_put q) - dq_get q = Suc ?e" using i(3) by simp
  ultimately have "dq_abs q' = dq_abs q @ [x]" by (simp add: dq_abs_def q'_def p)
  moreover have "dq_store x q = Some q'" using i(1,2) u by (simp add: dq_store_def q'_def)
  moreover have "dq_inv q'" using assms(1,3) i(3,4) by (auto simp: dq_inv_def q'_def)
  ultimately show ?thesis by (auto simp: q'_def)
qed

lemma dq_first_spec:
  assumes "dq_inv q" "dq_abs q = x # xs"
  shows "dq_first q = Some x" "dq_inv (q\<lparr>dq_get := u16 (int (dq_get q) + 1)\<rparr>)"
    "dq_abs (q\<lparr>dq_get := u16 (int (dq_get q) + 1)\<rparr>) = xs"
proof -
  let ?n = "dq_size q" and ?e = "dq_put q - dq_get q" and ?b = "dq_get q mod dq_size q"
  have "length (dq_abs q) = Suc (length xs)" using assms(2) by simp
  then have e: "0 < ?e" by simp
  have i: "0 < ?n" "length (dq_queue q) = ?n" "?b < ?n" using assms(1) by (simp_all add: dq_inv_def)
  have u: "u16 (int (dq_get q) + 1) = Suc (dq_get q)"
    by (rule u16_eqI) (use e assms(1) in \<open>auto simp: dq_inv_def\<close>)
  have "dq_abs q = dq_queue q ! ?b # ring_list (dq_queue q) ?n ((?b + 1) mod ?n) (?e - 1)"
    unfolding dq_abs_def by (rule ring_get [OF i(3) e])
  then have x: "x = dq_queue q ! ?b" "xs = ring_list (dq_queue q) ?n ((?b + 1) mod ?n) (?e - 1)" using assms(2) by simp_all
  show "dq_first q = Some x" using i x(1) by (simp add: dq_first_def)
  show "dq_inv (q\<lparr>dq_get := u16 (int (dq_get q) + 1)\<rparr>)" using assms(1) e u by (auto simp: dq_inv_def)
  have "Suc (dq_get q) mod ?n = (?b + 1) mod ?n" "dq_put q - Suc (dq_get q) = ?e - 1" by (simp_all add: mod_Suc_eq)
  then show "dq_abs (q\<lparr>dq_get := u16 (int (dq_get q) + 1)\<rparr>) = xs" by (simp add: dq_abs_def u x(2))
qed

section \<open>The calls without waiting\<close>

lemma dq_push_room:
  assumes "ipc_inv k" "cur k = Some c" "dq_inv q" "\<not> dq_full q" "dq_put q < 65535"
  shows "\<exists>q' k' c'. dq_push_loop o' x time q k = Some (k', q', Done (RT_EOK, if lists k (LSuspend o') = [] then dq_event RT_DATAQUEUE_EVENT_PUSH q else None)) \<and>
    ipc_inv k' \<and> cur k' = Some c' \<and> dq_inv q' \<and> dq_abs q' = dq_abs q @ [x] \<and> dq_size q' = dq_size q \<and> dq_put q' = Suc (dq_put q) \<and>
    lists k' (LSuspend o') = tl (lists k (LSuspend o')) \<and> lists k' (LSender o') = lists k (LSender o') \<and>
    (\<forall>t ts. lists k (LSuspend o') = t # ts \<longrightarrow> active_stat (stat k' t) \<and> err k' t = err k t)"
proof -
  obtain q' where q': "dq_store x q = Some q'" "dq_inv q'" "dq_abs q' = dq_abs q @ [x]" "dq_size q' = dq_size q" "dq_put q' = Suc (dq_put q)"
    using dq_store_spec [OF assms(3-5), of x] by blast
  show ?thesis
  proof (cases "lists k (LSuspend o')")
    case Nil
    then show ?thesis using assms(1,2,4) q' by (simp add: dq_push_loop.simps)
  next
    case (Cons t ts)
    obtain k1 k' c' where
      w: "rt_ipc_list_resume (LSuspend o') k = Some k1" "rt_schedule k1 = Some k'" "ipc_inv k'" "cur k' = Some c'"
      "active_stat (stat k' t)" "err k' t = err k t" "\<forall>m. wait_list m \<longrightarrow> lists k' m = ((lists k)(LSuspend o' := ts)) m"
      using wake_first_spec [OF assms(1) Cons _ assms(2)] by auto
    then show ?thesis using assms(4) q' Cons by (simp add: dq_push_loop.simps)
  qed
qed

lemma dq_pop_item:
  assumes "ipc_inv k" "cur k = Some c" "dq_inv q" "dq_abs q = x # xs"
  shows "\<exists>q' k' c' e. dq_pop_loop o' time q k = Some (k', q', Done (RT_EOK, Some x, e)) \<and> ipc_inv k' \<and> cur k' = Some c' \<and>
    dq_inv q' \<and> dq_abs q' = xs \<and> dq_size q' = dq_size q \<and> dq_put q' = dq_put q \<and> lists k' (LSuspend o') = lists k (LSuspend o') \<and>
    (if length xs \<le> dq_lwm q then
       e = dq_event RT_DATAQUEUE_EVENT_LWM q \<and> lists k' (LSender o') = tl (lists k (LSender o')) \<and>
       (\<forall>t ts. lists k (LSender o') = t # ts \<longrightarrow> active_stat (stat k' t) \<and> err k' t = err k t)
     else e = dq_event RT_DATAQUEUE_EVENT_POP q \<and> k' = k)"
proof -
  define q' where "q' = q\<lparr>dq_get := u16 (int (dq_get q) + 1)\<rparr>"
  note f = dq_first_spec [OF assms(3,4), folded q'_def]
  have ne: "dq_get q \<noteq> dq_put q" using dq_invD(3) [OF assms(3)] assms(4) by simp
  have "length (dq_abs q') = length xs" using f(3) by simp
  then have len: "(int (dq_put q') - int (dq_get q') \<le> int (dq_lwm q)) = (length xs \<le> dq_lwm q)"
    using f(2) by (auto simp: dq_inv_def)
  have s: "dq_size q' = dq_size q" "dq_put q' = dq_put q" "dq_lwm q' = dq_lwm q" by (simp_all add: q'_def)
  have un: "dq_pop_loop o' time q k =
     (if length xs \<le> dq_lwm q then
        (if lists k (LSender o') \<noteq> [] then
           do {
             k1 \<leftarrow> rt_ipc_list_resume (LSender o') k;
             k2 \<leftarrow> rt_schedule k1;
             Some (k2, q', Done (RT_EOK, Some x, dq_event RT_DATAQUEUE_EVENT_LWM q))
           }
         else Some (k, q', Done (RT_EOK, Some x, dq_event RT_DATAQUEUE_EVENT_LWM q)))
      else Some (k, q', Done (RT_EOK, Some x, dq_event RT_DATAQUEUE_EVENT_POP q)))"
    unfolding dq_pop_loop.simps [of o' time q k] using ne f(1) by (simp add: Let_def q'_def [symmetric] len [unfolded s(2)] s)
  show ?thesis
  proof (cases "length xs \<le> dq_lwm q \<and> lists k (LSender o') \<noteq> []")
    case False
    then show ?thesis using un f(2,3) s assms(1,2) by auto
  next
    case True
    then obtain t ts where l: "lists k (LSender o') = t # ts" by (cases "lists k (LSender o')") auto
    obtain k1 k' c' where
      w: "rt_ipc_list_resume (LSender o') k = Some k1" "rt_schedule k1 = Some k'" "ipc_inv k'" "cur k' = Some c'"
      "active_stat (stat k' t)" "err k' t = err k t" "\<forall>m. wait_list m \<longrightarrow> lists k' m = ((lists k)(LSender o' := ts)) m"
      using wake_first_spec [OF assms(1) l _ assms(2)] by auto
    then show ?thesis using un f(2,3) s True l by simp
  qed
qed

section \<open>Histories\<close>

text \<open>What a call that has come to an end accepted or handed out.\<close>

definition pushed :: "rt_data_item \<Rightarrow> (rt_err \<times> dq_event option) outcome \<Rightarrow> rt_data_item list" where
  "pushed x r = (case r of Done (e, _) \<Rightarrow> if e = RT_EOK then [x] else [] | Waits \<Rightarrow> [])"

definition popped :: "(rt_err \<times> rt_data_item option \<times> dq_event option) outcome \<Rightarrow> rt_data_item list" where
  "popped r = (case r of Done (e, y, _) \<Rightarrow> (case y of Some x \<Rightarrow> [x] | None \<Rightarrow> []) | Waits \<Rightarrow> [])"

lemma pushed_simps [simp]:
  "pushed x Waits = []" "pushed x (Done (RT_EOK, e)) = [x]" "c \<noteq> RT_EOK \<Longrightarrow> pushed x (Done (c, e)) = []"
  by (simp_all add: pushed_def)

lemma popped_simps [simp]:
  "popped Waits = []" "popped (Done (c, Some x, e)) = [x]" "popped (Done (c, None, e)) = []"
  by (simp_all add: popped_def)

text \<open>
  Everything that can happen to a queue: a push or a pop with any waiting time, which may end at once or leave its thread
  waiting; a thread that waited goes on with its call, with or without an error; a look at the first item; a reset;
  and anything else in the kernel (ticks, timeouts, other threads, interrupts). The state carries what has been accepted
  and what has been handed out so far.
\<close>

inductive dq_step :: "nat \<Rightarrow> rt_data_queue \<times> kern \<times> rt_data_item list \<times> rt_data_item list \<Rightarrow>
    rt_data_queue \<times> kern \<times> rt_data_item list \<times> rt_data_item list \<Rightarrow> bool" for o' :: nat where
  push: "rt_data_queue_push o' x time q k = Some (k', q', r) \<Longrightarrow> dq_step o' (q, k, ins, outs) (q', k', ins @ pushed x r, outs)"
| push_resume: "rt_data_queue_push_resume o' x time t q k = Some (k', q', r) \<Longrightarrow>
    dq_step o' (q, k, ins, outs) (q', k', ins @ pushed x r, outs)"
| pop: "rt_data_queue_pop o' time q k = Some (k', q', r) \<Longrightarrow> dq_step o' (q, k, ins, outs) (q', k', ins, outs @ popped r)"
| pop_resume: "rt_data_queue_pop_resume o' time t q k = Some (k', q', r) \<Longrightarrow>
    dq_step o' (q, k, ins, outs) (q', k', ins, outs @ popped r)"
| peak: "rt_data_queue_peak q = Some y \<Longrightarrow> dq_step o' (q, k, ins, outs) (q, k, ins, outs)"
| reset: "rt_data_queue_reset o' q k = Some k' \<Longrightarrow> dq_step o' (q, k, ins, outs) (q, k', ins, outs)"
| kernel: "dq_step o' (q, k, ins, outs) (q, k', ins, outs)"

lemma dq_push_result:
  assumes "dq_push_loop o' x time q k = Some (k', q', r)"
  shows "q' = q \<and> pushed x r = [] \<or> \<not> dq_full q \<and> dq_store x q = Some q' \<and> pushed x r = [x]"
proof -
  let ?P = "\<lambda>x q (y :: kern \<times> rt_data_queue \<times> (rt_err \<times> dq_event option) outcome). case y of (k', q', r) \<Rightarrow> q' = q \<and> pushed x r = [] \<or> \<not> dq_full q \<and> dq_store x q = Some q' \<and> pushed x r = [x]"
  have "?P x q (k', q', r)"
  proof (rule dq_push_loop.raw_induct
      [where P = "\<lambda>o' x time q k y. ?P x q y" and xa = "((((o', x), time), q), k)", unfolded prod.case, OF _ assms])
    fix f o' x time q k and y :: "kern \<times> rt_data_queue \<times> (rt_err \<times> dq_event option) outcome"
    assume IH: "\<And>o' x time q k y. f o' x time q k = Some y \<Longrightarrow> ?P x q y"
      and body: "(if dq_full q then
          (if time = 0 then Some (k, q, Done (RT_ETIMEOUT, None))
           else if int_nest k = 0 then
             do {
               t \<leftarrow> cur k;
               k1 \<leftarrow> ipc_wait (LSender o') RT_IPC_FLAG_FIFO time t (clear_error t k);
               if cur k1 \<noteq> Some t then Some (k1, q, Waits)
               else if err k1 t \<noteq> RT_EOK then Some (k1, q, Done (err k1 t, None))
               else f o' x time q k1
             }
           else None)
        else do {
          q1 \<leftarrow> dq_store x q;
          (if lists k (LSuspend o') \<noteq> [] then
             do {
               k1 \<leftarrow> rt_ipc_list_resume (LSuspend o') k;
               k2 \<leftarrow> rt_schedule k1;
               Some (k2, q1, Done (RT_EOK, None))
             }
           else Some (k, q1, Done (RT_EOK, dq_event RT_DATAQUEUE_EVENT_PUSH q)))
        }) = Some y"
    show "?P x q y"
    proof (cases "dq_full q")
      case True
      have f: "q2 = q \<and> pushed x r2 = []" if "f o' x time q k1 = Some (k2, q2, r2)" for k1 k2 q2 r2
        using IH [OF that] True by simp
      show ?thesis using True body by (auto simp: bind_Some_iff split: if_splits dest: f)
    next
      case False
      then show ?thesis using body by (auto simp: bind_Some_iff split: if_splits)
    qed
  qed
  then show ?thesis by simp
qed

lemma dq_pop_result:
  assumes "dq_pop_loop o' time q k = Some (k', q', r)"
  shows "q' = q \<and> popped r = [] \<or>
    dq_get q \<noteq> dq_put q \<and> q' = q\<lparr>dq_get := u16 (int (dq_get q) + 1)\<rparr> \<and> (\<exists>x. dq_first q = Some x \<and> popped r = [x])"
proof -
  let ?P = "\<lambda>q (y :: kern \<times> rt_data_queue \<times> (rt_err \<times> rt_data_item option \<times> dq_event option) outcome). case y of (k', q', r) \<Rightarrow> q' = q \<and> popped r = [] \<or>
    dq_get q \<noteq> dq_put q \<and> q' = q\<lparr>dq_get := u16 (int (dq_get q) + 1)\<rparr> \<and> (\<exists>x. dq_first q = Some x \<and> popped r = [x])"
  have "?P q (k', q', r)"
  proof (rule dq_pop_loop.raw_induct [where P = "\<lambda>o' time q k y. ?P q y", OF _ assms])
    fix f o' time q k and y :: "kern \<times> rt_data_queue \<times> (rt_err \<times> rt_data_item option \<times> dq_event option) outcome"
    assume IH: "\<And>o' time q k y. f o' time q k = Some y \<Longrightarrow> ?P q y"
      and body: "(if dq_get q = dq_put q then
          (if time = 0 then Some (k, q, Done (RT_ETIMEOUT, None, None))
           else if int_nest k = 0 then
             do {
               t \<leftarrow> cur k;
               k1 \<leftarrow> ipc_wait (LSuspend o') RT_IPC_FLAG_FIFO time t (clear_error t k);
               if cur k1 \<noteq> Some t then Some (k1, q, Waits)
               else if err k1 t \<noteq> RT_EOK then Some (k1, q, Done (err k1 t, None, None))
               else f o' time q k1
             }
           else None)
        else do {
          x \<leftarrow> dq_first q;
          let q1 = q\<lparr>dq_get := u16 (int (dq_get q) + 1)\<rparr>;
          (if int (dq_put q1) - int (dq_get q1) \<le> int (dq_lwm q1) then
             (if lists k (LSender o') \<noteq> [] then
                do {
                  k1 \<leftarrow> rt_ipc_list_resume (LSender o') k;
                  k2 \<leftarrow> rt_schedule k1;
                  Some (k2, q1, Done (RT_EOK, Some x, dq_event RT_DATAQUEUE_EVENT_LWM q))
                }
              else Some (k, q1, Done (RT_EOK, Some x, dq_event RT_DATAQUEUE_EVENT_LWM q)))
           else Some (k, q1, Done (RT_EOK, Some x, dq_event RT_DATAQUEUE_EVENT_POP q)))
        }) = Some y"
    show "?P q y"
    proof (cases "dq_get q = dq_put q")
      case True
      have f: "q2 = q \<and> popped r2 = []" if "f o' time q k1 = Some (k2, q2, r2)" for k1 k2 q2 r2
        using IH [OF that] True by simp
      show ?thesis using True body by (auto simp: bind_Some_iff split: if_splits dest: f)
    next
      case False
      then show ?thesis using body by (auto simp: bind_Some_iff Let_def split: if_splits)
    qed
  qed
  then show ?thesis by simp
qed

text \<open>One step: what it adds at the two ends. The bound counts the items accepted.\<close>

lemma dq_step_ok:
  assumes "dq_step o' (q, k, ins, outs) (q', k', ins', outs')" "dq_inv q"
  shows "\<exists>a b. ins' = ins @ a \<and> outs' = outs @ b \<and>
    (dq_put q + length a < 65536 \<longrightarrow> dq_inv q' \<and> dq_put q' = dq_put q + length a \<and> dq_abs q @ a = b @ dq_abs q' \<and> dq_size q' = dq_size q)"
proof -
  have pu: ?thesis if r: "q' = q \<and> pushed x r = [] \<or> \<not> dq_full q \<and> dq_store x q = Some q' \<and> pushed x r = [x]"
    "ins' = ins @ pushed x r" "outs' = outs" for x r
    using r(1)
  proof
    assume c: "\<not> dq_full q \<and> dq_store x q = Some q' \<and> pushed x r = [x]"
    have "dq_inv q' \<and> dq_put q' = Suc (dq_put q) \<and> dq_abs q @ [x] = dq_abs q' \<and> dq_size q' = dq_size q" if "dq_put q + 1 < 65536"
      using dq_store_spec [OF assms(2), of x] c that by auto
    then show ?thesis using c r(2,3) by (intro exI [of _ "[x]"] exI [of _ "[]"]) simp
  next
    assume "q' = q \<and> pushed x r = []"
    then have "q' = q" "ins' = ins" "outs' = outs" using r(2,3) by simp_all
    then show ?thesis using assms(2) by (intro exI [of _ "[]"] conjI impI) simp_all
  qed
  have po: ?thesis if r: "q' = q \<and> popped r = [] \<or> dq_get q \<noteq> dq_put q \<and> q' = q\<lparr>dq_get := u16 (int (dq_get q) + 1)\<rparr> \<and>
      (\<exists>x. dq_first q = Some x \<and> popped r = [x])" "ins' = ins" "outs' = outs @ popped r" for r
    using r(1)
  proof
    assume c: "dq_get q \<noteq> dq_put q \<and> q' = q\<lparr>dq_get := u16 (int (dq_get q) + 1)\<rparr> \<and> (\<exists>x. dq_first q = Some x \<and> popped r = [x])"
    then obtain y ys where "dq_abs q = y # ys" using dq_invD(3) [OF assms(2)] by (cases "dq_abs q") auto
    note f = dq_first_spec [OF assms(2) this]
    have "outs' = outs @ [y]" using c r(3) f(1) by auto
    moreover have "dq_inv q' \<and> dq_put q' = dq_put q \<and> dq_abs q = y # dq_abs q' \<and> dq_size q' = dq_size q"
      using c f(2,3) \<open>dq_abs q = y # ys\<close> by auto
    ultimately show ?thesis using r(2) by (intro exI [of _ "[]"] exI [of _ "[y]"]) simp
  next
    assume "q' = q \<and> popped r = []"
    then have "q' = q" "ins' = ins" "outs' = outs" using r(2,3) by simp_all
    then show ?thesis using assms(2) by (intro exI [of _ "[]"] conjI impI) simp_all
  qed
  from assms(1) show ?thesis
  proof (cases rule: dq_step.cases)
    case (push x time r)
    then have "dq_push_loop o' x time q k = Some (k', q', r)" by (simp add: rt_data_queue_push_def split: if_splits)
    from dq_push_result [OF this] show ?thesis using pu push by blast
  next
    case (push_resume x time t r)
    have "q' = q \<and> pushed x r = [] \<or> \<not> dq_full q \<and> dq_store x q = Some q' \<and> pushed x r = [x]"
      using push_resume dq_push_result [of o' x time q k k' q' r]
      by (auto simp: rt_data_queue_push_resume_def pushed_def split: if_splits)
    then show ?thesis using pu push_resume by blast
  next
    case (pop time r)
    then have "dq_pop_loop o' time q k = Some (k', q', r)" by (simp add: rt_data_queue_pop_def split: if_splits)
    from dq_pop_result [OF this] show ?thesis using po pop by blast
  next
    case (pop_resume time t r)
    have "q' = q \<and> popped r = [] \<or> dq_get q \<noteq> dq_put q \<and> q' = q\<lparr>dq_get := u16 (int (dq_get q) + 1)\<rparr> \<and>
      (\<exists>x. dq_first q = Some x \<and> popped r = [x])"
      using pop_resume dq_pop_result [of o' time q k k' q' r]
      by (auto simp: rt_data_queue_pop_resume_def popped_def split: if_splits)
    then show ?thesis using po pop_resume by blast
  qed (use assms(2) in \<open>(intro exI [of _ "[]"] conjI impI; simp)\<close>)+
qed

lemma dq_steps_ok:
  "(dq_step o')\<^sup>*\<^sup>* (q, k, [], []) (q', k', ins, outs) \<Longrightarrow> dq_inv q \<Longrightarrow> dq_put q + length ins < 65536 \<Longrightarrow>
    dq_inv q' \<and> dq_put q' = dq_put q + length ins \<and> dq_abs q @ ins = outs @ dq_abs q' \<and> dq_size q' = dq_size q"
proof (induction "(q', k', ins, outs)" arbitrary: q' k' ins outs rule: rtranclp_induct)
  case (step y)
  obtain q1 k1 ins1 outs1 where y: "y = (q1, k1, ins1, outs1)" by (cases y)
  have "\<exists>a b. ins = ins1 @ a \<and> outs = outs1 @ b" if "dq_inv q1" using dq_step_ok [OF step(2) [unfolded y] that] by blast
  have mono: "length ins1 \<le> length ins"
    using step(2) unfolding y by (cases rule: dq_step.cases) simp_all
  have h: "dq_inv q1" "dq_put q1 = dq_put q + length ins1" "dq_abs q @ ins1 = outs1 @ dq_abs q1" "dq_size q1 = dq_size q"
    using step(3) [OF y step(4)] step(5) mono by simp_all
  obtain a b where ab: "ins = ins1 @ a" "outs = outs1 @ b"
    "dq_put q1 + length a < 65536 \<longrightarrow> dq_inv q' \<and> dq_put q' = dq_put q1 + length a \<and> dq_abs q1 @ a = b @ dq_abs q' \<and> dq_size q' = dq_size q1"
    using dq_step_ok [OF step(2) [unfolded y] h(1)] by blast
  then have r: "dq_inv q'" "dq_put q' = dq_put q1 + length a" "dq_abs q1 @ a = b @ dq_abs q'" "dq_size q' = dq_size q1"
    using step(5) h(2) by simp_all
  have "dq_abs q @ ins = outs @ dq_abs q'" unfolding ab(1,2) using h(3) r(3) by (metis append.assoc)
  then show ?case using r h ab(1) by simp
qed simp

section \<open>Waiting\<close>

lemma dq_push_blocks:
  assumes "can_block t k" "dq_magic q" "dq_full q" "time \<noteq> 0" "time < 0x7fffffff"
  shows "\<exists>k'. rt_data_queue_push o' x time q k = Some (k', q, Waits) \<and>
    ipc_wait (LSender o') RT_IPC_FLAG_FIFO time t (clear_error t k) = Some k' \<and> ipc_inv k' \<and> stat k' t = T_SUSPEND \<and>
    lists k' (LSender o') = lists k (LSender o') @ [t]"
proof -
  note b = can_blockD [OF assms(1)]
  obtain k' where
    k': "ipc_wait (LSender o') RT_IPC_FLAG_FIFO time t (clear_error t k) = Some k'" "ipc_inv k'" "cur k' \<noteq> Some t" "stat k' t = T_SUSPEND"
    "\<forall>m. wait_list m \<longrightarrow> lists k' m = ((lists k)(LSender o' := wait_insert RT_IPC_FLAG_FIFO (prio k) t (lists k (LSender o')))) m"
    using block_cleared [OF assms(1) _ assms(5), of "LSender o'" RT_IPC_FLAG_FIFO] by auto
  then show ?thesis using assms(2-4) b(2,4)
    by (simp add: rt_data_queue_push_def dq_push_loop.simps in_thread_context_def)
qed

lemma dq_pop_blocks:
  assumes "can_block t k" "dq_magic q" "dq_get q = dq_put q" "time \<noteq> 0" "time < 0x7fffffff"
  shows "\<exists>k'. rt_data_queue_pop o' time q k = Some (k', q, Waits) \<and>
    ipc_wait (LSuspend o') RT_IPC_FLAG_FIFO time t (clear_error t k) = Some k' \<and> ipc_inv k' \<and> stat k' t = T_SUSPEND \<and>
    lists k' (LSuspend o') = lists k (LSuspend o') @ [t]"
proof -
  note b = can_blockD [OF assms(1)]
  obtain k' where
    k': "ipc_wait (LSuspend o') RT_IPC_FLAG_FIFO time t (clear_error t k) = Some k'" "ipc_inv k'" "cur k' \<noteq> Some t" "stat k' t = T_SUSPEND"
    "\<forall>m. wait_list m \<longrightarrow> lists k' m = ((lists k)(LSuspend o' := wait_insert RT_IPC_FLAG_FIFO (prio k) t (lists k (LSuspend o')))) m"
    using block_cleared [OF assms(1) _ assms(5), of "LSuspend o'" RT_IPC_FLAG_FIFO] by auto
  then show ?thesis using assms(2-4) b(2,4)
    by (simp add: rt_data_queue_pop_def dq_pop_loop.simps in_thread_context_def)
qed

text \<open>A call made by a thread that can block returns or waits.\<close>

lemma push_returns:
  assumes "can_block t k" "dq_inv q" "dq_put q < 65535" "time < 0x7fffffff"
  shows "rt_data_queue_push o' x time q k \<noteq> None"
proof -
  note b = can_blockD [OF assms(1)] and d = dq_invD [OF assms(2)]
  show ?thesis
  proof (cases "dq_full q")
    case False
    from dq_push_room [OF b(1,2) assms(2) this assms(3), of o' x time] show ?thesis using d(1) by (auto simp: rt_data_queue_push_def)
  next
    case True
    show ?thesis
    proof (cases "time = 0")
      case False
      from dq_push_blocks [OF assms(1) d(1) True this assms(4), of o' x] show ?thesis by auto
    qed (use True d(1) in \<open>simp add: rt_data_queue_push_def dq_push_loop.simps\<close>)
  qed
qed

lemma pop_returns:
  assumes "can_block t k" "dq_inv q" "time < 0x7fffffff"
  shows "rt_data_queue_pop o' time q k \<noteq> None"
proof -
  note b = can_blockD [OF assms(1)] and d = dq_invD [OF assms(2)]
  show ?thesis
  proof (cases "dq_abs q")
    case (Cons x xs)
    from dq_pop_item [OF b(1,2) assms(2) Cons, of o' time] show ?thesis using d(1) by (auto simp: rt_data_queue_pop_def)
  next
    case Nil
    then have e: "dq_get q = dq_put q" using d(3) by simp
    show ?thesis
    proof (cases "time = 0")
      case False
      from dq_pop_blocks [OF assms(1) d(1) e this assms(3), of o'] show ?thesis by auto
    qed (use e d(1) in \<open>simp add: rt_data_queue_pop_def dq_pop_loop.simps\<close>)
  qed
qed

section \<open>Properties\<close>

text \<open>A queue of \<open>n\<close> places whose \<open>c\<close> items were the last of \<open>p\<close> pushes.\<close>

definition dq_sample :: "nat \<Rightarrow> nat \<Rightarrow> nat \<Rightarrow> rt_data_queue" where
  "dq_sample n p c = \<lparr>dq_magic = True, dq_size = n, dq_lwm = 0, dq_get = p - c, dq_put = p, dq_ptr = 4096,
     dq_queue = replicate n (0, 0), dq_notify = True\<rparr>"

lemma dq_sample_inv: "0 < n \<Longrightarrow> c \<le> n \<Longrightarrow> c \<le> p \<Longrightarrow> p < 65536 \<Longrightarrow> dq_inv (dq_sample n p c)"
  by (auto simp: dq_inv_def dq_sample_def)

text \<open>C32. First in, first out. In any history of a data queue, whose calls may end at once, wait, time out and be resumed in any
  order among anything else that happens in the kernel, what was in the queue and was accepted is what was handed out followed by what is
  still in it, and there are never more items than places, as long as fewer than 65536 items have been accepted in the
  life of the queue (rejected pushes and pops do not count; \<open>dq_put\<close> is the number at the start). And
  a call never fails: made by a thread that can block, it returns or waits.\<close>

theorem dq_fifo:
  assumes "(dq_step o')\<^sup>*\<^sup>* (q, k, [], []) (q', k', ins, outs)" "dq_inv q" "dq_put q + length ins < 65536"
  shows "dq_abs q @ ins = outs @ dq_abs q' \<and> length (dq_abs q') \<le> dq_size q \<and>
    (can_block t k' \<and> time < 0x7fffffff \<longrightarrow>
      (dq_put q + length ins < 65535 \<longrightarrow> rt_data_queue_push o' x time q' k' \<noteq> None) \<and> rt_data_queue_pop o' time q' k' \<noteq> None)"
proof -
  note r = dq_steps_ok [OF assms]
  then have i: "dq_inv q'" "dq_put q' = dq_put q + length ins" by auto
  have "rt_data_queue_push o' x time q' k' \<noteq> None"
    if c: "can_block t k'" "time < 0x7fffffff" "dq_put q + length ins < 65535"
    using push_returns [OF c(1) i(1) _ c(2)] c(3) i(2) by simp
  moreover have "rt_data_queue_pop o' time q' k' \<noteq> None" if c: "can_block t k'" "time < 0x7fffffff"
    using pop_returns [OF c(1) i(1) c(2)] by simp
  ultimately show ?thesis using r dq_invD(4) [OF i(1)] by auto
qed

text \<open>A queue of two places: a pop that waits; an item pushed and popped again.\<close>

theorem dq_fifo_witness:
  "\<exists>k1 k2 q2 k3 q3 ins outs.
    (dq_step 0)\<^sup>*\<^sup>* (dq_sample 2 0 0, kern_example, [], []) (dq_sample 2 0 0, k1, [], []) \<and> stat k1 1 = T_SUSPEND \<and>
    (dq_step 0)\<^sup>*\<^sup>* (dq_sample 2 0 0, kern_example, [], []) (q2, k2, [(7, 4)], []) \<and>
    (dq_step 0)\<^sup>*\<^sup>* (dq_sample 2 0 0, kern_example, [], []) (q3, k3, [(7, 4)], [(7, 4)]) \<and>
    dq_abs q2 = [(7, 4)] \<and> dq_abs q3 = []"
proof -
  let ?q = "dq_sample 2 0 0"
  have i: "dq_inv ?q" by (rule dq_sample_inv) simp_all
  have e: "dq_abs ?q = []" "dq_get ?q = dq_put ?q" "dq_put ?q = 0" "dq_size ?q = 2" "\<not> dq_full ?q"
    by (simp_all add: dq_sample_def dq_abs_def ring_list_def dq_full_def)
  obtain k1 where k1: "rt_data_queue_pop 0 (- 1) ?q kern_example = Some (k1, ?q, Waits)" "stat k1 1 = T_SUSPEND"
    using dq_pop_blocks [OF kern_example_can_block dq_invD(1) [OF i] e(2), of "- 1" 0] by auto
  have s1: "(dq_step 0)\<^sup>*\<^sup>* (?q, kern_example, [], []) (?q, k1, [], [])"
    using dq_step.pop [OF k1(1), of "[]" "[]"] by (simp add: popped_def r_into_rtranclp)
  note b = can_blockD [OF kern_example_can_block]
  obtain k2 q2 c2 r where k2: "rt_data_queue_push 0 (7, 4) 0 ?q kern_example = Some (k2, q2, Done (RT_EOK, r))"
    "ipc_inv k2" "cur k2 = Some c2" "dq_inv q2" "dq_abs q2 = [(7, 4)]"
    using dq_push_room [OF b(1,2) i e(5), of 0 "(7, 4)" 0] dq_invD(1) [OF i] e by (auto simp: rt_data_queue_push_def)
  have s3: "(dq_step 0)\<^sup>*\<^sup>* (?q, kern_example, [], []) (q2, k2, [(7, 4)], [])"
    using dq_step.push [OF k2(1), of "[]" "[]"] by (simp add: pushed_def r_into_rtranclp)
  obtain k3 q3 y where k3: "rt_data_queue_pop 0 0 q2 k2 = Some (k3, q3, Done (RT_EOK, Some (7, 4), y))"
    using dq_pop_item [OF k2(2-5), of 0 0] dq_invD(1) [OF k2(4)] by (auto simp: rt_data_queue_pop_def)
  have s4: "(dq_step 0)\<^sup>*\<^sup>* (?q, kern_example, [], []) (q3, k3, [(7, 4)], [(7, 4)])"
    using rtranclp.rtrancl_into_rtrancl [OF s3 dq_step.pop [OF k3]] by (simp add: popped_def)
  have "dq_abs q3 = []" using dq_fifo [OF s4 i] e by simp
  then show ?thesis using s1 s3 s4 k1(2) k2(5) by blast
qed

text \<open>After 65535 pushes the index of the next push becomes 0, and the test for a full queue, which
  compares the difference of the two indices as a signed number, fails from then on: with room for one more item, two
  pushes in a row succeed without waiting, and the second overwrites an item that was never handed out.\<close>

theorem dq_index_overflow:
  assumes "dq_inv q" "dq_put q = 65535" "Suc (length (dq_abs q)) = dq_size q" "lists k (LSuspend o') = []"
  shows "\<exists>q1 q2 e. rt_data_queue_push o' x 0 q k = Some (k, q1, Done (RT_EOK, e)) \<and>
    rt_data_queue_push o' y 0 q1 k = Some (k, q2, Done (RT_EOK, e)) \<and>
    dq_queue q2 = (dq_queue q)[65535 mod dq_size q := x, 0 := y]"
proof -
  have i: "dq_magic q" "0 < dq_size q" "length (dq_queue q) = dq_size q" "\<not> dq_full q"
    using assms dq_invD(2) [OF assms(1)] by (auto simp: dq_inv_def)
  have u: "u16 (int 65535 + 1) = 0" by (simp add: u16_def)
  define q1 where "q1 = q\<lparr>dq_queue := (dq_queue q)[65535 mod dq_size q := x], dq_put := 0\<rparr>"
  have s1: "dq_store x q = Some q1" using i(2,3) u by (simp add: dq_store_def assms(2) q1_def)
  have f1: "\<not> dq_full q1" using i(2) by (simp add: dq_full_def q1_def)
  obtain q2 where s2: "dq_store y q1 = Some q2" "dq_queue q2 = (dq_queue q)[65535 mod dq_size q := x, 0 := y]"
    using i(2,3) by (auto simp: dq_store_def q1_def)
  show ?thesis using i(1,4) s1 f1 s2 assms(4)
    by (simp add: rt_data_queue_push_def dq_push_loop.simps dq_event_def q1_def)
qed

theorem dq_index_overflow_witness:
  "\<exists>q1 q2 e. rt_data_queue_push 0 (1, 4) 0 (dq_sample 1 65535 0) kern_example = Some (kern_example, q1, Done (RT_EOK, e)) \<and>
    rt_data_queue_push 0 (2, 4) 0 q1 kern_example = Some (kern_example, q2, Done (RT_EOK, e)) \<and> dq_queue q2 = [(2, 4)]"
  using dq_index_overflow [OF dq_sample_inv [of 1 0 65535], of kern_example 0 "(1, 4)" "(2, 4)"]
  by (auto simp: dq_sample_def kern_example_waits)

text \<open>A push. With room, the item becomes the last of the queue, and the thread that has waited longest for
  an item, if there is one, is woken in place of the notification. Without, the call gives up at once with time 0, and
  else the caller becomes the last of the waiting threads.\<close>

theorem dq_push_spec:
  assumes "can_block t k" "dq_inv q" "dq_put q < 65535" "time < 0x7fffffff"
  shows "\<exists>k' q' r. rt_data_queue_push o' x time q k = Some (k', q', r) \<and> ipc_inv k' \<and>
    (if length (dq_abs q) < dq_size q then
       r = Done (RT_EOK, if lists k (LSuspend o') = [] then dq_event RT_DATAQUEUE_EVENT_PUSH q else None) \<and> dq_inv q' \<and>
       dq_abs q' = dq_abs q @ [x] \<and> lists k' (LSuspend o') = tl (lists k (LSuspend o'))
     else if time = 0 then r = Done (RT_ETIMEOUT, None) \<and> q' = q \<and> k' = k
     else r = Waits \<and> q' = q \<and> stat k' t = T_SUSPEND \<and> lists k' (LSender o') = lists k (LSender o') @ [t])"
proof -
  note b = can_blockD [OF assms(1)] and d = dq_invD [OF assms(2)]
  show ?thesis
  proof (cases "length (dq_abs q) < dq_size q")
    case True
    then have "\<not> dq_full q" using d(2) by simp
    from dq_push_room [OF b(1,2) assms(2) this assms(3), of o' x time] show ?thesis
      using True d(1) by (auto simp: rt_data_queue_push_def)
  next
    case False
    then have f: "dq_full q" using d(2,4) by simp
    show ?thesis
    proof (cases "time = 0")
      case True
      then show ?thesis using False f d(1) b(1) by (simp add: rt_data_queue_push_def dq_push_loop.simps)
    next
      case nz: False
      from dq_push_blocks [OF assms(1) d(1) f nz assms(4), of o' x] show ?thesis using False nz by auto
    qed
  qed
qed

theorem dq_push_spec_witness:
  "\<exists>k' q'. rt_data_queue_push 0 (7, 4) 3 (dq_sample 2 2 2) kern_example = Some (k', q', Waits) \<and> lists k' (LSender 0) = [1]"
  using dq_push_spec [OF kern_example_can_block dq_sample_inv [of 2 2 2], of 3 0 "(7, 4)"]
  by (auto simp: dq_sample_def dq_abs_def kern_example_waits)

text \<open>A pop hands out the oldest item. Only when no more items than the low-water mark are left is the thread
  that has waited longest for a place woken; above the mark the waiting threads keep waiting although there is room.\<close>

theorem dq_pop_spec:
  assumes "can_block t k" "dq_inv q" "time < 0x7fffffff"
  shows "\<exists>k' q' r. rt_data_queue_pop o' time q k = Some (k', q', r) \<and> ipc_inv k' \<and> dq_inv q' \<and>
    (case dq_abs q of
       x # xs \<Rightarrow> dq_abs q' = xs \<and>
         (if length xs \<le> dq_lwm q then r = Done (RT_EOK, Some x, dq_event RT_DATAQUEUE_EVENT_LWM q) \<and> lists k' (LSender o') = tl (lists k (LSender o'))
          else r = Done (RT_EOK, Some x, dq_event RT_DATAQUEUE_EVENT_POP q) \<and> k' = k)
     | [] \<Rightarrow> q' = q \<and>
         (if time = 0 then r = Done (RT_ETIMEOUT, None, None) \<and> k' = k
          else r = Waits \<and> stat k' t = T_SUSPEND \<and> lists k' (LSuspend o') = lists k (LSuspend o') @ [t]))"
proof -
  note b = can_blockD [OF assms(1)] and d = dq_invD [OF assms(2)]
  show ?thesis
  proof (cases "dq_abs q")
    case (Cons x xs)
    have u: "rt_data_queue_pop o' time q k = dq_pop_loop o' time q k" using d(1) by (simp add: rt_data_queue_pop_def)
    show ?thesis
      using dq_pop_item [OF b(1,2) assms(2) Cons, of o' time] Cons unfolding u
      by (cases "length xs \<le> dq_lwm q") (simp, blast)+
  next
    case Nil
    then have e: "dq_get q = dq_put q" using d(3) by simp
    show ?thesis
    proof (cases "time = 0")
      case True
      then show ?thesis using Nil e d(1) b(1) assms(2) by (simp add: rt_data_queue_pop_def dq_pop_loop.simps)
    next
      case nz: False
      from dq_pop_blocks [OF assms(1) d(1) e nz assms(3), of o'] show ?thesis using Nil nz assms(2) by auto
    qed
  qed
qed

theorem dq_pop_spec_witness:
  "\<exists>k' q'. rt_data_queue_pop 0 3 (dq_sample 2 0 0) kern_example = Some (k', q', Waits) \<and> lists k' (LSuspend 0) = [1]"
  using dq_pop_spec [OF kern_example_can_block dq_sample_inv [of 2 0 0], of 3 0]
  by (auto simp: dq_sample_def dq_abs_def ring_list_def kern_example_waits)

text \<open>A timed push into a full queue that nobody empties, and a timed pop from an empty one that nobody fills: the
  thread is suspended for exactly the given ticks and then gives up with the timeout error.\<close>

theorem dq_times_out:
  assumes "can_block t k" "dq_inv q" "0 < time" "time < 0x7fffffff"
  shows "(dq_full q \<longrightarrow> (\<exists>k1 k2. rt_data_queue_push o' x time q k = Some (k1, q, Waits) \<and> rt_ticks m user k1 = Some k2 \<and>
      (if int m < time then stat k2 t = T_SUSPEND
       else active_stat (stat k2 t) \<and> rt_data_queue_push_resume o' x time t q k2 = Some (k2, q, Done (RT_ETIMEOUT, None))))) \<and>
    (dq_abs q = [] \<longrightarrow> (\<exists>k1 k2. rt_data_queue_pop o' time q k = Some (k1, q, Waits) \<and> rt_ticks m user k1 = Some k2 \<and>
      (if int m < time then stat k2 t = T_SUSPEND
       else active_stat (stat k2 t) \<and> rt_data_queue_pop_resume o' time t q k2 = Some (k2, q, Done (RT_ETIMEOUT, None, None)))))"
proof -
  have nz: "time \<noteq> 0" using assms(3) by simp
  note cb = can_block_clear [OF assms(1)]
  have "\<exists>k1 k2. rt_data_queue_push o' x time q k = Some (k1, q, Waits) \<and> rt_ticks m user k1 = Some k2 \<and>
      (if int m < time then stat k2 t = T_SUSPEND
       else active_stat (stat k2 t) \<and> rt_data_queue_push_resume o' x time t q k2 = Some (k2, q, Done (RT_ETIMEOUT, None)))"
    if f: "dq_full q"
  proof -
    obtain k1 where k1: "rt_data_queue_push o' x time q k = Some (k1, q, Waits)"
      "ipc_wait (LSender o') RT_IPC_FLAG_FIFO time t (clear_error t k) = Some k1"
      using dq_push_blocks [OF assms(1) dq_invD(1) [OF assms(2)] f nz assms(4), of o' x] by blast
    show ?thesis using timed_wait_expires [OF cb _ assms(3,4) k1(2), of m user] k1(1)
      by (auto simp: rt_data_queue_push_resume_def)
  qed
  moreover have "\<exists>k1 k2. rt_data_queue_pop o' time q k = Some (k1, q, Waits) \<and> rt_ticks m user k1 = Some k2 \<and>
      (if int m < time then stat k2 t = T_SUSPEND
       else active_stat (stat k2 t) \<and> rt_data_queue_pop_resume o' time t q k2 = Some (k2, q, Done (RT_ETIMEOUT, None, None)))"
    if e: "dq_abs q = []"
  proof -
    have "dq_get q = dq_put q" using dq_invD(3) [OF assms(2)] e by simp
    then obtain k1 where k1: "rt_data_queue_pop o' time q k = Some (k1, q, Waits)"
      "ipc_wait (LSuspend o') RT_IPC_FLAG_FIFO time t (clear_error t k) = Some k1"
      using dq_pop_blocks [OF assms(1) dq_invD(1) [OF assms(2)] _ nz assms(4), of o'] by blast
    show ?thesis using timed_wait_expires [OF cb _ assms(3,4) k1(2), of m user] k1(1)
      by (auto simp: rt_data_queue_pop_resume_def)
  qed
  ultimately show ?thesis by blast
qed

theorem dq_times_out_witness:
  "\<exists>k1 k2. rt_data_queue_push 0 (7, 4) 20 (dq_sample 2 2 2) kern_example = Some (k1, dq_sample 2 2 2, Waits) \<and>
    rt_ticks 20 (\<lambda>_. Some) k1 = Some k2 \<and> rt_data_queue_push_resume 0 (7, 4) 20 1 (dq_sample 2 2 2) k2 = Some (k2, dq_sample 2 2 2, Done (RT_ETIMEOUT, None))"
proof -
  have "dq_full (dq_sample 2 2 2)" by (simp add: dq_full_def dq_sample_def)
  then show ?thesis
    using dq_times_out [OF kern_example_can_block dq_sample_inv [of 2 2 2], of 20 0 "(7, 4)" 20 "\<lambda>_. Some"] by auto
qed

section \<open>Beginning and end\<close>

text \<open>A new queue is empty, whatever the memory holds; its ring is a live block of the heap of at least 8 bytes per
  item. If the heap has no block the call reports it.\<close>

lemma dq_init_spec:
  assumes "sys_ok hs m" "sys \<in> set hs" "0 < sz" "sz < 65536"
  shows "\<exists>k' m' q e. rt_data_queue_init o' sz lwm notify old sys hs k m = Some (k', m', q, e) \<and> sys_ok hs m' \<and>
    (if e = RT_EOK then dq_inv q \<and> dq_abs q = [] \<and> dq_size q = sz \<and>
       (\<exists>j. live_sys hs m' = (live_sys hs m)(dq_ptr q \<mapsto> j) \<and> 8 * sz \<le> j)
     else e = RT_ENOMEM \<and> live_sys hs m' = live_sys hs m)"
proof -
  obtain p m1 where p: "rt_malloc sys hs (8 * sz) m = Some (p, m1)" "alloc_result hs (8 * sz) m p m1"
    by (rule malloc_result [OF assms(1,2)])
  show ?thesis
  proof (cases "p = 0")
    case True
    then show ?thesis using p by (simp add: rt_data_queue_init_def alloc_result_def)
  next
    case False
    then obtain l where l: "request_size (8 * sz) \<le> l" "live_sys hs m1 = (live_sys hs m)(p \<mapsto> l)" "sys_ok hs m1"
      using p(2) by (auto simp: alloc_result_def)
    have "8 * sz \<le> l" using request_size_facts(4) [of "8 * sz"] l(1) assms(4) by simp
    then show ?thesis using p(1) False l(2,3) assms(3)
      by (auto simp: rt_data_queue_init_def dq_inv_def dq_abs_def ring_list_def)
  qed
qed

text \<open>A reset wakes every waiting thread with the error \<^verbatim>\<open>RT_ERROR\<close>, which its push or pop returns. The items
  and the indices stay as they are.\<close>

theorem dq_reset_spec:
  assumes "ipc_inv k" "cur k = Some c" "lock_nest k = 0" "dq_magic q"
  shows "\<exists>k'. rt_data_queue_reset o' q k = Some k' \<and> ipc_inv k' \<and> lists k' (LSuspend o') = [] \<and> lists k' (LSender o') = [] \<and>
    (\<forall>t \<in> set (lists k (LSuspend o')). rt_data_queue_pop_resume o' time t q k' = Some (k', q, Done (RT_ERROR, None, None))) \<and>
    (\<forall>t \<in> set (lists k (LSender o')). rt_data_queue_push_resume o' x time t q k' = Some (k', q, Done (RT_ERROR, None)))"
proof -
  define k0 where "k0 = rt_enter_critical k"
  have k0: "ipc_inv k0" "cur k0 = Some c" "lists k0 = lists k" "lock_nest k0 = 1"
    using enter_outermost [OF assms(1,3)] assms(2) by (simp_all add: k0_def)
  from resume_all_spec [OF k0(1), of "LSuspend o'"] obtain k1 where
    k1: "rt_ipc_list_resume_all (LSuspend o') k0 = Some k1" "ipc_inv k1" "cur k1 = cur k0" "lock_nest k1 = lock_nest k0"
    "\<forall>m. wait_list m \<longrightarrow> lists k1 m = ((lists k0)(LSuspend o' := [])) m"
    "\<forall>t. if t \<in> set (lists k0 (LSuspend o')) then active_stat (stat k1 t) \<and> err k1 t = RT_ERROR else tcbs k1 t = tcbs k0 t" by auto
  from resume_all_spec [OF k1(2), of "LSender o'"] obtain k2 where
    k2: "rt_ipc_list_resume_all (LSender o') k1 = Some k2" "ipc_inv k2" "cur k2 = cur k1" "lock_nest k2 = lock_nest k1"
    "\<forall>m. wait_list m \<longrightarrow> lists k2 m = ((lists k1)(LSender o' := [])) m"
    "\<forall>t. if t \<in> set (lists k1 (LSender o')) then active_stat (stat k2 t) \<and> err k2 t = RT_ERROR else tcbs k2 t = tcbs k1 t" by auto
  have l2: "lists k2 (LSuspend o') = []" "lists k2 (LSender o') = []" using k1(5) k2(5) by simp_all
  have w: "active_stat (stat k2 t) \<and> err k2 t = RT_ERROR" if "t \<in> set (lists k (LSuspend o')) \<or> t \<in> set (lists k (LSender o'))" for t
  proof (cases "t \<in> set (lists k (LSender o'))")
    case True
    then show ?thesis using k2(6) k1(5) k0(3) by auto
  next
    case False
    then have "t \<notin> set (lists k1 (LSender o'))" using k1(5) k0(3) by auto
    then have "tcbs k2 t = tcbs k1 t" using k2(6) by auto
    then show ?thesis using False that k1(6) k0(3) by auto
  qed
  have c2: "cur k2 = Some c" using k2(3) k1(3) k0(2) by simp
  have n2: "lock_nest k2 = 1" using k2(4) k1(4) k0(4) by simp
  obtain k3 c3 where k3: "rt_exit_critical k2 = Some k3" "ipc_inv k3" "cur k3 = Some c3" "\<forall>l. wait_list l \<longrightarrow> lists k3 l = lists k2 l"
    "\<forall>x. same_but_stat (tcbs k2 x) (tcbs k3 x)"
    using exit_outermost [OF k2(2) c2 n2] by blast
  obtain k4 c4 where k4: "rt_schedule k3 = Some k4" "ipc_inv k4" "sched_frame k3 k4" using schedule_ipc [OF k3(2,3)] by blast
  have r: "rt_data_queue_reset o' q k = Some k4"
    using k1(1) k2(1) k3(1) k4(1) assms(4) by (simp add: rt_data_queue_reset_def k0_def)
  have "err k4 t = err k2 t" for t
    using k3(5) sched_frameD [OF k4(3), of t] same_but_statD [of "tcbs k3 t" "tcbs k4 t"] same_but_statD [of "tcbs k2 t" "tcbs k3 t"]
    by auto
  then have e: "err k4 t = RT_ERROR" if "t \<in> set (lists k (LSuspend o')) \<or> t \<in> set (lists k (LSender o'))" for t
    using w [OF that] by simp
  have "lists k4 m = lists k2 m" if "wait_list m" for m
    using k3(4) wait_list_sched [OF k4(3) that] that by simp
  then show ?thesis using r k4(2) l2 e by (simp add: rt_data_queue_pop_resume_def rt_data_queue_push_resume_def)
qed

theorem dq_reset_spec_witness:
  "\<exists>k'. rt_data_queue_reset 0 (dq_sample 2 0 0) kern_example = Some k' \<and> lists k' (LSuspend 0) = []"
proof -
  have q: "dq_magic (dq_sample 2 0 0)" by (simp add: dq_sample_def)
  show ?thesis
    using dq_reset_spec [OF can_blockD(1) [OF kern_example_can_block] can_blockD(2) [OF kern_example_can_block]
        can_blockD(5) [OF kern_example_can_block] q, where o' = 0 and time = 0 and x = "(0, 0)"] by blast
qed

end
