(* ===== verification/WorkQueue.thy ===== *)
theory WorkQueue
  imports Sem
begin

text \<open>
  Work queues, \<^verbatim>\<open>components/drivers/src/workqueue.c\<close>. A work item is linked in the list of at most one
  queue; its number \<open>w\<close> also names its timer, \<open>TUser w\<close>. The thread of a queue runs a loop of three pieces, between
  which the interrupts are enabled: it looks whether the list is empty and, if so, suspends itself; it takes the first
  item; and, after the function of the item, which is application code, it ends the item. \<open>None\<close> is a failed assertion,
  a null pointer, or the head of an empty list taken for a work item. \<open>tt\<close> is the timer thread.
\<close>

section \<open>Operations\<close>

type_synonym wid = nat
type_synonym qid = nat

record rt_work =
  wk_pending :: bool
  wk_submitting :: bool
  wk_delayed :: bool
  wk_workqueue :: "qid option"

record rt_workqueue =
  work_list :: "wid list"
  work_current :: "wid option"
  work_sem :: sem
  work_sem_id :: nat
  work_thread :: tid

record wstate =
  queues :: "qid \<Rightarrow> rt_workqueue"
  works :: "wid \<Rightarrow> rt_work"

definition upd_queue :: "qid \<Rightarrow> (rt_workqueue \<Rightarrow> rt_workqueue) \<Rightarrow> wstate \<Rightarrow> wstate" where
  "upd_queue q f s = s\<lparr>queues := (queues s)(q := f (queues s q))\<rparr>"

definition upd_work :: "wid \<Rightarrow> (rt_work \<Rightarrow> rt_work) \<Rightarrow> wstate \<Rightarrow> wstate" where
  "upd_work w f s = s\<lparr>works := (works s)(w := f (works s w))\<rparr>"

text \<open>Unlinking an item from whatever list it is in.\<close>

definition work_unlink :: "wid \<Rightarrow> wstate \<Rightarrow> wstate" where
  "work_unlink w s = s\<lparr>queues := (\<lambda>q. (queues s q)\<lparr>work_list := removeAll w (work_list (queues s q))\<rparr>)\<rparr>"

definition rt_work_init :: "wid \<Rightarrow> wstate \<Rightarrow> wstate" where
  "rt_work_init w = upd_work w (\<lambda>_. \<lparr>wk_pending = False, wk_submitting = False, wk_delayed = False, wk_workqueue = None\<rparr>)"

partial_function (option) work_completion_loop :: "nat \<Rightarrow> sem \<Rightarrow> kern \<Rightarrow> (kern \<times> sem \<times> rt_err) option" where
  "work_completion_loop o' sm k =
     do {
       (k1, sm1, r) \<leftarrow> rt_sem_trytake o' sm k;
       (case r of
          Waits \<Rightarrow> None
        | Done e \<Rightarrow>
            if e = RT_ETIMEOUT then
              do {
                (k2, sm2) \<leftarrow> rt_sem_release o' sm1 k1;
                work_completion_loop o' sm2 k2
              }
            else if e = RT_EOK then Some (k1, sm1, RT_EOK)
            else Some (k1, sm1, RT_ERROR))
     }"

declare work_completion_loop.simps [code]

definition workqueue_work_completion :: "qid \<Rightarrow> wstate \<Rightarrow> kern \<Rightarrow> (kern \<times> wstate) option" where
  "workqueue_work_completion q s k =
     do {
       (k1, sm, _) \<leftarrow> work_completion_loop (work_sem_id (queues s q)) (work_sem (queues s q)) (rt_enter_critical k);
       k2 \<leftarrow> rt_exit_critical k1;
       Some (k2, upd_queue q (\<lambda>r. r\<lparr>work_sem := sm\<rparr>) s)
     }"

text \<open>The three pieces of the loop of the thread.\<close>

definition worker_idle :: "qid \<Rightarrow> wstate \<Rightarrow> bool" where
  "worker_idle q s \<longleftrightarrow> work_list (queues s q) = []"

definition worker_sleep :: "kern \<Rightarrow> kern option" where
  "worker_sleep k =
     do {
       t \<leftarrow> cur k;
       (k1, _) \<leftarrow> rt_thread_suspend t k;
       rt_schedule k1
     }"

definition worker_fetch :: "qid \<Rightarrow> wstate \<Rightarrow> (wid \<times> wstate) option" where
  "worker_fetch q s =
     (case work_list (queues s q) of
        [] \<Rightarrow> None
      | w # _ \<Rightarrow>
          Some (w, upd_work w (\<lambda>r. r\<lparr>wk_pending := False, wk_workqueue := None\<rparr>)
            (upd_queue q (\<lambda>r. r\<lparr>work_current := Some w\<rparr>) (work_unlink w s))))"

definition worker_done :: "qid \<Rightarrow> wstate \<Rightarrow> kern \<Rightarrow> (kern \<times> wstate) option" where
  "worker_done q s k = workqueue_work_completion q (upd_queue q (\<lambda>r. r\<lparr>work_current := None\<rparr>) s) k"

text \<open>Waking the thread of a queue that is not at work.\<close>

definition wake_worker :: "qid \<Rightarrow> wstate \<Rightarrow> kern \<Rightarrow> kern option" where
  "wake_worker q s k =
     (if work_current (queues s q) = None then
        do {
          (k1, _) \<leftarrow> rt_thread_resume (work_thread (queues s q)) k;
          rt_schedule k1
        }
      else Some k)"

definition work_append :: "qid \<Rightarrow> wid \<Rightarrow> wstate \<Rightarrow> wstate" where
  "work_append q w s = upd_queue q (\<lambda>r. r\<lparr>work_list := work_list r @ [w]\<rparr>) (work_unlink w s)"

definition workqueue_submit_work :: "qid \<Rightarrow> wid \<Rightarrow> wstate \<Rightarrow> kern \<Rightarrow> (kern \<times> wstate \<times> rt_err) option" where
  "workqueue_submit_work q w s k =
     (if wk_pending (works s w) then Some (k, s, RT_EBUSY)
      else if work_current (queues s q) = Some w then Some (k, s, RT_EBUSY)
      else
        (let s1 = upd_work w (\<lambda>r. r\<lparr>wk_pending := True\<rparr>) (work_append q w s)
         in do {
           k1 \<leftarrow> wake_worker q s1 k;
           Some (k1, s1, RT_EOK)
         }))"

definition workqueue_cancel_work :: "qid \<Rightarrow> wid \<Rightarrow> wstate \<Rightarrow> wstate \<times> rt_err" where
  "workqueue_cancel_work q w s =
     (if work_current (queues s q) = Some w then (s, RT_EBUSY)
      else (upd_work w (\<lambda>r. r\<lparr>wk_pending := False\<rparr>) (work_unlink w s), RT_EOK))"

text \<open>The error for an item of no queue is \<^verbatim>\<open>EINVAL\<close> of the C library, not \<^verbatim>\<open>RT_EINVAL\<close>.\<close>

definition workqueue_cancel_delayed_work :: "wid \<Rightarrow> wstate \<Rightarrow> kern \<Rightarrow> kern \<times> wstate \<times> rt_err" where
  "workqueue_cancel_delayed_work w s k =
     (case wk_workqueue (works s w) of
        None \<Rightarrow> (k, s, RT_EINVAL)
      | Some q \<Rightarrow>
          (let (k1, s1, ret) =
             (if wk_pending (works s w) then (case workqueue_cancel_work q w s of (s', e) \<Rightarrow> (k, s', e))
              else if wk_submitting (works s w) then
                (rt_timer_detach (TUser w) (fst (rt_timer_stop (TUser w) k)), upd_work w (\<lambda>r. r\<lparr>wk_submitting := False\<rparr>) s, RT_EOK)
              else (k, s, RT_EOK))
           in if ret \<noteq> RT_EOK then (k1, s1, ret)
              else (k1, upd_work w (\<lambda>r. r\<lparr>wk_workqueue := None, wk_pending := False\<rparr>) s1, RT_EOK)))"

text \<open>Initialising a timer that is still running fails the assertion that it is not registered.\<close>

definition workqueue_submit_delayed_work :: "tid \<Rightarrow> qid \<Rightarrow> wid \<Rightarrow> 32 word \<Rightarrow> wstate \<Rightarrow> kern \<Rightarrow> (kern \<times> wstate \<times> rt_err) option" where
  "workqueue_submit_delayed_work tt q w ticks s k =
     (if wk_workqueue (works s w) \<noteq> None \<and> wk_workqueue (works s w) \<noteq> Some q then Some (k, s, RT_EINVAL)
      else
        (let (k1, s1, ret) = (if wk_workqueue (works s w) = Some q then workqueue_cancel_delayed_work w s k else (k, s, RT_EOK))
         in if ret \<noteq> RT_EOK then Some (k1, s1, ret)
            else
              (let s2 = upd_work w (\<lambda>r. r\<lparr>wk_workqueue := Some q\<rparr>) s1
               in if ticks = 0 then workqueue_submit_work q w s2 k1
                  else if TUser w \<in> set (hard k1) \<union> set (soft k1) then None
                  else do {
                    k2 \<leftarrow> rt_timer_start tt (TUser w) (rt_timer_init (TUser w) ticks False True k1);
                    Some (k2, upd_work w (\<lambda>r. r\<lparr>wk_submitting := True\<rparr>) s2, RT_EOK)
                  })))"

text \<open>The timeout function of a delayed item, run by the timer thread.\<close>

definition delayed_work_timeout_handler :: "wid \<Rightarrow> wstate \<Rightarrow> kern \<Rightarrow> (kern \<times> wstate \<times> rt_err) option" where
  "delayed_work_timeout_handler w s k =
     (let k1 = rt_timer_detach (TUser w) (fst (rt_timer_stop (TUser w) k));
          s1 = upd_work w (\<lambda>r. r\<lparr>wk_submitting := False, wk_delayed := False\<rparr>) s
      in case wk_workqueue (works s1 w) of
           None \<Rightarrow> None
         | Some q \<Rightarrow> workqueue_submit_work q w s1 k1)"

definition rt_workqueue_destroy :: "qid \<Rightarrow> wstate \<Rightarrow> kern \<Rightarrow> kern option" where
  "rt_workqueue_destroy q s k = rt_thread_delete (work_thread (queues s q)) k"

definition rt_workqueue_dowork :: "qid \<Rightarrow> wid \<Rightarrow> wstate \<Rightarrow> kern \<Rightarrow> (kern \<times> wstate \<times> rt_err) option" where
  "rt_workqueue_dowork q w s k = workqueue_submit_work q w s k"

definition rt_workqueue_submit_work :: "tid \<Rightarrow> qid \<Rightarrow> wid \<Rightarrow> 32 word \<Rightarrow> wstate \<Rightarrow> kern \<Rightarrow> (kern \<times> wstate \<times> rt_err) option" where
  "rt_workqueue_submit_work tt q w time s k =
     (let s1 = (if 0 < time then upd_work w (\<lambda>r. r\<lparr>wk_delayed := True\<rparr>) s else s)
      in if wk_delayed (works s1 w) then workqueue_submit_delayed_work tt q w time s1 k
         else workqueue_submit_work q w s1 k)"

definition rt_workqueue_critical_work :: "qid \<Rightarrow> wid \<Rightarrow> wstate \<Rightarrow> kern \<Rightarrow> (kern \<times> wstate \<times> rt_err) option" where
  "rt_workqueue_critical_work q w s k =
     (if work_current (queues s q) = Some w then Some (k, s, RT_EBUSY)
      else
        (let s1 = work_append q w s
         in do {
           k1 \<leftarrow> wake_worker q s1 k;
           Some (k1, s1, RT_EOK)
         }))"

definition rt_workqueue_cancel_work :: "qid \<Rightarrow> wid \<Rightarrow> wstate \<Rightarrow> kern \<Rightarrow> kern \<times> wstate \<times> rt_err" where
  "rt_workqueue_cancel_work q w s k =
     (if wk_delayed (works s w) then workqueue_cancel_delayed_work w s k
      else (case workqueue_cancel_work q w s of (s1, e) \<Rightarrow> (k, s1, e)))"

text \<open>The synchronous cancellation waits for the semaphore when the item is being worked on. The flag is cleared
  behind the wait, when the call goes on.\<close>

definition rt_workqueue_cancel_work_sync :: "qid \<Rightarrow> wid \<Rightarrow> wstate \<Rightarrow> kern \<Rightarrow> (kern \<times> wstate \<times> rt_err outcome) option" where
  "rt_workqueue_cancel_work_sync q w s k =
     (if work_current (queues s q) = Some w then
        do {
          (k1, sm, r) \<leftarrow> rt_sem_take (work_sem_id (queues s q)) (- 1) (work_sem (queues s q)) k;
          let s1 = upd_queue q (\<lambda>r. r\<lparr>work_sem := sm\<rparr>) s;
          Some (case r of Waits \<Rightarrow> (k1, s1, Waits) | Done _ \<Rightarrow> (k1, upd_work w (\<lambda>r. r\<lparr>wk_pending := False\<rparr>) s1, Done RT_EOK))
        }
      else Some (k, upd_work w (\<lambda>r. r\<lparr>wk_pending := False\<rparr>) (work_unlink w s), Done RT_EOK))"

definition rt_workqueue_cancel_work_sync_resume :: "wid \<Rightarrow> wstate \<Rightarrow> wstate" where
  "rt_workqueue_cancel_work_sync_resume w s = upd_work w (\<lambda>r. r\<lparr>wk_pending := False\<rparr>) s"

definition rt_workqueue_cancel_all_work :: "qid \<Rightarrow> wstate \<Rightarrow> kern \<Rightarrow> (kern \<times> wstate \<times> rt_err) option" where
  "rt_workqueue_cancel_all_work q s k =
     do {
       k1 \<leftarrow> rt_exit_critical (rt_enter_critical k);
       Some (k1, upd_queue q (\<lambda>r. r\<lparr>work_list := []\<rparr>) s, RT_EOK)
     }"

section \<open>Basic facts\<close>

lemma upd_queue_simps [simp]:
  "queues (upd_queue q f s) = (queues s)(q := f (queues s q))" "works (upd_queue q f s) = works s"
  by (simp_all add: upd_queue_def)

lemma upd_work_simps [simp]:
  "works (upd_work w f s) = (works s)(w := f (works s w))" "queues (upd_work w f s) = queues s"
  by (simp_all add: upd_work_def)

lemma work_unlink_simps [simp]:
  "works (work_unlink w s) = works s" "work_list (queues (work_unlink w s) q) = removeAll w (work_list (queues s q))"
  "work_current (queues (work_unlink w s) q) = work_current (queues s q)" "work_sem (queues (work_unlink w s) q) = work_sem (queues s q)"
  "work_sem_id (queues (work_unlink w s) q) = work_sem_id (queues s q)" "work_thread (queues (work_unlink w s) q) = work_thread (queues s q)"
  by (simp_all add: work_unlink_def)

lemma work_append_simps [simp]:
  "works (work_append q w s) = works s"
  "work_list (queues (work_append q w s) p) = (if p = q then removeAll w (work_list (queues s q)) @ [w] else removeAll w (work_list (queues s p)))"
  "work_current (queues (work_append q w s) p) = work_current (queues s p)" "work_thread (queues (work_append q w s) p) = work_thread (queues s p)"
  by (simp_all add: work_append_def)

section \<open>Ending an item\<close>

lemma trytake_simps:
  "sem_value sm \<noteq> 0 \<Longrightarrow> rt_sem_trytake o' sm k = Some (k, sm\<lparr>sem_value := sem_value sm - 1\<rparr>, Done RT_EOK)"
  "sem_value sm = 0 \<Longrightarrow> rt_sem_trytake o' sm k = Some (k, sm, Done RT_ETIMEOUT)"
  by (simp_all add: rt_sem_trytake_def rt_sem_take_def word_greater_zero_iff)

text \<open>From value 0 the loop wakes every thread that waits, and leaves the value at 0.\<close>

lemma completion_loop:
  "ipc_inv k \<Longrightarrow> cur k = Some c \<Longrightarrow> sem_value sm = 0 \<Longrightarrow>
    \<exists>k' c'. work_completion_loop o' sm k = Some (k', sm, RT_EOK) \<and> ipc_inv k' \<and> cur k' = Some c' \<and> lock_nest k' = lock_nest k \<and> lists k' (LSuspend o') = [] \<and>
      (\<forall>x. same_but_stat (tcbs k x) (tcbs k' x)) \<and> (\<forall>x. active_stat (stat k x) \<longrightarrow> active_stat (stat k' x)) \<and>
      (\<forall>x \<in> set (lists k (LSuspend o')). active_stat (stat k' x))"
proof (induction "lists k (LSuspend o')" arbitrary: k c)
  case Nil
  let ?s1 = "sm\<lparr>sem_value := 1\<rparr>"
  have "rt_sem_release o' sm k = Some (k, ?s1)" using Nil by (simp add: rt_sem_release_def)
  moreover have "rt_sem_trytake o' ?s1 k = Some (k, ?s1\<lparr>sem_value := 0\<rparr>, Done RT_EOK)" using trytake_simps(1) [of ?s1] by simp
  moreover have "?s1\<lparr>sem_value := 0\<rparr> = sm" using Nil(4) by simp
  ultimately have "work_completion_loop o' sm k = Some (k, sm, RT_EOK)"
    unfolding work_completion_loop.simps [of o' sm k] trytake_simps(2) [OF Nil(4)]
    by (simp add: work_completion_loop.simps [of o' ?s1 k])
  then show ?case using Nil by (simp add: same_but_stat_def)
next
  case (Cons t ts)
  then have l: "lists k (LSuspend o') = t # ts" by simp
  obtain k1 k2 c2 where w: "rt_ipc_list_resume (LSuspend o') k = Some k1" "rt_schedule k1 = Some k2" "ipc_inv k2" "cur k2 = Some c2"
    "active_stat (stat k2 t)" "\<forall>x. same_but_stat (tcbs k x) (tcbs k2 x)" "\<forall>m. wait_list m \<longrightarrow> lists k2 m = ((lists k)(LSuspend o' := ts)) m"
    using wake_first_spec [OF Cons.prems(1) l _ Cons.prems(2)] by auto
  have rel: "rt_sem_release o' sm k = Some (k2, sm)" using l w(1,2) by (simp add: rt_sem_release_def)
  have "ts = lists k2 (LSuspend o')" using w(7) by simp
  from Cons.hyps(1) [OF this w(3,4) Cons.prems(3)] obtain k' c' where
    k': "work_completion_loop o' sm k2 = Some (k', sm, RT_EOK)" "ipc_inv k'" "cur k' = Some c'" "lock_nest k' = lock_nest k2" "lists k' (LSuspend o') = []"
    "\<forall>x. same_but_stat (tcbs k2 x) (tcbs k' x)" "\<forall>x. active_stat (stat k2 x) \<longrightarrow> active_stat (stat k' x)"
    "\<forall>x \<in> set ts. active_stat (stat k' x)" using w(7) by auto
  have "work_completion_loop o' sm k = Some (k', sm, RT_EOK)"
    unfolding work_completion_loop.simps [of o' sm k] trytake_simps(2) [OF Cons.prems(3)] using rel k'(1) by simp
  moreover have "same_but_stat (tcbs k x) (tcbs k' x)" for x using w(6) k'(6) same_but_stat_trans by blast
  moreover have "active_stat (stat k' x)" if "active_stat (stat k x)" for x
    using wake_keeps_active(1) [OF Cons.prems(1) l _ Cons.prems(2) w(1,2) that] k'(7) by simp
  moreover have "lock_nest k2 = lock_nest k" using wake_keeps_active(2) [OF Cons.prems(1) l _ Cons.prems(2) w(1,2)] by simp
  ultimately show ?case using k' w(5) l by simp
qed

lemma worker_done_spec:
  assumes "ipc_inv k" "cur k = Some c" "lock_nest k = 0" "sem_value (work_sem (queues s q)) = 0"
  shows "\<exists>k' c'. worker_done q s k = Some (k', upd_queue q (\<lambda>r. r\<lparr>work_current := None\<rparr>) s) \<and> ipc_inv k' \<and> cur k' = Some c' \<and>
    lists k' (LSuspend (work_sem_id (queues s q))) = [] \<and> (\<forall>x. same_but_stat (tcbs k x) (tcbs k' x)) \<and>
    (\<forall>x \<in> set (lists k (LSuspend (work_sem_id (queues s q)))). active_stat (stat k' x))"
proof -
  let ?o = "work_sem_id (queues s q)" and ?sm = "work_sem (queues s q)"
  note e = enter_outermost [OF assms(1,3)]
  have c0: "ipc_inv (rt_enter_critical k)" "cur (rt_enter_critical k) = Some c" using e assms(2) by simp_all
  obtain k1 c1 where
    k1: "work_completion_loop ?o ?sm (rt_enter_critical k) = Some (k1, ?sm, RT_EOK)" "ipc_inv k1" "cur k1 = Some c1"
    "lock_nest k1 = lock_nest (rt_enter_critical k)" "lists k1 (LSuspend ?o) = []" "\<forall>x. same_but_stat (tcbs (rt_enter_critical k) x) (tcbs k1 x)"
    "\<forall>x \<in> set (lists (rt_enter_critical k) (LSuspend ?o)). active_stat (stat k1 x)"
    using completion_loop [OF c0 assms(4), of ?o] by blast
  have "lock_nest k1 = 1" using k1(4) e by simp
  from exit_outermost [OF k1(2,3) this] obtain k2 c2 where
    k2: "rt_exit_critical k1 = Some k2" "ipc_inv k2" "cur k2 = Some c2" "\<forall>l. wait_list l \<longrightarrow> lists k2 l = lists k1 l"
    "\<forall>x. same_but_stat (tcbs k1 x) (tcbs k2 x)" "\<forall>x. active_stat (stat k1 x) \<longrightarrow> active_stat (stat k2 x)" by blast
  have sm: "upd_queue q (\<lambda>r. r\<lparr>work_sem := ?sm\<rparr>) (upd_queue q (\<lambda>r. r\<lparr>work_current := None\<rparr>) s) = upd_queue q (\<lambda>r. r\<lparr>work_current := None\<rparr>) s"
    by (simp add: upd_queue_def)
  have "worker_done q s k = Some (k2, upd_queue q (\<lambda>r. r\<lparr>work_current := None\<rparr>) s)"
    using k1(1) k2(1) sm by (simp add: worker_done_def workqueue_work_completion_def)
  moreover have "same_but_stat (tcbs k x) (tcbs k2 x)" for x
    using k1(6) k2(5) e same_but_stat_trans by metis
  moreover have "active_stat (stat k2 x)" if "x \<in> set (lists k (LSuspend ?o))" for x
    using k1(7) k2(6) e that by simp
  ultimately show ?thesis using k2 k1(5) by simp
qed

section \<open>The invariant\<close>

text \<open>An item is in at most one list, once, and the item that a queue is working on is not in the list of that queue.
  Unless the flags are \<open>lax\<close>, an item is flagged as pending exactly when it is in a list.\<close>

definition wk_ok :: "bool \<Rightarrow> wstate \<Rightarrow> bool" where
  "wk_ok lax s \<longleftrightarrow> (\<forall>q. distinct (work_list (queues s q)) \<and> (\<forall>w. work_current (queues s q) = Some w \<longrightarrow> w \<notin> set (work_list (queues s q)))) \<and>
     (\<forall>w p q. w \<in> set (work_list (queues s p)) \<longrightarrow> w \<in> set (work_list (queues s q)) \<longrightarrow> p = q) \<and>
     (lax \<or> (\<forall>w. wk_pending (works s w) \<longleftrightarrow> (\<exists>q. w \<in> set (work_list (queues s q)))))"

abbreviation wk_inv :: "wstate \<Rightarrow> bool" where
  "wk_inv \<equiv> wk_ok False"

lemma wk_invD:
  "wk_inv s \<Longrightarrow> distinct (work_list (queues s q))" "wk_inv s \<Longrightarrow> work_current (queues s q) = Some w \<Longrightarrow> w \<notin> set (work_list (queues s q))"
  "wk_inv s \<Longrightarrow> \<not> wk_pending (works s w) \<Longrightarrow> w \<notin> set (work_list (queues s q))"
  by (auto simp: wk_ok_def)


text \<open>Everything but the lists, the current items and the pending flags is irrelevant to it.\<close>

lemma wk_ok_cong:
  "(\<And>q. work_list (queues s' q) = work_list (queues s q)) \<Longrightarrow> (\<And>q. work_current (queues s' q) = work_current (queues s q) \<or> work_current (queues s' q) = None) \<Longrightarrow>
    lax \<or> (\<forall>w. wk_pending (works s' w) = wk_pending (works s w)) \<Longrightarrow> wk_ok lax s \<Longrightarrow> wk_ok lax s'"
  unfolding wk_ok_def by (metis option.distinct(1))

lemma wk_ok_append [inv_intro]:
  assumes "wk_ok lax s" "work_current (queues s q) \<noteq> Some w"
  shows "wk_ok lax (upd_work w (\<lambda>r. r\<lparr>wk_pending := True\<rparr>) (work_append q w s))"
proof -
  let ?s = "upd_work w (\<lambda>r. r\<lparr>wk_pending := True\<rparr>) (work_append q w s)"
  have l: "work_list (queues ?s p) = removeAll w (work_list (queues s p)) @ (if p = q then [w] else [])" for p
    by simp
  have c: "work_current (queues ?s p) = work_current (queues s p)" for p by simp
  have pd: "wk_pending (works ?s x) \<longleftrightarrow> x = w \<or> wk_pending (works s x)" for x by simp
  show ?thesis unfolding wk_ok_def l c pd using assms by (auto simp: wk_ok_def distinct_removeAll split: if_splits) metis
qed







text \<open>What can happen to the work items: the calls of the users, the timer of a delayed item, the pieces of the
  threads of the queues, and anything else in the kernel. An item is initialised while it is in no list. Three
  things, allowed only when \<open>lax\<close>, put the pending flag of an item out of step with the lists: \<^verbatim>\<open>rt_workqueue_critical_work\<close>, which does not
  set it, \<^verbatim>\<open>rt_workqueue_cancel_all_work\<close>, which does not clear it, and the synchronous cancellation of an item that one
  queue works on, which clears it when it goes on although the item may by then wait in another queue.\<close>

inductive wk_step :: "bool \<Rightarrow> tid \<Rightarrow> wstate \<times> kern \<Rightarrow> wstate \<times> kern \<Rightarrow> bool" for lax :: bool and tt :: tid where
  init: "(\<forall>q. w \<notin> set (work_list (queues s q))) \<Longrightarrow> wk_step lax tt (s, k) (rt_work_init w s, k)"
| submit: "rt_workqueue_submit_work tt q w time s k = Some (k', s', e) \<Longrightarrow> wk_step lax tt (s, k) (s', k')"
| dowork: "rt_workqueue_dowork q w s k = Some (k', s', e) \<Longrightarrow> wk_step lax tt (s, k) (s', k')"
| critical: "lax \<Longrightarrow> rt_workqueue_critical_work q w s k = Some (k', s', e) \<Longrightarrow> wk_step lax tt (s, k) (s', k')"
| cancel: "rt_workqueue_cancel_work q w s k = (k', s', e) \<Longrightarrow> wk_step lax tt (s, k) (s', k')"
| cancel_sync: "lax \<or> work_current (queues s q) \<noteq> Some w \<or> \<not> wk_pending (works s w) \<Longrightarrow>
    rt_workqueue_cancel_work_sync q w s k = Some (k', s', r) \<Longrightarrow> wk_step lax tt (s, k) (s', k')"
| sync_resume: "lax \<or> \<not> wk_pending (works s w) \<Longrightarrow> wk_step lax tt (s, k) (rt_workqueue_cancel_work_sync_resume w s, k)"
| cancel_all: "lax \<Longrightarrow> rt_workqueue_cancel_all_work q s k = Some (k', s', e) \<Longrightarrow> wk_step lax tt (s, k) (s', k')"
| timeout: "delayed_work_timeout_handler w s k = Some (k', s', e) \<Longrightarrow> wk_step lax tt (s, k) (s', k')"
| sleep: "worker_idle q s \<Longrightarrow> worker_sleep k = Some k' \<Longrightarrow> wk_step lax tt (s, k) (s, k')"
| fetch: "worker_fetch q s = Some (w, s') \<Longrightarrow> wk_step lax tt (s, k) (s', k)"
| finish: "worker_done q s k = Some (k', s') \<Longrightarrow> wk_step lax tt (s, k) (s', k')"
| kernel: "wk_step lax tt (s, k) (s, k')"


section \<open>Submitting\<close>

text \<open>Resuming a thread leaves the timers of the work items alone.\<close>

lemma resume_user_timer:
  assumes "rt_thread_resume t k = Some (k', e)"
  shows "tmrs k' (TUser w) = tmrs k (TUser w)" "TUser w \<in> set (soft k') \<longleftrightarrow> TUser w \<in> set (soft k)"
    "TUser w \<in> set (hard k') \<longleftrightarrow> TUser w \<in> set (hard k)" "now k' = now k"
  using assms
  by (auto simp: rt_thread_resume_def rt_timer_stop_def timer_remove_def upd_tmr_def unlink_def rt_schedule_insert_thread_def
      link_tail_def link_head_def link_with_def upd_tcb_def set_stat_def bind_Some_iff Let_def split: if_splits)

lemma wake_worker_spec:
  assumes "kinv k" "tminv k" "cur k = Some c"
  shows "\<exists>k'. wake_worker q s k = Some k' \<and> kinv k' \<and> tminv k' \<and> cur k' \<noteq> None \<and>
    (if work_current (queues s q) \<noteq> None then k' = k
     else if stat k (work_thread (queues s q)) = T_SUSPEND then active_stat (stat k' (work_thread (queues s q)))
     else sched_frame k k')"
proof -
  let ?t = "work_thread (queues s q)"
  show ?thesis
  proof (cases "work_current (queues s q) = None")
    case False
    then have "wake_worker q s k = Some k" unfolding wake_worker_def by (simp only: if_False)
    then show ?thesis using assms False by simp
  next
    case None: True
    show ?thesis
    proof (cases "stat k ?t = T_SUSPEND")
      case False
      then have r: "rt_thread_resume ?t k = Some (k, RT_ERROR)" by (simp add: rt_thread_resume_def)
      obtain k' c' where k': "rt_schedule k = Some k'" "kinv k'" "cur k' = Some c'" "sched_frame k k'"
        using schedule_frame [OF assms(1,3)] by blast
      then show ?thesis using r None False tminv_sched [OF assms(2) k'(4)] by (simp add: wake_worker_def)
    next
      case True
      obtain k1 where
        k1: "rt_thread_resume ?t k = Some (k1, RT_EOK)" "kinv k1" "tminv k1" "cur k1 = cur k"
        "tcbs k1 = (tcbs k)(?t := (tcbs k ?t)\<lparr>t_stat := (if cur k = Some ?t then T_RUNNING else T_READY), t_linked := (cur k \<noteq> Some ?t)\<rparr>)"
        using resume_spec [OF assms(1,2) True] by blast
      have c1: "cur k1 = Some c" using k1(4) assms(3) by simp
      obtain k' c' where k': "rt_schedule k1 = Some k'" "kinv k'" "cur k' = Some c'" "sched_frame k1 k'"
        using schedule_frame [OF k1(2) c1] by blast
      have "active_stat (stat k1 ?t)" using k1(5) by (simp add: active_stat_def)
      then have "active_stat (stat k' ?t)" using sched_frameD [OF k'(4), of ?t] by auto
      then show ?thesis using k1(1) k' None True tminv_sched [OF k1(3) k'(4)] by (simp add: wake_worker_def)
    qed
  qed
qed

section \<open>Properties\<close>

definition idle_queue :: "tid \<Rightarrow> rt_workqueue" where
  "idle_queue t = \<lparr>work_list = [], work_current = None, work_sem = \<lparr>sem_value = 0, sem_flag = RT_IPC_FLAG_FIFO\<rparr>, work_sem_id = 0, work_thread = t\<rparr>"

definition idle_state :: "tid \<Rightarrow> wstate" where
  "idle_state t = \<lparr>queues = (\<lambda>_. idle_queue t),
     works = (\<lambda>_. \<lparr>wk_pending = False, wk_submitting = False, wk_delayed = False, wk_workqueue = None\<rparr>)\<rparr>"

lemma idle_state_simps [simp]:
  "queues (idle_state t) q = idle_queue t" "\<not> wk_pending (works (idle_state t) w)" "\<not> wk_delayed (works (idle_state t) w)"
  "wk_workqueue (works (idle_state t) w) = None" "work_current (idle_queue t) = None" "work_list (idle_queue t) = []"
  "work_thread (idle_queue t) = t" "work_sem_id (idle_queue t) = 0" "sem_value (work_sem (idle_queue t)) = 0"
  by (simp_all add: idle_state_def idle_queue_def)

lemma idle_state_inv: "wk_inv (idle_state t)"
  by (simp add: wk_ok_def)



text \<open>Submitting an item that is free puts it at the end of the list, so the items are worked on in the order of
  their submission, and wakes the thread of the queue if it sleeps. An item that is pending, or that the queue is
  working on, is refused and nothing changes.\<close>

theorem work_submit_spec:
  assumes "kinv k" "tminv k" "cur k = Some c" "wk_inv s"
  shows "if wk_pending (works s w) \<or> work_current (queues s q) = Some w then rt_workqueue_dowork q w s k = Some (k, s, RT_EBUSY)
    else \<exists>k' s'. rt_workqueue_dowork q w s k = Some (k', s', RT_EOK) \<and> kinv k' \<and> wk_inv s' \<and> wk_pending (works s' w) \<and>
      (\<forall>p. work_list (queues s' p) = (if p = q then work_list (queues s q) @ [w] else work_list (queues s p))) \<and>
      (work_current (queues s q) = None \<and> stat k (work_thread (queues s q)) = T_SUSPEND \<longrightarrow> active_stat (stat k' (work_thread (queues s q)))) \<and>
      (work_current (queues s q) \<noteq> None \<longrightarrow> k' = k)"
proof (cases "wk_pending (works s w) \<or> work_current (queues s q) = Some w")
  case True
  then show ?thesis by (auto simp: rt_workqueue_dowork_def workqueue_submit_work_def)
next
  case False
  define s' where "s' = upd_work w (\<lambda>r. r\<lparr>wk_pending := True\<rparr>) (work_append q w s)"
  have n: "w \<notin> set (work_list (queues s p))" for p using wk_invD(3) [OF assms(4), of w p] False by simp
  obtain k' where k': "wake_worker q s' k = Some k'" "kinv k'"
    "if work_current (queues s' q) \<noteq> None then k' = k
     else if stat k (work_thread (queues s' q)) = T_SUSPEND then active_stat (stat k' (work_thread (queues s' q))) else sched_frame k k'"
    using wake_worker_spec [OF assms(1-3), of q s'] by blast
  have "wk_inv s'" unfolding s'_def by (rule wk_ok_append [OF assms(4)]) (use False in auto)
  moreover have "rt_workqueue_dowork q w s k = Some (k', s', RT_EOK)"
    using k'(1) False by (simp add: rt_workqueue_dowork_def workqueue_submit_work_def s'_def)
  moreover have "work_current (queues s' q) = work_current (queues s q)" "work_thread (queues s' q) = work_thread (queues s q)"
    "wk_pending (works s' w)" "work_list (queues s' p) = (if p = q then work_list (queues s q) @ [w] else work_list (queues s p))" for p
    using n by (simp_all add: s'_def)
  ultimately show ?thesis using k'(2,3) False by auto
qed

theorem work_submit_spec_witness:
  "\<exists>k' s'. rt_workqueue_dowork 0 7 (idle_state 1) kern_example = Some (k', s', RT_EOK) \<and> work_list (queues s' 0) = [7]"
proof -
  note b = can_blockD [OF kern_example_can_block]
  show ?thesis
    using work_submit_spec [OF ipc_invD(1) [OF b(1)] ipc_invD(2) [OF b(1)] b(2) idle_state_inv [of 1], of 7 0] by auto
qed

text \<open>C35. The thread of a queue looks at the list and suspends itself in two pieces. An item that is submitted in
  between, by an interrupt or by a thread of higher priority, does not wake it, because it is not suspended yet; then it
  goes to sleep with the item in its list, until another item is submitted.\<close>

theorem work_submit_missed:
  assumes "kinv k" "tminv k" "cur k = Some t" "worker_idle q s" "work_thread (queues s q) = t" "stat k t = T_RUNNING"
    and "\<not> wk_pending (works s w)" "work_current (queues s q) = None"
  shows "\<exists>k1 s1. rt_workqueue_dowork q w s k = Some (k1, s1, RT_EOK) \<and> sched_frame k k1 \<and> work_list (queues s1 q) = [w] \<and>
    (kinv k1 \<and> (cur k1 = Some t \<and> stat k1 t = T_RUNNING \<longrightarrow> (\<exists>k2. worker_sleep k1 = Some k2 \<and> stat k2 t = T_SUSPEND)))"
proof -
  define s1 where "s1 = upd_work w (\<lambda>r. r\<lparr>wk_pending := True\<rparr>) (work_append q w s)"
  have q1: "work_current (queues s1 q) = None" "work_thread (queues s1 q) = t" "work_list (queues s1 q) = [w]"
    using assms(4,5,8) by (simp_all add: s1_def worker_idle_def)
  obtain k1 where k1: "wake_worker q s1 k = Some k1" "kinv k1" "tminv k1" "sched_frame k k1"
    using wake_worker_spec [OF assms(1-3), of q s1] q1 assms(6) by auto
  have "rt_workqueue_dowork q w s k = Some (k1, s1, RT_EOK)"
    using k1(1) assms(7,8) by (simp add: rt_workqueue_dowork_def workqueue_submit_work_def s1_def)
  moreover have "\<exists>k2. worker_sleep k1 = Some k2 \<and> stat k2 t = T_SUSPEND" if c: "cur k1 = Some t" "stat k1 t = T_RUNNING"
  proof -
    have "active_stat (stat k1 t)" using c(2) by (simp add: active_stat_def)
    from suspend_spec [OF k1(2,3) this] obtain k2 where
      k2: "rt_thread_suspend t k1 = Some (k2, RT_EOK)" "kinv k2" "cur k2 = Some t" "stat k2 t = T_SUSPEND" using c(1) by auto
    obtain k3 where k3: "rt_schedule k2 = Some k3" "sched_frame k2 k3" using schedule_frame [OF k2(2,3)] by blast
    have "stat k3 t = T_SUSPEND" using sched_frame_stat [OF k3(2), of T_SUSPEND t] k2(4) by (simp add: active_stat_def)
    then show ?thesis using c(1) k2(1) k3(1) by (simp add: worker_sleep_def)
  qed
  ultimately show ?thesis using k1(2,4) q1(3) by blast
qed

theorem work_submit_missed_witness:
  "\<exists>k1 s1. rt_workqueue_dowork 0 7 (idle_state 1) kern_example = Some (k1, s1, RT_EOK) \<and> work_list (queues s1 0) = [7] \<and>
    (cur k1 = Some 1 \<and> stat k1 1 = T_RUNNING \<longrightarrow> (\<exists>k2. worker_sleep k1 = Some k2 \<and> stat k2 1 = T_SUSPEND))"
proof -
  note b = can_blockD [OF kern_example_can_block]
  have i: "worker_idle 0 (idle_state 1)" by (simp add: worker_idle_def)
  show ?thesis
    using work_submit_missed [OF ipc_invD(1) [OF b(1)] ipc_invD(2) [OF b(1)] b(2) i _ b(3), of 7] by auto
qed

text \<open>An item submitted to a sleeping queue and cancelled before the thread of the queue has run: the list is empty
  when the thread goes on, but it does not look again and takes the head of the list for a work item.\<close>

theorem work_cancel_race:
  assumes "kinv k" "tminv k" "cur k = Some c" "worker_idle q s" "work_current (queues s q) = None" "stat k (work_thread (queues s q)) = T_SUSPEND"
    and "\<not> wk_pending (works s w)" "\<not> wk_delayed (works s w)"
  shows "\<exists>k1 s1 s2. rt_workqueue_dowork q w s k = Some (k1, s1, RT_EOK) \<and> active_stat (stat k1 (work_thread (queues s q))) \<and>
    rt_workqueue_cancel_work q w s1 k1 = (k1, s2, RT_EOK) \<and> worker_fetch q s2 = None"
proof -
  define s1 where "s1 = upd_work w (\<lambda>r. r\<lparr>wk_pending := True\<rparr>) (work_append q w s)"
  have q1: "work_current (queues s1 q) = None" "work_thread (queues s1 q) = work_thread (queues s q)" "work_list (queues s1 q) = [w]"
    "\<not> wk_delayed (works s1 w)"
    using assms(4,5,8) by (simp_all add: s1_def worker_idle_def)
  obtain k1 where k1: "wake_worker q s1 k = Some k1" "active_stat (stat k1 (work_thread (queues s q)))"
    using wake_worker_spec [OF assms(1-3), of q s1] q1 assms(6) by auto
  have "rt_workqueue_dowork q w s k = Some (k1, s1, RT_EOK)"
    using k1(1) assms(5,7) by (simp add: rt_workqueue_dowork_def workqueue_submit_work_def s1_def)
  moreover have "rt_workqueue_cancel_work q w s1 k1 = (k1, upd_work w (\<lambda>r. r\<lparr>wk_pending := False\<rparr>) (work_unlink w s1), RT_EOK)"
    using q1 by (simp add: rt_workqueue_cancel_work_def workqueue_cancel_work_def)
  moreover have "worker_fetch q (upd_work w (\<lambda>r. r\<lparr>wk_pending := False\<rparr>) (work_unlink w s1)) = None"
    using q1(3) by (simp add: worker_fetch_def)
  ultimately show ?thesis using k1(2) by blast
qed

text \<open>The thread of the queue is thread 1, which sleeps; another thread submits and cancels.\<close>

theorem work_cancel_race_witness:
  "\<exists>k k1 s1 s2. worker_sleep kern_example = Some k \<and> rt_workqueue_dowork 0 7 (idle_state 1) k = Some (k1, s1, RT_EOK) \<and>
    rt_workqueue_cancel_work 0 7 s1 k1 = (k1, s2, RT_EOK) \<and> worker_fetch 0 s2 = None"
proof -
  note b = can_blockD [OF kern_example_can_block]
  have "active_stat (stat kern_example 1)" using b(3) by (simp add: active_stat_def)
  from suspend_spec [OF ipc_invD(1) [OF b(1)] ipc_invD(2) [OF b(1)] this] obtain k2 where
    k2: "rt_thread_suspend 1 kern_example = Some (k2, RT_EOK)" "kinv k2" "tminv k2" "cur k2 = Some 1" "stat k2 1 = T_SUSPEND"
    using b(2) by auto
  obtain k3 c where k3: "rt_schedule k2 = Some k3" "kinv k3" "cur k3 = Some c" "sched_frame k2 k3" using schedule_frame [OF k2(2,4)] by blast
  have s3: "stat k3 1 = T_SUSPEND" using sched_frame_stat [OF k3(4), of T_SUSPEND 1] k2(5) by (simp add: active_stat_def)
  have "worker_sleep kern_example = Some k3" using b(2) k2(1) k3(1) by (simp add: worker_sleep_def)
  moreover have "worker_idle 0 (idle_state 1)" by (simp add: worker_idle_def)
  ultimately show ?thesis
    using work_cancel_race [OF k3(2) tminv_sched [OF k2(3) k3(4)] k3(3), of 0 "idle_state 1" 7] s3 by auto
qed

text \<open>Ending an item wakes every thread that waits for it in a synchronous cancellation. The loop that does this by
  taking and releasing a semaphore ends, with the value of the semaphore at 0 again, and the queue is free for the next item.\<close>

theorem work_done_wakes:
  assumes "ipc_inv k" "cur k = Some c" "lock_nest k = 0" "sem_value (work_sem (queues s q)) = 0" "work_sem_id (queues s q) = i"
  shows "\<exists>k' s'. worker_done q s k = Some (k', s') \<and> ipc_inv k' \<and> work_current (queues s' q) = None \<and>
    sem_value (work_sem (queues s' q)) = 0 \<and> lists k' (LSuspend i) = [] \<and>
    (\<forall>x \<in> set (lists k (LSuspend i)). active_stat (stat k' x) \<and> rt_sem_take_resume x k' = rt_sem_take_resume x k)"
proof -
  obtain k' where k': "worker_done q s k = Some (k', upd_queue q (\<lambda>r. r\<lparr>work_current := None\<rparr>) s)" "ipc_inv k'"
    "lists k' (LSuspend i) = []" "\<forall>x. same_but_stat (tcbs k x) (tcbs k' x)" "\<forall>x \<in> set (lists k (LSuspend i)). active_stat (stat k' x)"
    using worker_done_spec [OF assms(1-4)] assms(5) by auto
  have "rt_sem_take_resume x k' = rt_sem_take_resume x k" for x
    using same_but_statD [of "tcbs k x" "tcbs k' x"] k'(4) by (simp add: rt_sem_take_resume_def)
  then show ?thesis using k' assms(4) by simp
qed

theorem work_done_wakes_witness:
  "\<exists>k' s'. worker_done 0 (upd_queue 0 (\<lambda>r. r\<lparr>work_current := Some 7\<rparr>) (idle_state 1)) kern_example = Some (k', s') \<and>
    work_current (queues s' 0) = None"
proof -
  note b = can_blockD [OF kern_example_can_block]
  show ?thesis
    using work_done_wakes [OF b(1,2,5), of "upd_queue 0 (\<lambda>r. r\<lparr>work_current := Some 7\<rparr>) (idle_state 1)" 0 0]
    by (auto simp: idle_queue_def)
qed

text \<open>\<^verbatim>\<open>rt_workqueue_cancel_all_work\<close> takes the items out of the list but leaves them flagged as pending: from then on
  every attempt to submit one of them again is refused as busy, although no queue has it.\<close>

theorem work_cancel_all_blocks:
  assumes "ipc_inv k" "cur k = Some c" "lock_nest k = 0" "wk_inv s" "w \<in> set (work_list (queues s q))"
  shows "\<exists>k' s'. rt_workqueue_cancel_all_work q s k = Some (k', s', RT_EOK) \<and> (\<forall>p. w \<notin> set (work_list (queues s' p))) \<and>
    rt_workqueue_dowork p w s' k' = Some (k', s', RT_EBUSY)"
proof -
  note e = enter_outermost [OF assms(1,3)]
  have "cur (rt_enter_critical k) = Some c" using e assms(2) by simp
  then obtain k' where k': "rt_exit_critical (rt_enter_critical k) = Some k'" using exit_outermost [of "rt_enter_critical k" c] e by blast
  define s' where "s' = upd_queue q (\<lambda>r. r\<lparr>work_list := []\<rparr>) s"
  have "wk_pending (works s' w)" using assms(4,5) by (auto simp: s'_def wk_ok_def)
  moreover have "w \<notin> set (work_list (queues s' p))" for p using assms(4,5) by (auto simp: s'_def wk_ok_def)
  ultimately show ?thesis
    using k' by (simp add: rt_workqueue_cancel_all_work_def s'_def [symmetric] rt_workqueue_dowork_def workqueue_submit_work_def)
qed

theorem work_cancel_all_blocks_witness:
  "\<exists>s k' s'. rt_workqueue_cancel_all_work 0 s kern_example = Some (k', s', RT_EOK) \<and> work_list (queues s 0) = [7] \<and>
    rt_workqueue_dowork 0 7 s' k' = Some (k', s', RT_EBUSY)"
proof -
  note b = can_blockD [OF kern_example_can_block]
  let ?s = "upd_work 7 (\<lambda>r. r\<lparr>wk_pending := True\<rparr>) (work_append 0 7 (idle_state 1))"
  have "wk_inv ?s" by (rule wk_ok_append [OF idle_state_inv]) simp_all
  then show ?thesis using work_cancel_all_blocks [OF b(1,2,5), of ?s 7 0 0] by (intro exI [of _ ?s]) auto
qed

section \<open>Delayed items\<close>

lemma soft_timer_start:
  assumes "kinv k" "tminv k" "cur k = Some c" "TUser w \<notin> set (hard k) \<union> set (soft k)" "n < half_range"
  shows "\<exists>k'. rt_timer_start tt (TUser w) (rt_timer_init (TUser w) n False True k) = Some k' \<and> kinv k' \<and> tminv k' \<and> cur k' \<noteq> None \<and>
    TUser w \<in> set (soft k') \<and> TUser w \<notin> set (hard k') \<and> tm_timeout (tmrs k' (TUser w)) = now k + n \<and> tm_active (tmrs k' (TUser w)) \<and>
    now k' = now k"
proof -
  let ?k0 = "rt_timer_init (TUser w) n False True k"
  have tm: "tmrs ?k0 = (tmrs k)(TUser w := \<lparr>tm_soft = True, tm_periodic = False, tm_active = False, tm_init = n, tm_timeout = 0\<rparr>)"
    "hard ?k0 = hard k" "soft ?k0 = soft k" "now ?k0 = now k" by (simp_all add: rt_timer_init_def)
  have kk: "tcbs ?k0 = tcbs k" "lists ?k0 = lists k" "ready_group ?k0 = ready_group k" "cur ?k0 = cur k"
    by (simp_all add: rt_timer_init_def)
  have "window_sorted (tmrs ?k0) (now k) (hard k) = window_sorted (tmrs k) (now k) (hard k)"
    by (rule window_sorted_cong) (use assms(4) in \<open>auto simp: tm\<close>)
  then have i0: "timers_inv ?k0" using assms(2,4) by (auto simp: tminv_def timers_inv_def tm)
  have f: "tm_init (tmrs ?k0 (TUser w)) < half_range" using assms(5) by (simp add: tm)
  from timer_start_spec [OF f] obtain k1 where
    k1: "timer_start (TUser w) ?k0 = Some k1" "now k1 = now k"
    "tmrs k1 = (tmrs ?k0)(TUser w := (tmrs ?k0 (TUser w))\<lparr>tm_timeout := now k + n, tm_active := True\<rparr>)"
    "hard k1 = removeAll (TUser w) (hard k)" "TUser w \<in> set (soft k1)"
    by (auto simp: tm)
  note kk1 = timer_start_kern [OF k1(1)]
  have v: "kinv k1" by (rule kinvX_cong [OF assms(1)]) (use kk kk1 in simp_all)
  have t: "tminv k1" using assms(2) k1(3,4) kk kk1 timer_start_inv [OF i0 k1(1)] by (auto simp: tminv_def tm)
  have c: "cur k1 = Some c" using assms(3) kk kk1 by simp
  have u: "tm_timeout (tmrs k1 (TUser w)) = now k + n" "tm_active (tmrs k1 (TUser w))" "tm_soft (tmrs k1 (TUser w))" "TUser w \<notin> set (hard k1)"
    using k1(3,4) by (simp_all add: tm)
  show ?thesis
  proof (cases "stat k1 tt = T_SUSPEND")
    case False
    then show ?thesis using k1(1,2,5) v t c u by (simp add: rt_timer_start_def)
  next
    case True
    obtain k2 where k2: "rt_thread_resume tt k1 = Some (k2, RT_EOK)" "kinv k2" "tminv k2" "cur k2 = cur k1"
      using resume_spec [OF v t True] by blast
    have c2: "cur k2 = Some c" using k2(4) c by simp
    obtain k' c' where k': "rt_schedule k2 = Some k'" "kinv k'" "cur k' = Some c'" "sched_frame k2 k'" using schedule_frame [OF k2(2) c2] by blast
    have "tmrs k' = tmrs k2" "soft k' = soft k2" "hard k' = hard k2" "now k' = now k2" using k'(4) by (simp_all add: sched_frame_def)
    then show ?thesis using k1(1,2,5) True u k2(1) k' tminv_sched [OF k2(3) k'(4)] resume_user_timer(1-3) [OF k2(1), of w] resume_user_timer(4) [OF k2(1)]
      by (simp add: rt_timer_start_def)
  qed
qed

text \<open>An item submitted with a delay of \<open>n\<close> ticks is in no list yet; its soft timer is due exactly \<open>n\<close> ticks from
  now. Cancelled before, the timer is off and the item free again; otherwise the timeout function submits it to the queue.\<close>

theorem work_delayed_spec:
  assumes "kinv k" "tminv k" "cur k = Some c" "wk_inv s" "\<not> wk_pending (works s w)" "wk_workqueue (works s w) = None"
    "TUser w \<notin> set (hard k) \<union> set (soft k)" "0 < n" "n < half_range"
  shows "\<exists>k1 s1. rt_workqueue_submit_work tt q w n s k = Some (k1, s1, RT_EOK) \<and> kinv k1 \<and> wk_inv s1 \<and>
    TUser w \<in> set (soft k1) \<and> tm_timeout (tmrs k1 (TUser w)) = now k + n \<and> (\<forall>p. work_list (queues s1 p) = work_list (queues s p)) \<and>
    (\<exists>k2 s2. rt_workqueue_cancel_work q w s1 k1 = (k2, s2, RT_EOK) \<and> TUser w \<notin> set (hard k2) \<union> set (soft k2) \<and>
       \<not> wk_submitting (works s2 w) \<and> wk_workqueue (works s2 w) = None) \<and>
    (\<forall>k2 k3 s2 e. delayed_work_timeout_handler w s1 k2 = Some (k3, s2, e) \<and> work_current (queues s q) \<noteq> Some w \<longrightarrow>
       e = RT_EOK \<and> work_list (queues s2 q) = work_list (queues s q) @ [w])"
proof -
  obtain k1 where k1: "rt_timer_start tt (TUser w) (rt_timer_init (TUser w) n False True k) = Some k1" "kinv k1"
    "TUser w \<in> set (soft k1)" "TUser w \<notin> set (hard k1)" "tm_timeout (tmrs k1 (TUser w)) = now k + n" "tm_active (tmrs k1 (TUser w))"
    using soft_timer_start [OF assms(1-3,7,9)] by blast
  define s1 where "s1 = upd_work w (\<lambda>r. r\<lparr>wk_submitting := True\<rparr>) (upd_work w (\<lambda>r. r\<lparr>wk_workqueue := Some q\<rparr>)
    (upd_work w (\<lambda>r. r\<lparr>wk_delayed := True\<rparr>) s))"
  have w1: "wk_delayed (works s1 w)" "wk_submitting (works s1 w)" "wk_workqueue (works s1 w) = Some q" "\<not> wk_pending (works s1 w)"
    "queues s1 = queues s" using assms(5) by (simp_all add: s1_def)
  have sub: "rt_workqueue_submit_work tt q w n s k = Some (k1, s1, RT_EOK)"
    using k1(1) assms(6-8) by (auto simp: rt_workqueue_submit_work_def workqueue_submit_delayed_work_def s1_def Let_def)
  have i: "wk_inv s1" by (rule wk_ok_cong [of _ s]) (use assms(4) in \<open>simp_all add: s1_def\<close>)
  have can: "\<exists>k2 s2. rt_workqueue_cancel_work q w s1 k1 = (k2, s2, RT_EOK) \<and> TUser w \<notin> set (hard k2) \<union> set (soft k2) \<and>
       \<not> wk_submitting (works s2 w) \<and> wk_workqueue (works s2 w) = None"
    using w1 k1(6) by (simp add: rt_workqueue_cancel_work_def workqueue_cancel_delayed_work_def rt_timer_detach_def timer_remove_def)
  have n: "w \<notin> set (work_list (queues s q))" by (rule wk_invD(3) [OF assms(4,5)])
  have "e = RT_EOK \<and> work_list (queues s2 q) = work_list (queues s q) @ [w]"
    if h: "delayed_work_timeout_handler w s1 k2 = Some (k3, s2, e)" "work_current (queues s q) \<noteq> Some w" for k2 k3 s2 e
    using h w1 n by (auto simp: delayed_work_timeout_handler_def workqueue_submit_work_def Let_def bind_Some_iff)
  then show ?thesis using sub k1(2,3,5) i can w1(5) by auto
qed

theorem work_delayed_spec_witness:
  "\<exists>k1 s1. rt_workqueue_submit_work 4 0 7 500 (idle_state 1) kern_example = Some (k1, s1, RT_EOK) \<and> TUser 7 \<in> set (soft k1) \<and>
    tm_timeout (tmrs k1 (TUser 7)) = now kern_example + 500"
proof -
  note b = can_blockD [OF kern_example_can_block]
  have t: "TUser 7 \<notin> set (hard kern_example) \<union> set (soft kern_example)" by (simp add: kern_example_def)
  have h: "0 < (500 :: 32 word)" "(500 :: 32 word) < half_range" by (simp_all add: word_less_nat_alt)
  show ?thesis
    using work_delayed_spec [OF ipc_invD(1) [OF b(1)] ipc_invD(2) [OF b(1)] b(2) idle_state_inv [of 1] _ _ t h, of 4 0] by auto
qed

end
