(* ===== verification/Gc0328c.thy ===== *)
theory Gc0328c
  imports Color Event SysHeap
begin

text \<open>
  The driver of the camera, \<^verbatim>\<open>libraries/drivers/drv_gc0328c.c\<close> and its register tables in \<^verbatim>\<open>drv_gc0328c.h\<close>. At the end
  of a frame the interrupt routine converts the 320 by 240 pixels that the DMA left in one of two buffers from RGB565 to
  three bytes each, into the frame buffer of the display that the vision code reads, and sends an event to the camera
  thread. The bus to the sensor is a parameter \<open>xfer\<close>: what a transfer does to the bus, how many messages it carried and
  what it read. A buffer is a function from offsets to bytes; an access outside it is \<open>None\<close>, and so is the return of
  a variable that was not set.
\<close>

section \<open>Pixels\<close>

definition JPEG_LINE_SIZE :: nat where
  "JPEG_LINE_SIZE = 38400"

definition JPEG_BUF_SIZE :: nat where
  "JPEG_BUF_SIZE = 320 * 240 * 2"

text \<open>One pixel; the arithmetic is done in 32 bits and cut to a byte.\<close>

definition pixel888 :: "16 word \<Rightarrow> 8 word \<times> 8 word \<times> 8 word" where
  "pixel888 color =
     (let c = ucast color :: 32 word
      in (ucast (push_bit 3 (drop_bit 11 (c AND 0xf800))),
          ucast (push_bit 2 (drop_bit 5 (c AND 0x07e0))),
          ucast (push_bit 3 (c AND 0x001f))))"

text \<open>The half word at index \<open>i\<close> from offset \<open>off\<close>, low byte first; the buffer has \<open>sz\<close> bytes.\<close>

definition half_at :: "nat \<Rightarrow> (nat \<Rightarrow> 8 word) \<Rightarrow> nat \<Rightarrow> nat \<Rightarrow> 16 word option" where
  "half_at sz p off i = (if off + 2 * i + 1 < sz then Some (word_cat (p (off + 2 * i + 1)) (p (off + 2 * i))) else None)"

definition put888 :: "frame \<Rightarrow> nat \<Rightarrow> 8 word \<times> 8 word \<times> 8 word \<Rightarrow> frame option" where
  "put888 d n rgb = (if n + 2 < LCD_BUF_SIZE then Some (d(n := fst rgb, n + 1 := fst (snd rgb), n + 2 := snd (snd rgb))) else None)"

text \<open>The loop of \<^verbatim>\<open>rgb565_to_rgb888\<close>, with \<open>m\<close> pixels to go, at pixel \<open>i\<close> and target byte \<open>n\<close>.\<close>

fun rgb565_loop :: "nat \<Rightarrow> nat \<Rightarrow> nat \<Rightarrow> (nat \<Rightarrow> 8 word) \<Rightarrow> nat \<Rightarrow> nat \<Rightarrow> frame \<Rightarrow> frame option" where
  "rgb565_loop 0 i n src off dst d = Some d"
| "rgb565_loop (Suc m) i n src off dst d =
     do {
       color \<leftarrow> half_at (4 * JPEG_LINE_SIZE) src off i;
       d1 \<leftarrow> put888 d (dst + n) (pixel888 color);
       rgb565_loop m (i + 1) (n + 3) src off dst d1
     }"

definition rgb565_to_rgb888 :: "(nat \<Rightarrow> 8 word) \<Rightarrow> nat \<Rightarrow> nat \<Rightarrow> nat \<Rightarrow> frame \<Rightarrow> frame option" where
  "rgb565_to_rgb888 src off dst sz d = rgb565_loop sz 0 0 src off dst d"

fun frame_lines :: "nat \<Rightarrow> nat \<Rightarrow> (nat \<Rightarrow> 8 word) \<Rightarrow> frame \<Rightarrow> frame option" where
  "frame_lines 0 i src d = Some d"
| "frame_lines (Suc m) i src d =
     do {
       d1 \<leftarrow> rgb565_to_rgb888 src (i * 320 * 2) (i * 320 * 3) 320 d;
       frame_lines m (i + 1) src d1
     }"

text \<open>The end of a frame: \<open>line1\<close> is the bit of the DMA that says which buffer it is filling now.\<close>

definition camera_frame_data_process ::
  "nat \<Rightarrow> bool \<Rightarrow> (nat \<Rightarrow> 8 word) \<Rightarrow> (nat \<Rightarrow> 8 word) \<Rightarrow> frame \<Rightarrow> event \<Rightarrow> kern \<Rightarrow> (frame \<times> kern \<times> event) option" where
  "camera_frame_data_process o' line1 buf0 buf1 d e k =
     do {
       d1 \<leftarrow> frame_lines 240 0 (if line1 then buf1 else buf0) d;
       (k1, e1, _) \<leftarrow> rt_event_send o' 1 e k;
       Some (d1, k1, e1)
     }"

section \<open>YUV\<close>

text \<open>\<^verbatim>\<open>convert_uyvy_to_rgb\<close>, for pixels in the order Y V Y U; the shifts of negative numbers round down.\<close>

definition clamp255 :: "int \<Rightarrow> int" where
  "clamp255 x = (if x > 255 then 255 else if x < 0 then 0 else x)"

definition yuv_pixel :: "8 word \<Rightarrow> 8 word \<Rightarrow> 8 word \<Rightarrow> int \<times> int \<times> int" where
  "yuv_pixel yb ub vb =
     (let y = uint yb; u = uint ub - 128; v = uint vb - 128
      in (clamp255 (y + v + drop_bit 8 (v * 103)),
          clamp255 (y - drop_bit 8 (u * 88) - drop_bit 8 (v * 183)),
          clamp255 (y + u + drop_bit 8 (u * 198))))"

definition rgb565_bytes :: "int \<times> int \<times> int \<Rightarrow> 8 word list" where
  "rgb565_bytes rgb =
     (case rgb of (r, g, b) \<Rightarrow>
        [word_of_int ((push_bit 3 (g AND 0x1c)) OR drop_bit 3 b), word_of_int ((r AND 0xf8) OR drop_bit 5 g)])"

fun uyvy_loop :: "nat \<Rightarrow> 8 word list \<Rightarrow> nat \<Rightarrow> nat \<Rightarrow> nat \<Rightarrow> nat \<Rightarrow> 8 word list option" where
  "uyvy_loop 0 inb Ypos Upos Vpos i = Some []"
| "uyvy_loop (Suc m) inb Ypos Upos Vpos i =
     (if Ypos < length inb \<and> Upos < length inb \<and> Vpos < length inb then
        (let px = rgb565_bytes (yuv_pixel (inb ! Ypos) (inb ! Upos) (inb ! Vpos));
             Y = Ypos + 2;
             rest = (if (i + 1) mod 2 = 0 then uyvy_loop m inb Y (Y - 1) (Y + 1) (i + 1) else uyvy_loop m inb Y Upos Vpos (i + 1))
         in map_option ((@) px) rest)
      else None)"

definition convert_uyvy_to_rgb :: "8 word list \<Rightarrow> nat \<Rightarrow> nat \<Rightarrow> 8 word list option" where
  "convert_uyvy_to_rgb inb imgWidth imgHeight = uyvy_loop (imgHeight * imgWidth) inb 0 3 1 0"

section \<open>The sensor\<close>

definition gc0328c_init_talbe :: "(8 word \<times> 8 word) list" where
  "gc0328c_init_talbe = [(0xFE, 0x80), (0xFE, 0x80), (0xFC, 0x16), (0xFC, 0x16), (0xFC, 0x16), (0xFC, 0x16), (0xF1, 0x00), (0xF2, 0x00),
     (0xFE, 0x00), (0x4F, 0x00), (0x03, 0x00), (0x04, 0xC0), (0x42, 0x00), (0x77, 0x5A), (0x78, 0x40), (0x79, 0x56),
     (0xFE, 0x00), (0x0D, 0x01), (0x0E, 0xE8), (0x0F, 0x02), (0x10, 0x88), (0x09, 0x00), (0x0A, 0x00), (0x0B, 0x00),
     (0x0C, 0x00), (0x16, 0x00), (0x17, 0x14), (0x18, 0x0E), (0x19, 0x06), (0x1B, 0x48), (0x1F, 0xC8), (0x20, 0x01),
     (0x21, 0x78), (0x22, 0xB0), (0x23, 0x04), (0x24, 0x16), (0x26, 0x00), (0x50, 0x01), (0x70, 0x45), (0x05, 0x00),
     (0x06, 0xDE), (0x07, 0x00), (0x08, 0xA7), (0xFE, 0x01), (0x29, 0x00), (0x2A, 0x83), (0x2B, 0x02), (0x2C, 0x8F),
     (0x2D, 0x02), (0x2E, 0x8F), (0x2F, 0x02), (0x30, 0x8F), (0x31, 0x02), (0x32, 0x8F), (0xFE, 0x00), (0xFE, 0x01),
     (0x50, 0x00), (0x4F, 0x00), (0x4C, 0x01), (0x4F, 0x00), (0x4F, 0x00), (0x4F, 0x00), (0x4F, 0x00), (0x4F, 0x00),
     (0x4D, 0x30), (0x4E, 0x04), (0x4E, 0x04), (0x4E, 0x04), (0x4E, 0x04), (0x4E, 0x04), (0x4E, 0x04), (0x4E, 0x04),
     (0x4E, 0x04), (0x4E, 0x04), (0x4E, 0x04), (0x4E, 0x04), (0x4E, 0x04), (0x4E, 0x04), (0x4E, 0x04), (0x4E, 0x04),
     (0x4E, 0x04), (0x4D, 0x40), (0x4E, 0x04), (0x4E, 0x04), (0x4E, 0x04), (0x4E, 0x04), (0x4E, 0x04), (0x4E, 0x04),
     (0x4E, 0x04), (0x4E, 0x04), (0x4E, 0x04), (0x4E, 0x04), (0x4E, 0x04), (0x4E, 0x04), (0x4E, 0x04), (0x4E, 0x04),
     (0x4E, 0x04), (0x4E, 0x04), (0x4D, 0x50), (0x4E, 0x04), (0x4E, 0x04), (0x4E, 0x04), (0x4E, 0x04), (0x4E, 0x04),
     (0x4E, 0x04), (0x4E, 0x04), (0x4E, 0x04), (0x4E, 0x04), (0x4E, 0x04), (0x4E, 0x04), (0x4E, 0x04), (0x4E, 0x04),
     (0x4E, 0x04), (0x4E, 0x04), (0x4E, 0x04), (0x4D, 0x60), (0x4E, 0x04), (0x4E, 0x04), (0x4E, 0x04), (0x4E, 0x04),
     (0x4E, 0x04), (0x4E, 0x04), (0x4E, 0x04), (0x4E, 0x04), (0x4E, 0x04), (0x4E, 0x04), (0x4E, 0x04), (0x4E, 0x04),
     (0x4E, 0x04), (0x4E, 0x04), (0x4E, 0x04), (0x4E, 0x04), (0x4D, 0x70), (0x4E, 0x04), (0x4E, 0x04), (0x4E, 0x04),
     (0x4E, 0x04), (0x4E, 0x04), (0x4E, 0x04), (0x4E, 0x04), (0x4E, 0x04), (0x4E, 0x04), (0x4E, 0x04), (0x4E, 0x04),
     (0x4E, 0x04), (0x4E, 0x04), (0x4E, 0x04), (0x4E, 0x04), (0x4E, 0x04), (0x4F, 0x01), (0x50, 0x88), (0xFE, 0x00),
     (0xFE, 0x00), (0x27, 0xB7), (0x28, 0x7F), (0x29, 0x20), (0x33, 0x20), (0x34, 0x20), (0x35, 0x20), (0x36, 0x20),
     (0x32, 0x08), (0x3B, 0x00), (0x3C, 0x00), (0x3D, 0x00), (0x3E, 0x00), (0x47, 0x00), (0x48, 0x00), (0x40, 0x7F),
     (0x41, 0x26), (0x42, 0xFB), (0x44, 0x26), (0x45, 0x00), (0x46, 0x03), (0x49, 0x23), (0x4F, 0x01), (0x4B, 0x01),
     (0x50, 0x01), (0x7E, 0x0A), (0x7F, 0x03), (0x81, 0x15), (0x82, 0x90), (0x83, 0x02), (0x84, 0xE5), (0x90, 0x2C),
     (0x92, 0x02), (0x94, 0x02), (0x95, 0x35), (0xD1, 0x24), (0xD2, 0x24), (0xD3, 0x40), (0xDD, 0xD3), (0xDE, 0x38),
     (0xE4, 0x88), (0xE5, 0x40), (0xD7, 0x0E), (0xFE, 0x00), (0xBF, 0x0E), (0xC0, 0x1C), (0xC1, 0x34), (0xC2, 0x48),
     (0xC3, 0x5A), (0xC4, 0x6E), (0xC5, 0x80), (0xC6, 0x9C), (0xC7, 0xB4), (0xC8, 0xC7), (0xC9, 0xD7), (0xCA, 0xE3),
     (0xCB, 0xED), (0xCC, 0xF2), (0xCD, 0xF8), (0xCE, 0xFD), (0xCF, 0xFF), (0xFE, 0x00), (0x63, 0x00), (0x64, 0x05),
     (0x65, 0x0B), (0x66, 0x19), (0x67, 0x2E), (0x68, 0x40), (0x69, 0x54), (0x6A, 0x66), (0x6B, 0x86), (0x6C, 0xA7),
     (0x6D, 0xC6), (0x6E, 0xE4), (0x6F, 0xFF), (0xFE, 0x01), (0x18, 0x02), (0xFE, 0x00), (0x97, 0x30), (0x98, 0x00),
     (0x9B, 0x60), (0x9C, 0x60), (0xA4, 0x50), (0xA8, 0x80), (0xAA, 0x40), (0xA2, 0x23), (0xAD, 0x28), (0xFE, 0x01),
     (0x9C, 0x00), (0x9E, 0xC0), (0x9F, 0x40), (0xFE, 0x01), (0x08, 0xA0), (0x09, 0xE8), (0x10, 0x08), (0x11, 0x21),
     (0x12, 0x11), (0x13, 0x45), (0x15, 0xFC), (0x18, 0x02), (0x21, 0xF0), (0x22, 0x60), (0x23, 0x30), (0x25, 0x00),
     (0x24, 0x14), (0x3D, 0x80), (0x3E, 0x40), (0xFE, 0x01), (0x51, 0x88), (0x52, 0x12), (0x53, 0x80), (0x54, 0x60),
     (0x55, 0x01), (0x56, 0x02), (0x58, 0x00), (0x5B, 0x02), (0x5E, 0xA4), (0x5F, 0x8A), (0x61, 0xDC), (0x62, 0xDC),
     (0x70, 0xFC), (0x71, 0x10), (0x72, 0x10), (0x73, 0x20), (0x74, 0x20), (0x75, 0x01), (0x76, 0x00), (0x77, 0x40),
     (0x78, 0x70), (0x79, 0x00), (0x7B, 0x00), (0x7C, 0x71), (0x7D, 0x00), (0x80, 0x70), (0x81, 0x58), (0x82, 0x98),
     (0x83, 0x60), (0x84, 0x58), (0x85, 0x50), (0xFE, 0x00), (0xFE, 0x01), (0xC0, 0x10), (0xC1, 0x0C), (0xC2, 0x0A),
     (0xC6, 0x0E), (0xC7, 0x0B), (0xC8, 0x0A), (0xBA, 0x26), (0xBB, 0x1C), (0xBC, 0x1D), (0xB4, 0x23), (0xB5, 0x1C),
     (0xB6, 0x1A), (0xC3, 0x00), (0xC4, 0x00), (0xC5, 0x00), (0xC9, 0x00), (0xCA, 0x00), (0xCB, 0x00), (0xBD, 0x00),
     (0xBE, 0x00), (0xBF, 0x00), (0xB7, 0x07), (0xB8, 0x05), (0xB9, 0x05), (0xA8, 0x07), (0xA9, 0x06), (0xAA, 0x00),
     (0xAB, 0x04), (0xAC, 0x00), (0xAD, 0x02), (0xAE, 0x0D), (0xAF, 0x05), (0xB0, 0x00), (0xB1, 0x07), (0xB2, 0x03),
     (0xB3, 0x00), (0xA4, 0x00), (0xA5, 0x00), (0xA6, 0x00), (0xA7, 0x00), (0xA1, 0x3C), (0xA2, 0x50), (0xFE, 0x00),
     (0xB1, 0x12), (0xB2, 0xF5), (0xB3, 0xFE), (0xB4, 0xE0), (0xB5, 0x15), (0xB6, 0xC8), (0xFE, 0x01), (0x50, 0x00),
     (0xFE, 0x01), (0x4F, 0x00), (0x4C, 0x01), (0x4F, 0x00), (0x4F, 0x00), (0x4F, 0x00), (0x4D, 0x34), (0x4E, 0x04),
     (0x4E, 0x04), (0x4E, 0x02), (0x4E, 0x02), (0x4D, 0x44), (0x4E, 0x04), (0x4E, 0x04), (0x4E, 0x04), (0x4D, 0x53),
     (0x4E, 0x08), (0x4E, 0x08), (0x4E, 0x04), (0x4E, 0x04), (0x4D, 0x65), (0x4E, 0x04), (0x4D, 0x73), (0x4E, 0x20),
     (0x4D, 0x83), (0x4E, 0x20), (0x4F, 0x01), (0x50, 0x88), (0xFE, 0x00), (0xF1, 0x07), (0xF2, 0x01)]"

definition gc0328c_5pfs_talbe :: "(8 word \<times> 8 word) list" where
  "gc0328c_5pfs_talbe = [(0xFE, 0x01), (0x2B, 0x0A), (0x2C, 0x3C), (0x2D, 0x0A), (0x2E, 0x3C), (0x2F, 0x0A), (0x30, 0x3C), (0x31, 0x0A),
     (0x32, 0x3C)]"

definition gc0328c_10pfs_talbe :: "(8 word \<times> 8 word) list" where
  "gc0328c_10pfs_talbe = [(0xFE, 0x01), (0x2B, 0x05), (0x2C, 0x1E), (0x2D, 0x05), (0x2E, 0x1E), (0x2F, 0x05), (0x30, 0x1E), (0x31, 0x05),
     (0x32, 0x1E)]"

definition gc0328c_20pfs_talbe :: "(8 word \<times> 8 word) list" where
  "gc0328c_20pfs_talbe = [(0xFE, 0x01), (0x2B, 0x02), (0x2C, 0x8F), (0x2D, 0x02), (0x2E, 0x8F), (0x2F, 0x02), (0x30, 0x8F), (0x31, 0x02),
     (0x32, 0x8F)]"

definition gc0328c_QVGA_320_240_talbe :: "(8 word \<times> 8 word) list" where
  "gc0328c_QVGA_320_240_talbe = [(0xFE, 0x00), (0x59, 0x22), (0xFE, 0x00), (0x50, 0x01), (0x51, 0x00), (0x52, 0x00), (0x53, 0x00), (0x54, 0x00),
     (0x55, 0x00), (0x56, 0xF0), (0x57, 0x01), (0x58, 0x40)]"

definition gc0328c_VGA_640_480_talbe :: "(8 word \<times> 8 word) list" where
  "gc0328c_VGA_640_480_talbe = [(0xFE, 0x00), (0x59, 0x11), (0xFE, 0x00), (0x50, 0x01), (0x51, 0x00), (0x52, 0x00), (0x53, 0x00), (0x54, 0x00),
     (0x55, 0x01), (0x56, 0xE0), (0x57, 0x02), (0x58, 0x80)]"

datatype i2c_msg = I2C_WR "8 word" "8 word list" | I2C_RD "8 word" nat

type_synonym 'b xfer = "'b \<Rightarrow> i2c_msg list \<Rightarrow> 'b \<times> nat \<times> 8 word list"

definition DEV_ADDRESS :: "8 word" where
  "DEV_ADDRESS = 0x21"

definition GC0328C_ID :: "8 word" where
  "GC0328C_ID = 0x9d"

definition read_reg :: "'b xfer \<Rightarrow> 8 word \<Rightarrow> nat \<Rightarrow> 'b \<Rightarrow> 'b \<times> 8 word list \<times> rt_err" where
  "read_reg xfer reg len b =
     (case xfer b [I2C_WR DEV_ADDRESS [reg], I2C_RD DEV_ADDRESS len] of
        (b1, n, xs) \<Rightarrow> (b1, xs, if n = 2 then RT_EOK else RT_ERROR))"

definition write_reg :: "'b xfer \<Rightarrow> 8 word \<Rightarrow> 8 word \<Rightarrow> 'b \<Rightarrow> 'b \<times> rt_err" where
  "write_reg xfer reg data b =
     (case xfer b [I2C_WR DEV_ADDRESS [reg, data]] of (b1, n, _) \<Rightarrow> (b1, if n = 1 then RT_EOK else RT_ERROR))"

text \<open>The identity is 0 unless the bus delivered a byte; whether the transfer succeeded is not looked at.\<close>

definition gc0328c_read_id :: "'b xfer \<Rightarrow> 'b \<Rightarrow> 'b \<times> rt_err" where
  "gc0328c_read_id xfer b =
     (case read_reg xfer 0xf0 1 b of (b1, xs, _) \<Rightarrow>
        (b1, if (case xs of [] \<Rightarrow> 0 | x # _ \<Rightarrow> x) \<noteq> GC0328C_ID then RT_ERROR else RT_EOK))"

text \<open>Writing a table: what is returned is the result of the last write, if there was one.\<close>

fun write_table :: "'b xfer \<Rightarrow> (8 word \<times> 8 word) list \<Rightarrow> rt_err option \<Rightarrow> 'b \<Rightarrow> 'b \<times> rt_err option" where
  "write_table xfer [] ret b = (b, ret)"
| "write_table xfer ((reg, data) # t) ret b = (case write_reg xfer reg data b of (b1, e) \<Rightarrow> write_table xfer t (Some e) b1)"

datatype ppi_type = QVGA_320_240 | VGA_640_480 | PPI_MAX
datatype fps_type = TYPE_5FPS | TYPE_10FPS | TYPE_20FPS | FPS_MAX

definition camera_inf_cfg_gc0328c_ppi :: "'b xfer \<Rightarrow> ppi_type \<Rightarrow> 'b \<Rightarrow> 'b \<times> rt_err option" where
  "camera_inf_cfg_gc0328c_ppi xfer t b =
     write_table xfer (case t of QVGA_320_240 \<Rightarrow> gc0328c_QVGA_320_240_talbe | VGA_640_480 \<Rightarrow> gc0328c_VGA_640_480_talbe | PPI_MAX \<Rightarrow> []) None b"

definition camera_inf_cfg_gc0328c_fps :: "'b xfer \<Rightarrow> fps_type \<Rightarrow> 'b \<Rightarrow> 'b \<times> rt_err option" where
  "camera_inf_cfg_gc0328c_fps xfer t b =
     write_table xfer (case t of TYPE_5FPS \<Rightarrow> gc0328c_5pfs_talbe | TYPE_10FPS \<Rightarrow> gc0328c_10pfs_talbe
       | TYPE_20FPS \<Rightarrow> gc0328c_20pfs_talbe | FPS_MAX \<Rightarrow> []) None b"

definition gc0328c_rgb565_mode :: "'b xfer \<Rightarrow> 'b \<Rightarrow> 'b" where
  "gc0328c_rgb565_mode xfer b =
     fst (write_reg xfer 0x44 0x26 (fst (write_reg xfer 0x49 0x23 (fst (write_reg xfer 0xfe 0x00 b)))))"

text \<open>Initialisation: \<open>i2c\<close> and \<open>dcmi\<close> say whether the two devices are registered. The result names the buffer that
  was allocated, when the DMA is started.\<close>

definition rt_gc0328c_init ::
  "'b xfer \<Rightarrow> bool \<Rightarrow> bool \<Rightarrow> addr \<Rightarrow> addr list \<Rightarrow> 'b \<Rightarrow> mem \<Rightarrow> ('b \<times> mem \<times> addr option \<times> rt_err) option" where
  "rt_gc0328c_init xfer i2c dcmi sys hs b m =
     (if \<not> i2c then Some (b, m, None, RT_ERROR)
      else
        (let (b1, e) = gc0328c_read_id xfer b
         in if e \<noteq> RT_EOK then Some (b1, m, None, RT_ERROR)
            else do {
              let b2 = fst (write_table xfer gc0328c_init_talbe None b1);
              let (b3, e3) = camera_inf_cfg_gc0328c_ppi xfer QVGA_320_240 b2;
              e3' \<leftarrow> e3;
              if e3' \<noteq> RT_EOK then Some (b3, m, None, RT_ERROR)
              else do {
                let (b4, e4) = camera_inf_cfg_gc0328c_fps xfer TYPE_20FPS b3;
                e4' \<leftarrow> e4;
                if e4' \<noteq> RT_EOK then Some (b4, m, None, RT_ERROR)
                else if \<not> dcmi then Some (b4, m, None, RT_ERROR)
                else do {
                  (p, m1) \<leftarrow> rt_malloc sys hs JPEG_BUF_SIZE m;
                  Some (b4, m1, if p = 0 then None else Some p, if p = 0 then RT_ERROR else RT_EOK)
                }
              }
            }))"

section \<open>A frame\<close>

text \<open>The byte at offset \<open>q\<close> of a converted frame.\<close>

definition pix_byte :: "(nat \<Rightarrow> 8 word) \<Rightarrow> nat \<Rightarrow> 8 word" where
  "pix_byte src q =
     (let p = pixel888 (word_cat (src (2 * (q div 3) + 1)) (src (2 * (q div 3))))
      in if q mod 3 = 0 then fst p else if q mod 3 = 1 then fst (snd p) else snd (snd p))"

lemma pix_byte_at [simp]:
  "pix_byte src (3 * j) = fst (pixel888 (word_cat (src (2 * j + 1)) (src (2 * j))))"
  "pix_byte src (3 * j + 1) = fst (snd (pixel888 (word_cat (src (2 * j + 1)) (src (2 * j)))))"
  "pix_byte src (3 * j + 2) = snd (snd (pixel888 (word_cat (src (2 * j + 1)) (src (2 * j)))))"
proof -
  have "(3 * j + 1) div 3 = j" "(3 * j + 1) mod 3 = 1" "(3 * j + 2) div 3 = j" "(3 * j + 2) mod 3 = 2"
    by presburger+
  then show "pix_byte src (3 * j) = fst (pixel888 (word_cat (src (2 * j + 1)) (src (2 * j))))"
    "pix_byte src (3 * j + 1) = fst (snd (pixel888 (word_cat (src (2 * j + 1)) (src (2 * j)))))"
    "pix_byte src (3 * j + 2) = snd (snd (pixel888 (word_cat (src (2 * j + 1)) (src (2 * j)))))"
    by (simp_all add: pix_byte_def Let_def)
qed

lemma put888_pix_byte:
  assumes "3 * j + 2 < LCD_BUF_SIZE"
  shows "put888 d (3 * j) (pixel888 (word_cat (src (2 * j + 1)) (src (2 * j)))) =
           Some (\<lambda>q. if 3 * j \<le> q \<and> q < 3 * Suc j then pix_byte src q else d q)"
proof -
  have "q = 3 * j \<or> q = 3 * j + 1 \<or> q = 3 * j + 2" if "3 * j \<le> q" "q < 3 * Suc j" for q
    using that by arith
  then have "d(3 * j := pix_byte src (3 * j), 3 * j + 1 := pix_byte src (3 * j + 1), 3 * j + 2 := pix_byte src (3 * j + 2)) =
      (\<lambda>q. if 3 * j \<le> q \<and> q < 3 * Suc j then pix_byte src q else d q)"
    by (auto simp: fun_eq_iff simp del: pix_byte_at)
  moreover have "put888 d (3 * j) (pixel888 (word_cat (src (2 * j + 1)) (src (2 * j)))) =
      Some (d(3 * j := pix_byte src (3 * j), 3 * j + 1 := pix_byte src (3 * j + 1), 3 * j + 2 := pix_byte src (3 * j + 2)))"
    unfolding put888_def pix_byte_at using assms by (simp only: if_True)
  ultimately show ?thesis
    by (simp only:)
qed

lemma rgb565_loop_spec:
  assumes "h + i + m \<le> 320 * 240"
  shows "rgb565_loop m i (3 * i) src (2 * h) (3 * h) d =
           Some (\<lambda>q. if 3 * (h + i) \<le> q \<and> q < 3 * (h + i + m) then pix_byte src q else d q)"
  using assms
proof (induction m arbitrary: i d)
  case (Suc m)
  let ?d1 = "\<lambda>q. if 3 * (h + i) \<le> q \<and> q < 3 * Suc (h + i) then pix_byte src q else d q"
  have half: "half_at (4 * JPEG_LINE_SIZE) src (2 * h) i = Some (word_cat (src (2 * (h + i) + 1)) (src (2 * (h + i))))"
    using Suc.prems by (simp add: half_at_def JPEG_LINE_SIZE_def algebra_simps)
  have put: "put888 d (3 * (h + i)) (pixel888 (word_cat (src (2 * (h + i) + 1)) (src (2 * (h + i))))) = Some ?d1"
    by (rule put888_pix_byte) (use Suc.prems in simp)
  have rec: "rgb565_loop m (i + 1) (3 * (i + 1)) src (2 * h) (3 * h) ?d1 =
      Some (\<lambda>q. if 3 * (h + (i + 1)) \<le> q \<and> q < 3 * (h + (i + 1) + m) then pix_byte src q else ?d1 q)"
    by (rule Suc.IH) (use Suc.prems in simp)
  have merge: "(\<lambda>q. if 3 * (h + (i + 1)) \<le> q \<and> q < 3 * (h + (i + 1) + m) then pix_byte src q else ?d1 q) =
      (\<lambda>q. if 3 * (h + i) \<le> q \<and> q < 3 * (h + i + Suc m) then pix_byte src q else d q)"
    by (auto simp: fun_eq_iff)
  have n: "3 * h + 3 * i = 3 * (h + i)" "3 * i + 3 = 3 * (i + 1)"
    by simp_all
  show ?case
    by (simp only: rgb565_loop.simps half Option.bind_eq_Some_conv Option.bind.bind_lunit n put rec merge)
qed (auto simp: fun_eq_iff)

lemma frame_lines_spec:
  assumes "i + m \<le> 240"
  shows "frame_lines m i src d = Some (\<lambda>q. if 960 * i \<le> q \<and> q < 960 * (i + m) then pix_byte src q else d q)"
  using assms
proof (induction m arbitrary: i d)
  case (Suc m)
  let ?d1 = "\<lambda>q. if 960 * i \<le> q \<and> q < 960 * Suc i then pix_byte src q else d q"
  have "rgb565_to_rgb888 src (i * 320 * 2) (i * 320 * 3) 320 d = Some ?d1"
    using rgb565_loop_spec [of "320 * i" 0 320 src d] Suc.prems
    by (simp add: rgb565_to_rgb888_def mult.commute [of i] add.commute [of _ 960] del: rgb565_loop.simps)
  moreover have "frame_lines m (i + 1) src ?d1 =
      Some (\<lambda>q. if 960 * (i + 1) \<le> q \<and> q < 960 * (i + 1 + m) then pix_byte src q else ?d1 q)"
    by (rule Suc.IH) (use Suc.prems in simp)
  moreover have "(\<lambda>q. if 960 * (i + 1) \<le> q \<and> q < 960 * (i + 1 + m) then pix_byte src q else ?d1 q) =
      (\<lambda>q. if 960 * i \<le> q \<and> q < 960 * (i + Suc m) then pix_byte src q else d q)"
    by (auto simp: fun_eq_iff)
  ultimately show ?case
    by simp
qed (auto simp: fun_eq_iff)

text \<open>What the vision code may expect of a pixel: the parts of 5, 6 and 5 bits of the half word, scaled to bytes.\<close>

definition rgb565_pixel :: "8 word \<Rightarrow> 8 word \<Rightarrow> COLOR_RGB" where
  "rgb565_pixel lo hi =
     (let c = unat lo + 256 * unat hi
      in \<lparr>Red = of_nat (8 * (c div 2048)), Green = of_nat (4 * (c div 32 mod 64)), Blue = of_nat (8 * (c mod 32))\<rparr>)"

lemma pixel888_parts:
  "pixel888 c = (of_nat (8 * (unat c div 2048)), of_nat (4 * (unat c div 32 mod 64)), of_nat (8 * (unat c mod 32)))"
proof -
  have n: "unat c div 2048 = unat (drop_bit 11 c)" "unat c div 32 mod 64 = unat (take_bit 6 (drop_bit 5 c))"
    "unat c mod 32 = unat (take_bit 5 c)"
    by (simp_all add: unat_div unat_mod drop_bit_eq_div take_bit_eq_mod)
  have s: "of_nat (8 * unat w) = (push_bit 3 (ucast w) :: 8 word)" "of_nat (4 * unat w) = (push_bit 2 (ucast w) :: 8 word)"
    for w :: "16 word"
    by (simp_all add: push_bit_eq_mult)
  have b: "bit (248 :: int) i" if "i < 8" "3 \<le> i" for i
  proof -
    have "i = 3 \<or> i = 4 \<or> i = 5 \<or> i = 6 \<or> i = 7"
      using that by arith
    then show ?thesis
      by auto
  qed
  have g: "bit (252 :: int) i" if "i < 8" "2 \<le> i" for i
  proof -
    have "i = 2 \<or> i = 3 \<or> i = 4 \<or> i = 5 \<or> i = 6 \<or> i = 7"
      using that by arith
    then show ?thesis
      by auto
  qed
  show ?thesis
    unfolding n s pixel888_def Let_def
    by (intro prod_eqI; simp) (auto intro!: bit_word_eqI simp: bit_simps b g)
qed

lemma unat_half: "unat (word_cat hi lo :: 16 word) = unat lo + 256 * unat (hi :: 8 word)" for lo :: "8 word"
proof -
  have lo: "uint lo < 256" "0 \<le> uint lo" and hi: "uint hi < 256" "0 \<le> uint hi"
    using uint_bounded [of lo] uint_bounded [of hi] by simp_all
  have "uint (word_cat hi lo :: 16 word) = (uint lo + 256 * uint hi) mod 65536"
    unfolding word_cat_eq' by (simp add: uint_word_of_int concat_bit_eq push_bit_eq_mult take_bit_eq_mod lo mult.commute del: of_int_add)
  also have "\<dots> = uint lo + 256 * uint hi"
    using lo hi by (intro mod_pos_pos_trivial) auto
  finally have "int (unat (word_cat hi lo :: 16 word)) = int (unat lo + 256 * unat hi)"
    by simp
  then show ?thesis
    by (simp only: of_nat_eq_iff)
qed

lemma ReadColor_converted:
  assumes "x < 320" "y < 240"
  shows "ReadColor (\<lambda>q. if 0 \<le> q \<and> q < 960 * 240 then pix_byte src q else d q) x y =
           Some (rgb565_pixel (src (2 * (320 * y + x))) (src (2 * (320 * y + x) + 1)))"
proof -
  let ?j = "320 * y + x"
  have off: "y * 320 * 3 + x * 3 = 3 * ?j"
    by simp
  have j: "3 * ?j + 2 < 960 * 240"
    using assms by simp
  have "unat (word_cat (src (2 * ?j + 1)) (src (2 * ?j)) :: 16 word) = unat (src (2 * ?j)) + 256 * unat (src (2 * ?j + 1))"
    by (rule unat_half)
  then show ?thesis
    unfolding ReadColor_def off Let_def rgb565_pixel_def using j
    by (simp only: pix_byte_at pixel888_parts fst_conv snd_conv) simp
qed

lemma camera_frame_eq:
  "camera_frame_data_process o' line1 buf0 buf1 d e k =
     map_option (\<lambda>(k1, e1, _). (\<lambda>q. if 0 \<le> q \<and> q < 960 * 240 then pix_byte (if line1 then buf1 else buf0) q else d q, k1, e1))
       (rt_event_send o' 1 e k)"
proof -
  have "frame_lines 240 0 (if line1 then buf1 else buf0) d =
      Some (\<lambda>q. if 0 \<le> q \<and> q < 960 * 240 then pix_byte (if line1 then buf1 else buf0) q else d q)"
    using frame_lines_spec [of 0 240] by simp
  then show ?thesis
    by (cases "rt_event_send o' 1 e k") (auto simp: camera_frame_data_process_def)
qed

text \<open>C13. The end of a frame: the conversion reads and writes within the buffers, whichever of the two the DMA has finished.
  After it \<^verbatim>\<open>ReadColor\<close> gives, at every pixel of the 320 by 240 image, the half word the sensor delivered for it split
  into its parts of 5, 6 and 5 bits; the second half of the display is as it was; and the camera thread is sent its event.
\<close>

theorem frame_pixels:
  "\<exists>d'. camera_frame_data_process o' line1 buf0 buf1 d e k = map_option (\<lambda>(k1, e1, _). (d', k1, e1)) (rt_event_send o' 1 e k) \<and>
     (\<forall>x y. x < 320 \<longrightarrow> y < 240 \<longrightarrow>
        ReadColor d' x y = (let src = if line1 then buf1 else buf0; j = 2 * (320 * y + x) in Some (rgb565_pixel (src j) (src (j + 1))))) \<and>
     (\<forall>q\<ge>3 * 320 * 240. d' q = d q)"
proof (intro exI conjI)
  let ?src = "if line1 then buf1 else buf0"
  let ?d' = "\<lambda>q. if 0 \<le> q \<and> q < 960 * 240 then pix_byte ?src q else d q"
  show "camera_frame_data_process o' line1 buf0 buf1 d e k = map_option (\<lambda>(k1, e1, _). (?d', k1, e1)) (rt_event_send o' 1 e k)"
    by (rule camera_frame_eq)
  show "\<forall>x y. x < 320 \<longrightarrow> y < 240 \<longrightarrow>
      ReadColor ?d' x y = (let src = ?src; j = 2 * (320 * y + x) in Some (rgb565_pixel (src j) (src (j + 1))))"
    unfolding Let_def by (intro allI impI ReadColor_converted)
  show "\<forall>q\<ge>3 * 320 * 240. ?d' q = d q"
    by simp
qed

text \<open>The buffer of the second line holds the bytes 0, 1, 2, ...; the last pixel of the image is read.\<close>

theorem frame_pixels_witness:
  "\<exists>d'. camera_frame_data_process 0 True (\<lambda>_. 0) of_nat (\<lambda>_. 7) \<lparr>ev_set = 0, ev_flag = RT_IPC_FLAG_FIFO\<rparr> kern_example =
       map_option (\<lambda>(k1, e1, _). (d', k1, e1)) (rt_event_send 0 1 \<lparr>ev_set = 0, ev_flag = RT_IPC_FLAG_FIFO\<rparr> kern_example) \<and>
     ReadColor d' 319 239 = Some \<lparr>Red = 248, Green = 252, Blue = 240\<rparr> \<and> d' 230400 = 7"
proof -
  have 1: "(319 :: nat) < 320" "(239 :: nat) < 240" "(3 * 320 * 240 :: nat) \<le> 230400"
    by simp_all
  have 2: "2 * (320 * 239 + 319 :: nat) = 153598" "(153598 + 1 :: nat) = 153599"
    by simp_all
  have 3: "rgb565_pixel (of_nat 153598) (of_nat 153599) = \<lparr>Red = 248, Green = 252, Blue = 240\<rparr>"
    by (simp add: rgb565_pixel_def)
  show ?thesis
    using frame_pixels [of 0 True "\<lambda>_. 0" of_nat "\<lambda>_. 7" "\<lparr>ev_set = 0, ev_flag = RT_IPC_FLAG_FIFO\<rparr>" kern_example] 1
    unfolding Let_def if_True by (metis 2 3)
qed

section \<open>Colour conversion of YUV frames\<close>

text \<open>
  The layout asks for each pair of pixels to share the two chroma bytes of its own four bytes. The loop does so for \<open>V\<close>, but
  after each pair the index of \<open>U\<close> is set to one before the next luma byte, which is the \<open>U\<close> of the pair just done.
\<close>

definition uyvy_out :: "8 word list \<Rightarrow> nat \<Rightarrow> 8 word list" where
  "uyvy_out inb p =
     rgb565_bytes (yuv_pixel (inb ! (2 * p)) (inb ! (if p < 2 then 3 else 4 * (p div 2) - 1)) (inb ! (4 * (p div 2) + 1)))"

lemma uyvy_loop_spec:
  assumes "2 * (p + m) \<le> length inb" "4 \<le> length inb" "length inb mod 4 = 0"
  shows "uyvy_loop m inb (2 * p) (if p < 2 then 3 else 4 * (p div 2) - 1) (4 * (p div 2) + 1) p =
           Some (concat (map (uyvy_out inb) [p..<p + m]))"
  using assms(1)
proof (induction m arbitrary: p)
  case (Suc m)
  let ?U = "\<lambda>p. if p < 2 then 3 else 4 * (p div 2) - 1 :: nat"
  have len: "2 * p < length inb" "?U p < length inb" "4 * (p div 2) + 1 < length inb"
  proof -
    obtain n where n: "length inb = 4 * n"
      using assms(3) by auto
    then have "p div 2 < n"
      using Suc.prems by simp
    then show "2 * p < length inb" "?U p < length inb" "4 * (p div 2) + 1 < length inb"
      using n Suc.prems by auto
  qed
  have next_idx: "(if (p + 1) mod 2 = 0 then uyvy_loop m inb (2 * p + 2) (2 * p + 2 - 1) (2 * p + 2 + 1) (p + 1)
      else uyvy_loop m inb (2 * p + 2) (?U p) (4 * (p div 2) + 1) (p + 1)) =
      uyvy_loop m inb (2 * (p + 1)) (?U (p + 1)) (4 * ((p + 1) div 2) + 1) (p + 1)"
  proof (cases "(p + 1) mod 2 = 0")
    case True
    then obtain j where "p + 1 = 2 * j"
      by auto
    then have "4 * ((p + 1) div 2) = 2 * p + 2" "?U (p + 1) = 2 * p + 1"
      by auto
    then show ?thesis
      using True by simp
  next
    case False
    then have "(p + 1) div 2 = p div 2" "p + 1 < 2 \<longleftrightarrow> p < 2"
      by presburger+
    then show ?thesis
      using False by simp
  qed
  have "uyvy_loop m inb (2 * (p + 1)) (?U (p + 1)) (4 * ((p + 1) div 2) + 1) (p + 1) =
      Some (concat (map (uyvy_out inb) [p + 1..<p + 1 + m]))"
    by (rule Suc.IH) (use Suc.prems in simp)
  moreover have "[p..<p + Suc m] = p # [p + 1..<p + 1 + m]"
    by (simp add: upt_conv_Cons)
  moreover have "rgb565_bytes (yuv_pixel (inb ! (2 * p)) (inb ! ?U p) (inb ! (4 * (p div 2) + 1))) = uyvy_out inb p"
    by (simp add: uyvy_out_def)
  ultimately show ?case
    unfolding uyvy_loop.simps Let_def next_idx using len by (simp only: if_True simp_thms list.map concat.simps option.map)
qed simp

text \<open>Pixel \<open>p\<close> of a converted frame takes its luma and its \<open>V\<close> from its own place, and its \<open>U\<close>, except in the first
  pair, from the pair before.\<close>

theorem uyvy_chroma_lag:
  assumes "length inb = 2 * (w * h)" "even (w * h)" "0 < w * h"
  shows "convert_uyvy_to_rgb inb w h = Some (concat (map (uyvy_out inb) [0..<w * h]))"
proof -
  have "length inb mod 4 = 0" "4 \<le> length inb"
    using assms by presburger+
  then show ?thesis
    using uyvy_loop_spec [of 0 "w * h" inb] assms by (simp add: convert_uyvy_to_rgb_def mult.commute)
qed

text \<open>Two grey pairs, the first with a strong blue: the second pair, grey in the input, comes out with the blue of the first.\<close>

theorem uyvy_chroma_lag_witness:
  "convert_uyvy_to_rgb [100, 128, 100, 228, 100, 128, 100, 128] 4 1 =
     Some (concat (map (uyvy_out [100, 128, 100, 228, 100, 128, 100, 128]) [0..<4])) \<and>
   uyvy_out [100, 128, 100, 228, 100, 128, 100, 128] 2 = rgb565_bytes (yuv_pixel 100 228 128) \<and>
   rgb565_bytes (yuv_pixel 100 228 128) \<noteq> rgb565_bytes (yuv_pixel 100 128 128)"
proof -
  have "convert_uyvy_to_rgb [100, 128, 100, 228, 100, 128, 100, 128] 4 1 =
      Some (concat (map (uyvy_out [100, 128, 100, 228, 100, 128, 100, 128]) [0..<4 * 1]))"
    by (rule uyvy_chroma_lag) simp_all
  moreover have "uyvy_out [100, 128, 100, 228, 100, 128, 100, 128] 2 = rgb565_bytes (yuv_pixel 100 228 128)"
    by (simp add: uyvy_out_def)
  moreover have "rgb565_bytes (yuv_pixel 100 228 128) \<noteq> rgb565_bytes (yuv_pixel 100 128 128)"
    by code_simp
  ultimately show ?thesis
    by simp
qed

section \<open>Bringing up the sensor\<close>

text \<open>A bus with a sensor on it that answers every register read with \<open>i\<close>: it keeps the messages.\<close>

definition sensor_bus :: "8 word \<Rightarrow> i2c_msg list xfer" where
  "sensor_bus i b ms = (b @ ms, length ms, if list_ex (\<lambda>m. case m of I2C_RD _ _ \<Rightarrow> True | _ \<Rightarrow> False) ms then [i] else [])"

text \<open>What the sensor does with the messages: register \<open>0xfe\<close> selects the page the others are in.\<close>

fun last_write :: "8 word \<times> 8 word \<Rightarrow> (8 word \<times> 8 word) list \<Rightarrow> 8 word \<Rightarrow> 8 word option \<Rightarrow> 8 word option" where
  "last_write k [] pg x = x"
| "last_write k ((r, v) # ps) pg x =
     (if r = 0xfe then last_write k ps v x else last_write k ps pg (if k = (pg, r) then Some v else x))"

fun reg_write :: "i2c_msg \<Rightarrow> (8 word \<times> 8 word) list" where
  "reg_write (I2C_WR _ [r, v]) = [(r, v)]"
| "reg_write _ = []"

definition reg_file :: "i2c_msg list \<Rightarrow> 8 word \<times> 8 word \<Rightarrow> 8 word option" where
  "reg_file ms k = last_write k (concat (map reg_write ms)) 0 None"

abbreviation table_msgs :: "(8 word \<times> 8 word) list \<Rightarrow> i2c_msg list" where
  "table_msgs t \<equiv> map (\<lambda>(r, v). I2C_WR DEV_ADDRESS [r, v]) t"

lemma reg_writes_table [simp]: "concat (map reg_write (table_msgs t)) = t"
  by (induction t) auto

lemma write_table_sensor:
  "write_table (sensor_bus i) t ret b = (b @ table_msgs t, if t = [] then ret else Some RT_EOK)"
proof (induction t arbitrary: ret b)
  case (Cons p t)
  then show ?case
    by (cases p) (auto simp: write_reg_def sensor_bus_def)
qed simp

text \<open>What initialisation sends when the identity is right: the read of the identity and three tables.\<close>

definition init_msgs :: "i2c_msg list" where
  "init_msgs = [I2C_WR DEV_ADDRESS [0xf0], I2C_RD DEV_ADDRESS 1] @
     table_msgs (gc0328c_init_talbe @ gc0328c_QVGA_320_240_talbe @ gc0328c_20pfs_talbe)"

lemma init_sensor:
  "rt_gc0328c_init (sensor_bus GC0328C_ID) True True sys hs [] m =
     map_option (\<lambda>(p, m1). (init_msgs, m1, if p = 0 then None else Some p, if p = 0 then RT_ERROR else RT_EOK))
       (rt_malloc sys hs JPEG_BUF_SIZE m)"
proof -
  have id: "gc0328c_read_id (sensor_bus GC0328C_ID) [] = ([I2C_WR DEV_ADDRESS [0xf0], I2C_RD DEV_ADDRESS 1], RT_EOK)"
    by (simp add: gc0328c_read_id_def read_reg_def sensor_bus_def)
  have ne: "gc0328c_QVGA_320_240_talbe \<noteq> []" "gc0328c_20pfs_talbe \<noteq> []"
    by (simp_all add: gc0328c_QVGA_320_240_talbe_def gc0328c_20pfs_talbe_def)
  show ?thesis
    by (cases "rt_malloc sys hs JPEG_BUF_SIZE m")
      (auto simp: rt_gc0328c_init_def id camera_inf_cfg_gc0328c_ppi_def camera_inf_cfg_gc0328c_fps_def write_table_sensor ne init_msgs_def)
qed

lemma init_regs:
  "reg_file init_msgs k = last_write k (gc0328c_init_talbe @ gc0328c_QVGA_320_240_talbe @ gc0328c_20pfs_talbe) 0 None"
  unfolding reg_file_def init_msgs_def map_append concat_append reg_writes_table by simp

lemma window:
  "reg_file init_msgs (0, 0x55) = Some 0x00"
  "reg_file init_msgs (0, 0x56) = Some 0xf0"
  "reg_file init_msgs (0, 0x57) = Some 0x01"
  "reg_file init_msgs (0, 0x58) = Some 0x40"
  "reg_file init_msgs (0, 0x44) = Some 0x26"
proof -
  show "reg_file init_msgs (0, 0x55) = Some 0x00"
    unfolding init_regs by code_simp
  show "reg_file init_msgs (0, 0x56) = Some 0xf0"
    unfolding init_regs by code_simp
  show "reg_file init_msgs (0, 0x57) = Some 0x01"
    unfolding init_regs by code_simp
  show "reg_file init_msgs (0, 0x58) = Some 0x40"
    unfolding init_regs by code_simp
  show "reg_file init_msgs (0, 0x44) = Some 0x26"
    unfolding init_regs by code_simp
qed

text \<open>Bring-up: with a sensor that answers with its identity and both devices there, initialisation leaves the sensor
  delivering RGB565 (register \<open>0x44\<close>) in a window of 240 by 320, whose two bytes a pixel are exactly the buffer of
  one DMA transfer, and it succeeds unless the heap cannot give the buffer for the picture.\<close>

theorem init_window:
  "\<exists>b f. rt_gc0328c_init (sensor_bus GC0328C_ID) True True sys hs [] m =
       map_option (\<lambda>(p, m1). (b, m1, if p = 0 then None else Some p, if p = 0 then RT_ERROR else RT_EOK))
         (rt_malloc sys hs JPEG_BUF_SIZE m) \<and>
     f = reg_file b \<and> f (0, 0x44) = Some 0x26 \<and>
     map (\<lambda>r. f (0, r)) [0x55, 0x56, 0x57, 0x58] = map Some [0x00, 0xf0, 0x01, 0x40] \<and>
     2 * unat (word_cat (0x00 :: 8 word) (0xf0 :: 8 word) :: 16 word) * unat (word_cat (0x01 :: 8 word) (0x40 :: 8 word) :: 16 word) =
       4 * JPEG_LINE_SIZE"
proof (intro exI conjI)
  show "reg_file init_msgs = reg_file init_msgs" ..
  show "reg_file init_msgs (0, 0x44) = Some 0x26"
    by (rule window(5))
  show "map (\<lambda>r. reg_file init_msgs (0, r)) [0x55, 0x56, 0x57, 0x58] = map Some [0x00, 0xf0, 0x01, 0x40]"
    by (simp only: list.map window)
qed (rule init_sensor, simp add: unat_half JPEG_LINE_SIZE_def)

text \<open>A bus that counts transfers and fails those in \<open>bad\<close>.\<close>

definition flaky_bus :: "nat set \<Rightarrow> nat xfer" where
  "flaky_bus bad n ms = (n + 1, if n \<in> bad then 0 else length ms, [])"

lemma write_table_flaky:
  "write_table (flaky_bus bad) t ret n =
     (n + length t, if t = [] then ret else Some (if n + length t - 1 \<in> bad then RT_ERROR else RT_EOK))"
proof (induction t arbitrary: ret n)
  case (Cons p t)
  then show ?case
    by (cases p) (auto simp: write_reg_def flaky_bus_def)
qed simp

lemma table_sizes:
  "length gc0328c_QVGA_320_240_talbe = 12" "length gc0328c_VGA_640_480_talbe = 12"
  "length gc0328c_5pfs_talbe = 9" "length gc0328c_10pfs_talbe = 9" "length gc0328c_20pfs_talbe = 9"
  by (simp_all add: gc0328c_QVGA_320_240_talbe_def gc0328c_VGA_640_480_talbe_def gc0328c_5pfs_talbe_def
      gc0328c_10pfs_talbe_def gc0328c_20pfs_talbe_def)

lemmas table_nonempty = table_sizes [THEN arg_cong [where f = "\<lambda>n. n = 0"], unfolded length_0_conv, simplified]

text \<open>Errors of the bus: setting the size or the rate of the picture returns the result of the last of its transfers;
  failures of the others are lost, and for a type that is not known the variable returned was never set.\<close>

theorem cfg_reports_last:
  "snd (camera_inf_cfg_gc0328c_ppi (flaky_bus bad) t n) =
     (if t = PPI_MAX then None else Some (if n + 11 \<in> bad then RT_ERROR else RT_EOK)) \<and>
   snd (camera_inf_cfg_gc0328c_fps (flaky_bus bad) f n) =
     (if f = FPS_MAX then None else Some (if n + 8 \<in> bad then RT_ERROR else RT_EOK))"
proof
  show "snd (camera_inf_cfg_gc0328c_ppi (flaky_bus bad) t n) =
      (if t = PPI_MAX then None else Some (if n + 11 \<in> bad then RT_ERROR else RT_EOK))"
    by (cases t) (simp_all add: add.commute camera_inf_cfg_gc0328c_ppi_def write_table_flaky table_sizes table_nonempty)
  show "snd (camera_inf_cfg_gc0328c_fps (flaky_bus bad) f n) =
      (if f = FPS_MAX then None else Some (if n + 8 \<in> bad then RT_ERROR else RT_EOK))"
    by (cases f) (simp_all add: add.commute camera_inf_cfg_gc0328c_fps_def write_table_flaky table_sizes table_nonempty)
qed

end
