(* ===== verification/CameraThread.thy ===== *)
theory CameraThread
  imports Camera MsgQueue Gc0328c
begin

text \<open>
  The thread of the camera, \<^verbatim>\<open>camera_control\<close> of \<^verbatim>\<open>applications/control.c\<close>, and the two message queues the file sets up. The
  thread waits for the event that the driver sends at the end of a frame, runs the frame handler, posts its report at the
  head of the queue when there is one, restarts the camera and sleeps for ten milliseconds. Between two calls that block
  it runs as one piece, so the loop is four operations: waiting, waking up, working on a frame and pausing.
\<close>

section \<open>The queues\<close>

definition mesgq_sample :: "nat \<Rightarrow> (block \<Rightarrow> 8 word list) \<Rightarrow> kern \<Rightarrow> kern \<times> mq" where
  "mesgq_sample o' msg_pool k = rt_mq_init o' msg_pool 18 4096 RT_IPC_FLAG_PRIO k"

definition mesgq_con :: "nat \<Rightarrow> (block \<Rightarrow> 8 word list) \<Rightarrow> kern \<Rightarrow> kern \<times> mq" where
  "mesgq_con o' msg_pool2 k = rt_mq_init o' msg_pool2 1 4096 RT_IPC_FLAG_PRIO k"

text \<open>The nine half words of \<^verbatim>\<open>des\<close> as they lie in memory.\<close>

definition des_bytes :: "nat list \<Rightarrow> 8 word list" where
  "des_bytes d = concat (map (\<lambda>n. [of_nat n, of_nat (n div 256)]) d)"

lemma length_des_bytes [simp]: "length (des_bytes d) = 2 * length d"
  by (induction d) (simp_all add: des_bytes_def)

section \<open>The loop\<close>

text \<open>Posting the reports of a frame; the result of each is only printed.\<close>

fun post_reports :: "nat \<Rightarrow> nat list list \<Rightarrow> mq \<Rightarrow> kern \<Rightarrow> (rt_err outcome list \<times> mq \<times> kern) option" where
  "post_reports o' [] q k = Some ([], q, k)"
| "post_reports o' (d # ds) q k =
     do {
       (k1, q1, r) \<leftarrow> rt_mq_urgent o' (des_bytes d) q k;
       (rs, q2, k2) \<leftarrow> post_reports o' ds q1 k1;
       Some (r # rs, q2, k2)
     }"

definition camera_await :: "nat \<Rightarrow> event \<Rightarrow> kern \<Rightarrow> (kern \<times> event \<times> (32 word option \<times> rt_err) outcome) option" where
  "camera_await o' e k = rt_event_recv o' 1 (RT_EVENT_FLAG_AND OR RT_EVENT_FLAG_CLEAR) (- 1) e k"

definition camera_frame :: "nat \<Rightarrow> frame \<Rightarrow> cam \<Rightarrow> mq \<Rightarrow> kern \<Rightarrow> (cam \<times> cam_out list \<times> rt_err outcome list \<times> mq \<times> kern) option" where
  "camera_frame o' fb s q k =
     do {
       (s1, out) \<leftarrow> Feature_Recognize_Start_Phoenix fb s;
       (rs, q1, k1) \<leftarrow> post_reports o' (urgents out) q k;
       Some (s1, out, rs, q1, k1)
     }"

definition camera_pause :: "kern \<Rightarrow> kern option" where
  "camera_pause k = rt_thread_mdelay 10 k"

text \<open>Frame after frame, the buffer being filled anew each time.\<close>

fun camera_frames :: "nat \<Rightarrow> frame list \<Rightarrow> cam \<Rightarrow> mq \<Rightarrow> kern \<Rightarrow> (cam \<times> rt_err outcome list \<times> mq \<times> kern) option" where
  "camera_frames o' [] s q k = Some (s, [], q, k)"
| "camera_frames o' (fb # fbs) s q k =
     do {
       (s1, _, rs, q1, k1) \<leftarrow> camera_frame o' fb s q k;
       (s2, rs', q2, k2) \<leftarrow> camera_frames o' fbs s1 q1 k1;
       Some (s2, rs @ rs', q2, k2)
     }"

lemma and_one_or: "e AND 1 = 0 \<Longrightarrow> (e OR 1) AND NOT 1 = (e :: 32 word)"
  by (rule bit_word_eqI) (auto simp: bit_simps bit_eq_iff)

section \<open>Posting when nobody receives\<close>

lemma post_room:
  assumes "mq_inv q" "lists k (LSuspend o') = []" "0 < length d" "2 * length d \<le> unat (mq_msize q)"
  shows "\<exists>q'. rt_mq_urgent o' (des_bytes d) q k =
      Some (k, q', Done (if length (msgs q) < unat (mq_max q) then RT_EOK else RT_EFULL)) \<and>
    mq_inv q' \<and> mq_max q' = mq_max q \<and> mq_msize q' = mq_msize q \<and>
    msgs q' = (if length (msgs q) < unat (mq_max q)
      then (des_bytes d @ drop (2 * length d) (mq_data q (the (mq_free q)))) # msgs q else msgs q)"
proof -
  have ne: "des_bytes d \<noteq> []"
    using assms(3) length_des_bytes [of d] by force
  show ?thesis
  proof (cases "length (msgs q) < unat (mq_max q)")
    case True
    then have f: "mq_free q \<noteq> None"
      using mq_room(1) [OF assms(1)] by simp
    obtain fs qs where r: "mq_rep q {} fs qs" "mq_free q = None \<longleftrightarrow> fs = []"
      using assms(1) by (rule mq_inv_cases)
    then obtain b fs' where fs: "fs = b # fs'" "mq_free q = Some b"
      using f by (cases fs) (auto simp: mq_rep_def)
    obtain q' where "mq_put_urgent (des_bytes d) q = Some q'" "mq_inv q'" "mq_max q' = mq_max q" "mq_msize q' = mq_msize q"
      "msgs q' = (des_bytes d @ drop (2 * length d) (mq_data q b)) # msgs q"
      using mq_put_urgent_spec [OF r(1) [unfolded fs(1)], of "des_bytes d"] assms(4) mq_invI by auto
    then show ?thesis
      using True ne assms(2,4) fs(2) by (simp add: rt_mq_urgent_def mq_wake_def)
  next
    case False
    then have "mq_free q = None"
      using mq_room(1) [OF assms(1)] by simp
    then show ?thesis
      using False ne assms(1,4) by (simp add: rt_mq_urgent_def)
  qed
qed

text \<open>A fresh queue holds no message and has room for 170 of 20 bytes.\<close>

lemma mesgq_sample_fresh:
  assumes "mesgq_sample o' pool k = (k', q)" "\<And>b. length (pool b) = 20"
  shows "mq_inv q" "msgs q = []" "unat (mq_max q) = 170" "unat (mq_msize q) = 20" "lists k' (LSuspend o') = []"
proof -
  have a: "RT_ALIGN 18 4 = 20"
    by (simp add: RT_ALIGN_def)
  have q: "mq_max q = 170" "mq_msize q = 20" "mq_entry q = 0" "lists k' (LSuspend o') = []"
    using assms(1) by (auto simp: mesgq_sample_def rt_mq_init_def a Let_def split: prod.splits)
  have "mq_rep q {} (rev [0..<unat (mq_max q)]) []"
    using assms q by (intro rt_mq_init_rep [OF assms(1) [unfolded mesgq_sample_def]]) simp
  then show "mq_inv q" "msgs q = []"
    by (auto intro: mq_invI simp: msgs_rep)
  show "unat (mq_max q) = 170" "unat (mq_msize q) = 20" "lists k' (LSuspend o') = []"
    using q by simp_all
qed

section \<open>Frames without colours\<close>

text \<open>A frame in which no pixel of the display has the colour \<open>c\<close>.\<close>

definition blank :: "TARGET_CONDITION \<Rightarrow> frame \<Rightarrow> bool" where
  "blank c fb \<longleftrightarrow> (\<forall>x y. in_frame x y \<longrightarrow> pixel_match fb c x y = Some False)"

lemma blank_misses:
  assumes "blank c fb" "list_all (\<lambda>p. in_frame (fst p) (snd p)) ps"
  shows "misses fb c ps = length ps"
  using assms(2) by (induction ps) (use assms(1) in \<open>auto simp: blank_def\<close>)

lemma blocks_inside: "(j, i) \<in> set (blocks sx sy full_area) \<Longrightarrow> j < 320 \<and> i < 240"
proof -
  have "s' \<in> set (stops d e s) \<Longrightarrow> s' < e" for d e s s'
    by (induction d e s rule: stops.induct) (subst (asm) (2) stops.simps, auto split: if_splits)
  then show "(j, i) \<in> set (blocks sx sy full_area) \<Longrightarrow> j < 320 \<and> i < 240"
    by (auto simp: blocks_def full_area_def)
qed

lemma search_blank:
  assumes "blank c fb" "search_ok c full_area" "6 < unat (WIDTH_MIN c) div 3 + unat (HEIGHT_MIN c) div 3"
  shows "SearchCenter fb c full_area = Some None"
proof -
  let ?sx = "unat (WIDTH_MIN c) div 3" and ?sy = "unat (HEIGHT_MIN c) div 3"
  have s: "?sx \<le> 106" "?sy \<le> 160"
    using assms(2) by (auto simp: search_ok_def)
  have "\<not> misses fb c (cross_points ?sx ?sy j i) \<le> 6" if "(j, i) \<in> set (blocks ?sx ?sy full_area)" for j i
  proof -
    have "list_all (\<lambda>p. in_frame (fst p) (snd p)) (cross_points ?sx ?sy j i)"
      using cross_points_in_frame [OF _ _ s] blocks_inside [OF that] by (auto simp: list_all_iff)
    then show ?thesis
      using blank_misses [OF assms(1)] assms(3) by simp
  qed
  then have "List.find (\<lambda>(j, i). misses fb c (cross_points ?sx ?sy j i) \<le> 6) (blocks ?sx ?sy full_area) = None"
    by (auto simp: find_None_iff)
  then show ?thesis
    by (simp add: search_center_ok [OF assms(2)] search_ref_def)
qed

lemma trace_blank:
  assumes "blank c fb" "c = condition ! 0 \<or> c = condition ! 1" "areas ! 0 = full_area" "areas \<noteq> []"
  shows "Trace fb c areas 0 n = Some (areas, None)"
proof -
  have "SearchCenter fb c full_area = Some None"
    by (rule search_blank [OF assms(1)]) (use assms(2) in \<open>auto simp: condition_def search_ok_def full_area_def\<close>)
  moreover have "areas[0 := full_area] = areas"
    using assms(3) list_update_id [of areas 0] by simp
  ultimately show ?thesis
    using assms(3,4) by (simp add: Trace_def)
qed

lemma recognize_blank:
  assumes "blank (condition ! 0) fb" "blank (condition ! 1) fb" "cam_inv s" "area s ! 0 = full_area"
  shows "Feature_Recognize_Start_Phoenix fb s = Some (feature_step (None, None) s)"
proof -
  have ne: "area s \<noteq> []"
    using assms(3) by (auto simp: cam_inv_def)
  show ?thesis
    using trace_blank [OF assms(1) _ assms(4) ne] trace_blank [OF assms(2) _ assms(4) ne]
    by (simp add: Feature_Recognize_Start_Phoenix_def)
qed

lemma feature_step_nothing:
  assumes "feature_step (None, None) s = (s', out)"
  shows "area s' = area s"
  using assms by (auto simp: feature_step_def watchdog_def Let_def split: if_splits)

lemma blank_black: "blank c (\<lambda>_. 0)"
  by (auto simp: blank_def pixel_match_def ReadColor_def in_frame_def RGB2HSL_def hue_of_def minmax3 ColorMatch_def Let_def)

text \<open>One frame without colours, and any number of them: reports until the queue is full.\<close>

definition quiet :: "nat \<Rightarrow> cam \<Rightarrow> mq \<Rightarrow> kern \<Rightarrow> bool" where
  "quiet o' s q k \<longleftrightarrow> cam_inv s \<and> pre_u s = cam_u s \<and> area s ! 0 = full_area \<and> mq_inv q \<and> 18 \<le> unat (mq_msize q) \<and>
     lists k (LSuspend o') = [] \<and>
     list_all (\<lambda>m. \<exists>d. take 18 m = des_bytes d \<and> length d = 9 \<and> d ! 8 = 2) (msgs q)"

lemma quiet_frame:
  assumes "quiet o' s q k" "blank (condition ! 0) fb" "blank (condition ! 1) fb"
  shows "\<exists>s' out rs q'. camera_frame o' fb s q k = Some (s', out, rs, q', k) \<and> quiet o' s' q' k \<and>
    cam_count s' = (cam_count s + 1) mod 50 \<and> mq_max q' = mq_max q \<and>
    rs = (if cam_count s = 49 then [Done (if length (msgs q) < unat (mq_max q) then RT_EOK else RT_EFULL)] else []) \<and>
    length (msgs q') = length (msgs q) + (if cam_count s = 49 \<and> length (msgs q) < unat (mq_max q) then 1 else 0)"
proof -
  have i: "cam_inv s" "pre_u s = cam_u s" "area s ! 0 = full_area" "mq_inv q" "18 \<le> unat (mq_msize q)" "lists k (LSuspend o') = []"
    "list_all (\<lambda>m. \<exists>d. take 18 m = des_bytes d \<and> length d = 9 \<and> d ! 8 = 2) (msgs q)"
    using assms(1) by (simp_all add: quiet_def)
  obtain s' out where st: "feature_step (None, None) s = (s', out)"
    by fastforce
  note F = feature_step_idle [OF i(1,2) st] and A = feature_step_nothing [OF st]
  have f: "camera_frame o' fb s q k =
      do { (rs, q1, k1) \<leftarrow> post_reports o' (urgents out) q k; Some (s', out, rs, q1, k1) }"
    using recognize_blank [OF assms(2,3) i(1,3)] st by (simp add: camera_frame_def)
  show ?thesis
  proof (cases "cam_count s = 49")
    case False
    then show ?thesis
      using f F A i by (auto simp: quiet_def)
  next
    case True
    then have d: "urgents out = [des s']" "des s' ! 8 = 2" "length (des s') = 9"
      using F(1,5,6) by (auto simp: cam_inv_def)
    obtain q' where q': "rt_mq_urgent o' (des_bytes (des s')) q k =
        Some (k, q', Done (if length (msgs q) < unat (mq_max q) then RT_EOK else RT_EFULL))"
      "mq_inv q'" "mq_max q' = mq_max q" "mq_msize q' = mq_msize q"
      "msgs q' = (if length (msgs q) < unat (mq_max q)
        then (des_bytes (des s') @ drop (2 * length (des s')) (mq_data q (the (mq_free q)))) # msgs q else msgs q)"
      using post_room [OF i(4,6), of "des s'"] d(3) i(5) by auto
    have "list_all (\<lambda>m. \<exists>d. take 18 m = des_bytes d \<and> length d = 9 \<and> d ! 8 = 2) (msgs q')"
      using i(7) d(2,3) by (auto simp: q'(5))
    then have "quiet o' s' q' k"
      using F(1-3) A i q'(2,4) by (simp add: quiet_def)
    then show ?thesis
      using f d(1) q'(1,3,5) F(4) True by simp
  qed
qed

lemma quiet_frames:
  assumes "quiet o' s q k" "list_all (\<lambda>fb. blank (condition ! 0) fb \<and> blank (condition ! 1) fb) fbs"
    and "length (msgs q) \<le> unat (mq_max q)"
  shows "\<exists>s' q'. let n = (cam_count s + length fbs) div 50; room = unat (mq_max q) - length (msgs q) in
    camera_frames o' fbs s q k =
      Some (s', replicate (min n room) (Done RT_EOK) @ replicate (n - room) (Done RT_EFULL), q', k) \<and>
    quiet o' s' q' k \<and> length (msgs q') = length (msgs q) + min n room"
  using assms
proof (induction fbs arbitrary: s q)
  case Nil
  then have "cam_count s < 50"
    by (simp add: quiet_def cam_inv_def)
  then show ?case
    using Nil by simp
next
  case (Cons fb fbs)
  then obtain s1 out rs q1 where 1: "camera_frame o' fb s q k = Some (s1, out, rs, q1, k)" "quiet o' s1 q1 k"
    "cam_count s1 = (cam_count s + 1) mod 50" "mq_max q1 = mq_max q"
    "rs = (if cam_count s = 49 then [Done (if length (msgs q) < unat (mq_max q) then RT_EOK else RT_EFULL)] else [])"
    "length (msgs q1) = length (msgs q) + (if cam_count s = 49 \<and> length (msgs q) < unat (mq_max q) then 1 else 0)"
    using quiet_frame [of o' s q k fb] by auto
  have "length (msgs q1) \<le> unat (mq_max q1)"
    using 1(4,6) Cons.prems(3) by auto
  with Cons.IH [OF 1(2)] Cons.prems(2) obtain s2 q2 where 2:
    "camera_frames o' fbs s1 q1 k = Some (s2,
       replicate (min ((cam_count s1 + length fbs) div 50) (unat (mq_max q1) - length (msgs q1))) (Done RT_EOK) @
       replicate ((cam_count s1 + length fbs) div 50 - (unat (mq_max q1) - length (msgs q1))) (Done RT_EFULL), q2, k)"
    "quiet o' s2 q2 k"
    "length (msgs q2) = length (msgs q1) + min ((cam_count s1 + length fbs) div 50) (unat (mq_max q1) - length (msgs q1))"
    by (auto simp: Let_def)
  have c: "cam_count s < 50"
    using Cons.prems(1) by (simp add: quiet_def cam_inv_def)
  note D = div_step [OF c, of "length fbs"]
  let ?n = "(cam_count s1 + length fbs) div 50"
  have n: "(cam_count s + length (fb # fbs)) div 50 = (if cam_count s = 49 then Suc ?n else ?n)"
    using D 1(3) by simp
  have run: "camera_frames o' (fb # fbs) s q k = Some (s2, rs @
      replicate (min ?n (unat (mq_max q) - length (msgs q1))) (Done RT_EOK) @
      replicate (?n - (unat (mq_max q) - length (msgs q1))) (Done RT_EFULL), q2, k)"
    using 1(1,4) 2(1) by simp
  consider "cam_count s \<noteq> 49" | "cam_count s = 49" "length (msgs q) < unat (mq_max q)"
    | "cam_count s = 49" "length (msgs q) = unat (mq_max q)"
    using Cons.prems(3) by linarith
  then show ?case
  proof cases
    case 1
    then show ?thesis
      using run n 2(2,3) \<open>length (msgs q1) = _\<close> \<open>rs = _\<close> \<open>mq_max q1 = _\<close> by (auto simp: Let_def)
  next
    case 2
    then have r: "unat (mq_max q) - length (msgs q) = Suc (unat (mq_max q) - length (msgs q1))"
      using \<open>length (msgs q1) = _\<close> by simp
    show ?thesis
      using run n \<open>quiet o' s2 q2 k\<close> \<open>length (msgs q2) = _\<close> \<open>length (msgs q1) = _\<close> \<open>rs = _\<close> \<open>mq_max q1 = _\<close> 2
      by (auto simp: Let_def r)
  next
    case 3
    then show ?thesis
      using run n \<open>quiet o' s2 q2 k\<close> \<open>length (msgs q2) = _\<close> \<open>length (msgs q1) = _\<close> \<open>rs = _\<close> \<open>mq_max q1 = _\<close>
      by (auto simp: Let_def)
  qed
qed

end
