(* ===== verification/KString.thy ===== *)
theory KString
  imports SysHeap "HOL-Library.List_Lexorder"
begin

text \<open>
  Memory blocks and strings, \<^verbatim>\<open>src/kservice.c\<close> lines 117 to 530 and the aligned allocation of lines 1219 to 1283. Memory
  is a partial function from addresses to bytes: what is not in its domain must not be touched, and an access there makes
  the result \<open>None\<close>, as does a string without an end. A \<^verbatim>\<open>char\<close> is unsigned, as it is for this compiler and processor;
  a \<^verbatim>\<open>long\<close> has four bytes, the lowest first.
\<close>

section \<open>Memory\<close>

type_synonym bmem = "nat \<Rightarrow> 8 word option"

definition wr :: "nat \<Rightarrow> 8 word \<Rightarrow> bmem \<Rightarrow> bmem option" where
  "wr a v m = (if m a = None then None else Some (m(a \<mapsto> v)))"

definition store_long :: "nat \<Rightarrow> 32 word \<Rightarrow> bmem \<Rightarrow> bmem option" where
  "store_long a w m =
     do {
       m \<leftarrow> wr a (ucast w) m;
       m \<leftarrow> wr (a + 1) (ucast (drop_bit 8 w)) m;
       m \<leftarrow> wr (a + 2) (ucast (drop_bit 16 w)) m;
       wr (a + 3) (ucast (drop_bit 24 w)) m
     }"

definition copy_long :: "nat \<Rightarrow> nat \<Rightarrow> bmem \<Rightarrow> bmem option" where
  "copy_long d s m =
     do {
       b0 \<leftarrow> m s; b1 \<leftarrow> m (s + 1); b2 \<leftarrow> m (s + 2); b3 \<leftarrow> m (s + 3);
       m \<leftarrow> wr d b0 m; m \<leftarrow> wr (d + 1) b1 m; m \<leftarrow> wr (d + 2) b2 m; wr (d + 3) b3 m
     }"

section \<open>Filling\<close>

fun set_bytes :: "nat \<Rightarrow> nat \<Rightarrow> 8 word \<Rightarrow> bmem \<Rightarrow> bmem option" where
  "set_bytes 0 p d m = Some m"
| "set_bytes (Suc cnt) p d m = do { m \<leftarrow> wr p d m; set_bytes cnt (p + 1) d m }"

function set_longs4 :: "nat \<Rightarrow> nat \<Rightarrow> 32 word \<Rightarrow> bmem \<Rightarrow> (nat \<times> nat \<times> bmem) option" where
  "set_longs4 cnt p buffer m =
     (if 4 * 4 \<le> cnt then
        do {
          m \<leftarrow> store_long p buffer m;
          m \<leftarrow> store_long (p + 4) buffer m;
          m \<leftarrow> store_long (p + 8) buffer m;
          m \<leftarrow> store_long (p + 12) buffer m;
          set_longs4 (cnt - 4 * 4) (p + 16) buffer m
        }
      else Some (cnt, p, m))"
  by pat_completeness auto
termination
  by (relation "measure (\<lambda>(cnt, _). cnt)") auto

function set_longs :: "nat \<Rightarrow> nat \<Rightarrow> 32 word \<Rightarrow> bmem \<Rightarrow> (nat \<times> nat \<times> bmem) option" where
  "set_longs cnt p buffer m =
     (if 4 \<le> cnt then do { m \<leftarrow> store_long p buffer m; set_longs (cnt - 4) (p + 4) buffer m }
      else Some (cnt, p, m))"
  by pat_completeness auto
termination
  by (relation "measure (\<lambda>(cnt, _). cnt)") auto

definition rt_memset :: "nat \<Rightarrow> 32 word \<Rightarrow> nat \<Rightarrow> bmem \<Rightarrow> bmem option" where
  "rt_memset s c cnt m =
     (let d = c AND 0xff
      in if \<not> cnt < 4 \<and> s mod 4 = 0 then
           (let b2 = push_bit 8 d OR d; buffer = b2 OR push_bit 16 b2
            in do {
              (cnt, p, m) \<leftarrow> set_longs4 cnt s buffer m;
              (cnt, p, m) \<leftarrow> set_longs cnt p buffer m;
              set_bytes cnt p (ucast d) m
            })
         else set_bytes cnt s (ucast d) m)"

section \<open>Copying\<close>

fun copy_up :: "nat \<Rightarrow> nat \<Rightarrow> nat \<Rightarrow> bmem \<Rightarrow> bmem option" where
  "copy_up 0 d s m = Some m"
| "copy_up (Suc n) d s m = do { b \<leftarrow> m s; m \<leftarrow> wr d b m; copy_up n (d + 1) (s + 1) m }"

function copy_longs4 :: "nat \<Rightarrow> nat \<Rightarrow> nat \<Rightarrow> bmem \<Rightarrow> (nat \<times> nat \<times> nat \<times> bmem) option" where
  "copy_longs4 len d s m =
     (if 16 \<le> len then
        do {
          m \<leftarrow> copy_long d s m;
          m \<leftarrow> copy_long (d + 4) (s + 4) m;
          m \<leftarrow> copy_long (d + 8) (s + 8) m;
          m \<leftarrow> copy_long (d + 12) (s + 12) m;
          copy_longs4 (len - 16) (d + 16) (s + 16) m
        }
      else Some (len, d, s, m))"
  by pat_completeness auto
termination
  by (relation "measure (\<lambda>(len, _). len)") auto

function copy_longs :: "nat \<Rightarrow> nat \<Rightarrow> nat \<Rightarrow> bmem \<Rightarrow> (nat \<times> nat \<times> nat \<times> bmem) option" where
  "copy_longs len d s m =
     (if 4 \<le> len then do { m \<leftarrow> copy_long d s m; copy_longs (len - 4) (d + 4) (s + 4) m }
      else Some (len, d, s, m))"
  by pat_completeness auto
termination
  by (relation "measure (\<lambda>(len, _). len)") auto

declare set_longs4.simps [simp del] set_longs.simps [simp del] copy_longs4.simps [simp del] copy_longs.simps [simp del]

definition rt_memcpy :: "nat \<Rightarrow> nat \<Rightarrow> nat \<Rightarrow> bmem \<Rightarrow> bmem option" where
  "rt_memcpy dst src cnt m =
     (if \<not> cnt < 16 \<and> src mod 4 = 0 \<and> dst mod 4 = 0 then
        do {
          (len, d, s, m) \<leftarrow> copy_longs4 cnt dst src m;
          (len, d, s, m) \<leftarrow> copy_longs len d s m;
          copy_up len d s m
        }
      else copy_up cnt dst src m)"

text \<open>The pointers are decreased before each access.\<close>

fun copy_down :: "nat \<Rightarrow> nat \<Rightarrow> nat \<Rightarrow> bmem \<Rightarrow> bmem option" where
  "copy_down 0 d s m = Some m"
| "copy_down (Suc n) d s m = do { b \<leftarrow> m (s - 1); m \<leftarrow> wr (d - 1) b m; copy_down n (d - 1) (s - 1) m }"

definition rt_memmove :: "nat \<Rightarrow> nat \<Rightarrow> nat \<Rightarrow> bmem \<Rightarrow> bmem option" where
  "rt_memmove dest src n m =
     (if src < dest \<and> dest < src + n then copy_down n (dest + n) (src + n) m else copy_up n dest src m)"

section \<open>Comparing\<close>

fun rt_memcmp :: "nat \<Rightarrow> nat \<Rightarrow> nat \<Rightarrow> bmem \<Rightarrow> int option" where
  "rt_memcmp cs ct 0 m = Some 0"
| "rt_memcmp cs ct (Suc cnt) m =
     do {
       a \<leftarrow> m cs;
       b \<leftarrow> m ct;
       if uint a - uint b \<noteq> 0 then Some (uint a - uint b) else rt_memcmp (cs + 1) (ct + 1) cnt m
     }"

section \<open>Strings\<close>

partial_function (option) strlen_loop :: "bmem \<Rightarrow> nat \<Rightarrow> nat \<Rightarrow> nat option" where
  "strlen_loop m s sc = do { c \<leftarrow> m sc; if c \<noteq> 0 then strlen_loop m s (sc + 1) else Some (sc - s) }"

definition rt_strlen :: "nat \<Rightarrow> bmem \<Rightarrow> nat option" where
  "rt_strlen s m = strlen_loop m s s"

text \<open>The byte is read before the count is looked at.\<close>

partial_function (option) strnlen_loop :: "bmem \<Rightarrow> nat \<Rightarrow> nat \<Rightarrow> nat \<Rightarrow> nat option" where
  "strnlen_loop m s maxlen sc =
     do { c \<leftarrow> m sc; if c \<noteq> 0 \<and> sc - s < maxlen then strnlen_loop m s maxlen (sc + 1) else Some (sc - s) }"

definition rt_strnlen :: "nat \<Rightarrow> nat \<Rightarrow> bmem \<Rightarrow> nat option" where
  "rt_strnlen s maxlen m = strnlen_loop m s maxlen s"

partial_function (option) rt_strcmp :: "nat \<Rightarrow> nat \<Rightarrow> bmem \<Rightarrow> int option" where
  "rt_strcmp cs ct m =
     do {
       a \<leftarrow> m cs;
       b \<leftarrow> m ct;
       if a \<noteq> 0 \<and> a = b then rt_strcmp (cs + 1) (ct + 1) m else Some (uint a - uint b)
     }"

fun rt_strncmp :: "nat \<Rightarrow> nat \<Rightarrow> nat \<Rightarrow> bmem \<Rightarrow> int option" where
  "rt_strncmp cs ct 0 m = Some 0"
| "rt_strncmp cs ct (Suc cnt) m =
     do {
       a \<leftarrow> m cs;
       b \<leftarrow> m ct;
       let res = sint (a - b);
       if res \<noteq> 0 \<or> a = 0 then Some res else rt_strncmp (cs + 1) (ct + 1) cnt m
     }"

definition lower :: "8 word \<Rightarrow> int" where
  "lower c = (if uint c \<ge> 65 \<and> uint c \<le> 90 then uint c + 32 else uint c)"

partial_function (option) rt_strcasecmp :: "nat \<Rightarrow> nat \<Rightarrow> bmem \<Rightarrow> int option" where
  "rt_strcasecmp a b m =
     do {
       ca \<leftarrow> map_option lower (m a);
       cb \<leftarrow> map_option lower (m b);
       if ca = cb \<and> ca \<noteq> 0 then rt_strcasecmp (a + 1) (b + 1) m else Some (ca - cb)
     }"

text \<open>The copy of at most \<open>n\<close> bytes; behind the end of a short string the rest is filled with zeros.\<close>

fun rt_strncpy :: "nat \<Rightarrow> nat \<Rightarrow> nat \<Rightarrow> bmem \<Rightarrow> bmem option" where
  "rt_strncpy d s 0 m = Some m"
| "rt_strncpy d s (Suc n) m =
     do {
       c \<leftarrow> m s;
       m \<leftarrow> wr d c m;
       if c = 0 then set_bytes n (d + 1) 0 m else rt_strncpy (d + 1) (s + 1) n m
     }"

function strstr_loop :: "nat \<Rightarrow> nat \<Rightarrow> nat \<Rightarrow> nat \<Rightarrow> bmem \<Rightarrow> nat option option" where
  "strstr_loop l1 l2 s1 s2 m =
     (if l2 \<le> l1 \<and> 0 < l2 then
        do { r \<leftarrow> rt_memcmp s1 s2 l2 m; if r = 0 then Some (Some s1) else strstr_loop (l1 - 1) l2 (s1 + 1) s2 m }
      else Some None)"
  by pat_completeness auto
termination
  by (relation "measure (\<lambda>(l1, _). l1)") auto

declare strstr_loop.simps [simp del]

definition rt_strstr :: "nat \<Rightarrow> nat \<Rightarrow> bmem \<Rightarrow> nat option option" where
  "rt_strstr s1 s2 m =
     do {
       l2 \<leftarrow> rt_strlen s2 m;
       if l2 = 0 then Some (Some s1) else do { l1 \<leftarrow> rt_strlen s1 m; strstr_loop l1 l2 s1 s2 m }
     }"

section \<open>Blocks\<close>

text \<open>What filling and copying promise: a block of one value, and the old bytes of another block.\<close>

definition fill :: "nat \<Rightarrow> nat \<Rightarrow> 8 word \<Rightarrow> bmem \<Rightarrow> bmem" where
  "fill p n v m = (\<lambda>x. if p \<le> x \<and> x < p + n then Some v else m x)"

definition blit :: "nat \<Rightarrow> nat \<Rightarrow> nat \<Rightarrow> bmem \<Rightarrow> bmem" where
  "blit d s n m = (\<lambda>x. if d \<le> x \<and> x < d + n then m (s + (x - d)) else m x)"

definition there :: "bmem \<Rightarrow> nat \<Rightarrow> nat \<Rightarrow> bool" where
  "there m p n \<longleftrightarrow> (\<forall>x. p \<le> x \<and> x < p + n \<longrightarrow> m x \<noteq> None)"

lemma thereD: "there m p n \<Longrightarrow> p \<le> x \<Longrightarrow> x < p + n \<Longrightarrow> m x \<noteq> None"
  by (simp add: there_def)

lemma there_sub: "there m p n \<Longrightarrow> p \<le> q \<Longrightarrow> q + k \<le> p + n \<Longrightarrow> there m q k"
  by (auto simp: there_def)

lemma there_fill [simp]: "there m q k \<Longrightarrow> there (fill p n v m) q k"
  by (auto simp: there_def fill_def)

lemma there_upd [simp]: "there m q k \<Longrightarrow> there (m(a \<mapsto> v)) q k"
  by (auto simp: there_def)

lemma there_blit: "there m s n \<Longrightarrow> there m q k \<Longrightarrow> there (blit d s n m) q k"
  unfolding there_def blit_def by (metis add_less_cancel_left le_add1 less_diff_conv2 add.commute)

lemma fill_empty [simp]: "fill p 0 v m = m"
  by (auto simp: fill_def fun_eq_iff)

lemma blit_empty [simp]: "blit d s 0 m = m"
  by (auto simp: blit_def fun_eq_iff)

lemma fill_fill: "fill (p + n) k v (fill p n v m) = fill p (n + k) v m"
  by (auto simp: fill_def fun_eq_iff)

lemma blit_blit:
  assumes "d + n + k \<le> s \<or> s + n + k \<le> d"
  shows "blit (d + n) (s + n) k (blit d s n m) = blit d s (n + k) m"
  using assms by (auto simp: blit_def fun_eq_iff)

lemma wr_there: "m a \<noteq> None \<Longrightarrow> wr a v m = Some (m(a \<mapsto> v))"
  by (simp add: wr_def)

lemma set_bytes_fill: "there m p n \<Longrightarrow> set_bytes n p d m = Some (fill p n d m)"
proof (induction n arbitrary: p m)
  case (Suc n)
  have 1: "wr p d m = Some (m(p \<mapsto> d))"
    by (rule wr_there, rule thereD [OF Suc.prems]) simp_all
  have 2: "set_bytes n (p + 1) d (m(p \<mapsto> d)) = Some (fill (p + 1) n d (m(p \<mapsto> d)))"
    by (intro Suc.IH there_upd there_sub [OF Suc.prems]) simp_all
  have 3: "fill (p + 1) n d (m(p \<mapsto> d)) = fill p (Suc n) d m"
    by (auto simp: fill_def fun_eq_iff)
  show ?case
    unfolding set_bytes.simps 1 Option.bind.bind_lunit 2 3 by (rule refl)
qed simp

lemma store_long_fill:
  assumes "there m p 4" "b2 = push_bit 8 (c AND 0xff) OR (c AND 0xff)" "w = b2 OR push_bit 16 b2"
  shows "store_long p w m = Some (fill p 4 (ucast (c AND 0xff)) m)"
proof -
  have w: "ucast w = (ucast (c AND 0xff) :: 8 word)" "ucast (drop_bit 8 w) = (ucast (c AND 0xff) :: 8 word)"
    "ucast (drop_bit 16 w) = (ucast (c AND 0xff) :: 8 word)" "ucast (drop_bit 24 w) = (ucast (c AND 0xff) :: 8 word)"
    by (rule bit_word_eqI; auto simp: assms(2,3) bit_simps)+
  have m: "m p \<noteq> None" "m (p + 1) \<noteq> None" "m (p + 2) \<noteq> None" "m (p + 3) \<noteq> None"
    by (rule thereD [OF assms(1)]; simp)+
  have "fill p 4 v m = m(p \<mapsto> v, p + 1 \<mapsto> v, p + 2 \<mapsto> v, p + 3 \<mapsto> v)" for v
  proof (rule ext)
    fix x
    have "p \<le> x \<and> x < p + 4 \<longleftrightarrow> x = p \<or> x = p + 1 \<or> x = p + 2 \<or> x = p + 3"
      by arith
    then show "fill p 4 v m x = (m(p \<mapsto> v, p + 1 \<mapsto> v, p + 2 \<mapsto> v, p + 3 \<mapsto> v)) x"
      by (auto simp: fill_def)
  qed
  then show ?thesis
    using m by (simp add: store_long_def w wr_def)
qed

lemma set_longs_fill:
  assumes "there m p n" "\<And>q m. there m q 4 \<Longrightarrow> store_long q w m = Some (fill q 4 v m)"
  shows "\<exists>r k. set_longs n p w m = Some (r, p + k, fill p k v m) \<and> k + r = n"
  using assms(1)
proof (induction n arbitrary: p m rule: less_induct)
  case (less n)
  show ?case
  proof (cases "4 \<le> n")
    case False
    then show ?thesis
      by (subst set_longs.simps) simp
  next
    case True
    have 1: "store_long p w m = Some (fill p 4 v m)"
      by (intro assms(2) there_sub [OF less.prems]) (use True in simp_all)
    have "there (fill p 4 v m) (p + 4) (n - 4)"
      by (intro there_fill there_sub [OF less.prems]) (use True in simp_all)
    from less.IH [OF _ this] True obtain r k where
      2: "set_longs (n - 4) (p + 4) w (fill p 4 v m) = Some (r, p + 4 + k, fill (p + 4) k v (fill p 4 v m))" "k + r = n - 4"
      by auto
    have "set_longs n p w m = Some (r, p + (4 + k), fill p (4 + k) v m)"
      using True 1 2(1) by (subst set_longs.simps) (simp add: fill_fill add.assoc)
    then show ?thesis
      using 2(2) True by (intro exI [of _ r] exI [of _ "4 + k"]) simp
  qed
qed

lemma set_longs4_fill:
  assumes "there m p n" "\<And>q m. there m q 4 \<Longrightarrow> store_long q w m = Some (fill q 4 v m)"
  shows "\<exists>r k. set_longs4 n p w m = Some (r, p + k, fill p k v m) \<and> k + r = n"
  using assms(1)
proof (induction n arbitrary: p m rule: less_induct)
  case (less n)
  show ?case
  proof (cases "16 \<le> n")
    case False
    then show ?thesis
      by (subst set_longs4.simps) simp
  next
    case True
    have st: "store_long (p + j) w (fill p j v m) = Some (fill p (j + 4) v m)" if "j \<le> 12" for j
      using assms(2) [of "fill p j v m" "p + j"] there_sub [OF less.prems, of "p + j" 4] that True
      by (simp add: fill_fill)
    have "there (fill p 16 v m) (p + 16) (n - 16)"
      by (intro there_fill there_sub [OF less.prems]) (use True in simp_all)
    from less.IH [OF _ this] True obtain r k where
      2: "set_longs4 (n - 16) (p + 16) w (fill p 16 v m) = Some (r, p + 16 + k, fill (p + 16) k v (fill p 16 v m))"
      "k + r = n - 16"
      by auto
    have "set_longs4 n p w m = Some (r, p + (16 + k), fill p (16 + k) v m)"
      using True 2(1) st [of 0] st [of 4] st [of 8] st [of 12]
      by (subst set_longs4.simps) (simp add: fill_fill add.assoc)
    then show ?thesis
      using 2(2) True by (intro exI [of _ r] exI [of _ "16 + k"]) simp
  qed
qed

lemma memset_fill:
  assumes "there m s n"
  shows "rt_memset s c n m = Some (fill s n (ucast c) m)"
proof -
  have "c AND 0xff = take_bit 8 c"
    by (simp add: take_bit_eq_mask mask_eq_exp_minus_1)
  then have v: "ucast (c AND 0xff) = (ucast c :: 8 word)"
    by (simp only:) (rule bit_word_eqI, auto simp: bit_simps)
  show ?thesis
  proof (cases "\<not> n < 4 \<and> s mod 4 = 0")
    case False
    then show ?thesis
      using set_bytes_fill [OF assms, of "ucast c"] by (auto simp: rt_memset_def v Let_def)
  next
    case True
    let ?v = "ucast (c AND 0xff) :: 8 word"
    define b2 where "b2 = push_bit 8 (c AND 0xff) OR (c AND 0xff)"
    define w where "w = b2 OR push_bit 16 b2"
    have st: "store_long q w m = Some (fill q 4 ?v m)" if "there m q 4" for q m
      by (rule store_long_fill [OF that b2_def w_def])
    obtain r k where 1: "set_longs4 n s w m = Some (r, s + k, fill s k ?v m)" "k + r = n"
      using set_longs4_fill [OF assms st] by blast
    have t1: "there (fill s k ?v m) (s + k) r"
      by (intro there_fill there_sub [OF assms]) (use 1(2) in simp_all)
    obtain r' k' where 2: "set_longs r (s + k) w (fill s k ?v m) = Some (r', s + k + k', fill (s + k) k' ?v (fill s k ?v m))"
      "k' + r' = r"
      using set_longs_fill [OF t1 st] by blast
    have t2: "there (fill s (k + k') ?v m) (s + (k + k')) r'"
      by (intro there_fill there_sub [OF assms]) (use 1(2) 2(2) in simp_all)
    have "set_bytes r' (s + (k + k')) ?v (fill s (k + k') ?v m) = Some (fill s (k + k' + r') ?v m)"
      by (simp add: set_bytes_fill [OF t2] fill_fill)
    moreover have "k + k' + r' = n"
      using 1(2) 2(2) by simp
    ultimately show ?thesis
      unfolding rt_memset_def Let_def b2_def [symmetric] w_def [symmetric]
      using True 1(1) 2(1) by (simp add: fill_fill v add.assoc)
  qed
qed

text \<open>Filling memory, whole words at a time where it can, sets exactly the bytes of the block to the lowest byte of
  the value, and touches nothing else.\<close>

theorem memset_spec:
  assumes "there m s n"
  shows "rt_memset s c n m = Some (fill s n (ucast c) m)"
  by (rule memset_fill [OF assms])

theorem memset_spec_witness:
  "rt_memset 8 0x1ab 19 (\<lambda>x. if x < 30 then Some 0 else None) = Some (fill 8 19 0xab (\<lambda>x. if x < 30 then Some 0 else None))"
proof -
  have "there (\<lambda>x. if x < 30 then Some 0 else None) 8 19"
    by (simp add: there_def)
  moreover have "ucast (0x1ab :: 32 word) = (0xab :: 8 word)"
    by code_simp
  ultimately show ?thesis
    using memset_spec [of "\<lambda>x. if x < 30 then Some 0 else None" 8 19 "0x1ab"] by metis
qed

section \<open>Copying blocks\<close>

lemma copy_up_blit:
  "there m s n \<Longrightarrow> there m d n \<Longrightarrow> d \<le> s \<or> s + n \<le> d \<Longrightarrow> copy_up n d s m = Some (blit d s n m)"
proof (induction n arbitrary: d s m)
  case (Suc n)
  obtain b where b: "m s = Some b"
    using thereD [OF Suc.prems(1), of s] by auto
  have 1: "wr d b m = Some (m(d \<mapsto> b))"
    by (rule wr_there, rule thereD [OF Suc.prems(2)]) simp_all
  have 2: "copy_up n (d + 1) (s + 1) (m(d \<mapsto> b)) = Some (blit (d + 1) (s + 1) n (m(d \<mapsto> b)))"
    by (intro Suc.IH there_upd there_sub [OF Suc.prems(1)] there_sub [OF Suc.prems(2)]) (use Suc.prems(3) in auto)
  have 3: "blit (d + 1) (s + 1) n (m(d \<mapsto> b)) = blit d s (Suc n) m"
  proof (rule ext)
    fix x
    consider "x < d" | "x = d" | "d < x" "x < d + Suc n" | "d + Suc n \<le> x"
      by linarith
    then show "blit (d + 1) (s + 1) n (m(d \<mapsto> b)) x = blit d s (Suc n) m x"
    proof cases
      case 3
      then have "s + 1 + (x - (d + 1)) = s + (x - d)" "s + (x - d) \<noteq> d"
        using Suc.prems(3) by auto
      then show ?thesis
        using 3 by (simp add: blit_def)
    qed (use b in \<open>auto simp: blit_def\<close>)
  qed
  show ?case
    unfolding copy_up.simps b Option.bind.bind_lunit 1 2 3 by (rule refl)
qed simp

lemma copy_down_blit:
  "there m s n \<Longrightarrow> there m d n \<Longrightarrow> s \<le> d \<Longrightarrow> copy_down n (d + n) (s + n) m = Some (blit d s n m)"
proof (induction n arbitrary: m)
  case (Suc n)
  obtain b where b: "m (s + Suc n - 1) = Some b"
    using thereD [OF Suc.prems(1), of "s + n"] by auto
  have 1: "wr (d + Suc n - 1) b m = Some (m(d + n \<mapsto> b))"
    using wr_there [of m "d + n" b] thereD [OF Suc.prems(2), of "d + n"] by simp
  have 2: "copy_down n (d + n) (s + n) (m(d + n \<mapsto> b)) = Some (blit d s n (m(d + n \<mapsto> b)))"
    by (intro Suc.IH there_upd there_sub [OF Suc.prems(1)] there_sub [OF Suc.prems(2)] Suc.prems(3)) simp_all
  have 3: "blit d s n (m(d + n \<mapsto> b)) = blit d s (Suc n) m"
  proof (rule ext)
    fix x
    consider "x < d" | "d \<le> x" "x < d + n" | "x = d + n" | "d + n < x"
      by linarith
    then show "blit d s n (m(d + n \<mapsto> b)) x = blit d s (Suc n) m x"
    proof cases
      case 2
      then have "s + (x - d) \<noteq> d + n"
        using Suc.prems(3) by auto
      then show ?thesis
        using 2 by (simp add: blit_def)
    qed (use b in \<open>auto simp: blit_def\<close>)
  qed
  have e: "d + Suc n - 1 = d + n" "s + Suc n - 1 = s + n"
    by simp_all
  show ?case
    unfolding copy_down.simps b Option.bind.bind_lunit 1 unfolding e 2 3 by (rule refl)
qed simp

text \<open>Moving memory gives the target the old bytes of the source, however the two overlap.\<close>

theorem memmove_spec:
  assumes "there m s n" "there m d n"
  shows "rt_memmove d s n m = Some (blit d s n m)"
  using copy_up_blit [OF assms] copy_down_blit [OF assms] by (auto simp: rt_memmove_def)

theorem memmove_spec_witness:
  "\<exists>m. rt_memmove 2 0 8 (\<lambda>x. if x < 10 then Some (of_nat x) else None) = Some m \<and>
     m 1 = Some 1 \<and> m 2 = Some 0 \<and> m 9 = Some 7 \<and> m 10 = None"
  using memmove_spec [of "\<lambda>x. if x < 10 then Some (of_nat x) else None" 0 8 2] by (simp add: there_def blit_def)

lemma copy_long_blit:
  assumes "there m s 4" "there m d 4"
  shows "copy_long d s m = Some (blit d s 4 m)"
proof -
  have r: "m s \<noteq> None" "m (s + 1) \<noteq> None" "m (s + 2) \<noteq> None" "m (s + 3) \<noteq> None"
    by (rule thereD [OF assms(1)]; simp)+
  have w: "m d \<noteq> None" "m (d + 1) \<noteq> None" "m (d + 2) \<noteq> None" "m (d + 3) \<noteq> None"
    by (rule thereD [OF assms(2)]; simp)+
  have "blit d s 4 m = m(d := m s, d + 1 := m (s + 1), d + 2 := m (s + 2), d + 3 := m (s + 3))"
  proof (rule ext)
    fix x
    have "d \<le> x \<and> x < d + 4 \<longleftrightarrow> x = d \<or> x = d + 1 \<or> x = d + 2 \<or> x = d + 3"
      by arith
    then show "blit d s 4 m x = (m(d := m s, d + 1 := m (s + 1), d + 2 := m (s + 2), d + 3 := m (s + 3))) x"
      by (auto simp: blit_def)
  qed
  then show ?thesis
    using r w by (auto simp: copy_long_def wr_def)
qed

definition apart :: "nat \<Rightarrow> nat \<Rightarrow> nat \<Rightarrow> bool" where
  "apart d s n \<longleftrightarrow> d + n \<le> s \<or> s + n \<le> d"

text \<open>Copying on: a block copied so far, and one more word.\<close>

lemma copy_long_on:
  assumes "there m s n" "there m d n" "apart d s n" "j + 4 \<le> n"
  shows "copy_long (d + j) (s + j) (blit d s j m) = Some (blit d s (j + 4) m)"
proof -
  have "copy_long (d + j) (s + j) (blit d s j m) = Some (blit (d + j) (s + j) 4 (blit d s j m))"
    by (intro copy_long_blit there_blit there_sub [OF assms(1)] there_sub [OF assms(2)]) (use assms(4) in simp_all)
  also have "blit (d + j) (s + j) 4 (blit d s j m) = blit d s (j + 4) m"
    by (rule blit_blit) (use assms(3,4) in \<open>auto simp: apart_def\<close>)
  finally show ?thesis .
qed

lemma copy_longs_blit:
  assumes "there m s n" "there m d n" "apart d s n" "j \<le> n"
  shows "\<exists>k. copy_longs (n - j) (d + j) (s + j) (blit d s j m) = Some (n - k, d + k, s + k, blit d s k m) \<and> k \<le> n"
  using assms(4)
proof (induction "n - j" arbitrary: j rule: less_induct)
  case less
  show ?case
  proof (cases "4 \<le> n - j")
    case False
    then show ?thesis
      using less.prems by (subst copy_longs.simps) auto
  next
    case True
    then have "copy_longs (n - j) (d + j) (s + j) (blit d s j m) = copy_longs (n - (j + 4)) (d + (j + 4)) (s + (j + 4)) (blit d s (j + 4) m)"
      using copy_long_on [OF assms(1-3), of j] by (subst copy_longs.simps) (simp add: add.assoc)
    then show ?thesis
      using less.hyps [of "j + 4"] True by auto
  qed
qed

lemma copy_longs4_blit:
  assumes "there m s n" "there m d n" "apart d s n" "j \<le> n"
  shows "\<exists>k. copy_longs4 (n - j) (d + j) (s + j) (blit d s j m) = Some (n - k, d + k, s + k, blit d s k m) \<and> k \<le> n"
  using assms(4)
proof (induction "n - j" arbitrary: j rule: less_induct)
  case less
  show ?case
  proof (cases "16 \<le> n - j")
    case False
    then show ?thesis
      using less.prems by (subst copy_longs4.simps) auto
  next
    case True
    note on = copy_long_on [OF assms(1-3)]
    have "copy_longs4 (n - j) (d + j) (s + j) (blit d s j m) = copy_longs4 (n - (j + 16)) (d + (j + 16)) (s + (j + 16)) (blit d s (j + 16) m)"
      using True on [of j] on [of "j + 4"] on [of "j + 8"] on [of "j + 12"]
      by (subst copy_longs4.simps) (simp add: add.assoc)
    then show ?thesis
      using less.hyps [of "j + 16"] True by auto
  qed
qed

lemma memcpy_blit:
  assumes "there m s n" "there m d n" "apart d s n"
  shows "rt_memcpy d s n m = Some (blit d s n m)"
proof (cases "\<not> n < 16 \<and> s mod 4 = 0 \<and> d mod 4 = 0")
  case False
  then show ?thesis
    using copy_up_blit [OF assms(1,2)] assms(3) by (auto simp: rt_memcpy_def apart_def)
next
  case True
  obtain j where 1: "copy_longs4 n d s m = Some (n - j, d + j, s + j, blit d s j m)" "j \<le> n"
    using copy_longs4_blit [OF assms, of 0] by auto
  obtain k where 2: "copy_longs (n - j) (d + j) (s + j) (blit d s j m) = Some (n - k, d + k, s + k, blit d s k m)" "k \<le> n"
    using copy_longs_blit [OF assms 1(2)] by auto
  have "copy_up (n - k) (d + k) (s + k) (blit d s k m) = Some (blit (d + k) (s + k) (n - k) (blit d s k m))"
    by (intro copy_up_blit there_blit there_sub [OF assms(1)] there_sub [OF assms(2)]) (use assms(3) 2(2) in \<open>auto simp: apart_def\<close>)
  also have "blit (d + k) (s + k) (n - k) (blit d s k m) = blit d s n m"
    using blit_blit [of d k "n - k" s m] assms(3) 2(2) by (auto simp: apart_def)
  finally show ?thesis
    using True 1(1) 2(1) by (simp add: rt_memcpy_def)
qed

text \<open>The heap's model of copying is this function on its payload bytes.\<close>

lemma heap_memcpy:
  assumes "apart d s n"
  shows "rt_memcpy d s n (Some \<circ> bytes h) = Some (Some \<circ> bytes (memcpy d s n h))"
proof -
  have "rt_memcpy d s n (Some \<circ> bytes h) = Some (blit d s n (Some \<circ> bytes h))"
    by (rule memcpy_blit) (simp_all add: there_def assms)
  also have "blit d s n (Some \<circ> bytes h) = Some \<circ> bytes (memcpy d s n h)"
    by (auto simp: blit_def memcpy_def fun_eq_iff)
  finally show ?thesis .
qed

text \<open>C24. Copying memory between blocks that do not overlap, in words where both are aligned, gives the target the bytes of
  the source; on the bytes of the heap it is the copy of the heap's model.\<close>

theorem memcpy_spec:
  assumes "there m s n" "there m d n" "apart d s n"
  shows "rt_memcpy d s n m = Some (blit d s n m) \<and> rt_memcpy d s n (Some \<circ> bytes h) = Some (Some \<circ> bytes (memcpy d s n h))"
  using memcpy_blit [OF assms] heap_memcpy [OF assms(3)] by blast

theorem memcpy_spec_witness:
  "\<exists>m. rt_memcpy 40 0 33 (\<lambda>x. if x < 80 then Some (of_nat x) else None) = Some m \<and> m 72 = Some 32 \<and> m 73 = Some 73"
  using memcpy_spec [of "\<lambda>x. if x < 80 then Some (of_nat x) else None" 0 33 40] by (simp add: there_def blit_def apart_def)

section \<open>Strings\<close>

text \<open>\<open>cstr m p xs\<close>: the string at \<open>p\<close> is \<open>xs\<close>; \<open>nstr m p n xs\<close>: so are the first \<open>n\<close> bytes there, cut where the string ends.\<close>

fun cstr :: "bmem \<Rightarrow> nat \<Rightarrow> 8 word list \<Rightarrow> bool" where
  "cstr m p [] \<longleftrightarrow> m p = Some 0"
| "cstr m p (x # xs) \<longleftrightarrow> m p = Some x \<and> x \<noteq> 0 \<and> cstr m (p + 1) xs"

fun nstr :: "bmem \<Rightarrow> nat \<Rightarrow> nat \<Rightarrow> 8 word list \<Rightarrow> bool" where
  "nstr m p 0 xs \<longleftrightarrow> xs = []"
| "nstr m p (Suc n) [] \<longleftrightarrow> m p = Some 0"
| "nstr m p (Suc n) (x # xs) \<longleftrightarrow> m p = Some x \<and> x \<noteq> 0 \<and> nstr m (p + 1) n xs"

fun_cases nstr_SucE: "nstr m p (Suc n) xs"

lemma cstr_nstr: "cstr m p xs \<Longrightarrow> nstr m p n (take n xs)"
proof (induction n arbitrary: p xs)
  case (Suc n)
  then show ?case
    by (cases xs) auto
qed simp

lemma strlen_cstr: "cstr m sc xs \<Longrightarrow> s \<le> sc \<Longrightarrow> strlen_loop m s sc = Some (sc - s + length xs)"
proof (induction xs arbitrary: sc)
  case Nil
  then show ?case
    by (simp add: strlen_loop.simps)
next
  case (Cons x xs)
  then show ?case
    using Cons.IH [of "sc + 1"] by (subst strlen_loop.simps) simp
qed

lemma rt_strlen_cstr: "cstr m s xs \<Longrightarrow> rt_strlen s m = Some (length xs)"
  using strlen_cstr [of m s xs s] by (simp add: rt_strlen_def)

text \<open>The sign of a comparison.\<close>

definition compare_sign :: "'a :: linorder \<Rightarrow> 'a \<Rightarrow> int \<Rightarrow> bool" where
  "compare_sign x y r \<longleftrightarrow> (r < 0 \<longleftrightarrow> x < y) \<and> (r = 0 \<longleftrightarrow> x = y)"

lemma word_diff: "compare_sign x y (uint x - uint (y :: 8 word))"
  by (auto simp: compare_sign_def word_less_def word_uint_eq_iff)

lemma byte_pos: "x \<noteq> (0 :: 8 word) \<Longrightarrow> 0 < uint x"
  by (metis uint_0_iff uint_ge_0 order_le_less)

lemma strcmp_order: "cstr m p xs \<Longrightarrow> cstr m q ys \<Longrightarrow> \<exists>r. rt_strcmp p q m = Some r \<and> compare_sign xs ys r"
proof (induction xs arbitrary: p q ys)
  case Nil
  then show ?case
    by (cases ys) (auto simp: rt_strcmp.simps [of p] compare_sign_def byte_pos unsigned_eq_0_iff)
next
  case (Cons x xs)
  show ?case
  proof (cases ys)
    case Nil
    then show ?thesis
      using Cons.prems byte_pos [of x] by (auto simp: rt_strcmp.simps [of p] compare_sign_def)
  next
    case (Cons y ys')
    then show ?thesis
      using Cons.prems Cons.IH [of "p + 1" "q + 1" ys'] word_diff [of x y]
      by (cases "x = y") (auto simp: rt_strcmp.simps [of p] compare_sign_def)
  qed
qed

text \<open>Comparing two strings ends, and the sign of the result is their order in the dictionary.\<close>

theorem strcmp_spec:
  assumes "cstr m p xs" "cstr m q ys"
  shows "\<exists>r. rt_strcmp p q m = Some r \<and> (r < 0 \<longleftrightarrow> xs < ys) \<and> (r = 0 \<longleftrightarrow> xs = ys)"
  using strcmp_order [OF assms] by (auto simp: compare_sign_def)

text \<open>Memory with two strings.\<close>

definition two_strings :: bmem where
  "two_strings a = (if a < 12 then Some ([114, 116, 0, 114, 116, 116, 0, 1, 2, 3, 4, 5] ! a) else None)"

theorem strcmp_spec_witness:
  "\<exists>r. rt_strcmp 0 3 two_strings = Some r \<and> r < 0"
proof -
  have "cstr two_strings 0 [114, 116]" "cstr two_strings 3 [114, 116, 116]" "[114, 116 :: 8 word] < [114, 116, 116]"
    by (simp_all add: two_strings_def)
  then show ?thesis
    using strcmp_spec by blast
qed

lemma strncmp_equal:
  "nstr m p n xs \<Longrightarrow> nstr m q n ys \<Longrightarrow> \<exists>r. rt_strncmp p q n m = Some r \<and> (r = 0 \<longleftrightarrow> xs = ys)"
proof (induction n arbitrary: p q xs ys)
  case (Suc n)
  have s0: "sint c = 0 \<longleftrightarrow> c = 0" for c :: "8 word"
    by (metis signed_0 signed_word_eqI)
  then have z: "sint (a - b) = 0 \<longleftrightarrow> a = b" for a b :: "8 word"
    by simp
  show ?case
    using Suc.prems Suc.IH [of "p + 1" _ "q + 1"] z s0
    by (elim nstr_SucE) (auto simp: Let_def)
qed simp

lemma memcmp_equal:
  "there m p n \<Longrightarrow> there m q n \<Longrightarrow> \<exists>r. rt_memcmp p q n m = Some r \<and> (r = 0 \<longleftrightarrow> (\<forall>i<n. m (p + i) = m (q + i)))"
proof (induction n arbitrary: p q)
  case (Suc n)
  obtain a b where ab: "m p = Some a" "m q = Some b"
    using thereD [OF Suc.prems(1), of p] thereD [OF Suc.prems(2), of q] by auto
  obtain r where r: "rt_memcmp (p + 1) (q + 1) n m = Some r" "r = 0 \<longleftrightarrow> (\<forall>i<n. m (p + 1 + i) = m (q + 1 + i))"
    using Suc.IH [of "p + 1" "q + 1"] there_sub [OF Suc.prems(1), of "p + 1" n] there_sub [OF Suc.prems(2), of "q + 1" n] by auto
  have "(\<forall>i<Suc n. m (p + i) = m (q + i)) \<longleftrightarrow> a = b \<and> (\<forall>i<n. m (p + 1 + i) = m (q + 1 + i))"
    using ab by (auto simp: less_Suc_eq_0_disj)
  then show ?case
    using ab r word_uint_eq_iff [of a b] by auto
qed simp

text \<open>Copying a name into a field of \<open>n\<close> bytes.\<close>

lemma strncpy_fill:
  assumes "there m d n" "cstr m s xs" "apart d s (max n (length xs + 1))"
  shows "\<exists>m'. rt_strncpy d s n m = Some m' \<and>
    m' = (\<lambda>a. if d \<le> a \<and> a < d + n then Some (if a - d < length xs then xs ! (a - d) else 0) else m a)"
  using assms
proof (induction n arbitrary: d s xs m)
  case 0
  then show ?case
    by (auto simp: fun_eq_iff)
next
  case (Suc n)
  have w: "wr d v m = Some (m(d \<mapsto> v))" for v
    by (rule wr_there, rule thereD [OF Suc.prems(1)]) simp_all
  have t: "there (m(d \<mapsto> v)) (d + 1) n" for v
    by (intro there_upd there_sub [OF Suc.prems(1)]) simp_all
  show ?case
  proof (cases xs)
    case Nil
    then have c: "m s = Some 0"
      using Suc.prems(2) by simp
    have "rt_strncpy d s (Suc n) m = Some (fill (d + 1) n 0 (m(d \<mapsto> 0)))"
      unfolding rt_strncpy.simps c Option.bind.bind_lunit w using set_bytes_fill [OF t [of 0], of 0] by simp
    moreover have "fill (d + 1) n 0 (m(d \<mapsto> 0)) =
        (\<lambda>a. if d \<le> a \<and> a < d + Suc n then Some (if a - d < length xs then xs ! (a - d) else 0) else m a)"
      using Nil by (auto simp: fill_def fun_eq_iff)
    ultimately show ?thesis
      by blast
  next
    case (Cons x ys)
    then have c: "m s = Some x" "x \<noteq> 0" "cstr m (s + 1) ys"
      using Suc.prems(2) by simp_all
    have "cstr (m(d \<mapsto> x)) (s + 1) ys"
    proof -
      have "cstr m q zs \<Longrightarrow> d < q \<or> q + length zs < d \<Longrightarrow> cstr (m(d \<mapsto> x)) q zs" for q zs
        by (induction zs arbitrary: q) auto
      from this [OF c(3)] show ?thesis
        using Suc.prems(3) Cons by (auto simp: apart_def)
    qed
    moreover have "apart (d + 1) (s + 1) (max n (length ys + 1))"
      using Suc.prems(3) Cons by (auto simp: apart_def)
    ultimately obtain m' where m': "rt_strncpy (d + 1) (s + 1) n (m(d \<mapsto> x)) = Some m'"
      "m' = (\<lambda>a. if d + 1 \<le> a \<and> a < d + 1 + n then Some (if a - (d + 1) < length ys then ys ! (a - (d + 1)) else 0)
         else (m(d \<mapsto> x)) a)"
      using Suc.IH [OF t [of x], of "s + 1" ys] by blast
    have "rt_strncpy d s (Suc n) m = Some m'"
      unfolding rt_strncpy.simps c(1) Option.bind.bind_lunit w using c(2) m'(1) by simp
    moreover have "m' = (\<lambda>a. if d \<le> a \<and> a < d + Suc n then Some (if a - d < length xs then xs ! (a - d) else 0) else m a)"
      unfolding m'(2) Cons by (auto simp: fun_eq_iff nth_Cons' diff_Suc Suc_diff_Suc split: nat.splits)
    ultimately show ?thesis
      by blast
  qed
qed

lemma nstr_block:
  assumes "\<And>i. i < n \<Longrightarrow> m (d + i) = Some (if i < length xs then xs ! i else 0)" "0 \<notin> set xs"
  shows "nstr m d n (take n xs)"
  using assms
proof (induction n arbitrary: d xs)
  case (Suc n)
  show ?case
  proof (cases xs)
    case Nil
    then show ?thesis
      using Suc.prems(1) [of 0] by simp
  next
    case (Cons x ys)
    have "m (d + 1 + i) = Some (if i < length ys then ys ! i else 0)" if "i < n" for i
      using Suc.prems(1) [of "Suc i"] that Cons by simp
    then have "nstr m (d + 1) n (take n ys)"
      using Suc.IH [of "d + 1" ys] Suc.prems(2) Cons by simp
    then show ?thesis
      using Suc.prems(1) [of 0] Suc.prems(2) Cons by auto
  qed
qed simp

lemma cstr_no_zero: "cstr m p xs \<Longrightarrow> 0 \<notin> set xs"
  by (induction xs arbitrary: p) auto

lemma cstr_frame: "cstr m p xs \<Longrightarrow> (\<And>a. p \<le> a \<Longrightarrow> a \<le> p + length xs \<Longrightarrow> m' a = m a) \<Longrightarrow> cstr m' p xs"
  by (induction xs arbitrary: p) auto

text \<open>Names: a field of \<open>n\<close> bytes filled with a name is found, by comparing \<open>n\<close> bytes, under exactly the names that
  agree with it in the first \<open>n\<close> characters; nothing outside the field is written.\<close>

theorem name_field_spec:
  assumes "there m d n" "cstr m s xs" "apart d s (max n (length xs + 1))"
    and "cstr m q ys" "apart d q (max n (length ys + 1))"
  shows "\<exists>m'. rt_strncpy d s n m = Some m' \<and> (\<forall>a. \<not> (d \<le> a \<and> a < d + n) \<longrightarrow> m' a = m a) \<and>
    (\<exists>r. rt_strncmp d q n m' = Some r \<and> (r = 0 \<longleftrightarrow> take n xs = take n ys))"
proof -
  obtain m' where m': "rt_strncpy d s n m = Some m'"
    "m' = (\<lambda>a. if d \<le> a \<and> a < d + n then Some (if a - d < length xs then xs ! (a - d) else 0) else m a)"
    using strncpy_fill [OF assms(1-3)] by blast
  have "nstr m' d n (take n xs)"
    by (rule nstr_block [OF _ cstr_no_zero [OF assms(2)]]) (simp add: m'(2))
  moreover have "nstr m' q n (take n ys)"
    by (intro cstr_nstr cstr_frame [OF assms(4)]) (use assms(5) in \<open>auto simp: m'(2) apart_def\<close>)
  ultimately show ?thesis
    using m'(1) strncmp_equal [of m' d n "take n xs" q "take n ys"] by (auto simp: m'(2))
qed

text \<open>Two names of nine characters that differ in the last one.\<close>

definition two_names :: bmem where
  "two_names a = (if a < 28 then Some ([109, 101, 115, 103, 113, 117, 101, 50, 49, 0, 109, 101, 115, 103, 113, 117, 101, 50, 50, 0,
     0, 0, 0, 0, 0, 0, 0, 0] ! a) else None)"

theorem name_field_spec_witness:
  "\<exists>m'. rt_strncpy 20 0 8 two_names = Some m' \<and> rt_strncmp 20 10 8 m' = Some 0"
proof -
  have 1: "there two_names 20 8"
    by (auto simp: there_def two_names_def)
  have 2: "cstr two_names 0 [109, 101, 115, 103, 113, 117, 101, 50, 49]" "cstr two_names 10 [109, 101, 115, 103, 113, 117, 101, 50, 50]"
    by (simp_all add: two_names_def)
  have 3: "apart 20 0 (max 8 (length [109, 101, 115, 103, 113, 117, 101, 50, 49 :: 8 word] + 1))"
    "apart 20 10 (max 8 (length [109, 101, 115, 103, 113, 117, 101, 50, 50 :: 8 word] + 1))"
    by (simp_all add: apart_def)
  have 4: "take 8 [109, 101, 115, 103, 113, 117, 101, 50, 49] = take 8 [109, 101, 115, 103, 113, 117, 101, 50, 50 :: 8 word]"
    by simp
  show ?thesis
    using name_field_spec [OF 1 2(1) 3(1) 2(2) 3(2)] 4 by blast
qed

section \<open>Searching\<close>

lemma memcmp_prefix:
  assumes "cstr m p xs" "cstr m q ys" "length ys \<le> length xs"
  shows "\<exists>r. rt_memcmp p q (length ys) m = Some r \<and> (r = 0 \<longleftrightarrow> take (length ys) xs = ys)"
  using assms
proof (induction ys arbitrary: p q xs)
  case (Cons y ys)
  then obtain x zs where xs: "xs = x # zs"
    by (cases xs) auto
  then obtain r where "rt_memcmp (p + 1) (q + 1) (length ys) m = Some r" "r = 0 \<longleftrightarrow> take (length ys) zs = ys"
    using Cons.IH [of "p + 1" zs "q + 1"] Cons.prems by auto
  then show ?case
    using Cons.prems xs word_uint_eq_iff [of x y] by auto
qed simp

text \<open>The reference: the first place where the rest of the text starts with the pattern.\<close>

fun first_at :: "'a list \<Rightarrow> 'a list \<Rightarrow> nat option" where
  "first_at ys xs =
     (if length xs < length ys then None
      else if take (length ys) xs = ys then Some 0
      else case xs of [] \<Rightarrow> None | _ # zs \<Rightarrow> map_option Suc (first_at ys zs))"

declare first_at.simps [simp del]

lemma strstr_first:
  assumes "cstr m p xs" "cstr m q ys" "ys \<noteq> []"
  shows "strstr_loop (length xs) (length ys) p q m = Some (map_option ((+) p) (first_at ys xs))"
  using assms(1)
proof (induction xs arbitrary: p)
  case Nil
  then show ?case
    using assms(3) by (simp add: strstr_loop.simps first_at.simps)
next
  case (Cons x xs)
  show ?case
  proof (cases "length ys \<le> length (x # xs)")
    case False
    then show ?thesis
      by (simp add: strstr_loop.simps first_at.simps)
  next
    case True
    obtain r where r: "rt_memcmp p q (length ys) m = Some r" "r = 0 \<longleftrightarrow> take (length ys) (x # xs) = ys"
      using memcmp_prefix [OF Cons.prems assms(2) True] by blast
    have "strstr_loop (length xs) (length ys) (p + 1) q m = Some (map_option ((+) (p + 1)) (first_at ys xs))"
      by (rule Cons.IH) (use Cons.prems in simp)
    moreover have "map_option ((+) (p + 1)) w = map_option ((+) p) (map_option Suc w)" for w
      by (cases w) simp_all
    ultimately show ?thesis
      using r True assms(3) by (subst strstr_loop.simps, subst first_at.simps) auto
  qed
qed

lemma first_at_Some:
  "first_at ys xs = Some i \<longleftrightarrow> take (length ys) (drop i xs) = ys \<and> i \<le> length xs \<and> (\<forall>j<i. take (length ys) (drop j xs) \<noteq> ys)"
proof (induction xs arbitrary: i)
  case Nil
  then show ?case
    by (subst first_at.simps) auto
next
  case (Cons x xs)
  show ?case
  proof (cases i)
    case 0
    then show ?thesis
      by (subst first_at.simps) (auto split: option.splits)
  next
    case (Suc j)
    show ?thesis
      unfolding Suc using Cons.IH [of j]
      by (subst first_at.simps) (auto simp: All_less_Suc2)
  qed
qed

text \<open>Searching a pattern in a text ends and finds its first occurrence, if there is one.\<close>

theorem strstr_spec:
  assumes "cstr m p xs" "cstr m q ys"
  shows "\<exists>r. rt_strstr p q m = Some r \<and>
    (case r of None \<Rightarrow> \<not> (\<exists>us vs. xs = us @ ys @ vs)
     | Some a \<Rightarrow> \<exists>us vs. a = p + length us \<and> xs = us @ ys @ vs \<and> (\<forall>us' vs'. xs = us' @ ys @ vs' \<longrightarrow> length us \<le> length us'))"
proof -
  have r: "rt_strstr p q m = Some (map_option ((+) p) (first_at ys xs))"
  proof (cases "ys = []")
    case True
    then show ?thesis
      using rt_strlen_cstr [OF assms(2)] by (simp add: rt_strstr_def first_at.simps)
  next
    case False
    then show ?thesis
      using rt_strlen_cstr [OF assms(1)] rt_strlen_cstr [OF assms(2)] strstr_first [OF assms] by (simp add: rt_strstr_def)
  qed
  have at: "take (length ys) (drop (length us) xs) = ys" "length us \<le> length xs" if "xs = us @ ys @ vs" for us vs
    using that by simp_all
  show ?thesis
  proof (cases "first_at ys xs")
    case None
    have "\<not> (\<exists>us vs. xs = us @ ys @ vs)"
    proof
      assume "\<exists>us vs. xs = us @ ys @ vs"
      then obtain us vs where "xs = us @ ys @ vs"
        by blast
      then have ex: "\<exists>i. i \<le> length xs \<and> take (length ys) (drop i xs) = ys"
        using at by blast
      define i where "i = (LEAST i. i \<le> length xs \<and> take (length ys) (drop i xs) = ys)"
      have "i \<le> length xs \<and> take (length ys) (drop i xs) = ys"
        unfolding i_def using ex by (rule LeastI_ex)
      moreover have "take (length ys) (drop j xs) \<noteq> ys" if "j < i" for j
        using not_less_Least [of j "\<lambda>i. i \<le> length xs \<and> take (length ys) (drop i xs) = ys"] that calculation
        by (auto simp: i_def [symmetric])
      ultimately have "first_at ys xs = Some i"
        by (simp add: first_at_Some)
      then show False
        using None by simp
    qed
    then show ?thesis
      using r None by simp
  next
    case (Some i)
    then have i: "take (length ys) (drop i xs) = ys" "i \<le> length xs" "\<And>j. j < i \<Longrightarrow> take (length ys) (drop j xs) \<noteq> ys"
      by (auto simp: first_at_Some)
    have "xs = take i xs @ ys @ drop (length ys) (drop i xs)"
      by (metis append_take_drop_id i(1))
    moreover have "i \<le> length us'" if "xs = us' @ ys @ vs'" for us' vs'
      using at(1) [OF that] i(3) not_le by blast
    ultimately have "\<exists>us vs. p + i = p + length us \<and> xs = us @ ys @ vs \<and> (\<forall>us' vs'. xs = us' @ ys @ vs' \<longrightarrow> length us \<le> length us')"
      using i(2) by (intro exI [of _ "take i xs"] exI [of _ "drop (length ys) (drop i xs)"]) auto
    then show ?thesis
      using r Some by simp
  qed
qed

theorem strstr_spec_witness:
  "\<exists>a. rt_strstr 3 1 two_strings = Some (Some a)"
proof -
  have c: "cstr two_strings 3 [114, 116, 116]" "cstr two_strings 1 [116]"
    by (simp_all add: two_strings_def)
  have "\<exists>us vs. [114, 116, 116] = us @ [116 :: 8 word] @ vs"
    by (intro exI [of _ "[114]"] exI [of _ "[116]"]) simp
  moreover obtain r where "rt_strstr 3 1 two_strings = Some r" "r = None \<longrightarrow> \<not> (\<exists>us vs. [114, 116, 116] = us @ [116 :: 8 word] @ vs)"
    using strstr_spec [OF c] by (auto split: option.splits)
  ultimately show ?thesis
    by (cases r) auto
qed

section \<open>Lengths with a limit\<close>

text \<open>The comment of \<^verbatim>\<open>rt_strnlen\<close> promises never to look beyond the first \<open>maxlen\<close> characters, but the loop reads the
  byte before it compares the count.\<close>

lemma strnlen_loop_nstr:
  "nstr m (s + k) n xs \<Longrightarrow> length xs = n \<Longrightarrow>
    strnlen_loop m s (k + n) (s + k) = (if m (s + k + n) = None then None else Some (k + n))"
proof (induction n arbitrary: k xs)
  case 0
  then show ?case
    by (auto simp: strnlen_loop.simps [of m s k "s + k"])
next
  case (Suc n)
  then obtain x ys where xs: "xs = x # ys" "m (s + k) = Some x" "x \<noteq> 0" "nstr m (s + (k + 1)) n ys"
    by (cases xs) auto
  have "strnlen_loop m s (k + 1 + n) (s + (k + 1)) = (if m (s + (k + 1) + n) = None then None else Some (k + 1 + n))"
    by (rule Suc.IH [OF xs(4)]) (use Suc.prems xs(1) in auto)
  then show ?case
    using xs(2,3) by (subst strnlen_loop.simps) simp
qed

text \<open>On a buffer of \<open>n\<close> characters without an end the length with limit \<open>n\<close> reads one byte behind the buffer: it is
  the length if that byte is there, and an access outside if not.\<close>

theorem strnlen_overread:
  assumes "nstr m s n xs" "length xs = n"
  shows "rt_strnlen s n m = (if m (s + n) = None then None else Some n)"
  using strnlen_loop_nstr [of m s 0 n xs] assms by (simp add: rt_strnlen_def)

theorem strnlen_overread_witness:
  "rt_strnlen 7 5 two_strings = None"
proof -
  have 1: "nstr two_strings 7 5 [1, 2, 3, 4, 5]"
    by code_simp
  have 2: "length [1, 2, 3, 4, 5 :: 8 word] = 5" "two_strings (7 + 5) = None"
    by (simp_all add: two_strings_def)
  show ?thesis
    using strnlen_overread [OF 1 2(1)] 2(2) by (simp only: simp_thms if_True)
qed

section \<open>Comparing without case\<close>

lemma lower_zero [simp]: "lower c = 0 \<longleftrightarrow> c = 0" "lower 0 = 0"
  by (auto simp: lower_def unsigned_eq_0_iff)

text \<open>Comparing without case is comparing the lowered characters.\<close>

lemma strcasecmp_order:
  "cstr m p xs \<Longrightarrow> cstr m q ys \<Longrightarrow> \<exists>r. rt_strcasecmp p q m = Some r \<and> compare_sign (map lower xs) (map lower ys) r"
proof (induction xs arbitrary: p q ys)
  case Nil
  have "0 < lower y" if "y \<noteq> 0" for y
    using byte_pos [OF that] by (auto simp: lower_def)
  then show ?case
    using Nil by (cases ys) (auto simp: rt_strcasecmp.simps [of p] compare_sign_def)
next
  case (Cons x xs)
  have z: "0 < lower y" if "y \<noteq> 0" for y
    using byte_pos [OF that] by (auto simp: lower_def)
  show ?case
  proof (cases ys)
    case Nil
    then show ?thesis
      using Cons.prems z [of x] by (auto simp: rt_strcasecmp.simps [of p] compare_sign_def)
  next
    case (Cons y ys')
    then show ?thesis
      using Cons.prems Cons.IH [of "p + 1" "q + 1" ys']
      by (cases "lower x = lower y") (auto simp: rt_strcasecmp.simps [of p] compare_sign_def)
  qed
qed

section \<open>Copies on the heap\<close>

definition rt_strdup :: "addr \<Rightarrow> addr list \<Rightarrow> nat \<Rightarrow> mem \<Rightarrow> (addr \<times> mem) option" where
  "rt_strdup sys hs s m =
     do {
       n \<leftarrow> rt_strlen s (Some \<circ> bytes m);
       (p, m1) \<leftarrow> rt_malloc sys hs (n + 1) m;
       if p = 0 then Some (0, m1) else Some (p, memcpy p s (n + 1) m1)
     }"

text \<open>The pointer in front of an aligned block, and reading it back.\<close>

definition put_pointer :: "addr \<Rightarrow> addr \<Rightarrow> mem \<Rightarrow> mem" where
  "put_pointer a p m =
     m\<lparr>bytes := (bytes m)(a := of_nat p, a + 1 := of_nat (p div 256), a + 2 := of_nat (p div 65536), a + 3 := of_nat (p div 16777216))\<rparr>"

definition get_pointer :: "addr \<Rightarrow> mem \<Rightarrow> addr" where
  "get_pointer a m =
     unat (bytes m a) + 256 * unat (bytes m (a + 1)) + 65536 * unat (bytes m (a + 2)) + 16777216 * unat (bytes m (a + 3))"

definition rt_malloc_align :: "addr \<Rightarrow> addr list \<Rightarrow> 32 word \<Rightarrow> 32 word \<Rightarrow> mem \<Rightarrow> (addr \<times> mem) option" where
  "rt_malloc_align sys hs size0 align0 m =
     (let align = (align0 + 3) AND NOT 3; align_size = ((size0 + 3) AND NOT 3) + align
      in do {
        (p, m1) \<leftarrow> rt_malloc sys hs (unat align_size) m;
        if p \<noteq> 0 then
          (let ptr = of_nat p :: 32 word;
               align_ptr = (if ptr AND (align - 1) = 0 then ptr + align else (ptr + (align - 1)) AND NOT (align - 1))
           in Some (unat align_ptr, put_pointer (unat (align_ptr - 4)) p m1))
        else Some (0, m1)
      })"

definition rt_free_align :: "addr \<Rightarrow> mem \<Rightarrow> mem option" where
  "rt_free_align p m = rt_free (get_pointer (unat (of_nat p - 4 :: 32 word)) m) m"

lemma get_put_pointer: "p < 2 ^ 32 \<Longrightarrow> get_pointer a (put_pointer a p m) = p"
proof -
  assume p: "p < 2 ^ 32"
  have d: "p div 16777216 < 256"
    using p by (simp add: div_less_iff_less_mult)
  have "256 * (p div 256) + p mod 256 = p" "256 * (p div 256 div 256) + p div 256 mod 256 = p div 256"
    "256 * (p div 65536 div 256) + p div 65536 mod 256 = p div 65536"
    by (rule mult_div_mod_eq)+
  moreover have "p div 256 div 256 = p div 65536" "p div 65536 div 256 = p div 16777216"
    by (simp_all add: div_mult2_eq [symmetric])
  ultimately have "p mod 256 + 256 * (p div 256 mod 256) + 65536 * (p div 65536 mod 256) + 16777216 * (p div 16777216) = p"
    by linarith
  then show ?thesis
    using d by (simp add: get_pointer_def put_pointer_def unat_of_nat)
qed

text \<open>Rounding up to the next multiple of a power of two, always by at least one word.\<close>

definition align_up :: "nat \<Rightarrow> nat \<Rightarrow> nat" where
  "align_up a p = (if p mod a = 0 then p + a else (p + (a - 1)) div a * a)"

lemma align_up_facts:
  assumes "0 < a" "4 dvd a" "4 dvd p"
  shows "a dvd align_up a p" "p + 4 \<le> align_up a p" "align_up a p \<le> p + a"
proof -
  obtain q r where qr: "p = a * q + r" "r < a" "r = p mod a"
    using assms(1) by (metis mult.commute div_mult_mod_eq mod_less_divisor)
  have r4: "4 dvd r"
    using assms(2,3) qr(3) by (simp add: dvd_mod)
  show "a dvd align_up a p"
  proof (cases "p mod a = 0")
    case True
    then show ?thesis
      by (simp add: align_up_def dvd_eq_mod_eq_0)
  next
    case False
    then show ?thesis
      by (simp add: align_up_def)
  qed
  have "align_up a p = a * q + a"
  proof (cases "r = 0")
    case True
    then have "p mod a = 0" "p = a * q"
      using qr(1) qr(3) [symmetric] by simp_all
    then show ?thesis
      unfolding align_up_def by (simp only: if_True simp_thms)
  next
    case False
    have "p + (a - 1) = a * (q + 1) + (r - 1)"
      using qr(1) False assms(1) by (simp add: algebra_simps)
    moreover have "(a * (q + 1) + (r - 1)) div a = q + 1"
      by (subst div_mult_self4) (use qr(2) assms(1) False in auto)
    ultimately have "(p + (a - 1)) div a * a = a * q + a"
      by simp
    moreover have "p mod a \<noteq> 0"
      using False qr(3) [symmetric] by simp
    ultimately show ?thesis
      unfolding align_up_def by (simp only: if_False simp_thms)
  qed
  moreover have "r + 4 \<le> a"
  proof -
    obtain i j where ij: "r = 4 * i" "a = 4 * j"
      using r4 assms(2) by (elim dvdE)
    then have "i < j"
      using qr(2) by simp
    then show ?thesis
      unfolding ij by linarith
  qed
  ultimately show "p + 4 \<le> align_up a p" "align_up a p \<le> p + a"
    using qr(1) by auto
qed

lemma mask_down: "w AND NOT (mask k) = of_nat (unat w div 2 ^ k * 2 ^ k)" for w :: "32 word"
proof -
  have "w AND NOT (mask k) = push_bit k (drop_bit k w)"
    by (rule bit_word_eqI) (auto simp: bit_simps)
  also have "drop_bit k w = of_nat (unat w div 2 ^ k)"
    by (metis of_nat_unat ucast_id unat_drop_bit_eq drop_bit_eq_div)
  finally show ?thesis
    by (simp add: push_bit_eq_mult)
qed

lemma word_align_up:
  assumes "k < 32" "p + 2 ^ k < 2 ^ 32"
  shows "(if (of_nat p :: 32 word) AND (2 ^ k - 1) = 0 then of_nat p + 2 ^ k
    else (of_nat p + (2 ^ k - 1)) AND NOT (2 ^ k - 1)) = (of_nat (align_up (2 ^ k) p) :: 32 word)"
proof -
  have p: "unat (of_nat p :: 32 word) = p"
    using assms(2) by (simp add: unat_of_nat)
  have m: "(2 :: 32 word) ^ k - 1 = mask k"
    by (simp add: mask_eq_exp_minus_1)
  have "unat ((of_nat p :: 32 word) AND mask k) = p mod 2 ^ k"
    using p by (metis take_bit_eq_mask take_bit_eq_mod unsigned_take_bit_eq)
  then have z: "(of_nat p :: 32 word) AND mask k = 0 \<longleftrightarrow> p mod 2 ^ k = 0"
    by (metis unat_eq_zero)
  have "(of_nat (2 ^ k - 1) :: 32 word) = 2 ^ k - 1"
    using of_nat_diff [of 1 "2 ^ k", where 'a = "32 word"] by simp
  then have "of_nat p + (2 ^ k - 1) = (of_nat (p + (2 ^ k - 1)) :: 32 word)"
    by (simp only: of_nat_add)
  moreover have "unat (of_nat (p + (2 ^ k - 1)) :: 32 word) = p + (2 ^ k - 1)"
    using assms(2) by (simp add: unat_of_nat)
  ultimately have "(of_nat p + mask k) AND NOT (mask k) = (of_nat ((p + (2 ^ k - 1)) div 2 ^ k * 2 ^ k) :: 32 word)"
    by (metis m mask_down)
  then show ?thesis
    unfolding m z by (simp add: align_up_def)
qed

text \<open>C17. Aligned allocation, for a power of two of at least four and sizes that leave room in the address space: it ends with
  a correct heap; if it succeeds, the result is aligned, the asked size lies inside one new block in use, and giving the
  result back releases exactly that block.\<close>

theorem malloc_align_spec:
  assumes "sys_ok hs m" "sys \<in> set hs" "2 \<le> k" "k < 31" "unat n < 2 ^ 30"
  shows "\<exists>q m'. rt_malloc_align sys hs n (2 ^ k) m = Some (q, m') \<and> sys_ok hs m' \<and>
    (if q = 0 then live_sys hs m' = live_sys hs m
     else 2 ^ k dvd q \<and>
       (\<exists>p j. live_sys hs m p = None \<and> live_sys hs m' = (live_sys hs m)(p \<mapsto> j) \<and> p + 4 \<le> q \<and> q + unat n \<le> p + j) \<and>
       (\<exists>m2. rt_free_align q m' = Some m2 \<and> sys_ok hs m2 \<and> live_sys hs m2 = live_sys hs m))"
proof -
  let ?a = "2 ^ k :: nat"
  have k: "4 dvd ?a" "?a \<le> 2 ^ 30" "0 < ?a"
    using assms(3,4) le_imp_power_dvd [of 2 k "2 :: nat"] power_increasing [of k 30 "2 :: nat"] by auto
  have ua: "unat (2 ^ k :: 32 word) = ?a"
    using unat_of_nat [of ?a, where 'a = 32] k(2) by simp
  have round: "unat ((w + 3) AND NOT 3) = (unat w + 3) div 4 * 4" if "unat w \<le> 2 ^ 30" for w :: "32 word"
    unfolding and_not_3 using that by (simp add: unat_word_ariths)
  have al: "((2 :: 32 word) ^ k + 3) AND NOT 3 = 2 ^ k"
  proof -
    have "(?a + 3) div 4 * 4 = ?a"
      using k(1) by (elim dvdE) simp
    then show ?thesis
      using round [of "2 ^ k"] ua k(2) by (metis word_unat_eq_iff)
  qed
  define S where "S = (unat n + 3) div 4 * 4 + ?a"
  have S: "unat (((n + 3) AND NOT 3) + 2 ^ k) = S" "unat n + ?a \<le> S" "S \<le> 2 ^ 31 + 3"
    using round [of n] ua k(2) assms(5) by (simp_all add: S_def unat_word_ariths)
  obtain p m1 where m1: "rt_malloc sys hs S m = Some (p, m1)" "alloc_result hs S m p m1"
    using malloc_result [OF assms(1,2), of S] by metis
  have e: "rt_malloc_align sys hs n (2 ^ k) m =
      (if p \<noteq> 0 then
         (let a = (if (of_nat p :: 32 word) AND (2 ^ k - 1) = 0 then of_nat p + 2 ^ k
            else (of_nat p + (2 ^ k - 1)) AND NOT (2 ^ k - 1)) :: 32 word
          in Some (unat a, put_pointer (unat (a - 4)) p m1))
       else Some (0, m1))"
    by (simp only: rt_malloc_align_def Let_def al S(1) m1(1) Option.bind.bind_lunit prod.case)
  show ?thesis
  proof (cases "p = 0")
    case True
    then show ?thesis
      using m1(2) e by (simp add: alloc_result_def)
  next
    case False
    then obtain j where j: "sys_ok hs m1" "live_sys hs m p = None" "request_size S \<le> j" "live_sys hs m1 = (live_sys hs m)(p \<mapsto> j)"
      using m1(2) by (auto simp: alloc_result_def)
    have "S \<le> j"
      using request_size_facts(4) [of S] S(3) j(3) by simp
    moreover obtain h where h: "h \<in> set hs" "live m1 h p = Some j"
      using live_sys_iff [OF j(1), of p j] j(4) by auto
    note pl = live_place [OF sys_okD(2) [OF j(1) h(1)] h(2)]
    define q where "q = align_up ?a p"
    have q: "?a dvd q" "p + 4 \<le> q" "q \<le> p + ?a"
      using align_up_facts [OF k(3,1) pl(3)] by (simp_all add: q_def)
    have room: "q + unat n \<le> p + j" "p + ?a < 2 ^ 32" "p < 2 ^ 32"
      using q(3) S(2) \<open>S \<le> j\<close> pl(6) by simp_all
    have ap: "(if (of_nat p :: 32 word) AND (2 ^ k - 1) = 0 then of_nat p + 2 ^ k
        else (of_nat p + (2 ^ k - 1)) AND NOT (2 ^ k - 1)) = (of_nat q :: 32 word)"
      unfolding q_def using assms(4) room(2) by (intro word_align_up) simp_all
    have uq: "unat (of_nat q :: 32 word) = q" "unat (of_nat q - 4 :: 32 word) = q - 4"
    proof -
      show u: "unat (of_nat q :: 32 word) = q"
        using q(3) room(2) by (simp add: unat_of_nat)
      have "(4 :: 32 word) \<le> of_nat q"
        using u q(2) by (simp add: word_le_nat_alt)
      then show "unat (of_nat q - 4 :: 32 word) = q - 4"
        using u by (simp add: unat_sub)
    qed
    define m' where "m' = put_pointer (q - 4) p m1"
    have m': "sys_ok hs m'" "live_sys hs m' = live_sys hs m1"
      using j(1) live_sys_bytes [OF j(1)] by (simp_all add: m'_def put_pointer_def)
    have "rt_malloc_align sys hs n (2 ^ k) m = Some (q, m')"
      unfolding e ap using False by (simp add: uq m'_def)
    moreover have "rt_free_align q m' = rt_free p m'"
      by (simp add: rt_free_align_def uq m'_def get_put_pointer [OF room(3)])
    moreover obtain m2 where "rt_free p m' = Some m2" "sys_ok hs m2" "live_sys hs m2 = (live_sys hs m')(p := None)"
      by (rule free_result [OF m'(1)]) (use m'(2) j(4) in auto)
    moreover have "(live_sys hs m')(p := None) = live_sys hs m"
      using m'(2) j(2,4) by (auto simp: fun_eq_iff)
    ultimately show ?thesis
      using m' j(2,4) q room(1) by auto
  qed
qed

theorem malloc_align_spec_witness:
  "\<exists>q m'. rt_malloc_align 16 [16] 100 64 demo_heap = Some (q, m') \<and> (q \<noteq> 0 \<longrightarrow> 64 dvd q)"
  using malloc_align_spec [OF demo_ok(3), of 16 6 100] by (auto split: if_splits)

lemma cstr_shift: "cstr m s xs \<Longrightarrow> (\<And>i. i \<le> length xs \<Longrightarrow> m' (d + i) = m (s + i)) \<Longrightarrow> cstr m' d xs"
proof (induction xs arbitrary: s d)
  case Nil
  then show ?case
    using Nil.prems(2) [of 0] by simp
next
  case (Cons x xs)
  have "cstr m' (d + 1) xs"
  proof (rule Cons.IH [of "s + 1"])
    show "m' (d + 1 + i) = m (s + 1 + i)" if "i \<le> length xs" for i
      using Cons.prems(2) [of "Suc i"] that by simp
  qed (use Cons.prems(1) in simp)
  then show ?case
    using Cons.prems(1) Cons.prems(2) [of 0] by simp
qed

text \<open>Duplicating a string ends with a correct heap; if there was room, the result is a new block that holds the string.\<close>

theorem strdup_spec:
  assumes "sys_ok hs m" "sys \<in> set hs" "cstr (Some \<circ> bytes m) s xs" "length xs < 2 ^ 31"
  shows "\<exists>p m'. rt_strdup sys hs s m = Some (p, m') \<and> sys_ok hs m' \<and>
    (if p = 0 then live_sys hs m' = live_sys hs m
     else cstr (Some \<circ> bytes m') p xs \<and> live_sys hs m p = None \<and> (\<exists>k>length xs. live_sys hs m' = (live_sys hs m)(p \<mapsto> k)))"
proof -
  let ?n = "length xs + 1"
  obtain p m1 where m1: "rt_malloc sys hs ?n m = Some (p, m1)" "alloc_result hs ?n m p m1" "bytes m1 = bytes m"
    using malloc_result [OF assms(1,2), of ?n] by metis
  have l: "rt_strlen s (Some \<circ> bytes m) = Some (length xs)"
    by (rule rt_strlen_cstr [OF assms(3)])
  show ?thesis
  proof (cases "p = 0")
    case True
    then show ?thesis
      using m1 l by (simp add: rt_strdup_def alloc_result_def)
  next
    case False
    then obtain k where k: "sys_ok hs m1" "live_sys hs m p = None" "request_size ?n \<le> k" "live_sys hs m1 = (live_sys hs m)(p \<mapsto> k)"
      using m1(2) by (auto simp: alloc_result_def)
    have kn: "length xs < k"
      using request_size_facts(4) [of ?n] assms(4) k(3) by simp
    define m' where "m' = memcpy p s ?n m1"
    have m': "sys_ok hs m'" "live_sys hs m' = live_sys hs m1"
      using k(1) live_sys_bytes [OF k(1)] by (simp_all add: m'_def memcpy_def)
    have "cstr (Some \<circ> bytes m') p xs"
      by (rule cstr_shift [OF assms(3)]) (simp add: m'_def memcpy_def m1(3))
    moreover have "rt_strdup sys hs s m = Some (p, m')"
      using m1(1) l False by (simp add: rt_strdup_def m'_def)
    ultimately show ?thesis
      using m' k(2,4) kn False by auto
  qed
qed

theorem strdup_spec_witness:
  "\<exists>p m'. rt_strdup 16 [16] 5000 (demo_heap\<lparr>bytes := (\<lambda>a. if a = 5000 then 65 else 0)\<rparr>) = Some (p, m') \<and>
     (p \<noteq> 0 \<longrightarrow> cstr (Some \<circ> bytes m') p [65])"
proof -
  let ?m = "demo_heap\<lparr>bytes := (\<lambda>a. if a = 5000 then 65 else 0)\<rparr>"
  have "sys_ok [16] ?m"
    using demo_ok(3) by simp
  moreover have "cstr (Some \<circ> bytes ?m) 5000 [65]"
    by simp
  ultimately obtain p m' where "rt_strdup 16 [16] 5000 ?m = Some (p, m')" "p \<noteq> 0 \<longrightarrow> cstr (Some \<circ> bytes m') p [65]"
    using strdup_spec [of "[16]" ?m 16 5000 "[65]"] by (auto simp del: cstr.simps split: if_splits)
  then show ?thesis
    by blast
qed

end
