(* ===== verification/Printf.thy ===== *)
theory Printf
  imports Prelude
begin

text \<open>
  Formatted output, \<^verbatim>\<open>src/kservice.c\<close> lines 545 to 1092 and the console output of lines 1156 to 1217, as compiled here:
  with a precision, without \<^verbatim>\<open>long long\<close> and without the prefix \<^verbatim>\<open>0x\<close>. A format is the list of its bytes, the
  arguments are a list of tagged values; the format and the strings lie outside the buffer. An argument of the wrong kind or
  one too few is \<open>None\<close>, as is a field width or precision that does not fit \<^verbatim>\<open>int\<close>. The negation of the smallest
  \<^verbatim>\<open>long\<close> in \<^verbatim>\<open>print_number\<close> wraps, as it does on the processor. The output position \<^verbatim>\<open>str\<close> and the end of the buffer
  are 32-bit addresses; the position goes on counting behind the end, and wraps.
\<close>

section \<open>The buffer\<close>

type_synonym char8 = "8 word"
type_synonym mem32 = "32 word \<Rightarrow> char8"
type_synonym out = "32 word \<times> mem32"

text \<open>\<^verbatim>\<open>if (str < end) *str = c; ++str;\<close> with \<open>lim\<close> the address \<^verbatim>\<open>end\<close>.\<close>

definition putc :: "32 word \<Rightarrow> char8 \<Rightarrow> out \<Rightarrow> out" where
  "putc lim c st = (fst st + 1, if fst st < lim then (snd st)(fst st := c) else snd st)"

definition puts :: "32 word \<Rightarrow> char8 list \<Rightarrow> out \<Rightarrow> out" where
  "puts lim cs st = fold (putc lim) cs st"

text \<open>The loops \<^verbatim>\<open>while (size-- > 0)\<close>, \<^verbatim>\<open>while (--field_width > 0)\<close> and \<^verbatim>\<open>while (len < field_width--)\<close>, with the
  value of the counter behind them.\<close>

function pad :: "32 word \<Rightarrow> char8 \<Rightarrow> int \<Rightarrow> out \<Rightarrow> int \<times> out" where
  "pad lim c n st = (if n > 0 then pad lim c (n - 1) (putc lim c st) else (n - 1, st))"
  by pat_completeness auto
termination
  by (relation "measure (\<lambda>(lim, c, n, st). nat n)") auto

function pad_pre :: "32 word \<Rightarrow> char8 \<Rightarrow> int \<Rightarrow> out \<Rightarrow> int \<times> out" where
  "pad_pre lim c n st = (if n - 1 > 0 then pad_pre lim c (n - 1) (putc lim c st) else (n - 1, st))"
  by pat_completeness auto
termination
  by (relation "measure (\<lambda>(lim, c, n, st). nat n)") auto

function pad_to :: "32 word \<Rightarrow> char8 \<Rightarrow> int \<Rightarrow> int \<Rightarrow> out \<Rightarrow> int \<times> out" where
  "pad_to lim c len n st = (if len < n then pad_to lim c len (n - 1) (putc lim c st) else (n - 1, st))"
  by pat_completeness auto
termination
  by (relation "measure (\<lambda>(lim, c, len, n, st). nat (n - len))") auto

declare pad.simps [simp del] pad_pre.simps [simp del] pad_to.simps [simp del]

section \<open>Numbers\<close>

record fmt_flags =
  ZEROPAD :: bool
  SIGN :: bool
  PLUS :: bool
  SPACE :: bool
  LEFT :: bool
  SPECIAL :: bool
  LARGE :: bool

definition no_flags :: fmt_flags where
  "no_flags = \<lparr>ZEROPAD = False, SIGN = False, PLUS = False, SPACE = False, LEFT = False, SPECIAL = False, LARGE = False\<rparr>"

text \<open>The remainder and the quotient; every base but ten is sixteen.\<close>

definition divide :: "32 word \<Rightarrow> nat \<Rightarrow> nat \<times> 32 word" where
  "divide n base = (if base = 10 then (unat (n mod 10), n div 10) else (unat (n mod 16), n div 16))"

definition digit_char :: "bool \<Rightarrow> nat \<Rightarrow> char8" where
  "digit_char large d = of_nat (if d < 10 then 48 + d else if large then 55 + d else 87 + d)"

text \<open>The digits in \<^verbatim>\<open>tmp\<close>, the last one first.\<close>

function digits_loop :: "bool \<Rightarrow> nat \<Rightarrow> 32 word \<Rightarrow> char8 list" where
  "digits_loop large base num =
     (if num \<noteq> 0 then digit_char large (fst (divide num base)) # digits_loop large base (snd (divide num base)) else [])"
  by pat_completeness auto
termination
proof (relation "measure (\<lambda>(large, base, num). unat num)")
  show "((large, base, snd (divide num base)), (large, base, num)) \<in> measure (\<lambda>(large, base, num). unat num)"
    if "num \<noteq> 0" for large base and num :: "32 word"
    using that by (simp add: divide_def unat_div unat_gt_0)
qed simp

declare digits_loop.simps [simp del]

definition number_digits :: "bool \<Rightarrow> nat \<Rightarrow> 32 word \<Rightarrow> char8 list" where
  "number_digits large base num = (if num = 0 then [48] else digits_loop large base num)"

definition number_sign :: "fmt_flags \<Rightarrow> 32 word \<Rightarrow> char8 option \<times> 32 word" where
  "number_sign fl num =
     (if SIGN fl then
        if sint num < 0 then (Some 45, - num)
        else if PLUS fl then (Some 43, num)
        else if SPACE fl then (Some 32, num)
        else (None, num)
      else (None, num))"

definition print_number :: "32 word \<Rightarrow> 32 word \<Rightarrow> nat \<Rightarrow> int \<Rightarrow> int \<Rightarrow> fmt_flags \<Rightarrow> out \<Rightarrow> out" where
  "print_number lim num0 base s precision0 fl0 st0 =
     (let fl = (if LEFT fl0 then fl0\<lparr>ZEROPAD := False\<rparr> else fl0);
          c = (if ZEROPAD fl then 48 else 32);
          (sign, num) = number_sign fl num0;
          tmp = number_digits (LARGE fl) base num;
          i = int (length tmp);
          precision = (if i > precision0 then i else precision0);
          size = s - precision;
          (size, st) =
            (if \<not> (ZEROPAD fl \<or> LEFT fl) then pad lim 32 (if sign \<noteq> None \<and> size > 0 then size - 1 else size) st0
             else (size, st0));
          (size, st) = (case sign of Some x \<Rightarrow> (size - 1, putc lim x st) | None \<Rightarrow> (size, st));
          (size, st) = (if \<not> LEFT fl then pad lim c size st else (size, st));
          st = snd (pad_to lim 48 i precision st);
          st = (if precision0 \<noteq> 0 then puts lim (rev tmp) st else st)
      in snd (pad lim 32 size st))"

section \<open>Formats\<close>

datatype fmt_arg = AInt "32 word" | APtr "32 word" | AStr "char8 list option"

definition is_digit :: "char8 \<Rightarrow> bool" where
  "is_digit c \<longleftrightarrow> 48 \<le> uint c \<and> uint c < 58"

fun skip_atoi :: "char8 list \<Rightarrow> int \<Rightarrow> (int \<times> char8 list) option" where
  "skip_atoi [] i = Some (i, [])"
| "skip_atoi (c # s) i =
     (if is_digit c then if i * 10 + uint c < 2147483648 then skip_atoi s (i * 10 + uint c - 48) else None
      else Some (i, c # s))"

fun parse_flags :: "char8 list \<Rightarrow> fmt_flags \<Rightarrow> fmt_flags \<times> char8 list" where
  "parse_flags [] fl = (fl, [])"
| "parse_flags (c # s) fl =
     (if c = 45 then parse_flags s (fl\<lparr>LEFT := True\<rparr>)
      else if c = 43 then parse_flags s (fl\<lparr>PLUS := True\<rparr>)
      else if c = 32 then parse_flags s (fl\<lparr>SPACE := True\<rparr>)
      else if c = 35 then parse_flags s (fl\<lparr>SPECIAL := True\<rparr>)
      else if c = 48 then parse_flags s (fl\<lparr>ZEROPAD := True\<rparr>)
      else (fl, c # s))"

definition parse_width :: "char8 list \<Rightarrow> fmt_flags \<Rightarrow> fmt_arg list \<Rightarrow> (int \<times> fmt_flags \<times> char8 list \<times> fmt_arg list) option" where
  "parse_width s fl args =
     (case s of
        c # s' \<Rightarrow>
          if is_digit c then do { (w, r) \<leftarrow> skip_atoi s 0; Some (w, fl, r, args) }
          else if c = 42 then
            (case args of
               AInt v # as \<Rightarrow>
                 if sint v < 0 then if v = 0x80000000 then None else Some (- sint v, fl\<lparr>LEFT := True\<rparr>, s', as)
                 else Some (sint v, fl, s', as)
             | _ \<Rightarrow> None)
          else Some (- 1, fl, s, args)
      | [] \<Rightarrow> Some (- 1, fl, s, args))"

definition parse_precision :: "char8 list \<Rightarrow> fmt_arg list \<Rightarrow> (int \<times> char8 list \<times> fmt_arg list) option" where
  "parse_precision s args =
     (case s of
        c # s' \<Rightarrow>
          if c = 46 then
            do {
              (p, r, as) \<leftarrow>
                (case s' of
                   d # s'' \<Rightarrow>
                     if is_digit d then do { (p, r) \<leftarrow> skip_atoi s' 0; Some (p, r, args) }
                     else if d = 42 then (case args of AInt v # as \<Rightarrow> Some (sint v, s'', as) | _ \<Rightarrow> None)
                     else Some (- 1, s', args)
                 | [] \<Rightarrow> Some (- 1, s', args));
              Some (if p < 0 then 0 else p, r, as)
            }
          else Some (- 1, s, args)
      | [] \<Rightarrow> Some (- 1, s, args))"

definition parse_qualifier :: "char8 list \<Rightarrow> char8 option \<times> char8 list" where
  "parse_qualifier s = (case s of c # s' \<Rightarrow> if c = 104 \<or> c = 108 then (Some c, s') else (None, s) | [] \<Rightarrow> (None, s))"

text \<open>The value of an integer argument.\<close>

definition int_arg :: "char8 option \<Rightarrow> fmt_flags \<Rightarrow> 32 word \<Rightarrow> 32 word" where
  "int_arg qual fl v =
     (if qual = Some 104 then if SIGN fl then scast (ucast v :: 16 word) else ucast (ucast v :: 16 word) else v)"

text \<open>One conversion, from its letter on; the arguments left are returned.\<close>

definition convert ::
  "32 word \<Rightarrow> char8 \<Rightarrow> fmt_flags \<Rightarrow> int \<Rightarrow> int \<Rightarrow> char8 option \<Rightarrow> fmt_arg list \<Rightarrow> out \<Rightarrow> (fmt_arg list \<times> out) option" where
  "convert lim k fl w p qual args st =
     (if k = 99 then
        (case args of
           AInt v # as \<Rightarrow>
             (let (w1, st1) = (if \<not> LEFT fl then pad_pre lim 32 w st else (w, st))
              in Some (as, snd (pad_pre lim 32 w1 (putc lim (ucast v) st1))))
         | _ \<Rightarrow> None)
      else if k = 115 then
        (case args of
           AStr x # as \<Rightarrow>
             (let s = (case x of None \<Rightarrow> [40, 78, 85, 76, 76, 41] | Some s \<Rightarrow> s);
                  len = (if p > 0 \<and> int (length s) > p then p else int (length s));
                  (w1, st1) = (if \<not> LEFT fl then pad_to lim 32 len w st else (w, st))
              in Some (as, snd (pad_to lim 32 len w1 (puts lim (take (nat len) s) st1))))
         | _ \<Rightarrow> None)
      else if k = 112 then
        (case args of
           APtr v # as \<Rightarrow>
             Some (as, print_number lim v 16 (if w = - 1 then 8 else w) p (if w = - 1 then fl\<lparr>ZEROPAD := True\<rparr> else fl) st)
         | _ \<Rightarrow> None)
      else if k = 37 then Some (args, putc lim 37 st)
      else if k \<in> {111, 88, 120, 100, 105, 117} then
        (case args of
           AInt v # as \<Rightarrow>
             (let base = (if k = 111 then 8 else if k = 88 \<or> k = 120 then 16 else 10);
                  fl = (if k = 88 then fl\<lparr>LARGE := True\<rparr> else if k = 100 \<or> k = 105 then fl\<lparr>SIGN := True\<rparr> else fl)
              in Some (as, print_number lim (int_arg qual fl v) base w p fl st))
         | _ \<Rightarrow> None)
      else Some (args, putc lim k (putc lim 37 st)))"

text \<open>What follows a per cent sign: the parts of the conversion and the rest of the format from its letter on.\<close>

definition parse_spec ::
  "char8 list \<Rightarrow> fmt_arg list \<Rightarrow> (fmt_flags \<times> int \<times> int \<times> char8 option \<times> char8 list \<times> fmt_arg list) option" where
  "parse_spec s args =
     (let (fl, s1) = parse_flags s no_flags
      in do {
        (w, fl, s2, as) \<leftarrow> parse_width s1 fl args;
        (p, s3, as) \<leftarrow> parse_precision s2 as;
        let (qual, s4) = parse_qualifier s3;
        Some (fl, w, p, qual, s4, as)
      })"

lemma skip_atoi_shorter: "skip_atoi s i = Some (j, r) \<Longrightarrow> length r \<le> length s"
  by (induction s i rule: skip_atoi.induct) (auto split: if_splits)

lemma parse_flags_shorter: "length (snd (parse_flags s fl)) \<le> length s"
  by (induction s fl rule: parse_flags.induct) auto

lemma parse_width_shorter: "parse_width s fl args = Some (w, fl', r, as) \<Longrightarrow> length r \<le> length s"
  by (cases s; cases args; cases "hd args")
    (auto simp: parse_width_def Let_def split: if_splits Option.bind_split_asm dest!: skip_atoi_shorter)

lemma parse_precision_shorter:
  assumes "parse_precision s args = Some (p, r, as)"
  shows "length r \<le> length s"
proof (cases s)
  case (Cons c s')
  show ?thesis
  proof (cases s')
    case (Cons d s'')
    then show ?thesis
      using assms \<open>s = c # s'\<close> by (cases args; cases "hd args")
        (auto simp: parse_precision_def split: if_splits Option.bind_split_asm dest!: skip_atoi_shorter)
  qed (use assms \<open>s = c # s'\<close> in \<open>auto simp: parse_precision_def split: if_splits\<close>)
qed (use assms in \<open>simp add: parse_precision_def\<close>)

lemma parse_qualifier_shorter: "length (snd (parse_qualifier s)) \<le> length s"
  by (cases s) (auto simp: parse_qualifier_def)

lemma parse_spec_shorter:
  assumes "parse_spec s args = Some (fl, w, p, q, r, as)"
  shows "length r \<le> length s"
proof -
  obtain fl1 s1 where 1: "parse_flags s no_flags = (fl1, s1)"
    by fastforce
  obtain w2 fl2 s2 as2 where 2: "parse_width s1 fl1 args = Some (w2, fl2, s2, as2)"
    using assms 1 by (auto simp: parse_spec_def bind_eq_Some_conv)
  obtain p3 s3 as3 where 3: "parse_precision s2 as2 = Some (p3, s3, as3)"
    using assms 1 2 by (auto simp: parse_spec_def bind_eq_Some_conv)
  have "r = snd (parse_qualifier s3)"
    using assms 1 2 3 by (auto simp: parse_spec_def split: prod.splits)
  then show ?thesis
    using parse_flags_shorter [of s no_flags] parse_width_shorter [OF 2] parse_precision_shorter [OF 3]
      parse_qualifier_shorter [of s3] 1 by simp
qed

function format_loop :: "32 word \<Rightarrow> char8 list \<Rightarrow> fmt_arg list \<Rightarrow> out \<Rightarrow> out option" where
  "format_loop lim [] args st = Some st"
| "format_loop lim (c # s) args st =
     (if c \<noteq> 37 then format_loop lim s args (putc lim c st)
      else
        (case parse_spec s args of
           None \<Rightarrow> None
         | Some (fl, w, p, qual, [], as) \<Rightarrow> Some (putc lim 37 st)
         | Some (fl, w, p, qual, k # r, as) \<Rightarrow>
             (case convert lim k fl w p qual as st of
                None \<Rightarrow> None
              | Some (as', st') \<Rightarrow> format_loop lim r as' st')))"
  by pat_completeness auto
termination
  by (relation "measure (\<lambda>(lim, s, args, st). length s)") (auto dest: parse_spec_shorter)

text \<open>The result is the difference of the two pointers as a signed 32-bit number.\<close>

definition rt_vsnprintf :: "32 word \<Rightarrow> mem32 \<Rightarrow> 32 word \<Rightarrow> char8 list \<Rightarrow> fmt_arg list \<Rightarrow> (int \<times> mem32) option" where
  "rt_vsnprintf buf m0 size0 fmt args =
     (let (lim, sz) = (if buf + size0 < buf then (- 1, - 1 - buf) else (buf + size0, size0))
      in do {
        (str, m) \<leftarrow> format_loop lim fmt args (buf, m0);
        Some (sint (str - buf), if sz > 0 then if str < lim then m(str := 0) else m(lim - 1 := 0) else m)
      })"

definition rt_snprintf :: "32 word \<Rightarrow> mem32 \<Rightarrow> 32 word \<Rightarrow> char8 list \<Rightarrow> fmt_arg list \<Rightarrow> (int \<times> mem32) option" where
  "rt_snprintf buf m sz fmt args = rt_vsnprintf buf m sz fmt args"

definition rt_vsprintf :: "32 word \<Rightarrow> mem32 \<Rightarrow> char8 list \<Rightarrow> fmt_arg list \<Rightarrow> (int \<times> mem32) option" where
  "rt_vsprintf buf m fmt args = rt_vsnprintf buf m (- 1) fmt args"

definition RT_CONSOLEBUF_SIZE :: nat where
  "RT_CONSOLEBUF_SIZE = 128"

text \<open>The bytes a device gets as the console, and the memory afterwards. The length is unsigned, so that a negative
  result counts as too long.\<close>

definition rt_kprintf :: "32 word \<Rightarrow> mem32 \<Rightarrow> char8 list \<Rightarrow> fmt_arg list \<Rightarrow> (char8 list \<times> mem32) option" where
  "rt_kprintf rt_log_buf m0 fmt args =
     do {
       (n, m) \<leftarrow> rt_vsnprintf rt_log_buf m0 (of_nat (RT_CONSOLEBUF_SIZE - 1)) fmt args;
       let n = unat (word_of_int n :: 32 word);
       let n = (if n > RT_CONSOLEBUF_SIZE - 1 then RT_CONSOLEBUF_SIZE - 1 else n);
       Some (map (\<lambda>i. m (rt_log_buf + of_nat i)) [0..<n], m)
     }"

section \<open>Writing is appending\<close>

text \<open>Every piece of output is a list of characters that does not depend on the buffer.\<close>

lemma puts_simps [simp]: "puts lim [] st = st" "puts lim (c # cs) st = puts lim cs (putc lim c st)"
  "puts lim (cs @ ds) st = puts lim ds (puts lim cs st)"
  by (simp_all add: puts_def)

lemma pad_puts: "pad lim c n st = (if n > 0 then - 1 else n - 1, puts lim (replicate (nat n) c) st)"
proof (induction lim c n st rule: pad.induct)
  case (1 lim c n st)
  show ?case
  proof (cases "n > 0")
    case True
    then have "nat n = Suc (nat (n - 1))"
      by simp
    then show ?thesis
      using True 1 [OF True] by (subst pad.simps) auto
  qed (simp add: pad.simps)
qed


lemma pad_to_puts:
  "pad_to lim c len n st = (if len < n then len - 1 else n - 1, puts lim (replicate (nat (n - len)) c) st)"
proof (induction lim c len n st rule: pad_to.induct)
  case (1 lim c len n st)
  show ?case
  proof (cases "len < n")
    case True
    then have "nat (n - len) = Suc (nat (n - 1 - len))"
      by simp
    then show ?thesis
      using True 1 by (subst pad_to.simps) auto
  qed (simp add: pad_to.simps)
qed

text \<open>The text of a number: sign and digits, with the zeros of the precision, filled up to the width.\<close>

definition number_text :: "32 word \<Rightarrow> nat \<Rightarrow> int \<Rightarrow> int \<Rightarrow> fmt_flags \<Rightarrow> char8 list" where
  "number_text num0 base s precision fl =
     (let (sign, num) = number_sign fl num0;
          sg = (case sign of Some x \<Rightarrow> [x] | None \<Rightarrow> []);
          ds = rev (number_digits (LARGE fl) base num);
          body = replicate (nat (precision - int (length ds))) 48 @ (if precision = 0 then [] else ds);
          room = nat (s - max (int (length ds)) precision - int (length sg))
      in if LEFT fl then sg @ body @ replicate room 32
         else if ZEROPAD fl then sg @ replicate room 48 @ body
         else replicate room 32 @ sg @ body)"

lemma sign_flags [simp]: "number_sign (fl\<lparr>ZEROPAD := z\<rparr>) n = number_sign fl n"
  by (simp add: number_sign_def)

lemma print_number_text: "print_number lim num base s p fl st = puts lim (number_text num base s p fl) st"
proof -
  obtain sign num' where sg: "number_sign fl num = (sign, num')"
    by fastforce
  define tmp where "tmp = number_digits (LARGE fl) base num'"
  define M where "M = max (int (length tmp)) p"
  have mx: "(if int (length tmp) > p then int (length tmp) else p) = M"
    by (simp add: M_def)
  have z: "nat (M - int (length tmp)) = nat (p - int (length tmp))"
    by (simp add: M_def)
  consider "LEFT fl" | "\<not> LEFT fl" "ZEROPAD fl" | "\<not> LEFT fl" "\<not> ZEROPAD fl"
    by blast
  then show ?thesis
  proof cases
    case 1
    then show ?thesis
      by (cases sign) (simp_all add: print_number_def number_text_def sg tmp_def [symmetric] M_def [symmetric] mx z pad_puts pad_to_puts)
  next
    case 2
    have "nat (if s - M > 0 then - 1 else s - M - 1) = 0" "nat (if s - M - 1 > 0 then - 1 else s - M - 1 - 1) = 0"
      by simp_all
    then show ?thesis
      using 2 by (cases sign) (simp_all add: print_number_def number_text_def sg tmp_def [symmetric] M_def [symmetric] mx z pad_puts pad_to_puts)
  next
    case 3
    show ?thesis
    proof (cases "s - M > 0")
      case True
      then show ?thesis
        using 3 by (cases sign) (simp_all add: print_number_def number_text_def sg tmp_def [symmetric] M_def [symmetric] mx z pad_puts pad_to_puts)
    next
      case False
      then show ?thesis
        using 3 by (cases sign) (simp_all add: print_number_def number_text_def sg tmp_def [symmetric] M_def [symmetric] mx z pad_puts pad_to_puts)
    qed
  qed
qed



declare puts_simps(2,3) [simp del]



lemma unat_minus_one_cases: "unat (x - 1) = (if x = 0 then 4294967295 else unat x - 1)" for x :: "32 word"
  by (cases "x = 0") (simp_all add: unat_minus_one unsigned_minus_1_eq_mask mask_eq_exp_minus_1)

text \<open>Up to \<open>2\<^sup>3\<^sup>2\<close> characters meet every address at most once, wrapping included.\<close>

lemma puts_result:
  "length t \<le> 4294967296 \<Longrightarrow> puts lim t (str, m) =
     (str + of_nat (length t), \<lambda>a. if unat (a - str) < length t \<and> a < lim then t ! unat (a - str) else m a)"
proof (induction t arbitrary: str m)
  case Nil
  then show ?case
    by (auto simp: fun_eq_iff)
next
  case (Cons c t)
  have d: "a - (str + 1) = a - str - 1" for a
    by simp
  have e: "unat (a - (str + 1)) = (if a = str then 4294967295 else unat (a - str) - 1)" for a
    unfolding d unat_minus_one_cases by simp
  have z: "unat (a - str) = 0 \<longleftrightarrow> a = str" for a
    by (simp add: unat_eq_0)
  have "(if unat (a - (str + 1)) < length t \<and> a < lim then t ! unat (a - (str + 1))
        else (if str < lim then m(str := c) else m) a) =
      (if unat (a - str) < length (c # t) \<and> a < lim then (c # t) ! unat (a - str) else m a)" (is "?l a = ?r a") for a
  proof (cases "a = str")
    case True
    then show ?thesis
      unfolding e using Cons.prems by simp
  next
    case False
    then obtain n where n: "unat (a - str) = Suc n"
      using z [of a] by (cases "unat (a - str)") simp_all
    have "unat (a - (str + 1)) = n"
      using e [of a] n False by simp
    then show ?thesis
      using n False by simp
  qed
  then have pw: "?l = ?r"
    by (rule ext)
  have "puts lim t (str + 1, if str < lim then m(str := c) else m) = (str + 1 + of_nat (length t), ?l)"
    by (rule Cons.IH) (use Cons.prems in simp)
  then show ?case
    unfolding puts_simps(2) putc_def fst_conv snd_conv pw by (simp only: length_Cons of_nat_Suc add.assoc)
qed

lemma puts_length: "fst (puts lim t (str, m)) = str + of_nat (length t)"
  by (induction t arbitrary: str m) (simp_all add: puts_simps putc_def add.assoc)

section \<open>Properties\<close>

text \<open>The end of the buffer: \<open>lim_of\<close> bytes behind its beginning, which never passes the end of the address space.\<close>

definition lim_of :: "32 word \<Rightarrow> 32 word \<Rightarrow> nat" where
  "lim_of buf sz = (if unat buf + unat sz < 4294967296 then unat sz else 4294967295 - unat buf)"

definition int32 :: "nat \<Rightarrow> int" where
  "int32 n = (if n < 2147483648 then int n else int n - 4294967296)"

lemma sint_uint32: "sint w = (if uint w < 2147483648 then uint w else uint w - 4294967296)" for w :: "32 word"
proof -
  have u: "0 \<le> uint w" "uint w < 4294967296"
    using uint_bounded [of w] by simp_all
  have b: "bit (uint w) 31 \<longleftrightarrow> \<not> uint w < 2147483648"
  proof (cases "uint w < 2147483648")
    case True
    then show ?thesis
      using u by (simp add: bit_iff_odd div_pos_pos_trivial)
  next
    case False
    then have "uint w div 2147483648 = 1"
      using u by (intro int_div_pos_eq [of _ _ _ "uint w - 2147483648"]) simp_all
    then show ?thesis
      using False by (simp add: bit_iff_odd)
  qed
  have "sint w = take_bit 32 (uint w) - 2 ^ 32 * of_bool (bit (uint w) 31)"
    using signed_take_bit_eq_take_bit_minus [of 31 "uint w"] by (simp add: sint_uint)
  also have "take_bit 32 (uint w) = uint w"
    using u by (simp add: take_bit_eq_mod mod_pos_pos_trivial)
  finally show ?thesis
    using b by simp
qed

lemma sint_of_nat32: "n < 4294967296 \<Longrightarrow> sint (of_nat n :: 32 word) = int32 n"
  by (simp add: sint_uint32 int32_def uint_nat unat_of_nat)

lemma vsnprintf_lim:
  "(if buf + sz < buf then (- 1, - 1 - buf) else (buf + sz, sz)) = (buf + of_nat (lim_of buf sz), of_nat (lim_of buf sz))"
  for buf sz :: "32 word"
proof (cases "unat buf + unat sz < 4294967296")
  case True
  then have "unat (buf + sz) = unat buf + unat sz"
    by (simp add: unat_word_ariths)
  then show ?thesis
    using True by (simp add: lim_of_def word_less_nat_alt)
next
  case False
  have b: "unat buf < 4294967296" "unat sz < 4294967296"
    using unsigned_less [of buf, where 'a = nat] unsigned_less [of sz, where 'a = nat] by simp_all
  have "unat (buf + sz) = unat buf + unat sz - 4294967296"
    using False b by (simp add: unat_word_ariths mod_if)
  then have "buf + sz < buf"
    using False b by (simp add: word_less_nat_alt)
  moreover have "(of_nat (4294967295 - unat buf) :: 32 word) = - 1 - buf"
    using b by (simp add: of_nat_diff)
  ultimately show ?thesis
    using False by (simp add: lim_of_def)
qed

lemma lim_of_fits: "unat buf + lim_of buf sz < 4294967296"
  using unsigned_less [of buf, where 'a = nat] by (simp add: lim_of_def)

lemma vsnprintf_text:
  assumes f: "\<forall>lim st. format_loop lim fmt args st = Some (puts lim t st)" and fits: "unat buf + length t < 4294967296"
  shows "rt_vsnprintf buf m sz fmt args = Some (int32 (length t),
    \<lambda>a. let i = unat (a - buf) in
      if i < min (length t) (lim_of buf sz - 1) then t ! i
      else if i = min (length t) (lim_of buf sz - 1) \<and> 0 < lim_of buf sz then 0 else m a)"
proof -
  define L where "L = lim_of buf sz"
  have L: "unat buf + L < 4294967296"
    using lim_of_fits by (simp add: L_def)
  have n: "length t < 4294967296"
    using fits by simp
  let ?lim = "buf + of_nat L"
  have w: "unat (buf + of_nat k) = unat buf + k" if "unat buf + k < 4294967296" for k
    using that by (simp add: unat_word_ariths unat_of_nat mod_simps)
  have o: "a = buf + of_nat (unat (a - buf))" for a
    by simp
  have lt: "a < ?lim \<longleftrightarrow> unat (a - buf) < L" if "unat buf + unat (a - buf) < 4294967296" for a
    using w [OF that] w [OF L] o [of a] by (simp add: word_less_nat_alt)
  have eq: "a = buf + of_nat k \<longleftrightarrow> unat (a - buf) = k" if "unat buf + k < 4294967296" for a k
    using that by (auto simp: unat_of_nat)
  have pos: "(0 :: 32 word) < of_nat L \<longleftrightarrow> 0 < L"
    using L by (simp add: word_less_nat_alt unat_of_nat)
  have r: "rt_vsnprintf buf m sz fmt args = Some (int32 (length t),
    (let m1 = (\<lambda>a. if unat (a - buf) < length t \<and> a < ?lim then t ! unat (a - buf) else m a)
     in if 0 < L then if buf + of_nat (length t) < ?lim then m1(buf + of_nat (length t) := 0) else m1(?lim - 1 := 0) else m1))"
    unfolding rt_vsnprintf_def vsnprintf_lim using n pos
    by (simp add: f puts_result sint_of_nat32 L_def [symmetric])
  have cmp: "buf + of_nat (length t) < ?lim \<longleftrightarrow> length t < L"
    using w [OF fits] w [OF L] by (simp add: word_less_nat_alt)
  have last: "0 < L \<Longrightarrow> ?lim - 1 = buf + of_nat (L - 1)"
    by (simp add: of_nat_diff)
  have inb: "unat (a - buf) < length t \<and> a < ?lim \<longleftrightarrow> unat (a - buf) < length t \<and> unat (a - buf) < L" for a
    using lt [of a] fits by auto
  have upd: "g(buf + of_nat k := 0) = (\<lambda>a. if unat (a - buf) = k then 0 else g a)"
    if "unat buf + k < 4294967296" for k and g :: mem32
    using eq [OF that] by (auto simp: fun_eq_iff)
  consider "L = 0" | "length t < L" | "0 < L" "L \<le> length t"
    by linarith
  then show ?thesis
  proof cases
    case 1
    show ?thesis
      unfolding r L_def [symmetric] inb Let_def using 1 by simp
  next
    case 2
    then show ?thesis
      unfolding r L_def [symmetric] inb cmp upd [OF fits] Let_def
      by (auto simp: fun_eq_iff min_def)
  next
    case 3
    then have "unat buf + (L - 1) < 4294967296"
      using L by simp
    note u = upd [OF this]
    show ?thesis
      unfolding r L_def [symmetric] inb cmp last [OF 3(1)] u Let_def
      using 3 by (auto simp: fun_eq_iff min_def)
  qed
qed




text \<open>The position wraps: a text that runs past the end of the address space goes on being written from address 0, which
  is below the end of the buffer again. The sizes of the buffer do not matter. A text of \<open>2\<^sup>3\<^sup>1\<close> characters or more also
  makes the result negative.\<close>

theorem position_wraps:
  assumes "\<forall>lim st. format_loop lim fmt args st = Some (puts lim t st)"
    and "length t < 4294967296" "4294967296 < unat buf + length t" "0 < lim_of buf sz"
  shows "\<exists>m'. rt_vsnprintf buf m sz fmt args = Some (int32 (length t), m') \<and>
    0 < buf \<and> m' 0 = t ! (4294967296 - unat buf)"
proof -
  define L where "L = lim_of buf sz"
  have b: "0 < unat buf" "unat buf < 4294967296" "unat buf + L < 4294967296" "0 < L"
    using assms(2-4) unsigned_less [of buf, where 'a = nat] lim_of_fits [of buf sz] by (simp_all add: L_def)
  let ?lim = "buf + of_nat L"
  have lim: "unat ?lim = unat buf + L"
    using b by (simp add: unat_word_ariths unat_of_nat mod_simps)
  have str: "unat (buf + of_nat (length t)) = unat buf + length t - 4294967296"
    using assms(2,3) b by (simp add: unat_word_ariths unat_of_nat mod_if)
  have z: "buf + of_nat (length t) \<noteq> 0" "?lim - 1 \<noteq> 0" "(0 :: 32 word) < ?lim" "buf \<noteq> 0"
  proof -
    have "0 < unat buf + length t - 4294967296"
      using assms(3) by simp
    then show "buf + of_nat (length t) \<noteq> 0"
      using str by (metis unat_0 less_irrefl)
    have "unat (?lim - 1) = unat buf + L - 1"
      using lim b unat_minus_one_cases [of ?lim] by (auto simp: unat_eq_0)
    moreover have "0 < unat buf + L - 1"
      using b by simp
    ultimately show "?lim - 1 \<noteq> 0"
      by (metis unat_0 less_irrefl)
    show "(0 :: 32 word) < ?lim"
      using lim b by (simp add: word_less_nat_alt)
    show "buf \<noteq> 0"
      using b by auto
  qed
  have neg: "unat (- buf) = 4294967296 - unat buf"
  proof -
    have "- buf = of_nat (4294967296 - unat buf)"
      using b by (simp add: of_nat_diff)
    then show ?thesis
      using b by (simp only: unat_of_nat) simp
  qed
  have n: "length t < 4294967296"
    by (rule assms(2))
  define m1 where "m1 = (\<lambda>a. if unat (a - buf) < length t \<and> a < ?lim then t ! unat (a - buf) else m a)"
  have "4294967296 - unat buf < length t"
    using b assms(3) by linarith
  then have "m1 0 = t ! (4294967296 - unat buf)"
    unfolding m1_def diff_0 neg using z(3) by simp
  moreover have "(if P then if Q then g(p := 0) else g(q := 0) else g) 0 = g 0" if "p \<noteq> 0" "q \<noteq> 0"
    for P Q p q and g :: mem32
    using that by simp
  moreover have "rt_vsnprintf buf m sz fmt args = Some (int32 (length t),
    if (0 :: 32 word) < of_nat L then if buf + of_nat (length t) < ?lim then m1(buf + of_nat (length t) := 0) else m1(?lim - 1 := 0) else m1)"
    unfolding rt_vsnprintf_def vsnprintf_lim using n
    by (simp add: assms(1) puts_result sint_of_nat32 L_def [symmetric] m1_def)
  moreover have "0 < buf"
    using z(4) by (simp add: word_neq_0_conv)
  ultimately show ?thesis
    using z(1,2) by (intro exI conjI) (assumption, assumption, metis)
qed


lemma wide_format:
  "format_loop lim [37, 50, 49, 52, 55, 52, 56, 51, 53, 48, 48, 100, 37, 50, 49, 52, 55, 52, 56, 51, 53, 48, 48, 100]
     [AInt 1, AInt 2] st =
   Some (puts lim ((replicate 2147483499 32 @ [49]) @ (replicate 2147483499 32 @ [50])) st)"
proof -
  have n: "number_text v 10 2147483500 (- 1) (no_flags\<lparr>SIGN := True\<rparr>) = replicate 2147483499 32 @ [48 + ucast v]"
    if "v = 1 \<or> v = 2" for v :: "32 word"
    using that by (elim disjE) (simp_all add: number_text_def number_sign_def no_flags_def Let_def number_digits_def
        digits_loop.simps [of False 10 1] digits_loop.simps [of False 10 2] digits_loop.simps [of False 10 0]
        divide_def digit_char_def)
  have one: "format_loop lim (37 # 50 # 49 # 52 # 55 # 52 # 56 # 51 # 53 # 48 # 48 # 100 # r) (AInt v # as) st =
      format_loop lim r as (puts lim (replicate 2147483499 32 @ [48 + ucast v]) st)"
    if "v = 1 \<or> v = 2" for r v as st
    using n [OF that]
    by (simp add: parse_spec_def parse_width_def parse_precision_def parse_qualifier_def is_digit_def convert_def
        int_arg_def print_number_text Let_def no_flags_def del: puts_simps)
  show ?thesis
    unfolding puts_simps(3) [of _ "replicate 2147483499 32 @ [49]"]
    by (subst one [of 1], simp, subst one [of 2], simp) (simp del: puts_simps)
qed

text \<open>\<^verbatim>\<open>%2147483500d%2147483500d\<close> into a buffer of 64 bytes: the character at address 0 is overwritten.\<close>

theorem position_wraps_witness:
  "\<exists>m'. rt_vsnprintf 0x20000000 (\<lambda>_. 7) 64
      [37, 50, 49, 52, 55, 52, 56, 51, 53, 48, 48, 100, 37, 50, 49, 52, 55, 52, 56, 51, 53, 48, 48, 100] [AInt 1, AInt 2] =
     Some (- 296, m') \<and> m' 0 = 32"
proof -
  let ?t = "(replicate 2147483499 32 @ [49]) @ (replicate 2147483499 32 @ [50]) :: char8 list"
  have l: "length ?t = 4294967000"
    by simp
  have n: "?t ! 3758096384 = 32"
    by (simp add: nth_append)
  have f: "\<forall>lim st. format_loop lim [37, 50, 49, 52, 55, 52, 56, 51, 53, 48, 48, 100, 37, 50, 49, 52, 55, 52, 56, 51, 53, 48, 48, 100]
      [AInt 1, AInt 2] st = Some (puts lim ?t st)"
    using wide_format by blast
  have "length ?t < 4294967296" "4294967296 < unat (0x20000000 :: 32 word) + length ?t" "0 < lim_of 0x20000000 64"
    unfolding l by (simp_all add: lim_of_def)
  from position_wraps [OF f this, of "\<lambda>_. 7"] show ?thesis
    unfolding l using n by (simp add: int32_def)
qed

text \<open>The digits fit the sixteen bytes of \<^verbatim>\<open>tmp\<close>.\<close>

lemma digits_loop_length: "unat num < 10 ^ n \<Longrightarrow> length (digits_loop large base num) \<le> n"
proof (induction n arbitrary: num)
  case 0
  then have "num = 0"
    by (simp add: unat_eq_zero)
  then show ?case
    by (simp add: digits_loop.simps)
next
  case (Suc n)
  have "unat (snd (divide num base)) < 10 ^ n"
    using Suc.prems by (auto simp: divide_def unat_div less_mult_imp_div_less)
  then show ?case
    using Suc.IH by (subst digits_loop.simps) simp
qed

text \<open>A number has at most ten digits in any base, so the local buffer of sixteen bytes is never exceeded.\<close>

theorem number_digits_bound: "length (number_digits large base num) \<le> 10"
proof -
  have "unat num < 10 ^ 10"
    using unsigned_less [of num, where 'a = nat] by simp
  then show ?thesis
    using digits_loop_length [of num 10] by (simp add: number_digits_def)
qed

text \<open>Reading a decimal number back.\<close>

definition read_dec :: "char8 list \<Rightarrow> int" where
  "read_dec cs = foldl (\<lambda>a c. a * 10 + (uint c - 48)) 0 cs"

definition read_int :: "char8 list \<Rightarrow> int" where
  "read_int cs = (case cs of c # r \<Rightarrow> if c = 45 then - read_dec r else read_dec cs | [] \<Rightarrow> 0)"

lemma read_dec_snoc: "read_dec (cs @ [c]) = read_dec cs * 10 + (uint c - 48)"
  by (simp add: read_dec_def)

lemma digit_char_value:
  assumes "d < 10"
  shows "uint (digit_char large d) = 48 + int d"
proof -
  have "d = 0 \<or> d = 1 \<or> d = 2 \<or> d = 3 \<or> d = 4 \<or> d = 5 \<or> d = 6 \<or> d = 7 \<or> d = 8 \<or> d = 9"
    using assms by arith
  then show ?thesis
    by (elim disjE) (simp_all add: digit_char_def)
qed

lemma digits_loop_value: "read_dec (rev (digits_loop large 10 num)) = int (unat num)"
proof (induction "unat num" arbitrary: num rule: less_induct)
  case less
  show ?case
  proof (cases "num = 0")
    case True
    then show ?thesis
      by (simp add: digits_loop.simps read_dec_def)
  next
    case False
    have "unat (num div 10) < unat num"
      using False by (simp add: unat_div unat_gt_0)
    then have "read_dec (rev (digits_loop large 10 (num div 10))) = int (unat num div 10)"
      using less.hyps [of "num div 10"] by (simp add: unat_div)
    then show ?thesis
      using False by (subst digits_loop.simps)
        (simp add: divide_def read_dec_snoc digit_char_value unat_mod zdiv_int zmod_int)
  qed
qed

lemma digits_no_sign: "c \<in> set (number_digits large 10 num) \<Longrightarrow> c \<noteq> 45"
proof -
  have d: "digit_char l (n mod 10) \<noteq> 45" for l n
    using digit_char_value [of "n mod 10" l] by auto
  have "c \<in> set (digits_loop l 10 n) \<Longrightarrow> c \<noteq> 45" for l n
  proof (induction "unat n" arbitrary: n rule: less_induct)
    case less
    show ?case
    proof (cases "n = 0")
      case False
      then have "c = digit_char l (unat n mod 10) \<or> c \<in> set (digits_loop l 10 (n div 10))" "unat (n div 10) < unat n"
        using less.prems by (auto simp: digits_loop.simps [of l 10 n] divide_def unat_mod unat_div unat_gt_0)
      then show ?thesis
        using less.hyps [of "n div 10"] d [of l "unat n"] by metis
    qed (use less.prems in \<open>simp add: digits_loop.simps\<close>)
  qed
  then show "c \<in> set (number_digits large 10 num) \<Longrightarrow> c \<noteq> 45"
    by (auto simp: number_digits_def split: if_splits)
qed

lemma number_digits_value: "read_dec (rev (number_digits large 10 num)) = int (unat num)"
  using digits_loop_value [of large num] by (auto simp: number_digits_def read_dec_def)

text \<open>C33. Round trip: the text of \<^verbatim>\<open>%d\<close> read as a decimal number is the value of the argument, for all 32-bit values.\<close>

theorem print_signed_roundtrip:
  "\<exists>t. (\<forall>lim st. format_loop lim [37, 100] [AInt w] st = Some (puts lim t st)) \<and> read_int t = sint w"
proof -
  let ?fl = "no_flags\<lparr>SIGN := True\<rparr>"
  let ?t = "number_text w 10 (- 1) (- 1) ?fl"
  have f: "format_loop lim [37, 100] [AInt w] st = Some (puts lim ?t st)" for lim st
    by (simp add: parse_spec_def parse_width_def parse_precision_def parse_qualifier_def is_digit_def convert_def
        int_arg_def print_number_text Let_def no_flags_def)
  have fl: "SIGN ?fl" "\<not> PLUS ?fl" "\<not> SPACE ?fl" "\<not> LEFT ?fl" "\<not> ZEROPAD ?fl" "\<not> LARGE ?fl"
    by (simp_all add: no_flags_def)
  have "read_int ?t = sint w"
  proof (cases "sint w < 0")
    case True
    then have "?t = 45 # rev (number_digits False 10 (- w))"
      by (simp add: number_text_def number_sign_def fl Let_def)
    moreover have "int (unat (- w)) = - sint w"
    proof -
      have u: "\<not> uint w < 2147483648" "uint w < 4294967296"
        using True uint_bounded [of w] by (auto simp: sint_uint32 split: if_splits)
      have "uint (- w) = (- uint w) mod 4294967296"
        by (simp add: uint_word_ariths)
      also have "\<dots> = (4294967296 - uint w) mod 4294967296"
        by (simp add: mod_diff_left_eq [symmetric])
      also have "\<dots> = 4294967296 - uint w"
        using u by (intro mod_pos_pos_trivial) simp_all
      finally show ?thesis
        using u by (simp add: sint_uint32)
    qed
    ultimately show ?thesis
      by (simp add: read_int_def number_digits_value)
  next
    case False
    then have t: "?t = rev (number_digits False 10 w)"
      by (simp add: number_text_def number_sign_def fl Let_def)
    have "int (unat w) = sint w"
      using False uint_bounded [of w] by (auto simp: sint_uint32 split: if_splits)
    moreover have "read_int (rev (number_digits False 10 w)) = read_dec (rev (number_digits False 10 w))"
      using digits_no_sign [of _ False w] by (cases "rev (number_digits False 10 w)") (auto simp: read_int_def read_dec_def)
    ultimately show ?thesis
      using t by (simp add: number_digits_value)
  qed
  then show ?thesis
    using f by blast
qed

text \<open>The conversion \<^verbatim>\<open>%o\<close> prints the number in base sixteen.\<close>

theorem octal_is_hex:
  "convert lim 111 fl w p q args st = convert lim 120 fl w p q args st"
proof -
  have d: "digits_loop l 8 n = digits_loop l 16 n" for l n
  proof (induction "unat n" arbitrary: n rule: less_induct)
    case less
    have "divide n 8 = divide n 16"
      by (simp add: divide_def)
    moreover have "n \<noteq> 0 \<Longrightarrow> unat (snd (divide n 16)) < unat n"
      by (simp add: divide_def unat_div unat_gt_0)
    ultimately show ?case
      using less by (simp add: digits_loop.simps [of l 8 n] digits_loop.simps [of l 16 n])
  qed
  then have "number_text v 8 w p f = number_text v 16 w p f" for v w p f
    by (simp only: number_text_def number_digits_def d)
  then show ?thesis
    by (simp add: convert_def print_number_text Let_def split: list.split fmt_arg.split)
qed

text \<open>With a precision of zero every number is printed as nothing but its sign, not only zero.\<close>

theorem precision_zero_drops:
  assumes "0 \<le> sint v"
  shows "format_loop lim [37, 46, 48, 100] [AInt v] st = Some st"
proof -
  let ?fl = "no_flags\<lparr>SIGN := True\<rparr>"
  have f: "format_loop lim [37, 46, 48, 100] [AInt v] st = Some (puts lim (number_text v 10 (- 1) 0 ?fl) st)"
    by (simp add: parse_spec_def parse_width_def parse_precision_def parse_qualifier_def is_digit_def convert_def
        int_arg_def print_number_text Let_def no_flags_def)
  have "number_text v 10 (- 1) 0 ?fl = []"
    using assms by (simp add: number_text_def number_sign_def no_flags_def Let_def)
  then show ?thesis
    using f by simp
qed

theorem precision_zero_drops_witness: "format_loop 10 [37, 46, 48, 100] [AInt 42] (0, \<lambda>_. 0) = Some (0, \<lambda>_. 0)"
  by (rule precision_zero_drops) simp

lemma kprintf_short:
  assumes "\<forall>lim st. format_loop lim fmt args st = Some (puts lim t st)" "length t \<le> 126" "unat buf + 127 < 4294967296"
  shows "rt_kprintf buf m fmt args = Some (t, \<lambda>a. let i = unat (a - buf) in
    if i < length t then t ! i else if i = length t then 0 else m a)"
proof -
  let ?m = "\<lambda>a. let i = unat (a - buf) in if i < length t then t ! i else if i = length t then 0 else m a"
  have l: "lim_of buf 127 = 127"
    using assms(3) by (simp add: lim_of_def)
  have mn: "min (length t) (127 - 1) = length t"
    using assms(2) by simp
  have "unat buf + length t < 4294967296"
    using assms(2,3) by simp
  from vsnprintf_text [OF assms(1) this, of m 127]
  have r: "rt_vsnprintf buf m 127 fmt args = Some (int32 (length t), ?m)"
    unfolding l mn by (simp cong: if_cong)
  have n: "unat (word_of_int (int32 (length t)) :: 32 word) = length t"
    using assms(2) by (simp add: int32_def unat_of_nat)
  have "map (\<lambda>i. ?m (buf + of_nat i)) [0..<length t] = t"
    by (rule nth_equalityI) (use assms(2) in \<open>auto simp: Let_def unat_of_nat\<close>)
  then show ?thesis
    using assms(2) r n by (simp add: rt_kprintf_def RT_CONSOLEBUF_SIZE_def del: upt_rec_numeral)
qed

text \<open>When a message for the console is longer than 126 characters, the device gets 127 bytes, of which the last is the
  zero that ends the string.\<close>

theorem kprintf_truncated:
  assumes "\<forall>lim st. format_loop lim fmt args st = Some (puts lim t st)" "126 < length t" "unat buf + length t < 4294967296"
  shows "\<exists>m'. rt_kprintf buf m fmt args = Some (take 126 t @ [0], m')"
proof -
  let ?m = "\<lambda>a. let i = unat (a - buf) in if i < 126 then t ! i else if i = 126 then 0 else m a"
  have l: "lim_of buf 127 = 127" "length t < 4294967296"
    using assms(2,3) by (simp_all add: lim_of_def)
  have mn: "min (length t) (127 - 1) = 126"
    using assms(2) by simp
  have r: "rt_vsnprintf buf m 127 fmt args = Some (int32 (length t), ?m)"
    using vsnprintf_text [OF assms(1,3), of m 127] unfolding l mn by (simp cong: if_cong)
  have "(word_of_int (int32 (length t)) :: 32 word) = of_nat (length t)"
    by (simp flip: sint_of_nat32 [OF l(2)])
  then have n: "unat (word_of_int (int32 (length t)) :: 32 word) = length t"
    using l(2) by (simp add: unat_of_nat)
  have "rt_kprintf buf m fmt args = Some (map (\<lambda>i. ?m (buf + of_nat i)) [0..<127], ?m)"
    by (cases "length t = 127")
      (use assms(2) r n in \<open>simp_all add: rt_kprintf_def RT_CONSOLEBUF_SIZE_def del: upt_rec_numeral\<close>)
  moreover have "map (\<lambda>i. ?m (buf + of_nat i)) [0..<127] = take 126 t @ [0]"
    by (rule nth_equalityI)
      (use assms(2) in \<open>auto simp: nth_append Let_def unat_of_nat less_Suc_eq_le simp del: upt_rec_numeral\<close>)
  ultimately show ?thesis
    by auto
qed

theorem kprintf_truncated_witness:
  "\<exists>m'. rt_kprintf 0x20000000 (\<lambda>_. 1) [37, 49, 51, 48, 100] [AInt 5] = Some (replicate 126 32 @ [0], m')"
proof -
  let ?t = "replicate 129 32 @ [53] :: char8 list"
  have "format_loop lim [37, 49, 51, 48, 100] [AInt 5] st = Some (puts lim ?t st)" for lim st
    by (simp add: parse_spec_def parse_width_def parse_precision_def parse_qualifier_def is_digit_def convert_def
        int_arg_def print_number_text Let_def no_flags_def number_text_def number_sign_def number_digits_def
        digits_loop.simps [of False 10 5] digits_loop.simps [of False 10 0] divide_def digit_char_def)
  then show ?thesis
    using kprintf_truncated [of "[37, 49, 51, 48, 100]" "[AInt 5]" ?t "0x20000000" "\<lambda>_. 1"] by simp
qed

end
