(* ===== verification/Spec2Isabelle.thy ===== *)
theory Spec2Isabelle
  imports Prelude Color Vision Camera RtList Ffs Timer Sched Thread Ipc Sem Mutex Event BQueue Mailbox MsgQueue MemHeap MemAlloc Allocator SysHeap MemPool Ieee Gear RingBuffer
    Completion WaitQueue DataQueue WorkQueue Gc0328c CameraThread KString Printf
begin

text \<open>
  A quadruped robot on an ART-Pi board (STM32H750, one Cortex-M7 core) that runs RT-Thread.
  A camera fills a frame buffer of 320 by 480 by 3 bytes; the thread of
  \<^verbatim>\<open>applications/control.c\<close> looks in every frame for a coloured target and a coloured obstacle
  (\<^verbatim>\<open>untils/color.c\<close>), draws them on the display and sends their averaged boxes through a
  message queue to the gait thread of \<^verbatim>\<open>applications/gear_con.c\<close>, which drives eight servos.
  The threads, the timers and the queues are those of the RT-Thread kernel,
  \<^verbatim>\<open>rt-thread/src\<close>, in the configuration of \<^verbatim>\<open>rtconfig.h\<close>: one core, 32 priorities, no signals,
  soft timers on, hooks without effect. Paths are below \<^verbatim>\<open>src/art_pi_gc0328c\<close>.

  \<^bold>\<open>Vision.\<close>
  \<^item> \<open>Color\<close> (\<^verbatim>\<open>untils/color.c\<close>, \<^verbatim>\<open>color.h\<close>, \<^verbatim>\<open>lcd_spi_port.h\<close>): reading a pixel from the buffer
    (out of the buffer is \<open>None\<close>), \<open>RGB2HSL\<close>, \<open>ColorMatch\<close>. Ranges of the result and what the
    thresholds of the application accept.
  \<^item> \<open>Vision\<close> (\<^verbatim>\<open>untils/color.c\<close>): \<open>SearchCenter\<close>, \<open>Corrode\<close>, \<open>Draw\<close> and \<open>Trace\<close> with their 16-bit
    arithmetic. The nested search loops compute the first matching cross in scan order; the
    boxes stay in the search area and in the frame; the left border is where a probe leaves
    the buffer.
  \<^item> \<open>Camera\<close> (\<^verbatim>\<open>applications/control.c\<close>): \<open>Feature_Recognize_Start_Phoenix\<close>, one call per frame,
    as a function from its static variables and the frame to the new statics, the drawing
    commands and the message it sends.

  \<^bold>\<open>Kernel data structures.\<close>
  \<^item> \<open>RtList\<close> (\<^verbatim>\<open>include/rtservice.h\<close>): circular doubly linked and singly linked lists on a heap of
    nodes, refined to lists. The later theories use the abstract lists.
  \<^item> \<open>Ffs\<close> (\<^verbatim>\<open>src/kservice.c\<close>, \<^verbatim>\<open>libcpu/arm/cortex-m7/cpuport.c\<close>): the versions of \<open>__rt_ffs\<close> agree.

  \<^bold>\<open>Time and scheduling.\<close>
  \<^item> \<open>Timer\<close> (\<^verbatim>\<open>src/timer.c\<close>): the hard timer list with the modular 32-bit clock; the loop of
    \<open>rt_timer_check\<close> is a \<open>partial_function\<close>, since a periodic timer of length 0 makes it run for
    ever. A timeout function is a parameter, which may call the timer functions itself; \<open>timeout_ok\<close> says
    what the proofs need of it, and scripts of timer calls (\<open>perform\<close>) satisfy it. The list stays ordered by the
    distance to the deadline; with no periodic timer of length 0 the check returns and serves every due timer, and a
    one-shot timer that no timeout function touches fires exactly once at its tick.
  \<^item> \<open>Sched\<close> (\<^verbatim>\<open>src/scheduler.c\<close>): ready lists, the bitmap, the scheduler lock and \<open>rt_schedule\<close>,
    over the record \<open>kern\<close> that all later theories share.
  \<^item> \<open>Thread\<close> (\<^verbatim>\<open>src/thread.c\<close>, \<^verbatim>\<open>src/clock.c\<close>): the life cycle, sleeping, delays, time slices and
    the tick interrupt, which advances the clock and serves the thread timers.

  \<^bold>\<open>Communication\<close> (\<^verbatim>\<open>src/ipc.c\<close>).
  \<^item> \<open>Ipc\<close>: waiting lists, the locale \<open>wait_policy\<close> for the two queueing orders and the blocking
    sequence of all objects; \<open>ipc_inv\<close> is the kernel invariant with waiting lists.
  \<^item> \<open>Sem\<close>, \<open>Mutex\<close>, \<open>Event\<close>: the objects; blocking calls are two atomic pieces, before and after
    the reschedule. \<open>Sem.sem_step\<close> is a step relation refined to a counter.
  \<^item> \<open>BQueue\<close>: the locale \<open>bounded_queue\<close>, what a bounded FIFO promises; \<open>Mailbox\<close> and \<open>MsgQueue\<close>
    interpret it on their ring buffer and on the linked message blocks. The copy of a message
    runs with interrupts enabled, \<open>MsgQueue.mq_step\<close> interleaves senders and receivers there.

  \<^bold>\<open>Memory.\<close>
  \<^item> \<open>MemHeap\<close>, \<open>MemAlloc\<close> (\<^verbatim>\<open>src/memheap.c\<close>): the heap of \<^verbatim>\<open>RT_USING_MEMHEAP_AS_HEAP\<close> with its block headers in
    memory. \<open>heap_rep\<close> relates the linked headers to the list of blocks and the free list; allocation
    and release keep it, the blocks tile the heap and no two free ones are neighbours, so that after any history that
    ends with everything released the heap is one free block again (\<open>SysHeap.heap_all_free\<close>).
  \<^item> \<open>Allocator\<close>: the locale \<open>allocator\<close>, what an allocator promises, and what any client may then rely on.
  \<^item> \<open>SysHeap\<close> (\<^verbatim>\<open>src/memheap.c\<close>): initialisation, \<open>rt_memheap_realloc\<close> and the functions \<open>rt_malloc\<close>, \<open>rt_free\<close>,
    \<open>rt_realloc\<close>, \<open>rt_calloc\<close> over several heaps; interprets \<open>allocator\<close> for one heap and for all.
  \<^item> \<open>MemPool\<close> (\<^verbatim>\<open>src/mempool.c\<close>): pools of blocks of one size, the blocking allocation included; interprets \<open>allocator\<close>.

  \<^bold>\<open>Gait.\<close>
  \<^item> \<open>Ieee\<close>: the rounding of \<^verbatim>\<open>float\<close> and \<^verbatim>\<open>double\<close> to nearest, ties to even, on integers and fractions.
  \<^item> \<open>Gear\<close> (\<^verbatim>\<open>applications/gear_con.c\<close>, \<^verbatim>\<open>gear_con.h\<close>): the commands, the tables of poses, the servo pulses, the potential
    field. Whatever commands arrive, every pulse stays in the range of the servos.

  \<^bold>\<open>Device side IPC\<close> (\<^verbatim>\<open>components/drivers/src\<close>).
  \<^item> \<open>RingBuffer\<close>: the mirrored byte ring, refined to a bounded queue and to the history of what was put in.
  \<^item> \<open>Completion\<close>, \<open>WaitQueue\<close>, \<open>DataQueue\<close>, \<open>WorkQueue\<close>: completions, wait queues with their wakeup functions, queues of
    data items with watermarks, and deferred work with its worker thread and timers; each over the records \<open>kern\<close>
    and, where it allocates, \<open>mem\<close>. \<open>DataQueue.dq_step\<close> and \<open>WorkQueue.wk_step\<close> are step relations with every public
    call and every resumed half of a waiting one. The pending flag of a work agrees with the lists of the queue unless
    \<open>rt_workqueue_critical_work\<close>, \<open>rt_workqueue_cancel_all_work\<close> or a repeated initialisation is called; with those only the weaker
    invariant holds.

  \<^bold>\<open>The camera.\<close>
  \<^item> \<open>Gc0328c\<close> (\<^verbatim>\<open>libraries/drivers/drv_gc0328c.c\<close>): register tables, configuration over the bus, the conversions of pixels and
    the frame interrupt. \<open>CameraThread\<close> (\<^verbatim>\<open>applications/control.c\<close>): the queues and the thread that waits for frames.
  \<^item> The end of this theory joins driver, event, handler and queue: a frame wakes the camera thread and is what it then
    reads (\<open>frame_reaches_camera\<close>), and the reports nobody receives fill their queue (\<open>reports_pile_up\<close>).

  \<^bold>\<open>Service library\<close> (\<^verbatim>\<open>src/kservice.c\<close>).
  \<^item> \<open>KString\<close>: the memory and string functions against their bytewise meaning, \<open>rt_strdup\<close> and the aligned allocation over
    the heap. \<open>Printf\<close>: \<open>rt_vsnprintf\<close>, whose position is a 32-bit pointer: below the top of the address space the result
    is the prefix of the text, beyond it the position wraps (\<open>position_wraps\<close>); and what \<open>rt_kprintf\<close> sends to the console.

  \<^bold>\<open>Conventions.\<close> A failed assertion, an access outside a buffer and the read of an
  uninitialised variable are \<open>None\<close>; error codes are the values of \<open>rt_err\<close>. Sizes and counters
  that wrap keep their width as words, or the modulus is written out. Code that runs with
  interrupts disabled is one step. No definition uses fuel: a loop that may not end is a \<open>partial_function\<close>, where
  \<open>None\<close> stands for running for ever too, so a theorem with a result \<open>Some\<close> says that the code returns.

  \<^bold>\<open>Not modelled.\<close> The context switch and the stacks, the idle loop, the register accesses of the peripheral drivers,
  the HAL and the other vendored libraries, the shell, file systems and the network stack, which the application does not
  call; the SMP variants, signals and the allocators that \<^verbatim>\<open>rtconfig.h\<close> leaves out. Object names and registration are left
  out of the theories of the kernel objects; \<open>rt_workqueue_create\<close> and the choice of the console device are missing.
\<close>

section \<open>The camera: from the interrupt to the reports\<close>

text \<open>C7. A camera thread that waits alone for its event is woken by the end of the next frame, with the event cleared again for
  the frame after it, and the image it then reads is the one the interrupt converted.\<close>

theorem frame_reaches_camera:
  assumes "can_block t k" "event_ok o' e k" "ev_set e AND 1 = 0" "lists k (LSuspend o') = []"
  shows "\<exists>k1 d' k2 e2. camera_await o' e k = Some (k1, e, Waits) \<and>
    camera_frame_data_process o' line1 buf0 buf1 d e k1 = Some (d', k2, e2) \<and> ipc_inv k2 \<and>
    active_stat (stat k2 t) \<and> rt_event_recv_resume t k2 = (Some 1, RT_EOK) \<and> ev_set e2 = ev_set e \<and>
    lists k2 (LSuspend o') = [] \<and>
    (\<forall>x y. x < 320 \<longrightarrow> y < 240 \<longrightarrow>
       ReadColor d' x y = (let src = if line1 then buf1 else buf0; j = 2 * (320 * y + x) in Some (rgb565_pixel (src j) (src (j + 1)))))"
proof -
  let ?opt = "RT_EVENT_FLAG_AND OR RT_EVENT_FLAG_CLEAR"
  have opt: "?opt AND RT_EVENT_FLAG_AND \<noteq> 0" "?opt AND RT_EVENT_FLAG_CLEAR \<noteq> 0"
    by (simp_all add: RT_EVENT_FLAG_AND_def RT_EVENT_FLAG_CLEAR_def)
  have ns: "\<not> satisfied ?opt 1 (ev_set e)"
    using assms(3) opt(1) by (simp add: satisfied_def and.commute)
  have single: "wait_insert (ev_flag e) (prio k) t [] = [t]"
    by (cases "ev_flag e") simp_all
  obtain k1 where k1: "rt_event_recv o' 1 ?opt (- 1) e k = Some (k1, e, Waits)" "ipc_inv k1" "err k1 t = RT_EOK"
    "cur k1 \<noteq> None" "conds k1 t = (?opt, 1)" "lists k1 (LSuspend o') = [t]"
    using recv_blocks [OF assms(1,2), of 1 "- 1" ?opt] ns opt(1) assms(4) by (auto simp: single)
  obtain c where c: "cur k1 = Some c"
    using k1(4) by auto
  have "satisfied ?opt 1 (ev_set e OR 1)" "delivered ?opt 1 (ev_set e OR 1) = 1"
    using opt(1) by (simp_all add: satisfied_def delivered_def and.commute bit.conj_disj_distrib)
  then have sv: "serve (conds k1) [t] (ev_set e OR 1) = ([(t, 1)], ev_set e)"
    using opt(2) k1(5) and_one_or [OF assms(3)] by (simp add: serve_Cons unserved_def flags_left_def)
  obtain k2 e2 where k2: "rt_event_send o' 1 e k1 = Some (k2, e2, RT_EOK)" "ipc_inv k2" "ev_set e2 = ev_set e"
    "lists k2 (LSuspend o') = []" "active_stat (stat k2 t)" "err k2 t = RT_EOK" "t_evset (tcbs k2 t) = 1"
    using event_send_step [OF k1(2) c, of 1 o' e] sv k1(3,6) by auto
  let ?d' = "\<lambda>q. if 0 \<le> q \<and> q < 960 * 240 then pix_byte (if line1 then buf1 else buf0) q else d q"
  have "camera_frame_data_process o' line1 buf0 buf1 d e k1 = Some (?d', k2, e2)"
    using k2(1) by (simp add: camera_frame_eq)
  moreover have "\<forall>x y. x < 320 \<longrightarrow> y < 240 \<longrightarrow>
      ReadColor ?d' x y = (let src = if line1 then buf1 else buf0; j = 2 * (320 * y + x) in Some (rgb565_pixel (src j) (src (j + 1))))"
    unfolding Let_def by (intro allI impI ReadColor_converted)
  moreover have "rt_event_recv_resume t k2 = (Some 1, RT_EOK)"
    using k2(6,7) by (simp add: rt_event_recv_resume_def)
  ultimately show ?thesis
    using k1(1) k2(2-5) unfolding camera_await_def by blast
qed

text \<open>Before the first frame the camera thread waits.\<close>

theorem frame_reaches_camera_witness:
  "\<exists>k1 d' k2 e2. camera_await 0 \<lparr>ev_set = 0, ev_flag = RT_IPC_FLAG_FIFO\<rparr> kern_example =
       Some (k1, \<lparr>ev_set = 0, ev_flag = RT_IPC_FLAG_FIFO\<rparr>, Waits) \<and>
     camera_frame_data_process 0 False of_nat (\<lambda>_. 0) (\<lambda>_. 0) \<lparr>ev_set = 0, ev_flag = RT_IPC_FLAG_FIFO\<rparr> k1 = Some (d', k2, e2) \<and>
     rt_event_recv_resume 1 k2 = (Some 1, RT_EOK) \<and> ev_set e2 = 0 \<and>
     ReadColor d' 319 239 = Some \<lparr>Red = 248, Green = 252, Blue = 240\<rparr>"
proof -
  let ?e = "\<lparr>ev_set = 0, ev_flag = RT_IPC_FLAG_FIFO\<rparr>"
  have 1: "(319 :: nat) < 320" "(239 :: nat) < 240"
    by simp_all
  have 2: "2 * (320 * 239 + 319 :: nat) = 153598" "(153598 + 1 :: nat) = 153599"
    by simp_all
  have 3: "rgb565_pixel (of_nat 153598) (of_nat 153599) = \<lparr>Red = 248, Green = 252, Blue = 240\<rparr>"
    by (simp add: rgb565_pixel_def)
  have ok: "event_ok 0 ?e kern_example" "ev_set ?e AND 1 = 0" "lists kern_example (LSuspend 0) = []" "ev_set ?e = 0"
    by (simp_all add: event_ok_def kern_example_waits)
  show ?thesis
    using frame_reaches_camera [OF kern_example_can_block ok(1-3), of False of_nat "\<lambda>_. 0" "\<lambda>_. 0"] 1
    unfolding Let_def if_False ok(4) by (metis 2 3)
qed

text \<open>C10. Nobody receives from the queue of the reports. With a fresh queue and a camera that sees neither colour, every fiftieth
  frame posts a report at its head; after 170 reports the queue is full, and from then on every report is refused.
  No other state of the kernel changes, and every message in the queue says that the target is lost.\<close>

theorem reports_pile_up:
  assumes "mesgq_sample o' pool k0 = (k, q)" "\<And>b. length (pool b) = 20"
    and "list_all (\<lambda>fb. blank (condition ! 0) fb \<and> blank (condition ! 1) fb) fbs"
  shows "\<exists>s' q'. let n = length fbs div 50 in
    camera_frames o' fbs cam_init q k =
      Some (s', replicate (min n 170) (Done RT_EOK) @ replicate (n - 170) (Done RT_EFULL), q', k) \<and>
    length (msgs q') = min n 170 \<and>
    list_all (\<lambda>m. \<exists>d. take 18 m = des_bytes d \<and> length d = 9 \<and> d ! 8 = 2) (msgs q')"
proof -
  note f = mesgq_sample_fresh [OF assms(1,2)]
  have "quiet o' cam_init q k"
    using f by (simp add: quiet_def cam_inv_def cam_init_def nth_append)
  from quiet_frames [OF this assms(3)] f cam_init_simps(1) show ?thesis
    by (auto simp: quiet_def Let_def)
qed

text \<open>Seven and a half minutes of darkness at twenty frames a second.\<close>

theorem reports_pile_up_witness:
  "\<exists>s' q'. camera_frames 0 (replicate 9000 (\<lambda>_. 0)) cam_init (snd (mesgq_sample 0 (\<lambda>_. replicate 20 0) kern_example))
       (fst (mesgq_sample 0 (\<lambda>_. replicate 20 0) kern_example)) =
     Some (s', replicate 170 (Done RT_EOK) @ replicate 10 (Done RT_EFULL), q',
       fst (mesgq_sample 0 (\<lambda>_. replicate 20 0) kern_example)) \<and> length (msgs q') = 170"
proof -
  obtain k q where m: "mesgq_sample 0 (\<lambda>_. replicate 20 0) kern_example = (k, q)"
    by fastforce
  have "list_all (\<lambda>fb. blank (condition ! 0) fb \<and> blank (condition ! 1) fb) (replicate n (\<lambda>_. 0))" for n
    by (simp add: list_all_iff blank_black)
  from reports_pile_up [OF m _ this [of 9000]] show ?thesis
    unfolding m Let_def by auto
qed

end
